(* ===== verification/Prelude.thy ===== *)
theory Prelude
  imports Main "HOL-Library.Word"
begin

text \<open>
  Shared vocabulary of the development: the result type of kernel code, the C integer
  types, the constants of \<open>kernel/param.h\<close>, \<open>kernel/riscv.h\<close> and \<open>kernel/memlayout.h\<close>,
  generic invariants of transition systems, and the two container contracts (queue and
  stack) that the page allocators and ring buffers are shown to implement.
\<close>

unbundle bit_operations_syntax

section \<open>C integer types\<close>

type_synonym u8 = "8 word"
type_synonym u16 = "16 word"
type_synonym u32 = "32 word"
type_synonym u64 = "64 word"

lemma sint_of_nat32: "k < 2 ^ 31 \<Longrightarrow> sint (of_nat k :: u32) = int k"
proof -
  assume "k < 2 ^ 31"
  then have "int k < 2 ^ (32 - 1)" by simp
  then show ?thesis by (simp add: signed_of_nat signed_take_bit_int_eq_self)
qed


lemma unat_lt_2_64: "unat (x :: u64) < 2 ^ 64"
  by (rule order_less_le_trans[OF unsigned_less]) simp

text \<open>Layout constants: bytes per page, the top of physical memory, the highest virtual
  address and the pages mapped there.\<close>

definition PGSIZE :: u64 where "PGSIZE = 4096"
definition KERNBASE :: u64 where "KERNBASE = 0x80000000"
definition PHYSTOP :: u64 where "PHYSTOP = 0x88000000"
definition MAXVA :: u64 where "MAXVA = 0x4000000000"
definition TRAMPOLINE :: u64 where "TRAMPOLINE = MAXVA - PGSIZE"
definition TRAPFRAME :: u64 where "TRAPFRAME = TRAMPOLINE - PGSIZE"

definition PGROUNDUP :: "u64 \<Rightarrow> u64" where
  "PGROUNDUP sz = (sz + PGSIZE - 1) AND NOT (PGSIZE - 1)"

definition PGROUNDDOWN :: "u64 \<Rightarrow> u64" where
  "PGROUNDDOWN a = a AND NOT (PGSIZE - 1)"

section \<open>Results of kernel code\<close>

text \<open>
  A kernel function run to completion by one thread either returns (\<open>Ok\<close>), calls
  \<open>panic\<close> with a message, or does not return on its own (\<open>Hang\<close>): it spins on a lock
  another CPU holds, sleeps until another thread wakes it, or loops.
\<close>

datatype 'a res = Ok 'a | Panic string | Hang

definition bindR :: "'a res \<Rightarrow> ('a \<Rightarrow> 'b res) \<Rightarrow> 'b res" where
  "bindR m f = (case m of Ok x \<Rightarrow> f x | Panic msg \<Rightarrow> Panic msg | Hang \<Rightarrow> Hang)"

named_theorems res_iff

lemma bindR_simps [simp]:
  "bindR (Ok x) f = f x" "bindR (Panic m) f = Panic m" "bindR Hang f = Hang"
  by (simp_all add: bindR_def)

lemma bindR_Ok_iff [res_iff]: "bindR m f = Ok y \<longleftrightarrow> (\<exists>x. m = Ok x \<and> f x = Ok y)"
  by (cases m) auto

lemma bindR_Panic_iff [res_iff]:
  "bindR m f = Panic e \<longleftrightarrow> m = Panic e \<or> (\<exists>x. m = Ok x \<and> f x = Panic e)"
  by (cases m) auto

lemma bindR_assoc: "bindR (bindR m f) g = bindR m (\<lambda>x. bindR (f x) g)"
  by (cases m) auto

lemma bindR_cong [fundef_cong]:
  "m = m' \<Longrightarrow> (\<And>x. m' = Ok x \<Longrightarrow> f x = g x) \<Longrightarrow> bindR m f = bindR m' g"
  by (cases m') auto

lemma if_Ok_iff [res_iff]: "(if b then Panic e else m) = Ok y \<longleftrightarrow> \<not> b \<and> m = Ok y"
  by auto

text \<open>A loop whose body may fail, over a list of loop values.\<close>

fun iterR :: "('a \<Rightarrow> 's \<Rightarrow> 's res) \<Rightarrow> 'a list \<Rightarrow> 's \<Rightarrow> 's res" where
  "iterR f [] s = Ok s"
| "iterR f (x # xs) s = bindR (f x s) (iterR f xs)"

lemma iterR_append: "iterR f (xs @ ys) s = bindR (iterR f xs s) (iterR f ys)"
  by (induction xs arbitrary: s) (auto simp: bindR_assoc intro: bindR_cong)

lemma iterR_inv:
  assumes "P s" "\<And>x s s'. x \<in> set xs \<Longrightarrow> P s \<Longrightarrow> f x s = Ok s' \<Longrightarrow> P s'" "iterR f xs s = Ok s'"
  shows "P s'"
  using assms by (induction xs arbitrary: s) (auto simp: res_iff)

text \<open>When every step succeeds with a known result, the loop is a fold.\<close>

lemma iterR_fold:
  assumes "I s" "\<And>x s. x \<in> set xs \<Longrightarrow> I s \<Longrightarrow> f x s = Ok (g x s) \<and> I (g x s)"
  shows "iterR f xs s = Ok (fold g xs s) \<and> I (fold g xs s)"
  using assms by (induction xs arbitrary: s) auto

section \<open>Transition systems and inductive invariants\<close>

inductive reach :: "('s \<Rightarrow> bool) \<Rightarrow> ('s \<Rightarrow> 's \<Rightarrow> bool) \<Rightarrow> 's \<Rightarrow> bool"
  for init :: "'s \<Rightarrow> bool" and step :: "'s \<Rightarrow> 's \<Rightarrow> bool" where
  reach_init: "init s \<Longrightarrow> reach init step s"
| reach_step: "reach init step s \<Longrightarrow> step s t \<Longrightarrow> reach init step t"

locale inductive_invariant =
  fixes init :: "'s \<Rightarrow> bool" and step :: "'s \<Rightarrow> 's \<Rightarrow> bool" and inv :: "'s \<Rightarrow> bool"
  assumes inv_init: "init s \<Longrightarrow> inv s"
    and inv_step: "inv s \<Longrightarrow> step s t \<Longrightarrow> inv t"
begin

lemma reach_inv: "reach init step s \<Longrightarrow> inv s"
  by (induction rule: reach.induct) (auto intro: inv_init inv_step)

end

section \<open>Container contracts\<close>

text \<open>
  A component that stores items and hands them back: \<open>put\<close> may refuse an item, \<open>get\<close>
  returns nothing when there is nothing to hand out. \<open>holds s xs\<close> says that the state
  is well formed and stores \<open>xs\<close>.
\<close>

locale store =
  fixes put :: "'a \<Rightarrow> 's \<Rightarrow> 's option" and get :: "'s \<Rightarrow> ('a \<times> 's) option"
    and holds :: "'s \<Rightarrow> 'a list \<Rightarrow> bool" and add :: "'a \<Rightarrow> 'a list \<Rightarrow> 'a list"
  assumes put_holds: "holds s xs \<Longrightarrow> put x s = Some t \<Longrightarrow> holds t (add x xs)"
    and get_holds: "holds s (x # xs) \<Longrightarrow> \<exists>t. get s = Some (x, t) \<and> holds t xs"
    and get_empty: "holds s [] \<Longrightarrow> get s = None"
begin

lemma get_Some: "holds s xs \<Longrightarrow> get s = Some (x, t) \<Longrightarrow> \<exists>ys. xs = x # ys \<and> holds t ys"
  by (cases xs) (use get_empty get_holds in fastforce)+

lemma get_None: "holds s xs \<Longrightarrow> get s = None \<longleftrightarrow> xs = []"
  by (cases xs) (use get_empty get_holds in fastforce)+

end

datatype 'a store_op = Put 'a | Get

fun run_ops :: "('a \<Rightarrow> 's \<Rightarrow> 's option) \<Rightarrow> ('s \<Rightarrow> ('a \<times> 's) option) \<Rightarrow>
    'a store_op list \<Rightarrow> 's \<Rightarrow> 'a list \<times> 'a list \<times> 's" where
  "run_ops put get [] s = ([], [], s)"
| "run_ops put get (Put x # ops) s =
     (case put x s of
        None \<Rightarrow> run_ops put get ops s
      | Some t \<Rightarrow> (let (ins, outs, u) = run_ops put get ops t in (x # ins, outs, u)))"
| "run_ops put get (Get # ops) s =
     (case get s of
        None \<Rightarrow> run_ops put get ops s
      | Some (x, t) \<Rightarrow> (let (ins, outs, u) = run_ops put get ops t in (ins, x # outs, u)))"

locale fifo = store put get holds "\<lambda>x xs. xs @ [x]"
  for put :: "'a \<Rightarrow> 's \<Rightarrow> 's option" and get :: "'s \<Rightarrow> ('a \<times> 's) option"
    and holds :: "'s \<Rightarrow> 'a list \<Rightarrow> bool"
begin

text \<open>First in, first out over any history: what came out, followed by what is still
  stored, is what was stored at the start followed by what went in.\<close>

lemma run_fifo:
  "holds s xs \<Longrightarrow> run_ops put get ops s = (ins, outs, t) \<Longrightarrow>
     \<exists>ys. holds t ys \<and> outs @ ys = xs @ ins"
proof (induction ops arbitrary: s xs ins outs t)
  case Nil
  then show ?case by auto
next
  case (Cons a ops)
  show ?case
  proof (cases a)
    case (Put x)
    then show ?thesis using Cons put_holds
      by (fastforce split: option.splits prod.splits)
  next
    case Get
    then show ?thesis using Cons get_Some
      by (fastforce split: option.splits prod.splits)
  qed
qed

end

locale lifo = store put get holds "(#)"
  for put :: "'a \<Rightarrow> 's \<Rightarrow> 's option" and get :: "'s \<Rightarrow> ('a \<times> 's) option"
    and holds :: "'s \<Rightarrow> 'a list \<Rightarrow> bool"
begin

lemma put_get: "holds s xs \<Longrightarrow> put x s = Some t \<Longrightarrow> \<exists>u. get t = Some (x, u) \<and> holds u xs"
  using put_holds get_holds by blast

end

end
