(* ===== verification/Mem.thy ===== *)
theory Mem
  imports Prelude
begin

text \<open>
  Physical memory as the kernel sees it: one byte per 64-bit address, little-endian
  64-bit loads and stores (pointers, page table entries), and the block operations
  \<open>memset\<close>, \<open>memmove\<close>, \<open>memcmp\<close> of \<open>kernel/string.c\<close> over it.
\<close>

type_synonym mem = "u64 \<Rightarrow> u8"

section \<open>Byte sequences\<close>

fun read_bytes :: "mem \<Rightarrow> u64 \<Rightarrow> nat \<Rightarrow> u8 list" where
  "read_bytes m a 0 = []"
| "read_bytes m a (Suc n) = m a # read_bytes m (a + 1) n"

fun write_bytes :: "mem \<Rightarrow> u64 \<Rightarrow> u8 list \<Rightarrow> mem" where
  "write_bytes m a [] = m"
| "write_bytes m a (b # bs) = write_bytes (m(a := b)) (a + 1) bs"

text \<open>Little-endian encodings: the first byte is the least significant one.\<close>

fun le_word :: "u8 list \<Rightarrow> u64" where
  "le_word [] = 0"
| "le_word (b # bs) = ucast b OR push_bit 8 (le_word bs)"

fun le_bytes :: "nat \<Rightarrow> u64 \<Rightarrow> u8 list" where
  "le_bytes 0 w = []"
| "le_bytes (Suc n) w = ucast w # le_bytes n (drop_bit 8 w)"

definition load64 :: "mem \<Rightarrow> u64 \<Rightarrow> u64" where
  "load64 m a = le_word (read_bytes m a 8)"

definition store64 :: "mem \<Rightarrow> u64 \<Rightarrow> u64 \<Rightarrow> mem" where
  "store64 m a w = write_bytes m a (le_bytes 8 w)"

section \<open>kernel/string.c: block operations\<close>

text \<open>\<open>memset\<close>: the loop counter runs from 0; each byte is the low byte of \<open>c\<close>.\<close>

fun memset_loop :: "mem \<Rightarrow> u64 \<Rightarrow> u8 \<Rightarrow> nat \<Rightarrow> nat \<Rightarrow> mem" where
  "memset_loop m dst c i 0 = m"
| "memset_loop m dst c i (Suc k) = memset_loop (m(dst + of_nat i := c)) dst c (Suc i) k"

definition memset :: "mem \<Rightarrow> u64 \<Rightarrow> u8 \<Rightarrow> nat \<Rightarrow> mem" where
  "memset m dst c n = memset_loop m dst c 0 n"

text \<open>The two copy loops of \<open>memmove\<close>.\<close>

fun copy_up :: "mem \<Rightarrow> u64 \<Rightarrow> u64 \<Rightarrow> nat \<Rightarrow> mem" where
  "copy_up m d s 0 = m"
| "copy_up m d s (Suc n) = copy_up (m(d := m s)) (d + 1) (s + 1) n"

fun copy_down :: "mem \<Rightarrow> u64 \<Rightarrow> u64 \<Rightarrow> nat \<Rightarrow> mem" where
  "copy_down m d s 0 = m"
| "copy_down m d s (Suc n) = copy_down (m(d - 1 := m (s - 1))) (d - 1) (s - 1) n"

definition memmove :: "mem \<Rightarrow> u64 \<Rightarrow> u64 \<Rightarrow> nat \<Rightarrow> mem" where
  "memmove m dst src n =
     (if n = 0 then m
      else if src < dst \<and> src + of_nat n > dst
      then copy_down m (dst + of_nat n) (src + of_nat n) n
      else copy_up m dst src n)"

fun memcmp :: "mem \<Rightarrow> u64 \<Rightarrow> u64 \<Rightarrow> nat \<Rightarrow> int" where
  "memcmp m s1 s2 0 = 0"
| "memcmp m s1 s2 (Suc n) =
     (if m s1 \<noteq> m s2 then uint (m s1) - uint (m s2) else memcmp m (s1 + 1) (s2 + 1) n)"

definition memcpy :: "mem \<Rightarrow> u64 \<Rightarrow> u64 \<Rightarrow> nat \<Rightarrow> mem" where
  "memcpy m dst src n = memmove m dst src n"

text \<open>\<open>user/ulib.c\<close> has its own \<open>memmove\<close>, which chooses the direction by comparing the
  two pointers only.\<close>

definition ulib_memmove :: "mem \<Rightarrow> u64 \<Rightarrow> u64 \<Rightarrow> nat \<Rightarrow> mem" where
  "ulib_memmove m dst src n =
     (if src > dst then copy_up m dst src n
      else copy_down m (dst + of_nat n) (src + of_nat n) n)"

section \<open>Loads and stores\<close>

lemma read_bytes_nth: "i < n \<Longrightarrow> read_bytes m a n ! i = m (a + of_nat i)"
proof (induction n arbitrary: a i)
  case (Suc n)
  then show ?case by (cases i) (auto simp: algebra_simps)
qed simp

lemma length_read_bytes [simp]: "length (read_bytes m a n) = n"
  by (induction n arbitrary: a) auto

lemma read_bytes_conv: "read_bytes m a n = map (\<lambda>i. m (a + of_nat i)) [0..<n]"
  by (rule nth_equalityI) (auto simp: read_bytes_nth)

lemma write_bytes_other:
  "(\<And>i. i < length bs \<Longrightarrow> x \<noteq> a + of_nat i) \<Longrightarrow> write_bytes m a bs x = m x"
proof (induction bs arbitrary: m a)
  case (Cons b bs)
  have "x \<noteq> a" using Cons.prems[of 0] by simp
  moreover have "x \<noteq> a + 1 + of_nat i" if "i < length bs" for i
    using Cons.prems[of "Suc i"] that by (simp add: algebra_simps)
  ultimately show ?case using Cons.IH by simp
qed simp

lemma of_nat_u64_inj: "i < 2 ^ 64 \<Longrightarrow> j < 2 ^ 64 \<Longrightarrow> (of_nat i :: u64) = of_nat j \<longleftrightarrow> i = j"
  by (simp add: word_of_nat_eq_iff take_bit_nat_eq_self)

lemma write_bytes_in:
  "i < length bs \<Longrightarrow> length bs < 2 ^ 64 \<Longrightarrow> write_bytes m a bs (a + of_nat i) = bs ! i"
proof (induction bs arbitrary: m a i)
  case (Cons b bs)
  show ?case
  proof (cases i)
    case 0
    have "a \<noteq> a + 1 + of_nat j" if "j < length bs" for j
    proof
      assume "a = a + 1 + of_nat j"
      then have "(of_nat (Suc j) :: u64) = of_nat 0" by simp
      with that Cons.prems(2) show False using of_nat_u64_inj[of "Suc j" 0] by simp
    qed
    then show ?thesis using 0 by (simp add: write_bytes_other)
  next
    case (Suc j)
    have "write_bytes (m(a := b)) (a + 1) bs (a + 1 + of_nat j) = bs ! j"
      by (rule Cons.IH) (use Suc Cons.prems in simp_all)
    then show ?thesis using Suc by (simp add: ac_simps)
  qed
qed simp

lemma length_le_bytes [simp]: "length (le_bytes n w) = n"
  by (induction n arbitrary: w) auto

lemma le_word_le_bytes: "le_word (le_bytes n w) = take_bit (8 * n) w"
proof (induction n arbitrary: w)
  case (Suc n)
  have "ucast (ucast w :: u8) OR push_bit 8 (take_bit (8 * n) (drop_bit 8 w)) = take_bit (8 + 8 * n) w"
    by (rule bit_eqI) (auto simp: bit_simps)
  then show ?case using Suc by simp
qed simp

lemma le_bytes_inverse [simp]: "le_word (le_bytes 8 w) = w"
  using le_word_le_bytes[of 8 w] by (simp add: take_bit_word_eq_self)

lemma load_store64 [simp]: "load64 (store64 m a w) a = w"
proof -
  have "read_bytes (store64 m a w) a 8 = le_bytes 8 w"
    by (rule nth_equalityI) (auto simp: read_bytes_nth store64_def write_bytes_in)
  then show ?thesis by (simp add: load64_def)
qed

lemma load64_cong: "(\<And>i. i < 8 \<Longrightarrow> m (a + of_nat i) = m' (a + of_nat i)) \<Longrightarrow> load64 m a = load64 m' a"
  unfolding load64_def read_bytes_conv by (rule arg_cong[where f = le_word]) auto

lemma store64_other: "(\<And>i. i < 8 \<Longrightarrow> x \<noteq> a + of_nat i) \<Longrightarrow> store64 m a w x = m x"
  unfolding store64_def by (rule write_bytes_other) simp

section \<open>Pages and aligned words\<close>

text \<open>Every address is a page number and an offset below 4096; two pages do not overlap.\<close>

definition page_of :: "u64 \<Rightarrow> u64" where "page_of a = drop_bit 12 a"

abbreviation aligned :: "u64 \<Rightarrow> bool" where "aligned a \<equiv> take_bit 12 a = 0"

lemma aligned_bit: "aligned p \<Longrightarrow> n < 12 \<Longrightarrow> \<not> bit p n"
  using bit_take_bit_iff[of 12 p n] by simp

lemma nat_bit_bound: "i < 2 ^ k \<Longrightarrow> bit (i :: nat) n \<Longrightarrow> n < k"
  by (metis bit_take_bit_iff take_bit_nat_eq_self)

lemma small_of_nat_bit: "i < 4096 \<Longrightarrow> bit (of_nat i :: u64) n \<Longrightarrow> n < 12"
  using nat_bit_bound[of i 12 n] by (simp add: bit_simps)

lemma u64_bit_bound: "unat (a :: u64) < 2 ^ k \<Longrightarrow> bit a n \<Longrightarrow> n < k"
proof -
  assume "unat a < 2 ^ k" "bit a n"
  then have "bit (unat a) n" by (simp add: bit_unsigned_iff bit_imp_le_length)
  with \<open>unat a < 2 ^ k\<close> show "n < k" by (rule nat_bit_bound)
qed

lemma plus_disjoint_or: "aligned p \<Longrightarrow> i < 4096 \<Longrightarrow> p + of_nat i = p OR of_nat i"
  by (rule disjunctive_add) (metis aligned_bit small_of_nat_bit)

lemma page_of_offset [simp]: "aligned p \<Longrightarrow> i < 4096 \<Longrightarrow> page_of (p + of_nat i) = page_of p"
  unfolding page_of_def plus_disjoint_or
  by (rule bit_eqI) (auto simp: bit_simps dest: nat_bit_bound[of i 12, simplified])

lemma page_of_inj: "aligned p \<Longrightarrow> aligned q \<Longrightarrow> page_of p = page_of q \<longleftrightarrow> p = q"
proof
  assume "aligned p" "aligned q" "page_of p = page_of q"
  then show "p = q"
    using bits_ident[of 12 p] bits_ident[of 12 q] by (simp add: page_of_def)
qed simp

lemma u64_nowrap:
  "unat a + i < 2 ^ 64 \<Longrightarrow> unat (a + of_nat i) = unat (a :: u64) + i"
  by (simp add: unat_word_ariths unat_of_nat take_bit_nat_eq_self)

lemma PGROUNDDOWN_eq: "PGROUNDDOWN a = a - take_bit 12 a"
proof -
  have "a AND NOT (mask 12) = push_bit 12 (drop_bit 12 a)"
    by (rule bit_eqI) (auto simp: bit_simps)
  also have "\<dots> = a - take_bit 12 a"
    using bits_ident[of 12 a] by (metis add_diff_cancel_right')
  finally show ?thesis by (simp add: PGROUNDDOWN_def PGSIZE_def mask_eq_exp_minus_1)
qed

lemma unat_take12: "unat (take_bit 12 (a :: u64)) = unat a mod 4096"
  unfolding unsigned_take_bit_eq by (simp add: take_bit_eq_mod)

lemma unat_PGROUNDDOWN: "unat (PGROUNDDOWN a) = unat a div 4096 * 4096"
proof -
  note unat_take12[of a]
  moreover from this have "take_bit 12 a \<le> a" by (simp add: word_le_nat_alt)
  ultimately show ?thesis
    by (simp add: PGROUNDDOWN_eq unat_sub minus_mod_eq_div_mult)
qed

lemma PGROUNDUP_down: "PGROUNDUP a = PGROUNDDOWN (a + 4095)"
  by (simp add: PGROUNDUP_def PGROUNDDOWN_def PGSIZE_def add_diff_eq[symmetric])

lemma unat_PGROUNDUP: "unat a + 4095 < 2 ^ 64 \<Longrightarrow> unat (PGROUNDUP a) = (unat a + 4095) div 4096 * 4096"
  using u64_nowrap[of a 4095] by (simp add: PGROUNDUP_down unat_PGROUNDDOWN)

lemma aligned_unat: "aligned a \<longleftrightarrow> 4096 dvd unat a"
  by (metis dvd_eq_mod_eq_0 unat_eq_zero unat_take12)

lemma aligned_PGROUNDDOWN [simp]: "aligned (PGROUNDDOWN a)"
  by (simp add: aligned_unat unat_PGROUNDDOWN)

lemma aligned_PGROUNDUP [simp]: "aligned (PGROUNDUP a)"
  by (simp add: PGROUNDUP_down)

section \<open>memset and memmove\<close>

lemma memset_loop_eq:
  "memset_loop m dst c i k x = (if x \<in> (\<lambda>j. dst + of_nat j) ` {i..<i + k} then c else m x)"
proof (induction k arbitrary: m i)
  case (Suc k)
  have "{i..<i + Suc k} = insert i {Suc i..<Suc i + k}" by auto
  then show ?case using Suc by simp
qed simp

lemma memset_eq: "memset m dst c n x = (if \<exists>j<n. x = dst + of_nat j then c else m x)"
  by (auto simp: memset_def memset_loop_eq)

lemma copy_up_other: "(\<And>i. i < n \<Longrightarrow> x \<noteq> d + of_nat i) \<Longrightarrow> copy_up m d s n x = m x"
proof (induction n arbitrary: m d s)
  case (Suc n)
  have "x \<noteq> d + 1 + of_nat i" if "i < n" for i
    using Suc.prems[of "Suc i"] that by (simp add: ac_simps)
  moreover have "x \<noteq> d" using Suc.prems[of 0] by simp
  ultimately show ?case using Suc.IH by simp
qed simp

lemma copy_up_in:
  assumes "n < 2 ^ 64" "\<And>i j. i < j \<Longrightarrow> j < n \<Longrightarrow> s + of_nat j \<noteq> d + of_nat i" "k < n"
  shows "copy_up m d s n (d + of_nat k) = m (s + of_nat k)"
  using assms
proof (induction n arbitrary: m d s k)
  case (Suc n)
  show ?case
  proof (cases k)
    case 0
    have "d \<noteq> d + 1 + of_nat j" if "j < n" for j
      using that Suc.prems(1) of_nat_u64_inj[of "Suc j" 0] by (auto simp: add.assoc)
    then show ?thesis using 0 by (simp add: copy_up_other)
  next
    case (Suc k')
    have "copy_up (m(d := m s)) (d + 1) (s + 1) n (d + 1 + of_nat k')
        = (m(d := m s)) (s + 1 + of_nat k')"
    proof (rule Suc.IH)
      show "s + 1 + of_nat j \<noteq> d + 1 + of_nat i" if "i < j" "j < n" for i j
        using Suc.prems(2)[of "Suc i" "Suc j"] that by (simp add: ac_simps)
    qed (use Suc.prems Suc in auto)
    moreover have "s + 1 + of_nat k' \<noteq> d"
      using Suc.prems(2)[of 0 "Suc k'"] Suc.prems(3) Suc by (simp add: ac_simps)
    ultimately show ?thesis using Suc by (simp add: ac_simps)
  qed
qed simp

lemma copy_down_other:
  "(\<And>i. i < n \<Longrightarrow> x \<noteq> d + of_nat i) \<Longrightarrow> copy_down m (d + of_nat n) (s + of_nat n) n x = m x"
  by (induction n arbitrary: m) (auto simp: ac_simps)

lemma copy_down_in:
  assumes "n < 2 ^ 64" "\<And>i j. i < j \<Longrightarrow> j < n \<Longrightarrow> s + of_nat i \<noteq> d + of_nat j" "k < n"
  shows "copy_down m (d + of_nat n) (s + of_nat n) n (d + of_nat k) = m (s + of_nat k)"
  using assms
proof (induction n arbitrary: m)
  case (Suc n)
  let ?m = "m(d + of_nat n := m (s + of_nat n))"
  have e: "copy_down m (d + of_nat (Suc n)) (s + of_nat (Suc n)) (Suc n)
      = copy_down ?m (d + of_nat n) (s + of_nat n) n" by (simp add: ac_simps)
  show ?case
  proof (cases "k = n")
    case True
    have "d + of_nat n \<noteq> d + of_nat i" if "i < n" for i
      using that Suc.prems(1) of_nat_u64_inj[of n i] by auto
    then have "copy_down ?m (d + of_nat n) (s + of_nat n) n (d + of_nat n) = ?m (d + of_nat n)"
      by (rule copy_down_other)
    then show ?thesis using True e by simp
  next
    case False
    then have "copy_down ?m (d + of_nat n) (s + of_nat n) n (d + of_nat k) = ?m (s + of_nat k)"
      using Suc.prems by (intro Suc.IH) auto
    then show ?thesis using False Suc.prems e by auto
  qed
qed simp

text \<open>The intended effect of a block move: the destination range gets the old contents of
  the source range, nothing else changes.\<close>

definition moved :: "mem \<Rightarrow> u64 \<Rightarrow> u64 \<Rightarrow> nat \<Rightarrow> mem" where
  "moved m dst src n x =
     (if unat dst \<le> unat x \<and> unat x < unat dst + n then m (src + (x - dst)) else m x)"

lemma movedI:
  assumes "unat dst + n \<le> 2 ^ 64"
    and "\<And>k. k < n \<Longrightarrow> f (dst + of_nat k) = m (src + of_nat k)"
    and "\<And>x. (\<And>i. i < n \<Longrightarrow> x \<noteq> dst + of_nat i) \<Longrightarrow> f x = m x"
  shows "f = moved m dst src n"
proof
  fix x
  show "f x = moved m dst src n x"
  proof (cases "unat dst \<le> unat x \<and> unat x < unat dst + n")
    case True
    define k where "k = unat x - unat dst"
    have x: "x = dst + of_nat k"
      using True by (simp add: k_def of_nat_diff)
    moreover have "k < n" using True by (auto simp: k_def)
    ultimately show ?thesis using True assms(2) by (simp add: moved_def)
  next
    case False
    have "x \<noteq> dst + of_nat i" if "i < n" for i
      using False that u64_nowrap[of dst i] assms(1) by auto
    then have "f x = m x" by (rule assms(3))
    with False show ?thesis unfolding moved_def by auto
  qed
qed

lemma copy_up_moved:
  assumes n: "n < 2 ^ 64" and w: "unat src + n \<le> 2 ^ 64" "unat dst + n \<le> 2 ^ 64"
    and d: "dst \<le> src \<or> unat src + n \<le> unat dst"
  shows "copy_up m dst src n = moved m dst src n"
proof (rule movedI)
  show "copy_up m dst src n (dst + of_nat k) = m (src + of_nat k)" if k: "k < n" for k
  proof (rule copy_up_in[OF n _ k])
    fix i j assume ij: "i < j" "j < n"
    have "unat (src + of_nat j) = unat src + j" "unat (dst + of_nat i) = unat dst + i"
      using w ij by (auto intro!: u64_nowrap)
    then show "src + of_nat j \<noteq> dst + of_nat i"
      using d ij by (auto simp: word_le_nat_alt)
  qed
qed (use w copy_up_other in auto)

lemma copy_down_moved:
  assumes n: "n < 2 ^ 64" and w: "unat src + n \<le> 2 ^ 64" "unat dst + n \<le> 2 ^ 64"
    and d: "src \<le> dst \<or> unat dst + n \<le> unat src"
  shows "copy_down m (dst + of_nat n) (src + of_nat n) n = moved m dst src n"
proof (rule movedI)
  show "copy_down m (dst + of_nat n) (src + of_nat n) n (dst + of_nat k) = m (src + of_nat k)"
    if k: "k < n" for k
  proof (rule copy_down_in[OF n _ k])
    fix i j assume ij: "i < j" "j < n"
    have "unat (src + of_nat i) = unat src + i" "unat (dst + of_nat j) = unat dst + j"
      using w ij by (auto intro!: u64_nowrap)
    then show "src + of_nat i \<noteq> dst + of_nat j"
      using d ij by (auto simp: word_le_nat_alt)
  qed
qed (use w copy_down_other in auto)

lemma memmove_moved:
  assumes "n < 2 ^ 32" "unat src + n < 2 ^ 64" "unat dst + n < 2 ^ 64"
  shows "memmove m dst src n = moved m dst src n"
proof -
  have "unat (src + of_nat n) = unat src + n" using assms by (intro u64_nowrap) auto
  then have less: "src + of_nat n > dst \<longleftrightarrow> unat dst < unat src + n"
    by (simp add: word_less_nat_alt)
  consider "n = 0" | "src < dst" "src + of_nat n > dst" "n \<noteq> 0"
    | "\<not> (src < dst \<and> src + of_nat n > dst)" "n \<noteq> 0" by blast
  then show ?thesis
  proof cases
    case 1
    then show ?thesis by (auto simp: memmove_def moved_def fun_eq_iff)
  next
    case 2
    then show ?thesis using assms by (auto simp: memmove_def intro!: copy_down_moved)
  next
    case 3
    then have "dst \<le> src \<or> unat src + n \<le> unat dst" using less by auto
    with 3 assms show ?thesis by (auto simp: memmove_def intro: copy_up_moved)
  qed
qed

text \<open>
  \<open>memmove\<close> of \<open>kernel/string.c\<close> copies \<open>n\<close> bytes correctly even when the two ranges
  overlap: afterwards the destination holds what the source held before the call, and no
  other byte changed. The two ranges must not wrap around the address space; \<open>n\<close> is a
  32-bit \<open>uint\<close> in the code.
\<close>

theorem memmove_correct:
  assumes "n < 2 ^ 32" "unat src + n < 2 ^ 64" "unat dst + n < 2 ^ 64"
  shows "memmove m dst src n = moved m dst src n"
  using assms by (rule memmove_moved)

theorem memmove_correct_witness:
  "memmove (\<lambda>a. ucast a) 2 0 4 5 = (3 :: u8) \<and> memmove (\<lambda>a. ucast a) 2 0 4 9 = (9 :: u8)"
  by (subst (1 2) memmove_correct) (simp_all add: moved_def)

text \<open>
  The \<open>memmove\<close> of \<open>user/ulib.c\<close>, which picks the copy direction differently,
  computes the same memory as the kernel's on every pair of ranges.
\<close>

theorem ulib_memmove_eq_kernel:
  assumes "n < 2 ^ 31" "unat src + n < 2 ^ 64" "unat dst + n < 2 ^ 64"
  shows "ulib_memmove m dst src n = memmove m dst src n"
proof -
  have "ulib_memmove m dst src n = moved m dst src n"
    using assms by (auto simp: ulib_memmove_def not_less intro!: copy_up_moved copy_down_moved)
  also have "\<dots> = memmove m dst src n"
    using memmove_moved assms by simp
  finally show ?thesis .
qed

theorem ulib_memmove_eq_kernel_witness:
  "ulib_memmove (\<lambda>a. ucast a) 2 0 4 = memmove (\<lambda>a. ucast a) 2 0 4"
  by (rule ulib_memmove_eq_kernel) simp_all

end
