(* ===== verification/CString.thy ===== *)
theory CString
  imports Mem
begin

text \<open>
  The C string functions of \<open>kernel/string.c\<close> and \<open>user/ulib.c\<close>. A \<open>char *\<close> is modelled by
  the bytes it points to, as a function of the offset (\<open>cstr\<close>); a function that writes
  through its pointer returns the updated bytes. \<open>char\<close> is unsigned on RISC-V.
  A loop that only ends at a NUL byte is \<open>None\<close> when there is none.
\<close>

type_synonym cstr = "nat \<Rightarrow> u8"

definition at_addr :: "mem \<Rightarrow> u64 \<Rightarrow> cstr" where
  "at_addr m a = (\<lambda>i. m (a + of_nat i))"

text \<open>The bytes of a list, followed by zeros.\<close>

definition cbytes :: "u8 list \<Rightarrow> cstr" where
  "cbytes bs = (\<lambda>i. if i < length bs then bs ! i else 0)"

section \<open>kernel/string.c\<close>

fun strncmp :: "cstr \<Rightarrow> cstr \<Rightarrow> nat \<Rightarrow> int" where
  "strncmp p q 0 = 0"
| "strncmp p q (Suc n) =
     (if p 0 \<noteq> 0 \<and> p 0 = q 0 then strncmp (p \<circ> Suc) (q \<circ> Suc) n
      else uint (p 0) - uint (q 0))"

fun zero_fill :: "cstr \<Rightarrow> nat \<Rightarrow> nat \<Rightarrow> cstr" where
  "zero_fill s i 0 = s"
| "zero_fill s i (Suc n) = zero_fill (s(i := 0)) (Suc i) n"

fun strncpy_loop :: "cstr \<Rightarrow> cstr \<Rightarrow> nat \<Rightarrow> nat \<Rightarrow> cstr" where
  "strncpy_loop s t i 0 = s"
| "strncpy_loop s t i (Suc n) =
     (if t i \<noteq> 0 then strncpy_loop (s(i := t i)) t (Suc i) n
      else zero_fill (s(i := 0)) (Suc i) n)"

definition strncpy :: "cstr \<Rightarrow> cstr \<Rightarrow> nat \<Rightarrow> cstr" where
  "strncpy s t n = strncpy_loop s t 0 n"

text \<open>\<open>while (--n > 0 && (*s++ = *t++) != 0);\<close> and the final \<open>*s = 0\<close>; the argument \<open>n\<close>
  is what \<open>--n\<close> leaves.\<close>

fun safestrcpy_loop :: "cstr \<Rightarrow> cstr \<Rightarrow> nat \<Rightarrow> nat \<Rightarrow> cstr" where
  "safestrcpy_loop s t i 0 = s(i := 0)"
| "safestrcpy_loop s t i (Suc n) =
     (if t i \<noteq> 0 then safestrcpy_loop (s(i := t i)) t (Suc i) n
      else (s(i := 0))(Suc i := 0))"

definition safestrcpy :: "cstr \<Rightarrow> cstr \<Rightarrow> int \<Rightarrow> cstr" where
  "safestrcpy s t n = (if n \<le> 0 then s else safestrcpy_loop s t 0 (nat n - 1))"

partial_function (option) strlen_from :: "cstr \<Rightarrow> nat \<Rightarrow> nat option" where
  "strlen_from s n = (if s n = 0 then Some n else strlen_from s (Suc n))"

definition strlen :: "cstr \<Rightarrow> nat option" where
  "strlen s = strlen_from s 0"

section \<open>user/ulib.c\<close>

partial_function (option) strcpy_from :: "cstr \<Rightarrow> cstr \<Rightarrow> nat \<Rightarrow> cstr option" where
  "strcpy_from s t i =
     (if t i = 0 then Some (s(i := 0)) else strcpy_from (s(i := t i)) t (Suc i))"

definition strcpy :: "cstr \<Rightarrow> cstr \<Rightarrow> cstr option" where
  "strcpy s t = strcpy_from s t 0"

partial_function (option) strcmp_from :: "cstr \<Rightarrow> cstr \<Rightarrow> nat \<Rightarrow> int option" where
  "strcmp_from p q i =
     (if p i \<noteq> 0 \<and> p i = q i then strcmp_from p q (Suc i)
      else Some (uint (p i) - uint (q i)))"

definition strcmp :: "cstr \<Rightarrow> cstr \<Rightarrow> int option" where
  "strcmp p q = strcmp_from p q 0"

text \<open>\<open>strchr\<close> returns the offset of the first occurrence, or the null pointer (\<open>Some None\<close>).\<close>

partial_function (option) strchr_from :: "cstr \<Rightarrow> u8 \<Rightarrow> nat \<Rightarrow> nat option option" where
  "strchr_from s c i =
     (if s i = 0 then Some None
      else if s i = c then Some (Some i)
      else strchr_from s c (Suc i))"

definition strchr :: "cstr \<Rightarrow> u8 \<Rightarrow> nat option option" where
  "strchr s c = strchr_from s c 0"

text \<open>\<open>atoi\<close> accumulates in a 32-bit \<open>int\<close>.\<close>

partial_function (option) atoi_from :: "cstr \<Rightarrow> nat \<Rightarrow> 32 word \<Rightarrow> 32 word option" where
  "atoi_from s i n =
     (if 48 \<le> s i \<and> s i \<le> 57
      then atoi_from s (Suc i) (n * 10 + ucast (s i) - 48)
      else Some n)"

definition atoi :: "cstr \<Rightarrow> int option" where
  "atoi s = map_option sint (atoi_from s 0 0)"

section \<open>Facts about single loops\<close>

definition c_str :: "cstr \<Rightarrow> nat \<Rightarrow> bool" where
  "c_str s n \<longleftrightarrow> s n = 0 \<and> (\<forall>i<n. s i \<noteq> 0)"

lemma strlen_from_Some: "i \<le> n \<Longrightarrow> c_str s n \<Longrightarrow> strlen_from s i = Some n"
proof (induction "n - i" arbitrary: i)
  case 0
  then show ?case by (subst strlen_from.simps) (simp add: c_str_def)
next
  case (Suc k)
  then have "s i \<noteq> 0" "strlen_from s (Suc i) = Some n" by (auto simp: c_str_def)
  then show ?case by (subst strlen_from.simps) simp
qed

lemma strlen_Some: "c_str s n \<Longrightarrow> strlen s = Some n"
  by (simp add: strlen_def strlen_from_Some)

lemma zero_fill_eq: "zero_fill s i n j = (if i \<le> j \<and> j < i + n then 0 else s j)"
  by (induction n arbitrary: s i) auto

lemma strncpy_loop_eq:
  "strncpy_loop s t i n j =
     (if i \<le> j \<and> j < i + n then (if \<exists>k. i \<le> k \<and> k \<le> j \<and> t k = 0 then 0 else t j) else s j)"
proof (induction n arbitrary: s i)
  case (Suc n)
  show ?case
  proof (cases "t i = 0")
    case False
    have "(\<exists>k. i \<le> k \<and> k \<le> j \<and> t k = 0) \<longleftrightarrow> (\<exists>k. Suc i \<le> k \<and> k \<le> j \<and> t k = 0)" 
      using False by (metis Suc_leD le_antisym not_less_eq_eq)
    then show ?thesis using False Suc by auto
  qed (auto simp: zero_fill_eq)
qed auto

lemma strncmp_0_iff:
  "strncmp p q n = 0 \<longleftrightarrow> (\<forall>i<n. (\<forall>j<i. p j \<noteq> 0) \<longrightarrow> p i = q i)"
proof (induction n arbitrary: p q)
  case (Suc n)
  consider "p 0 \<noteq> 0" "p 0 = q 0" | "p 0 = 0" "q 0 = 0" | "p 0 \<noteq> q 0" by metis
  then show ?case
  proof cases
    case 1
    then show ?thesis by (simp add: Suc All_less_Suc2)
  next
    case 2
    then show ?thesis by (simp add: All_less_Suc2)
  next
    case 3
    then have "uint (p 0) \<noteq> uint (q 0)" by (simp add: word_uint_eq_iff)
    with 3 show ?thesis by (simp add: All_less_Suc2)
  qed
qed simp

lemma safestrcpy_loop_other:
  "j < i \<or> i + n < j \<Longrightarrow> safestrcpy_loop s t i n j = s j"
  by (induction n arbitrary: s i) auto

lemma safestrcpy_loop_copy:
  "c_str t len \<Longrightarrow> i \<le> j \<Longrightarrow> j < len \<Longrightarrow> j < i + n \<Longrightarrow> safestrcpy_loop s t i n j = t j"
proof (induction n arbitrary: s i)
  case (Suc n)
  have "t i \<noteq> 0" using Suc.prems by (auto simp: c_str_def)
  then show ?case using Suc by (cases "i = j") (auto simp: safestrcpy_loop_other)
qed simp

lemma safestrcpy_loop_nul:
  "c_str t len \<Longrightarrow> i \<le> len \<Longrightarrow> safestrcpy_loop s t i n (min len (i + n)) = 0"
proof (induction n arbitrary: s i)
  case (Suc n)
  show ?case
  proof (cases "t i = 0")
    case True
    then have "len = i" using Suc.prems by (metis c_str_def le_neq_implies_less)
    then show ?thesis using True by auto
  next
    case False
    then have "Suc i \<le> len" using Suc.prems by (metis Suc_leI c_str_def le_neq_implies_less)
    with Suc.IH[OF Suc.prems(1) this] False show ?thesis by simp
  qed
qed simp

section \<open>Properties\<close>

text \<open>
  \<open>safestrcpy\<close> with a buffer of \<open>n > 0\<close> bytes always leaves a NUL-terminated string in
  it, equal to the source cut to \<open>n - 1\<close> characters, and writes no byte at or beyond the
  end of the buffer. \<open>kfork\<close> and \<open>kexec\<close> rely on it for the 16-byte process name.
\<close>

theorem safestrcpy_terminates_in_buffer:
  assumes "0 < n" "c_str t len"
  shows "c_str (safestrcpy s t (int n)) (min len (n - 1))
    \<and> (\<forall>i < min len (n - 1). safestrcpy s t (int n) i = t i)
    \<and> (\<forall>i \<ge> n. safestrcpy s t (int n) i = s i)"
proof -
  obtain k where n: "n = Suc k" using assms(1) by (cases n) auto
  have eq: "safestrcpy s t (int n) = safestrcpy_loop s t 0 k"
    by (simp add: n safestrcpy_def nat_add_distrib)
  have "\<forall>i < min len k. safestrcpy_loop s t 0 k i = t i"
    using assms(2) by (auto simp: safestrcpy_loop_copy)
  moreover have "safestrcpy_loop s t 0 k (min len k) = 0"
    using safestrcpy_loop_nul[OF assms(2), of 0] by simp
  ultimately show ?thesis
    unfolding eq using assms(2) by (auto simp: n c_str_def safestrcpy_loop_other)
qed

theorem safestrcpy_terminates_in_buffer_witness:
  "c_str (safestrcpy (\<lambda>_. 7) (cbytes [104, 105, 33]) 3) 2"
proof -
  have "c_str (cbytes [104, 105, 33]) 3"
    by (simp add: c_str_def cbytes_def numeral_3_eq_3 All_less_Suc)
  from safestrcpy_terminates_in_buffer[OF _ this, of 3 "\<lambda>_. 7"] show ?thesis by simp
qed

text \<open>
  \<open>strncpy\<close> followed by \<open>strncmp\<close> of the same width always says "equal": this is how
  \<open>dirlink\<close> stores a directory name and \<open>namecmp\<close> recognises it, names that fill all
  \<open>DIRSIZ\<close> bytes without a NUL included. The copy writes exactly \<open>n\<close> bytes, padding with
  zeros after the first NUL of the source.
\<close>

theorem strncpy_strncmp:
  "strncmp t (strncpy s t n) n = 0
   \<and> (\<forall>i < n. strncpy s t n i = (if \<exists>k\<le>i. t k = 0 then 0 else t i))
   \<and> (\<forall>i \<ge> n. strncpy s t n i = s i)"
proof -
  have "strncmp t (strncpy s t n) n = 0"
    unfolding strncmp_0_iff strncpy_def strncpy_loop_eq by (auto simp: le_less)
  then show ?thesis by (auto simp: strncpy_def strncpy_loop_eq)
qed

theorem strncpy_strncmp_witness:
  "strncmp (cbytes [97, 98]) (strncpy (\<lambda>_. 9) (cbytes [97, 98]) 14) 14 = 0"
  using strncpy_strncmp[of "cbytes [97, 98]" "\<lambda>_. 9" 14] by simp

end
