(* ===== verification/Kalloc.thy ===== *)
theory Kalloc
  imports Mem
begin

text \<open>
  The physical page allocator, \<open>kernel/kalloc.c\<close> of the modified system, which hands pages
  out first in, first out. The free list is threaded through the free pages themselves:
  \<open>r->next\<close> is the first 8 bytes of page \<open>r\<close>. \<open>kmem.lock\<close> is held around each list update,
  so one operation is one atomic step here. The end of the kernel image (\<open>end\<close>, set by the
  linker) is the field \<open>kend\<close>; what the allocator prints when \<open>trace_memory\<close> is set is the
  event list \<open>ktrace\<close>.
\<close>

datatype kevent = TFree u64 | TAlloc u64

record kmem_state =
  phys :: mem
  freelist :: u64
  tail :: u64
  trace_memory :: int
  kend :: u64
  ktrace :: "kevent list"

section \<open>Operations\<close>

definition kfree :: "u64 \<Rightarrow> 'z kmem_state_scheme \<Rightarrow> 'z kmem_state_scheme res" where
  "kfree pa s =
     (if pa mod PGSIZE \<noteq> 0 \<or> pa < kend s \<or> pa \<ge> PHYSTOP then Panic ''kfree''
      else
        let m1 = memset (phys s) pa 1 4096;
            m2 = store64 m1 pa 0;
            s1 = (if freelist s = 0 then s\<lparr>phys := m2, freelist := pa\<rparr>
                  else s\<lparr>phys := store64 m2 (tail s) pa\<rparr>);
            s2 = s1\<lparr>tail := pa\<rparr>
        in Ok (if trace_memory s2 \<noteq> 0 then s2\<lparr>ktrace := ktrace s2 @ [TFree pa]\<rparr> else s2))"

definition kalloc :: "'z kmem_state_scheme \<Rightarrow> u64 \<times> 'z kmem_state_scheme" where
  "kalloc s =
     (let r = freelist s;
          s1 = (if r \<noteq> 0
                then let s' = s\<lparr>freelist := load64 (phys s) r\<rparr>
                     in if trace_memory s' \<noteq> 0 then s'\<lparr>ktrace := ktrace s' @ [TAlloc r]\<rparr> else s'
                else s);
          s2 = (if r \<noteq> 0 then s1\<lparr>phys := memset (phys s1) r 5 4096\<rparr> else s1)
      in (r, s2))"

text \<open>\<open>freerange\<close>: free every page of a range, then walk the list to its last node.\<close>

partial_function (option) freerange_loop ::
    "u64 \<Rightarrow> u64 \<Rightarrow> 'z kmem_state_scheme \<Rightarrow> 'z kmem_state_scheme res option" where
  "freerange_loop p pa_end s =
     (if p + PGSIZE \<le> pa_end
      then (case kfree p s of
              Ok s' \<Rightarrow> freerange_loop (p + PGSIZE) pa_end s'
            | Panic e \<Rightarrow> Some (Panic e)
            | Hang \<Rightarrow> Some Hang)
      else Some (Ok s))"

partial_function (option) last_run :: "mem \<Rightarrow> u64 \<Rightarrow> u64 option" where
  "last_run m r = (if load64 m r \<noteq> 0 then last_run m (load64 m r) else Some r)"

definition freerange ::
    "u64 \<Rightarrow> u64 \<Rightarrow> 'z kmem_state_scheme \<Rightarrow> 'z kmem_state_scheme res" where
  "freerange pa_start pa_end s =
     (case freerange_loop (PGROUNDUP pa_start) pa_end s of
        None \<Rightarrow> Hang
      | Some r \<Rightarrow> bindR r (\<lambda>s1.
          if freelist s1 \<noteq> 0
          then (case last_run (phys s1) (freelist s1) of
                  None \<Rightarrow> Hang
                | Some t \<Rightarrow> Ok (s1\<lparr>tail := t\<rparr>))
          else Ok s1))"

definition kinit :: "'z kmem_state_scheme \<Rightarrow> 'z kmem_state_scheme res" where
  "kinit s = freerange (kend s) PHYSTOP s"

section \<open>The free list as a list of pages\<close>

fun run_list :: "mem \<Rightarrow> u64 \<Rightarrow> u64 list \<Rightarrow> bool" where
  "run_list m r [] \<longleftrightarrow> r = 0"
| "run_list m r (x # xs) \<longleftrightarrow> r = x \<and> x \<noteq> 0 \<and> run_list m (load64 m x) xs"

definition page_ok :: "'z kmem_state_scheme \<Rightarrow> u64 \<Rightarrow> bool" where
  "page_ok s pa \<longleftrightarrow> aligned pa \<and> kend s \<le> pa \<and> pa < PHYSTOP"

definition kmem_inv :: "'z kmem_state_scheme \<Rightarrow> u64 list \<Rightarrow> bool" where
  "kmem_inv s xs \<longleftrightarrow> kend s \<noteq> 0 \<and> run_list (phys s) (freelist s) xs \<and> distinct xs
     \<and> (\<forall>x \<in> set xs. page_ok s x) \<and> (xs \<noteq> [] \<longrightarrow> tail s = last xs)"

text \<open>Two memories that differ at most inside the given pages.\<close>

definition same_outside :: "u64 set \<Rightarrow> mem \<Rightarrow> mem \<Rightarrow> bool" where
  "same_outside ps m m' \<longleftrightarrow> (\<forall>x. page_of x \<notin> page_of ` ps \<longrightarrow> m' x = m x)"

lemma aligned_mod_PGSIZE: "pa mod PGSIZE = 0 \<longleftrightarrow> aligned pa"
  using take_bit_eq_mod[of 12 pa] by (simp add: PGSIZE_def)

lemma same_outside_refl [simp]: "same_outside ps m m"
  by (simp add: same_outside_def)

lemma same_outside_trans:
  "same_outside ps m1 m2 \<Longrightarrow> same_outside qs m2 m3 \<Longrightarrow> same_outside (ps \<union> qs) m1 m3"
  by (simp add: same_outside_def image_Un)

lemma same_outside_mono: "same_outside ps m m' \<Longrightarrow> ps \<subseteq> qs \<Longrightarrow> same_outside qs m m'"
  by (auto simp: same_outside_def)

lemma memset_outside: "aligned p \<Longrightarrow> same_outside {p} m (memset m p c 4096)"
  by (auto simp: same_outside_def memset_eq)

lemma store64_outside: "aligned p \<Longrightarrow> o8 + 8 \<le> 4096 \<Longrightarrow> same_outside {p} m (store64 m (p + of_nat o8) w)"
  unfolding same_outside_def
proof (intro allI impI store64_other)
  fix x i assume a: "aligned p" "o8 + 8 \<le> 4096" "page_of x \<notin> page_of ` {p}" "i < (8 :: nat)"
  have "page_of (p + of_nat o8 + of_nat i) = page_of p"
    using page_of_offset[of p "o8 + i"] a by (simp add: add.assoc)
  with a show "x \<noteq> p + of_nat o8 + of_nat i" by auto
qed

lemma store64_outside0: "aligned p \<Longrightarrow> same_outside {p} m (store64 m p w)"
  using store64_outside[of p 0] by simp

lemma load64_outside:
  assumes "same_outside ps m m'" "aligned p" "o8 + 8 \<le> 4096" "\<forall>q \<in> ps. aligned q" "p \<notin> ps"
  shows "load64 m' (p + of_nat o8) = load64 m (p + of_nat o8)"
proof (rule load64_cong)
  fix i :: nat assume "i < 8"
  then have "page_of (p + of_nat o8 + of_nat i) = page_of p"
    using page_of_offset[of p "o8 + i"] assms by (simp add: add.assoc)
  moreover have "page_of p \<notin> page_of ` ps" using assms page_of_inj by auto
  ultimately show "m' (p + of_nat o8 + of_nat i) = m (p + of_nat o8 + of_nat i)"
    using assms(1) by (simp add: same_outside_def)
qed

lemma load64_outside0:
  "same_outside ps m m' \<Longrightarrow> aligned p \<Longrightarrow> \<forall>q \<in> ps. aligned q \<Longrightarrow> p \<notin> ps \<Longrightarrow> load64 m' p = load64 m p"
  using load64_outside[of ps m m' p 0] by simp

lemma run_list_outside:
  "same_outside ps m m' \<Longrightarrow> \<forall>x \<in> set xs. aligned x \<Longrightarrow> \<forall>q \<in> ps. aligned q \<Longrightarrow> ps \<inter> set xs = {} \<Longrightarrow>
   run_list m' r xs = run_list m r xs"
  by (induction xs arbitrary: r) (auto simp: load64_outside0)

lemma run_list_append_new:
  assumes "run_list m r xs" "xs \<noteq> []" "distinct xs" "y \<noteq> 0" "load64 m y = 0" "aligned y"
    "\<forall>x \<in> set xs. aligned x" "y \<notin> set xs"
  shows "run_list (store64 m (last xs) y) r (xs @ [y])"
  using assms
proof (induction xs arbitrary: r)
  case (Cons x xs)
  show ?case
  proof (cases "xs = []")
    case True
    have "load64 (store64 m x y) y = load64 m y"
      using Cons.prems store64_outside0[of x m y] load64_outside0[of "{x}"] by auto
    then show ?thesis using Cons.prems True by auto
  next
    case False
    then have "last xs \<in> set xs" by simp
    then have "load64 (store64 m (last xs) y) x = load64 m x"
      using Cons.prems False
      by (intro load64_outside0[of "{last xs}"] store64_outside0) auto
    then show ?thesis using Cons False by auto
  qed
qed simp

lemma page_ok_simps:
  "page_ok s pa \<Longrightarrow> kend s \<noteq> 0 \<Longrightarrow> pa \<noteq> 0"
  "page_ok s pa \<Longrightarrow> aligned pa"
  by (auto simp: page_ok_def)

lemma kfree_panic_iff:
  "kfree pa s = Panic e \<longleftrightarrow> \<not> page_ok s pa \<and> e = ''kfree''"
  by (auto simp: kfree_def page_ok_def aligned_mod_PGSIZE Let_def)

text \<open>\<open>kfree\<close> enqueues, \<open>kalloc\<close> dequeues; neither touches memory outside the pages on the
  list and the page freed or allocated.\<close>

lemma kfree_enqueue:
  assumes inv: "kmem_inv s xs" and ok: "page_ok s pa" and new: "pa \<notin> set xs"
  shows "\<exists>s'. kfree pa s = Ok s' \<and> kmem_inv s' (xs @ [pa]) \<and> kend s' = kend s
    \<and> trace_memory s' = trace_memory s
    \<and> same_outside (insert pa (set xs)) (phys s) (phys s')"
proof -
  let ?m = "store64 (memset (phys s) pa 1 4096) pa 0"
  have al: "aligned pa" "pa \<noteq> 0" and als: "\<forall>x \<in> set xs. aligned x"
    using inv ok by (auto simp: kmem_inv_def dest: page_ok_simps)
  have out: "same_outside {pa} (phys s) ?m"
    using same_outside_trans[OF memset_outside store64_outside0, OF al(1) al(1)] by simp
  have path: "run_list ?m (freelist s) xs"
    using run_list_outside[OF out als] al new inv by (simp add: kmem_inv_def)
  have free0: "freelist s = 0 \<longleftrightarrow> xs = []"
    using inv by (cases xs) (auto simp: kmem_inv_def)
  show ?thesis
  proof (cases "xs = []")
    case True
    with out al ok free0 inv show ?thesis
      by (auto simp: kfree_def Let_def aligned_mod_PGSIZE page_ok_def kmem_inv_def)
  next
    case False
    then have t: "tail s = last xs" "last xs \<in> set xs" using inv by (auto simp: kmem_inv_def)
    have "same_outside {last xs} ?m (store64 ?m (last xs) pa)"
      using t als by (intro store64_outside0) auto
    with out have "same_outside (insert pa (set xs)) (phys s) (store64 ?m (last xs) pa)"
      by (rule same_outside_mono[OF same_outside_trans]) (use t in auto)
    moreover have "run_list (store64 ?m (last xs) pa) (freelist s) (xs @ [pa])"
      using path False inv al als new by (intro run_list_append_new) (auto simp: kmem_inv_def)
    ultimately show ?thesis
      using False ok free0 inv t new
      by (auto simp: kfree_def Let_def aligned_mod_PGSIZE page_ok_def kmem_inv_def)
  qed
qed

lemma kalloc_dequeue:
  assumes inv: "kmem_inv s (x # xs)"
  shows "\<exists>s'. kalloc s = (x, s') \<and> kmem_inv s' xs \<and> kend s' = kend s
    \<and> trace_memory s' = trace_memory s \<and> tail s' = tail s
    \<and> phys s' = memset (phys s) x 5 4096"
proof -
  have x: "aligned x" "x \<noteq> 0" "freelist s = x" and xs: "\<forall>y \<in> set xs. aligned y"
    using inv by (auto simp: kmem_inv_def dest: page_ok_simps)
  have "run_list (memset (phys s) x 5 4096) (load64 (phys s) x) xs"
    using inv xs x by (subst run_list_outside[OF memset_outside]) (auto simp: kmem_inv_def)
  with inv x show ?thesis
    by (auto simp: kalloc_def Let_def kmem_inv_def page_ok_def)
qed

lemma kalloc_empty: "kmem_inv s [] \<Longrightarrow> kalloc s = (0, s)"
  by (auto simp: kalloc_def kmem_inv_def Let_def)

lemma kalloc_memset_outside: "kmem_inv s (x # xs) \<Longrightarrow> same_outside {x} (phys s) (memset (phys s) x 5 4096)"
  by (rule memset_outside) (auto simp: kmem_inv_def page_ok_def)

section \<open>The allocator is a first-in, first-out queue\<close>

text \<open>
  A client of the allocator: the allocator and the pages the client owns. It frees only
  pages it owns, which \<open>kfree\<close> itself cannot check.
\<close>

definition kmem_put ::
    "u64 \<Rightarrow> 'z kmem_state_scheme \<times> u64 set \<Rightarrow> ('z kmem_state_scheme \<times> u64 set) option" where
  "kmem_put pa q =
     (if pa \<in> snd q then (case kfree pa (fst q) of Ok s' \<Rightarrow> Some (s', snd q - {pa}) | _ \<Rightarrow> None)
      else None)"

definition kmem_get ::
    "'z kmem_state_scheme \<times> u64 set \<Rightarrow> (u64 \<times> 'z kmem_state_scheme \<times> u64 set) option" where
  "kmem_get q = (let (r, s') = kalloc (fst q) in
     if r = 0 then None else Some (r, s', insert r (snd q)))"

definition kmem_holds :: "'z kmem_state_scheme \<times> u64 set \<Rightarrow> u64 list \<Rightarrow> bool" where
  "kmem_holds q xs \<longleftrightarrow> kmem_inv (fst q) xs \<and> snd q \<inter> set xs = {}
     \<and> (\<forall>x \<in> snd q. page_ok (fst q) x)"

lemma page_ok_kend: "kend s' = kend s \<Longrightarrow> page_ok s' = page_ok s"
  by (auto simp: page_ok_def fun_eq_iff)

interpretation kmem: fifo kmem_put kmem_get kmem_holds
proof
  fix s t :: "'z kmem_state_scheme \<times> u64 set" and xs x
  assume h: "kmem_holds s xs" and p: "kmem_put x s = Some t"
  then have own: "x \<in> snd s" by (auto simp: kmem_put_def split: if_splits)
  with h obtain s' where "kfree x (fst s) = Ok s'" "kmem_inv s' (xs @ [x])" "kend s' = kend (fst s)"
    using kfree_enqueue[of "fst s" xs x] by (auto simp: kmem_holds_def)
  moreover from this have "page_ok s' = page_ok (fst s)" by (intro page_ok_kend)
  ultimately show "kmem_holds t (xs @ [x])"
    using p own h by (auto simp: kmem_put_def kmem_holds_def)
next
  fix s :: "'z kmem_state_scheme \<times> u64 set" and xs x
  assume h: "kmem_holds s (x # xs)"
  then obtain s' where k: "kalloc (fst s) = (x, s')" "kmem_inv s' xs" "kend s' = kend (fst s)"
    using kalloc_dequeue[of "fst s" x xs] by (auto simp: kmem_holds_def)
  have "x \<noteq> 0" "x \<notin> set xs" "page_ok (fst s) x"
    using h by (auto simp: kmem_holds_def kmem_inv_def dest: page_ok_simps)
  moreover have "page_ok s' = page_ok (fst s)" using k by (intro page_ok_kend)
  ultimately show "\<exists>t. kmem_get s = Some (x, t) \<and> kmem_holds t xs"
    using k h by (auto simp: kmem_get_def kmem_holds_def)
next
  fix s :: "'z kmem_state_scheme \<times> u64 set"
  assume "kmem_holds s []"
  then show "kmem_get s = None"
    by (auto simp: kmem_holds_def kmem_get_def kalloc_empty)
qed

section \<open>Boot: the list holds every page above the kernel\<close>

lemma last_run_last:
  "run_list m r xs \<Longrightarrow> xs \<noteq> [] \<Longrightarrow> last_run m r = Some (last xs)"
proof (induction xs arbitrary: r)
  case (Cons x xs)
  then show ?case
    by (subst last_run.simps) (cases xs; auto)
qed simp

lemma freerange_loop_pages:
  "kmem_inv s xs \<Longrightarrow> aligned p \<Longrightarrow> kend s \<le> p \<Longrightarrow> unat PHYSTOP = unat p + 4096 * k \<Longrightarrow>
   \<forall>x \<in> set xs. unat x < unat p \<Longrightarrow>
   \<exists>s'. freerange_loop p PHYSTOP s = Some (Ok s') \<and> kend s' = kend s \<and>
     kmem_inv s' (xs @ map (\<lambda>i. p + of_nat (4096 * i)) [0..<k])"
proof (induction k arbitrary: p s xs)
  case 0
  then have "p = PHYSTOP" by (simp add: word_unat_eq_iff)
  then have "\<not> p + PGSIZE \<le> PHYSTOP" by (simp add: PHYSTOP_def PGSIZE_def)
  with 0 show ?case by (subst freerange_loop.simps) simp
next
  case (Suc k)
  have u: "unat (p + PGSIZE) = unat p + 4096"
    using u64_nowrap[of p 4096] Suc.prems(4) by (simp add: PHYSTOP_def PGSIZE_def)
  have le: "p + PGSIZE \<le> PHYSTOP" using u Suc.prems(4) by (simp add: word_le_nat_alt)
  have "page_ok s p" using Suc.prems by (simp add: page_ok_def word_less_nat_alt)
  moreover have "p \<notin> set xs" using Suc.prems by auto
  ultimately obtain s1 where s1: "kfree p s = Ok s1" "kmem_inv s1 (xs @ [p])" "kend s1 = kend s"
    using kfree_enqueue Suc.prems(1) by blast
  have up: "map (\<lambda>i. p + of_nat (4096 * i)) [0..<Suc k]
      = p # map (\<lambda>i. p + PGSIZE + of_nat (4096 * i)) [0..<k]"
    by (simp add: upt_conv_Cons map_Suc_upt[symmetric] PGSIZE_def algebra_simps del: upt_Suc)
  have "\<exists>s'. freerange_loop (p + PGSIZE) PHYSTOP s1 = Some (Ok s') \<and> kend s' = kend s1 \<and>
     kmem_inv s' ((xs @ [p]) @ map (\<lambda>i. p + PGSIZE + of_nat (4096 * i)) [0..<k])"
  proof (rule Suc.IH)
    show "aligned (p + PGSIZE)" using Suc.prems(2) u by (simp add: aligned_unat)
    show "kend s1 \<le> p + PGSIZE" using Suc.prems(3) s1(3) u by (simp add: word_le_nat_alt)
  qed (use s1 u Suc.prems in auto)
  then show ?case
    using s1 le up by (subst freerange_loop.simps) (auto simp del: upt_Suc)
qed

definition kernel_pages :: "u64 \<Rightarrow> u64 list" where
  "kernel_pages e = map (\<lambda>i. PGROUNDUP e + of_nat (4096 * i))
     [0..<(unat PHYSTOP - unat (PGROUNDUP e)) div 4096]"

lemma kinit_pages_aux:
  assumes "freelist s = 0" "0 < kend s" "kend s \<le> PHYSTOP"
  shows "\<exists>s'. kinit s = Ok s' \<and> kend s' = kend s \<and> kmem_inv s' (kernel_pages (kend s))"
proof -
  let ?p = "PGROUNDUP (kend s)"
  have e: "unat (kend s) \<le> 2281701376" using assms(3) by (simp add: word_le_nat_alt PHYSTOP_def)
  then have up: "unat ?p = (unat (kend s) + 4095) div 4096 * 4096" by (intro unat_PGROUNDUP) simp
  have p: "aligned ?p" "kend s \<le> ?p"
    using up by (simp_all add: word_le_nat_alt)
  obtain q where q: "unat ?p = 4096 * q" using p(1) by (metis aligned_unat dvdE)
  have "unat ?p \<le> 2281701376" using up e by simp
  moreover have "unat PHYSTOP = 4096 * 557056" by (simp add: PHYSTOP_def)
  ultimately have k: "unat PHYSTOP = unat ?p + 4096 * ((unat PHYSTOP - unat ?p) div 4096)"
    using q by (simp add: diff_mult_distrib2[symmetric] del: mult_numeral_left)
  have inv0: "kmem_inv s []" using assms by (auto simp: kmem_inv_def)
  obtain s1 where s1: "freerange_loop ?p PHYSTOP s = Some (Ok s1)" "kend s1 = kend s"
    "kmem_inv s1 (kernel_pages (kend s))"
    using freerange_loop_pages[OF inv0 p k, folded kernel_pages_def] by auto
  show ?thesis
  proof (cases "kernel_pages (kend s) = []")
    case True
    with s1 show ?thesis by (auto simp: kinit_def freerange_def kmem_inv_def)
  next
    case False
    then have "freelist s1 \<noteq> 0" using s1(3) by (cases "kernel_pages (kend s)") (auto simp: kmem_inv_def)
    with False s1 show ?thesis
      by (auto simp: kinit_def freerange_def kmem_inv_def page_ok_def last_run_last)
  qed
qed

section \<open>Properties\<close>

text \<open>The allocator as the linker and the loader leave it: nothing on the list yet.\<close>

definition boot_kmem :: "u64 \<Rightarrow> kmem_state" where
  "boot_kmem e = \<lparr>phys = (\<lambda>_. 0), freelist = 0, tail = 0, trace_memory = 0, kend = e, ktrace = []\<rparr>"

lemma boot_kmem_inv: "e \<noteq> 0 \<Longrightarrow> kmem_inv (boot_kmem e) []"
  by (simp add: kmem_inv_def boot_kmem_def)

text \<open>
  C5. The modified allocator is first in, first out: over any history of \<open>kfree\<close> and
  \<open>kalloc\<close> calls in which a page is only freed by its owner, the pages \<open>kalloc\<close> returned,
  followed by the pages still on the list, are the pages on the list at the start followed
  by the pages freed, in the order of the calls.
\<close>

theorem kalloc_kfree_fifo:
  assumes "kmem_holds q xs" and "run_ops kmem_put kmem_get ops q = (freed, allocated, q')"
  shows "\<exists>ys. kmem_holds q' ys \<and> allocated @ ys = xs @ freed"
  using assms by (rule kmem.run_fifo)

theorem kalloc_kfree_fifo_witness:
  "\<exists>f a q'. run_ops kmem_put kmem_get [Put 0x80004000, Put 0x80003000, Get]
       (boot_kmem 0x80000000, {0x80003000, 0x80004000}) = (f, a, q')
     \<and> (\<exists>ys. kmem_holds q' ys \<and> a @ ys = [] @ f)"
proof -
  let ?q = "(boot_kmem 0x80000000, {0x80003000, 0x80004000})"
  have "kmem_holds ?q []"
    using boot_kmem_inv[of "0x80000000"]
    by (simp add: kmem_holds_def page_ok_def boot_kmem_def PHYSTOP_def take_bit_eq_mod)
  from kalloc_kfree_fifo[OF this prod.collapse[symmetric, THEN trans]] show ?thesis
    by (metis prod.collapse)
qed

text \<open>
  \<open>kfree\<close> on every input: it panics exactly on an address that is not page aligned,
  lies below the end of the kernel, or at or beyond the end of physical memory; on a page
  that is not on the free list it appends the page at the end of the list.
\<close>

theorem kfree_correct:
  assumes "kmem_inv s xs" "pa \<notin> set xs"
  shows "(if pa mod PGSIZE = 0 \<and> kend s \<le> pa \<and> pa < PHYSTOP
          then \<exists>s'. kfree pa s = Ok s' \<and> kmem_inv s' (xs @ [pa])
          else kfree pa s = Panic ''kfree'')"
proof (cases "page_ok s pa")
  case True
  then show ?thesis using kfree_enqueue[OF assms(1) True assms(2)]
    by (auto simp: page_ok_def aligned_mod_PGSIZE)
next
  case False
  then show ?thesis using kfree_panic_iff[of pa s "''kfree''"]
    by (auto simp: page_ok_def aligned_mod_PGSIZE)
qed

theorem kfree_correct_witness:
  "(\<exists>s'. kfree 0x80003000 (boot_kmem 0x80000000) = Ok s' \<and> kmem_inv s' [0x80003000])
   \<and> kfree 0x80003008 (boot_kmem 0x80000000) = Panic ''kfree''"
  using kfree_correct[of "boot_kmem 0x80000000" "[]" "0x80003000"]
    kfree_correct[of "boot_kmem 0x80000000" "[]" "0x80003008"] boot_kmem_inv[of "0x80000000"]
  by (simp add: boot_kmem_def PGSIZE_def PHYSTOP_def)

text \<open>
  \<open>kalloc\<close> returns the null pointer and changes nothing when the list is empty;
  otherwise it returns the page at the head of the list, which no owner holds, fills it
  with the byte 5, leaves every byte of other pages alone and keeps the rest of the list.
\<close>

theorem kalloc_correct:
  assumes "kmem_holds (s, owned) xs"
  shows "case xs of
      [] \<Rightarrow> kalloc s = (0, s)
    | x # ys \<Rightarrow> \<exists>s'. kalloc s = (x, s') \<and> x \<noteq> 0 \<and> x \<notin> owned
        \<and> (\<forall>i < 4096. phys s' (x + of_nat i) = 5) \<and> same_outside {x} (phys s) (phys s')
        \<and> kmem_holds (s', insert x owned) ys"
proof (cases xs)
  case Nil
  then show ?thesis using assms by (simp add: kmem_holds_def kalloc_empty)
next
  case (Cons x ys)
  then have inv: "kmem_inv s (x # ys)" using assms by (simp add: kmem_holds_def)
  then obtain s' where s': "kalloc s = (x, s')" "phys s' = memset (phys s) x 5 4096"
    using kalloc_dequeue by blast
  have "x \<noteq> 0" using inv by (auto simp: kmem_inv_def dest: page_ok_simps)
  moreover have "kmem_holds (s', insert x owned) ys"
    using kmem.get_holds[of "(s, owned)" x ys] assms Cons s'(1) \<open>x \<noteq> 0\<close>
    by (auto simp: kmem_get_def)
  ultimately show ?thesis
    using Cons s' assms kalloc_memset_outside[OF inv]
    by (auto simp: kmem_holds_def memset_eq)
qed

theorem kalloc_correct_witness:
  "kalloc (boot_kmem 0x80000000) = (0, boot_kmem 0x80000000)"
  using kalloc_correct[of "boot_kmem 0x80000000" "{}" "[]"]
  by (simp add: kmem_holds_def boot_kmem_inv)

text \<open>
  At boot, \<open>kinit\<close> returns with the free list holding exactly the whole pages between
  the end of the kernel image and \<open>PHYSTOP\<close>, each once, lowest address first.
\<close>

theorem kinit_frees_all_pages:
  assumes "freelist s = 0" "0 < kend s" "kend s \<le> PHYSTOP"
  shows "\<exists>s'. kinit s = Ok s' \<and> kmem_inv s' (kernel_pages (kend s))"
  using kinit_pages_aux[OF assms] by blast

theorem kinit_frees_all_pages_witness:
  "\<exists>s'. kinit (boot_kmem 0x80020000) = Ok s' \<and> kmem_inv s' (kernel_pages 0x80020000)"
  using kinit_frees_all_pages[of "boot_kmem 0x80020000"] by (simp add: boot_kmem_def PHYSTOP_def)

end
