(* ===== verification/Kalloc_Base.thy ===== *)
theory Kalloc_Base
  imports Kalloc
begin

text \<open>
  The allocator of the unmodified system, \<open>xv6-riscv/kernel/kalloc.c\<close>: the free list is a
  stack. The state is that of \<open>Kalloc\<close>; the unmodified \<open>kmem\<close> has no \<open>tail\<close>, so the field is
  never read or written here. The last theorem compares the two allocators on the scenario of
  \<open>user/test_memory.c\<close>.
\<close>

definition kfree_base :: "u64 \<Rightarrow> 'z kmem_state_scheme \<Rightarrow> 'z kmem_state_scheme res" where
  "kfree_base pa s =
     (if pa mod PGSIZE \<noteq> 0 \<or> pa < kend s \<or> pa \<ge> PHYSTOP then Panic ''kfree''
      else
        let m1 = memset (phys s) pa 1 4096;
            s1 = s\<lparr>phys := store64 m1 pa (freelist s), freelist := pa\<rparr>
        in Ok (if trace_memory s1 \<noteq> 0 then s1\<lparr>ktrace := ktrace s1 @ [TFree pa]\<rparr> else s1))"

definition kalloc_base :: "'z kmem_state_scheme \<Rightarrow> u64 \<times> 'z kmem_state_scheme" where
  "kalloc_base s =
     (let r = freelist s;
          s1 = (if r \<noteq> 0 then s\<lparr>freelist := load64 (phys s) r\<rparr> else s);
          s2 = (if r \<noteq> 0 then s1\<lparr>phys := memset (phys s1) r 5 4096\<rparr> else s1)
      in (r, if trace_memory s2 \<noteq> 0 \<and> r \<noteq> 0 then s2\<lparr>ktrace := ktrace s2 @ [TAlloc r]\<rparr> else s2))"

partial_function (option) freerange_base ::
    "u64 \<Rightarrow> u64 \<Rightarrow> 'z kmem_state_scheme \<Rightarrow> 'z kmem_state_scheme res option" where
  "freerange_base p pa_end s =
     (if p + PGSIZE \<le> pa_end
      then (case kfree_base p s of
              Ok s' \<Rightarrow> freerange_base (p + PGSIZE) pa_end s'
            | Panic e \<Rightarrow> Some (Panic e)
            | Hang \<Rightarrow> Some Hang)
      else Some (Ok s))"

definition kinit_base :: "'z kmem_state_scheme \<Rightarrow> 'z kmem_state_scheme res option" where
  "kinit_base s = freerange_base (PGROUNDUP (kend s)) PHYSTOP s"

definition base_inv :: "'z kmem_state_scheme \<Rightarrow> u64 list \<Rightarrow> bool" where
  "base_inv s xs \<longleftrightarrow> kend s \<noteq> 0 \<and> run_list (phys s) (freelist s) xs \<and> distinct xs
     \<and> (\<forall>x \<in> set xs. page_ok s x)"

lemma kfree_base_push:
  assumes inv: "base_inv s xs" and ok: "page_ok s pa" and new: "pa \<notin> set xs"
  shows "\<exists>s'. kfree_base pa s = Ok s' \<and> base_inv s' (pa # xs) \<and> kend s' = kend s"
proof -
  let ?m = "store64 (memset (phys s) pa 1 4096) pa (freelist s)"
  have al: "aligned pa" "pa \<noteq> 0" and als: "\<forall>x \<in> set xs. aligned x"
    using inv ok by (auto simp: base_inv_def dest: page_ok_simps)
  have "same_outside {pa} (phys s) ?m"
    using same_outside_trans[OF memset_outside store64_outside0, OF al(1) al(1)] by simp
  then have "run_list ?m (freelist s) xs"
    using run_list_outside[OF _ als] al new inv by (simp add: base_inv_def)
  then show ?thesis using inv ok new al
    by (auto simp: kfree_base_def Let_def aligned_mod_PGSIZE page_ok_def base_inv_def)
qed

lemma kalloc_base_pop:
  assumes inv: "base_inv s (x # xs)"
  shows "\<exists>s'. kalloc_base s = (x, s') \<and> base_inv s' xs \<and> kend s' = kend s"
proof -
  have x: "aligned x" "x \<noteq> 0" "freelist s = x" and xs: "\<forall>y \<in> set xs. aligned y"
    using inv by (auto simp: base_inv_def dest: page_ok_simps)
  have "run_list (memset (phys s) x 5 4096) (load64 (phys s) x) xs"
    using inv xs x by (subst run_list_outside[OF memset_outside]) (auto simp: base_inv_def)
  with inv x show ?thesis
    by (auto simp: kalloc_base_def Let_def base_inv_def page_ok_def)
qed

definition base_put ::
    "u64 \<Rightarrow> 'z kmem_state_scheme \<times> u64 set \<Rightarrow> ('z kmem_state_scheme \<times> u64 set) option" where
  "base_put pa q =
     (if pa \<in> snd q then (case kfree_base pa (fst q) of Ok s' \<Rightarrow> Some (s', snd q - {pa}) | _ \<Rightarrow> None)
      else None)"

definition base_get ::
    "'z kmem_state_scheme \<times> u64 set \<Rightarrow> (u64 \<times> 'z kmem_state_scheme \<times> u64 set) option" where
  "base_get q = (let (r, s') = kalloc_base (fst q) in
     if r = 0 then None else Some (r, s', insert r (snd q)))"

definition base_holds :: "'z kmem_state_scheme \<times> u64 set \<Rightarrow> u64 list \<Rightarrow> bool" where
  "base_holds q xs \<longleftrightarrow> base_inv (fst q) xs \<and> snd q \<inter> set xs = {}
     \<and> (\<forall>x \<in> snd q. page_ok (fst q) x)"

interpretation base: lifo base_put base_get base_holds
proof
  fix s t :: "'z kmem_state_scheme \<times> u64 set" and xs x
  assume h: "base_holds s xs" and p: "base_put x s = Some t"
  then have own: "x \<in> snd s" by (auto simp: base_put_def split: if_splits)
  with h obtain s' where "kfree_base x (fst s) = Ok s'" "base_inv s' (x # xs)" "kend s' = kend (fst s)"
    using kfree_base_push[of "fst s" xs x] by (auto simp: base_holds_def)
  moreover from this have "page_ok s' = page_ok (fst s)" by (intro page_ok_kend)
  ultimately show "base_holds t (x # xs)"
    using p own h by (auto simp: base_put_def base_holds_def)
next
  fix s :: "'z kmem_state_scheme \<times> u64 set" and xs x
  assume h: "base_holds s (x # xs)"
  then obtain s' where k: "kalloc_base (fst s) = (x, s')" "base_inv s' xs" "kend s' = kend (fst s)"
    using kalloc_base_pop[of "fst s" x xs] by (auto simp: base_holds_def)
  have "x \<noteq> 0" "x \<notin> set xs" "page_ok (fst s) x"
    using h by (auto simp: base_holds_def base_inv_def dest: page_ok_simps)
  moreover have "page_ok s' = page_ok (fst s)" using k by (intro page_ok_kend)
  ultimately show "\<exists>t. base_get s = Some (x, t) \<and> base_holds t xs"
    using k h by (auto simp: base_get_def base_holds_def)
next
  fix s :: "'z kmem_state_scheme \<times> u64 set"
  assume "base_holds s []"
  then show "base_get s = None"
    by (auto simp: base_holds_def base_get_def kalloc_base_def base_inv_def Let_def)
qed

lemma base_put_owned:
  assumes "base_holds q xs" "x \<in> snd q"
  shows "\<exists>q'. base_put x q = Some q' \<and> snd q' = snd q - {x} \<and> base_holds q' (x # xs)"
proof -
  have "x \<notin> set xs" using assms by (auto simp: base_holds_def)
  then obtain q' where q': "base_put x q = Some q'" "snd q' = snd q - {x}"
    using kfree_base_push[of "fst q" xs x] assms by (auto simp: base_put_def base_holds_def)
  then show ?thesis using base.put_holds[OF assms(1)] by auto
qed

lemma kmem_put_owned:
  assumes "kmem_holds q xs" "x \<in> snd q"
  shows "\<exists>q'. kmem_put x q = Some q' \<and> snd q' = snd q - {x} \<and> kmem_holds q' (xs @ [x])"
proof -
  have "x \<notin> set xs" using assms by (auto simp: kmem_holds_def)
  then obtain q' where q': "kmem_put x q = Some q'" "snd q' = snd q - {x}"
    using kfree_enqueue[of "fst q" xs x] assms by (auto simp: kmem_put_def kmem_holds_def)
  then show ?thesis using kmem.put_holds[OF assms(1)] by auto
qed

section \<open>A client that frees pages of its own and then allocates\<close>

text \<open>An item that the client owns is always accepted.\<close>

locale owned_store = store put get holds add
  for put :: "'a \<Rightarrow> 's \<Rightarrow> 's option" and get :: "'s \<Rightarrow> ('a \<times> 's) option"
    and holds :: "'s \<Rightarrow> 'a list \<Rightarrow> bool" and add :: "'a \<Rightarrow> 'a list \<Rightarrow> 'a list" +
  fixes owns :: "'s \<Rightarrow> 'a set"
  assumes put_owned: "holds s xs \<Longrightarrow> x \<in> owns s \<Longrightarrow> \<exists>t. put x s = Some t \<and> owns t = owns s - {x}"
begin

lemma run_gets:
  "holds s xs \<Longrightarrow> \<exists>t. run_ops put get (replicate k Get) s = ([], take k xs, t) \<and> holds t (drop k xs)"
proof (induction k arbitrary: s xs)
  case (Suc k)
  show ?case
  proof (cases xs)
    case Nil
    then show ?thesis using Suc.IH[OF Suc.prems] get_empty Suc.prems by simp
  next
    case (Cons x ys)
    then obtain t where t: "get s = Some (x, t)" "holds t ys" using get_holds Suc.prems by blast
    from Suc.IH[OF t(2)] t(1) show ?thesis using Cons by auto
  qed
qed simp

lemma run_puts_gets:
  "holds s ys \<Longrightarrow> distinct xs \<Longrightarrow> set xs \<subseteq> owns s \<Longrightarrow>
   \<exists>t. run_ops put get (map Put xs @ replicate k Get) s = (xs, take k (fold add xs ys), t) \<and> holds t (drop k (fold add xs ys))"
proof (induction xs arbitrary: s ys)
  case Nil
  then show ?case using run_gets[of s ys k] by simp
next
  case (Cons x xs)
  then obtain t where t: "put x s = Some t" "owns t = owns s - {x}" using put_owned[OF Cons.prems(1), of x] by auto
  have "holds t (add x ys)" using put_holds[OF Cons.prems(1) t(1)] .
  moreover have "set xs \<subseteq> owns t" using Cons.prems(2,3) t(2) by auto
  ultimately show ?case using Cons.IH[of t "add x ys"] Cons.prems(2) t(1) by auto
qed

end

interpretation kmem_owned: owned_store kmem_put kmem_get kmem_holds "\<lambda>x xs. xs @ [x]" snd
  by unfold_locales (use kmem_put_owned in blast)

interpretation base_owned: owned_store base_put base_get base_holds "(#)" snd
  by unfold_locales (use base_put_owned in blast)

lemma fold_snoc: "fold (\<lambda>x xs. xs @ [x]) xs ys = ys @ xs"
  by (induction xs arbitrary: ys) auto

lemma fold_Cons_rev: "fold (#) xs ys = rev xs @ ys"
  by (induction xs arbitrary: ys) auto

section \<open>Properties\<close>

text \<open>
  In the unmodified allocator the page freed last is the page allocated next: after
  \<open>kfree(pa)\<close> succeeds, \<open>kalloc()\<close> returns \<open>pa\<close> and the list is what it was before.
\<close>

theorem kalloc_base_lifo:
  assumes "base_holds q xs" "base_put pa q = Some q'"
  shows "\<exists>q''. base_get q' = Some (pa, q'') \<and> base_holds q'' xs"
  using assms by (rule base.put_get)

text \<open>
  C39. Queue against stack, as \<open>user/test_memory.c\<close> makes them visible: a client frees pages \<open>xs\<close> that it
  owns, whatever is on the free lists, and allocates \<open>k\<close> times. On the modified system it gets the
  pages that were free before, in their order, and then its own in the order in which it freed them; on
  the unmodified one it gets its own back in reverse order and only then the others; each list is
  left with the rest. The test frees \<open>p3\<close>, \<open>p2\<close>, \<open>p1\<close> with nothing else free and
  allocates two: \<open>p3\<close>, \<open>p2\<close> here, \<open>p1\<close>, \<open>p2\<close> there.
\<close>

theorem test_memory_fifo_vs_lifo:
  assumes "kmem_holds q ys" "base_holds b zs" "distinct xs" "set xs \<subseteq> snd q" "set xs \<subseteq> snd b"
  shows "(\<exists>q'. run_ops kmem_put kmem_get (map Put xs @ replicate k Get) q = (xs, take k (ys @ xs), q')
           \<and> kmem_holds q' (drop k (ys @ xs)))
    \<and> (\<exists>b'. run_ops base_put base_get (map Put xs @ replicate k Get) b = (xs, take k (rev xs @ zs), b')
           \<and> base_holds b' (drop k (rev xs @ zs)))"
  using kmem_owned.run_puts_gets[OF assms(1,3,4), of k] base_owned.run_puts_gets[OF assms(2,3,5), of k]
  unfolding fold_snoc fold_Cons_rev by blast

lemma boot_client_holds:
  "kmem_holds (boot_kmem 0x80000000, {0x80001000, 0x80002000, 0x80003000}) []"
  "base_holds (boot_kmem 0x80000000, {0x80001000, 0x80002000, 0x80003000}) []"
  using boot_kmem_inv[of "0x80000000"]
  by (simp_all add: kmem_holds_def base_holds_def base_inv_def kmem_inv_def page_ok_def
      boot_kmem_def PHYSTOP_def take_bit_eq_mod)

theorem kalloc_base_lifo_witness:
  "\<exists>q' q''. base_put 0x80002000 (boot_kmem 0x80000000, {0x80001000, 0x80002000, 0x80003000}) = Some q'
     \<and> base_get q' = Some (0x80002000, q'')"
proof -
  obtain q' where p: "base_put 0x80002000
      (boot_kmem 0x80000000, {0x80001000, 0x80002000, 0x80003000}) = Some q'"
    using base_put_owned[OF boot_client_holds(2), of "0x80002000"] by auto
  from kalloc_base_lifo[OF boot_client_holds(2) p] p show ?thesis by blast
qed

theorem test_memory_fifo_vs_lifo_witness:
  "(\<exists>q'. run_ops kmem_put kmem_get [Put 0x80003000, Put 0x80002000, Put 0x80001000, Get, Get]
      (boot_kmem 0x80000000, {0x80001000, 0x80002000, 0x80003000})
      = ([0x80003000, 0x80002000, 0x80001000], [0x80003000, 0x80002000], q'))
   \<and> (\<exists>b'. run_ops base_put base_get [Put 0x80003000, Put 0x80002000, Put 0x80001000, Get, Get]
      (boot_kmem 0x80000000, {0x80001000, 0x80002000, 0x80003000})
      = ([0x80003000, 0x80002000, 0x80001000], [0x80001000, 0x80002000], b'))"
proof -
  let ?xs = "[0x80003000, 0x80002000, 0x80001000] :: u64 list"
  let ?b = "(boot_kmem 0x80000000, {0x80001000, 0x80002000, 0x80003000})"
  have ops: "map Put ?xs @ replicate 2 Get = [Put 0x80003000, Put 0x80002000, Put 0x80001000, Get, Get]"
    by (simp add: numeral_2_eq_2)
  have outs: "take 2 ([] @ ?xs) = [0x80003000, 0x80002000]" "take 2 (rev ?xs @ []) = [0x80001000, 0x80002000]"
    by simp_all
  have "distinct ?xs" "set ?xs \<subseteq> snd ?b" by simp_all
  from test_memory_fifo_vs_lifo[OF boot_client_holds this(1,2,2), of 2, unfolded ops outs]
  show ?thesis by blast
qed

end
