(* ===== verification/Spinlock.thy ===== *)
theory Spinlock
  imports Prelude
begin

text \<open>
  Spin locks and interrupt nesting, \<open>kernel/spinlock.c\<close>. The per-CPU data \<open>struct cpu\<close> is
  the record \<open>cpu\<close>, with the interrupt enable bit of the hart (\<open>sstatus.SIE\<close>) as the field
  \<open>sie\<close>. \<open>acquire\<close> and \<open>release\<close> are given twice: as functions run by one CPU (spinning
  for ever on a lock another CPU holds is \<open>Hang\<close>), and as the atomic steps of any number of
  CPUs, for mutual exclusion.
\<close>

record cpu =
  cproc :: "nat option"
  noff :: int
  intena :: bool
  sie :: bool

record spinlock =
  locked :: bool
  lname :: string
  lcpu :: "nat option"

section \<open>Operations\<close>

definition initlock :: "string \<Rightarrow> spinlock" where
  "initlock name = \<lparr>locked = False, lname = name, lcpu = None\<rparr>"

definition push_off :: "cpu \<Rightarrow> cpu" where
  "push_off c =
     (let old = sie c;
          c1 = c\<lparr>sie := False\<rparr>;
          c2 = (if noff c1 = 0 then c1\<lparr>intena := old\<rparr> else c1)
      in c2\<lparr>noff := noff c2 + 1\<rparr>)"

definition pop_off :: "cpu \<Rightarrow> cpu res" where
  "pop_off c =
     (if sie c then Panic ''pop_off - interruptible''
      else if noff c < 1 then Panic ''pop_off''
      else let c1 = c\<lparr>noff := noff c - 1\<rparr>
           in Ok (if noff c1 = 0 \<and> intena c1 then c1\<lparr>sie := True\<rparr> else c1))"

definition holding :: "nat \<Rightarrow> spinlock \<Rightarrow> bool" where
  "holding me lk \<longleftrightarrow> locked lk \<and> lcpu lk = Some me"

definition acquire :: "nat \<Rightarrow> spinlock \<Rightarrow> cpu \<Rightarrow> (spinlock \<times> cpu) res" where
  "acquire me lk c =
     (let c1 = push_off c
      in if holding me lk then Panic ''acquire''
         else if locked lk then Hang
         else Ok (lk\<lparr>locked := True, lcpu := Some me\<rparr>, c1))"

definition release :: "nat \<Rightarrow> spinlock \<Rightarrow> cpu \<Rightarrow> (spinlock \<times> cpu) res" where
  "release me lk c =
     (if \<not> holding me lk then Panic ''release''
      else bindR (pop_off c) (\<lambda>c1. Ok (lk\<lparr>lcpu := None, locked := False\<rparr>, c1)))"

section \<open>The same code as atomic steps of several CPUs\<close>

text \<open>
  Where a CPU is with respect to one lock: outside; spinning in \<open>acquire\<close> after
  \<open>push_off\<close>; past the atomic exchange but before \<open>lk->cpu\<close> is recorded; in the critical
  section; in \<open>release\<close> after \<open>lk->cpu = 0\<close>; after the atomic store, before \<open>pop_off\<close>.
\<close>

datatype lpc = Outside | Spinning | Swapped | Critical | Clearing | Stored

record lock_state =
  thelock :: spinlock
  lcpus :: "nat \<Rightarrow> cpu"
  lpc :: "nat \<Rightarrow> lpc"
  panicked :: bool

definition lock_init :: "lock_state \<Rightarrow> bool" where
  "lock_init s \<longleftrightarrow> thelock s = initlock (lname (thelock s)) \<and> (\<forall>i. noff (lcpus s i) = 0)
     \<and> (\<forall>i. lpc s i = Outside) \<and> \<not> panicked s"

inductive lock_step :: "lock_state \<Rightarrow> lock_state \<Rightarrow> bool" where
  interrupts: "lpc s i = Outside \<Longrightarrow>
     lock_step s (s\<lparr>lcpus := (lcpus s)(i := (lcpus s i)\<lparr>sie := b\<rparr>)\<rparr>)"
| enter: "lpc s i = Outside \<Longrightarrow>
     lock_step s (s\<lparr>lcpus := (lcpus s)(i := push_off (lcpus s i)), lpc := (lpc s)(i := Spinning),
        panicked := (panicked s \<or> holding i (thelock s))\<rparr>)"
| exchange_fails: "lpc s i = Spinning \<Longrightarrow> locked (thelock s) \<Longrightarrow> lock_step s s"
| exchange: "lpc s i = Spinning \<Longrightarrow> \<not> locked (thelock s) \<Longrightarrow>
     lock_step s (s\<lparr>thelock := (thelock s)\<lparr>locked := True\<rparr>, lpc := (lpc s)(i := Swapped)\<rparr>)"
| record_cpu: "lpc s i = Swapped \<Longrightarrow>
     lock_step s (s\<lparr>thelock := (thelock s)\<lparr>lcpu := Some i\<rparr>, lpc := (lpc s)(i := Critical)\<rparr>)"
| clear_cpu: "lpc s i = Critical \<Longrightarrow>
     lock_step s (s\<lparr>thelock := (thelock s)\<lparr>lcpu := None\<rparr>, lpc := (lpc s)(i := Clearing),
        panicked := (panicked s \<or> \<not> holding i (thelock s))\<rparr>)"
| store: "lpc s i = Clearing \<Longrightarrow>
     lock_step s (s\<lparr>thelock := (thelock s)\<lparr>locked := False\<rparr>, lpc := (lpc s)(i := Stored)\<rparr>)"
| leave: "lpc s i = Stored \<Longrightarrow> pop_off (lcpus s i) = Ok c \<Longrightarrow>
     lock_step s (s\<lparr>lcpus := (lcpus s)(i := c), lpc := (lpc s)(i := Outside)\<rparr>)"
| leave_panic: "lpc s i = Stored \<Longrightarrow> pop_off (lcpus s i) = Panic e \<Longrightarrow>
     lock_step s (s\<lparr>panicked := True\<rparr>)"

abbreviation owns :: "lpc \<Rightarrow> bool" where
  "owns q \<equiv> q = Swapped \<or> q = Critical \<or> q = Clearing"

definition cpu_ok :: "lpc \<Rightarrow> cpu \<Rightarrow> bool" where
  "cpu_ok q c \<longleftrightarrow> (if q = Outside then noff c = 0 else noff c = 1 \<and> \<not> sie c)"

text \<open>The invariant names the owner of the lock, if there is one.\<close>

definition lock_inv_at :: "nat option \<Rightarrow> lock_state \<Rightarrow> bool" where
  "lock_inv_at ow s \<longleftrightarrow> \<not> panicked s
     \<and> (\<forall>i. owns (lpc s i) \<longleftrightarrow> ow = Some i)
     \<and> (locked (thelock s) \<longleftrightarrow> ow \<noteq> None)
     \<and> lcpu (thelock s) = (case ow of None \<Rightarrow> None | Some i \<Rightarrow> if lpc s i = Critical then Some i else None)
     \<and> (\<forall>i. cpu_ok (lpc s i) (lcpus s i))"

definition lock_inv :: "lock_state \<Rightarrow> bool" where
  "lock_inv s \<longleftrightarrow> (\<exists>ow. lock_inv_at ow s)"

lemma pop_off_Ok: "\<not> sie c \<Longrightarrow> 1 \<le> noff c \<Longrightarrow> \<exists>c'. pop_off c = Ok c' \<and> noff c' = noff c - 1"
  by (auto simp: pop_off_def Let_def)

lemma pop_off_push_off:
  "(noff c > 0 \<longrightarrow> \<not> sie c) \<Longrightarrow> 0 \<le> noff c \<Longrightarrow>
   \<exists>c'. pop_off (push_off c) = Ok c' \<and> noff c' = noff c \<and> sie c' = sie c \<and> cproc c' = cproc c
     \<and> (noff c > 0 \<longrightarrow> c' = c)"
  by (auto simp: pop_off_def push_off_def Let_def)

lemma noff_push_off [simp]: "noff (push_off c) = noff c + 1" "sie (push_off c) = False"
  by (simp_all add: push_off_def Let_def)

lemma lock_step_inv_at:
  assumes "lock_step s t" "lock_inv_at ow s"
  shows "lock_inv t"
  using assms
proof cases
  case (interrupts i b)
  then have "lock_inv_at ow t" using assms(2) by (auto simp: lock_inv_at_def cpu_ok_def)
  then show ?thesis by (auto simp: lock_inv_def)
next
  case (enter i)
  then have "\<not> holding i (thelock s)" using assms(2)
    by (auto simp: lock_inv_at_def holding_def split: option.splits if_splits)
  moreover have "\<not> owns (lpc s i)" using enter by simp
  then have "ow \<noteq> Some i" using assms(2) unfolding lock_inv_at_def by blast
  ultimately have "lock_inv_at ow t" using assms(2) enter
    by (auto simp: lock_inv_at_def cpu_ok_def split: option.splits)
  then show ?thesis by (auto simp: lock_inv_def)
next
  case exchange_fails
  then show ?thesis using assms(2) by (auto simp: lock_inv_def)
next
  case (exchange i)
  then have "lock_inv_at (Some i) t" using assms(2)
    by (auto simp: lock_inv_at_def cpu_ok_def)
  then show ?thesis by (auto simp: lock_inv_def)
next
  case (record_cpu i)
  then have "ow = Some i" using assms(2) by (auto simp: lock_inv_at_def)
  then have "lock_inv_at ow t" using assms(2) record_cpu
    by (auto simp: lock_inv_at_def cpu_ok_def)
  then show ?thesis by (auto simp: lock_inv_def)
next
  case (clear_cpu i)
  then have o: "ow = Some i" using assms(2) by (auto simp: lock_inv_at_def)
  then have "holding i (thelock s)" using assms(2) clear_cpu by (auto simp: lock_inv_at_def holding_def)
  with o have "lock_inv_at ow t" using assms(2) clear_cpu
    by (auto simp: lock_inv_at_def cpu_ok_def)
  then show ?thesis by (auto simp: lock_inv_def)
next
  case (store i)
  then have o: "ow = Some i" using assms(2) by (auto simp: lock_inv_at_def)
  then have "lock_inv_at None t" using assms(2) store
    by (auto simp: lock_inv_at_def cpu_ok_def)
  then show ?thesis by (auto simp: lock_inv_def)
next
  case (leave i c)
  then have "cpu_ok Stored (lcpus s i)" using assms(2) unfolding lock_inv_at_def by metis
  then have "noff c = 0" using leave pop_off_Ok[of "lcpus s i"] by (auto simp: cpu_ok_def)
  moreover have "\<not> owns (lpc s i)" using leave by simp
  then have "ow \<noteq> Some i" using assms(2) unfolding lock_inv_at_def by blast
  ultimately have "lock_inv_at ow t" using assms(2) leave
    by (auto simp: lock_inv_at_def cpu_ok_def split: option.splits)
  then show ?thesis by (auto simp: lock_inv_def)
next
  case (leave_panic i e)
  then have "cpu_ok Stored (lcpus s i)" using assms(2) unfolding lock_inv_at_def by metis
  then have False using leave_panic pop_off_Ok[of "lcpus s i"] by (auto simp: cpu_ok_def)
  then show ?thesis ..
qed

lemma lock_init_inv: "lock_init s \<Longrightarrow> lock_inv_at None s"
  unfolding lock_init_def lock_inv_at_def initlock_def
  by (cases "thelock s") (auto simp: cpu_ok_def)

interpretation spin: inductive_invariant lock_init lock_step lock_inv
  by unfold_locales (auto simp: lock_inv_def dest: lock_init_inv lock_step_inv_at[unfolded lock_inv_def])

section \<open>Properties\<close>

text \<open>
  C9. Mutual exclusion: in every state the CPUs can reach by interleaving the atomic steps
  of \<open>acquire\<close> and \<open>release\<close> on one lock, at most one CPU is between the atomic exchange
  that takes the lock and the store that frees it, that CPU runs with interrupts off, and
  none of the panics of \<open>acquire\<close>, \<open>release\<close> and \<open>pop_off\<close> has been reached.
\<close>

theorem spinlock_mutual_exclusion:
  assumes "reach lock_init lock_step s" "owns (lpc s i)"
  shows "(\<forall>j. owns (lpc s j) \<longrightarrow> j = i) \<and> \<not> sie (lcpus s i) \<and> \<not> panicked s
    \<and> (lpc s i = Critical \<longrightarrow> holding i (thelock s))"
proof -
  obtain ow where "lock_inv_at ow s" using spin.reach_inv[OF assms(1)] by (auto simp: lock_inv_def)
  moreover from this have "cpu_ok (lpc s i) (lcpus s i)" "ow = Some i"
    using assms(2) unfolding lock_inv_at_def by blast+
  moreover from this have "\<not> sie (lcpus s i)" using assms(2) by (auto simp: cpu_ok_def)
  ultimately show ?thesis by (simp add: lock_inv_at_def holding_def)
qed

definition lock_state0 :: lock_state where
  "lock_state0 = \<lparr>thelock = initlock ''kmem'', lcpus = (\<lambda>_. \<lparr>cproc = None, noff = 0, intena = False, sie = True\<rparr>),
     lpc = (\<lambda>_. Outside), panicked = False\<rparr>"

theorem spinlock_mutual_exclusion_witness:
  "\<exists>s. reach lock_init lock_step s \<and> lpc s 0 = Swapped \<and> \<not> sie (lcpus s 0)"
proof -
  have "reach lock_init lock_step lock_state0"
    by (rule reach_init) (simp add: lock_state0_def lock_init_def initlock_def)
  moreover define s1 where "s1 = lock_state0\<lparr>lcpus := (lcpus lock_state0)(0 := push_off (lcpus lock_state0 0)),
      lpc := (lpc lock_state0)(0 := Spinning), panicked := (panicked lock_state0 \<or> holding 0 (thelock lock_state0))\<rparr>"
  moreover have "lock_step lock_state0 s1"
    unfolding s1_def by (rule lock_step.enter) (simp add: lock_state0_def)
  ultimately have r1: "reach lock_init lock_step s1" by (blast intro: reach_step)
  define s2 where "s2 = s1\<lparr>thelock := (thelock s1)\<lparr>locked := True\<rparr>, lpc := (lpc s1)(0 := Swapped)\<rparr>"
  have "lock_step s1 s2"
    unfolding s2_def by (rule lock_step.exchange) (simp_all add: s1_def lock_state0_def initlock_def)
  with r1 have r: "reach lock_init lock_step s2" by (rule reach_step)
  moreover have "lpc s2 0 = Swapped" by (simp add: s2_def)
  ultimately show ?thesis using spinlock_mutual_exclusion[OF r, of 0] by auto
qed

text \<open>
  \<open>push_off\<close> and \<open>pop_off\<close> nest: after any number of \<open>push_off\<close>s, as many \<open>pop_off\<close>s
  succeed and restore the interrupt state and the nesting depth, and interrupts are off in
  between. A CPU that already nests must have interrupts off, as every caller does.
\<close>

fun push_n :: "nat \<Rightarrow> cpu \<Rightarrow> cpu" where
  "push_n 0 c = c"
| "push_n (Suc n) c = push_n n (push_off c)"

fun pop_n :: "nat \<Rightarrow> cpu \<Rightarrow> cpu res" where
  "pop_n 0 c = Ok c"
| "pop_n (Suc n) c = bindR (pop_off c) (pop_n n)"

lemma pop_n_snoc: "pop_n (Suc n) c = bindR (pop_n n c) pop_off"
proof (induction n arbitrary: c)
  case (Suc n)
  then show ?case by (cases "pop_off c") auto
next
  case 0
  show ?case by (cases "pop_off c") auto
qed

lemma push_pop_nested_aux:
  "0 \<le> noff c \<Longrightarrow> (noff c > 0 \<longrightarrow> \<not> sie c) \<Longrightarrow>
   \<exists>c'. pop_n n (push_n n c) = Ok c' \<and> sie c' = sie c \<and> noff c' = noff c
     \<and> (noff c > 0 \<longrightarrow> c' = c) \<and> (n > 0 \<longrightarrow> \<not> sie (push_n n c))"
proof (induction n arbitrary: c)
  case (Suc n)
  have "\<exists>c'. pop_n n (push_n n (push_off c)) = Ok c' \<and> c' = push_off c \<and> (n > 0 \<longrightarrow> \<not> sie (push_n n (push_off c)))"
    using Suc.IH[of "push_off c"] Suc.prems by auto
  moreover have "\<not> sie (push_n (Suc n) c)" using calculation by (cases n) auto
  ultimately show ?case using pop_off_push_off[of c] Suc.prems
    by (auto simp: pop_n_snoc simp del: pop_n.simps(2))
qed simp

theorem push_pop_nested:
  assumes "0 \<le> noff c" "noff c > 0 \<longrightarrow> \<not> sie c"
  shows "\<exists>c'. pop_n n (push_n n c) = Ok c' \<and> sie c' = sie c \<and> noff c' = noff c
     \<and> (n > 0 \<longrightarrow> \<not> sie (push_n n c))"
  using push_pop_nested_aux[OF assms] by blast

theorem push_pop_nested_witness:
  "\<exists>c'. pop_n 3 (push_n 3 \<lparr>cproc = None, noff = 0, intena = False, sie = True\<rparr>) = Ok c' \<and> sie c'"
  using push_pop_nested[of "\<lparr>cproc = None, noff = 0, intena = False, sie = True\<rparr>" 3] by auto

end
