(* ===== verification/Vm.thy ===== *)
theory Vm
  imports Kalloc
begin

text \<open>
  Sv39 page tables, \<open>kernel/vm.c\<close>. Page tables live in physical memory and are read and
  written as 64-bit page table entries; page-table pages come from \<open>kalloc\<close>. Kernel
  buffers passed as \<open>char *\<close> are byte lists. \<open>vmfault\<close> reads \<open>sz\<close> and \<open>pagetable\<close> of
  \<open>myproc()\<close>: the two fields are the record \<open>uproc\<close>. A loop whose end is an address
  comparison is a \<open>partial_function\<close>, with \<open>Hang\<close> when it never ends.
\<close>

record uproc =
  usz :: u64
  upt :: u64

section \<open>Page table entries (kernel/riscv.h)\<close>

definition PTE_V :: u64 where "PTE_V = 1"
definition PTE_R :: u64 where "PTE_R = 2"
definition PTE_W :: u64 where "PTE_W = 4"
definition PTE_X :: u64 where "PTE_X = 8"
definition PTE_U :: u64 where "PTE_U = 16"

definition PA2PTE :: "u64 \<Rightarrow> u64" where "PA2PTE pa = push_bit 10 (drop_bit 12 pa)"
definition PTE2PA :: "u64 \<Rightarrow> u64" where "PTE2PA pte = push_bit 12 (drop_bit 10 pte)"
definition PTE_FLAGS :: "u64 \<Rightarrow> u64" where "PTE_FLAGS pte = pte AND 0x3FF"

definition PXSHIFT :: "nat \<Rightarrow> nat" where "PXSHIFT level = 12 + 9 * level"
definition PX :: "nat \<Rightarrow> u64 \<Rightarrow> u64" where
  "PX level va = drop_bit (PXSHIFT level) va AND 0x1FF"

section \<open>Walking and mapping\<close>

text \<open>\<open>pte_at pt level va\<close> is the address \<open>&pagetable[PX(level, va)]\<close>.\<close>

definition pte_at :: "u64 \<Rightarrow> nat \<Rightarrow> u64 \<Rightarrow> u64" where
  "pte_at pt level va = pt + of_nat (8 * unat (PX level va))"

fun walk_from :: "nat \<Rightarrow> u64 \<Rightarrow> u64 \<Rightarrow> bool \<Rightarrow> 'z kmem_state_scheme \<Rightarrow> u64 \<times> 'z kmem_state_scheme" where
  "walk_from 0 pt va alloc s = (pte_at pt 0 va, s)"
| "walk_from (Suc l) pt va alloc s =
     (let pte = pte_at pt (Suc l) va;
          e = load64 (phys s) pte
      in if e AND PTE_V \<noteq> 0 then walk_from l (PTE2PA e) va alloc s
         else if \<not> alloc then (0, s)
         else let (page, s1) = kalloc s
              in if page = 0 then (0, s1)
                 else let m1 = memset (phys s1) page 0 4096;
                          m2 = store64 m1 pte (PA2PTE page OR PTE_V)
                      in walk_from l page va alloc (s1\<lparr>phys := m2\<rparr>))"

definition walk :: "u64 \<Rightarrow> u64 \<Rightarrow> bool \<Rightarrow> 'z kmem_state_scheme \<Rightarrow> (u64 \<times> 'z kmem_state_scheme) res" where
  "walk pt va alloc s = (if va \<ge> MAXVA then Panic ''walk'' else Ok (walk_from 2 pt va alloc s))"

definition walkaddr :: "u64 \<Rightarrow> u64 \<Rightarrow> 'z kmem_state_scheme \<Rightarrow> u64" where
  "walkaddr pt va s =
     (if va \<ge> MAXVA then 0
      else let pte = fst (walk_from 2 pt va False s)
           in if pte = 0 then 0
              else let e = load64 (phys s) pte
                   in if e AND PTE_V = 0 then 0
                      else if e AND PTE_U = 0 then 0
                      else PTE2PA e)"

definition ismapped :: "u64 \<Rightarrow> u64 \<Rightarrow> 'z kmem_state_scheme \<Rightarrow> bool res" where
  "ismapped pt va s =
     bindR (walk pt va False s) (\<lambda>(pte, s1).
       if pte = 0 then Ok False
       else if load64 (phys s1) pte AND PTE_V \<noteq> 0 then Ok True
       else Ok False)"

partial_function (option) mappages_loop ::
    "u64 \<Rightarrow> u64 \<Rightarrow> u64 \<Rightarrow> u64 \<Rightarrow> u64 \<Rightarrow> 'z kmem_state_scheme \<Rightarrow> (int \<times> 'z kmem_state_scheme) res option" where
  "mappages_loop pt a fin pa perm s =
     (case walk pt a True s of
        Panic e \<Rightarrow> Some (Panic e)
      | Hang \<Rightarrow> Some Hang
      | Ok q \<Rightarrow>
          (if fst q = 0 then Some (Ok (-1, snd q))
           else if load64 (phys (snd q)) (fst q) AND PTE_V \<noteq> 0 then Some (Panic ''mappages: remap'')
           else let s2 = (snd q)\<lparr>phys := store64 (phys (snd q)) (fst q) (PA2PTE pa OR perm OR PTE_V)\<rparr>
                in if a = fin then Some (Ok (0, s2))
                   else mappages_loop pt (a + PGSIZE) fin (pa + PGSIZE) perm s2))"

definition mappages ::
    "u64 \<Rightarrow> u64 \<Rightarrow> u64 \<Rightarrow> u64 \<Rightarrow> u64 \<Rightarrow> 'z kmem_state_scheme \<Rightarrow> (int \<times> 'z kmem_state_scheme) res" where
  "mappages pt va nbytes pa perm s =
     (if va mod PGSIZE \<noteq> 0 then Panic ''mappages: va not aligned''
      else if nbytes mod PGSIZE \<noteq> 0 then Panic ''mappages: size not aligned''
      else if nbytes = 0 then Panic ''mappages: size''
      else (case mappages_loop pt va (va + nbytes - PGSIZE) pa perm s of
              None \<Rightarrow> Hang | Some r \<Rightarrow> r))"

definition kvmmap ::
    "u64 \<Rightarrow> u64 \<Rightarrow> u64 \<Rightarrow> u64 \<Rightarrow> u64 \<Rightarrow> 'z kmem_state_scheme \<Rightarrow> 'z kmem_state_scheme res" where
  "kvmmap kpt va pa nbytes perm s =
     bindR (mappages kpt va nbytes pa perm s) (\<lambda>(r, s1).
       if r \<noteq> 0 then Panic ''kvmmap'' else Ok s1)"

definition uvmcreate :: "'z kmem_state_scheme \<Rightarrow> u64 \<times> 'z kmem_state_scheme" where
  "uvmcreate s =
     (let (pt, s1) = kalloc s
      in if pt = 0 then (0, s1) else (pt, s1\<lparr>phys := memset (phys s1) pt 0 4096\<rparr>))"

text \<open>One round of \<open>uvmunmap\<close>, for the page at \<open>a\<close>.\<close>

definition uvmunmap_page ::
    "u64 \<Rightarrow> u64 \<Rightarrow> bool \<Rightarrow> 'z kmem_state_scheme \<Rightarrow> 'z kmem_state_scheme res" where
  "uvmunmap_page pt a do_free s =
     bindR (walk pt a False s) (\<lambda>(pte, s1).
       if pte = 0 then Ok s1
       else if load64 (phys s1) pte AND PTE_V = 0 then Ok s1
       else bindR (if do_free then kfree (PTE2PA (load64 (phys s1) pte)) s1 else Ok s1) (\<lambda>s2.
         Ok (s2\<lparr>phys := store64 (phys s2) pte 0\<rparr>)))"

partial_function (option) uvmunmap_loop ::
    "u64 \<Rightarrow> u64 \<Rightarrow> u64 \<Rightarrow> bool \<Rightarrow> 'z kmem_state_scheme \<Rightarrow> 'z kmem_state_scheme res option" where
  "uvmunmap_loop pt a endva do_free s =
     (if a < endva
      then (case uvmunmap_page pt a do_free s of
              Ok s1 \<Rightarrow> uvmunmap_loop pt (a + PGSIZE) endva do_free s1
            | Panic e \<Rightarrow> Some (Panic e)
            | Hang \<Rightarrow> Some Hang)
      else Some (Ok s))"

definition uvmunmap ::
    "u64 \<Rightarrow> u64 \<Rightarrow> u64 \<Rightarrow> bool \<Rightarrow> 'z kmem_state_scheme \<Rightarrow> 'z kmem_state_scheme res" where
  "uvmunmap pt va npages do_free s =
     (if va mod PGSIZE \<noteq> 0 then Panic ''uvmunmap: not aligned''
      else (case uvmunmap_loop pt va (va + npages * PGSIZE) do_free s of
              None \<Rightarrow> Hang | Some r \<Rightarrow> r))"

definition uvmdealloc ::
    "u64 \<Rightarrow> u64 \<Rightarrow> u64 \<Rightarrow> 'z kmem_state_scheme \<Rightarrow> (u64 \<times> 'z kmem_state_scheme) res" where
  "uvmdealloc pt oldsz newsz s =
     (if newsz \<ge> oldsz then Ok (oldsz, s)
      else if PGROUNDUP newsz < PGROUNDUP oldsz
      then bindR (uvmunmap pt (PGROUNDUP newsz)
                    (scast (ucast ((PGROUNDUP oldsz - PGROUNDUP newsz) div PGSIZE) :: 32 word))
                    True s)
             (\<lambda>s1. Ok (newsz, s1))
      else Ok (newsz, s))"

partial_function (option) uvmalloc_loop ::
    "u64 \<Rightarrow> u64 \<Rightarrow> u64 \<Rightarrow> u64 \<Rightarrow> u64 \<Rightarrow> 'z kmem_state_scheme \<Rightarrow> (u64 \<times> 'z kmem_state_scheme) res option" where
  "uvmalloc_loop pt a oldsz newsz xperm s =
     (if a < newsz
      then let k = kalloc s
           in if fst k = 0
              then Some (bindR (uvmdealloc pt a oldsz (snd k)) (\<lambda>(_, s2). Ok (0, s2)))
              else (case mappages pt a PGSIZE (fst k) (PTE_R OR PTE_U OR xperm)
                           ((snd k)\<lparr>phys := memset (phys (snd k)) (fst k) 0 4096\<rparr>) of
                      Panic e \<Rightarrow> Some (Panic e)
                    | Hang \<Rightarrow> Some Hang
                    | Ok q \<Rightarrow>
                        (if fst q \<noteq> 0
                         then Some (bindR (kfree (fst k) (snd q)) (\<lambda>s3.
                                bindR (uvmdealloc pt a oldsz s3) (\<lambda>(_, s4). Ok (0, s4))))
                         else uvmalloc_loop pt (a + PGSIZE) oldsz newsz xperm (snd q)))
      else Some (Ok (newsz, s)))"

definition uvmalloc ::
    "u64 \<Rightarrow> u64 \<Rightarrow> u64 \<Rightarrow> u64 \<Rightarrow> 'z kmem_state_scheme \<Rightarrow> (u64 \<times> 'z kmem_state_scheme) res" where
  "uvmalloc pt oldsz newsz xperm s =
     (if newsz < oldsz then Ok (oldsz, s)
      else let oldsz' = PGROUNDUP oldsz
           in (case uvmalloc_loop pt oldsz' oldsz' newsz xperm s of None \<Rightarrow> Hang | Some r \<Rightarrow> r))"

text \<open>\<open>freewalk\<close> recurses into lower-level tables; the first argument bounds the depth, and
  three levels are all that Sv39 has.\<close>

fun free_entries ::
    "(u64 \<Rightarrow> 'z kmem_state_scheme \<Rightarrow> 'z kmem_state_scheme res) \<Rightarrow> u64 \<Rightarrow> nat list \<Rightarrow>
     'z kmem_state_scheme \<Rightarrow> 'z kmem_state_scheme res" where
  "free_entries rec pt [] s = Ok s"
| "free_entries rec pt (i # is) s =
     (let a = pt + of_nat (8 * i);
          pte = load64 (phys s) a
      in if pte AND PTE_V \<noteq> 0 \<and> pte AND (PTE_R OR PTE_W OR PTE_X) = 0
         then bindR (rec (PTE2PA pte) s) (\<lambda>s1.
                free_entries rec pt is (s1\<lparr>phys := store64 (phys s1) a 0\<rparr>))
         else if pte AND PTE_V \<noteq> 0 then Panic ''freewalk: leaf''
         else free_entries rec pt is s)"

fun freewalk :: "nat \<Rightarrow> u64 \<Rightarrow> 'z kmem_state_scheme \<Rightarrow> 'z kmem_state_scheme res" where
  "freewalk 0 pt s = Hang"
| "freewalk (Suc d) pt s =
     bindR (free_entries (freewalk d) pt [0..<512] s) (\<lambda>s1. kfree pt s1)"

definition uvmfree :: "u64 \<Rightarrow> u64 \<Rightarrow> 'z kmem_state_scheme \<Rightarrow> 'z kmem_state_scheme res" where
  "uvmfree pt nbytes s =
     bindR (if nbytes > 0 then uvmunmap pt 0 (PGROUNDUP nbytes div PGSIZE) True s else Ok s)
       (freewalk 3 pt)"

text \<open>\<open>uvmcopy\<close>: the error exit unmaps what was copied so far.\<close>

partial_function (option) uvmcopy_loop ::
    "u64 \<Rightarrow> u64 \<Rightarrow> u64 \<Rightarrow> u64 \<Rightarrow> 'z kmem_state_scheme \<Rightarrow> (int \<times> 'z kmem_state_scheme) res option" where
  "uvmcopy_loop old new i nbytes s =
     (if i < nbytes
      then (case walk old i False s of
              Panic e \<Rightarrow> Some (Panic e)
            | Hang \<Rightarrow> Some Hang
            | Ok w \<Rightarrow>
              (if fst w = 0 then uvmcopy_loop old new (i + PGSIZE) nbytes s
               else if load64 (phys s) (fst w) AND PTE_V = 0
               then uvmcopy_loop old new (i + PGSIZE) nbytes s
               else let pte = load64 (phys s) (fst w);
                        k = kalloc s
                    in if fst k = 0
                       then Some (bindR (uvmunmap new 0 (i div PGSIZE) True (snd k)) (\<lambda>s2. Ok (-1, s2)))
                       else (case mappages new i PGSIZE (fst k) (PTE_FLAGS pte)
                                    ((snd k)\<lparr>phys := memmove (phys (snd k)) (fst k) (PTE2PA pte) 4096\<rparr>) of
                               Panic e \<Rightarrow> Some (Panic e)
                             | Hang \<Rightarrow> Some Hang
                             | Ok q \<Rightarrow>
                               (if fst q \<noteq> 0
                                then Some (bindR (kfree (fst k) (snd q)) (\<lambda>s3.
                                       bindR (uvmunmap new 0 (i div PGSIZE) True s3) (\<lambda>s4. Ok (-1, s4))))
                                else uvmcopy_loop old new (i + PGSIZE) nbytes (snd q)))))
      else Some (Ok (0, s)))"

definition uvmcopy ::
    "u64 \<Rightarrow> u64 \<Rightarrow> u64 \<Rightarrow> 'z kmem_state_scheme \<Rightarrow> (int \<times> 'z kmem_state_scheme) res" where
  "uvmcopy old new nbytes s = (case uvmcopy_loop old new 0 nbytes s of None \<Rightarrow> Hang | Some r \<Rightarrow> r)"

definition uvmclear :: "u64 \<Rightarrow> u64 \<Rightarrow> 'z kmem_state_scheme \<Rightarrow> 'z kmem_state_scheme res" where
  "uvmclear pt va s =
     bindR (walk pt va False s) (\<lambda>(pte, s1).
       if pte = 0 then Panic ''uvmclear''
       else Ok (s1\<lparr>phys := store64 (phys s1) pte (load64 (phys s1) pte AND NOT PTE_U)\<rparr>))"

section \<open>Copying between kernel and user space\<close>

definition vmfault ::
    "uproc \<Rightarrow> u64 \<Rightarrow> u64 \<Rightarrow> 'z kmem_state_scheme \<Rightarrow> (u64 \<times> 'z kmem_state_scheme) res" where
  "vmfault p pt va s =
     (if va \<ge> usz p then Ok (0, s)
      else let va = PGROUNDDOWN va
           in bindR (ismapped pt va s) (\<lambda>m.
                if m then Ok (0, s)
                else let (page, s1) = kalloc s
                     in if page = 0 then Ok (0, s1)
                        else bindR (mappages (upt p) va PGSIZE page (PTE_W OR PTE_U OR PTE_R)
                                      (s1\<lparr>phys := memset (phys s1) page 0 4096\<rparr>)) (\<lambda>(r, s2).
                               if r \<noteq> 0 then bindR (kfree page s2) (\<lambda>s3. Ok (0, s3))
                               else Ok (page, s2))))"

text \<open>The number of bytes from \<open>va\<close> to the end of its page, at most \<open>len\<close>.\<close>

definition chunk :: "u64 \<Rightarrow> nat \<Rightarrow> nat" where
  "chunk va len = min (4096 - unat (va - PGROUNDDOWN va)) len"

lemma chunk_pos: "0 < len \<Longrightarrow> 0 < chunk va len"
proof -
  have "unat (va - PGROUNDDOWN va) < 4096"
    by (simp add: PGROUNDDOWN_eq unat_take12)
  then show "0 < len \<Longrightarrow> 0 < chunk va len" by (simp add: chunk_def)
qed

lemma chunk_le: "chunk va len \<le> len"
  by (simp add: chunk_def)

function copyout ::
    "uproc \<Rightarrow> u64 \<Rightarrow> u64 \<Rightarrow> u8 list \<Rightarrow> 'z kmem_state_scheme \<Rightarrow> (int \<times> 'z kmem_state_scheme) res" where
  "copyout p pt dstva src s =
     (if src = [] then Ok (0, s)
      else let va0 = PGROUNDDOWN dstva
           in if va0 \<ge> MAXVA then Ok (-1, s)
              else bindR (if walkaddr pt va0 s = 0 then vmfault p pt va0 s
                          else Ok (walkaddr pt va0 s, s)) (\<lambda>(pa0, s1).
                     if pa0 = 0 then Ok (-1, s1)
                     else bindR (walk pt va0 False s1) (\<lambda>(pte, _).
                       if pte = 0 then Panic ''kerneltrap''
                       else if load64 (phys s1) pte AND PTE_W = 0 then Ok (-1, s1)
                       else let n = chunk dstva (length src)
                            in copyout p pt (va0 + PGSIZE) (drop n src)
                                 (s1\<lparr>phys := write_bytes (phys s1) (pa0 + (dstva - va0)) (take n src)\<rparr>))))"
  by pat_completeness auto
termination
  by (relation "measure (\<lambda>(p, pt, dstva, src, s). length src)") (auto simp: chunk_pos)

text \<open>\<open>copyin\<close> returns the status and the bytes it put into the kernel buffer, also on an error.\<close>

function copyin ::
    "uproc \<Rightarrow> u64 \<Rightarrow> u64 \<Rightarrow> nat \<Rightarrow> 'z kmem_state_scheme \<Rightarrow> (int \<times> u8 list \<times> 'z kmem_state_scheme) res" where
  "copyin p pt srcva len s =
     (if len = 0 then Ok (0, [], s)
      else let va0 = PGROUNDDOWN srcva
           in bindR (if walkaddr pt va0 s = 0 then vmfault p pt va0 s
                     else Ok (walkaddr pt va0 s, s)) (\<lambda>(pa0, s1).
                if pa0 = 0 then Ok (-1, [], s1)
                else let n = chunk srcva len;
                         bs = read_bytes (phys s1) (pa0 + (srcva - va0)) n
                     in bindR (copyin p pt (va0 + PGSIZE) (len - n) s1) (\<lambda>(r, cs, s2).
                          Ok (r, bs @ cs, s2))))"
  by pat_completeness auto
termination
  by (relation "measure (\<lambda>(p, pt, srcva, len, s). len)") (auto simp: chunk_pos)

text \<open>\<open>copyinstr\<close>: the string with its NUL, or an error; the inner loop over one page first.\<close>

fun scan_nul :: "u8 list \<Rightarrow> u8 list \<times> bool" where
  "scan_nul [] = ([], False)"
| "scan_nul (b # bs) =
     (if b = 0 then ([0], True) else (let (cs, g) = scan_nul bs in (b # cs, g)))"

function copyinstr ::
    "u64 \<Rightarrow> u64 \<Rightarrow> nat \<Rightarrow> 'z kmem_state_scheme \<Rightarrow> u8 list option" where
  "copyinstr pt srcva maxlen s =
     (if maxlen = 0 then None
      else let va0 = PGROUNDDOWN srcva;
               pa0 = walkaddr pt va0 s
           in if pa0 = 0 then None
              else let n = chunk srcva maxlen;
                       (cs, got_null) = scan_nul (read_bytes (phys s) (pa0 + (srcva - va0)) n)
                   in if got_null then Some cs
                      else map_option (\<lambda>ds. cs @ ds) (copyinstr pt (va0 + PGSIZE) (maxlen - n) s))"
  by pat_completeness auto
termination
  by (relation "measure (\<lambda>(pt, srcva, maxlen, s). maxlen)") (auto simp: chunk_pos)

declare copyout.simps [simp del] copyin.simps [simp del] copyinstr.simps [simp del]

end
