(* ===== verification/Vm_Map.thy ===== *)
theory Vm_Map
  imports Vm
begin

text \<open>
  Page tables as maps. The radix tree in memory is read as a function from virtual page
  addresses to page table entries (\<open>vleaf\<close>); under an invariant that keeps page-table pages
  apart from each other and from the free pages, \<open>walk\<close> leaves that function alone,
  \<open>mappages\<close> updates it at one point, \<open>uvmunmap\<close> clears it at one point, and \<open>walkaddr\<close>
  reads it.
\<close>

section \<open>The tree in memory\<close>

text \<open>\<open>slot a i\<close> is the address of entry \<open>i\<close> of the page-table page \<open>a\<close>.\<close>

definition slot :: "u64 \<Rightarrow> nat \<Rightarrow> u64" where "slot a i = a + of_nat (8 * i)"

definition child :: "mem \<Rightarrow> u64 \<Rightarrow> nat \<Rightarrow> u64 option" where
  "child m a i = (let e = load64 m (slot a i) in
     if e AND PTE_V \<noteq> 0 then Some (PTE2PA e) else None)"

fun node :: "mem \<Rightarrow> u64 \<Rightarrow> nat list \<Rightarrow> u64 option" where
  "node m a [] = Some a"
| "node m a (i # is) = (case child m a i of None \<Rightarrow> None | Some b \<Rightarrow> node m b is)"

definition paths :: "nat list set" where
  "paths = {p. length p \<le> 2 \<and> set p \<subseteq> {..<512}}"

definition tables :: "mem \<Rightarrow> u64 \<Rightarrow> u64 set" where
  "tables m root = {a. \<exists>p \<in> paths. node m root p = Some a}"

definition pt_inv :: "'z kmem_state_scheme \<Rightarrow> u64 \<Rightarrow> u64 list \<Rightarrow> bool" where
  "pt_inv s root xs \<longleftrightarrow>
     (\<forall>a \<in> tables (phys s) root. page_ok s a \<and> a \<notin> set xs)
     \<and> (\<forall>p \<in> paths. \<forall>q \<in> paths. \<forall>a. node (phys s) root p = Some a \<longrightarrow>
          node (phys s) root q = Some a \<longrightarrow> p = q)"

definition leaf :: "mem \<Rightarrow> u64 \<Rightarrow> nat \<Rightarrow> nat \<Rightarrow> nat \<Rightarrow> u64" where
  "leaf m root i2 i1 i0 = (case node m root [i2, i1] of None \<Rightarrow> 0
     | Some t \<Rightarrow> load64 m (slot t i0))"

definition px :: "nat \<Rightarrow> u64 \<Rightarrow> nat" where "px l va = unat (PX l va)"

definition vleaf :: "'z kmem_state_scheme \<Rightarrow> u64 \<Rightarrow> u64 \<Rightarrow> u64" where
  "vleaf s root va = leaf (phys s) root (px 2 va) (px 1 va) (px 0 va)"

section \<open>Entries and indices\<close>

lemma PTE2PA_PA2PTE:
  assumes "aligned pa" "pa < 2 ^ 56" "fl < 1024"
  shows "PTE2PA (PA2PTE pa OR fl) = pa"
proof (rule bit_eqI)
  fix n assume "possible_bit TYPE(64 word) n"
  then have n: "n < 64" by simp
  have hi: "\<not> bit pa k" if "56 \<le> k" for k
    using u64_bit_bound[of pa 56 k] assms(2) that by (auto simp: word_less_nat_alt)
  have fl: "\<not> bit fl k" if "10 \<le> k" for k
    using u64_bit_bound[of fl 10 k] assms(3) that by (auto simp: word_less_nat_alt)
  show "bit (PTE2PA (PA2PTE pa OR fl)) n = bit pa n"
  proof (cases "n < 12")
    case True
    then show ?thesis using aligned_bit[OF assms(1)] by (auto simp: PTE2PA_def bit_simps)
  next
    case False
    then obtain k where k: "n = 12 + k" by (metis le_Suc_ex not_less)
    then show ?thesis using n fl[of "10 + k"] by (auto simp: PTE2PA_def PA2PTE_def bit_simps)
  qed
qed

lemma PTE_V_or: "(e OR PTE_V) AND PTE_V \<noteq> 0"
proof -
  have "(e OR PTE_V) AND PTE_V = PTE_V" by (rule bit_eqI) (auto simp: bit_simps)
  then show ?thesis by (simp add: PTE_V_def)
qed

lemma px_less: "px l va < 512"
proof -
  have "PX l va = take_bit 9 (drop_bit (PXSHIFT l) va)"
    by (simp add: PX_def take_bit_eq_mask mask_eq_exp_minus_1)
  then have "px l va = take_bit 9 (unat (drop_bit (PXSHIFT l) va))"
    by (simp add: px_def unsigned_take_bit_eq)
  then show ?thesis by (simp add: take_bit_eq_mod)
qed

lemma bit_PX: "bit (PX l va) n \<longleftrightarrow> n < 9 \<and> bit va (12 + 9 * l + n)"
proof -
  have "PX l va = take_bit 9 (drop_bit (PXSHIFT l) va)"
    by (simp add: PX_def take_bit_eq_mask mask_eq_exp_minus_1)
  then show ?thesis by (simp add: bit_simps PXSHIFT_def)
qed

text \<open>A page-aligned address below \<open>MAXVA\<close> is determined by its three indices.\<close>

lemma px_inject:
  assumes "aligned va" "aligned vb" "va < MAXVA" "vb < MAXVA"
    "px 2 va = px 2 vb" "px 1 va = px 1 vb" "px 0 va = px 0 vb"
  shows "va = vb"
proof (rule bit_eqI)
  have eq: "bit va (12 + 9 * l + n) = bit vb (12 + 9 * l + n)" if "l \<le> 2" "n < 9" for l n
  proof -
    have "l = 0 \<or> l = 1 \<or> l = 2" using that(1) by auto
    then have "PX l va = PX l vb" using assms(5-7) by (auto simp: px_def word_unat_eq_iff)
    then have "bit (PX l va) n = bit (PX l vb) n" by simp
    with that(2) show ?thesis by (simp add: bit_PX)
  qed
  have hi: "\<not> bit v k" if "v < MAXVA" "39 \<le> k" for v :: u64 and k
    using u64_bit_bound[of v 39 k] that by (auto simp: word_less_nat_alt MAXVA_def)
  fix n :: nat
  consider "n < 12" | "12 \<le> n" "n < 21" | "21 \<le> n" "n < 30" | "30 \<le> n" "n < 39" | "39 \<le> n"
    by linarith
  then show "bit va n = bit vb n"
  proof cases
    case 1 then show ?thesis using aligned_bit assms(1,2) by auto
  next
    case 2 then show ?thesis using eq[of 0 "n - 12"] by simp
  next
    case 3 then show ?thesis using eq[of 1 "n - 21"] by simp
  next
    case 4 then show ?thesis using eq[of 2 "n - 30"] by simp
  next
    case 5 then show ?thesis using hi assms(3,4) by auto
  qed
qed

lemma slot_fold: "a + of_nat (8 * i) = slot a i"
  by (simp add: slot_def)

lemma pte_at_slot: "pte_at pt l va = slot pt (px l va)"
  by (simp add: pte_at_def slot_def px_def)

lemma slot_byte: "slot a i + of_nat k = a + of_nat (8 * i + k)"
  by (simp only: slot_def add.assoc of_nat_add)

lemma slot_outside:
  "aligned a \<Longrightarrow> i < 512 \<Longrightarrow> same_outside {a} m (store64 m (slot a i) w)"
  unfolding slot_def by (rule store64_outside) auto

lemma load64_slot_outside:
  "same_outside ps m m' \<Longrightarrow> aligned b \<Longrightarrow> j < 512 \<Longrightarrow> \<forall>q \<in> ps. aligned q \<Longrightarrow> b \<notin> ps \<Longrightarrow>
   load64 m' (slot b j) = load64 m (slot b j)"
  unfolding slot_def by (rule load64_outside) auto

lemma load64_store64_slot:
  assumes "aligned a" "i < 512" "j < 512" "i \<noteq> j"
  shows "load64 (store64 m (slot a i) w) (slot a j) = load64 m (slot a j)"
proof (rule load64_cong, rule store64_other)
  fix k l :: nat assume "k < 8" "l < 8"
  then have "8 * j + k \<noteq> 8 * i + l" using assms(4) by presburger
  moreover have "8 * j + k < 2 ^ 64" "8 * i + l < 2 ^ 64" using \<open>k < 8\<close> \<open>l < 8\<close> assms by auto
  ultimately have "(of_nat (8 * j + k) :: u64) \<noteq> of_nat (8 * i + l)"
    using of_nat_u64_inj by blast
  then show "slot a j + of_nat k \<noteq> slot a i + of_nat l"
    unfolding slot_byte by (simp only: add_left_cancel not_False_eq_True)
qed

lemma load64_store_other:
  assumes "aligned a" "aligned b" "i < 512" "j < 512" "(b, j) \<noteq> (a, i)"
  shows "load64 (store64 m (slot a i) w) (slot b j) = load64 m (slot b j)"
proof (cases "b = a")
  case True
  then show ?thesis using assms load64_store64_slot by auto
next
  case False
  then show ?thesis using assms by (intro load64_slot_outside[OF slot_outside]) auto
qed

lemma node_snoc: "node m a (p @ [i]) = (case node m a p of None \<Rightarrow> None | Some b \<Rightarrow> child m b i)"
  by (induction p arbitrary: a) (auto split: option.splits)

lemma paths_snoc: "p @ [i] \<in> paths \<longleftrightarrow> p \<in> paths \<and> length p < 2 \<and> i < 512"
  by (auto simp: paths_def)

lemma root_in_tables: "root \<in> tables m root"
proof -
  have "[] \<in> paths" "node m root [] = Some root" by (auto simp: paths_def)
  then show ?thesis unfolding tables_def by blast
qed

section \<open>Hooking a fresh page into the tree\<close>

text \<open>The memory after \<open>walk\<close> has zeroed the fresh page \<open>c\<close> and pointed entry \<open>i\<close> of table
  \<open>a\<close> at it.\<close>

definition hook :: "mem \<Rightarrow> u64 \<Rightarrow> nat \<Rightarrow> u64 \<Rightarrow> mem" where
  "hook m a i c = store64 (memset m c 0 4096) (slot a i) (PA2PTE c OR PTE_V)"

lemma load64_hook_other:
  assumes "same_outside {c} m0 m" "aligned a" "aligned b" "aligned c" "b \<noteq> c" "i < 512" "j < 512"
    "(b, j) \<noteq> (a, i)"
  shows "load64 (hook m a i c) (slot b j) = load64 m0 (slot b j)"
proof -
  have "load64 (hook m a i c) (slot b j) = load64 (memset m c 0 4096) (slot b j)"
    unfolding hook_def using assms by (intro load64_store_other)
  also have "\<dots> = load64 m (slot b j)"
    using assms by (intro load64_slot_outside[OF memset_outside]) auto
  also have "\<dots> = load64 m0 (slot b j)"
    using assms by (intro load64_slot_outside[OF assms(1)]) auto
  finally show ?thesis .
qed

lemma load64_zero_page:
  assumes "aligned c" "j < 512"
  shows "load64 (memset m c 0 4096) (slot c j) = 0"
proof -
  have "memset m c 0 4096 (slot c j + of_nat k) = 0" if "k < 8" for k
  proof -
    have "8 * j + k < 4096" using that assms(2) by simp
    then have "\<exists>i < 4096. c + of_nat (8 * j + k) = c + of_nat i" by blast
    then show ?thesis unfolding slot_byte memset_eq by simp
  qed
  then have "load64 (memset m c 0 4096) (slot c j) = load64 (\<lambda>_. 0) (slot c j)"
    by (intro load64_cong) auto
  also have "\<dots> = 0" by (simp add: load64_def numeral_eq_Suc)
  finally show ?thesis .
qed

lemma load64_hook_fresh:
  assumes "aligned a" "aligned c" "a \<noteq> c" "i < 512" "j < 512"
  shows "load64 (hook m a i c) (slot c j) = 0"
  unfolding hook_def using assms
  by (subst load64_store_other) (auto simp: load64_zero_page)

lemma page_ok_PHYSTOP: "page_ok s c \<Longrightarrow> c < 2 ^ 56"
  unfolding page_ok_def PHYSTOP_def by (auto simp: word_less_nat_alt)

lemma PTE_round: "page_ok s c \<Longrightarrow> fl < 1024 \<Longrightarrow> PTE2PA (PA2PTE c OR fl) = c"
  using page_ok_PHYSTOP[of s c] by (intro PTE2PA_PA2PTE) (auto simp: page_ok_def)

lemma child_hook_new: "page_ok s c \<Longrightarrow> child (hook m a i c) a i = Some c"
  using PTE_round[of s c PTE_V] PTE_V_or[of "PA2PTE c"]
  by (simp add: child_def hook_def Let_def word_less_nat_alt PTE_V_def)

lemma child_hook_other:
  assumes "same_outside {c} m0 m" "aligned a" "aligned b" "aligned c" "b \<noteq> c" "i < 512" "j < 512"
    "(b, j) \<noteq> (a, i)"
  shows "child (hook m a i c) b j = child m0 b j"
  unfolding child_def load64_hook_other[OF assms] ..

lemma child_hook_fresh:
  "aligned a \<Longrightarrow> aligned c \<Longrightarrow> a \<noteq> c \<Longrightarrow> i < 512 \<Longrightarrow> j < 512 \<Longrightarrow> child (hook m a i c) c j = None"
  by (simp add: child_def load64_hook_fresh)

text \<open>The path of the fresh page leads to it, no path goes beyond it, and every other path
  leads where it led.\<close>


lemma node_below: "node m a p = None \<Longrightarrow> take (length p) q = p \<Longrightarrow> node m a q = None"
proof (induction p arbitrary: a q)
  case (Cons i p)
  then show ?case by (cases q) (auto split: option.splits)
qed simp

lemma node_hook:
  assumes inv: "pt_inv s root (c # xs)" and p: "p \<in> paths" "length p < 2" "i < 512"
    and a: "node (phys s) root p = Some a" "child (phys s) a i = None"
    and c: "page_ok s c" and m: "same_outside {c} (phys s) m" and q: "q \<in> paths"
  shows "node (hook m a i c) root q =
    (if q = p @ [i] then Some c else node (phys s) root q)"
  using q
proof (induction q rule: rev_induct)
  case (snoc j q)
  then have q: "q \<in> paths" "j < 512" by (auto simp: paths_snoc)
  note IH = snoc.IH[OF q(1)]
  have ta: "a \<in> tables (phys s) root" using a(1) p(1) by (auto simp: tables_def)
  then have al: "aligned a" "aligned c" "a \<noteq> c" using inv c by (auto simp: pt_inv_def page_ok_def)
  have none: "node (phys s) root (p @ [i]) = None" using a by (simp add: node_snoc)
  show ?case
  proof (cases "q = p @ [i]")
    case True
    have "node (phys s) root (q @ [j]) = None"
      using node_below[OF none, of "q @ [j]"] True by simp
    moreover have "node (hook m a i c) root (q @ [j]) = None"
      unfolding node_snoc IH using True al p(3) q(2) by (simp add: child_hook_fresh)
    ultimately show ?thesis using True by simp
  next
    case F: False
    then have IH': "node (hook m a i c) root q = node (phys s) root q" using IH by simp
    show ?thesis
    proof (cases "q = p \<and> j = i")
      case True
      then show ?thesis using IH' a(1) c by (simp add: node_snoc child_hook_new)
    next
      case F2: False
      have "child (hook m a i c) b j = child (phys s) b j" if b: "node (phys s) root q = Some b" for b
      proof -
        have "b \<in> tables (phys s) root" using b q(1) by (auto simp: tables_def)
        then have "aligned b" "b \<noteq> c" using inv by (auto simp: pt_inv_def page_ok_def)
        moreover have "(b, j) \<noteq> (a, i)" using F2 b a(1) inv q(1) p(1) by (auto simp: pt_inv_def)
        ultimately show ?thesis using al p(3) q(2) by (intro child_hook_other[OF m])
      qed
      then show ?thesis using F2 IH' by (auto simp: node_snoc split: option.splits)
    qed
  qed
qed simp

section \<open>What changes of memory leave of the tree\<close>

lemma node_tables: "node m root p = Some a \<Longrightarrow> p \<in> paths \<Longrightarrow> a \<in> tables m root"
  by (auto simp: tables_def)

lemma pt_inv_table: "pt_inv s root xs \<Longrightarrow> a \<in> tables (phys s) root \<Longrightarrow> page_ok s a \<and> aligned a \<and> a \<notin> set xs"
  by (auto simp: pt_inv_def page_ok_def)

lemma pt_inv_node:
  "pt_inv s root xs \<Longrightarrow> node (phys s) root p = Some a \<Longrightarrow> p \<in> paths \<Longrightarrow> page_ok s a \<and> aligned a \<and> a \<notin> set xs"
  using node_tables pt_inv_table by blast

lemma pt_inv_inj:
  "pt_inv s root xs \<Longrightarrow> node (phys s) root p = Some a \<Longrightarrow> node (phys s) root q = Some a \<Longrightarrow>
   p \<in> paths \<Longrightarrow> q \<in> paths \<Longrightarrow> p = q"
  by (auto simp: pt_inv_def)

lemma node_outside:
  assumes "same_outside ps (phys s) m'" "pt_inv s root xs" "\<forall>x \<in> ps. aligned x"
    "ps \<inter> tables (phys s) root = {}" "q \<in> paths"
  shows "node m' root q = node (phys s) root q"
  using assms(5)
proof (induction q rule: rev_induct)
  case (snoc j q)
  then have q: "q \<in> paths" "j < 512" by (auto simp: paths_snoc)
  have "child m' b j = child (phys s) b j" if "node (phys s) root q = Some b" for b
  proof -
    have "b \<in> tables (phys s) root" using that q(1) by (rule node_tables)
    then show ?thesis unfolding child_def
      using assms q(2) by (subst load64_slot_outside[OF assms(1)]) (auto dest: pt_inv_table)
  qed
  then show ?case using snoc.IH[OF q(1)] by (auto simp: node_snoc split: option.splits)
qed simp

lemma leaf_path: "i2 < 512 \<Longrightarrow> i1 < 512 \<Longrightarrow> [i2, i1] \<in> paths"
  by (simp add: paths_def)

lemma leaf_outside:
  assumes "same_outside ps (phys s) m'" "pt_inv s root xs" "\<forall>x \<in> ps. aligned x"
    "ps \<inter> tables (phys s) root = {}" "i2 < 512" "i1 < 512" "i0 < 512"
  shows "leaf m' root i2 i1 i0 = leaf (phys s) root i2 i1 i0"
proof -
  note p = leaf_path[OF assms(5,6)]
  have "load64 m' (slot t i0) = load64 (phys s) (slot t i0)"
    if "node (phys s) root [i2, i1] = Some t" for t
    using pt_inv_node[OF assms(2) that p] node_tables[OF that p] assms
    by (intro load64_slot_outside[OF assms(1)]) auto
  then show ?thesis unfolding leaf_def node_outside[OF assms(1-4) p]
    by (simp split: option.splits)
qed

lemma tables_cong: "(\<And>q. q \<in> paths \<Longrightarrow> node m' root q = node m root q) \<Longrightarrow> tables m' root = tables m root"
  by (auto simp: tables_def)

lemma pt_inv_cong:
  assumes "pt_inv s root xs" "\<And>q. q \<in> paths \<Longrightarrow> node (phys s') root q = node (phys s) root q"
    "kend s' = kend s" "set xs' \<inter> tables (phys s) root = {}"
  shows "pt_inv s' root xs'"
  using assms(1,4) assms(2) page_ok_kend[OF assms(3)] tables_cong[OF assms(2)]
  unfolding pt_inv_def by auto

lemma node_store_leaf:
  assumes inv: "pt_inv s root xs" and t: "node (phys s) root p = Some t" "p \<in> paths" "length p = 2"
    and i: "i < 512" and q: "q \<in> paths"
  shows "node (store64 (phys s) (slot t i) w) root q = node (phys s) root q"
  using q
proof (induction q rule: rev_induct)
  case (snoc j q)
  then have q: "q \<in> paths" "j < 512" "length q < 2" by (auto simp: paths_snoc)
  have "child (store64 (phys s) (slot t i) w) b j = child (phys s) b j"
    if b: "node (phys s) root q = Some b" for b
  proof -
    have "b \<noteq> t" using pt_inv_inj[OF inv b] t q by auto
    moreover have "aligned b" "aligned t"
      using pt_inv_node[OF inv b q(1)] pt_inv_node[OF inv t(1,2)] by auto
    ultimately show ?thesis unfolding child_def
      using i q(2) by (subst load64_store_other) auto
  qed
  then show ?case using snoc.IH[OF q(1)] by (auto simp: node_snoc split: option.splits)
qed simp

lemma leaf_store_leaf:
  assumes inv: "pt_inv s root xs" and t: "node (phys s) root [k2, k1] = Some t"
    and k: "k2 < 512" "k1 < 512" "k0 < 512" and i: "i2 < 512" "i1 < 512" "i0 < 512"
  shows "leaf (store64 (phys s) (slot t k0) w) root i2 i1 i0 =
    (if (i2, i1, i0) = (k2, k1, k0) then w else leaf (phys s) root i2 i1 i0)"
proof -
  note pk = leaf_path[OF k(1,2)] and p = leaf_path[OF i(1,2)]
  note n = node_store_leaf[OF inv t pk _ k(3) p, simplified]
  show ?thesis
  proof (cases "node (phys s) root [i2, i1]")
    case None
    then show ?thesis using n t by (auto simp: leaf_def)
  next
    case (Some b)
    then have "(b, i0) = (t, k0) \<longleftrightarrow> (i2, i1, i0) = (k2, k1, k0)"
      using pt_inv_inj[OF inv Some _ p pk] t by auto
    moreover have "aligned b" "aligned t" 
      using pt_inv_node[OF inv Some p] pt_inv_node[OF inv t pk] by auto
    ultimately show ?thesis using Some n k i load64_store_other[of t b k0 i0 "phys s" w]
      by (auto simp: leaf_def)
  qed
qed

section \<open>\<open>walk\<close> extends the tree and changes no mapping\<close>

definition vm_inv :: "'z kmem_state_scheme \<Rightarrow> u64 \<Rightarrow> u64 list \<Rightarrow> bool" where
  "vm_inv s root xs \<longleftrightarrow> kmem_inv s xs \<and> pt_inv s root xs"

text \<open>\<open>vm_ext s root xs s' xs'\<close>: from \<open>s\<close> to \<open>s'\<close> some of the free pages \<open>xs\<close> were taken, \<open>xs'\<close>
  are left, and only free pages and page-table pages were written.\<close>

definition vm_ext ::
    "'z kmem_state_scheme \<Rightarrow> u64 \<Rightarrow> u64 list \<Rightarrow> 'z kmem_state_scheme \<Rightarrow> u64 list \<Rightarrow> bool" where
  "vm_ext s root xs s' xs' \<longleftrightarrow> vm_inv s' root xs' \<and> kend s' = kend s \<and> (\<exists>ys. xs = ys @ xs')
     \<and> same_outside (set xs \<union> tables (phys s) root) (phys s) (phys s')
     \<and> tables (phys s') root \<subseteq> tables (phys s) root \<union> set xs"

definition same_leaves :: "mem \<Rightarrow> u64 \<Rightarrow> mem \<Rightarrow> bool" where
  "same_leaves m root m' \<longleftrightarrow>
     (\<forall>i2 < 512. \<forall>i1 < 512. \<forall>i0 < 512. leaf m' root i2 i1 i0 = leaf m root i2 i1 i0)"

lemma same_leaves_vleaf: "same_leaves (phys s) root (phys s') \<Longrightarrow> vleaf s' root va = vleaf s root va"
  by (simp add: same_leaves_def vleaf_def px_less)

lemma same_leaves_trans: "same_leaves m r m' \<Longrightarrow> same_leaves m' r m'' \<Longrightarrow> same_leaves m r m''"
  by (simp add: same_leaves_def)

lemma vm_ext_refl: "vm_inv s root xs \<Longrightarrow> vm_ext s root xs s xs"
  by (simp add: vm_ext_def)

lemma vm_extD:
  assumes "vm_ext s root xs s' xs'"
  shows "vm_inv s' root xs'" "kend s' = kend s" "set xs' \<subseteq> set xs"
    "tables (phys s') root \<subseteq> tables (phys s) root \<union> set xs"
  using assms by (auto simp: vm_ext_def)

lemma vm_ext_trans:
  assumes "vm_ext s root xs s1 xs1" "vm_ext s1 root xs1 s2 xs2"
  shows "vm_ext s root xs s2 xs2"
proof -
  have e1: "same_outside (set xs \<union> tables (phys s) root) (phys s) (phys s1)"
      "tables (phys s1) root \<subseteq> tables (phys s) root \<union> set xs" "set xs1 \<subseteq> set xs"
    using assms(1) by (auto simp: vm_ext_def)
  have e2: "same_outside (set xs1 \<union> tables (phys s1) root) (phys s1) (phys s2)"
      "tables (phys s2) root \<subseteq> tables (phys s1) root \<union> set xs1"
    using assms(2) by (auto simp: vm_ext_def)
  have "same_outside (set xs \<union> tables (phys s) root) (phys s) (phys s2)"
    by (rule same_outside_mono[OF same_outside_trans[OF e1(1) e2(1)]]) (use e1 in auto)
  moreover have "tables (phys s2) root \<subseteq> tables (phys s) root \<union> set xs" using e1 e2 by auto
  moreover have "\<exists>ys. xs = ys @ xs2" using assms unfolding vm_ext_def by (metis append.assoc)
  ultimately show ?thesis using assms by (simp add: vm_ext_def)
qed

lemma vm_inv_new:
  "vm_inv s root (c # xs) \<Longrightarrow> page_ok s c \<and> aligned c \<and> c \<noteq> 0 \<and> c \<notin> set xs \<and> c \<notin> tables (phys s) root"
  by (auto simp: vm_inv_def kmem_inv_def page_ok_def pt_inv_def)

lemma hook_outside:
  assumes "aligned a" "aligned c" "i < 512" "same_outside {c} m0 m"
  shows "same_outside {c, a} m0 (hook m a i c)"
proof -
  have "same_outside ({c} \<union> {c}) m0 (memset m c 0 4096)"
    using same_outside_trans[OF assms(4) memset_outside[OF assms(2)]] .
  then have "same_outside (({c} \<union> {c}) \<union> {a}) m0 (hook m a i c)"
    unfolding hook_def using same_outside_trans slot_outside[OF assms(1,3)] by blast
  then show ?thesis by (rule same_outside_mono) auto
qed

lemma same_leaves_hook:
  assumes inv: "pt_inv s root (c # xs)" and p: "p \<in> paths" "length p < 2" "i < 512"
    and a: "node (phys s) root p = Some a" "child (phys s) a i = None"
    and c: "page_ok s c" and m: "same_outside {c} (phys s) m"
  shows "same_leaves (phys s) root (hook m a i c)"
  unfolding same_leaves_def
proof (intro allI impI)
  fix i2 i1 i0 :: nat assume i: "i2 < 512" "i1 < 512" "i0 < 512"
  note q = leaf_path[OF i(1,2)]
  note n = node_hook[OF inv p a c m q]
  have al: "aligned a" "aligned c" "a \<noteq> c"
    using pt_inv_node[OF inv a(1) p(1)] c by (auto simp: page_ok_def)
  show "leaf (hook m a i c) root i2 i1 i0 = leaf (phys s) root i2 i1 i0"
  proof (cases "[i2, i1] = p @ [i]")
    case True
    have "node (phys s) root [i2, i1] = None" unfolding True using a by (simp add: node_snoc)
    moreover have "node (hook m a i c) root [i2, i1] = Some c" using n by (simp only: if_P[OF True])
    ultimately show ?thesis unfolding leaf_def by (simp only: load64_hook_fresh[OF al p(3) i(3)] option.case)
  next
    case False
    have "load64 (hook m a i c) (slot t i0) = load64 (phys s) (slot t i0)"
      if t: "node (phys s) root [i2, i1] = Some t" for t
    proof (rule load64_hook_other[OF m al(1)])
      show "aligned t" "t \<noteq> c" using pt_inv_node[OF inv t q] by auto
      show "(t, i0) \<noteq> (a, i)" using pt_inv_inj[OF inv t _ q p(1)] a(1) p(2) by auto
    qed (use al p i in auto)
    then show ?thesis unfolding leaf_def n using False by (auto split: option.splits)
  qed
qed

lemma hook_step:
  assumes inv: "vm_inv s root (c # xs)" and p: "p \<in> paths" "length p < 2" "i < 512"
    and a: "node (phys s) root p = Some a" "child (phys s) a i = None"
    and s2: "s2 = (snd (kalloc s))\<lparr>phys := hook (phys (snd (kalloc s))) a i c\<rparr>"
  shows "fst (kalloc s) = c" "vm_ext s root (c # xs) s2 xs"
    "node (phys s2) root (p @ [i]) = Some c" "same_leaves (phys s) root (phys s2)"
proof -
  have k: "kmem_inv s (c # xs)" and pt: "pt_inv s root (c # xs)" using inv by (auto simp: vm_inv_def)
  obtain s1 where s1: "kalloc s = (c, s1)" "kmem_inv s1 xs" "kend s1 = kend s" "trace_memory s1 = trace_memory s"
    "phys s1 = memset (phys s) c 5 4096" using kalloc_dequeue[OF k] by blast
  then show "fst (kalloc s) = c" by simp
  note c = vm_inv_new[OF inv]
  have m: "same_outside {c} (phys s) (phys s1)" using c s1(5) by (simp add: memset_outside)
  have s2': "s2 = s1\<lparr>phys := hook (phys s1) a i c\<rparr>" using s2 s1(1) by simp
  note ta = node_tables[OF a(1) p(1)]
  have al: "aligned a" "a \<notin> set xs" "page_ok s a" using pt_inv_table[OF pt ta] by auto
  have out: "same_outside {c, a} (phys s) (phys s2)"
    using hook_outside[OF al(1) _ p(3) m] c s2' by simp
  have n: "node (phys s2) root q = (if q = p @ [i] then Some c else node (phys s) root q)" if "q \<in> paths" for q
    using node_hook[OF pt p a _ m that] c s2' by simp
  then show "node (phys s2) root (p @ [i]) = Some c" using p paths_snoc by simp
  show "same_leaves (phys s) root (phys s2)" using same_leaves_hook[OF pt p a _ m] c s2' by simp
  have xs: "\<forall>x \<in> set xs. aligned x" using k by (auto simp: kmem_inv_def page_ok_def)
  have "kmem_inv s2 xs"
  proof -
    have "same_outside {c, a} (phys s1) (phys s2)" using hook_outside[OF al(1) _ p(3), of c "phys s1" "phys s1"] c s2' by simp
    then have "run_list (phys s2) (freelist s1) xs = run_list (phys s1) (freelist s1) xs"
      using xs al c by (intro run_list_outside[of "{c, a}"]) auto
    then show ?thesis using s1(2) s2' by (simp add: kmem_inv_def page_ok_def)
  qed
  moreover have tb: "tables (phys s2) root \<subseteq> insert c (tables (phys s) root)"
    using n by (auto simp: tables_def split: if_splits)
  moreover have "pt_inv s2 root xs"
    unfolding pt_inv_def
  proof (intro conjI ballI allI impI)
    fix b assume "b \<in> tables (phys s2) root"
    then have "b = c \<or> b \<in> tables (phys s) root" using tb by auto
    then have "page_ok s b \<and> b \<notin> set xs" using c pt_inv_table[OF pt] by auto
    then show "page_ok s2 b" "b \<notin> set xs" using s1(3) s2' by (auto simp: page_ok_def)
  next
    fix q r b assume "q \<in> paths" "r \<in> paths" "node (phys s2) root q = Some b" "node (phys s2) root r = Some b"
    then show "q = r" using n c node_tables pt_inv_inj[OF pt] by (metis option.inject)
  qed
  moreover have "same_outside (set (c # xs) \<union> tables (phys s) root) (phys s) (phys s2)"
    using out ta by (auto intro: same_outside_mono)
  ultimately show "vm_ext s root (c # xs) s2 xs"
    using s1(3) s2' by (auto simp: vm_ext_def vm_inv_def)
qed

text \<open>The indices above level \<open>l\<close>.\<close>

definition hi :: "nat \<Rightarrow> u64 \<Rightarrow> nat list" where "hi l va = take (2 - l) [px 2 va, px 1 va]"

lemma hi_simps: "hi 2 va = []" "hi 0 va = [px 2 va, px 1 va]"
  by (simp_all add: hi_def)

lemma hi_Suc: "Suc l \<le> 2 \<Longrightarrow> hi l va = hi (Suc l) va @ [px (Suc l) va]"
  by (cases l) (auto simp: hi_def numeral_2_eq_2)

lemma hi_paths: "hi l va \<in> paths" "length (hi l va) = 2 - l"
  by (auto simp: hi_def paths_def px_less dest!: in_set_takeD)

lemma walk_from_table:
  assumes "l \<le> 2" "node (phys s) root (hi l va) = Some a"
  shows "walk_from l a va False s =
    ((case node (phys s) root (hi 0 va) of None \<Rightarrow> 0 | Some t \<Rightarrow> slot t (px 0 va)), s)"
  using assms
proof (induction l arbitrary: a)
  case 0
  then show ?case by (simp add: pte_at_slot)
next
  case (Suc l)
  have n: "node (phys s) root (hi l va) = child (phys s) a (px (Suc l) va)"
    using Suc.prems by (simp add: hi_Suc node_snoc)
  show ?case
  proof (cases "child (phys s) a (px (Suc l) va)")
    case None
    then have "node (phys s) root (hi 0 va) = None"
      using node_below[of _ root "hi l va" "hi 0 va"] n Suc.prems(1) by (simp add: hi_def min_def)
    then show ?thesis using None by (simp add: child_def pte_at_slot Let_def split: if_splits)
  next
    case (Some b)
    then show ?thesis using Suc n by (simp add: child_def pte_at_slot Let_def split: if_splits)
  qed
qed

lemma slot_nonzero: "aligned a \<Longrightarrow> a \<noteq> 0 \<Longrightarrow> i < 512 \<Longrightarrow> slot a i \<noteq> 0"
proof
  assume a: "aligned a" "a \<noteq> 0" "i < 512" "slot a i = 0"
  then have "page_of (slot a i) = page_of a" unfolding slot_def by (intro page_of_offset) auto
  then show False using a page_of_inj[of a 0] by simp
qed

lemma walk_from_alloc:
  assumes "l \<le> 2" "vm_inv s root xs" "node (phys s) root (hi l va) = Some a"
  shows "\<exists>s' xs' r. walk_from l a va True s = (r, s') \<and> vm_ext s root xs s' xs'
    \<and> same_leaves (phys s) root (phys s') \<and> length xs \<le> length xs' + l
    \<and> (if r = 0 then xs' = [] \<and> length xs < l
       else \<exists>t. node (phys s') root (hi 0 va) = Some t \<and> r = slot t (px 0 va))"
  using assms
proof (induction l arbitrary: a s xs)
  case 0
  then have "page_ok s a" "aligned a" "kend s \<noteq> 0"
    using pt_inv_node[OF _ 0(3) hi_paths(1)] by (auto simp: vm_inv_def kmem_inv_def)
  then have "slot a (px 0 va) \<noteq> 0" using page_ok_simps(1)[of s a] by (simp add: slot_nonzero px_less)
  with 0 vm_ext_refl[OF 0(2)] show ?case by (auto simp: pte_at_slot same_leaves_def)
next
  case (Suc l)
  let ?i = "px (Suc l) va"
  have n: "node (phys s) root (hi l va) = child (phys s) a ?i"
    using Suc.prems by (simp add: hi_Suc node_snoc)
  show ?case
  proof (cases "child (phys s) a ?i")
    case (Some b)
    then have w: "walk_from (Suc l) a va True s = walk_from l b va True s"
      by (simp add: child_def pte_at_slot Let_def split: if_splits)
    show ?thesis unfolding w using Suc.IH[of s xs b] Suc.prems n Some by fastforce
  next
    case None
    show ?thesis
    proof (cases xs)
      case Nil
      then have "kalloc s = (0, s)" using Suc.prems(2) by (simp add: vm_inv_def kalloc_empty)
      then have "walk_from (Suc l) a va True s = (0, s)"
        using None by (simp add: child_def pte_at_slot Let_def split: if_splits)
      then show ?thesis using Nil Suc.prems(2) by (simp add: vm_ext_refl same_leaves_def)
    next
      case (Cons c ys)
      let ?s2 = "(snd (kalloc s))\<lparr>phys := hook (phys (snd (kalloc s))) a ?i c\<rparr>"
      have st: "fst (kalloc s) = c" "vm_ext s root (c # ys) ?s2 ys"
        "node (phys ?s2) root (hi l va) = Some c" "same_leaves (phys s) root (phys ?s2)"
        using hook_step[of s root c ys "hi (Suc l) va" ?i a ?s2] Suc.prems None Cons
          hi_paths[of "Suc l" va] px_less[of "Suc l" va] hi_Suc[OF Suc.prems(1), of va] by simp_all
      have "c \<noteq> 0" using vm_inv_new[of s root c ys] Suc.prems(2) Cons by simp
      then have "walk_from (Suc l) a va True s = walk_from l c va True ?s2"
        using None st(1) by (simp add: child_def pte_at_slot Let_def hook_def case_prod_unfold split: if_splits)
      moreover obtain s' xs' r where w: "walk_from l c va True ?s2 = (r, s')" "vm_ext ?s2 root ys s' xs'"
        "same_leaves (phys ?s2) root (phys s')" "length ys \<le> length xs' + l"
        "if r = 0 then xs' = [] \<and> length ys < l
         else \<exists>t. node (phys s') root (hi 0 va) = Some t \<and> r = slot t (px 0 va)"
        using Suc.IH[of ?s2 ys c] Suc.prems(1) st by (auto simp: vm_ext_def)
      moreover have "vm_ext s root xs s' xs'" using vm_ext_trans[OF st(2) w(2)] Cons by simp
      moreover have "same_leaves (phys s) root (phys s')" using same_leaves_trans[OF st(4) w(3)] .
      ultimately show ?thesis using Cons by (auto split: if_splits)
    qed
  qed
qed

section \<open>The operations on the map\<close>

definition pte_loc :: "'z kmem_state_scheme \<Rightarrow> u64 \<Rightarrow> u64 \<Rightarrow> u64 option" where
  "pte_loc s root va = map_option (\<lambda>t. slot t (px 0 va)) (node (phys s) root (hi 0 va))"

lemma vleaf_loc: "vleaf s root va = (case pte_loc s root va of None \<Rightarrow> 0 | Some a \<Rightarrow> load64 (phys s) a)"
  unfolding vleaf_def leaf_def pte_loc_def hi_simps by (simp split: option.splits)

lemma walk_lookup:
  "walk_from 2 root va False s = ((case pte_loc s root va of None \<Rightarrow> 0 | Some a \<Rightarrow> a), s)"
  using walk_from_table[of 2 s root va root] by (simp add: hi_simps pte_loc_def split: option.splits)

lemma pte_loc_nonzero: "vm_inv s root xs \<Longrightarrow> pte_loc s root va \<noteq> Some 0"
proof
  assume i: "vm_inv s root xs" and z: "pte_loc s root va = Some 0"
  then obtain t where t: "node (phys s) root (hi 0 va) = Some t" "slot t (px 0 va) = 0"
    by (auto simp: pte_loc_def)
  then have "page_ok s t" "aligned t" "kend s \<noteq> 0"
    using i pt_inv_node[OF _ t(1) hi_paths(1)] by (auto simp: vm_inv_def kmem_inv_def)
  then show False using slot_nonzero[of t "px 0 va"] t(2) page_ok_simps(1)[of s t] by (simp add: px_less)
qed

text \<open>\<open>walkaddr\<close> reads the map.\<close>

lemma walkaddr_vleaf:
  assumes "vm_inv s root xs"
  shows "walkaddr root va s =
    (if va < MAXVA \<and> vleaf s root va AND PTE_V \<noteq> 0 \<and> vleaf s root va AND PTE_U \<noteq> 0
     then PTE2PA (vleaf s root va) else 0)"
  using pte_loc_nonzero[OF assms, of va]
  by (cases "pte_loc s root va") (auto simp: walkaddr_def walk_lookup vleaf_loc Let_def)

lemma ismapped_vleaf:
  assumes "vm_inv s root xs" "va < MAXVA"
  shows "ismapped root va s = Ok (vleaf s root va AND PTE_V \<noteq> 0)"
  using pte_loc_nonzero[OF assms(1), of va] assms(2)
  by (cases "pte_loc s root va") (auto simp: ismapped_def walk_def walk_lookup vleaf_loc)

text \<open>Storing an entry updates the map at one address.\<close>

lemma store_pte:
  assumes inv: "vm_inv s root xs" and a: "pte_loc s root va = Some a" and va: "aligned va" "va < MAXVA"
  shows "vm_ext s root xs (s\<lparr>phys := store64 (phys s) a w\<rparr>) xs"
    "aligned vb \<Longrightarrow> vb < MAXVA \<Longrightarrow>
     vleaf (s\<lparr>phys := store64 (phys s) a w\<rparr>) root vb = (if vb = va then w else vleaf s root vb)"
proof -
  let ?s = "s\<lparr>phys := store64 (phys s) a w\<rparr>"
  obtain t where t: "node (phys s) root (hi 0 va) = Some t" "a = slot t (px 0 va)"
    using a by (auto simp: pte_loc_def)
  have k: "kmem_inv s xs" and pt: "pt_inv s root xs" using inv by (auto simp: vm_inv_def)
  have tt: "t \<in> tables (phys s) root" using t(1) hi_paths(1) by (rule node_tables)
  have al: "aligned t" "t \<notin> set xs" using pt_inv_table[OF pt tt] by auto
  have out: "same_outside {t} (phys s) (phys ?s)" using slot_outside[OF al(1) px_less] t(2) by simp
  have n: "node (phys ?s) root q = node (phys s) root q" if "q \<in> paths" for q
    using node_store_leaf[OF pt t(1) hi_paths(1) _ px_less that] t(2) by (simp add: hi_paths(2))
  have "pt_inv ?s root xs" using pt_inv_table[OF pt] by (intro pt_inv_cong[OF pt n]) auto
  moreover have "kmem_inv ?s xs"
  proof -
    have "run_list (phys ?s) (freelist s) xs = run_list (phys s) (freelist s) xs"
      using k al by (intro run_list_outside[OF out]) (auto simp: kmem_inv_def page_ok_def)
    then show ?thesis using k by (simp add: kmem_inv_def page_ok_def)
  qed
  moreover have "same_outside (set xs \<union> tables (phys s) root) (phys s) (phys ?s)"
    using same_outside_mono[OF out] tt by simp
  ultimately show "vm_ext s root xs ?s xs"
    using tables_cong[of "phys ?s" root "phys s", OF n] by (simp add: vm_ext_def vm_inv_def)
  assume vb: "aligned vb" "vb < MAXVA"
  have "(px 2 vb, px 1 vb, px 0 vb) = (px 2 va, px 1 va, px 0 va) \<longleftrightarrow> vb = va"
    using px_inject[OF vb(1) va(1) vb(2) va(2)] by auto
  then show "vleaf ?s root vb = (if vb = va then w else vleaf s root vb)"
    using leaf_store_leaf[OF pt t(1)[unfolded hi_simps] px_less px_less px_less px_less px_less px_less, where w = w] t(2)
    by (simp add: vleaf_def)
qed

lemma mappages_page:
  "va mod PGSIZE = 0 \<Longrightarrow> mappages pt va PGSIZE pa perm s =
    (case walk pt va True s of Panic e \<Rightarrow> Panic e | Hang \<Rightarrow> Hang
     | Ok q \<Rightarrow> (if fst q = 0 then Ok (-1, snd q)
        else if load64 (phys (snd q)) (fst q) AND PTE_V \<noteq> 0 then Panic ''mappages: remap''
        else Ok (0, (snd q)\<lparr>phys := store64 (phys (snd q)) (fst q) (PA2PTE pa OR perm OR PTE_V)\<rparr>)))"
  by (simp add: mappages_def PGSIZE_def mappages_loop.simps[of pt va va] split: res.splits)

lemma map_page:
  assumes inv: "vm_inv s root xs" and va: "aligned va" "va < MAXVA"
    and new: "vleaf s root va AND PTE_V = 0"
  shows "\<exists>r s' xs'. mappages root va PGSIZE pa perm s = Ok (r, s') \<and> vm_ext s root xs s' xs'
    \<and> (length xs \<ge> 2 \<longrightarrow> r = 0) \<and> length xs \<le> length xs' + 2
    \<and> (if r = 0 then \<forall>vb. aligned vb \<longrightarrow> vb < MAXVA \<longrightarrow>
           vleaf s' root vb = (if vb = va then PA2PTE pa OR perm OR PTE_V else vleaf s root vb)
       else r = -1 \<and> xs' = [] \<and> (\<forall>vb. vleaf s' root vb = vleaf s root vb))"
proof -
  obtain s1 xs1 a where w: "walk_from 2 root va True s = (a, s1)" "vm_ext s root xs s1 xs1"
    "same_leaves (phys s) root (phys s1)" "length xs \<le> length xs1 + 2" "if a = 0 then xs1 = [] \<and> length xs < 2
       else \<exists>t. node (phys s1) root (hi 0 va) = Some t \<and> a = slot t (px 0 va)"
    using walk_from_alloc[of 2 s root xs va root] inv by (fastforce simp: hi_simps)
  have wk: "walk root va True s = Ok (a, s1)" using va(2) w(1) by (simp add: walk_def linorder_not_le)
  note sl = same_leaves_vleaf[OF w(3)]
  have m0: "va mod PGSIZE = 0" using va(1) by (simp add: aligned_mod_PGSIZE)
  show ?thesis
  proof (cases "a = 0")
    case True
    then show ?thesis using w m0 wk sl by (auto simp: mappages_page)
  next
    case False
    then have loc: "pte_loc s1 root va = Some a" using w(5) by (auto simp: pte_loc_def)
    then have "load64 (phys s1) a AND PTE_V = 0" using new sl[of va] vleaf_loc[of s1 root va] by simp
    moreover have inv1: "vm_inv s1 root xs1" using w(2) by (simp add: vm_ext_def)
    let ?s2 = "s1\<lparr>phys := store64 (phys s1) a (PA2PTE pa OR perm OR PTE_V)\<rparr>"
    have "vm_ext s root xs ?s2 xs1" using vm_ext_trans[OF w(2) store_pte(1)[OF inv1 loc va]] .
    moreover have "vleaf ?s2 root vb = (if vb = va then PA2PTE pa OR perm OR PTE_V else vleaf s root vb)"
      if "aligned vb" "vb < MAXVA" for vb
      using store_pte(2)[OF inv1 loc va that] sl by simp
    ultimately show ?thesis
      using False m0 wk w(4) by (intro exI[of _ 0] exI[of _ ?s2] exI[of _ xs1]) (auto simp: mappages_page)
  qed
qed

lemma walk_from_exists:
  "l \<le> 2 \<Longrightarrow> node (phys s) root (hi l va) = Some a \<Longrightarrow> node (phys s) root (hi 0 va) \<noteq> None \<Longrightarrow>
   walk_from l a va True s = walk_from l a va False s"
proof (induction l arbitrary: a)
  case (Suc l)
  have n: "node (phys s) root (hi l va) = child (phys s) a (px (Suc l) va)"
    using Suc.prems by (simp add: hi_Suc node_snoc)
  have "node (phys s) root (hi l va) \<noteq> None"
  proof
    assume "node (phys s) root (hi l va) = None"
    then have "node (phys s) root (hi 0 va) = None"
      by (rule node_below) (simp add: hi_def min_def)
    then show False using Suc.prems(3) by simp
  qed
  then obtain b where "child (phys s) a (px (Suc l) va) = Some b" using n by auto
  then show ?case using Suc n by (simp add: child_def pte_at_slot Let_def split: if_splits)
qed simp

lemma map_page_remap:
  assumes inv: "vm_inv s root xs" and va: "aligned va" "va < MAXVA"
    and old: "vleaf s root va AND PTE_V \<noteq> 0"
  shows "mappages root va PGSIZE pa perm s = Panic ''mappages: remap''"
proof -
  obtain a where a: "pte_loc s root va = Some a" using old by (auto simp: vleaf_loc split: option.splits)
  then have "walk_from 2 root va True s = (a, s)"
    using walk_from_exists[of 2 s root va root] walk_lookup[of root va s]
    by (auto simp: hi_simps pte_loc_def)
  then show ?thesis
    using va old a pte_loc_nonzero[OF inv, of va]
    by (auto simp: mappages_page walk_def aligned_mod_PGSIZE linorder_not_le vleaf_loc)
qed

lemma pte_loc_outside:
  assumes "same_outside ps (phys s) (phys s')" "vm_inv s root xs" "\<forall>x \<in> ps. aligned x"
    "ps \<inter> tables (phys s) root = {}"
  shows "pte_loc s' root va = pte_loc s root va" "vleaf s' root va = vleaf s root va"
proof -
  have pt: "pt_inv s root xs" using assms(2) by (simp add: vm_inv_def)
  show "pte_loc s' root va = pte_loc s root va"
    unfolding pte_loc_def node_outside[OF assms(1) pt assms(3,4) hi_paths(1)] ..
  show "vleaf s' root va = vleaf s root va"
    unfolding vleaf_def using leaf_outside[OF assms(1) pt assms(3,4)] px_less by blast
qed

lemma kfree_vm:
  assumes inv: "vm_inv s root xs" and pa: "page_ok s pa" "pa \<notin> set xs" "pa \<notin> tables (phys s) root"
  shows "\<exists>s'. kfree pa s = Ok s' \<and> vm_inv s' root (xs @ [pa]) \<and> kend s' = kend s
    \<and> tables (phys s') root = tables (phys s) root \<and> same_outside (insert pa (set xs)) (phys s) (phys s')
    \<and> (\<forall>va. pte_loc s' root va = pte_loc s root va \<and> vleaf s' root va = vleaf s root va)"
proof -
  have k: "kmem_inv s xs" and pt: "pt_inv s root xs" using inv by (auto simp: vm_inv_def)
  obtain s' where s': "kfree pa s = Ok s'" "kmem_inv s' (xs @ [pa])" "kend s' = kend s"
    "same_outside (insert pa (set xs)) (phys s) (phys s')"
    using kfree_enqueue[OF k pa(1,2)] by blast
  have ps: "\<forall>x \<in> insert pa (set xs). aligned x" "insert pa (set xs) \<inter> tables (phys s) root = {}"
    using k pa pt_inv_table[OF pt] by (auto simp: kmem_inv_def page_ok_def)
  note n = node_outside[OF s'(4) pt ps]
  have "pt_inv s' root (xs @ [pa])" using ps by (intro pt_inv_cong[OF pt n s'(3)]) auto
  then show ?thesis
    using s' tables_cong[of "phys s'" root "phys s", OF n] pte_loc_outside[OF s'(4) inv ps]
    by (auto simp: vm_inv_def)
qed

lemma unmap_page:
  assumes inv: "vm_inv s root xs" and va: "aligned va" "va < MAXVA"
    and pa: "do_free \<Longrightarrow> vleaf s root va AND PTE_V \<noteq> 0 \<Longrightarrow> page_ok s (PTE2PA (vleaf s root va))
       \<and> PTE2PA (vleaf s root va) \<notin> set xs \<and> PTE2PA (vleaf s root va) \<notin> tables (phys s) root"
  shows "\<exists>s'. uvmunmap_page root va do_free s = Ok s' \<and> kend s' = kend s
    \<and> tables (phys s') root = tables (phys s) root
    \<and> (if vleaf s root va AND PTE_V = 0 then s' = s
       else same_outside (set xs \<union> tables (phys s) root \<union> (if do_free then {PTE2PA (vleaf s root va)} else {})) (phys s) (phys s')
         \<and> vm_inv s' root (if do_free then xs @ [PTE2PA (vleaf s root va)] else xs)
         \<and> (\<forall>vb. aligned vb \<longrightarrow> vb < MAXVA \<longrightarrow> vleaf s' root vb = (if vb = va then 0 else vleaf s root vb)))"
proof (cases "vleaf s root va AND PTE_V = 0")
  case True
  then show ?thesis using va(2)
    by (cases "pte_loc s root va") (auto simp: uvmunmap_page_def walk_def walk_lookup linorder_not_le vleaf_loc)
next
  case False
  then obtain a where a: "pte_loc s root va = Some a" "load64 (phys s) a = vleaf s root va"
    by (auto simp: vleaf_loc split: option.splits)
  let ?xs = "if do_free then xs @ [PTE2PA (vleaf s root va)] else xs"
  obtain s1 where s1: "(if do_free then kfree (PTE2PA (vleaf s root va)) s else Ok s) = Ok s1"
    "vm_inv s1 root ?xs" "kend s1 = kend s" "tables (phys s1) root = tables (phys s) root"
    "\<forall>va. pte_loc s1 root va = pte_loc s root va \<and> vleaf s1 root va = vleaf s root va"
    "same_outside (set xs \<union> (if do_free then {PTE2PA (vleaf s root va)} else {})) (phys s) (phys s1)"
  proof (cases do_free)
    case True
    then show ?thesis using kfree_vm[OF inv, of "PTE2PA (vleaf s root va)"] pa[OF True False] that by auto
  next
    case F: False
    then show ?thesis using that[of s] inv by simp
  qed
  have loc: "pte_loc s1 root va = Some a" using s1(5) a(1) by simp
  let ?s2 = "s1\<lparr>phys := store64 (phys s1) a 0\<rparr>"
  have ext: "vm_ext s1 root ?xs ?s2 ?xs" by (rule store_pte(1)[OF s1(2) loc va])
  have "tables (phys ?s2) root = tables (phys s1) root"
  proof -
    obtain t where t: "node (phys s1) root (hi 0 va) = Some t" "a = slot t (px 0 va)"
      using loc by (auto simp: pte_loc_def)
    have "pt_inv s1 root ?xs" using s1(2) by (simp add: vm_inv_def)
    note node_store_leaf[OF this t(1) hi_paths(1) _ px_less]
    then show ?thesis using t(2) by (intro tables_cong) (simp add: hi_paths(2))
  qed
  moreover have "uvmunmap_page root va do_free s = Ok ?s2"
    using va(2) False a s1(1) pte_loc_nonzero[OF inv, of va]
    by (auto simp: uvmunmap_page_def walk_def walk_lookup linorder_not_le)
  moreover have "vleaf ?s2 root vb = (if vb = va then 0 else vleaf s root vb)"
    if "aligned vb" "vb < MAXVA" for vb
    using store_pte(2)[OF s1(2) loc va that] s1(5) by simp
  moreover have "same_outside (set xs \<union> tables (phys s) root \<union> (if do_free then {PTE2PA (vleaf s root va)} else {}))
      (phys s) (phys ?s2)"
    using same_outside_trans[OF s1(6), of "set ?xs \<union> tables (phys s1) root" "phys ?s2"] ext s1(4)
    by (auto simp: vm_ext_def elim!: same_outside_mono split: if_splits)
  ultimately show ?thesis using False ext s1(3,4) by (auto simp: vm_ext_def)
qed

lemma uvmunmap_one:
  "va mod PGSIZE = 0 \<Longrightarrow> va < MAXVA \<Longrightarrow> uvmunmap root va 1 do_free s = uvmunmap_page root va do_free s"
proof -
  assume a: "va mod PGSIZE = 0" "va < MAXVA"
  then have "va < va + PGSIZE" using u64_nowrap[of va 4096]
    by (simp add: word_less_nat_alt MAXVA_def PGSIZE_def)
  then show ?thesis using a
    by (simp add: uvmunmap_def uvmunmap_loop.simps[of root va] uvmunmap_loop.simps[of root "va + PGSIZE" "va + PGSIZE"]
        split: res.splits)
qed

section \<open>Properties\<close>

lemma bit_PTE_U: "bit PTE_U n \<longleftrightarrow> n = 4"
proof -
  have "bit (2 ^ 4 :: u64) n \<longleftrightarrow> n = 4" unfolding bit_exp_iff by auto
  then show ?thesis by (simp add: PTE_U_def)
qed

lemma empty_tree: "node (\<lambda>_. 0) a p = Some b \<longleftrightarrow> p = [] \<and> a = b"
proof (cases p)
  case (Cons i q)
  have "load64 (\<lambda>_. 0) x = 0" for x by (simp add: load64_def numeral_eq_Suc)
  then show ?thesis by (simp add: Cons child_def)
qed simp

text \<open>A root table with no entry and three free pages.\<close>

lemma demo_vm:
  "\<exists>s :: kmem_state. vm_inv s 0x80001000 [0x80002000, 0x80003000, 0x80004000] \<and> kend s = 0x80000000
     \<and> tables (phys s) 0x80001000 = {0x80001000} \<and> (\<forall>va. vleaf s 0x80001000 va = 0)"
proof -
  let ?s = "boot_kmem 0x80000000" and ?r = "0x80001000 :: u64"
  have ok: "page_ok ?s p" if "p \<in> {0x80001000, 0x80002000, 0x80003000, 0x80004000}" for p
    using that by (auto simp: page_ok_def boot_kmem_def PHYSTOP_def take_bit_eq_mod)
  have tb: "tables (phys ?s) ?r = {?r}"
    by (auto simp: tables_def boot_kmem_def empty_tree paths_def)
  then have inv: "vm_inv ?s ?r []"
    using ok boot_kmem_inv[of "0x80000000"]
    by (auto simp: vm_inv_def pt_inv_def boot_kmem_def empty_tree)
  have v0: "vleaf ?s ?r va = 0" for va
    by (simp add: vleaf_loc pte_loc_def boot_kmem_def load64_def numeral_eq_Suc split: option.splits)
  obtain s1 :: kmem_state where s1: "vm_inv s1 ?r [0x80002000]" "kend s1 = kend ?s" "tables (phys s1) ?r = {?r}"
    "\<forall>va. vleaf s1 ?r va = 0"
    using kfree_vm[OF inv ok, of "0x80002000"] tb v0 by auto
  obtain s2 :: kmem_state where s2: "vm_inv s2 ?r [0x80002000, 0x80003000]" "kend s2 = kend ?s" "tables (phys s2) ?r = {?r}"
    "\<forall>va. vleaf s2 ?r va = 0"
    using kfree_vm[OF s1(1), of "0x80003000"] ok[of "0x80003000"] page_ok_kend[OF s1(2)] s1 by auto
  obtain s3 :: kmem_state where s3: "vm_inv s3 ?r [0x80002000, 0x80003000, 0x80004000]" "kend s3 = kend ?s"
    "tables (phys s3) ?r = {?r}" "\<forall>va. vleaf s3 ?r va = 0"
    using kfree_vm[OF s2(1), of "0x80004000"] ok[of "0x80004000"] page_ok_kend[OF s2(2)] s2 by auto
  then show ?thesis by (auto simp: boot_kmem_def)
qed

text \<open>
  C14. \<open>mappages\<close> of one page on every input: it panics when the page is already mapped;
  otherwise it returns 0 and the page table, read as a map from virtual pages to entries, is
  updated at that page and nowhere else, or it returns -1 with the map unchanged, which
  happens only when fewer than two pages are free and then none is left. At most two pages are
  taken, only free pages and page-table pages are written, and the page tables stay well formed.
\<close>

theorem mappages_correct:
  assumes "vm_inv s root xs" "va mod PGSIZE = 0" "va < MAXVA"
  shows "if vleaf s root va AND PTE_V \<noteq> 0
    then mappages root va PGSIZE pa perm s = Panic ''mappages: remap''
    else \<exists>r s' xs'. mappages root va PGSIZE pa perm s = Ok (r, s') \<and> vm_ext s root xs s' xs'
      \<and> (length xs \<ge> 2 \<longrightarrow> r = 0) \<and> length xs \<le> length xs' + 2
      \<and> (if r = 0 then \<forall>vb. vb mod PGSIZE = 0 \<longrightarrow> vb < MAXVA \<longrightarrow>
             vleaf s' root vb = (if vb = va then PA2PTE pa OR perm OR PTE_V else vleaf s root vb)
         else r = -1 \<and> xs' = [] \<and> (\<forall>vb. vleaf s' root vb = vleaf s root vb))"
proof (cases "vleaf s root va AND PTE_V = 0")
  case True
  show ?thesis
    using map_page[OF assms(1) _ assms(3) True, of pa perm, folded aligned_mod_PGSIZE] assms(2) True
    by (simp only: simp_thms if_False not_True_eq_False)
next
  case False
  then show ?thesis using map_page_remap[OF assms(1) _ assms(3)] assms(2) by (simp add: aligned_mod_PGSIZE)
qed

theorem mappages_correct_witness:
  "\<exists>(s :: kmem_state) s'. mappages 0x80001000 0 PGSIZE 0x80005000 PTE_R s = Ok (0, s')
     \<and> vleaf s' 0x80001000 0 = PA2PTE 0x80005000 OR PTE_R OR PTE_V
     \<and> vleaf s' 0x80001000 PGSIZE = vleaf s 0x80001000 PGSIZE"
proof -
  obtain s :: kmem_state where s: "vm_inv s 0x80001000 [0x80002000, 0x80003000, 0x80004000]"
    "\<forall>va. vleaf s 0x80001000 va = 0" using demo_vm by blast
  show ?thesis
    using mappages_correct[OF s(1), of 0 "0x80005000" PTE_R] s(2)
    by (force simp: PGSIZE_def MAXVA_def)
qed

lemma walkaddr_new:
  fixes pa perm :: u64
  assumes inv': "vm_inv s' root xs'" and va: "va < MAXVA"
    and leaf: "vleaf s' root va = PA2PTE pa OR perm OR PTE_V"
    and pas: "pa mod PGSIZE = 0" "pa < 2 ^ 56" "perm < 1024"
  shows "walkaddr root va s' = (if perm AND PTE_U \<noteq> 0 then pa else 0)"
proof -
  have bits: "perm OR PTE_V < 1024"
  proof -
    have "perm OR PTE_V = take_bit 10 (perm OR PTE_V)"
    proof -
      have "take_bit 10 perm = perm" using pas(3)
        by (intro word_unat_eq_iff[THEN iffD2]) (simp add: unsigned_take_bit_eq take_bit_nat_eq_self word_less_nat_alt)
      then show ?thesis by (simp add: PTE_V_def)
    qed
    then have "unat (perm OR PTE_V) = take_bit 10 (unat (perm OR PTE_V))" by (metis unsigned_take_bit_eq)
    then show ?thesis using take_bit_nat_less_exp[of 10 "unat (perm OR PTE_V)"] by (simp add: word_less_nat_alt)
  qed
  have pa: "PTE2PA (PA2PTE pa OR perm OR PTE_V) = pa"
    using PTE2PA_PA2PTE[of pa "perm OR PTE_V"] pas(1,2) bits by (simp add: aligned_mod_PGSIZE or.assoc)
  have u: "(PA2PTE pa OR perm OR PTE_V) AND PTE_U = perm AND PTE_U"
    by (rule bit_eqI) (auto simp: bit_simps PA2PTE_def bit_PTE_U PTE_V_def)
  show ?thesis
    using walkaddr_vleaf[OF inv', of va] leaf va pa u PTE_V_or[of "PA2PTE pa OR perm"]
    by (simp add: or.assoc)
qed

text \<open>A page table with one user page, at address 0, for the witnesses.\<close>

lemma walkaddr_demo: "\<exists>m :: kmem_state. walkaddr 0x80001000 0 m = 0x80005000"
proof -
  obtain s :: kmem_state where s: "vm_inv s 0x80001000 [0x80002000, 0x80003000, 0x80004000]"
    "\<forall>va. vleaf s 0x80001000 va = 0" using demo_vm by blast
  then obtain xs' and s' :: kmem_state where m: "vm_inv s' 0x80001000 xs'"
    "vleaf s' 0x80001000 0 = PA2PTE 0x80005000 OR PTE_U OR PTE_V"
  proof -
    obtain r s' xs' where a: "vm_ext s 0x80001000 [0x80002000, 0x80003000, 0x80004000] s' xs'"
      "r = 0" "if r = 0 then \<forall>vb. aligned vb \<longrightarrow> vb < MAXVA \<longrightarrow> vleaf s' 0x80001000 vb
         = (if vb = 0 then PA2PTE 0x80005000 OR PTE_U OR PTE_V else vleaf s 0x80001000 vb)
       else r = -1 \<and> xs' = [] \<and> (\<forall>vb. vleaf s' 0x80001000 vb = vleaf s 0x80001000 vb)"
      using map_page[OF s(1), of 0 "0x80005000" PTE_U] s(2) by (auto simp: MAXVA_def)
    then have "vleaf s' 0x80001000 0 = PA2PTE 0x80005000 OR PTE_U OR PTE_V" by (simp add: MAXVA_def)
    then show thesis using a(1) that by (auto simp: vm_ext_def)
  qed
  have "walkaddr 0x80001000 0 s' = 0x80005000"
    using walkaddr_new[OF m(1) _ m(2)] by (simp add: MAXVA_def PGSIZE_def PTE_U_def word_less_nat_alt)
  then show ?thesis by blast
qed

text \<open>
  What \<open>mappages\<close> maps, \<open>walkaddr\<close> finds: after a page is mapped with permissions that
  include \<open>PTE_U\<close>, \<open>walkaddr\<close> returns its physical address, and for every other page it
  returns what it returned before; without \<open>PTE_U\<close> the kernel page stays invisible to it.
\<close>

theorem walkaddr_after_mappages:
  assumes "vm_inv s root xs" "va mod PGSIZE = 0" "va < MAXVA" "mappages root va PGSIZE pa perm s = Ok (0, s')"
    and "pa mod PGSIZE = 0" "pa < 2 ^ 56" "perm < 1024"
  shows "walkaddr root va s' = (if perm AND PTE_U \<noteq> 0 then pa else 0)
      \<and> (\<forall>vb. vb mod PGSIZE = 0 \<and> vb \<noteq> va \<longrightarrow> walkaddr root vb s' = walkaddr root vb s)"
proof (intro conjI allI impI)
  have va: "aligned va" using assms(2) by (simp add: aligned_mod_PGSIZE)
  have new: "vleaf s root va AND PTE_V = 0"
    using map_page_remap[OF assms(1) va assms(3), of pa perm] assms(4) by auto
  obtain xs' where s': "vm_ext s root xs s' xs'"
    "\<And>vb. aligned vb \<Longrightarrow> vb < MAXVA \<Longrightarrow>
       vleaf s' root vb = (if vb = va then PA2PTE pa OR perm OR PTE_V else vleaf s root vb)"
    using map_page[OF assms(1) va assms(3) new, of pa perm] assms(4) by auto
  have inv': "vm_inv s' root xs'" using s'(1) by (simp add: vm_ext_def)
  show "walkaddr root va s' = (if perm AND PTE_U \<noteq> 0 then pa else 0)"
    using walkaddr_new[OF inv' assms(3) _ assms(5-7)] s'(2)[OF va assms(3)] by simp
  fix vb :: u64 assume "vb mod PGSIZE = 0 \<and> vb \<noteq> va"
  then show "walkaddr root vb s' = walkaddr root vb s"
    using walkaddr_vleaf[OF inv', of vb] walkaddr_vleaf[OF assms(1), of vb] s'(2)[of vb]
    by (auto simp: aligned_mod_PGSIZE)
qed

text \<open>A user page mapped at virtual address 0, and what \<open>walkaddr\<close> says of it and of the next one.\<close>

theorem walkaddr_after_mappages_witness:
  "\<exists>(s :: kmem_state) s'. mappages 0x80001000 0 PGSIZE 0x80005000 PTE_U s = Ok (0, s')
     \<and> walkaddr 0x80001000 0 s' = 0x80005000
     \<and> walkaddr 0x80001000 PGSIZE s' = walkaddr 0x80001000 PGSIZE s"
proof -
  obtain s :: kmem_state where s: "vm_inv s 0x80001000 [0x80002000, 0x80003000, 0x80004000]"
    "\<forall>va. vleaf s 0x80001000 va = 0" using demo_vm by blast
  then obtain r s' where m: "mappages 0x80001000 0 PGSIZE 0x80005000 PTE_U s = Ok (r, s')" "r = 0"
    using map_page[OF s(1), of 0 "0x80005000" PTE_U] by (auto simp: MAXVA_def)
  show ?thesis
    using walkaddr_after_mappages[OF s(1), of 0 "0x80005000" PTE_U s'] m
    by (force simp: PTE_U_def MAXVA_def PGSIZE_def word_less_nat_alt)
qed

text \<open>
  \<open>uvmunmap\<close> of one page: a page that is not mapped is skipped with no effect; a mapped
  page loses its entry and no other page does, and with \<open>do_free\<close> its physical page goes to
  the end of the free list. The page tables stay well formed.
\<close>

theorem uvmunmap_correct:
  assumes "vm_inv s root xs" "va mod PGSIZE = 0" "va < MAXVA"
    and "do_free \<Longrightarrow> vleaf s root va AND PTE_V \<noteq> 0 \<Longrightarrow> page_ok s (PTE2PA (vleaf s root va))
       \<and> PTE2PA (vleaf s root va) \<notin> set xs \<and> PTE2PA (vleaf s root va) \<notin> tables (phys s) root"
  shows "\<exists>s'. uvmunmap root va 1 do_free s = Ok s'
    \<and> (if vleaf s root va AND PTE_V = 0 then s' = s
       else vm_inv s' root (if do_free then xs @ [PTE2PA (vleaf s root va)] else xs)
         \<and> (\<forall>vb. vb mod PGSIZE = 0 \<longrightarrow> vb < MAXVA \<longrightarrow> vleaf s' root vb = (if vb = va then 0 else vleaf s root vb)))"
proof -
  have va: "aligned va" using assms(2) by (simp add: aligned_mod_PGSIZE)
  obtain s' where s': "uvmunmap_page root va do_free s = Ok s'"
    "if vleaf s root va AND PTE_V = 0 then s' = s
     else same_outside (set xs \<union> tables (phys s) root \<union> (if do_free then {PTE2PA (vleaf s root va)} else {})) (phys s) (phys s')
         \<and> vm_inv s' root (if do_free then xs @ [PTE2PA (vleaf s root va)] else xs)
         \<and> (\<forall>vb. aligned vb \<longrightarrow> vb < MAXVA \<longrightarrow> vleaf s' root vb = (if vb = va then 0 else vleaf s root vb))"
    using unmap_page[OF assms(1) va assms(3,4)] by blast
  then show ?thesis unfolding uvmunmap_one[OF assms(2,3)] aligned_mod_PGSIZE
    by (intro exI[of _ s']) (simp split: if_split_asm)
qed

theorem uvmunmap_correct_witness:
  "\<exists>(s :: kmem_state) s'. vleaf s 0x80001000 0 = PA2PTE 0x80005000 OR PTE_U OR PTE_V
     \<and> uvmunmap 0x80001000 0 1 True s = Ok s' \<and> vleaf s' 0x80001000 0 = 0"
proof -
  obtain s :: kmem_state where s: "vm_inv s 0x80001000 [0x80002000, 0x80003000, 0x80004000]" "kend s = 0x80000000"
    "tables (phys s) 0x80001000 = {0x80001000}" "\<forall>va. vleaf s 0x80001000 va = 0" using demo_vm by blast
  then obtain s1 xs1 where m: "mappages 0x80001000 0 PGSIZE 0x80005000 PTE_U s = Ok (0, s1)"
    "vm_ext s 0x80001000 [0x80002000, 0x80003000, 0x80004000] s1 xs1"
    "vleaf s1 0x80001000 0 = PA2PTE 0x80005000 OR PTE_U OR PTE_V"
    using map_page[OF s(1), of 0 "0x80005000" PTE_U] by (auto simp: MAXVA_def)
  have e: "PTE2PA (PA2PTE 0x80005000 OR PTE_U OR PTE_V) = 0x80005000"
    by (simp add: PTE2PA_def PA2PTE_def PTE_U_def PTE_V_def push_bit_eq_mult drop_bit_eq_div)
  have tb: "vm_inv s1 0x80001000 xs1" "set xs1 \<subseteq> {0x80002000, 0x80003000, 0x80004000}"
    "tables (phys s1) 0x80001000 \<subseteq> {0x80001000, 0x80002000, 0x80003000, 0x80004000}" "kend s1 = 0x80000000"
    using vm_extD[OF m(2)] s(2,3) by auto
  have "page_ok s1 0x80005000" using tb(4) by (simp add: page_ok_def PHYSTOP_def take_bit_eq_mod)
  moreover have "0x80005000 \<notin> set xs1" "0x80005000 \<notin> tables (phys s1) 0x80001000" using tb(2,3) by auto
  moreover have "(PA2PTE 0x80005000 OR PTE_U OR PTE_V) AND PTE_V \<noteq> 0"
    using PTE_V_or[of "PA2PTE 0x80005000 OR PTE_U"] unfolding or.assoc .
  ultimately obtain s2 where "uvmunmap 0x80001000 0 1 True s1 = Ok s2" "vleaf s2 0x80001000 0 = 0"
    using uvmunmap_correct[OF tb(1), of 0 True] m(3) e by (auto simp: MAXVA_def)
  then show ?thesis using m(3) by blast
qed

end
