(* ===== verification/Vm_Space.thy ===== *)
theory Vm_Space
  imports Vm_Map
begin

text \<open>
  User address spaces. An address space is a page table whose pages below a bound have physical
  pages of their own, and its contents is a function from user addresses to bytes (\<open>ubyte\<close>), zero
  where nothing is mapped yet. \<open>copyout\<close>, \<open>copyin\<close>, \<open>vmfault\<close> and \<open>uvmcopy\<close> are stated on this
  function: page tables, page boundaries and lazy allocation do not show in it.
\<close>

section \<open>Address spaces\<close>

definition mapped :: "'z kmem_state_scheme \<Rightarrow> u64 \<Rightarrow> u64 \<Rightarrow> bool" where
  "mapped s root va \<longleftrightarrow> vleaf s root va AND PTE_V \<noteq> 0"

definition frame :: "'z kmem_state_scheme \<Rightarrow> u64 \<Rightarrow> u64 \<Rightarrow> u64" where
  "frame s root va = PTE2PA (vleaf s root va)"

definition upages :: "'z kmem_state_scheme \<Rightarrow> u64 \<Rightarrow> u64 \<Rightarrow> u64 set" where
  "upages s root ub = {va. aligned va \<and> va < ub \<and> mapped s root va}"

definition frames :: "'z kmem_state_scheme \<Rightarrow> u64 \<Rightarrow> u64 \<Rightarrow> u64 set" where
  "frames s root ub = frame s root ` upages s root ub"

definition own :: "'z kmem_state_scheme \<Rightarrow> u64 \<Rightarrow> u64 \<Rightarrow> u64 set" where
  "own s root ub = tables (phys s) root \<union> frames s root ub"

definition ubyte :: "'z kmem_state_scheme \<Rightarrow> u64 \<Rightarrow> u64 \<Rightarrow> u8" where
  "ubyte s root a =
     (if mapped s root (PGROUNDDOWN a) then phys s (frame s root (PGROUNDDOWN a) + take_bit 12 a) else 0)"

text \<open>Every mapped page below \<open>ub\<close> has a physical page of its own, which is neither free nor part of
  the page table, and no page from \<open>ub\<close> on is for the user.\<close>

definition space_ok :: "'z kmem_state_scheme \<Rightarrow> u64 \<Rightarrow> u64 \<Rightarrow> u64 list \<Rightarrow> bool" where
  "space_ok s root ub xs \<longleftrightarrow> vm_inv s root xs \<and> aligned ub \<and> ub \<le> MAXVA
     \<and> inj_on (frame s root) (upages s root ub)
     \<and> (\<forall>f \<in> frames s root ub. page_ok s f \<and> f \<notin> set xs \<and> f \<notin> tables (phys s) root)
     \<and> (\<forall>va. aligned va \<and> ub \<le> va \<and> va < MAXVA \<and> mapped s root va \<longrightarrow> vleaf s root va AND PTE_U = 0)"

lemma PGROUNDDOWN_le: "PGROUNDDOWN a \<le> a"
  unfolding word_le_nat_alt unat_PGROUNDDOWN by simp

lemma PGROUNDDOWN_less: "a < ub \<Longrightarrow> PGROUNDDOWN a < ub"
  using PGROUNDDOWN_le[of a] by simp

lemma take12_less: "unat (take_bit 12 (a :: u64)) < 4096"
  by (simp add: unat_take12)

lemma page_of_take12 [simp]: "aligned p \<Longrightarrow> page_of (p + take_bit 12 a) = page_of p"
  using page_of_offset[OF _ take12_less, of p a] by simp

lemma same_outside_at:
  assumes "same_outside ps m m'" "\<forall>p \<in> ps. aligned p" "aligned f" "f \<notin> ps"
  shows "m' (f + take_bit 12 a) = m (f + take_bit 12 a)"
proof -
  have "page_of (f + take_bit 12 a) \<notin> page_of ` ps" using assms(2-4) page_of_inj[of f] by auto
  then show ?thesis using assms(1) by (simp add: same_outside_def)
qed

lemma space_okD:
  assumes "space_ok s root ub xs"
  shows "vm_inv s root xs" "kmem_inv s xs" "ub \<le> MAXVA" "kend s \<noteq> 0"
    "\<forall>x \<in> set xs. page_ok s x \<and> aligned x" "\<forall>x \<in> own s root ub. page_ok s x \<and> aligned x"
    "set xs \<inter> own s root ub = {}"
  using assms pt_inv_table[of s root xs]
  by (auto simp: space_ok_def vm_inv_def kmem_inv_def own_def page_ok_def)

lemma upages_frame: "aligned va \<Longrightarrow> va < ub \<Longrightarrow> mapped s root va \<Longrightarrow> frame s root va \<in> frames s root ub"
  by (simp add: frames_def upages_def)

lemma leaves_cong:
  assumes "\<And>va. vleaf s' root va = vleaf s root va"
  shows "mapped s' root va = mapped s root va" "frame s' root = frame s root" "upages s' root ub = upages s root ub"
    "frames s' root ub = frames s root ub"
  using assms by (auto simp: mapped_def frame_def[abs_def] upages_def frames_def)

text \<open>What is written elsewhere leaves an address space alone.\<close>

lemma space_keep:
  assumes sp: "space_ok s root ub xs" and m: "same_outside ps (phys s) (phys s')" "\<forall>p \<in> ps. aligned p"
    "ps \<inter> own s root ub = {}" and k: "kend s' = kend s" "kmem_inv s' xs'" "set xs' \<inter> own s root ub = {}"
  shows "space_ok s' root ub xs'" "\<And>va. vleaf s' root va = vleaf s root va" "own s' root ub = own s root ub"
    "\<And>a. a < ub \<Longrightarrow> ubyte s' root a = ubyte s root a"
proof -
  note d = space_okD[OF sp]
  have pt: "pt_inv s root xs" and tb: "ps \<inter> tables (phys s) root = {}"
    using d(1) m(3) by (auto simp: vm_inv_def own_def)
  note n = node_outside[OF m(1) pt m(2) tb]
  show v: "vleaf s' root va = vleaf s root va" for va using pte_loc_outside(2)[OF m(1) d(1) m(2) tb] .
  have t: "tables (phys s') root = tables (phys s) root" by (rule tables_cong) (rule n)
  note c = leaves_cong[of s' root s, OF v]
  show "own s' root ub = own s root ub" by (simp add: own_def t c)
  have "pt_inv s' root xs'" using k(3) by (intro pt_inv_cong[OF pt n k(1)]) (auto simp: own_def)
  then show "space_ok s' root ub xs'"
    using sp k by (auto simp: space_ok_def vm_inv_def c t v page_ok_kend[OF k(1)] own_def)
  fix a assume a: "a < ub"
  have "phys s' (f + take_bit 12 a) = phys s (f + take_bit 12 a)" if "f \<in> frames s root ub" for f
    using that m d(6) by (intro same_outside_at[OF m(1,2)]) (auto simp: own_def)
  then show "ubyte s' root a = ubyte s root a"
    using upages_frame[of "PGROUNDDOWN a" ub s root] PGROUNDDOWN_less[OF a] by (simp add: ubyte_def c)
qed

text \<open>What an operation on an address space may do: it writes its own pages and free pages only, and the
  pages it owns or frees are of these.\<close>

definition space_ext ::
    "'z kmem_state_scheme \<Rightarrow> u64 \<Rightarrow> u64 \<Rightarrow> u64 list \<Rightarrow> 'z kmem_state_scheme \<Rightarrow> u64 list \<Rightarrow> bool" where
  "space_ext s root ub xs s' xs' \<longleftrightarrow> space_ok s' root ub xs' \<and> kend s' = kend s
     \<and> own s' root ub \<union> set xs' \<subseteq> own s root ub \<union> set xs
     \<and> same_outside (own s root ub \<union> set xs) (phys s) (phys s')"

lemma space_ext_refl: "space_ok s root ub xs \<Longrightarrow> space_ext s root ub xs s xs"
  by (simp add: space_ext_def)

lemma space_ext_trans:
  assumes "space_ext s root ub xs s1 xs1" "space_ext s1 root ub xs1 s2 xs2"
  shows "space_ext s root ub xs s2 xs2"
proof -
  have "same_outside (own s root ub \<union> set xs) (phys s) (phys s2)"
  proof (rule same_outside_mono[OF same_outside_trans])
    show "same_outside (own s root ub \<union> set xs) (phys s) (phys s1)"
      "same_outside (own s1 root ub \<union> set xs1) (phys s1) (phys s2)" using assms by (simp_all add: space_ext_def)
    show "own s root ub \<union> set xs \<union> (own s1 root ub \<union> set xs1) \<subseteq> own s root ub \<union> set xs"
      using assms(1) by (simp add: space_ext_def)
  qed
  moreover have "own s2 root ub \<union> set xs2 \<subseteq> own s root ub \<union> set xs"
    using assms unfolding space_ext_def by (meson subset_trans)
  ultimately show ?thesis using assms by (simp add: space_ext_def)
qed

lemma space_ext_other:
  assumes ext: "space_ext s root ub xs s' xs'" and sp: "space_ok s root ub xs" "space_ok s root2 ub2 xs"
    and disj: "own s root ub \<inter> own s root2 ub2 = {}"
  shows "space_ok s' root2 ub2 xs'" "\<And>va. vleaf s' root2 va = vleaf s root2 va"
    "own s' root2 ub2 = own s root2 ub2" "\<And>a. a < ub2 \<Longrightarrow> ubyte s' root2 a = ubyte s root2 a"
    "own s' root ub \<inter> own s' root2 ub2 = {}"
proof -
  have al: "\<forall>p \<in> own s root ub \<union> set xs. aligned p" using space_okD(5,6)[OF sp(1)] by blast
  have dj: "(own s root ub \<union> set xs) \<inter> own s root2 ub2 = {}" using disj space_okD(7)[OF sp(2)] by blast
  have e: "same_outside (own s root ub \<union> set xs) (phys s) (phys s')" "kend s' = kend s" "kmem_inv s' xs'"
    "own s' root ub \<union> set xs' \<subseteq> own s root ub \<union> set xs"
    using ext space_okD(2)[of s' root ub xs'] by (auto simp: space_ext_def)
  have "set xs' \<inter> own s root2 ub2 = {}" using e(4) dj by blast
  note k = space_keep[OF sp(2) e(1) al dj e(2,3) this]
  show "space_ok s' root2 ub2 xs'" "\<And>va. vleaf s' root2 va = vleaf s root2 va"
    "own s' root2 ub2 = own s root2 ub2" "\<And>a. a < ub2 \<Longrightarrow> ubyte s' root2 a = ubyte s root2 a" by (fact k)+
  show "own s' root ub \<inter> own s' root2 ub2 = {}" using e(4) dj k(3) by blast
qed

section \<open>Adding a page\<close>

text \<open>A page outside the address space is mapped at \<open>va\<close>, or nothing changes but that free pages may have
  become page tables.\<close>

lemma map_frame_leaves:
  assumes sp: "space_ok s root ub xs" and f: "page_ok s f" "f \<notin> set xs" "f \<notin> own s root ub"
    and va: "aligned va" "va < ub" "\<not> mapped s root va" and perm: "perm < 1024"
    and ext: "vm_ext s root xs s' xs'"
    and new: "\<And>vb. aligned vb \<Longrightarrow> vb < MAXVA \<Longrightarrow>
       vleaf s' root vb = (if here \<and> vb = va then PA2PTE f OR perm OR PTE_V else vleaf s root vb)"
  shows "space_ok s' root ub xs'" "own s' root ub \<subseteq> own s root ub \<union> set xs \<union> (if here then {f} else {})"
    "\<And>a. a < ub \<Longrightarrow> ubyte s' root a = (if here \<and> PGROUNDDOWN a = va then phys s (f + take_bit 12 a) else ubyte s root a)"
proof -
  note d = space_okD[OF sp] and e = vm_extD[OF ext]
  have ubm: "vb < MAXVA" if "vb < ub" for vb using that d(3) by simp
  have fl: "PTE2PA (PA2PTE f OR perm OR PTE_V) = f" "(PA2PTE f OR perm OR PTE_V) AND PTE_V \<noteq> 0"
  proof -
    have "take_bit 10 perm = perm" using perm
      by (intro word_unat_eq_iff[THEN iffD2]) (simp add: unsigned_take_bit_eq take_bit_nat_eq_self word_less_nat_alt)
    then have "take_bit 10 (perm OR PTE_V) = perm OR PTE_V" by (simp add: PTE_V_def)
    then have "unat (perm OR PTE_V) = take_bit 10 (unat (perm OR PTE_V))" by (metis unsigned_take_bit_eq)
    then have "perm OR PTE_V < 1024"
      using take_bit_nat_less_exp[of 10 "unat (perm OR PTE_V)"] by (simp add: word_less_nat_alt)
    then show "PTE2PA (PA2PTE f OR perm OR PTE_V) = f" using PTE_round[OF f(1)] by (simp add: or.assoc)
    show "(PA2PTE f OR perm OR PTE_V) AND PTE_V \<noteq> 0" using PTE_V_or[of "PA2PTE f OR perm"] unfolding or.assoc .
  qed
  have mp: "mapped s' root vb \<longleftrightarrow> here \<and> vb = va \<or> mapped s root vb"
      "frame s' root vb = (if here \<and> vb = va then f else frame s root vb)" if "aligned vb" "vb < MAXVA" for vb
    using new[OF that] fl by (auto simp: mapped_def frame_def)
  have up: "upages s' root ub = upages s root ub \<union> (if here then {va} else {})"
    using mp(1) ubm va by (auto simp: upages_def)
  have fr: "frames s' root ub = frames s root ub \<union> (if here then {f} else {})"
    using mp(2) ubm va unfolding frames_def up by (auto simp: upages_def image_iff)
  show own: "own s' root ub \<subseteq> own s root ub \<union> set xs \<union> (if here then {f} else {})"
    using e(4) by (auto simp: own_def fr)
  have "inj_on (frame s' root) (upages s' root ub)"
  proof -
    have same: "frame s' root x = frame s root x" if "x \<in> upages s root ub" for x
      using that mp(2)[of x] va ubm by (auto simp: upages_def)
    have "inj_on (frame s' root) (upages s root ub)"
      using sp inj_on_cong[OF same, of "upages s root ub"] by (simp add: space_ok_def)
    moreover have "f \<notin> frame s' root ` upages s root ub"
      using f(3) image_cong[OF refl same, of "upages s root ub"] by (simp add: own_def frames_def)
    moreover have "here \<Longrightarrow> frame s' root va = f" using mp(2)[OF va(1)] va(2) ubm by simp
    ultimately show ?thesis unfolding up by (auto simp: inj_on_Un)
  qed
  moreover have "page_ok s' g \<and> g \<notin> set xs' \<and> g \<notin> tables (phys s') root" if "g \<in> frames s' root ub" for g
    using that sp f e(3,4) page_ok_kend[OF e(2)] unfolding fr
    by (auto simp: space_ok_def own_def split: if_splits)
  moreover have "vleaf s' root vb AND PTE_U = 0" if "aligned vb" "ub \<le> vb" "vb < MAXVA" "mapped s' root vb" for vb
    using sp that mp(1) new va(2) by (auto simp: space_ok_def)
  ultimately show "space_ok s' root ub xs'" using e(1) d(3) sp by (auto simp: space_ok_def)
  fix a assume a: "a < ub"
  let ?p = "PGROUNDDOWN a"
  have p: "?p < ub" "?p < MAXVA" using PGROUNDDOWN_less[OF a] ubm by auto
  have out: "same_outside (set xs \<union> tables (phys s) root) (phys s) (phys s')" using ext by (simp add: vm_ext_def)
  have keep: "phys s' (g + take_bit 12 a) = phys s (g + take_bit 12 a)" if "g \<in> insert f (frames s root ub)" for g
    using that sp f d(5,6) by (intro same_outside_at[OF out]) (auto simp: own_def space_ok_def page_ok_def)
  show "ubyte s' root a = (if here \<and> ?p = va then phys s (f + take_bit 12 a) else ubyte s root a)"
    using mp[of ?p] p keep[of f] keep[of "frame s root ?p"] upages_frame[of ?p ub s root]
    by (auto simp: ubyte_def)
qed

lemma take_free_page:
  assumes sp: "space_ok s root ub (f # xs)" and m: "same_outside {f} (phys s) m"
  defines "s1 \<equiv> (snd (kalloc s))\<lparr>phys := m\<rparr>"
  shows "fst (kalloc s) = f" "f \<noteq> 0" "space_ok s1 root ub xs" "kend s1 = kend s"
    "\<And>va. vleaf s1 root va = vleaf s root va" "own s1 root ub = own s root ub"
    "\<And>a. a < ub \<Longrightarrow> ubyte s1 root a = ubyte s root a"
    "page_ok s1 f" "f \<notin> set xs" "f \<notin> own s1 root ub" "aligned f"
proof -
  note d = space_okD[OF sp]
  have f: "aligned f" "page_ok s f" "f \<notin> set xs" "f \<notin> own s root ub" using d(2,5,7) by (auto simp: kmem_inv_def)
  obtain t where t: "kalloc s = (f, t)" "kmem_inv t xs" "kend t = kend s" "phys t = memset (phys s) f 5 4096"
    using kalloc_dequeue[OF d(2)] by blast
  show "fst (kalloc s) = f" "kend s1 = kend s" "f \<notin> set xs" "aligned f" using t f by (simp_all add: s1_def)
  show "f \<noteq> 0" using page_ok_simps(1)[OF f(2) d(4)] .
  have "same_outside ({f} \<union> {f}) (phys t) m"
  proof (rule same_outside_trans[OF _ m])
    show "same_outside {f} (phys t) (phys s)"
      using memset_outside[OF f(1), of "phys s" 5] t(4) by (simp add: same_outside_def)
  qed
  then have "run_list m (freelist t) xs = run_list (phys t) (freelist t) xs"
    using f d(5) by (intro run_list_outside) auto
  then have k: "kmem_inv s1 xs" using t by (simp add: s1_def kmem_inv_def page_ok_def)
  have o: "same_outside {f} (phys s) (phys s1)" using m by (simp add: s1_def)
  have ps: "\<forall>p \<in> {f}. aligned p" "{f} \<inter> own s root ub = {}" "set xs \<inter> own s root ub = {}" using f d(7) by auto
  note keep = space_keep[OF sp o ps(1,2) \<open>kend s1 = kend s\<close> k ps(3)]
  show "space_ok s1 root ub xs" "\<And>va. vleaf s1 root va = vleaf s root va" "own s1 root ub = own s root ub"
    "\<And>a. a < ub \<Longrightarrow> ubyte s1 root a = ubyte s root a" by (fact keep)+
  show "page_ok s1 f" "f \<notin> own s1 root ub" using f keep(3) page_ok_kend[OF \<open>kend s1 = kend s\<close>] by simp_all
qed

lemma free_frame:
  assumes sp: "space_ok s root ub xs" and f: "page_ok s f" "f \<notin> set xs" "f \<notin> own s root ub"
  shows "\<exists>s'. kfree f s = Ok s' \<and> kend s' = kend s \<and> space_ok s' root ub (xs @ [f]) \<and> own s' root ub = own s root ub
    \<and> same_outside (insert f (set xs)) (phys s) (phys s')
    \<and> (\<forall>va. vleaf s' root va = vleaf s root va) \<and> (\<forall>a < ub. ubyte s' root a = ubyte s root a)"
proof -
  note d = space_okD[OF sp]
  obtain s' where s': "kfree f s = Ok s'" "kmem_inv s' (xs @ [f])" "kend s' = kend s"
    "same_outside (insert f (set xs)) (phys s) (phys s')"
    using kfree_enqueue[OF d(2) f(1,2)] by blast
  have ps: "\<forall>p \<in> insert f (set xs). aligned p" "insert f (set xs) \<inter> own s root ub = {}"
    "set (xs @ [f]) \<inter> own s root ub = {}"
    using d(5,7) f by (auto simp: page_ok_def)
  show ?thesis using s' space_keep[OF sp s'(4) ps(1,2) s'(3,2) ps(3)] by (intro exI[of _ s']) simp
qed

text \<open>Allocate a page, fill it, map it, and free it again when that fails: the common part of \<open>vmfault\<close>
  and \<open>uvmcopy\<close>.\<close>

lemma add_page:
  assumes sp: "space_ok s root ub (f # xs)" and m: "same_outside {f} (phys s) m"
    and va: "aligned va" "va < ub" "\<not> mapped s root va" and perm: "perm < 1024"
  shows "\<exists>r s2. mappages root va PGSIZE f perm ((snd (kalloc s))\<lparr>phys := m\<rparr>) = Ok (r, s2)
    \<and> (if r = 0
       then \<exists>xs'. space_ext s root ub (f # xs) s2 xs' \<and> length xs \<le> length xs' + 2
         \<and> (\<forall>vb. aligned vb \<longrightarrow> vb < MAXVA \<longrightarrow>
              vleaf s2 root vb = (if vb = va then PA2PTE f OR perm OR PTE_V else vleaf s root vb))
         \<and> (\<forall>a < ub. ubyte s2 root a = (if PGROUNDDOWN a = va then m (f + take_bit 12 a) else ubyte s root a))
       else r = -1 \<and> length xs < 2 \<and> (\<exists>s3. kfree f s2 = Ok s3 \<and> space_ext s root ub (f # xs) s3 [f]
         \<and> (\<forall>vb. aligned vb \<longrightarrow> vb < MAXVA \<longrightarrow> vleaf s3 root vb = vleaf s root vb)
         \<and> (\<forall>a < ub. ubyte s3 root a = ubyte s root a)))"
proof -
  define s1 where "s1 = (snd (kalloc s))\<lparr>phys := m\<rparr>"
  note t = take_free_page[OF sp m, folded s1_def]
  note d = space_okD[OF t(3)]
  have nm: "\<not> mapped s1 root va" "vleaf s1 root va AND PTE_V = 0" using va(3) t(5) by (auto simp: mapped_def)
  have vm: "va < MAXVA" using va(2) d(3) by simp
  obtain r s2 xs' where r: "mappages root va PGSIZE f perm s1 = Ok (r, s2)" "vm_ext s1 root xs s2 xs'"
    "length xs \<ge> 2 \<longrightarrow> r = 0" "length xs \<le> length xs' + 2" "r \<noteq> 0 \<Longrightarrow> r = -1 \<and> xs' = []"
    "\<And>vb. aligned vb \<Longrightarrow> vb < MAXVA \<Longrightarrow>
       vleaf s2 root vb = (if r = 0 \<and> vb = va then PA2PTE f OR perm OR PTE_V else vleaf s1 root vb)"
  proof -
    obtain r s2 xs' where q: "mappages root va PGSIZE f perm s1 = Ok (r, s2)" "vm_ext s1 root xs s2 xs'"
      "length xs \<ge> 2 \<longrightarrow> r = 0" "length xs \<le> length xs' + 2"
      "if r = 0 then \<forall>vb. aligned vb \<longrightarrow> vb < MAXVA \<longrightarrow>
           vleaf s2 root vb = (if vb = va then PA2PTE f OR perm OR PTE_V else vleaf s1 root vb)
       else r = -1 \<and> xs' = [] \<and> (\<forall>vb. vleaf s2 root vb = vleaf s1 root vb)"
      using map_page[OF d(1) va(1) vm nm(2), of f perm] by blast
    then show thesis by (cases "r = 0") (auto intro: that[of r s2 xs'])
  qed
  note l = map_frame_leaves[OF t(3,8,9,10) va(1,2) nm(1) perm r(2) r(6)]
  have o: "same_outside (insert f (own s root ub \<union> set xs)) (phys s) (phys s2)"
  proof (rule same_outside_mono[OF same_outside_trans])
    show "same_outside {f} (phys s) (phys s1)" using m by (simp add: s1_def)
    show "same_outside (set xs \<union> tables (phys s1) root) (phys s1) (phys s2)" using r(2) by (simp add: vm_ext_def)
  qed (use t(6) in \<open>auto simp: own_def\<close>)
  have ke: "kend s2 = kend s" "set xs' \<subseteq> set xs" using vm_extD[OF r(2)] t(4) by auto
  show ?thesis
  proof (cases "r = 0")
    case True
    have "space_ext s root ub (f # xs) s2 xs'" using l(1,2) True o ke t(6) by (auto simp: space_ext_def)
    then show ?thesis using r(1,4,6) l(3) True t(5,7) unfolding s1_def by auto
  next
    case False
    then have ro: "r = -1" "xs' = []" "length xs < 2" using r(3,5) by auto
    have f: "page_ok s2 f" "f \<notin> set xs'" "f \<notin> own s2 root ub"
      using t(4,8,9,10) ke(1) l(2) False ro(2) by (auto simp: page_ok_def)
    obtain s3 where s3: "kfree f s2 = Ok s3" "kend s3 = kend s2" "space_ok s3 root ub [f]" "own s3 root ub = own s2 root ub"
      "same_outside {f} (phys s2) (phys s3)" "\<forall>va. vleaf s3 root va = vleaf s2 root va" "\<forall>a < ub. ubyte s3 root a = ubyte s2 root a"
      using free_frame[OF l(1) f] ro(2) by auto
    have "same_outside (insert f (own s root ub \<union> set xs)) (phys s) (phys s3)"
      by (rule same_outside_mono[OF same_outside_trans[OF o s3(5)]]) auto
    then have "space_ext s root ub (f # xs) s3 [f]"
      using s3(2-4) l(2) False ke t(6) by (auto simp: space_ext_def)
    then show ?thesis using r(1,6) l(3) False ro s3(1,6,7) t(5,7) by (simp add: s1_def)
  qed
qed

section \<open>Lazy allocation\<close>

lemma page_split: "unat a = unat (PGROUNDDOWN a) + unat (take_bit 12 a)"
  by (simp add: unat_PGROUNDDOWN unat_take12)

lemma PGROUNDDOWN_aligned: "aligned va \<Longrightarrow> PGROUNDDOWN va = va"
  by (simp add: PGROUNDDOWN_eq)

lemma in_space: "space_ok s root ub xs \<Longrightarrow> PGROUNDDOWN a < ub \<longleftrightarrow> a < ub"
proof -
  assume "space_ok s root ub xs"
  then have "4096 dvd unat ub" by (simp add: space_ok_def aligned_unat)
  then obtain n where n: "unat ub = 4096 * n" by blast
  have "unat a div 4096 < n \<longleftrightarrow> unat a < n * 4096" by (rule div_less_iff_less_mult) simp
  then show ?thesis unfolding word_less_nat_alt unat_PGROUNDDOWN n by (simp add: mult.commute)
qed

lemma memset_page: "memset m f c 4096 (f + take_bit 12 a) = c"
  unfolding memset_eq using take12_less[of a] by (auto intro!: exI[of _ "unat (take_bit 12 a)"])

definition RWU :: u64 where "RWU = PTE_W OR PTE_U OR PTE_R"

text \<open>What a page fault may do, with \<open>pa\<close> the page it returns.\<close>

definition faulted ::
    "'z kmem_state_scheme \<Rightarrow> u64 \<Rightarrow> u64 \<Rightarrow> u64 list \<Rightarrow> u64 \<Rightarrow> u64 \<Rightarrow> 'z kmem_state_scheme \<Rightarrow> u64 list \<Rightarrow> bool" where
  "faulted s root ub xs va pa s' xs' \<longleftrightarrow> space_ext s root ub xs s' xs' \<and> length xs \<le> length xs' + 3
     \<and> (\<forall>a < ub. ubyte s' root a = ubyte s root a)
     \<and> (\<forall>vb. aligned vb \<longrightarrow> vb < MAXVA \<longrightarrow> vleaf s' root vb =
          (if pa \<noteq> 0 \<and> vb = va then PA2PTE pa OR RWU OR PTE_V else vleaf s root vb))
     \<and> (pa \<noteq> 0 \<longrightarrow> PTE2PA (PA2PTE pa OR RWU OR PTE_V) = pa)"

lemma faulted_none: "space_ok s root ub xs \<Longrightarrow> faulted s root ub xs va 0 s xs"
  by (simp add: faulted_def space_ext_refl)

lemma zero_page:
  assumes sp: "space_ok s root ub (f # ys)" and va: "aligned va" "va < ub" "\<not> mapped s root va"
  defines "m \<equiv> memset (phys (snd (kalloc s))) f 0 4096"
  shows "\<exists>r s2. mappages root va PGSIZE f RWU ((snd (kalloc s))\<lparr>phys := m\<rparr>) = Ok (r, s2)
    \<and> (if r = 0 then \<exists>xs'. faulted s root ub (f # ys) va f s2 xs'
       else length ys < 2 \<and> (\<exists>s3. kfree f s2 = Ok s3 \<and> faulted s root ub (f # ys) va 0 s3 [f]))"
    "fst (kalloc s) = f" "f \<noteq> 0"
proof -
  note d = space_okD[OF sp]
  have f: "aligned f" "page_ok s f" using d(5) by auto
  have "phys (snd (kalloc s)) = memset (phys s) f 5 4096" using kalloc_dequeue[OF d(2)] by auto
  then have m: "same_outside {f} (phys s) m"
    using memset_outside[OF f(1), of "phys s" 5] memset_outside[OF f(1), of "memset (phys s) f 5 4096" 0]
    by (simp add: same_outside_def m_def)
  show f0: "fst (kalloc s) = f" "f \<noteq> 0" by (rule take_free_page(1,2)[OF sp m])+
  have rwu: "RWU < 1024" "PTE2PA (PA2PTE f OR RWU OR PTE_V) = f"
    using PTE_round[OF f(2), of "RWU OR PTE_V"]
    by (simp_all add: or.assoc RWU_def PTE_W_def PTE_U_def PTE_R_def PTE_V_def word_less_nat_alt)
  have z: "ubyte s root a = 0" "m (f + take_bit 12 a) = 0" if "PGROUNDDOWN a = va" for a
    using that va(3) by (simp_all add: ubyte_def m_def memset_page)
  obtain r s2 where r: "mappages root va PGSIZE f RWU ((snd (kalloc s))\<lparr>phys := m\<rparr>) = Ok (r, s2)"
    "if r = 0
     then \<exists>xs'. space_ext s root ub (f # ys) s2 xs' \<and> length ys \<le> length xs' + 2
       \<and> (\<forall>vb. aligned vb \<longrightarrow> vb < MAXVA \<longrightarrow>
            vleaf s2 root vb = (if vb = va then PA2PTE f OR RWU OR PTE_V else vleaf s root vb))
       \<and> (\<forall>a < ub. ubyte s2 root a = (if PGROUNDDOWN a = va then m (f + take_bit 12 a) else ubyte s root a))
     else r = -1 \<and> length ys < 2 \<and> (\<exists>s3. kfree f s2 = Ok s3 \<and> space_ext s root ub (f # ys) s3 [f]
       \<and> (\<forall>vb. aligned vb \<longrightarrow> vb < MAXVA \<longrightarrow> vleaf s3 root vb = vleaf s root vb)
       \<and> (\<forall>a < ub. ubyte s3 root a = ubyte s root a))"
    using add_page[OF sp m va rwu(1)] by blast
  show "\<exists>r s2. mappages root va PGSIZE f RWU ((snd (kalloc s))\<lparr>phys := m\<rparr>) = Ok (r, s2)
    \<and> (if r = 0 then \<exists>xs'. faulted s root ub (f # ys) va f s2 xs'
       else length ys < 2 \<and> (\<exists>s3. kfree f s2 = Ok s3 \<and> faulted s root ub (f # ys) va 0 s3 [f]))"
  proof (cases "r = 0")
    case True
    then show ?thesis using r z rwu(2) f0(2) by (intro exI[of _ r] exI[of _ s2]) (auto simp: faulted_def)
  next
    case False
    then show ?thesis using r by (intro exI[of _ r] exI[of _ s2]) (auto simp: faulted_def)
  qed
qed

text \<open>\<open>vmfault\<close> does not show in the contents. It gives the page if there is one to give and memory to
  give it.\<close>

lemma vmfault_ok:
  assumes sp: "space_ok s root ub xs" and p: "upt p = root" "usz p \<le> ub"
  shows "\<exists>pa s' xs'. vmfault p root va s = Ok (pa, s') \<and> faulted s root ub xs (PGROUNDDOWN va) pa s' xs'
    \<and> (pa \<noteq> 0 \<longrightarrow> va < usz p \<and> \<not> mapped s root (PGROUNDDOWN va))
    \<and> (va < usz p \<and> \<not> mapped s root (PGROUNDDOWN va) \<and> 3 \<le> length xs \<longrightarrow> pa \<noteq> 0)"
proof -
  let ?va = "PGROUNDDOWN va"
  note d = space_okD[OF sp] and triv = faulted_none[OF sp, of ?va]
  show ?thesis
  proof (cases "va < usz p \<and> \<not> mapped s root ?va")
    case False
    have "vmfault p root va s = Ok (0, s)"
    proof (cases "va < usz p")
      case True
      then have "?va < MAXVA" using p(2) d(3) PGROUNDDOWN_le[of va] by simp
      then show ?thesis using True False ismapped_vleaf[OF d(1)] by (simp add: vmfault_def mapped_def Let_def)
    qed (simp add: vmfault_def linorder_not_less)
    then show ?thesis using False triv by auto
  next
    case True
    then have va: "?va < ub" "?va < MAXVA" using p(2) d(3) PGROUNDDOWN_le[of va] by auto
    have nle: "\<not> usz p \<le> va" using True by (simp add: not_le)
    have im: "ismapped root ?va s = Ok False" using True ismapped_vleaf[OF d(1) va(2)] by (simp add: mapped_def)
    show ?thesis
    proof (cases xs)
      case Nil
      then have "vmfault p root va s = Ok (0, s)" using nle im kalloc_empty[of s] d(2) by (simp add: vmfault_def Let_def)
      then show ?thesis using triv Nil by auto
    next
      case (Cons f ys)
      have nm: "\<not> mapped s root ?va" using True by simp
      note z = zero_page[OF sp[unfolded Cons] aligned_PGROUNDDOWN va(1) nm]
      obtain r s2 where r: "mappages root ?va PGSIZE f RWU
          ((snd (kalloc s))\<lparr>phys := memset (phys (snd (kalloc s))) f 0 4096\<rparr>) = Ok (r, s2)"
        "if r = 0 then \<exists>xs'. faulted s root ub (f # ys) ?va f s2 xs'
         else length ys < 2 \<and> (\<exists>s3. kfree f s2 = Ok s3 \<and> faulted s root ub (f # ys) ?va 0 s3 [f])"
        using z(1) by blast
      have e: "vmfault p root va s = (if r \<noteq> 0 then bindR (kfree f s2) (\<lambda>s3. Ok (0, s3)) else Ok (f, s2))"
        using nle im z(2,3) r(1) p(1) by (simp add: vmfault_def Let_def case_prod_unfold RWU_def)
      show ?thesis using e r(2) z(3) True Cons by (cases "r = 0") (auto split: if_split_asm)
    qed
  qed
qed

section \<open>Bytes of one page\<close>

lemma page_range:
  assumes "unat (take_bit 12 dst) + n \<le> 4096"
  shows "unat dst \<le> unat a \<and> unat a < unat dst + n \<longleftrightarrow> PGROUNDDOWN a = PGROUNDDOWN dst
    \<and> unat (take_bit 12 dst) \<le> unat (take_bit 12 a) \<and> unat (take_bit 12 a) < unat (take_bit 12 dst) + n"
proof -
  define x y p q where "x = unat dst div 4096" "y = unat a div 4096" "p = unat dst mod 4096" "q = unat a mod 4096"
  have e: "unat dst = 4096 * x + p" "unat a = 4096 * y + q" "p < 4096" "q < 4096"
    by (simp_all add: x_y_p_q_def)
  have pg: "PGROUNDDOWN a = PGROUNDDOWN dst \<longleftrightarrow> y = x"
    unfolding word_unat_eq_iff unat_PGROUNDDOWN by (simp add: x_y_p_q_def)
  have o: "unat (take_bit 12 dst) = p" "unat (take_bit 12 a) = q" by (simp_all add: unat_take12 x_y_p_q_def)
  have "4096 * x + p \<le> 4096 * y + q \<and> 4096 * y + q < 4096 * x + p + n \<longleftrightarrow> y = x \<and> p \<le> q \<and> q < p + n"
    using assms[unfolded o] e(3,4) by (cases "y < x"; cases "x < y"; auto)
  then show ?thesis unfolding pg o e(1,2) .
qed

lemma write_bytes_page:
  assumes "unat (take_bit 12 dst) + length bs \<le> 4096"
  shows "write_bytes m (f + take_bit 12 dst) bs (f + take_bit 12 a) =
    (if unat (take_bit 12 dst) \<le> unat (take_bit 12 a) \<and> unat (take_bit 12 a) < unat (take_bit 12 dst) + length bs
     then bs ! (unat (take_bit 12 a) - unat (take_bit 12 dst)) else m (f + take_bit 12 a))"
proof -
  define p q where "p = unat (take_bit 12 dst)" "q = unat (take_bit 12 a)"
  have b: "take_bit 12 dst = of_nat p" "take_bit 12 a = of_nat q" "q < 4096" "p + length bs \<le> 4096"
    using assms take12_less[of a] by (simp_all add: p_q_def)
  show ?thesis
  proof (cases "p \<le> q \<and> q < p + length bs")
    case True
    then have "f + take_bit 12 a = f + take_bit 12 dst + of_nat (q - p)" by (simp add: of_nat_diff b(1,2))
    then show ?thesis
      using write_bytes_in[of "q - p" bs m "f + take_bit 12 dst"] True b(4) by (auto simp: p_q_def)
  next
    case False
    have "f + take_bit 12 a \<noteq> f + take_bit 12 dst + of_nat i" if "i < length bs" for i
    proof
      assume "f + take_bit 12 a = f + take_bit 12 dst + of_nat i"
      then have "(of_nat q :: u64) = of_nat (p + i)" by (simp add: add.assoc b(1,2))
      then show False using of_nat_u64_inj[of q "p + i"] False b(3,4) that by auto
    qed
    then have "write_bytes m (f + take_bit 12 dst) bs (f + take_bit 12 a) = m (f + take_bit 12 a)"
      by (rule write_bytes_other)
    then show ?thesis using False by (auto simp: p_q_def)
  qed
qed

lemma write_bytes_outside:
  assumes "aligned f" "unat (take_bit 12 dst) + length bs \<le> 4096"
  shows "same_outside {f} m (write_bytes m (f + take_bit 12 dst) bs)"
  unfolding same_outside_def
proof (intro allI impI write_bytes_other)
  fix x i assume x: "page_of x \<notin> page_of ` {f}" and i: "i < length bs"
  have "page_of (f + take_bit 12 dst + of_nat i) = page_of f"
    using page_of_offset[OF assms(1), of "unat (take_bit 12 dst) + i"] assms(2) i by (simp add: add.assoc)
  then show "x \<noteq> f + take_bit 12 dst + of_nat i" using x by auto
qed

text \<open>Writing bytes into one page of an address space.\<close>

lemma write_page:
  assumes sp: "space_ok s root ub xs" and m: "mapped s root (PGROUNDDOWN dst)" and ub: "dst < ub"
    and n: "unat (take_bit 12 dst) + length bs \<le> 4096"
  defines "s' \<equiv> s\<lparr>phys := write_bytes (phys s) (frame s root (PGROUNDDOWN dst) + take_bit 12 dst) bs\<rparr>"
  shows "space_ext s root ub xs s' xs" "\<And>va. vleaf s' root va = vleaf s root va"
    "\<And>a. a < ub \<Longrightarrow> ubyte s' root a = (if unat dst \<le> unat a \<and> unat a < unat dst + length bs
       then bs ! (unat a - unat dst) else ubyte s root a)"
proof -
  let ?p = "PGROUNDDOWN dst" let ?f = "frame s root ?p"
  note d = space_okD[OF sp]
  have pu: "?p \<in> upages s root ub" using m ub in_space[OF sp] by (simp add: upages_def)
  have f: "?f \<in> frames s root ub" using pu by (simp add: frames_def)
  have al: "aligned ?f" "?f \<notin> set xs" "?f \<notin> tables (phys s) root" "?f \<in> own s root ub"
    using f sp d(6) by (auto simp: space_ok_def own_def)
  have o: "same_outside {?f} (phys s) (phys s')" using write_bytes_outside[OF al(1) n] by (simp add: s'_def)
  have v: "vleaf s' root va = vleaf s root va" for va
    using pte_loc_outside(2)[OF o d(1)] al(1,3) by simp
  show "vleaf s' root va = vleaf s root va" for va by (rule v)
  note c = leaves_cong[of s' root s, OF v]
  have pt: "pt_inv s root xs" using d(1) by (simp add: vm_inv_def)
  have nd: "node (phys s') root q = node (phys s) root q" if "q \<in> paths" for q
    using node_outside[OF o pt _ _ that] al(1,3) by simp
  have t: "tables (phys s') root = tables (phys s) root" by (rule tables_cong[OF nd])
  have "run_list (phys s') (freelist s) xs = run_list (phys s) (freelist s) xs"
    using o d(5) al(1,2) by (intro run_list_outside) auto
  then have "kmem_inv s' xs" using d(2) by (simp add: kmem_inv_def page_ok_def s'_def)
  moreover have ke: "kend s' = kend s" by (simp add: s'_def)
  moreover have "pt_inv s' root xs"
    using pt by (intro pt_inv_cong[OF pt nd ke]) (auto simp: pt_inv_def)
  ultimately have "space_ok s' root ub xs"
    using sp page_ok_kend[OF ke] by (simp add: space_ok_def vm_inv_def c t v)
  moreover have "own s' root ub = own s root ub" by (simp add: own_def c t)
  ultimately show "space_ext s root ub xs s' xs"
    using same_outside_mono[OF o] al(4) ke by (simp add: space_ext_def)
  fix a assume a: "a < ub"
  let ?q = "PGROUNDDOWN a"
  show "ubyte s' root a = (if unat dst \<le> unat a \<and> unat a < unat dst + length bs
       then bs ! (unat a - unat dst) else ubyte s root a)"
  proof (cases "?q = ?p")
    case True
    have "unat a - unat dst = unat (take_bit 12 a) - unat (take_bit 12 dst)"
      using page_split[of a] page_split[of dst] True by simp
    moreover have "phys s' = write_bytes (phys s) (?f + take_bit 12 dst) bs" by (simp add: s'_def)
    ultimately show ?thesis
      using page_range[OF n, of a] write_bytes_page[OF n, of "phys s" ?f a] True m by (simp add: ubyte_def c)
  next
    case False
    have "phys s' (frame s root ?q + take_bit 12 a) = phys s (frame s root ?q + take_bit 12 a)" if mq: "mapped s root ?q"
    proof (rule same_outside_at[OF o])
      have qu: "?q \<in> upages s root ub" using mq a in_space[OF sp] by (simp add: upages_def)
      then show "aligned (frame s root ?q)" using d(6) by (simp add: own_def frames_def)
      show "frame s root ?q \<notin> {?f}" using qu pu sp False by (auto simp: space_ok_def inj_on_def)
    qed (use al(1) in simp)
    then show ?thesis using page_range[OF n, of a] False by (auto simp: ubyte_def c)
  qed
qed

section \<open>copyout\<close>

definition uleaf :: "'z kmem_state_scheme \<Rightarrow> u64 \<Rightarrow> u64 \<Rightarrow> bool" where
  "uleaf s root va \<longleftrightarrow> mapped s root va \<and> vleaf s root va AND PTE_U \<noteq> 0"

definition writable :: "'z kmem_state_scheme \<Rightarrow> u64 \<Rightarrow> u64 \<Rightarrow> bool" where
  "writable s root va \<longleftrightarrow> uleaf s root va \<and> vleaf s root va AND PTE_W \<noteq> 0"

lemma uleaf_ub: "space_ok s root ub xs \<Longrightarrow> aligned va \<Longrightarrow> va < MAXVA \<Longrightarrow> uleaf s root va \<Longrightarrow> va < ub"
  unfolding uleaf_def space_ok_def by (meson not_le)

lemma walkaddr_uleaf:
  assumes sp: "space_ok s root ub xs" and va: "aligned va" "va < MAXVA"
  shows "walkaddr root va s = (if uleaf s root va then frame s root va else 0)"
    "uleaf s root va \<Longrightarrow> frame s root va \<noteq> 0"
proof -
  note d = space_okD[OF sp]
  show "walkaddr root va s = (if uleaf s root va then frame s root va else 0)"
    using walkaddr_vleaf[OF d(1), of va] va by (simp add: uleaf_def mapped_def frame_def)
  assume u: "uleaf s root va"
  then have "frame s root va \<in> frames s root ub"
    using uleaf_ub[OF sp va u] va by (intro upages_frame) (auto simp: uleaf_def)
  then show "frame s root va \<noteq> 0" using page_ok_simps(1) d(4,6) by (auto simp: own_def)
qed

text \<open>A page to be written is there, or can be allocated.\<close>

definition avail :: "uproc \<Rightarrow> 'z kmem_state_scheme \<Rightarrow> u64 \<Rightarrow> bool" where
  "avail p s va \<longleftrightarrow> writable s (upt p) va \<or> \<not> mapped s (upt p) va \<and> va < usz p"

definition readable :: "uproc \<Rightarrow> 'z kmem_state_scheme \<Rightarrow> u64 \<Rightarrow> bool" where
  "readable p s va \<longleftrightarrow> uleaf s (upt p) va \<or> \<not> mapped s (upt p) va \<and> va < usz p"

text \<open>The common start of a round of \<open>copyout\<close> and \<open>copyin\<close>: the page at \<open>va\<close>, allocated if need be.\<close>

definition user_page :: "uproc \<Rightarrow> u64 \<Rightarrow> u64 \<Rightarrow> 'z kmem_state_scheme \<Rightarrow> (u64 \<times> 'z kmem_state_scheme) res" where
  "user_page p pt va s = (if walkaddr pt va s = 0 then vmfault p pt va s else Ok (walkaddr pt va s, s))"

lemma user_page_ok:
  assumes sp: "space_ok s root ub xs" and p: "upt p = root" "usz p \<le> ub" and va: "aligned va" "va < MAXVA"
  shows "\<exists>pa s' xs'. user_page p root va s = Ok (pa, s') \<and> space_ext s root ub xs s' xs' \<and> length xs \<le> length xs' + 3
    \<and> (\<forall>a < ub. ubyte s' root a = ubyte s root a)
    \<and> (\<forall>vb. aligned vb \<longrightarrow> vb < MAXVA \<longrightarrow> vb \<noteq> va \<longrightarrow> vleaf s' root vb = vleaf s root vb)
    \<and> (pa \<noteq> 0 \<longrightarrow> uleaf s' root va \<and> frame s' root va = pa \<and> va < ub)
    \<and> (readable p s va \<and> 3 \<le> length xs \<longrightarrow> pa \<noteq> 0)
    \<and> (avail p s va \<and> 3 \<le> length xs \<longrightarrow> pa \<noteq> 0 \<and> writable s' root va)
    \<and> (pa \<noteq> 0 \<and> writable s' root va \<longrightarrow> avail p s va)"
proof (cases "uleaf s root va")
  case True
  then show ?thesis
    using walkaddr_uleaf[OF sp va] space_ext_refl[OF sp] uleaf_ub[OF sp va] p(1)
    by (auto simp: user_page_def avail_def readable_def uleaf_def writable_def)
next
  case False
  obtain pa s' xs' where v: "vmfault p root va s = Ok (pa, s')" "space_ext s root ub xs s' xs'" "length xs \<le> length xs' + 3"
    "\<forall>a < ub. ubyte s' root a = ubyte s root a"
    "\<And>vb. aligned vb \<Longrightarrow> vb < MAXVA \<Longrightarrow> vleaf s' root vb =
         (if pa \<noteq> 0 \<and> vb = va then PA2PTE pa OR RWU OR PTE_V else vleaf s root vb)"
    "pa \<noteq> 0 \<Longrightarrow> va < usz p \<and> \<not> mapped s root va \<and> PTE2PA (PA2PTE pa OR RWU OR PTE_V) = pa"
    "va < usz p \<and> \<not> mapped s root va \<and> 3 \<le> length xs \<longrightarrow> pa \<noteq> 0"
    using vmfault_ok[OF sp p, of va] unfolding PGROUNDDOWN_aligned[OF va(1)] faulted_def by blast
  have fl: "(PA2PTE pa OR RWU OR PTE_V) AND b \<noteq> 0" if "b \<in> {PTE_V, PTE_U, PTE_W}" for b
  proof -
    have "(PA2PTE pa OR RWU OR PTE_V) AND b = b"
      using that by (intro bit_eqI) (auto simp: bit_simps RWU_def)
    then show ?thesis using that by (auto simp: PTE_V_def PTE_U_def PTE_W_def)
  qed
  have w: "writable s' root va" "frame s' root va = pa" "va < ub" if "pa \<noteq> 0"
    using v(5)[OF va] v(6) that fl p(2) by (auto simp: writable_def uleaf_def mapped_def frame_def)
  have "user_page p root va s = Ok (pa, s')" using v(1) False walkaddr_uleaf(1)[OF sp va] by (simp add: user_page_def)
  moreover have "pa \<noteq> 0 \<longrightarrow> avail p s va" using v(6) p(1) by (simp add: avail_def)
  moreover have "readable p s va \<or> avail p s va \<longrightarrow> va < usz p \<and> \<not> mapped s root va"
    using False p(1) by (auto simp: avail_def readable_def writable_def)
  moreover have "\<forall>vb. aligned vb \<longrightarrow> vb < MAXVA \<longrightarrow> vb \<noteq> va \<longrightarrow> vleaf s' root vb = vleaf s root vb"
    using v(5) by auto
  moreover have "pa \<noteq> 0 \<longrightarrow> uleaf s' root va" using w(1) by (simp add: writable_def)
  ultimately show ?thesis using v(2-4,7) w by (intro exI[of _ pa] exI[of _ s'] exI[of _ xs']) blast
qed

lemma walk_mapped:
  assumes "space_ok s root ub xs" "va < MAXVA" "mapped s root va"
  shows "\<exists>pte. walk root va False s = Ok (pte, s) \<and> pte \<noteq> 0 \<and> load64 (phys s) pte = vleaf s root va"
proof -
  have "vleaf s root va \<noteq> 0" using assms(3) by (auto simp: mapped_def)
  then obtain a where a: "pte_loc s root va = Some a" by (cases "pte_loc s root va") (auto simp: vleaf_loc)
  then show ?thesis
    using assms(2) pte_loc_nonzero[OF space_okD(1)[OF assms(1)], of va] by (auto simp: walk_def walk_lookup vleaf_loc not_le)
qed

text \<open>The pages touched from \<open>a\<close> on.\<close>

definition npages :: "u64 \<Rightarrow> nat \<Rightarrow> nat" where
  "npages a n = (unat (take_bit 12 a) + n + 4095) div 4096"

definition next_page :: "u64 \<Rightarrow> u64" where "next_page a = PGROUNDDOWN a + PGSIZE"

lemma minus_PGROUNDDOWN: "a - PGROUNDDOWN a = take_bit 12 a"
  by (simp add: PGROUNDDOWN_eq)

lemma chunk_page: "chunk a n = min (4096 - unat (take_bit 12 a)) n"
  by (simp add: chunk_def minus_PGROUNDDOWN)

lemma chunk_fits: "unat (take_bit 12 a) + chunk a n \<le> 4096"
  using take12_less[of a] by (simp add: chunk_page)

lemma next_page:
  assumes "PGROUNDDOWN a < MAXVA"
  shows "aligned (next_page a)" "PGROUNDDOWN a < next_page a" "unat (next_page a) = unat (PGROUNDDOWN a) + 4096"
    "chunk a n < n \<Longrightarrow> unat (next_page a) = unat a + chunk a n"
    "0 < n \<Longrightarrow> npages (next_page a) (n - chunk a n) + 1 \<le> npages a n"
proof -
  have "unat (PGROUNDDOWN a) + 4096 < 2 ^ 64" using assms by (simp add: word_less_nat_alt MAXVA_def)
  then show u: "unat (next_page a) = unat (PGROUNDDOWN a) + 4096"
    using u64_nowrap[of "PGROUNDDOWN a" 4096] by (simp add: next_page_def PGSIZE_def)
  then show "PGROUNDDOWN a < next_page a" by (simp add: word_less_nat_alt)
  have al: "4096 dvd unat (PGROUNDDOWN a)" by (rule aligned_unat[THEN iffD1, OF aligned_PGROUNDDOWN])
  then show an: "aligned (next_page a)" by (simp add: aligned_unat u)
  show "chunk a n < n \<Longrightarrow> unat (next_page a) = unat a + chunk a n"
    using page_split[of a] take12_less[of a] u by (simp add: chunk_page min_def split: if_splits)
  assume n: "0 < n"
  show "npages (next_page a) (n - chunk a n) + 1 \<le> npages a n"
  proof (cases "n \<le> 4096 - unat (take_bit 12 a)")
    case True
    then have "chunk a n = n" by (simp add: chunk_page min_def)
    moreover have "1 \<le> (unat (take_bit 12 a) + n + 4095) div 4096" using n by (simp add: div_greater_zero_iff)
    ultimately show ?thesis by (simp add: npages_def an)
  next
    case False
    then have "unat (take_bit 12 a) + n + 4095 = (n - chunk a n + 4095) + 4096"
      using take12_less[of a] by (simp add: chunk_page)
    then show ?thesis by (simp add: npages_def an del: One_nat_def)
  qed
qed

lemma copyout_step:
  assumes "src \<noteq> []"
  shows "copyout p pt dst src s =
    (if MAXVA \<le> PGROUNDDOWN dst then Ok (-1, s)
     else bindR (user_page p pt (PGROUNDDOWN dst) s) (\<lambda>(pa, s1).
       if pa = 0 then Ok (-1, s1)
       else bindR (walk pt (PGROUNDDOWN dst) False s1) (\<lambda>(pte, _).
         if pte = 0 then Panic ''kerneltrap''
         else if load64 (phys s1) pte AND PTE_W = 0 then Ok (-1, s1)
         else copyout p pt (next_page dst) (drop (chunk dst (length src)) src)
           (s1\<lparr>phys := write_bytes (phys s1) (pa + take_bit 12 dst) (take (chunk dst (length src)) src)\<rparr>))))"
  unfolding copyout.simps[of p pt dst src s] Let_def user_page_def next_page_def minus_PGROUNDDOWN
  using assms by simp

definition copied :: "nat \<Rightarrow> u64 \<Rightarrow> u8 list \<Rightarrow> 'z kmem_state_scheme \<Rightarrow> u64 \<Rightarrow> u64 \<Rightarrow> u8" where
  "copied k dst src s root a =
     (if unat dst \<le> unat a \<and> unat a < unat dst + k then src ! (unat a - unat dst) else ubyte s root a)"

text \<open>The pages of a range can all be written, and there is memory for those that are missing.\<close>

definition range_avail :: "uproc \<Rightarrow> 'z kmem_state_scheme \<Rightarrow> u64 \<Rightarrow> nat \<Rightarrow> bool" where
  "range_avail p s dst n \<longleftrightarrow>
     (\<forall>va. aligned va \<and> PGROUNDDOWN dst \<le> va \<and> va < MAXVA \<and> unat va < unat dst + n \<longrightarrow> avail p s va)"

lemma avail_cong: "vleaf s' (upt p) va = vleaf s (upt p) va \<Longrightarrow> avail p s' va = avail p s va"
  by (simp add: avail_def writable_def uleaf_def mapped_def)

lemma copied_0 [simp]: "copied 0 dst src s root a = ubyte s root a"
  by (auto simp: copied_def)

lemma page_below:
  assumes "space_ok s root ub xs" "dst < ub"
  shows "unat dst + chunk dst n \<le> unat ub"
proof -
  have "aligned ub" using assms(1) by (simp add: space_ok_def)
  then have "4096 dvd unat ub" by (rule aligned_unat[THEN iffD1])
  then obtain m where m: "unat ub = 4096 * m" by blast
  define x o' where "x = unat dst div 4096" and "o' = unat dst mod 4096"
  have e: "unat dst = 4096 * x + o'" by (simp add: x_def o'_def)
  have "4096 * x < 4096 * m" using assms(2) m e by (simp add: word_less_nat_alt)
  then have "4096 * (x + 1) \<le> 4096 * m" by simp
  moreover have "o' + chunk dst n \<le> 4096" using chunk_fits[of dst n] by (simp add: unat_take12 o'_def)
  ultimately show ?thesis using m e by simp
qed

lemma range_avail_first:
  assumes "space_ok s root ub xs" "range_avail p s dst (length src)" "unat dst + length src \<le> unat ub" "src \<noteq> []"
    "3 * npages dst (length src) \<le> length xs"
  shows "dst < ub \<and> avail p s (PGROUNDDOWN dst) \<and> 3 \<le> length xs"
proof -
  have d: "dst < ub" using assms(3,4) by (cases src) (auto simp: word_less_nat_alt)
  then have va: "PGROUNDDOWN dst < MAXVA" using PGROUNDDOWN_le[of dst] space_okD(3)[OF assms(1)] by simp
  have "unat (PGROUNDDOWN dst) < unat dst + length src" using PGROUNDDOWN_le[of dst] assms(4) by (cases src) (auto simp: word_le_nat_alt)
  moreover have "1 \<le> npages dst (length src)" using next_page(5)[OF va, of "length src"] assms(4) by simp
  ultimately show ?thesis using assms(2,5) d va by (auto simp: range_avail_def)
qed

lemma range_avail_next:
  assumes "PGROUNDDOWN dst < MAXVA" "range_avail p s dst (length src)" "upt p = root"
    and "\<forall>vb. aligned vb \<longrightarrow> vb < MAXVA \<longrightarrow> vb \<noteq> PGROUNDDOWN dst \<longrightarrow> vleaf s2 root vb = vleaf s root vb"
    and "chunk dst (length src) < length src"
  shows "range_avail p s2 (next_page dst) (length src - chunk dst (length src))"
  unfolding range_avail_def
proof (intro allI impI)
  note nx = next_page[OF assms(1)]
  fix va assume va: "aligned va \<and> PGROUNDDOWN (next_page dst) \<le> va \<and> va < MAXVA
    \<and> unat va < unat (next_page dst) + (length src - chunk dst (length src))"
  then have gt: "PGROUNDDOWN dst < va" using nx(2) PGROUNDDOWN_aligned[OF nx(1)] by auto
  moreover have "unat va < unat dst + length src" using va nx(4)[OF assms(5)] assms(5) by simp
  ultimately have "avail p s va" using va assms(2) by (simp add: range_avail_def)
  moreover have "vleaf s2 root va = vleaf s root va" using assms(4) va gt by auto
  ultimately show "avail p s2 va" using avail_cong[of s2 p va s] assms(3) by simp
qed

lemma copied_trans:
  assumes "\<forall>a < ub. ubyte s2 root a = copied n dst src s root a"
    and "\<forall>a < ub. ubyte s3 root a = copied k dst' (drop n src) s2 root a"
    and "n \<le> length src" "k \<le> length src - n" "0 < k \<Longrightarrow> unat dst' = unat dst + n"
  shows "\<forall>a < ub. ubyte s3 root a = copied (n + k) dst src s root a"
proof (intro allI impI)
  fix a assume a: "a < ub"
  show "ubyte s3 root a = copied (n + k) dst src s root a"
  proof (cases "k = 0")
    case True
    then show ?thesis using assms(1,2) a by simp
  next
    case False
    then show ?thesis using assms a by (cases "unat a < unat dst + n") (auto simp: copied_def)
  qed
qed

lemma range_avail_join:
  assumes va: "PGROUNDDOWN dst < MAXVA" and first: "avail p s (PGROUNDDOWN dst)"
    and more: "0 < k \<Longrightarrow> range_avail p s2 (next_page dst) k \<and> unat (next_page dst) = unat dst + chunk dst n" and p: "upt p = root"
    and same: "\<forall>vb. aligned vb \<longrightarrow> vb < MAXVA \<longrightarrow> vb \<noteq> PGROUNDDOWN dst \<longrightarrow> vleaf s2 root vb = vleaf s root vb"
  shows "range_avail p s dst (chunk dst n + k)"
  unfolding range_avail_def
proof (intro allI impI)
  note nx = next_page[OF va]
  fix vb assume vb: "aligned vb \<and> PGROUNDDOWN dst \<le> vb \<and> vb < MAXVA \<and> unat vb < unat dst + (chunk dst n + k)"
  show "avail p s vb"
  proof (cases "vb = PGROUNDDOWN dst")
    case False
    then have lt: "unat (PGROUNDDOWN dst) < unat vb" using vb by (auto simp: word_le_nat_alt word_unat_eq_iff)
    have "4096 dvd unat vb" "4096 dvd unat (PGROUNDDOWN dst)" using vb aligned_unat aligned_PGROUNDDOWN by blast+
    then obtain x y where xy: "unat vb = 4096 * x" "unat (PGROUNDDOWN dst) = 4096 * y" by (elim dvdE)
    then have "y + 1 \<le> x" using lt by simp
    then have ge: "unat (next_page dst) \<le> unat vb" using xy nx(3) by simp
    have "unat dst + chunk dst n \<le> unat (next_page dst)"
      using page_split[of dst] chunk_fits[of dst n] nx(3) by simp
    then have k: "0 < k" using vb ge by (cases "k = 0") auto
    then have "avail p s2 vb" using more[OF k] vb ge PGROUNDDOWN_aligned[OF nx(1)] by (simp add: range_avail_def word_le_nat_alt)
    moreover have "vleaf s2 root vb = vleaf s root vb" using same vb False by blast
    ultimately show ?thesis using avail_cong[of s2 p vb s] p by simp
  qed (use first in simp)
qed

text \<open>One round of \<open>copyout\<close>: the page is written, or it stops.\<close>

lemma copyout_round:
  fixes dst :: u64
  assumes sp: "space_ok s root ub xs" and p: "upt p = root" "usz p \<le> ub" and ne: "src \<noteq> []"
  defines "n \<equiv> chunk dst (length src)"
  shows "(\<exists>s1 xs1. copyout p root dst src s = Ok (-1, s1) \<and> space_ext s root ub xs s1 xs1 \<and> length xs \<le> length xs1 + 3
        \<and> (\<forall>a < ub. ubyte s1 root a = ubyte s root a)
        \<and> \<not> (dst < ub \<and> avail p s (PGROUNDDOWN dst) \<and> 3 \<le> length xs))
    \<or> (\<exists>s2 xs1. copyout p root dst src s = copyout p root (next_page dst) (drop n src) s2
        \<and> space_ext s root ub xs s2 xs1 \<and> length xs \<le> length xs1 + 3 \<and> dst < ub \<and> avail p s (PGROUNDDOWN dst)
        \<and> (\<forall>a < ub. ubyte s2 root a = copied n dst src s root a)
        \<and> (\<forall>vb. aligned vb \<longrightarrow> vb < MAXVA \<longrightarrow> vb \<noteq> PGROUNDDOWN dst \<longrightarrow> vleaf s2 root vb = vleaf s root vb))"
proof -
  let ?d = "PGROUNDDOWN dst"
  note d = space_okD[OF sp]
  show ?thesis
  proof (cases "?d < MAXVA")
    case False
    then have "\<not> dst < ub" using PGROUNDDOWN_le[of dst] d(3) by auto
    then show ?thesis using False space_ext_refl[OF sp] ne by (auto simp: copyout_step not_less)
  next
    case va: True
    obtain pa s1 xs1 where u: "user_page p root ?d s = Ok (pa, s1)" "space_ext s root ub xs s1 xs1" "length xs \<le> length xs1 + 3"
      "\<forall>a < ub. ubyte s1 root a = ubyte s root a"
      "\<And>vb. aligned vb \<Longrightarrow> vb < MAXVA \<Longrightarrow> vb \<noteq> ?d \<Longrightarrow> vleaf s1 root vb = vleaf s root vb"
      "pa \<noteq> 0 \<Longrightarrow> uleaf s1 root ?d \<and> frame s1 root ?d = pa \<and> ?d < ub"
      "avail p s ?d \<and> 3 \<le> length xs \<Longrightarrow> pa \<noteq> 0 \<and> writable s1 root ?d" "pa \<noteq> 0 \<and> writable s1 root ?d \<Longrightarrow> avail p s ?d"
      using user_page_ok[OF sp p aligned_PGROUNDDOWN va] by blast
    have sp1: "space_ok s1 root ub xs1" using u(2) by (simp add: space_ext_def)
    show ?thesis
    proof (cases "pa \<noteq> 0 \<and> writable s1 root ?d")
      case False
      have "copyout p root dst src s = Ok (-1, s1)"
      proof (cases "pa = 0")
        case True
        then show ?thesis using ne va u(1) by (simp add: copyout_step not_le)
      next
        case pn: False
        then show ?thesis using walk_mapped[OF sp1 va] ne va u(1) u(6) False
          by (auto simp: copyout_step not_le writable_def uleaf_def)
      qed
      then show ?thesis using u(2,3,4,7) False by blast
    next
      case w: True
      note u6 = u(6)[OF conjunct1[OF w]]
      have du: "dst < ub" and mp: "mapped s1 root ?d" using u6 in_space[OF sp] by (auto simp: uleaf_def)
      define s2 where "s2 = s1\<lparr>phys := write_bytes (phys s1) (frame s1 root ?d + take_bit 12 dst) (take n src)\<rparr>"
      have n: "length (take n src) = n" by (simp add: n_def chunk_le)
      have fit: "unat (take_bit 12 dst) + length (take n src) \<le> 4096"
        using chunk_fits[of dst "length src"] n by (simp add: n_def)
      note wp = write_page[OF sp1 mp du fit, folded s2_def]
      have "copyout p root dst src s = copyout p root (next_page dst) (drop n src) s2"
        using walk_mapped[OF sp1 va mp] ne va u(1) u6 w
        by (auto simp: copyout_step not_le writable_def s2_def n_def)
      moreover have "ubyte s2 root a = copied n dst src s root a" if "a < ub" for a
        using wp(3)[OF that] u(4) that n by (auto simp: copied_def)
      ultimately show ?thesis using space_ext_trans[OF u(2) wp(1)] u(3,5) u(8)[OF w] wp(2) du
        by (intro disjI2 exI[of _ s2] exI[of _ xs1]) simp
    qed
  qed
qed

lemma copyout_ok:
  assumes "space_ok s root ub xs" "upt p = root" "usz p \<le> ub"
  shows "\<exists>r s' xs' k. copyout p root dst src s = Ok (r, s') \<and> space_ext s root ub xs s' xs' \<and> k \<le> length src
    \<and> length xs \<le> length xs' + 3 * npages dst (length src)
    \<and> r = (if k = length src then 0 else -1) \<and> (0 < k \<longrightarrow> unat dst + k \<le> unat ub)
    \<and> (\<forall>a < ub. ubyte s' root a = copied k dst src s root a) \<and> (0 < k \<longrightarrow> range_avail p s dst k)
    \<and> (range_avail p s dst (length src) \<and> unat dst + length src \<le> unat ub
        \<and> 3 * npages dst (length src) \<le> length xs \<longrightarrow> k = length src)"
  using assms
proof (induction "length src" arbitrary: dst src s xs rule: less_induct)
  case less
  let ?d = "PGROUNDDOWN dst" and ?n = "chunk dst (length src)"
  note sp = less.prems(1) and p = less.prems(2,3)
  show ?case
  proof (cases "src = []")
    case True
    then show ?thesis using space_ext_refl[OF sp] by (auto simp: copyout.simps)
  next
    case ne: False
    consider (stop) s1 xs1 where "copyout p root dst src s = Ok (-1, s1)" "space_ext s root ub xs s1 xs1"
        "\<forall>a < ub. ubyte s1 root a = ubyte s root a" "\<not> (dst < ub \<and> avail p s ?d \<and> 3 \<le> length xs)" "length xs \<le> length xs1 + 3"
      | (go) s2 xs1 where "copyout p root dst src s = copyout p root (next_page dst) (drop ?n src) s2"
        "space_ext s root ub xs s2 xs1" "length xs \<le> length xs1 + 3" "dst < ub"
        "\<forall>a < ub. ubyte s2 root a = copied ?n dst src s root a"
        "\<forall>vb. aligned vb \<longrightarrow> vb < MAXVA \<longrightarrow> vb \<noteq> ?d \<longrightarrow> vleaf s2 root vb = vleaf s root vb" "avail p s ?d"
      using copyout_round[OF sp p ne, where dst = dst] by blast
    then show ?thesis
    proof cases
      case stop
      have "\<not> (range_avail p s dst (length src) \<and> unat dst + length src \<le> unat ub \<and> 3 * npages dst (length src) \<le> length xs)"
        using stop(4) range_avail_first[OF sp, of p dst src] ne by blast
      moreover have "1 \<le> npages dst (length src)" using ne by (cases src) (auto simp: npages_def)
      ultimately show ?thesis using stop ne by (intro exI[of _ "-1"] exI[of _ s1] exI[of _ xs1] exI[of _ 0]) simp
    next
      case go
      have sp2: "space_ok s2 root ub xs1" using go(2) by (simp add: space_ext_def)
      have va: "?d < MAXVA" using go(4) space_okD(3)[OF sp] PGROUNDDOWN_le[of dst] by simp
      have "length (drop ?n src) < length src" using ne by (simp add: chunk_pos)
      from less.hyps[OF this sp2 p] obtain r s3 xs3 k where ih:
        "copyout p root (next_page dst) (drop ?n src) s2 = Ok (r, s3)" "space_ext s2 root ub xs1 s3 xs3" "k \<le> length (drop ?n src)"
        "length xs1 \<le> length xs3 + 3 * npages (next_page dst) (length (drop ?n src))"
        "r = (if k = length (drop ?n src) then 0 else -1)" "0 < k \<longrightarrow> unat (next_page dst) + k \<le> unat ub"
        "\<forall>a < ub. ubyte s3 root a = copied k (next_page dst) (drop ?n src) s2 root a"
        "range_avail p s2 (next_page dst) (length (drop ?n src)) \<and> unat (next_page dst) + length (drop ?n src) \<le> unat ub
          \<and> 3 * npages (next_page dst) (length (drop ?n src)) \<le> length xs1 \<longrightarrow> k = length (drop ?n src)"
        "0 < k \<longrightarrow> range_avail p s2 (next_page dst) k"
        by blast
      have n: "?n \<le> length src" by (simp add: chunk_le)
      have nk: "0 < k \<Longrightarrow> unat (next_page dst) = unat dst + ?n" using next_page(4)[OF va] ih(3) by simp
      have "range_avail p s dst (?n + k)"
        by (rule range_avail_join[OF va go(7) _ p(1) go(6)]) (use ih(9) nk in blast)
      moreover have "\<forall>a < ub. ubyte s3 root a = copied (?n + k) dst src s root a"
        using copied_trans[OF go(5) ih(7)] n ih(3) nk by simp
      moreover have "0 < ?n + k \<longrightarrow> unat dst + (?n + k) \<le> unat ub"
        using ih(6) nk page_below[OF sp go(4), of "length src"] by (cases "k = 0") auto
      moreover have "?n + k = length src"
        if "range_avail p s dst (length src)" "unat dst + length src \<le> unat ub" "3 * npages dst (length src) \<le> length xs"
        using range_avail_next[OF va that(1) p(1) go(6)] ih(3,8) that(2,3) next_page(4,5)[OF va, of "length src"] go(3) n ne
        by (cases "?n = length src") auto
      moreover have "length xs \<le> length xs3 + 3 * npages dst (length src)"
        using ih(4) go(3) next_page(5)[OF va, of "length src"] ne by simp
      ultimately show ?thesis using go(1) ih(1,3,5) space_ext_trans[OF go(2) ih(2)] n
        by (intro exI[of _ r] exI[of _ s3] exI[of _ xs3] exI[of _ "?n + k"]) auto
    qed
  qed
qed

section \<open>copyin\<close>

definition ubytes :: "'z kmem_state_scheme \<Rightarrow> u64 \<Rightarrow> u64 \<Rightarrow> nat \<Rightarrow> u8 list" where
  "ubytes s root a n = map (\<lambda>i. ubyte s root (a + of_nat i)) [0..<n]"

definition range_readable :: "uproc \<Rightarrow> 'z kmem_state_scheme \<Rightarrow> u64 \<Rightarrow> nat \<Rightarrow> bool" where
  "range_readable p s src n \<longleftrightarrow>
     (\<forall>va. aligned va \<and> PGROUNDDOWN src \<le> va \<and> va < MAXVA \<and> unat va < unat src + n \<longrightarrow> readable p s va)"

lemma length_ubytes [simp]: "length (ubytes s root a n) = n"
  by (simp add: ubytes_def)

lemma ubytes_cong:
  assumes "\<forall>a < ub. ubyte s1 root a = ubyte s root a" "0 < n \<Longrightarrow> unat src + n \<le> unat ub"
  shows "ubytes s1 root src n = ubytes s root src n"
  unfolding ubytes_def
proof (rule map_cong[OF refl])
  fix i assume "i \<in> set [0..<n]"
  then have i: "i < n" "unat src + n \<le> unat ub" using assms(2) by auto
  then have "unat (src + of_nat i) = unat src + i" using unat_lt_2_64[of ub] by (intro u64_nowrap) simp
  then have "src + of_nat i < ub" using i by (simp add: word_less_nat_alt)
  then show "ubyte s1 root (src + of_nat i) = ubyte s root (src + of_nat i)" using assms(1) by simp
qed

lemma ubytes_append: "ubytes s root a (n + k) = ubytes s root a n @ ubytes s root (a + of_nat n) k"
  unfolding ubytes_def upt_add_eq_append[OF le0] map_append
  by (intro arg_cong2[where f = append] refl nth_equalityI) (auto simp: algebra_simps)

lemma read_page:
  assumes sp: "space_ok s root ub xs" and m: "mapped s root (PGROUNDDOWN a)" and a: "a < ub"
    and n: "unat (take_bit 12 a) + n \<le> 4096"
  shows "read_bytes (phys s) (frame s root (PGROUNDDOWN a) + take_bit 12 a) n = ubytes s root a n"
  unfolding read_bytes_conv ubytes_def
proof (rule map_cong[OF refl])
  fix i assume "i \<in> set [0..<n]"
  then have i: "i < n" by simp
  have "unat a < unat MAXVA" using a space_okD(3)[OF sp] by (simp add: word_less_nat_alt[symmetric])
  then have u: "unat (a + of_nat i) = unat a + i" using i n by (intro u64_nowrap) (simp add: MAXVA_def)
  then have "PGROUNDDOWN (a + of_nat i) = PGROUNDDOWN a" using page_range[OF n, of "a + of_nat i"] i by simp
  moreover from this have "unat (take_bit 12 (a + of_nat i)) = unat (take_bit 12 a) + i"
    using page_split[of a] page_split[of "a + of_nat i"] u by simp
  then have "take_bit 12 (a + of_nat i) = take_bit 12 a + of_nat i"
    using u64_nowrap[of "take_bit 12 a" i] i n by (intro word_unat_eq_iff[THEN iffD2]) simp
  ultimately show "phys s (frame s root (PGROUNDDOWN a) + take_bit 12 a + of_nat i) = ubyte s root (a + of_nat i)"
    using m by (simp add: ubyte_def add.assoc)
qed

lemma copyin_step:
  assumes "0 < n"
  shows "copyin p pt src n s =
    bindR (user_page p pt (PGROUNDDOWN src) s) (\<lambda>(pa, s1).
       if pa = 0 then Ok (-1, [], s1)
       else bindR (copyin p pt (next_page src) (n - chunk src n) s1) (\<lambda>(r, cs, s2).
         Ok (r, read_bytes (phys s1) (pa + take_bit 12 src) (chunk src n) @ cs, s2)))"
  unfolding copyin.simps[of p pt src n s] Let_def user_page_def next_page_def minus_PGROUNDDOWN
  using assms by simp

lemma copyin_round:
  fixes src :: u64
  assumes sp: "space_ok s root ub xs" and p: "upt p = root" "usz p \<le> ub" and n0: "0 < n"
  defines "m \<equiv> chunk src n"
  shows "(\<exists>s1 xs1. copyin p root src n s = Ok (-1, [], s1) \<and> space_ext s root ub xs s1 xs1 \<and> length xs \<le> length xs1 + 3
        \<and> (\<forall>a < ub. ubyte s1 root a = ubyte s root a)
        \<and> \<not> (src < ub \<and> readable p s (PGROUNDDOWN src) \<and> 3 \<le> length xs))
    \<or> (\<exists>s1 xs1. copyin p root src n s = bindR (copyin p root (next_page src) (n - m) s1)
           (\<lambda>(r, cs, s2). Ok (r, ubytes s root src m @ cs, s2))
        \<and> space_ext s root ub xs s1 xs1 \<and> length xs \<le> length xs1 + 3 \<and> src < ub
        \<and> (\<forall>a < ub. ubyte s1 root a = ubyte s root a)
        \<and> (\<forall>vb. aligned vb \<longrightarrow> vb < MAXVA \<longrightarrow> vb \<noteq> PGROUNDDOWN src \<longrightarrow> vleaf s1 root vb = vleaf s root vb))"
proof -
  let ?d = "PGROUNDDOWN src"
  note d = space_okD[OF sp]
  show ?thesis
  proof (cases "?d < MAXVA")
    case False
    then have "\<not> src < ub" "\<not> ?d < usz p" using PGROUNDDOWN_le[of src] d(3) p(2) by auto
    then have "copyin p root src n s = Ok (-1, [], s)" "\<not> src < ub"
      using False n0 by (simp_all add: copyin_step user_page_def walkaddr_def vmfault_def not_less)
    then show ?thesis using space_ext_refl[OF sp] by (intro disjI1 exI[of _ s] exI[of _ xs]) simp
  next
    case va: True
    obtain pa s1 xs1 where u: "user_page p root ?d s = Ok (pa, s1)" "space_ext s root ub xs s1 xs1" "length xs \<le> length xs1 + 3"
      "\<forall>a < ub. ubyte s1 root a = ubyte s root a"
      "\<And>vb. aligned vb \<Longrightarrow> vb < MAXVA \<Longrightarrow> vb \<noteq> ?d \<Longrightarrow> vleaf s1 root vb = vleaf s root vb"
      "pa \<noteq> 0 \<Longrightarrow> uleaf s1 root ?d \<and> frame s1 root ?d = pa \<and> ?d < ub"
      "readable p s ?d \<and> 3 \<le> length xs \<Longrightarrow> pa \<noteq> 0"
      using user_page_ok[OF sp p aligned_PGROUNDDOWN va] by blast
    show ?thesis
    proof (cases "pa = 0")
      case True
      then show ?thesis using u(1-4,7) n0 by (intro disjI1 exI[of _ s1] exI[of _ xs1]) (auto simp: copyin_step)
    next
      case False
      note u6 = u(6)[OF False]
      have sp1: "space_ok s1 root ub xs1" using u(2) by (simp add: space_ext_def)
      have du: "src < ub" and mp: "mapped s1 root ?d" using u6 in_space[OF sp] by (auto simp: uleaf_def)
      have "read_bytes (phys s1) (pa + take_bit 12 src) m = ubytes s1 root src m"
        using read_page[OF sp1 mp du chunk_fits, of n] u6 by (simp add: m_def)
      moreover have "ubytes s1 root src m = ubytes s root src m"
        using page_below[OF sp du, of n] by (intro ubytes_cong[OF u(4)]) (simp add: m_def)
      ultimately show ?thesis using u False n0 du
        by (intro disjI2 exI[of _ s1] exI[of _ xs1]) (simp add: copyin_step m_def)
    qed
  qed
qed

lemma range_readable_first:
  assumes "space_ok s root ub xs" "range_readable p s src n" "unat src + n \<le> unat ub" "0 < n"
    "3 * npages src n \<le> length xs"
  shows "src < ub \<and> readable p s (PGROUNDDOWN src) \<and> 3 \<le> length xs"
proof -
  have d: "src < ub" using assms(3,4) by (simp add: word_less_nat_alt)
  then have va: "PGROUNDDOWN src < MAXVA" using PGROUNDDOWN_le[of src] space_okD(3)[OF assms(1)] by simp
  have "unat (PGROUNDDOWN src) < unat src + n" using PGROUNDDOWN_le[of src] assms(4) by (simp add: word_le_nat_alt)
  moreover have "1 \<le> npages src n" using next_page(5)[OF va, of n] assms(4) by simp
  ultimately show ?thesis using assms(2,5) d va by (auto simp: range_readable_def)
qed

lemma range_readable_next:
  assumes "PGROUNDDOWN src < MAXVA" "range_readable p s src n" "upt p = root"
    and "\<forall>vb. aligned vb \<longrightarrow> vb < MAXVA \<longrightarrow> vb \<noteq> PGROUNDDOWN src \<longrightarrow> vleaf s2 root vb = vleaf s root vb"
    and "chunk src n < n"
  shows "range_readable p s2 (next_page src) (n - chunk src n)"
  unfolding range_readable_def
proof (intro allI impI)
  note nx = next_page[OF assms(1)]
  fix va assume va: "aligned va \<and> PGROUNDDOWN (next_page src) \<le> va \<and> va < MAXVA
    \<and> unat va < unat (next_page src) + (n - chunk src n)"
  then have gt: "PGROUNDDOWN src < va" using nx(2) PGROUNDDOWN_aligned[OF nx(1)] by auto
  moreover have "unat va < unat src + n" using va nx(4)[OF assms(5)] assms(5) by simp
  ultimately have "readable p s va" using va assms(2) by (simp add: range_readable_def)
  moreover have "vleaf s2 root va = vleaf s root va" using assms(4) va gt by auto
  ultimately show "readable p s2 va" using assms(3) by (simp add: readable_def uleaf_def mapped_def)
qed

lemma copyin_ok:
  assumes "space_ok s root ub xs" "upt p = root" "usz p \<le> ub"
  shows "\<exists>r s' xs' k. copyin p root src n s = Ok (r, ubytes s root src k, s') \<and> space_ext s root ub xs s' xs' \<and> k \<le> n
    \<and> length xs \<le> length xs' + 3 * npages src n
    \<and> r = (if k = n then 0 else -1) \<and> (0 < k \<longrightarrow> unat src + k \<le> unat ub)
    \<and> (\<forall>a < ub. ubyte s' root a = ubyte s root a)
    \<and> (range_readable p s src n \<and> unat src + n \<le> unat ub \<and> 3 * npages src n \<le> length xs \<longrightarrow> k = n)"
  using assms
proof (induction n arbitrary: src s xs rule: less_induct)
  case (less n)
  let ?d = "PGROUNDDOWN src" and ?m = "chunk src n"
  note sp = less.prems(1) and p = less.prems(2,3)
  show ?case
  proof (cases "n = 0")
    case True
    then show ?thesis using space_ext_refl[OF sp] by (auto simp: copyin.simps ubytes_def)
  next
    case ne: False
    then have n0: "0 < n" by simp
    consider (stop) s1 xs1 where "copyin p root src n s = Ok (-1, [], s1)" "space_ext s root ub xs s1 xs1"
        "\<forall>a < ub. ubyte s1 root a = ubyte s root a" "\<not> (src < ub \<and> readable p s ?d \<and> 3 \<le> length xs)" "length xs \<le> length xs1 + 3"
      | (go) s1 xs1 where "copyin p root src n s = bindR (copyin p root (next_page src) (n - ?m) s1)
           (\<lambda>(r, cs, s2). Ok (r, ubytes s root src ?m @ cs, s2))"
        "space_ext s root ub xs s1 xs1" "length xs \<le> length xs1 + 3" "src < ub"
        "\<forall>a < ub. ubyte s1 root a = ubyte s root a"
        "\<forall>vb. aligned vb \<longrightarrow> vb < MAXVA \<longrightarrow> vb \<noteq> ?d \<longrightarrow> vleaf s1 root vb = vleaf s root vb"
      using copyin_round[OF sp p n0, where src = src] by blast
    then show ?thesis
    proof cases
      case stop
      have "\<not> (range_readable p s src n \<and> unat src + n \<le> unat ub \<and> 3 * npages src n \<le> length xs)"
        using stop(4) range_readable_first[OF sp, of p src n] n0 by blast
      moreover have "1 \<le> npages src n" using n0 by (simp add: npages_def)
      ultimately show ?thesis using stop ne
        by (intro exI[of _ "-1"] exI[of _ s1] exI[of _ xs1] exI[of _ 0]) (simp add: ubytes_def)
    next
      case go
      have sp1: "space_ok s1 root ub xs1" using go(2) by (simp add: space_ext_def)
      have va: "?d < MAXVA" using go(4) space_okD(3)[OF sp] PGROUNDDOWN_le[of src] by simp
      have "n - ?m < n" using n0 by (simp add: chunk_pos)
      from less.IH[OF this sp1 p] obtain r s3 xs3 k where ih:
        "copyin p root (next_page src) (n - ?m) s1 = Ok (r, ubytes s1 root (next_page src) k, s3)" "space_ext s1 root ub xs1 s3 xs3"
        "k \<le> n - ?m" "length xs1 \<le> length xs3 + 3 * npages (next_page src) (n - ?m)" "r = (if k = n - ?m then 0 else -1)" "0 < k \<longrightarrow> unat (next_page src) + k \<le> unat ub"
        "\<forall>a < ub. ubyte s3 root a = ubyte s1 root a"
        "range_readable p s1 (next_page src) (n - ?m) \<and> unat (next_page src) + (n - ?m) \<le> unat ub
          \<and> 3 * npages (next_page src) (n - ?m) \<le> length xs1 \<longrightarrow> k = n - ?m"
        by blast
      have m: "?m \<le> n" by (simp add: chunk_le)
      have nk: "0 < k \<Longrightarrow> unat (next_page src) = unat src + ?m" using next_page(4)[OF va] ih(3) by simp
      have b: "ubytes s root src ?m @ ubytes s1 root (next_page src) k = ubytes s root src (?m + k)"
      proof (cases "k = 0")
        case False
        then have "next_page src = src + of_nat ?m"
          using nk u64_nowrap[of src ?m] unat_lt_2_64[of "next_page src"] by (intro word_unat_eq_iff[THEN iffD2]) simp
        moreover have "ubytes s1 root (next_page src) k = ubytes s root (next_page src) k"
          using ih(6) by (intro ubytes_cong[OF go(5)]) simp
        ultimately show ?thesis by (simp add: ubytes_append)
      qed (simp add: ubytes_def)
      have "0 < ?m + k \<longrightarrow> unat src + (?m + k) \<le> unat ub"
        using ih(6) nk page_below[OF sp go(4), of n] by (cases "k = 0") auto
      moreover have "?m + k = n"
        if "range_readable p s src n" "unat src + n \<le> unat ub" "3 * npages src n \<le> length xs"
        using range_readable_next[OF va that(1) p(1) go(6)] ih(3,8) that(2,3) next_page(4,5)[OF va, of n] go(3) m n0
        by (cases "?m = n") auto
      moreover have "length xs \<le> length xs3 + 3 * npages src n"
        using ih(4) go(3) next_page(5)[OF va, of n] n0 by simp
      ultimately show ?thesis using go(1,5) ih(1,3,5,7) space_ext_trans[OF go(2) ih(2)] m b
        by (intro exI[of _ r] exI[of _ s3] exI[of _ xs3] exI[of _ "?m + k"]) auto
    qed
  qed
qed

section \<open>Unmapping a range\<close>

lemma unmap_frame_leaves:
  assumes sp: "space_ok s root ub xs" and va: "aligned va" "va < ub" "mapped s root va"
    and f: "f = frame s root va" and k: "kend s' = kend s" and t: "tables (phys s') root = tables (phys s) root"
    and o: "same_outside (set xs \<union> tables (phys s) root \<union> {f}) (phys s) (phys s')" and inv: "vm_inv s' root (xs @ [f])"
    and v: "\<And>vb. aligned vb \<Longrightarrow> vb < MAXVA \<Longrightarrow> vleaf s' root vb = (if vb = va then 0 else vleaf s root vb)"
  shows "space_ext s root ub xs s' (xs @ [f])"
    "\<And>vb. aligned vb \<Longrightarrow> vb < MAXVA \<Longrightarrow> mapped s' root vb = (mapped s root vb \<and> vb \<noteq> va)"
    "\<And>a. a < ub \<Longrightarrow> PGROUNDDOWN a \<noteq> va \<Longrightarrow> ubyte s' root a = ubyte s root a"
proof -
  note d = space_okD[OF sp]
  have ubm: "vb < MAXVA" if "vb < ub" for vb using that d(3) by simp
  have fi: "f \<in> frames s root ub" "va \<in> upages s root ub" using upages_frame[OF va] va f by (auto simp: upages_def)
  have mp: "mapped s' root vb = (mapped s root vb \<and> vb \<noteq> va)" "vb \<noteq> va \<Longrightarrow> frame s' root vb = frame s root vb"
    if "aligned vb" "vb < MAXVA" for vb using v[OF that] by (simp_all add: mapped_def frame_def)
  show "mapped s' root vb = (mapped s root vb \<and> vb \<noteq> va)" if "aligned vb" "vb < MAXVA" for vb by (rule mp(1)[OF that])
  have up: "upages s' root ub = upages s root ub - {va}" using mp(1) ubm by (auto simp: upages_def)
  have inj: "inj_on (frame s root) (upages s root ub)" using sp by (simp add: space_ok_def)
  have same: "frame s' root x = frame s root x" if "x \<in> upages s root ub - {va}" for x
    using that mp(2)[of x] ubm by (auto simp: upages_def)
  have fr: "frames s' root ub = frames s root ub - {f}"
    using inj_on_image_set_diff[OF inj, of "upages s root ub" "{va}"] image_cong[OF refl same, of "upages s root ub - {va}"] fi(2)
    unfolding frames_def up f by simp
  have "inj_on (frame s' root) (upages s root ub - {va})"
    using inj_on_cong[OF same, of "upages s root ub - {va}"] inj_on_diff[OF inj] by simp
  then have "space_ok s' root ub (xs @ [f])"
    using sp inv v mp(1) t page_ok_kend[OF k] va(2) unfolding space_ok_def up fr by auto
  moreover have "same_outside (own s root ub \<union> set xs) (phys s) (phys s')"
    by (rule same_outside_mono[OF o]) (use fi in \<open>auto simp: own_def\<close>)
  ultimately show "space_ext s root ub xs s' (xs @ [f])"
    using k t fr fi by (auto simp: space_ext_def own_def)
  fix a assume a: "a < ub" "PGROUNDDOWN a \<noteq> va"
  let ?q = "PGROUNDDOWN a"
  have q: "?q < ub" using in_space[OF sp] a(1) by simp
  have "phys s' (frame s root ?q + take_bit 12 a) = phys s (frame s root ?q + take_bit 12 a)" if m: "mapped s root ?q"
  proof (rule same_outside_at[OF o])
    have g: "frame s root ?q \<in> frames s root ub" "?q \<in> upages s root ub"
      using upages_frame[OF _ q m] q m by (auto simp: upages_def)
    then show "aligned (frame s root ?q)" using d(6) by (simp add: own_def)
    have "frame s root ?q \<noteq> f" using inj g(2) fi(2) a(2) f by (auto simp: inj_on_def)
    then show "frame s root ?q \<notin> set xs \<union> tables (phys s) root \<union> {f}" using g(1) sp by (auto simp: space_ok_def)
  qed (use d(5,6) fi in \<open>auto simp: own_def\<close>)
  then show "ubyte s' root a = ubyte s root a" using mp[of ?q] q ubm a(2) by (auto simp: ubyte_def)
qed

lemma uvmunmap_page_space:
  assumes sp: "space_ok s root ub xs" and va: "aligned va" "va < ub"
  shows "\<exists>s'. uvmunmap_page root va True s = Ok s'
    \<and> space_ext s root ub xs s' (if mapped s root va then xs @ [frame s root va] else xs)
    \<and> (\<forall>vb. aligned vb \<longrightarrow> vb < MAXVA \<longrightarrow> mapped s' root vb = (mapped s root vb \<and> vb \<noteq> va)
         \<and> (vb \<noteq> va \<longrightarrow> vleaf s' root vb = vleaf s root vb))
    \<and> (\<forall>a < ub. PGROUNDDOWN a \<noteq> va \<longrightarrow> ubyte s' root a = ubyte s root a)"
proof -
  note d = space_okD[OF sp]
  have vm: "va < MAXVA" using va(2) d(3) by simp
  let ?f = "frame s root va"
  have f: "page_ok s ?f \<and> ?f \<notin> set xs \<and> ?f \<notin> tables (phys s) root" if "mapped s root va"
    using upages_frame[OF va that] sp by (auto simp: space_ok_def)
  obtain s' where s': "uvmunmap_page root va True s = Ok s'" "kend s' = kend s" "tables (phys s') root = tables (phys s) root"
    "if vleaf s root va AND PTE_V = 0 then s' = s
     else same_outside (set xs \<union> tables (phys s) root \<union> {?f}) (phys s) (phys s')
       \<and> vm_inv s' root (xs @ [?f])
       \<and> (\<forall>vb. aligned vb \<longrightarrow> vb < MAXVA \<longrightarrow> vleaf s' root vb = (if vb = va then 0 else vleaf s root vb))"
    using unmap_page[OF d(1) va(1) vm, of True, unfolded if_True] f unfolding mapped_def frame_def by blast
  show ?thesis
  proof (cases "mapped s root va")
    case False
    then have "s' = s" using s'(4) by (simp add: mapped_def)
    then show ?thesis using s'(1) False space_ext_refl[OF sp] by auto
  next
    case True
    have o: "same_outside (set xs \<union> tables (phys s) root \<union> {?f}) (phys s) (phys s')" and inv: "vm_inv s' root (xs @ [?f])"
      and v: "\<And>vb. aligned vb \<Longrightarrow> vb < MAXVA \<Longrightarrow> vleaf s' root vb = (if vb = va then 0 else vleaf s root vb)"
      using s'(4) True by (auto simp: mapped_def split: if_split_asm)
    note u = unmap_frame_leaves[OF sp va True refl s'(2,3) o inv v]
    show ?thesis using s'(1) True u v by auto
  qed
qed

text \<open>The physical pages of the range \<open>[a, e)\<close>, in order.\<close>

definition pages_between :: "u64 \<Rightarrow> u64 \<Rightarrow> u64 list" where
  "pages_between a e = map (\<lambda>i. a + of_nat (4096 * i)) [0..<(unat e - unat a) div 4096]"

definition frames_between :: "'z kmem_state_scheme \<Rightarrow> u64 \<Rightarrow> u64 \<Rightarrow> u64 \<Rightarrow> u64 list" where
  "frames_between s root a e = map (frame s root) (filter (mapped s root) (pages_between a e))"

lemma next_aligned:
  assumes "aligned a" "aligned e" "a < e"
  shows "aligned (a + PGSIZE)" "a + PGSIZE \<le> e" "unat (a + PGSIZE) = unat a + 4096" "a < a + PGSIZE"
    "pages_between a e = a # pages_between (a + PGSIZE) e"
proof -
  obtain x y where xy: "unat a = 4096 * x" "unat e = 4096 * y"
    using assms(1,2) unfolding aligned_unat by (elim dvdE)
  then have lt: "x < y" using assms(3) by (simp add: word_less_nat_alt)
  then have le: "unat a + 4096 \<le> unat e" using xy by simp
  then show u: "unat (a + PGSIZE) = unat a + 4096"
    using u64_nowrap[of a 4096] unat_lt_2_64[of e] by (simp add: PGSIZE_def)
  show "aligned (a + PGSIZE)" unfolding aligned_unat u xy by simp
  show "a + PGSIZE \<le> e" "a < a + PGSIZE" using le u by (simp_all add: word_le_nat_alt word_less_nat_alt)
  have "(unat e - unat a) div 4096 = Suc ((unat e - unat (a + PGSIZE)) div 4096)"
    using lt unfolding u xy by (simp add: right_diff_distrib' [symmetric] Suc_diff_le)
  moreover have "[0..<Suc k] = 0 # map Suc [0..<k]" for k by (simp add: upt_conv_Cons map_Suc_upt del: upt_Suc)
  ultimately show "pages_between a e = a # pages_between (a + PGSIZE) e"
    by (simp add: pages_between_def PGSIZE_def algebra_simps del: upt_Suc)
qed

lemma aligned_step:
  assumes "aligned x" "aligned y" "x < y" shows "x + PGSIZE \<le> y"
  using next_aligned(2)[OF assms] .

lemma page_before_next:
  assumes "aligned a" "aligned e" "a < e" "aligned vb"
  shows "vb < a + PGSIZE \<longleftrightarrow> vb < a \<or> vb = a"
proof -
  note n = next_aligned[OF assms(1-3)]
  show ?thesis
  proof (cases "a < vb")
    case True
    have "a + PGSIZE \<le> vb" by (rule aligned_step[OF assms(1,4) True])
    then show ?thesis using True by auto
  next
    case False
    then show ?thesis using n(4) by auto
  qed
qed

lemma pages_between_bounds:
  assumes "aligned a" "aligned e" "va \<in> set (pages_between a e)"
  shows "aligned va" "a \<le> va" "va < e"
proof -
  obtain i where i: "va = a + of_nat (4096 * i)" "i < (unat e - unat a) div 4096"
    using assms(3) by (auto simp: pages_between_def)
  have "4096 * i + 4096 \<le> unat e - unat a" using i(2) by (simp add: less_eq_div_iff_mult_less_eq[symmetric] Suc_le_eq[symmetric])
  then have le: "unat a + 4096 * i < unat e" by simp
  then have u: "unat va = unat a + 4096 * i" unfolding i(1) using unat_lt_2_64[of e] by (intro u64_nowrap) simp
  then show "a \<le> va" "va < e" using le by (simp_all add: word_le_nat_alt word_less_nat_alt)
  show "aligned va" using assms(1) unfolding aligned_unat u by simp
qed

lemma frames_between_cong:
  assumes "aligned a" "aligned e" "\<And>vb. aligned vb \<Longrightarrow> a \<le> vb \<Longrightarrow> vb < e \<Longrightarrow> vleaf s1 root vb = vleaf s root vb"
  shows "frames_between s1 root a e = frames_between s root a e"
  unfolding frames_between_def
  by (intro map_cong filter_cong refl)
    (use assms(3) pages_between_bounds[OF assms(1,2)] in \<open>auto simp: mapped_def frame_def\<close>)

lemma uvmunmap_loop_space:
  assumes "space_ok s root ub xs" "aligned a" "aligned e" "a \<le> e" "e \<le> ub"
  shows "\<exists>s'. uvmunmap_loop root a e True s = Some (Ok s')
    \<and> space_ext s root ub xs s' (xs @ frames_between s root a e)
    \<and> (\<forall>vb. aligned vb \<longrightarrow> vb < MAXVA \<longrightarrow> mapped s' root vb = (mapped s root vb \<and> \<not> (a \<le> vb \<and> vb < e))
         \<and> (\<not> (a \<le> vb \<and> vb < e) \<longrightarrow> vleaf s' root vb = vleaf s root vb))
    \<and> (\<forall>x < ub. \<not> (a \<le> PGROUNDDOWN x \<and> PGROUNDDOWN x < e) \<longrightarrow> ubyte s' root x = ubyte s root x)"
  using assms
proof (induction "unat e - unat a" arbitrary: a s xs rule: less_induct)
  case less
  note sp = less.prems(1)
  show ?case
  proof (cases "a < e")
    case False
    then have "a = e" using less.prems(4) by simp
    moreover have "frames_between s root e e = []" by (simp add: frames_between_def pages_between_def)
    ultimately show ?thesis using space_ext_refl[OF sp] by (subst uvmunmap_loop.simps) auto
  next
    case lt: True
    note n = next_aligned[OF less.prems(2,3) lt]
    have au: "a < ub" using lt less.prems(5) by simp
    note d = space_okD[OF sp]
    obtain s1 where s1: "uvmunmap_page root a True s = Ok s1"
      "space_ext s root ub xs s1 (if mapped s root a then xs @ [frame s root a] else xs)"
      "\<forall>vb. aligned vb \<longrightarrow> vb < MAXVA \<longrightarrow> mapped s1 root vb = (mapped s root vb \<and> vb \<noteq> a)
         \<and> (vb \<noteq> a \<longrightarrow> vleaf s1 root vb = vleaf s root vb)"
      "\<forall>x < ub. PGROUNDDOWN x \<noteq> a \<longrightarrow> ubyte s1 root x = ubyte s root x"
      using uvmunmap_page_space[OF sp less.prems(2) au] by blast
    let ?xs = "if mapped s root a then xs @ [frame s root a] else xs"
    have sp1: "space_ok s1 root ub ?xs" using s1(2) by (simp add: space_ext_def)
    have "unat e - unat (a + PGSIZE) < unat e - unat a" using n(3) lt by (simp add: word_less_nat_alt)
    from less.hyps[OF this sp1 n(1) less.prems(3) n(2) less.prems(5)] obtain s2 where s2:
      "uvmunmap_loop root (a + PGSIZE) e True s1 = Some (Ok s2)"
      "space_ext s1 root ub ?xs s2 (?xs @ frames_between s1 root (a + PGSIZE) e)"
      "\<forall>vb. aligned vb \<longrightarrow> vb < MAXVA \<longrightarrow> mapped s2 root vb = (mapped s1 root vb \<and> \<not> (a + PGSIZE \<le> vb \<and> vb < e))
         \<and> (\<not> (a + PGSIZE \<le> vb \<and> vb < e) \<longrightarrow> vleaf s2 root vb = vleaf s1 root vb)"
      "\<forall>x < ub. \<not> (a + PGSIZE \<le> PGROUNDDOWN x \<and> PGROUNDDOWN x < e) \<longrightarrow> ubyte s2 root x = ubyte s1 root x"
      by blast
    have r: "a + PGSIZE \<le> vb \<longleftrightarrow> a \<le> vb \<and> vb \<noteq> a" if "aligned vb" for vb
      using page_before_next[OF less.prems(2,3) lt that] by (auto simp: not_less[symmetric])
    have "frames_between s1 root (a + PGSIZE) e = frames_between s root (a + PGSIZE) e"
    proof (rule frames_between_cong[OF n(1) less.prems(3)])
      fix vb assume b: "aligned vb" "a + PGSIZE \<le> vb" "vb < e"
      then have "vb < MAXVA" "vb \<noteq> a" using less.prems(5) d(3) r by auto
      then show "vleaf s1 root vb = vleaf s root vb" using s1(3) b(1) by simp
    qed
    then have fr: "?xs @ frames_between s1 root (a + PGSIZE) e = xs @ frames_between s root a e"
      using n(5) by (simp add: frames_between_def)
    have "uvmunmap_loop root a e True s = Some (Ok s2)" using lt s1(1) s2(1) by (subst uvmunmap_loop.simps) simp
    moreover have "space_ext s root ub xs s2 (xs @ frames_between s root a e)"
      using space_ext_trans[OF s1(2) s2(2)[unfolded fr]] .
    moreover have "mapped s2 root vb = (mapped s root vb \<and> \<not> (a \<le> vb \<and> vb < e))
         \<and> (\<not> (a \<le> vb \<and> vb < e) \<longrightarrow> vleaf s2 root vb = vleaf s root vb)" if "aligned vb" "vb < MAXVA" for vb
      using s1(3) s2(3) that r[OF that(1)] lt by (cases "vb = a") auto
    moreover have "ubyte s2 root x = ubyte s root x" if "x < ub" "\<not> (a \<le> PGROUNDDOWN x \<and> PGROUNDDOWN x < e)" for x
      using s1(4) s2(4) that r[of "PGROUNDDOWN x"] lt by (cases "PGROUNDDOWN x = a") auto
    ultimately show ?thesis by (intro exI[of _ s2]) simp
  qed
qed

lemma uvmunmap_range_ok:
  assumes "space_ok s root ub xs" "aligned va" "unat va + 4096 * n \<le> unat ub"
  defines "e \<equiv> va + of_nat (4096 * n)"
  shows "\<exists>s'. uvmunmap root va (of_nat n) True s = Ok s'
    \<and> space_ext s root ub xs s' (xs @ frames_between s root va e)
    \<and> (\<forall>vb. aligned vb \<and> vb < MAXVA \<longrightarrow> mapped s' root vb = (mapped s root vb \<and> \<not> (va \<le> vb \<and> vb < e)))
    \<and> (\<forall>x < ub. \<not> (va \<le> x \<and> x < e) \<longrightarrow> ubyte s' root x = ubyte s root x)"
proof -
  have u: "unat e = unat va + 4096 * n" unfolding e_def using assms(3) unat_lt_2_64[of ub] by (intro u64_nowrap) simp
  have al: "aligned e" using assms(2) unfolding aligned_unat u by simp
  have le: "va \<le> e" "e \<le> ub" using u assms(3) by (simp_all add: word_le_nat_alt)
  have pg: "va \<le> PGROUNDDOWN x \<and> PGROUNDDOWN x < e \<longleftrightarrow> va \<le> x \<and> x < e" for x
  proof -
    obtain k j where kj: "unat va = 4096 * k" "unat e = 4096 * j" using assms(2) al unfolding aligned_unat by (elim dvdE)
    have "4096 * k \<le> unat x div 4096 * 4096 \<longleftrightarrow> 4096 * k \<le> unat x"
      using less_eq_div_iff_mult_less_eq[of 4096 k "unat x"] by (simp add: mult.commute)
    moreover have "unat x div 4096 * 4096 < 4096 * j \<longleftrightarrow> unat x < 4096 * j"
      using div_less_iff_less_mult[of 4096 "unat x" j] by (simp add: mult.commute)
    ultimately show ?thesis unfolding word_le_nat_alt word_less_nat_alt unat_PGROUNDDOWN kj by simp
  qed
  have "va mod PGSIZE = 0" using assms(2) by (simp add: aligned_mod_PGSIZE)
  moreover have "va + of_nat n * PGSIZE = e" by (simp add: e_def PGSIZE_def mult.commute)
  ultimately show ?thesis
    using uvmunmap_loop_space[OF assms(1,2) al le] unfolding pg by (auto simp: uvmunmap_def)
qed

section \<open>uvmcopy\<close>

lemma memmove_page:
  assumes "page_ok s f" "page_ok s g" "f \<noteq> g"
  shows "memmove m f g 4096 (f + take_bit 12 a) = m (g + take_bit 12 a)" "same_outside {f} m (memmove m f g 4096)"
proof -
  have b: "unat p + 4096 < 2 ^ 64" if "page_ok s p" for p
    using that by (simp add: page_ok_def PHYSTOP_def word_less_nat_alt)
  have mv: "memmove m f g 4096 = moved m f g 4096"
    using memmove_moved[of 4096 g f m] b[OF assms(1)] b[OF assms(2)] by simp
  have u: "unat (f + take_bit 12 a) = unat f + unat (take_bit 12 a)"
    using u64_nowrap[of f "unat (take_bit 12 a)"] b[OF assms(1)] take12_less[of a] by simp
  show "memmove m f g 4096 (f + take_bit 12 a) = m (g + take_bit 12 a)"
    unfolding mv moved_def u using take12_less[of a] by simp
  show "same_outside {f} m (memmove m f g 4096)"
    unfolding mv same_outside_def
  proof (intro allI impI)
    fix x assume x: "page_of x \<notin> page_of ` {f}"
    have "\<not> (unat f \<le> unat x \<and> unat x < unat f + 4096)"
    proof
      assume i: "unat f \<le> unat x \<and> unat x < unat f + 4096"
      have "x = f + of_nat (unat x - unat f)" using i by (simp add: of_nat_diff)
      then have "page_of x = page_of f"
        using page_of_offset[of f "unat x - unat f"] assms(1) i by (auto simp: page_ok_def)
      then show False using x by simp
    qed
    then show "moved m f g 4096 x = m x" by (auto simp: moved_def)
  qed
qed

lemma PTE_FLAGS_less: "PTE_FLAGS w < 1024"
proof -
  have "PTE_FLAGS w = take_bit 10 w" by (simp add: PTE_FLAGS_def take_bit_eq_mask mask_eq_exp_minus_1)
  then show ?thesis using take_bit_nat_less_exp[of 10 "unat w"] by (simp add: word_less_nat_alt unsigned_take_bit_eq)
qed

lemma PTE_FLAGS_new: "w AND PTE_V \<noteq> 0 \<Longrightarrow> PTE_FLAGS (PA2PTE f OR PTE_FLAGS w OR PTE_V) = PTE_FLAGS w"
proof -
  assume w: "w AND PTE_V \<noteq> 0"
  have f: "PTE_FLAGS v = take_bit 10 v" for v by (simp add: PTE_FLAGS_def take_bit_eq_mask mask_eq_exp_minus_1)
  have "bit w 0" using w by (simp add: PTE_V_def and_one_eq odd_iff_mod_2_eq_one[symmetric] bit_0)
  then show ?thesis unfolding f by (intro bit_eqI) (auto simp: bit_simps PA2PTE_def PTE_V_def bit_1_iff)
qed

text \<open>How far the copy is: below \<open>i\<close> the child has what the parent has, from \<open>i\<close> on nothing.\<close>

definition forked ::
    "'z kmem_state_scheme \<Rightarrow> u64 \<Rightarrow> u64 \<Rightarrow> u64 \<Rightarrow> u64 list \<Rightarrow> u64 \<Rightarrow> 'z kmem_state_scheme \<Rightarrow> bool" where
  "forked s0 old new ub xs i s \<longleftrightarrow> space_ok s old ub xs \<and> space_ok s new ub xs \<and> own s old ub \<inter> own s new ub = {}
     \<and> (\<forall>va. vleaf s old va = vleaf s0 old va) \<and> (\<forall>a < ub. ubyte s old a = ubyte s0 old a)
     \<and> (\<forall>va. aligned va \<and> va < ub \<longrightarrow> mapped s new va = (mapped s0 old va \<and> va < i)
          \<and> (mapped s0 old va \<and> va < i \<longrightarrow> PTE_FLAGS (vleaf s new va) = PTE_FLAGS (vleaf s0 old va)))
     \<and> (\<forall>a < ub. ubyte s new a = (if PGROUNDDOWN a < i then ubyte s0 old a else 0))"

lemma forked_skip:
  assumes fk: "forked s0 old new ub xs i s" and i: "aligned i" "i < ub" "\<not> mapped s old i"
  shows "forked s0 old new ub xs (i + PGSIZE) s"
proof -
  have ub: "aligned ub" using fk by (simp add: forked_def space_ok_def)
  have lt: "va < i + PGSIZE \<longleftrightarrow> va < i \<or> va = i" if "aligned va" for va
    by (rule page_before_next[OF i(1) ub i(2) that])
  have n: "\<not> mapped s0 old i" using i(3) fk by (simp add: forked_def mapped_def)
  have "ubyte s0 old a = 0" if "PGROUNDDOWN a = i" for a using that n by (simp add: ubyte_def)
  then show ?thesis using fk lt lt[OF aligned_PGROUNDDOWN] n unfolding forked_def by auto
qed

lemma forked_page:
  assumes fk: "forked s0 old new ub (f # xs) i s" and i: "aligned i" "i < ub" "mapped s old i"
    and ext: "space_ext s new ub (f # xs) s' xs'"
    and v: "\<forall>vb. aligned vb \<longrightarrow> vb < MAXVA \<longrightarrow>
       vleaf s' new vb = (if vb = i then PA2PTE f OR PTE_FLAGS (vleaf s old i) OR PTE_V else vleaf s new vb)"
    and b: "\<forall>a < ub. ubyte s' new a = (if PGROUNDDOWN a = i then ubyte s old a else ubyte s new a)"
  shows "forked s0 old new ub xs' (i + PGSIZE) s'"
proof -
  have sp: "space_ok s old ub (f # xs)" "space_ok s new ub (f # xs)" "own s new ub \<inter> own s old ub = {}"
    using fk by (auto simp: forked_def)
  note o = space_ext_other[OF ext sp(2,1,3)]
  have ub: "aligned ub" "ub \<le> MAXVA" using sp by (simp_all add: space_ok_def)
  have lt: "va < i + PGSIZE \<longleftrightarrow> va < i \<or> va = i" if "aligned va" for va
    by (rule page_before_next[OF i(1) ub(1) i(2) that])
  have s0: "vleaf s old va = vleaf s0 old va" for va using fk by (simp add: forked_def)
  have m0: "mapped s0 old i" using i(3) s0 by (simp add: mapped_def)
  have fl: "PTE_FLAGS (PA2PTE f OR PTE_FLAGS (vleaf s0 old i) OR PTE_V) = PTE_FLAGS (vleaf s0 old i)"
    using m0 by (intro PTE_FLAGS_new) (simp add: mapped_def)
  have mp: "(PA2PTE f OR w OR PTE_V) AND PTE_V \<noteq> 0" for w using PTE_V_or[of "PA2PTE f OR w"] unfolding or.assoc .
  have "mapped s' new va = (mapped s0 old va \<and> va < i + PGSIZE)
      \<and> (mapped s0 old va \<and> va < i + PGSIZE \<longrightarrow> PTE_FLAGS (vleaf s' new va) = PTE_FLAGS (vleaf s0 old va))"
    if va: "aligned va" "va < ub" for va
  proof -
    have nv: "vleaf s' new va = (if va = i then PA2PTE f OR PTE_FLAGS (vleaf s0 old i) OR PTE_V else vleaf s new va)"
      using v va ub(2) s0 by simp
    have c: "mapped s new va = (mapped s0 old va \<and> va < i)"
      "mapped s0 old va \<and> va < i \<longrightarrow> PTE_FLAGS (vleaf s new va) = PTE_FLAGS (vleaf s0 old va)"
      using fk va by (auto simp: forked_def)
    show ?thesis using nv c fl mp m0 lt[OF va(1)] by (cases "va = i") (auto simp: mapped_def)
  qed
  moreover have "ubyte s' new a = (if PGROUNDDOWN a < i + PGSIZE then ubyte s0 old a else 0)" if "a < ub" for a
    using b fk that lt[OF aligned_PGROUNDDOWN[of a]] by (auto simp: forked_def)
  moreover have "space_ok s' new ub xs'" using ext by (simp add: space_ext_def)
  ultimately show ?thesis using o s0 fk unfolding forked_def by (simp add: Int_commute)
qed

text \<open>The error exit gives back what was copied.\<close>

definition unforked ::
    "'z kmem_state_scheme \<Rightarrow> u64 \<Rightarrow> u64 \<Rightarrow> u64 \<Rightarrow> u64 list \<Rightarrow> 'z kmem_state_scheme \<Rightarrow> bool" where
  "unforked s0 old new ub xs s \<longleftrightarrow> space_ok s old ub xs \<and> space_ok s new ub xs \<and> own s old ub \<inter> own s new ub = {}
     \<and> (\<forall>va. vleaf s old va = vleaf s0 old va) \<and> (\<forall>a < ub. ubyte s old a = ubyte s0 old a)
     \<and> (\<forall>va. aligned va \<and> va < ub \<longrightarrow> \<not> mapped s new va)"

lemma aligned_count: "aligned i \<Longrightarrow> i div PGSIZE = of_nat (unat i div 4096) \<and> 4096 * (unat i div 4096) = unat i"
proof -
  assume "aligned i"
  then have "4096 dvd unat i" by (rule aligned_unat[THEN iffD1])
  moreover have "unat (of_nat (unat i div 4096) :: u64) = unat i div 4096"
    using div_le_dividend[of "unat i" 4096] unat_lt_2_64[of i] by (simp add: unsigned_of_nat take_bit_nat_eq_self)
  ultimately show ?thesis by (simp add: word_unat_eq_iff unat_div PGSIZE_def)
qed

lemma uvmcopy_undo:
  assumes sp: "space_ok s old ub xs" "space_ok s new ub xs" "own s old ub \<inter> own s new ub = {}"
    and o: "\<forall>va. vleaf s old va = vleaf s0 old va" "\<forall>a < ub. ubyte s old a = ubyte s0 old a"
    and n: "\<forall>va. aligned va \<and> va < ub \<longrightarrow> mapped s new va \<longrightarrow> va < i" and i: "aligned i" "i \<le> ub"
  shows "\<exists>s' xs'. uvmunmap new 0 (i div PGSIZE) True s = Ok s' \<and> unforked s0 old new ub xs' s'"
proof -
  let ?n = "unat i div 4096"
  note c = aligned_count[OF i(1)]
  have le: "unat 0 + 4096 * ?n \<le> unat ub" using c i(2) by (simp add: word_le_nat_alt)
  obtain s' xs' where u: "uvmunmap new 0 (i div PGSIZE) True s = Ok s'" "space_ext s new ub xs s' xs'"
    "\<forall>vb. aligned vb \<and> vb < MAXVA \<longrightarrow> mapped s' new vb = (mapped s new vb \<and> \<not> vb < i)"
    using uvmunmap_range_ok[OF sp(2) _ le] c by auto
  note e = space_ext_other[OF u(2) sp(2,1)]
  have "own s new ub \<inter> own s old ub = {}" using sp(3) by blast
  note e = e[OF this]
  have "va < MAXVA" if "va < ub" for va using that space_okD(3)[OF sp(2)] by simp
  then have "\<forall>va. aligned va \<and> va < ub \<longrightarrow> \<not> mapped s' new va" using u(3) n by auto
  then have "unforked s0 old new ub xs' s'"
    using e o u(2) by (auto simp: unforked_def space_ext_def)
  then show ?thesis using u(1) by blast
qed

lemma forkedD:
  assumes "forked s0 old new ub xs i s"
  shows "space_ok s old ub xs" "space_ok s new ub xs" "own s old ub \<inter> own s new ub = {}" "own s new ub \<inter> own s old ub = {}"
    "\<forall>va. vleaf s old va = vleaf s0 old va" "\<forall>a < ub. ubyte s old a = ubyte s0 old a"
    "\<forall>va. aligned va \<and> va < ub \<longrightarrow> mapped s new va \<longrightarrow> va < i" "aligned i \<Longrightarrow> i < ub \<Longrightarrow> \<not> mapped s new i"
  using assms by (auto simp: forked_def)

text \<open>The copy of a page, in the page \<open>f\<close> just allocated.\<close>

lemma page_copy:
  assumes sp: "space_ok s old ub (f # ys)" and i: "aligned i" "i < ub" "mapped s old i"
  defines "m \<equiv> memmove (phys (snd (kalloc s))) f (frame s old i) 4096"
  shows "same_outside {f} (phys s) m" "\<And>a. PGROUNDDOWN a = i \<Longrightarrow> m (f + take_bit 12 a) = ubyte s old a"
proof -
  let ?g = "frame s old i"
  have ph: "phys (snd (kalloc s)) = memset (phys s) f 5 4096" using kalloc_dequeue[OF space_okD(2)[OF sp]] by auto
  have f: "page_ok s f" using space_okD(5)[OF sp] by simp
  have g: "page_ok s ?g" "f \<noteq> ?g" using upages_frame[OF i] sp by (auto simp: space_ok_def)
  have al: "aligned f" "aligned ?g" using f g by (simp_all add: page_ok_def)
  have o: "same_outside {f} (phys s) (phys (snd (kalloc s)))" unfolding ph by (rule memset_outside[OF al(1)])
  show "same_outside {f} (phys s) m" using same_outside_trans[OF o memmove_page(2)[OF f g]] by (simp add: m_def)
  fix a assume a: "PGROUNDDOWN a = i"
  have "phys (snd (kalloc s)) (?g + take_bit 12 a) = phys s (?g + take_bit 12 a)"
    by (rule same_outside_at[OF o]) (use al g in auto)
  then show "m (f + take_bit 12 a) = ubyte s old a"
    using memmove_page(1)[OF f g] a i(3) by (simp add: ubyte_def m_def)
qed

text \<open>One round of the loop, for a mapped page when there is a free one, and in general.\<close>

lemma uvmcopy_page:
  assumes fk: "forked s0 old new ub (f # ys) i s" and i: "aligned i" "i < ub" "i < n" "mapped s old i"
  shows "(\<exists>s1 xs1. uvmcopy_loop old new i n s = uvmcopy_loop old new (i + PGSIZE) n s1
        \<and> forked s0 old new ub xs1 (i + PGSIZE) s1 \<and> length ys \<le> length xs1 + 2)
    \<or> (\<exists>s1 xs1. uvmcopy_loop old new i n s = Some (Ok (-1, s1)) \<and> unforked s0 old new ub xs1 s1 \<and> length ys < 2)"
proof -
  note d = forkedD[OF fk]
  let ?w = "vleaf s old i" and ?m = "memmove (phys (snd (kalloc s))) f (frame s old i) 4096"
  let ?s1 = "(snd (kalloc s))\<lparr>phys := ?m\<rparr>"
  have im: "i < MAXVA" using i(2) space_okD(3)[OF d(1)] by simp
  obtain pte where w: "walk old i False s = Ok (pte, s)" "pte \<noteq> 0" "load64 (phys s) pte = ?w" "?w AND PTE_V \<noteq> 0"
    using walk_mapped[OF d(1) im i(4)] i(4) unfolding mapped_def by blast
  note m = page_copy[OF d(1) i(1,2,4)]
  obtain r s2 where r: "mappages new i PGSIZE f (PTE_FLAGS ?w) ?s1 = Ok (r, s2)"
    "if r = 0
     then \<exists>xs'. space_ext s new ub (f # ys) s2 xs' \<and> length ys \<le> length xs' + 2
       \<and> (\<forall>vb. aligned vb \<longrightarrow> vb < MAXVA \<longrightarrow>
            vleaf s2 new vb = (if vb = i then PA2PTE f OR PTE_FLAGS ?w OR PTE_V else vleaf s new vb))
       \<and> (\<forall>a < ub. ubyte s2 new a = (if PGROUNDDOWN a = i then ?m (f + take_bit 12 a) else ubyte s new a))
     else r = -1 \<and> length ys < 2 \<and> (\<exists>s3. kfree f s2 = Ok s3 \<and> space_ext s new ub (f # ys) s3 [f]
       \<and> (\<forall>vb. aligned vb \<longrightarrow> vb < MAXVA \<longrightarrow> vleaf s3 new vb = vleaf s new vb)
       \<and> (\<forall>a < ub. ubyte s3 new a = ubyte s new a))"
    using add_page[OF d(2) m(1) i(1,2) d(8)[OF i(1,2)] PTE_FLAGS_less[of ?w]] by blast
  have step: "uvmcopy_loop old new i n s =
    (if r \<noteq> 0 then Some (bindR (kfree f s2) (\<lambda>s3. bindR (uvmunmap new 0 (i div PGSIZE) True s3) (\<lambda>s4. Ok (-1, s4))))
     else uvmcopy_loop old new (i + PGSIZE) n s2)"
    using i(3) w take_free_page(1,2)[OF d(2) m(1)] r(1) by (subst uvmcopy_loop.simps) (simp add: Let_def frame_def)
  show ?thesis
  proof (cases "r = 0")
    case True
    then obtain xs' where x: "space_ext s new ub (f # ys) s2 xs'" "length ys \<le> length xs' + 2"
       "\<forall>vb. aligned vb \<longrightarrow> vb < MAXVA \<longrightarrow>
            vleaf s2 new vb = (if vb = i then PA2PTE f OR PTE_FLAGS ?w OR PTE_V else vleaf s new vb)"
       "\<forall>a < ub. ubyte s2 new a = (if PGROUNDDOWN a = i then ?m (f + take_bit 12 a) else ubyte s new a)"
      using r(2) by auto
    have "\<forall>a < ub. ubyte s2 new a = (if PGROUNDDOWN a = i then ubyte s old a else ubyte s new a)" using x(4) m(2) by simp
    note forked_page[OF fk i(1,2,4) x(1,3) this]
    then show ?thesis using step True x(2) by (intro disjI1 exI[of _ s2] exI[of _ xs']) simp
  next
    case False
    then obtain s3 where s3: "length ys < 2" "kfree f s2 = Ok s3" "space_ext s new ub (f # ys) s3 [f]"
       "\<forall>vb. aligned vb \<longrightarrow> vb < MAXVA \<longrightarrow> vleaf s3 new vb = vleaf s new vb" using r(2) by auto
    note e = space_ext_other[OF s3(3) d(2,1,4)]
    have n3: "\<forall>va. aligned va \<and> va < ub \<longrightarrow> mapped s3 new va \<longrightarrow> va < i"
      using s3(4) d(7) space_okD(3)[OF d(2)] by (auto simp: mapped_def)
    have "own s3 old ub \<inter> own s3 new ub = {}" using e(5) by blast
    from uvmcopy_undo[OF e(1) _ this _ _ n3 i(1) less_imp_le[OF i(2)], of s0]
    obtain s4 xs4 where "uvmunmap new 0 (i div PGSIZE) True s3 = Ok s4" "unforked s0 old new ub xs4 s4"
      using s3(3) e(2,4) d(5,6) by (auto simp: space_ext_def)
    then show ?thesis using step False s3(1,2) by auto
  qed
qed

lemma uvmcopy_round:
  assumes fk: "forked s0 old new ub xs i s" and i: "aligned i" "i < ub" "i < n"
  shows "(\<exists>s1 xs1. uvmcopy_loop old new i n s = uvmcopy_loop old new (i + PGSIZE) n s1
        \<and> forked s0 old new ub xs1 (i + PGSIZE) s1 \<and> length xs \<le> length xs1 + 3)
    \<or> (\<exists>s1 xs1. uvmcopy_loop old new i n s = Some (Ok (-1, s1)) \<and> unforked s0 old new ub xs1 s1 \<and> length xs < 3)"
proof -
  note d = forkedD[OF fk]
  have im: "i < MAXVA" using i(2) space_okD(3)[OF d(1)] by simp
  show ?thesis
  proof (cases "mapped s old i")
    case False
    have "uvmcopy_loop old new i n s = uvmcopy_loop old new (i + PGSIZE) n s"
      using i(3) False im by (subst uvmcopy_loop.simps)
        (auto simp: walk_def walk_lookup mapped_def vleaf_loc not_le split: option.splits)
    then show ?thesis using forked_skip[OF fk i(1,2) False] by (intro disjI1 exI[of _ s] exI[of _ xs]) simp
  next
    case True
    show ?thesis
    proof (cases xs)
      case Nil
      obtain pte where "walk old i False s = Ok (pte, s)" "pte \<noteq> 0" "load64 (phys s) pte AND PTE_V \<noteq> 0"
        using walk_mapped[OF d(1) im True] True by (auto simp: mapped_def)
      moreover have "kalloc s = (0, s)" using Nil kalloc_empty[of s] space_okD(2)[OF d(1)] by simp
      moreover obtain s1 xs1 where "uvmunmap new 0 (i div PGSIZE) True s = Ok s1" "unforked s0 old new ub xs1 s1"
        using uvmcopy_undo[OF d(1-3,5,6,7) i(1) less_imp_le[OF i(2)]] by blast
      ultimately show ?thesis using i(3) Nil by (subst (1 2) uvmcopy_loop.simps) auto
    next
      case (Cons f ys)
      show ?thesis using uvmcopy_page[OF fk[unfolded Cons] i True] unfolding Cons by fastforce
    qed
  qed
qed

definition pages_left :: "u64 \<Rightarrow> u64 \<Rightarrow> nat" where
  "pages_left i n = (unat n - unat i + 4095) div 4096"

lemma uvmcopy_loop_ok:
  assumes "forked s0 old new ub xs i s" "aligned i" "i \<le> ub" "n \<le> ub" "\<And>va. aligned va \<Longrightarrow> va < i \<Longrightarrow> va < n"
  shows "\<exists>r s' xs' j. uvmcopy_loop old new i n s = Some (Ok (r, s'))
    \<and> (3 * pages_left i n \<le> length xs \<longrightarrow> r = 0)
    \<and> (if r = 0 then forked s0 old new ub xs' j s' \<and> (\<forall>va. aligned va \<longrightarrow> (va < j \<longleftrightarrow> va < n))
       else r = -1 \<and> unforked s0 old new ub xs' s')"
  using assms
proof (induction "unat ub - unat i" arbitrary: i s xs rule: less_induct)
  case less
  note fk = less.prems(1) and i = less.prems(2,3)
  show ?case
  proof (cases "i < n")
    case False
    then have "va < i \<longleftrightarrow> va < n" if "aligned va" for va using less.prems(5)[OF that] by auto
    then show ?thesis using False fk
      by (intro exI[of _ 0] exI[of _ s] exI[of _ xs] exI[of _ i]) (subst uvmcopy_loop.simps, simp)
  next
    case lt: True
    then have iu: "i < ub" using less.prems(4) by simp
    have ub: "aligned ub" using fk by (simp add: forked_def space_ok_def)
    note nx = next_aligned[OF i(1) ub iu]
    consider (go) s1 xs1 where "uvmcopy_loop old new i n s = uvmcopy_loop old new (i + PGSIZE) n s1"
        "forked s0 old new ub xs1 (i + PGSIZE) s1" "length xs \<le> length xs1 + 3"
      | (stop) s1 xs1 where "uvmcopy_loop old new i n s = Some (Ok (-1, s1))" "unforked s0 old new ub xs1 s1" "length xs < 3"
      using uvmcopy_round[OF fk i(1) iu lt] by blast
    then show ?thesis
    proof cases
      case go
      have m: "unat ub - unat (i + PGSIZE) < unat ub - unat i" using nx(3) iu by (simp add: word_less_nat_alt)
      have b: "va < n" if "aligned va" "va < i + PGSIZE" for va
        using that less.prems(5) lt page_before_next[OF i(1) ub iu that(1)] by auto
      have c: "pages_left (i + PGSIZE) n + 1 \<le> pages_left i n"
        using nx(3) lt unfolding pages_left_def
          by (cases "unat n \<le> unat i + 4096") (auto simp: word_less_nat_alt)
      obtain r s' xs' j where ih: "uvmcopy_loop old new (i + PGSIZE) n s1 = Some (Ok (r, s'))"
        "3 * pages_left (i + PGSIZE) n \<le> length xs1 \<longrightarrow> r = 0"
        "if r = 0 then forked s0 old new ub xs' j s' \<and> (\<forall>va. aligned va \<longrightarrow> (va < j \<longleftrightarrow> va < n))
         else r = -1 \<and> unforked s0 old new ub xs' s'"
        using less.hyps[OF m go(2) nx(1,2) less.prems(4)] b by blast
      have "3 * pages_left i n \<le> length xs \<longrightarrow> r = 0" using ih(2) go(3) c by linarith
      then show ?thesis using ih(1,3) go(1) by (intro exI[of _ r] exI[of _ s'] exI[of _ xs'] exI[of _ j]) simp
    next
      case stop
      have "1 \<le> pages_left i n" using lt by (simp add: pages_left_def word_less_nat_alt)
      then show ?thesis using stop by (intro exI[of _ "-1"] exI[of _ s1] exI[of _ xs1] exI[of _ i]) simp
    qed
  qed
qed

lemma fork_start:
  assumes "space_ok s old ub xs" "space_ok s new ub xs" "own s old ub \<inter> own s new ub = {}"
    and "\<forall>va. aligned va \<and> va < ub \<longrightarrow> \<not> mapped s new va"
  shows "forked s old new ub xs 0 s"
proof -
  have "ubyte s new a = 0" if "a < ub" for a
    using assms(4) in_space[OF assms(1)] that by (simp add: ubyte_def)
  then show ?thesis using assms by (simp add: forked_def)
qed

text \<open>
  C13. \<open>uvmcopy\<close>, the copy of the memory at \<open>fork\<close>, on every branch: it returns 0 and the child has the
  mapped pages of the parent below the size, with their flags, and byte for byte their contents, in
  physical pages of its own; or it returns -1 and the child has no page. Three free pages for each
  page of the parent are enough for it to succeed. The parent's memory is not changed, and both address
  spaces are well formed and apart from each other.
\<close>

theorem uvmcopy_correct:
  assumes "space_ok s old ub xs" "space_ok s new ub xs" "own s old ub \<inter> own s new ub = {}"
    and "\<forall>va. aligned va \<and> va < ub \<longrightarrow> \<not> mapped s new va" and "n \<le> ub"
  shows "\<exists>r s' xs'. uvmcopy old new n s = Ok (r, s')
    \<and> space_ok s' old ub xs' \<and> space_ok s' new ub xs' \<and> own s' old ub \<inter> own s' new ub = {}
    \<and> (\<forall>va. vleaf s' old va = vleaf s old va) \<and> (\<forall>a < ub. ubyte s' old a = ubyte s old a)
    \<and> (3 * pages_left 0 n \<le> length xs \<longrightarrow> r = 0)
    \<and> (if r = 0
       then (\<forall>va. aligned va \<and> va < ub \<longrightarrow> mapped s' new va = (mapped s old va \<and> va < n)
              \<and> (mapped s' new va \<longrightarrow> PTE_FLAGS (vleaf s' new va) = PTE_FLAGS (vleaf s old va)))
         \<and> (\<forall>a < ub. ubyte s' new a = (if PGROUNDDOWN a < n then ubyte s old a else 0))
       else r = -1 \<and> (\<forall>va. aligned va \<and> va < ub \<longrightarrow> \<not> mapped s' new va))"
proof -
  obtain r s' xs' j where r: "uvmcopy_loop old new 0 n s = Some (Ok (r, s'))" "3 * pages_left 0 n \<le> length xs \<longrightarrow> r = 0"
    "if r = 0 then forked s old new ub xs' j s' \<and> (\<forall>va. aligned va \<longrightarrow> (va < j \<longleftrightarrow> va < n))
     else r = -1 \<and> unforked s old new ub xs' s'"
    using uvmcopy_loop_ok[OF fork_start[OF assms(1-4)], of n] assms(5) by auto
  have u: "uvmcopy old new n s = Ok (r, s')" using r(1) by (simp add: uvmcopy_def)
  show ?thesis
  proof (cases "r = 0")
    case True
    then have f: "forked s old new ub xs' j s'" and j: "\<And>va. aligned va \<Longrightarrow> va < j \<longleftrightarrow> va < n" using r(3) by auto
    then show ?thesis using u r(2) True j[OF aligned_PGROUNDDOWN]
      by (intro exI[of _ 0] exI[of _ s'] exI[of _ xs']) (auto simp: forked_def)
  next
    case False
    then show ?thesis using u r(2,3) by (intro exI[of _ "-1"] exI[of _ s'] exI[of _ xs']) (auto simp: unforked_def)
  qed
qed

section \<open>Properties\<close>

text \<open>
  C15. \<open>copyout\<close> on every branch: some first part of the bytes, all of them if and only if it returns 0, is
  in the contents of the address space where it was to go, and nothing else of the contents changes,
  whatever pages were allocated on the way. Every page that a byte went to was a user page with write
  permission, or was below the size and not allocated yet: read-only text is never written. Conversely
  it succeeds when every page of the range is such a page and three pages are free for each.
\<close>

theorem copyout_correct:
  assumes "space_ok s root ub xs" "upt p = root" "usz p \<le> ub"
  shows "\<exists>r s' xs' k. copyout p root dst src s = Ok (r, s') \<and> space_ext s root ub xs s' xs'
    \<and> k \<le> length src \<and> length xs \<le> length xs' + 3 * npages dst (length src)
    \<and> r = (if k = length src then 0 else -1) \<and> (0 < k \<longrightarrow> unat dst + k \<le> unat ub)
    \<and> (\<forall>a < ub. ubyte s' root a =
         (if unat dst \<le> unat a \<and> unat a < unat dst + k then src ! (unat a - unat dst) else ubyte s root a))
    \<and> (\<forall>va. aligned va \<and> PGROUNDDOWN dst \<le> va \<and> va < MAXVA \<and> unat va < unat dst + k \<and> 0 < k \<longrightarrow>
         mapped s root va \<and> vleaf s root va AND PTE_U \<noteq> 0 \<and> vleaf s root va AND PTE_W \<noteq> 0
         \<or> \<not> mapped s root va \<and> va < usz p)
    \<and> (range_avail p s dst (length src) \<and> unat dst + length src \<le> unat ub
        \<and> 3 * npages dst (length src) \<le> length xs \<longrightarrow> k = length src)"
  using copyout_ok[OF assms, where dst = dst and src = src] assms(2)
  unfolding copied_def range_avail_def avail_def writable_def uleaf_def by blast

text \<open>
  C22. \<open>copyin\<close> on every branch: it delivers the bytes of the contents of the address space from the address
  on, all of them if it returns 0, and leaves the contents as they are.
\<close>

theorem copyin_correct:
  assumes "space_ok s root ub xs" "upt p = root" "usz p \<le> ub"
  shows "\<exists>r s' xs' k. copyin p root src n s = Ok (r, ubytes s root src k, s') \<and> space_ext s root ub xs s' xs'
    \<and> k \<le> n \<and> length xs \<le> length xs' + 3 * npages src n
    \<and> r = (if k = n then 0 else -1) \<and> (0 < k \<longrightarrow> unat src + k \<le> unat ub)
    \<and> (\<forall>a < ub. ubyte s' root a = ubyte s root a)
    \<and> (range_readable p s src n \<and> unat src + n \<le> unat ub \<and> 3 * npages src n \<le> length xs \<longrightarrow> k = n)"
  by (rule copyin_ok[OF assms])

section \<open>A parent and a child\<close>

text \<open>Two page tables with no entry, and free pages.\<close>

definition two_spaces :: "kmem_state \<Rightarrow> u64 list \<Rightarrow> bool" where
  "two_spaces s xs \<longleftrightarrow> kend s = 0x80000000
     \<and> (\<forall>r \<in> {0x80001000, 0x80002000}. space_ok s r 0x2000 xs \<and> own s r 0x2000 = {r} \<and> (\<forall>va. vleaf s r va = 0))"

lemma two_spaces_start: "two_spaces (boot_kmem 0x80000000) []"
proof -
  let ?s = "boot_kmem 0x80000000"
  have "space_ok ?s r 0x2000 [] \<and> own ?s r 0x2000 = {r} \<and> (\<forall>va. vleaf ?s r va = 0)"
    if "r \<in> {0x80001000, 0x80002000}" for r
  proof -
    have tb: "tables (phys ?s) r = {r}" by (auto simp: tables_def boot_kmem_def empty_tree paths_def)
    have "page_ok ?s r" using that by (auto simp: page_ok_def boot_kmem_def PHYSTOP_def take_bit_eq_mod)
    then have inv: "vm_inv ?s r []" using tb boot_kmem_inv[of "0x80000000"]
      by (auto simp: vm_inv_def pt_inv_def boot_kmem_def empty_tree)
    have v0: "vleaf ?s r va = 0" for va
      by (simp add: vleaf_loc pte_loc_def boot_kmem_def load64_def numeral_eq_Suc split: option.splits)
    then have "upages ?s r 0x2000 = {}" by (simp add: upages_def mapped_def)
    then show ?thesis using inv v0 tb
      by (simp add: space_ok_def own_def frames_def mapped_def MAXVA_def take_bit_eq_mod)
  qed
  then show ?thesis by (simp add: two_spaces_def boot_kmem_def)
qed

lemma two_spaces_free:
  assumes "two_spaces s xs" "page_ok s f" "f \<notin> set xs \<union> {0x80001000, 0x80002000}"
  shows "\<exists>s'. two_spaces s' (xs @ [f])"
proof -
  have a: "space_ok s r 0x2000 xs" "own s r 0x2000 = {r}" "\<forall>va. vleaf s r va = 0"
    if "r \<in> {0x80001000, 0x80002000}" for r using assms(1) that by (auto simp: two_spaces_def)
  obtain s' where s': "kfree f s = Ok s'" "kend s' = kend s"
    using free_frame[OF a(1) assms(2), of "0x80001000"] assms(3) a(2) by auto
  have "space_ok s' r 0x2000 (xs @ [f]) \<and> own s' r 0x2000 = {r} \<and> (\<forall>va. vleaf s' r va = 0)"
    if "r \<in> {0x80001000, 0x80002000}" for r
    using free_frame[OF a(1)[OF that] assms(2)] assms(3) a[OF that] s'(1) that by auto
  then show ?thesis using assms(1) s'(2) by (auto simp: two_spaces_def)
qed

lemma demo_spaces: "\<exists>s. two_spaces s (map (\<lambda>i. 0x80003000 + of_nat (4096 * i)) [0..<6])"
proof -
  have "\<exists>s. two_spaces s (map (\<lambda>i. 0x80003000 + of_nat (4096 * i)) [0..<k])" if "k \<le> 6" for k
    using that
  proof (induction k)
    case 0
    then show ?case using two_spaces_start by auto
  next
    case (Suc k)
    let ?f = "0x80003000 + of_nat (4096 * k) :: u64"
    obtain s where s: "two_spaces s (map (\<lambda>i. 0x80003000 + of_nat (4096 * i)) [0..<k])" using Suc by auto
    have u: "unat (0x80003000 + of_nat (4096 * i) :: u64) = 0x80003000 + 4096 * i" if "i < 6" for i
      using that by (subst u64_nowrap) simp_all
    have ki: "k < 6" using Suc.prems by simp
    have "page_ok s ?f" using s u[OF ki] ki
      by (simp add: page_ok_def two_spaces_def PHYSTOP_def aligned_unat word_le_nat_alt word_less_nat_alt del: of_nat_mult)
    moreover have "?f \<notin> set (map (\<lambda>i. 0x80003000 + of_nat (4096 * i)) [0..<k]) \<union> {0x80001000, 0x80002000}"
      using u[OF ki] u ki by (auto simp: word_unat_eq_iff simp del: of_nat_mult)
    ultimately show ?case using two_spaces_free[OF s] by simp
  qed
  then show ?thesis by blast
qed

definition demo_proc :: uproc where "demo_proc = \<lparr>usz = 0x1000, upt = 0x80001000\<rparr>"

lemma demo_proc_simps: "upt demo_proc = 0x80001000" "usz demo_proc \<le> 0x2000"
  by (simp_all add: demo_proc_def)

lemma demo_lazy:
  assumes "\<forall>va. vleaf s 0x80001000 va = 0"
  shows "range_avail demo_proc s 5 2" "range_readable demo_proc s 5 2" "npages 5 2 = 1"
  using assms by (auto simp: range_avail_def avail_def range_readable_def readable_def mapped_def demo_proc_def
      word_less_nat_alt npages_def unat_take12)

theorem copyout_correct_witness:
  "\<exists>(s :: kmem_state) s'. copyout demo_proc 0x80001000 5 [7, 8] s = Ok (0, s')
     \<and> ubyte s' 0x80001000 6 = 8 \<and> ubyte s' 0x80001000 7 = 0"
proof -
  obtain s where s: "two_spaces s (map (\<lambda>i. 0x80003000 + of_nat (4096 * i)) [0..<6])" using demo_spaces by blast
  then have sp: "space_ok s 0x80001000 0x2000 (map (\<lambda>i. 0x80003000 + of_nat (4096 * i)) [0..<6])"
    and v: "\<forall>va. vleaf s 0x80001000 va = 0" by (simp_all add: two_spaces_def)
  have z: "ubyte s 0x80001000 7 = 0" using v by (simp add: ubyte_def mapped_def)
  obtain src :: "u8 list" where src: "src = [7, 8]" "length src = 2" by simp
  obtain s' where "copyout demo_proc 0x80001000 5 src s = Ok (0, s')"
    "\<forall>a < 0x2000. ubyte s' 0x80001000 a = (if 5 \<le> unat a \<and> unat a < 7 then src ! (unat a - 5) else ubyte s 0x80001000 a)"
    using copyout_correct[OF sp demo_proc_simps, of 5 src] demo_lazy[OF v] src(2) by auto
  then show ?thesis using z src(1) by (intro exI[of _ s] exI[of _ s']) simp
qed

theorem copyin_correct_witness:
  "\<exists>(s :: kmem_state) s'. copyin demo_proc 0x80001000 5 2 s = Ok (0, [0, 0], s')"
proof -
  obtain s where s: "two_spaces s (map (\<lambda>i. 0x80003000 + of_nat (4096 * i)) [0..<6])" using demo_spaces by blast
  then have sp: "space_ok s 0x80001000 0x2000 (map (\<lambda>i. 0x80003000 + of_nat (4096 * i)) [0..<6])"
    and v: "\<forall>va. vleaf s 0x80001000 va = 0" by (simp_all add: two_spaces_def)
  have "ubytes s 0x80001000 5 2 = [0, 0]" using v by (simp add: ubytes_def ubyte_def mapped_def numeral_2_eq_2)
  then show ?thesis
    using copyin_correct[OF sp demo_proc_simps, of 5 2] demo_lazy[OF v] by auto
qed

text \<open>
  C31. \<open>uvmunmap\<close> with \<open>do_free\<close> on a range of pages of an address space: exactly the pages of the range
  are unmapped afterwards, those that were mapped and those that were not; their physical pages go to
  the end of the free list in the order of the addresses; the contents of the other pages are as
  before, and the address space stays well formed.
\<close>

theorem uvmunmap_range:
  assumes "space_ok s root ub xs" "aligned va" "unat va + 4096 * n \<le> unat ub"
  shows "\<exists>s'. uvmunmap root va (of_nat n) True s = Ok s'
    \<and> space_ext s root ub xs s' (xs @ frames_between s root va (va + of_nat (4096 * n)))
    \<and> (\<forall>vb. aligned vb \<and> vb < MAXVA \<longrightarrow>
         mapped s' root vb = (mapped s root vb \<and> \<not> (va \<le> vb \<and> vb < va + of_nat (4096 * n))))
    \<and> (\<forall>x < ub. \<not> (va \<le> x \<and> x < va + of_nat (4096 * n)) \<longrightarrow> ubyte s' root x = ubyte s root x)"
  by (rule uvmunmap_range_ok[OF assms])

lemma demo_written:
  "\<exists>s s1 :: kmem_state. \<exists>xs ys. two_spaces s xs \<and> length xs = 6 \<and> copyout demo_proc 0x80001000 5 [7, 8] s = Ok (0, s1)
     \<and> space_ext s 0x80001000 0x2000 xs s1 ys \<and> length xs \<le> length ys + 3 \<and> ubyte s1 0x80001000 6 = 8"
proof -
  let ?r = "0x80001000 :: u64" and ?u = "0x2000 :: u64"
  define xs :: "u64 list" where "xs = map (\<lambda>i. 0x80003000 + of_nat (4096 * i)) [0..<6]"
  have six: "length xs = 6" by (simp add: xs_def)
  obtain s where s: "two_spaces s xs" using demo_spaces by (auto simp: xs_def)
  then have sp: "space_ok s ?r ?u xs" and v: "\<forall>va. vleaf s ?r va = 0" by (simp_all add: two_spaces_def)
  obtain src :: "u8 list" where src: "src = [7, 8]" "length src = 2" by simp
  obtain s1 ys where s1: "copyout demo_proc ?r 5 src s = Ok (0, s1)" "space_ext s ?r ?u xs s1 ys" "length xs \<le> length ys + 3"
    "\<forall>a < ?u. ubyte s1 ?r a = copied 2 5 src s ?r a"
    using copyout_ok[OF sp demo_proc_simps, of 5 src] demo_lazy[OF v] src(2) six by auto
  have "ubyte s1 ?r 6 = 8" using s1(4) src(1) by (simp add: copied_def)
  then show ?thesis using s six s1(1-3) src(1) by blast
qed

theorem uvmunmap_range_witness:
  "\<exists>(s :: kmem_state) s'. ubyte s 0x80001000 6 = 8 \<and> uvmunmap 0x80001000 0 2 True s = Ok s' \<and> ubyte s' 0x80001000 6 = 0"
proof -
  obtain s :: kmem_state and ys where s: "space_ok s 0x80001000 0x2000 ys" "ubyte s 0x80001000 6 = 8"
    using demo_written by (auto simp: space_ext_def)
  obtain s' where s': "uvmunmap 0x80001000 0 2 True s = Ok s'"
    "\<forall>vb. aligned vb \<and> vb < MAXVA \<longrightarrow> mapped s' 0x80001000 vb = (mapped s 0x80001000 vb \<and> \<not> vb < 0x2000)"
    using uvmunmap_range[OF s(1), of 0 2] by auto
  have "PGROUNDDOWN 6 = 0" by (simp add: PGROUNDDOWN_def PGSIZE_def)
  then have "ubyte s' 0x80001000 6 = 0" using s'(2) by (simp add: ubyte_def MAXVA_def)
  then show ?thesis using s(2) s'(1) by blast
qed

text \<open>A process writes two bytes into a page that is allocated for them, and forks.\<close>

theorem uvmcopy_correct_witness:
  "\<exists>(s :: kmem_state) s1 s2. copyout demo_proc 0x80001000 5 [7, 8] s = Ok (0, s1)
     \<and> uvmcopy 0x80001000 0x80002000 0x1000 s1 = Ok (0, s2) \<and> ubyte s2 0x80002000 6 = 8"
proof -
  let ?r = "0x80001000 :: u64" and ?q = "0x80002000 :: u64" and ?u = "0x2000 :: u64"
  obtain s s1 :: kmem_state and xs ys where s: "two_spaces s xs" and s1: "copyout demo_proc ?r 5 [7, 8] s = Ok (0, s1)"
    "space_ext s ?r ?u xs s1 ys" "length xs = 6" "length xs \<le> length ys + 3" "ubyte s1 ?r 6 = 8"
    using demo_written by blast
  from s have sp: "space_ok s ?r ?u xs" "space_ok s ?q ?u xs" "own s ?r ?u \<inter> own s ?q ?u = {}"
    and v: "\<forall>va. vleaf s ?q va = 0" by (simp_all add: two_spaces_def)
  note e = space_ext_other[OF s1(2) sp]
  have "space_ok s1 ?r ?u ys" using s1(2) by (simp add: space_ext_def)
  moreover have "\<forall>va. aligned va \<and> va < ?u \<longrightarrow> \<not> mapped s1 ?q va" using e(2) v by (simp add: mapped_def)
  moreover have "3 * pages_left 0 0x1000 \<le> length ys" using s1(3,4) by (simp add: pages_left_def)
  ultimately obtain s2 where s2: "uvmcopy ?r ?q 0x1000 s1 = Ok (0, s2)"
    "\<And>a. a < ?u \<Longrightarrow> ubyte s2 ?q a = (if PGROUNDDOWN a < 0x1000 then ubyte s1 ?r a else 0)"
    using uvmcopy_correct[where s = s1 and old = ?r and ub = ?u and xs = ys and new = ?q and n = "0x1000"] e(1,5) by auto
  have "PGROUNDDOWN 6 = 0" by (simp add: PGROUNDDOWN_def PGSIZE_def)
  then show ?thesis using s1(1,5) s2 by (intro exI[of _ s] exI[of _ s1] exI[of _ s2]) simp
qed

end
