(* ===== verification/Proc.thy ===== *)
theory Proc
  imports Vm Spinlock CString
begin

text \<open>
  Processes, \<open>kernel/proc.c\<close>. The state extends the allocator's with the process table, the
  CPUs and the clock. A process is named by its index in \<open>proc[]\<close>, a CPU by its index in
  \<open>cpus[]\<close>; \<open>c\<close> is the CPU the code runs on and \<open>me\<close> is \<open>myproc()\<close>, which is the field \<open>cproc\<close> of
  that CPU. Every \<open>p->lock\<close> is a spin lock of the model; \<open>pid_lock\<close> guards one increment, so
  \<open>allocpid\<close> is one step. Addresses the linker chooses are fields of the state. \<open>swtch\<close> is
  assembly: what happens until it returns is the parameter \<open>swtch\<close> of the functions that call
  it.
\<close>

definition NPROC :: nat where "NPROC = 64"
definition NOFILE :: nat where "NOFILE = 16"

text \<open>Sleep channels are addresses of kernel objects; each object is named here.\<close>

datatype chan =
    ChanProc nat | ChanTicks | ChanPipeRead nat | ChanPipeWrite nat | ChanInode nat | ChanBuf nat
  | ChanLog | ChanCons | ChanUart | ChanDiskBuf nat | ChanDiskFree

datatype procstate = UNUSED | USED | SLEEPING | RUNNABLE | RUNNING | ZOMBIE

record sw_context =
  ra :: u64
  sp :: u64
  sregs :: "nat \<Rightarrow> u64"

record proc =
  plock :: spinlock
  pstate :: procstate
  chan :: "chan option"
  pkilled :: int
  xstate :: int
  pid :: int
  parent :: "nat option"
  kstack :: u64
  sz :: u64
  pagetable :: u64
  trapframe :: u64
  pcontext :: sw_context
  ofile :: "nat \<Rightarrow> nat option"
  cwd :: "nat option"
  pname :: cstr
  arrival_time :: u64

record proc_state = kmem_state +
  procs :: "nat \<Rightarrow> proc"
  cpus :: "nat \<Rightarrow> cpu"
  nextpid :: int
  initproc :: "nat option"
  ticks :: u32
  trampoline :: u64
  etext :: u64
  forkret_addr :: u64
  kernel_pagetable :: u64

definition KSTACK :: "nat \<Rightarrow> u64" where
  "KSTACK p = TRAMPOLINE - of_nat ((p + 1) * 2) * PGSIZE"

definition upd_proc :: "nat \<Rightarrow> (proc \<Rightarrow> proc) \<Rightarrow> 'z proc_state_scheme \<Rightarrow> 'z proc_state_scheme" where
  "upd_proc p f s = s\<lparr>procs := (procs s)(p := f (procs s p))\<rparr>"

definition upd_cpu :: "nat \<Rightarrow> (cpu \<Rightarrow> cpu) \<Rightarrow> 'z proc_state_scheme \<Rightarrow> 'z proc_state_scheme" where
  "upd_cpu c f s = s\<lparr>cpus := (cpus s)(c := f (cpus s c))\<rparr>"

definition myproc :: "nat \<Rightarrow> 'z proc_state_scheme \<Rightarrow> nat option" where
  "myproc c s = cproc (cpus s c)"

text \<open>\<open>acquire(&p->lock)\<close> and \<open>release(&p->lock)\<close> on CPU \<open>c\<close>.\<close>

definition plock_acquire :: "nat \<Rightarrow> nat \<Rightarrow> 'z proc_state_scheme \<Rightarrow> 'z proc_state_scheme res" where
  "plock_acquire c p s =
     bindR (acquire c (plock (procs s p)) (cpus s c)) (\<lambda>(lk, cc).
       Ok (upd_cpu c (\<lambda>_. cc) (upd_proc p (plock_update (\<lambda>_. lk)) s)))"

definition plock_release :: "nat \<Rightarrow> nat \<Rightarrow> 'z proc_state_scheme \<Rightarrow> 'z proc_state_scheme res" where
  "plock_release c p s =
     bindR (release c (plock (procs s p)) (cpus s c)) (\<lambda>(lk, cc).
       Ok (upd_cpu c (\<lambda>_. cc) (upd_proc p (plock_update (\<lambda>_. lk)) s)))"

section \<open>Boot\<close>

definition procinit :: "'z proc_state_scheme \<Rightarrow> 'z proc_state_scheme" where
  "procinit s = fold (\<lambda>p. upd_proc p (\<lambda>q. q\<lparr>plock := initlock ''proc'', pstate := UNUSED, kstack := KSTACK p\<rparr>))
     [0..<NPROC] s"

definition map_stack :: "u64 \<Rightarrow> nat \<Rightarrow> 'z proc_state_scheme \<Rightarrow> 'z proc_state_scheme res" where
  "map_stack kpt p s =
     (let (pa, s1) = kalloc s
      in if pa = 0 then Panic ''kalloc''
         else kvmmap kpt (KSTACK p) pa PGSIZE (PTE_R OR PTE_W) s1)"

definition proc_mapstacks :: "u64 \<Rightarrow> 'z proc_state_scheme \<Rightarrow> 'z proc_state_scheme res" where
  "proc_mapstacks kpt s = iterR (map_stack kpt) [0..<NPROC] s"

definition UART0 :: u64 where "UART0 = 0x10000000"
definition VIRTIO0 :: u64 where "VIRTIO0 = 0x10001000"
definition PLIC :: u64 where "PLIC = 0x0c000000"

definition kvmmake :: "'z proc_state_scheme \<Rightarrow> (u64 \<times> 'z proc_state_scheme) res" where
  "kvmmake s =
     (let (kpt, s1) = kalloc s;
          s2 = s1\<lparr>phys := memset (phys s1) kpt 0 4096\<rparr>
      in bindR (kvmmap kpt UART0 UART0 PGSIZE (PTE_R OR PTE_W) s2) (\<lambda>s3.
         bindR (kvmmap kpt VIRTIO0 VIRTIO0 PGSIZE (PTE_R OR PTE_W) s3) (\<lambda>s4.
         bindR (kvmmap kpt PLIC PLIC 0x4000000 (PTE_R OR PTE_W) s4) (\<lambda>s5.
         bindR (kvmmap kpt KERNBASE KERNBASE (etext s5 - KERNBASE) (PTE_R OR PTE_X) s5) (\<lambda>s6.
         bindR (kvmmap kpt (etext s6) (etext s6) (PHYSTOP - etext s6) (PTE_R OR PTE_W) s6) (\<lambda>s7.
         bindR (kvmmap kpt TRAMPOLINE (trampoline s7) PGSIZE (PTE_R OR PTE_X) s7) (\<lambda>s8.
         bindR (proc_mapstacks kpt s8) (\<lambda>s9. Ok (kpt, s9)))))))))"

definition kvminit :: "'z proc_state_scheme \<Rightarrow> 'z proc_state_scheme res" where
  "kvminit s = bindR (kvmmake s) (\<lambda>(kpt, s1). Ok (s1\<lparr>kernel_pagetable := kpt\<rparr>))"

section \<open>Allocating and freeing processes\<close>

definition allocpid :: "'z proc_state_scheme \<Rightarrow> int \<times> 'z proc_state_scheme" where
  "allocpid s = (nextpid s, s\<lparr>nextpid := nextpid s + 1\<rparr>)"

definition proc_pagetable :: "nat \<Rightarrow> 'z proc_state_scheme \<Rightarrow> (u64 \<times> 'z proc_state_scheme) res" where
  "proc_pagetable p s =
     (let (pt, s1) = uvmcreate s
      in if pt = 0 then Ok (0, s1)
         else bindR (mappages pt TRAMPOLINE PGSIZE (trampoline s1) (PTE_R OR PTE_X) s1) (\<lambda>(r, s2).
           if r < 0 then bindR (uvmfree pt 0 s2) (\<lambda>s3. Ok (0, s3))
           else bindR (mappages pt TRAPFRAME PGSIZE (trapframe (procs s2 p)) (PTE_R OR PTE_W) s2) (\<lambda>(r', s3).
             if r' < 0
             then bindR (uvmunmap pt TRAMPOLINE 1 False s3) (\<lambda>s4. bindR (uvmfree pt 0 s4) (\<lambda>s5. Ok (0, s5)))
             else Ok (pt, s3))))"

definition proc_freepagetable :: "u64 \<Rightarrow> u64 \<Rightarrow> 'z proc_state_scheme \<Rightarrow> 'z proc_state_scheme res" where
  "proc_freepagetable pt nbytes s =
     bindR (uvmunmap pt TRAMPOLINE 1 False s) (\<lambda>s1.
     bindR (uvmunmap pt TRAPFRAME 1 False s1) (uvmfree pt nbytes))"

definition freeproc :: "nat \<Rightarrow> 'z proc_state_scheme \<Rightarrow> 'z proc_state_scheme res" where
  "freeproc p s =
     bindR (if trapframe (procs s p) \<noteq> 0 then kfree (trapframe (procs s p)) s else Ok s) (\<lambda>s1.
     let s2 = upd_proc p (trapframe_update (\<lambda>_. 0)) s1
     in bindR (if pagetable (procs s2 p) \<noteq> 0
               then proc_freepagetable (pagetable (procs s2 p)) (sz (procs s2 p)) s2 else Ok s2) (\<lambda>s3.
        Ok (upd_proc p (\<lambda>q. q\<lparr>pagetable := 0, sz := 0, pid := 0, parent := None,
              pname := (pname q)(0 := 0), chan := None, pkilled := 0, xstate := 0, pstate := UNUSED\<rparr>) s3)))"

text \<open>The scan of \<open>allocproc\<close> for an unused slot, which it leaves locked.\<close>

fun find_unused :: "nat \<Rightarrow> nat list \<Rightarrow> 'z proc_state_scheme \<Rightarrow> (nat option \<times> 'z proc_state_scheme) res" where
  "find_unused c [] s = Ok (None, s)"
| "find_unused c (p # ps) s =
     bindR (plock_acquire c p s) (\<lambda>s1.
       if pstate (procs s1 p) = UNUSED then Ok (Some p, s1)
       else bindR (plock_release c p s1) (find_unused c ps))"

definition allocproc :: "nat \<Rightarrow> 'z proc_state_scheme \<Rightarrow> (nat option \<times> 'z proc_state_scheme) res" where
  "allocproc c s =
     bindR (find_unused c [0..<NPROC] s) (\<lambda>(found, s1).
       case found of
         None \<Rightarrow> Ok (None, s1)
       | Some p \<Rightarrow>
          let (newpid, s2) = allocpid s1;
              s3 = upd_proc p (\<lambda>q. q\<lparr>pid := newpid, pstate := USED, arrival_time := ucast (ticks s2)\<rparr>) s2;
              (tf, s4) = kalloc s3;
              s5 = upd_proc p (trapframe_update (\<lambda>_. tf)) s4
          in if tf = 0
             then bindR (freeproc p s5) (\<lambda>s6. bindR (plock_release c p s6) (\<lambda>s7. Ok (None, s7)))
             else bindR (proc_pagetable p s5) (\<lambda>(pt, s6).
               let s7 = upd_proc p (pagetable_update (\<lambda>_. pt)) s6
               in if pt = 0
                  then bindR (freeproc p s7) (\<lambda>s8. bindR (plock_release c p s8) (\<lambda>s9. Ok (None, s9)))
                  else Ok (Some p, upd_proc p (\<lambda>q. q\<lparr>pcontext :=
                         \<lparr>ra = forkret_addr s7, sp = kstack q + PGSIZE, sregs = (\<lambda>_. 0)\<rparr>\<rparr>) s7)))"

definition growproc :: "nat \<Rightarrow> int \<Rightarrow> 'z proc_state_scheme \<Rightarrow> (int \<times> 'z proc_state_scheme) res" where
  "growproc me n s =
     (let oldsz = sz (procs s me); pt = pagetable (procs s me)
      in if n > 0
         then if oldsz + word_of_int n > TRAPFRAME then Ok (-1, s)
              else bindR (uvmalloc pt oldsz (oldsz + word_of_int n) PTE_W s) (\<lambda>(newsz, s1).
                if newsz = 0 then Ok (-1, s1)
                else Ok (0, upd_proc me (sz_update (\<lambda>_. newsz)) s1))
         else if n < 0
         then bindR (uvmdealloc pt oldsz (oldsz + word_of_int n) s) (\<lambda>(newsz, s1).
                Ok (0, upd_proc me (sz_update (\<lambda>_. newsz)) s1))
         else Ok (0, upd_proc me (sz_update (\<lambda>_. oldsz)) s))"

end
