(* ===== verification/Sched.thy ===== *)
theory Sched
  imports Proc
begin

text \<open>
  Scheduling, sleeping and waking: the second half of \<open>kernel/proc.c\<close>. The first-come,
  first-served \<open>scheduler\<close> of the modified system is \<open>scheduler_round\<close>, one turn of its endless
  loop; the round-robin one of \<open>xv6-riscv/kernel/proc.c\<close> is \<open>rr_round\<close>.
\<close>

section \<open>Operations\<close>

text \<open>The selection loop: \<open>sel\<close> is \<open>proc_selected\<close>, whose lock stays held.\<close>

fun fcfs_scan :: "nat \<Rightarrow> nat list \<Rightarrow> nat option \<Rightarrow> 'z proc_state_scheme \<Rightarrow>
    (nat option \<times> 'z proc_state_scheme) res" where
  "fcfs_scan c [] sel s = Ok (sel, s)"
| "fcfs_scan c (p # ps) sel s =
     bindR (plock_acquire c p s) (\<lambda>s1.
       if pstate (procs s1 p) = RUNNABLE
          \<and> (case sel of None \<Rightarrow> True | Some q \<Rightarrow> arrival_time (procs s1 p) < arrival_time (procs s1 q))
       then bindR (case sel of None \<Rightarrow> Ok s1 | Some q \<Rightarrow> plock_release c q s1)
              (fcfs_scan c ps (Some p))
       else bindR (plock_release c p s1) (fcfs_scan c ps sel))"

definition intr_on :: "nat \<Rightarrow> 'z proc_state_scheme \<Rightarrow> 'z proc_state_scheme" where
  "intr_on c = upd_cpu c (sie_update (\<lambda>_. True))"

definition intr_off :: "nat \<Rightarrow> 'z proc_state_scheme \<Rightarrow> 'z proc_state_scheme" where
  "intr_off c = upd_cpu c (sie_update (\<lambda>_. False))"

text \<open>One turn of \<open>for(;;)\<close>; the result names the process that ran, \<open>None\<close> when the CPU waited
  for an interrupt instead. \<open>last_pid\<close> is written and never read, and is left out.\<close>

definition scheduler_round ::
    "(nat \<Rightarrow> nat \<Rightarrow> 'z proc_state_scheme \<Rightarrow> 'z proc_state_scheme res) \<Rightarrow> nat \<Rightarrow>
     'z proc_state_scheme \<Rightarrow> (nat option \<times> 'z proc_state_scheme) res" where
  "scheduler_round swtch c s =
     bindR (fcfs_scan c [0..<NPROC] None (intr_off c (intr_on c s))) (\<lambda>(sel, s1).
       case sel of
         None \<Rightarrow> Ok (None, s1)
       | Some p \<Rightarrow>
          let s2 = upd_cpu c (cproc_update (\<lambda>_. Some p)) (upd_proc p (pstate_update (\<lambda>_. RUNNING)) s1)
          in bindR (swtch c p s2) (\<lambda>s3.
               bindR (plock_release c p (upd_cpu c (cproc_update (\<lambda>_. None)) s3)) (\<lambda>s4.
                 Ok (Some p, s4))))"

text \<open>The round-robin scan: every runnable process runs once, in table order; the list of
  processes that ran is returned.\<close>

fun rr_scan :: "(nat \<Rightarrow> nat \<Rightarrow> 'z proc_state_scheme \<Rightarrow> 'z proc_state_scheme res) \<Rightarrow> nat \<Rightarrow> nat list \<Rightarrow>
    'z proc_state_scheme \<Rightarrow> (nat list \<times> 'z proc_state_scheme) res" where
  "rr_scan swtch c [] s = Ok ([], s)"
| "rr_scan swtch c (p # ps) s =
     bindR (plock_acquire c p s) (\<lambda>s1.
       if pstate (procs s1 p) = RUNNABLE
       then let s2 = upd_cpu c (cproc_update (\<lambda>_. Some p)) (upd_proc p (pstate_update (\<lambda>_. RUNNING)) s1)
            in bindR (swtch c p s2) (\<lambda>s3.
                 bindR (plock_release c p (upd_cpu c (cproc_update (\<lambda>_. None)) s3)) (\<lambda>s4.
                   bindR (rr_scan swtch c ps s4) (\<lambda>(ran, s5). Ok (p # ran, s5))))
       else bindR (plock_release c p s1) (rr_scan swtch c ps))"

definition rr_round :: "(nat \<Rightarrow> nat \<Rightarrow> 'z proc_state_scheme \<Rightarrow> 'z proc_state_scheme res) \<Rightarrow> nat \<Rightarrow>
    'z proc_state_scheme \<Rightarrow> (nat list \<times> 'z proc_state_scheme) res" where
  "rr_round swtch c s = rr_scan swtch c [0..<NPROC] (intr_off c (intr_on c s))"

text \<open>\<open>sched\<close>: \<open>swtch\<close> returns the CPU the thread resumes on.\<close>

definition sched ::
    "(nat \<Rightarrow> nat \<Rightarrow> 'z proc_state_scheme \<Rightarrow> (nat \<times> 'z proc_state_scheme) res) \<Rightarrow> nat \<Rightarrow> nat \<Rightarrow>
     'z proc_state_scheme \<Rightarrow> (nat \<times> 'z proc_state_scheme) res" where
  "sched swtch c me s =
     (if \<not> holding c (plock (procs s me)) then Panic ''sched p->lock''
      else if noff (cpus s c) \<noteq> 1 then Panic ''sched locks''
      else if pstate (procs s me) = RUNNING then Panic ''sched RUNNING''
      else if sie (cpus s c) then Panic ''sched interruptible''
      else let saved = intena (cpus s c)
           in bindR (swtch c me s) (\<lambda>(c', s1). Ok (c', upd_cpu c' (intena_update (\<lambda>_. saved)) s1)))"

definition yield ::
    "(nat \<Rightarrow> nat \<Rightarrow> 'z proc_state_scheme \<Rightarrow> (nat \<times> 'z proc_state_scheme) res) \<Rightarrow> nat \<Rightarrow> nat \<Rightarrow>
     'z proc_state_scheme \<Rightarrow> (nat \<times> 'z proc_state_scheme) res" where
  "yield swtch c me s =
     bindR (plock_acquire c me s) (\<lambda>s1.
     bindR (sched swtch c me (upd_proc me (pstate_update (\<lambda>_. RUNNABLE)) s1)) (\<lambda>(c', s2).
     bindR (plock_release c' me s2) (\<lambda>s3. Ok (c', s3))))"

text \<open>\<open>sleep(chan, lk)\<close>: \<open>acq\<close> and \<open>rel\<close> are \<open>acquire(lk)\<close> and \<open>release(lk)\<close>.\<close>

definition sleep ::
    "(nat \<Rightarrow> nat \<Rightarrow> 'z proc_state_scheme \<Rightarrow> (nat \<times> 'z proc_state_scheme) res) \<Rightarrow>
     (nat \<Rightarrow> 'z proc_state_scheme \<Rightarrow> 'z proc_state_scheme res) \<Rightarrow>
     (nat \<Rightarrow> 'z proc_state_scheme \<Rightarrow> 'z proc_state_scheme res) \<Rightarrow> nat \<Rightarrow> nat \<Rightarrow> chan \<Rightarrow>
     'z proc_state_scheme \<Rightarrow> (nat \<times> 'z proc_state_scheme) res" where
  "sleep swtch acq rel c me ch s =
     bindR (plock_acquire c me s) (\<lambda>s1.
     bindR (rel c s1) (\<lambda>s2.
     bindR (sched swtch c me (upd_proc me (\<lambda>q. q\<lparr>chan := Some ch, pstate := SLEEPING\<rparr>) s2)) (\<lambda>(c', s3).
     bindR (plock_release c' me (upd_proc me (chan_update (\<lambda>_. None)) s3)) (\<lambda>s4.
     bindR (acq c' s4) (\<lambda>s5. Ok (c', s5))))))"

definition wakeup_one :: "nat \<Rightarrow> chan \<Rightarrow> nat \<Rightarrow> 'z proc_state_scheme \<Rightarrow> 'z proc_state_scheme res" where
  "wakeup_one c ch p s =
     (if Some p \<noteq> myproc c s
      then bindR (plock_acquire c p s) (\<lambda>s1.
             plock_release c p
               (if pstate (procs s1 p) = SLEEPING \<and> chan (procs s1 p) = Some ch
                then upd_proc p (pstate_update (\<lambda>_. RUNNABLE)) s1 else s1))
      else Ok s)"

definition wakeup :: "nat \<Rightarrow> chan \<Rightarrow> 'z proc_state_scheme \<Rightarrow> 'z proc_state_scheme res" where
  "wakeup c ch s = iterR (wakeup_one c ch) [0..<NPROC] s"

fun kkill_scan :: "nat \<Rightarrow> int \<Rightarrow> nat list \<Rightarrow> 'z proc_state_scheme \<Rightarrow> (int \<times> 'z proc_state_scheme) res" where
  "kkill_scan c k [] s = Ok (-1, s)"
| "kkill_scan c k (p # ps) s =
     bindR (plock_acquire c p s) (\<lambda>s1.
       if pid (procs s1 p) = k
       then let s2 = upd_proc p (pkilled_update (\<lambda>_. 1)) s1;
                s3 = (if pstate (procs s2 p) = SLEEPING
                      then upd_proc p (pstate_update (\<lambda>_. RUNNABLE)) s2 else s2)
            in bindR (plock_release c p s3) (\<lambda>s4. Ok (0, s4))
       else bindR (plock_release c p s1) (kkill_scan c k ps))"

definition kkill :: "nat \<Rightarrow> int \<Rightarrow> 'z proc_state_scheme \<Rightarrow> (int \<times> 'z proc_state_scheme) res" where
  "kkill c k s = kkill_scan c k [0..<NPROC] s"

definition setkilled :: "nat \<Rightarrow> nat \<Rightarrow> 'z proc_state_scheme \<Rightarrow> 'z proc_state_scheme res" where
  "setkilled c p s =
     bindR (plock_acquire c p s) (\<lambda>s1. plock_release c p (upd_proc p (pkilled_update (\<lambda>_. 1)) s1))"

definition killed :: "nat \<Rightarrow> nat \<Rightarrow> 'z proc_state_scheme \<Rightarrow> (int \<times> 'z proc_state_scheme) res" where
  "killed c p s =
     bindR (plock_acquire c p s) (\<lambda>s1.
       let k = pkilled (procs s1 p) in bindR (plock_release c p s1) (\<lambda>s2. Ok (k, s2)))"

text \<open>What \<open>vm.c\<close> reads of a process.\<close>

definition uproc_of :: "proc \<Rightarrow> uproc" where
  "uproc_of p = \<lparr>usz = sz p, upt = pagetable p\<rparr>"

definition either_copyout ::
    "nat \<Rightarrow> bool \<Rightarrow> u64 \<Rightarrow> u8 list \<Rightarrow> 'z proc_state_scheme \<Rightarrow> (int \<times> 'z proc_state_scheme) res" where
  "either_copyout me user_dst dst src s =
     (if user_dst then copyout (uproc_of (procs s me)) (pagetable (procs s me)) dst src s
      else Ok (0, s\<lparr>phys := write_bytes (phys s) dst src\<rparr>))"

definition either_copyin ::
    "nat \<Rightarrow> bool \<Rightarrow> u64 \<Rightarrow> nat \<Rightarrow> 'z proc_state_scheme \<Rightarrow> (int \<times> u8 list \<times> 'z proc_state_scheme) res" where
  "either_copyin me user_src src len s =
     (if user_src then copyin (uproc_of (procs s me)) (pagetable (procs s me)) src len s
      else Ok (0, read_bytes (phys s) src len, s))"

end
