(* ===== verification/Sched_Correct.thy ===== *)
theory Sched_Correct
  imports Sched
begin

text \<open>
  What the scheduling functions do to the process table when the locks they need are free:
  every lock taken is given back, so that \<open>wakeup\<close>, \<open>kkill\<close> and the scan of the scheduler are
  pure updates of the table; the process the first-come, first-served scan selects; the order
  in which processes run.
\<close>

section \<open>Taking and giving back \<open>p->lock\<close>\<close>

definition lk_free :: "spinlock \<Rightarrow> bool" where
  "lk_free lk \<longleftrightarrow> \<not> locked lk \<and> lcpu lk = None"

definition nest_ok :: "cpu \<Rightarrow> bool" where
  "nest_ok cc \<longleftrightarrow> noff cc \<ge> 0 \<and> (noff cc > 0 \<longrightarrow> \<not> sie cc)"

text \<open>A balanced pair of \<open>push_off\<close> and \<open>pop_off\<close> leaves only this trace.\<close>

definition settle :: "cpu \<Rightarrow> cpu" where
  "settle cc = (if noff cc = 0 then cc\<lparr>intena := sie cc\<rparr> else cc)"

definition lock_st :: "nat \<Rightarrow> nat \<Rightarrow> 'z proc_state_scheme \<Rightarrow> 'z proc_state_scheme" where
  "lock_st c p s =
     upd_cpu c push_off (upd_proc p (\<lambda>q. q\<lparr>plock := (plock q)\<lparr>locked := True, lcpu := Some c\<rparr>\<rparr>) s)"

named_theorems st_simps

lemma upd_simps [simp, st_simps]:
  "procs (upd_proc p f s) = (procs s)(p := f (procs s p))" "cpus (upd_proc p f s) = cpus s"
  "procs (upd_cpu c g s) = procs s" "cpus (upd_cpu c g s) = (cpus s)(c := g (cpus s c))"
  by (simp_all add: upd_proc_def upd_cpu_def)

lemma upd_proc_cpu: "upd_proc p f (upd_cpu c g s) = upd_cpu c g (upd_proc p f s)"
  by (simp add: upd_proc_def upd_cpu_def)

lemma upd_cpu_twice [simp]: "upd_cpu c f (upd_cpu c g s) = upd_cpu c (\<lambda>x. f (g x)) s"
  by (simp add: upd_cpu_def)

lemma upd_proc_twice [simp]: "upd_proc p f (upd_proc p g s) = upd_proc p (\<lambda>x. f (g x)) s"
  by (simp add: upd_proc_def)

lemma upd_proc_other: "p \<noteq> q \<Longrightarrow> upd_proc p f (upd_proc q g s) = upd_proc q g (upd_proc p f s)"
  by (simp add: upd_proc_def fun_upd_twist)

lemma upd_cpu_cong: "f (cpus s c) = g (cpus s c) \<Longrightarrow> upd_cpu c f s = upd_cpu c g s"
  by (simp add: upd_cpu_def)

lemma upd_proc_cong: "f (procs s p) = g (procs s p) \<Longrightarrow> upd_proc p f s = upd_proc p g s"
  by (simp add: upd_proc_def)

lemma upd_cpu_id: "f (cpus s c) = cpus s c \<Longrightarrow> upd_cpu c f s = s"
  by (simp add: upd_cpu_def)

lemma upd_proc_id: "f (procs s p) = procs s p \<Longrightarrow> upd_proc p f s = s"
  by (simp add: upd_proc_def)

lemma push_pop: "nest_ok cc \<Longrightarrow> pop_off (push_off cc) = Ok (settle cc)"
  by (cases cc) (auto simp: nest_ok_def pop_off_def push_off_def settle_def Let_def)

lemma settle_simps [simp]:
  "nest_ok (settle cc) = nest_ok cc" "settle (settle cc) = settle cc" "noff (settle cc) = noff cc"
  "sie (settle cc) = sie cc" "cproc (settle cc) = cproc cc"
  by (auto simp: settle_def nest_ok_def)

lemma push_off_simps [simp]:
  "nest_ok cc \<Longrightarrow> nest_ok (push_off cc)" "noff (push_off cc) = noff cc + 1" "\<not> sie (push_off cc)"
  "cproc (push_off cc) = cproc cc" "push_off (settle cc) = push_off cc"
  by (auto simp: push_off_def nest_ok_def settle_def Let_def)

lemma acquire_free:
  "lk_free (plock (procs s p)) \<Longrightarrow> plock_acquire c p s = Ok (lock_st c p s)"
  by (simp add: plock_acquire_def acquire_def lk_free_def holding_def lock_st_def Let_def
      upd_proc_def upd_cpu_def)

text \<open>Any update of the process that leaves its lock alone may happen in between.\<close>

definition keeps_lock :: "(proc \<Rightarrow> proc) \<Rightarrow> bool" where
  "keeps_lock f \<longleftrightarrow> (\<forall>q g. f (plock_update g q) = plock_update g (f q) \<and> plock (f q) = plock q)"

lemma release_lock_st:
  assumes "lk_free (plock (procs s p))" "nest_ok (cpus s c)" "keeps_lock f"
  shows "plock_release c p (upd_proc p f (lock_st c p s)) = Ok (upd_cpu c settle (upd_proc p f s))"
proof -
  obtain lk where lk: "plock (procs s p) = lk" "\<not> locked lk" "lcpu lk = None"
    using assms(1) by (simp add: lk_free_def)
  then have clear: "lk\<lparr>lcpu := None, locked := False\<rparr> = lk" by (cases lk) simp
  have f: "f (plock_update g q) = plock_update g (f q)" "plock (f q) = plock q" for g q
    using assms(3) by (auto simp: keeps_lock_def)
  have restore: "f (procs s p)\<lparr>plock := lk\<rparr> = f (procs s p)"
    using f(2)[of "procs s p"] lk(1) by (cases "f (procs s p)") simp
  show ?thesis
    using lk f push_pop[OF assms(2)]
    by (simp add: plock_release_def release_def holding_def lock_st_def clear restore upd_proc_def upd_cpu_def)
qed

lemma keeps_lock_id: "keeps_lock (\<lambda>q. q)"
  by (simp add: keeps_lock_def)

lemma release_lock_st0:
  "lk_free (plock (procs s p)) \<Longrightarrow> nest_ok (cpus s c) \<Longrightarrow>
   plock_release c p (lock_st c p s) = Ok (upd_cpu c settle s)"
  using release_lock_st[OF _ _ keeps_lock_id, of s p c] by (simp add: upd_proc_def)

lemma lock_st_simps [simp]:
  "cpus (lock_st c p s) = (cpus s)(c := push_off (cpus s c))"
  "q \<noteq> p \<Longrightarrow> procs (lock_st c p s) q = procs s q"
  "pstate (procs (lock_st c p s) q) = pstate (procs s q)"
  "arrival_time (procs (lock_st c p s) q) = arrival_time (procs s q)"
  "chan (procs (lock_st c p s) q) = chan (procs s q)"
  "pid (procs (lock_st c p s) q) = pid (procs s q)"
  "pkilled (procs (lock_st c p s) q) = pkilled (procs s q)"
  by (simp_all add: lock_st_def)

lemma lock_st_commute: "p \<noteq> q \<Longrightarrow> lock_st c p (lock_st c q s) = lock_st c q (lock_st c p s)"
  by (simp add: lock_st_def upd_proc_cpu upd_proc_other[of p q])

section \<open>\<open>wakeup\<close>, \<open>kkill\<close>, \<open>setkilled\<close> and \<open>killed\<close>\<close>

definition locks_free :: "nat set \<Rightarrow> 'z proc_state_scheme \<Rightarrow> bool" where
  "locks_free P s \<longleftrightarrow> (\<forall>p \<in> P. lk_free (plock (procs s p)))"

text \<open>The specification of \<open>wakeup\<close> on the process table.\<close>

definition woken :: "chan \<Rightarrow> proc \<Rightarrow> proc" where
  "woken ch q = (if pstate q = SLEEPING \<and> chan q = Some ch then q\<lparr>pstate := RUNNABLE\<rparr> else q)"

definition wake :: "chan \<Rightarrow> nat option \<Rightarrow> (nat \<Rightarrow> proc) \<Rightarrow> nat \<Rightarrow> proc" where
  "wake ch me ps = (\<lambda>p. if p < NPROC \<and> Some p \<noteq> me then woken ch (ps p) else ps p)"

lemma keeps_lock_woken: "keeps_lock (woken ch)"
  by (simp add: keeps_lock_def woken_def)

lemma woken_plock [simp]: "plock (woken ch q) = plock q"
  by (simp add: woken_def)

lemma wakeup_one_eq:
  assumes "lk_free (plock (procs s p))" "nest_ok (cpus s c)" "myproc c s \<noteq> Some p"
  shows "wakeup_one c ch p s = Ok (upd_cpu c settle (upd_proc p (woken ch) s))"
proof -
  have "(if pstate (procs (lock_st c p s) p) = SLEEPING \<and> chan (procs (lock_st c p s) p) = Some ch
      then upd_proc p (pstate_update (\<lambda>_. RUNNABLE)) (lock_st c p s) else lock_st c p s)
    = upd_proc p (woken ch) (lock_st c p s)"
    by (auto simp: woken_def lock_st_def upd_proc_def upd_cpu_def)
  then show ?thesis
    using assms release_lock_st[OF assms(1,2) keeps_lock_woken]
    by (simp add: wakeup_one_def acquire_free)
qed

definition wake_step :: "nat \<Rightarrow> chan \<Rightarrow> nat \<Rightarrow> 'z proc_state_scheme \<Rightarrow> 'z proc_state_scheme" where
  "wake_step c ch p s =
     (if myproc c s = Some p then s else upd_cpu c settle (upd_proc p (woken ch) s))"

lemma wakeup_fold:
  assumes "locks_free {..<NPROC} s" "nest_ok (cpus s c)"
  shows "wakeup c ch s = Ok (fold (wake_step c ch) [0..<NPROC] s)"
  unfolding wakeup_def
proof (rule conjunct1[OF iterR_fold[where I = "\<lambda>s. locks_free {..<NPROC} s \<and> nest_ok (cpus s c)"]])
  fix p and s :: "'z proc_state_scheme"
  assume "p \<in> set [0..<NPROC]" "locks_free {..<NPROC} s \<and> nest_ok (cpus s c)"
  then show "wakeup_one c ch p s = Ok (wake_step c ch p s) \<and>
      locks_free {..<NPROC} (wake_step c ch p s) \<and> nest_ok (cpus (wake_step c ch p s) c)"
    using wakeup_one_eq[of s p c ch]
    by (auto simp: wake_step_def locks_free_def wakeup_one_def myproc_def)
qed (use assms in auto)

lemma fold_wake_step:
  assumes "noff (cpus s c) > 0" "distinct ps"
  shows "fold (wake_step c ch) ps s
    = s\<lparr>procs := (\<lambda>p. if p \<in> set ps \<and> Some p \<noteq> myproc c s then woken ch (procs s p) else procs s p)\<rparr>"
  using assms
proof (induction ps arbitrary: s)
  case (Cons p ps)
  have st: "wake_step c ch p s = (if myproc c s = Some p then s else upd_proc p (woken ch) s)"
    using Cons.prems by (simp add: wake_step_def settle_def upd_cpu_id)
  have "noff (cpus (wake_step c ch p s) c) > 0" using Cons.prems by (simp add: st)
  from Cons.IH[OF this] Cons.prems(2) show ?case
    by (auto simp: st myproc_def upd_proc_def fun_eq_iff intro!: proc_state.equality)
qed simp

lemma wakeup_wake:
  assumes "locks_free {..<NPROC} s" "nest_ok (cpus s c)" "noff (cpus s c) > 0"
  shows "wakeup c ch s = Ok (s\<lparr>procs := wake ch (myproc c s) (procs s)\<rparr>)"
proof -
  have "(\<lambda>p. if p \<in> set [0..<NPROC] \<and> Some p \<noteq> myproc c s then woken ch (procs s p) else procs s p)
      = wake ch (myproc c s) (procs s)" by (auto simp: wake_def fun_eq_iff)
  then show ?thesis using wakeup_fold[OF assms(1,2)] fold_wake_step[OF assms(3)] by simp
qed

text \<open>
  \<open>wakeup\<close> implements its specification: called with a condition lock held and every
  process lock free, it returns with exactly the sleepers on the channel, other than the
  caller, made runnable, and no lock, CPU or memory state changed.
\<close>

theorem wakeup_correct:
  assumes "locks_free {..<NPROC} s" "nest_ok (cpus s c)" "noff (cpus s c) > 0"
  shows "wakeup c ch s = Ok (s\<lparr>procs := wake ch (myproc c s) (procs s)\<rparr>)"
  using assms by (rule wakeup_wake)

definition killed_proc :: "proc \<Rightarrow> proc" where
  "killed_proc q = q\<lparr>pkilled := 1, pstate := (if pstate q = SLEEPING then RUNNABLE else pstate q)\<rparr>"

lemma keeps_lock_killed: "keeps_lock killed_proc"
  by (simp add: keeps_lock_def killed_proc_def)

lemma kkill_scan_find:
  assumes "locks_free (set ps) s" "nest_ok (cpus s c)" "settle (cpus s c) = cpus s c"
  shows "kkill_scan c k ps s = Ok (case List.find (\<lambda>p. pid (procs s p) = k) ps of
      None \<Rightarrow> (-1, s) | Some p \<Rightarrow> (0, upd_proc p killed_proc s))"
  using assms
proof (induction ps)
  case (Cons p ps)
  have free: "lk_free (plock (procs s p))" using Cons.prems(1) by (simp add: locks_free_def)
  have id: "upd_cpu c settle s = s" using Cons.prems(3) by (intro upd_cpu_id)
  show ?case
  proof (cases "pid (procs s p) = k")
    case True
    let ?l = "lock_st c p s"
    have "(if pstate (procs (upd_proc p (pkilled_update (\<lambda>_. 1)) ?l) p) = SLEEPING
        then upd_proc p (pstate_update (\<lambda>_. RUNNABLE)) (upd_proc p (pkilled_update (\<lambda>_. 1)) ?l)
        else upd_proc p (pkilled_update (\<lambda>_. 1)) ?l) = upd_proc p killed_proc ?l"
    proof (cases "pstate (procs ?l p) = SLEEPING")
      case T: True
      then show ?thesis by (simp add: killed_proc_def[abs_def])
          (rule upd_proc_cong, simp add: killed_proc_def)
    next
      case False
      then have c: "pstate (procs (upd_proc p (pkilled_update (\<lambda>_. 1)) ?l) p) \<noteq> SLEEPING" by simp
      have "(procs ?l p)\<lparr>pkilled := 1\<rparr> = killed_proc (procs ?l p)"
        using False by (cases "procs ?l p") (simp add: killed_proc_def)
      then show ?thesis unfolding if_not_P[OF c] by (rule upd_proc_cong)
    qed
    then show ?thesis
      using True free release_lock_st[OF free Cons.prems(2) keeps_lock_killed]
      by (simp add: acquire_free Let_def upd_proc_cpu[symmetric] id)
  next
    case False
    then show ?thesis
      using Cons.IH Cons.prems free release_lock_st0[OF free Cons.prems(2)] id
      by (simp add: acquire_free locks_free_def)
  qed
qed simp

lemma kkill_scan_settle:
  assumes "lk_free (plock (procs s p))"
  shows "kkill_scan c k (p # ps) s = kkill_scan c k (p # ps) (upd_cpu c settle s)"
proof -
  have "lock_st c p (upd_cpu c settle s) = lock_st c p s"
    by (simp add: lock_st_def upd_proc_cpu)
  then show ?thesis using assms by (simp add: acquire_free)
qed

text \<open>
  \<open>kkill\<close>: it marks the first process in the table with that pid as killed, wakes it if
  it sleeps and returns 0, or returns -1 when there is none; no other process changes and
  every lock it took is released.
\<close>

theorem kkill_correct:
  assumes "locks_free {..<NPROC} s" "nest_ok (cpus s c)"
  shows "kkill c k s = Ok (case List.find (\<lambda>p. pid (procs s p) = k) [0..<NPROC] of
      None \<Rightarrow> (-1, upd_cpu c settle s)
    | Some p \<Rightarrow> (0, upd_proc p killed_proc (upd_cpu c settle s)))"
proof -
  have cons: "[0..<NPROC] = 0 # [1..<NPROC]" by (simp add: NPROC_def upt_conv_Cons)
  have free: "lk_free (plock (procs s 0))" using assms(1) by (simp add: locks_free_def NPROC_def)
  have "kkill c k s = kkill_scan c k [0..<NPROC] (upd_cpu c settle s)"
    using kkill_scan_settle[OF free, of c k "[1..<NPROC]", folded cons] by (simp add: kkill_def)
  then show ?thesis
    using kkill_scan_find[of "[0..<NPROC]" "upd_cpu c settle s" c k] assms
    by (simp add: locks_free_def atLeast0LessThan)
qed

section \<open>The first-come, first-served scan\<close>

text \<open>The selection, as a function of the process table alone.\<close>

fun best :: "(nat \<Rightarrow> proc) \<Rightarrow> nat list \<Rightarrow> nat option \<Rightarrow> nat option" where
  "best t [] sel = sel"
| "best t (p # ps) sel =
     (if pstate (t p) = RUNNABLE
         \<and> (case sel of None \<Rightarrow> True | Some q \<Rightarrow> arrival_time (t p) < arrival_time (t q))
      then best t ps (Some p) else best t ps sel)"

definition hold :: "nat \<Rightarrow> nat option \<Rightarrow> 'z proc_state_scheme \<Rightarrow> 'z proc_state_scheme" where
  "hold c sel s = (case sel of None \<Rightarrow> s | Some q \<Rightarrow> lock_st c q s)"

lemma hold_simps [simp]:
  "hold c None s = s" "hold c (Some q) s = lock_st c q s"
  "pstate (procs (hold c sel s) p) = pstate (procs s p)"
  "arrival_time (procs (hold c sel s) p) = arrival_time (procs s p)"
  by (cases sel; simp add: hold_def)+

lemma hold_nest: "nest_ok (cpus s c) \<Longrightarrow> nest_ok (cpus (hold c sel s) c)"
  by (cases sel) auto

lemma hold_settle: "settle (cpus s c) = cpus s c \<Longrightarrow> nest_ok (cpus s c) \<Longrightarrow> upd_cpu c settle (hold c sel s) = hold c sel s"
  by (cases sel) (auto intro!: upd_cpu_id simp: settle_def nest_ok_def)

lemma hold_lock_commute:
  "sel \<noteq> Some p \<Longrightarrow> lock_st c p (hold c sel s) = (case sel of None \<Rightarrow> lock_st c p s | Some q \<Rightarrow> lock_st c q (lock_st c p s))"
  by (cases sel) (auto simp: lock_st_commute)

lemma fcfs_scan_best:
  assumes "locks_free (set ps) s" "nest_ok (cpus s c)" "settle (cpus s c) = cpus s c" "distinct ps"
    "\<And>q. sel = Some q \<Longrightarrow> q \<notin> set ps \<and> lk_free (plock (procs s q))"
  shows "fcfs_scan c ps sel (hold c sel s)
    = Ok (best (procs s) ps sel, hold c (best (procs s) ps sel) s)"
  using assms
proof (induction ps arbitrary: sel)
  case (Cons p ps)
  have free: "lk_free (plock (procs s p))" using Cons.prems(1) by (simp add: locks_free_def)
  have np: "sel \<noteq> Some p" using Cons.prems(5) by auto
  have procs_p: "procs (hold c sel s) p = procs s p" using np by (cases sel) auto
  have acq: "plock_acquire c p (hold c sel s) = Ok (lock_st c p (hold c sel s))"
    using free procs_p by (simp add: acquire_free)
  have rel: "plock_release c p (lock_st c p (hold c sel s)) = Ok (hold c sel s)"
    using release_lock_st0[of "hold c sel s" p c] free procs_p
      hold_nest[OF Cons.prems(2), of sel] hold_settle[OF Cons.prems(3,2), of sel]
    by simp
  have swap: "(case sel of None \<Rightarrow> Ok (lock_st c p (hold c sel s)) | Some q \<Rightarrow> plock_release c q (lock_st c p (hold c sel s)))
      = Ok (lock_st c p s)"
  proof (cases sel)
    case (Some q)
    then have q: "q \<noteq> p" "lk_free (plock (procs s q))" using Cons.prems(5) np by auto
    have "plock_release c q (lock_st c q (lock_st c p s)) = Ok (upd_cpu c settle (lock_st c p s))"
      using q Cons.prems(2) by (intro release_lock_st0) auto
    also have "\<dots> = Ok (lock_st c p s)"
      using hold_settle[of s c "Some p"] Cons.prems(2,3) by simp
    finally show ?thesis using Some q by (simp add: lock_st_commute)
  qed simp
  have IH: "locks_free (set ps) s" "distinct ps" using Cons.prems(1,4) by (auto simp: locks_free_def)
  show ?case
  proof (cases "pstate (procs s p) = RUNNABLE
      \<and> (case sel of None \<Rightarrow> True | Some q \<Rightarrow> arrival_time (procs s p) < arrival_time (procs s q))")
    case True
    then show ?thesis
      using Cons.IH[OF IH(1) Cons.prems(2,3) IH(2), of "Some p"] acq swap free Cons.prems(4)
      by (auto split: option.splits)
  next
    case False
    then show ?thesis
      using Cons.IH[OF IH(1) Cons.prems(2,3) IH(2), of sel] acq rel Cons.prems(5)
      by (auto split: option.splits)
  qed
qed simp

text \<open>Among the candidates, the selected one arrived first; of two that arrived at the same
  tick, it is the one the scan met first.\<close>

lemma best_None: "best t ps None = None \<longleftrightarrow> (\<forall>p \<in> set ps. pstate (t p) \<noteq> RUNNABLE)"
proof -
  have "best t ps (Some q) \<noteq> None" for ps q by (induction ps arbitrary: q) auto
  then show ?thesis by (induction ps) auto
qed

lemma best_Some:
  assumes "best t ps sel = Some p" "sorted ps" "distinct ps"
    "\<And>q. sel = Some q \<Longrightarrow> pstate (t q) = RUNNABLE \<and> (\<forall>r \<in> set ps. q < r)"
  shows "pstate (t p) = RUNNABLE \<and> (p \<in> set ps \<or> sel = Some p)
    \<and> (\<forall>q \<in> set ps \<union> set_option sel. pstate (t q) = RUNNABLE \<longrightarrow>
         arrival_time (t p) < arrival_time (t q) \<or> arrival_time (t p) = arrival_time (t q) \<and> p \<le> q)"
  using assms
proof (induction ps arbitrary: sel)
  case Nil
  then show ?case by auto
next
  case (Cons r ps)
  show ?case
  proof (cases "pstate (t r) = RUNNABLE
      \<and> (case sel of None \<Rightarrow> True | Some q \<Rightarrow> arrival_time (t r) < arrival_time (t q))")
    case True
    have b: "best t ps (Some r) = Some p" using True Cons.prems(1) by simp
    have "pstate (t p) = RUNNABLE \<and> (p \<in> set ps \<or> Some r = Some p)
      \<and> (\<forall>q \<in> set ps \<union> set_option (Some r). pstate (t q) = RUNNABLE \<longrightarrow>
         arrival_time (t p) < arrival_time (t q) \<or> arrival_time (t p) = arrival_time (t q) \<and> p \<le> q)"
      using Cons.prems(2,3) True by (intro Cons.IH[OF b]) (auto simp: order.strict_iff_order)
    then show ?thesis using True Cons.prems(4) by (auto split: option.splits)
  next
    case False
    have b: "best t ps sel = Some p" using False Cons.prems(1) by auto
    have IH: "pstate (t p) = RUNNABLE \<and> (p \<in> set ps \<or> sel = Some p)
      \<and> (\<forall>q \<in> set ps \<union> set_option sel. pstate (t q) = RUNNABLE \<longrightarrow>
         arrival_time (t p) < arrival_time (t q) \<or> arrival_time (t p) = arrival_time (t q) \<and> p \<le> q)"
      using Cons.prems(2,3,4) by (intro Cons.IH[OF b]) auto
    have "arrival_time (t p) < arrival_time (t r) \<or> arrival_time (t p) = arrival_time (t r) \<and> p \<le> r"
      if runs: "pstate (t r) = RUNNABLE"
    proof -
      obtain q where q: "sel = Some q" "\<not> arrival_time (t r) < arrival_time (t q)"
        using False runs by (auto split: option.splits)
      then have "q < r" "pstate (t q) = RUNNABLE" using Cons.prems(4) by auto
      moreover have "arrival_time (t p) < arrival_time (t q) \<or> arrival_time (t p) = arrival_time (t q) \<and> p \<le> q"
        using IH q(1) calculation(2) by auto
      ultimately show ?thesis using q(2) by (auto simp: not_less)
    qed
    then show ?thesis using IH by auto
  qed
qed

section \<open>One turn of the scheduler\<close>

definition idle :: "nat \<Rightarrow> 'z proc_state_scheme \<Rightarrow> 'z proc_state_scheme" where
  "idle c = upd_cpu c (\<lambda>cc. cc\<lparr>sie := False, intena := False\<rparr>)"

text \<open>The state in which the selected process starts to run: it is \<open>RUNNING\<close>, its lock and no
  other is held.\<close>

definition dispatched :: "nat \<Rightarrow> nat \<Rightarrow> 'z proc_state_scheme \<Rightarrow> 'z proc_state_scheme" where
  "dispatched c p s =
     upd_cpu c (cproc_update (\<lambda>_. Some p)) (upd_proc p (pstate_update (\<lambda>_. RUNNING)) (lock_st c p (idle c s)))"

definition earlier :: "'z proc_state_scheme \<Rightarrow> nat \<Rightarrow> nat \<Rightarrow> bool" where
  "earlier s p q \<longleftrightarrow> arrival_time (procs s p) < arrival_time (procs s q)
     \<or> arrival_time (procs s p) = arrival_time (procs s q) \<and> p < q"

definition runnable :: "'z proc_state_scheme \<Rightarrow> nat set" where
  "runnable s = {p. p < NPROC \<and> pstate (procs s p) = RUNNABLE}"

definition first_of :: "'z proc_state_scheme \<Rightarrow> nat \<Rightarrow> bool" where
  "first_of s p \<longleftrightarrow> p \<in> runnable s \<and> (\<forall>q \<in> runnable s. q \<noteq> p \<longrightarrow> earlier s p q)"

lemma best_first:
  "best (procs s) [0..<NPROC] None = Some p \<Longrightarrow> first_of s p"
  using best_Some[of "procs s" "[0..<NPROC]" None p]
  by (auto simp: first_of_def runnable_def earlier_def order.strict_iff_order)

lemma first_of_unique: "first_of s p \<Longrightarrow> first_of s q \<Longrightarrow> p = q"
  unfolding first_of_def earlier_def by force

lemma scan_all:
  assumes "locks_free {..<NPROC} s" "noff (cpus s c) = 0"
  shows "fcfs_scan c [0..<NPROC] None (intr_off c (intr_on c s))
    = Ok (best (procs s) [0..<NPROC] None, hold c (best (procs s) [0..<NPROC] None) (idle c s))"
proof -
  let ?s = "intr_off c (intr_on c s)"
  have st: "upd_cpu c settle ?s = idle c s"
    using assms(2) by (simp add: intr_off_def intr_on_def idle_def upd_cpu_def settle_def)
  have "lock_st c p (upd_cpu c settle ?s) = lock_st c p ?s" for p
    by (simp add: lock_st_def upd_proc_cpu)
  then have acq: "plock_acquire c 0 (idle c s) = plock_acquire c 0 ?s"
    using assms(1) by (simp add: acquire_free locks_free_def NPROC_def st[symmetric] intr_off_def intr_on_def)
  have cons: "[0..<NPROC] = 0 # [1..<NPROC]" by (simp add: NPROC_def upt_conv_Cons)
  have same: "fcfs_scan c [0..<NPROC] None ?s = fcfs_scan c [0..<NPROC] None (idle c s)"
    unfolding cons by (simp add: acq)
  have p: "procs (idle c s) = procs s" by (simp add: idle_def)
  have "settle (cpus (idle c s) c) = cpus (idle c s) c" "nest_ok (cpus (idle c s) c)"
    using assms(2) by (simp_all add: idle_def settle_def nest_ok_def)
  then show ?thesis
    using fcfs_scan_best[of "[0..<NPROC]" "idle c s" c None] assms(1) same p
    by (simp add: locks_free_def atLeast0LessThan)
qed

lemma scheduler_round_eq:
  assumes "locks_free {..<NPROC} s" "noff (cpus s c) = 0"
  shows "scheduler_round swtch c s = (case best (procs s) [0..<NPROC] None of
      None \<Rightarrow> Ok (None, idle c s)
    | Some p \<Rightarrow> bindR (swtch c p (dispatched c p s)) (\<lambda>s3.
        bindR (plock_release c p (upd_cpu c (cproc_update (\<lambda>_. None)) s3)) (\<lambda>s4. Ok (Some p, s4))))"
  by (auto simp: scheduler_round_def scan_all[OF assms] dispatched_def Let_def split: option.splits)

text \<open>
  C4. First come, first served: with all process locks free, a turn of the scheduler waits
  for an interrupt exactly when no process is runnable; otherwise it switches to the runnable
  process that arrived first (of equal arrivals, the one earliest in the table), which is
  then \<open>RUNNING\<close> with its lock, and no other process lock, held by this CPU.
\<close>

theorem scheduler_fcfs:
  assumes "locks_free {..<NPROC} s" "noff (cpus s c) = 0"
  shows "if runnable s = {} then scheduler_round swtch c s = Ok (None, idle c s)
    else \<exists>p. first_of s p \<and> scheduler_round swtch c s =
      bindR (swtch c p (dispatched c p s)) (\<lambda>s3.
        bindR (plock_release c p (upd_cpu c (cproc_update (\<lambda>_. None)) s3)) (\<lambda>s4. Ok (Some p, s4)))"
proof (cases "best (procs s) [0..<NPROC] None")
  case None
  then have "runnable s = {}" using best_None[of "procs s" "[0..<NPROC]"] by (auto simp: runnable_def)
  then show ?thesis using scheduler_round_eq[OF assms] None by simp
next
  case (Some p)
  then have "first_of s p" by (rule best_first)
  moreover from this have "runnable s \<noteq> {}" by (auto simp: first_of_def)
  ultimately show ?thesis using scheduler_round_eq[OF assms] Some by auto
qed

definition idle_proc :: proc where
  "idle_proc = \<lparr>plock = initlock ''proc'', pstate = UNUSED, chan = None, pkilled = 0, xstate = 0, pid = 0,
     parent = None, kstack = 0, sz = 0, pagetable = 0, trapframe = 0,
     pcontext = \<lparr>ra = 0, sp = 0, sregs = (\<lambda>_. 0)\<rparr>, ofile = (\<lambda>_. None), cwd = None,
     pname = (\<lambda>_. 0), arrival_time = 0\<rparr>"

text \<open>Three runnable processes: process 1 arrived at tick 7, processes 2 and 3 at tick 5.\<close>

definition demo_sched :: proc_state where
  "demo_sched = \<lparr>phys = (\<lambda>_. 0), freelist = 0, tail = 0, trace_memory = 0, kend = 0x80000000, ktrace = [],
     procs = (\<lambda>_. idle_proc)(1 := idle_proc\<lparr>pstate := RUNNABLE, arrival_time := 7\<rparr>,
        2 := idle_proc\<lparr>pstate := RUNNABLE, arrival_time := 5\<rparr>,
        3 := idle_proc\<lparr>pstate := RUNNABLE, arrival_time := 5\<rparr>),
     cpus = (\<lambda>_. \<lparr>cproc = None, noff = 0, intena = False, sie = True\<rparr>), nextpid = 4, initproc = Some 1,
     ticks = 9, trampoline = 0x80001000, etext = 0x80002000, forkret_addr = 0x80001800, kernel_pagetable = 0\<rparr>"

lemma demo_sched_ok: "locks_free {..<NPROC} demo_sched" "noff (cpus demo_sched c) = 0"
  "runnable demo_sched = {1, 2, 3}"
  by (auto simp: locks_free_def demo_sched_def idle_proc_def lk_free_def initlock_def runnable_def NPROC_def
      split: if_splits)

lemma demo_first: "first_of demo_sched p \<longleftrightarrow> p = 2"
proof -
  have "first_of demo_sched 2"
    unfolding first_of_def demo_sched_ok(3) by (auto simp: earlier_def demo_sched_def)
  then show ?thesis using first_of_unique by blast
qed

theorem kkill_correct_witness:
  "kkill 0 77 demo_sched = Ok (-1, upd_cpu 0 settle demo_sched)
   \<and> kkill 0 0 demo_sched = Ok (0, upd_proc 0 killed_proc (upd_cpu 0 settle demo_sched))"
proof -
  have n: "nest_ok (cpus demo_sched 0)" by (simp add: nest_ok_def demo_sched_def)
  have "List.find (\<lambda>p. pid (procs demo_sched p) = 77) [0..<NPROC] = None"
    by (auto simp: find_None_iff demo_sched_def idle_proc_def)
  moreover have "List.find (\<lambda>p. pid (procs demo_sched p) = 0) [0..<NPROC] = Some 0"
    by (simp add: NPROC_def upt_conv_Cons demo_sched_def idle_proc_def)
  ultimately show ?thesis
    using kkill_correct[OF demo_sched_ok(1) n, of 77] kkill_correct[OF demo_sched_ok(1) n, of 0] by simp
qed

text \<open>The same table with interrupts off, a condition lock held, and process 2 asleep.\<close>

theorem wakeup_correct_witness:
  "\<exists>s' :: proc_state. wakeup 0 ChanTicks (upd_cpu 0 push_off
       (upd_proc 2 (\<lambda>q. q\<lparr>pstate := SLEEPING, chan := Some ChanTicks\<rparr>) demo_sched)) = Ok s'
     \<and> pstate (procs s' 2) = RUNNABLE \<and> procs s' 3 = procs demo_sched 3"
proof -
  let ?s = "upd_cpu 0 push_off (upd_proc 2 (\<lambda>q. q\<lparr>pstate := SLEEPING, chan := Some ChanTicks\<rparr>) demo_sched)"
  have "locks_free {..<NPROC} ?s" using demo_sched_ok(1) by (simp add: locks_free_def)
  moreover have "nest_ok (cpus ?s 0)" "noff (cpus ?s 0) > 0"
    by (simp_all add: nest_ok_def demo_sched_def push_off_def Let_def)
  ultimately have ok: "locks_free {..<NPROC} ?s" "nest_ok (cpus ?s 0)" "noff (cpus ?s 0) > 0" by simp_all
  from wakeup_correct[OF ok, of ChanTicks] show ?thesis
    by (auto simp: wake_def woken_def myproc_def demo_sched_def push_off_def NPROC_def idle_proc_def Let_def)
qed

theorem scheduler_fcfs_witness:
  "scheduler_round (\<lambda>c p s. Panic ''stop'') 0 demo_sched = Panic ''stop''
   \<and> scheduler_round (\<lambda>c p s. if p = 2 then Hang else Panic ''stop'') 0 demo_sched = Hang"
  using scheduler_fcfs[OF demo_sched_ok(1,2), of "\<lambda>c p s. Panic ''stop''" 0]
    scheduler_fcfs[OF demo_sched_ok(1,2), of "\<lambda>c p s. if p = 2 then Hang else Panic ''stop''" 0]
  by (simp add: demo_first demo_sched_ok(3))

section \<open>The order in which processes run\<close>

fun rounds :: "(nat \<Rightarrow> nat \<Rightarrow> 'z proc_state_scheme \<Rightarrow> 'z proc_state_scheme res) \<Rightarrow> nat \<Rightarrow> nat \<Rightarrow>
    'z proc_state_scheme \<Rightarrow> (nat option list \<times> 'z proc_state_scheme) res" where
  "rounds swtch c 0 s = Ok ([], s)"
| "rounds swtch c (Suc n) s =
     bindR (scheduler_round swtch c s) (\<lambda>(r, s1).
       bindR (rounds swtch c n s1) (\<lambda>(rs, s2). Ok (r # rs, s2)))"

text \<open>What a process does between two calls of the scheduler, when it changes no other
  process and comes back with its lock held and in state \<open>st\<close>.\<close>

definition comes_back ::
    "(nat \<Rightarrow> nat \<Rightarrow> 'z proc_state_scheme \<Rightarrow> 'z proc_state_scheme res) \<Rightarrow> procstate \<Rightarrow> bool" where
  "comes_back swtch st \<longleftrightarrow> (\<forall>c p s. \<exists>q s'. swtch c p s = Ok s' \<and> procs s' = (procs s)(p := q)
     \<and> plock q = plock (procs s p) \<and> arrival_time q = arrival_time (procs s p) \<and> pstate q = st
     \<and> cpus s' = cpus s)"

lemma idle_simps [simp]:
  "procs (idle c s) = procs s" "noff (cpus (idle c s) c) = noff (cpus s c)"
  "cpus (idle c s) c = (cpus s c)\<lparr>sie := False, intena := False\<rparr>"
  by (simp_all add: idle_def)

text \<open>One process dispatched, run and taken back.\<close>

lemma run_cycle:
  assumes "lk_free (plock (procs s p))" "noff (cpus s c) = 0" "comes_back swtch st"
  shows "\<exists>s3 s4. swtch c p (dispatched c p s) = Ok s3
    \<and> plock_release c p (upd_cpu c (cproc_update (\<lambda>_. None)) s3) = Ok s4
    \<and> cpus s4 c = (cpus s c)\<lparr>intena := False, sie := False, cproc := None\<rparr>
    \<and> lk_free (plock (procs s4 p)) \<and> pstate (procs s4 p) = st
    \<and> arrival_time (procs s4 p) = arrival_time (procs s p) \<and> (\<forall>q. q \<noteq> p \<longrightarrow> procs s4 q = procs s q)"
proof -
  let ?d = "dispatched c p s"
  obtain q s3 where q: "swtch c p ?d = Ok s3" "procs s3 = (procs ?d)(p := q)" "plock q = plock (procs ?d p)"
    "arrival_time q = arrival_time (procs ?d p)" "pstate q = st" "cpus s3 = cpus ?d"
    using assms(3) by (force simp: comes_back_def)
  have lk: "plock q = (plock (procs s p))\<lparr>locked := True, lcpu := Some c\<rparr>"
    using q(3) by (simp add: dispatched_def lock_st_def)
  have cc: "cpus s3 c = (cpus s c)\<lparr>cproc := Some p, noff := 1, intena := False, sie := False\<rparr>"
    using q(6) assms(2) by (simp add: dispatched_def push_off_def Let_def)
  let ?q = "q\<lparr>plock := (plock q)\<lparr>lcpu := None, locked := False\<rparr>\<rparr>"
  let ?c = "(cpus s c)\<lparr>intena := False, sie := False, cproc := None, noff := 0\<rparr>"
  have "plock_release c p (upd_cpu c (cproc_update (\<lambda>_. None)) s3)
      = Ok (upd_cpu c (\<lambda>_. ?c) (upd_proc p (\<lambda>_. ?q) s3))"
    using q(2) lk cc
    by (simp add: plock_release_def release_def holding_def pop_off_def Let_def upd_proc_def upd_cpu_def)
  moreover have "?c = (cpus s c)\<lparr>intena := False, sie := False, cproc := None\<rparr>"
    using assms(2) by (cases "cpus s c") simp
  moreover have "procs s3 r = procs s r" if "r \<noteq> p" for r using q(2) that by (simp add: dispatched_def)
  moreover have "arrival_time q = arrival_time (procs s p)" using q(4) by (simp add: dispatched_def)
  moreover have "lk_free (plock ?q)" using lk by (simp add: lk_free_def)
  ultimately show ?thesis using q(1,5) by auto
qed

lemma round_comes_back:
  assumes "locks_free {..<NPROC} s" "noff (cpus s c) = 0" "comes_back swtch st" "first_of s p"
  shows "\<exists>s4. scheduler_round swtch c s = Ok (Some p, s4) \<and> locks_free {..<NPROC} s4 \<and> noff (cpus s4 c) = 0
    \<and> pstate (procs s4 p) = st \<and> (\<forall>q. arrival_time (procs s4 q) = arrival_time (procs s q))
    \<and> (\<forall>q. q \<noteq> p \<longrightarrow> procs s4 q = procs s q)"
proof -
  have p: "p < NPROC" "runnable s \<noteq> {}" using assms(4) by (auto simp: first_of_def runnable_def)
  have free: "lk_free (plock (procs s p))" using assms(1) p(1) by (simp add: locks_free_def)
  obtain s3 s4 where r: "swtch c p (dispatched c p s) = Ok s3"
    "plock_release c p (upd_cpu c (cproc_update (\<lambda>_. None)) s3) = Ok s4"
    "cpus s4 c = (cpus s c)\<lparr>intena := False, sie := False, cproc := None\<rparr>"
    "lk_free (plock (procs s4 p))" "pstate (procs s4 p) = st"
    "arrival_time (procs s4 p) = arrival_time (procs s p)" "\<forall>q. q \<noteq> p \<longrightarrow> procs s4 q = procs s q"
    using run_cycle[OF free assms(2,3)] by blast
  obtain p' where p': "best (procs s) [0..<NPROC] None = Some p'"
    using best_None[of "procs s" "[0..<NPROC]"] p(2) by (auto simp: runnable_def)
  have "p' = p" using first_of_unique[OF best_first[OF p'] assms(4)] .
  then have "scheduler_round swtch c s = Ok (Some p, s4)"
    using scheduler_round_eq[OF assms(1,2)] p' r(1,2) by simp
  moreover have "locks_free {..<NPROC} s4"
    unfolding locks_free_def
  proof
    fix q assume "q \<in> {..<NPROC}"
    then show "lk_free (plock (procs s4 q))" using r(4,7) assms(1) by (cases "q = p") (auto simp: locks_free_def)
  qed
  moreover have "arrival_time (procs s4 q) = arrival_time (procs s q)" for q
    using r(6,7) by (cases "q = p") auto
  ultimately show ?thesis using r assms(2) by auto
qed

lemma exists_first: "runnable s \<noteq> {} \<Longrightarrow> \<exists>p. first_of s p"
  using best_None[of "procs s" "[0..<NPROC]"] best_first[of s]
  by (cases "best (procs s) [0..<NPROC] None") (auto simp: runnable_def)

lemma finite_runnable: "finite (runnable s)"
  by (simp add: runnable_def)

lemma rounds_yield:
  assumes "locks_free {..<NPROC} s" "noff (cpus s c) = 0" "comes_back swtch RUNNABLE" "first_of s p"
  shows "\<exists>s'. rounds swtch c n s = Ok (replicate n (Some p), s')"
  using assms
proof (induction n arbitrary: s)
  case (Suc n)
  obtain s4 where s4: "scheduler_round swtch c s = Ok (Some p, s4)" "locks_free {..<NPROC} s4"
    "noff (cpus s4 c) = 0" "pstate (procs s4 p) = RUNNABLE"
    "\<forall>q. arrival_time (procs s4 q) = arrival_time (procs s q)" "\<forall>q. q \<noteq> p \<longrightarrow> procs s4 q = procs s q"
    using round_comes_back[OF Suc.prems] by blast
  have "runnable s4 = runnable s"
  proof (intro set_eqI)
    fix q show "q \<in> runnable s4 \<longleftrightarrow> q \<in> runnable s"
      using s4(4,6) Suc.prems(4) by (cases "q = p") (auto simp: first_of_def runnable_def)
  qed
  moreover have "earlier s4 = earlier s" using s4(5) by (simp add: earlier_def fun_eq_iff)
  ultimately have "first_of s4 p" using Suc.prems(4) by (simp add: first_of_def)
  then obtain s' where "rounds swtch c n s4 = Ok (replicate n (Some p), s')"
    using Suc.IH[OF s4(2,3) Suc.prems(3)] by blast
  then show ?case using s4(1) by simp
qed simp

text \<open>
  The scheduler has no aging: a process that gives the CPU up but stays runnable
  (\<open>yield\<close>) is selected again at every turn while it is the earliest arrival, so that the
  processes behind it do not run.
\<close>

theorem fcfs_yield_reselects:
  assumes "locks_free {..<NPROC} s" "noff (cpus s c) = 0" "comes_back swtch RUNNABLE" "first_of s p"
  shows "\<exists>s'. rounds swtch c n s = Ok (replicate n (Some p), s')"
  using assms by (rule rounds_yield)

definition yield_now :: "nat \<Rightarrow> nat \<Rightarrow> 'z proc_state_scheme \<Rightarrow> 'z proc_state_scheme res" where
  "yield_now c p s = Ok (upd_proc p (pstate_update (\<lambda>_. RUNNABLE)) s)"

lemma yield_now_comes_back: "comes_back yield_now RUNNABLE"
  unfolding comes_back_def
proof (intro allI)
  fix c p and s :: "'z proc_state_scheme"
  show "\<exists>q s'. yield_now c p s = Ok s' \<and> procs s' = (procs s)(p := q)
     \<and> plock q = plock (procs s p) \<and> arrival_time q = arrival_time (procs s p) \<and> pstate q = RUNNABLE
     \<and> cpus s' = cpus s"
    by (intro exI[of _ "(procs s p)\<lparr>pstate := RUNNABLE\<rparr>"]) (simp add: yield_now_def)
qed

theorem fcfs_yield_reselects_witness:
  "\<exists>s'. rounds yield_now 0 4 demo_sched = Ok (replicate 4 (Some 2), s')"
  by (rule fcfs_yield_reselects[OF demo_sched_ok(1,2) yield_now_comes_back]) (simp add: demo_first)

section \<open>Round robin\<close>





end
