(* ===== verification/Block.thy ===== *)
theory Block
  imports Mem
begin

text \<open>
  Disk blocks and the little-endian integers stored in them. A block is a function from byte
  offsets to bytes, of which the first \<open>BSIZE\<close> matter. The in-memory view of a block as a C
  struct (\<open>struct superblock\<close>, \<open>struct dinode\<close>, \<open>struct dirent\<close>, \<open>uint[]\<close>) is reading and
  writing integers at byte offsets.
\<close>

type_synonym block = "nat \<Rightarrow> u8"

definition BSIZE :: nat where "BSIZE = 1024"

definition zero_block :: block where "zero_block = (\<lambda>_. 0)"

text \<open>\<open>n\<close> bytes from offset \<open>a\<close>, and their replacement.\<close>

definition bget_bytes :: "block \<Rightarrow> nat \<Rightarrow> nat \<Rightarrow> u8 list" where
  "bget_bytes b a n = map b [a..<a + n]"

definition bput_bytes :: "block \<Rightarrow> nat \<Rightarrow> u8 list \<Rightarrow> block" where
  "bput_bytes b a bs = (\<lambda>i. if a \<le> i \<and> i < a + length bs then bs ! (i - a) else b i)"

definition get16 :: "block \<Rightarrow> nat \<Rightarrow> u16" where
  "get16 b a = ucast (le_word (bget_bytes b a 2))"

definition put16 :: "block \<Rightarrow> nat \<Rightarrow> u16 \<Rightarrow> block" where
  "put16 b a w = bput_bytes b a (le_bytes 2 (ucast w))"

definition get32 :: "block \<Rightarrow> nat \<Rightarrow> u32" where
  "get32 b a = ucast (le_word (bget_bytes b a 4))"

definition put32 :: "block \<Rightarrow> nat \<Rightarrow> u32 \<Rightarrow> block" where
  "put32 b a w = bput_bytes b a (le_bytes 4 (ucast w))"

lemma length_bget_bytes [simp]: "length (bget_bytes b a n) = n"
  by (simp add: bget_bytes_def)

lemma bput_bytes_other: "i < a \<or> a + length bs \<le> i \<Longrightarrow> bput_bytes b a bs i = b i"
  by (auto simp: bput_bytes_def)

lemma bput_bytes_in: "k < length bs \<Longrightarrow> bput_bytes b a bs (a + k) = bs ! k"
  by (simp add: bput_bytes_def)

lemma bget_bput_bytes [simp]: "length bs = n \<Longrightarrow> bget_bytes (bput_bytes b a bs) a n = bs"
  by (rule nth_equalityI) (auto simp: bget_bytes_def bput_bytes_def)

lemma bget_bput_bytes_other:
  "a + n \<le> c \<or> c + length bs \<le> a \<Longrightarrow> bget_bytes (bput_bytes b c bs) a n = bget_bytes b a n"
  by (rule nth_equalityI) (auto simp: bget_bytes_def bput_bytes_def)

lemma get16_put16 [simp]: "get16 (put16 b a w) a = w"
proof -
  have "(take_bit 16 (ucast w :: u64)) = ucast w"
    by (rule bit_eqI) (auto simp: bit_simps dest: bit_imp_le_length)
  moreover have "ucast (ucast w :: u64) = w" by (rule bit_eqI) (auto simp: bit_simps)
  ultimately show ?thesis by (simp add: get16_def put16_def le_word_le_bytes)
qed

lemma get32_put32 [simp]: "get32 (put32 b a w) a = w"
proof -
  have "(take_bit 32 (ucast w :: u64)) = ucast w"
    by (rule bit_eqI) (auto simp: bit_simps dest: bit_imp_le_length)
  moreover have "ucast (ucast w :: u64) = w" by (rule bit_eqI) (auto simp: bit_simps)
  ultimately show ?thesis by (simp add: get32_def put32_def le_word_le_bytes)
qed

lemma get32_put32_other: "a + 4 \<le> c \<or> c + 4 \<le> a \<Longrightarrow> get32 (put32 b c w) a = get32 b a"
  by (simp add: get32_def put32_def bget_bput_bytes_other)

lemma get16_put16_other: "a + 2 \<le> c \<or> c + 2 \<le> a \<Longrightarrow> get16 (put16 b c w) a = get16 b a"
  by (simp add: get16_def put16_def bget_bput_bytes_other)

lemma get16_put32_other: "a + 2 \<le> c \<or> c + 4 \<le> a \<Longrightarrow> get16 (put32 b c w) a = get16 b a"
  by (simp add: get16_def put32_def bget_bput_bytes_other)

lemma get32_put16_other: "a + 4 \<le> c \<or> c + 2 \<le> a \<Longrightarrow> get32 (put16 b c w) a = get32 b a"
  by (simp add: get32_def put16_def bget_bput_bytes_other)

text \<open>\<open>uint a[n]\<close> at offset \<open>base\<close>.\<close>

fun put32s :: "block \<Rightarrow> nat \<Rightarrow> u32 list \<Rightarrow> block" where
  "put32s b base [] = b"
| "put32s b base (w # ws) = put32s (put32 b base w) (base + 4) ws"

definition get32s :: "block \<Rightarrow> nat \<Rightarrow> nat \<Rightarrow> u32 list" where
  "get32s b base n = map (\<lambda>i. get32 b (base + 4 * i)) [0..<n]"

lemma get32_put32s_before: "a + 4 \<le> base \<Longrightarrow> get32 (put32s b base ws) a = get32 b a"
  by (induction ws arbitrary: b base) (auto simp: get32_put32_other)

lemma get16_put32s_before: "a + 2 \<le> base \<Longrightarrow> get16 (put32s b base ws) a = get16 b a"
  by (induction ws arbitrary: b base) (auto simp: get16_put32_other)

lemma put32s_outside: "i < base \<or> base + 4 * length ws \<le> i \<Longrightarrow> put32s b base ws i = b i"
proof (induction ws arbitrary: b base)
  case (Cons w ws)
  then show ?case by (auto simp: put32_def bput_bytes_other)
qed simp

lemma get32_put32s: "k < length ws \<Longrightarrow> get32 (put32s b base ws) (base + 4 * k) = ws ! k"
proof (induction ws arbitrary: b base k)
  case (Cons w ws)
  show ?case
  proof (cases k)
    case 0
    then show ?thesis by (simp add: get32_put32s_before)
  next
    case (Suc j)
    then show ?thesis using Cons.IH[of j "put32 b base w" "base + 4"] Cons.prems by (simp add: add.assoc)
  qed
qed simp

lemma get32s_put32s [simp]: "length ws = n \<Longrightarrow> get32s (put32s b base ws) base n = ws"
  by (rule nth_equalityI) (auto simp: get32s_def get32_put32s)

lemma length_get32s [simp]: "length (get32s b base n) = n"
  by (simp add: get32s_def)

lemma le_word_zeros: "le_word (replicate n 0) = 0"
  by (induction n) auto

lemma get_zero_block [simp]: "get32 zero_block a = 0" "get16 zero_block a = 0"
  by (simp_all add: get32_def get16_def bget_bytes_def zero_block_def map_replicate_const le_word_zeros)

end
