(* ===== verification/Log.thy ===== *)
theory Log
  imports Block Sched_Correct
begin

text \<open>
  The write-ahead log, \<open>kernel/log.c\<close>. The buffer cache is seen through its contract (proved of
  the cache in \<open>Bio\<close>): \<open>bread\<close> shows the cached contents of a block, \<open>bview\<close>; \<open>bwrite\<close> makes
  them durable on \<open>disk\<close>; a modified block that is pinned stays in the cache. \<open>dwrites\<close> records
  the block writes in the order the disk performs them: a crash leaves a prefix of them on the
  disk. One block write is atomic. \<open>log.lock\<close> is held around each update of the in-memory log,
  so \<open>begin_op\<close>, \<open>log_write\<close> and the two halves of \<open>end_op\<close> are atomic steps; \<open>begin_op\<close> where
  the code sleeps is \<open>Hang\<close>.
\<close>

definition MAXOPBLOCKS :: nat where "MAXOPBLOCKS = 10"
definition LOGBLOCKS :: nat where "LOGBLOCKS = MAXOPBLOCKS * 3"

record log_state = proc_state +
  disk :: "nat \<Rightarrow> block"
  bview :: "nat \<Rightarrow> block"
  pins :: "nat \<Rightarrow> int"
  dwrites :: "(nat \<times> block) list"
  log_start :: nat
  outstanding :: int
  committing :: bool
  ncommit :: int
  lh_n :: nat
  lh_block :: "nat \<Rightarrow> nat"

section \<open>The buffer cache as the log sees it\<close>

definition bread :: "nat \<Rightarrow> 'z log_state_scheme \<Rightarrow> block" where
  "bread b s = bview s b"

text \<open>The caller changes the data of a buffer it has locked.\<close>

definition bmodify :: "nat \<Rightarrow> block \<Rightarrow> 'z log_state_scheme \<Rightarrow> 'z log_state_scheme" where
  "bmodify b d s = s\<lparr>bview := (bview s)(b := d)\<rparr>"

definition bwrite :: "nat \<Rightarrow> 'z log_state_scheme \<Rightarrow> 'z log_state_scheme" where
  "bwrite b s = s\<lparr>disk := (disk s)(b := bview s b), dwrites := dwrites s @ [(b, bview s b)]\<rparr>"

definition bpin :: "nat \<Rightarrow> 'z log_state_scheme \<Rightarrow> 'z log_state_scheme" where
  "bpin b s = s\<lparr>pins := (pins s)(b := pins s b + 1)\<rparr>"

definition bunpin :: "nat \<Rightarrow> 'z log_state_scheme \<Rightarrow> 'z log_state_scheme" where
  "bunpin b s = s\<lparr>pins := (pins s)(b := pins s b - 1)\<rparr>"

section \<open>The log header\<close>

definition read_head :: "'z log_state_scheme \<Rightarrow> 'z log_state_scheme" where
  "read_head s =
     (let buf = bread (log_start s) s;
          n = nat (sint (get32 buf 0))
      in s\<lparr>lh_n := n,
           lh_block := (\<lambda>i. if i < n then unat (get32 buf (4 + 4 * i)) else lh_block s i)\<rparr>)"

definition head_block :: "block \<Rightarrow> nat \<Rightarrow> (nat \<Rightarrow> nat) \<Rightarrow> block" where
  "head_block b n blk = put32s (put32 b 0 (of_nat n)) 4 (map (\<lambda>i. of_nat (blk i)) [0..<n])"

definition write_head :: "'z log_state_scheme \<Rightarrow> 'z log_state_scheme" where
  "write_head s =
     (let buf = bread (log_start s) s
      in bwrite (log_start s) (bmodify (log_start s) (head_block buf (lh_n s) (lh_block s)) s))"

section \<open>Commit and recovery\<close>

definition install_one :: "bool \<Rightarrow> nat \<Rightarrow> 'z log_state_scheme \<Rightarrow> 'z log_state_scheme" where
  "install_one recovering k s =
     (let lbuf = bread (log_start s + k + 1) s;
          dst = lh_block s k;
          s1 = bwrite dst (bmodify dst lbuf s)
      in if recovering then s1 else bunpin dst s1)"

definition install_trans :: "bool \<Rightarrow> 'z log_state_scheme \<Rightarrow> 'z log_state_scheme" where
  "install_trans recovering s = fold (install_one recovering) [0..<lh_n s] s"

definition write_log_one :: "nat \<Rightarrow> 'z log_state_scheme \<Rightarrow> 'z log_state_scheme" where
  "write_log_one k s =
     (let to = log_start s + k + 1;
          from' = bread (lh_block s k) s
      in bwrite to (bmodify to from' s))"

definition write_log :: "'z log_state_scheme \<Rightarrow> 'z log_state_scheme" where
  "write_log s = fold write_log_one [0..<lh_n s] s"

definition commit :: "'z log_state_scheme \<Rightarrow> 'z log_state_scheme" where
  "commit s =
     (if lh_n s > 0
      then write_head ((install_trans False (write_head (write_log s)))\<lparr>lh_n := 0\<rparr>)
      else s)"

definition recover_from_log :: "'z log_state_scheme \<Rightarrow> 'z log_state_scheme" where
  "recover_from_log s = write_head ((install_trans True (read_head s))\<lparr>lh_n := 0\<rparr>)"

definition initlog :: "nat \<Rightarrow> 'z log_state_scheme \<Rightarrow> 'z log_state_scheme res" where
  "initlog logstart s =
     (if 4 + 4 * LOGBLOCKS \<ge> BSIZE then Panic ''initlog: too big logheader''
      else Ok (recover_from_log (s\<lparr>log_start := logstart\<rparr>)))"

section \<open>System calls and the log\<close>

definition begin_op :: "'z log_state_scheme \<Rightarrow> 'z log_state_scheme res" where
  "begin_op s =
     (if committing s then Hang
      else if int (lh_n s) + (outstanding s + 1) * int MAXOPBLOCKS > int LOGBLOCKS then Hang
      else Ok (s\<lparr>outstanding := outstanding s + 1\<rparr>))"

text \<open>\<open>end_op\<close> up to the commit, and after it; \<open>me\<close> is the calling process.\<close>

definition end_op_enter :: "nat \<Rightarrow> 'z log_state_scheme \<Rightarrow> (bool \<times> 'z log_state_scheme) res" where
  "end_op_enter me s =
     (let s1 = s\<lparr>outstanding := outstanding s - 1\<rparr>
      in if committing s1 then Panic ''log.committing''
         else if outstanding s1 = 0 then Ok (True, s1\<lparr>committing := True\<rparr>)
         else Ok (False, s1\<lparr>procs := wake ChanLog (Some me) (procs s1)\<rparr>))"

definition end_op_leave :: "nat \<Rightarrow> 'z log_state_scheme \<Rightarrow> 'z log_state_scheme" where
  "end_op_leave me s =
     (let s1 = s\<lparr>committing := False, ncommit := ncommit s + 1\<rparr>
      in s1\<lparr>procs := wake ChanLog (Some me) (procs s1)\<rparr>)"

definition end_op :: "nat \<Rightarrow> 'z log_state_scheme \<Rightarrow> 'z log_state_scheme res" where
  "end_op me s =
     bindR (end_op_enter me s) (\<lambda>(do_commit, s1).
       Ok (if do_commit then end_op_leave me (commit s1) else s1))"

text \<open>The index of \<open>b\<close> among the first \<open>n\<close> logged blocks, or \<open>n\<close>.\<close>

fun log_index :: "(nat \<Rightarrow> nat) \<Rightarrow> nat \<Rightarrow> nat \<Rightarrow> nat \<Rightarrow> nat" where
  "log_index blk b i 0 = i"
| "log_index blk b i (Suc k) = (if blk i = b then i else log_index blk b (Suc i) k)"

definition log_write :: "nat \<Rightarrow> 'z log_state_scheme \<Rightarrow> 'z log_state_scheme res" where
  "log_write b s =
     (if lh_n s \<ge> LOGBLOCKS then Panic ''too big a transaction''
      else if outstanding s < 1 then Panic ''log_write outside of trans''
      else let i = log_index (lh_block s) b 0 (lh_n s);
               s1 = s\<lparr>lh_block := (lh_block s)(i := b)\<rparr>
           in Ok (if i = lh_n s then (bpin b s1)\<lparr>lh_n := lh_n s + 1\<rparr> else s1))"

text \<open>\<open>sys_sync\<close> returns at once when no transaction is open; otherwise it sleeps until the next
  commit.\<close>

definition sys_sync :: "'z log_state_scheme \<Rightarrow> (u64 \<times> 'z log_state_scheme) res" where
  "sys_sync s = (if committing s \<or> outstanding s > 0 then Hang else Ok (0, s))"

end
