(* ===== verification/Log_Correct.thy ===== *)
theory Log_Correct
  imports Log
begin

text \<open>
  Crash safety of the log: a crash leaves on the disk a prefix of the block writes issued so
  far; recovery from any such disk yields either all of a committed transaction or none of it,
  also when recovery itself is interrupted. The admission test of \<open>begin_op\<close> keeps the log from
  overflowing.
\<close>

section \<open>Sequences of block writes\<close>

definition apply_writes :: "(nat \<times> block) list \<Rightarrow> (nat \<Rightarrow> block) \<Rightarrow> nat \<Rightarrow> block" where
  "apply_writes ws d = fold (\<lambda>(b, x) e. e(b := x)) ws d"

lemma apply_writes_Cons [simp]: "apply_writes ((b, x) # ws) d = apply_writes ws (d(b := x))"
  by (simp add: apply_writes_def)

lemma apply_writes_simps [simp]:
  "apply_writes [] d = d" "apply_writes (ws @ vs) d = apply_writes vs (apply_writes ws d)"
  by (simp_all add: apply_writes_def)

text \<open>\<open>f t\<close> receives \<open>g t\<close>, for \<open>t < m\<close>.\<close>

definition writes :: "(nat \<Rightarrow> nat) \<Rightarrow> (nat \<Rightarrow> block) \<Rightarrow> nat \<Rightarrow> (nat \<times> block) list" where
  "writes f g m = map (\<lambda>t. (f t, g t)) [0..<m]"

lemma writes_simps [simp]: "writes f g 0 = []" "writes f g (Suc m) = writes f g m @ [(f m, g m)]"
  "length (writes f g m) = m"
  by (simp_all add: writes_def)

lemma take_writes: "take k (writes f g m) = writes f g (min k m)"
  by (simp add: writes_def take_map min_def)

lemma apply_writes_other: "(\<And>t. t < m \<Longrightarrow> f t \<noteq> b) \<Longrightarrow> apply_writes (writes f g m) d b = d b"
  by (induction m) auto

lemma apply_writes_in: "t < m \<Longrightarrow> inj_on f {..<m} \<Longrightarrow> apply_writes (writes f g m) d (f t) = g t"
proof (induction m)
  case (Suc m)
  show ?case
  proof (cases "t = m")
    case False
    then have "t < m" using Suc.prems by simp
    moreover have "f m \<noteq> f t" using Suc.prems False by (auto dest: inj_onD)
    moreover have "inj_on f {..<m}" using Suc.prems(2) by (rule inj_on_subset) auto
    ultimately show ?thesis using Suc by simp
  qed simp
qed simp

lemma writes_cong: "(\<And>t. t < m \<Longrightarrow> f t = f' t \<and> g t = g' t) \<Longrightarrow> writes f g m = writes f' g' m"
  by (simp add: writes_def)

section \<open>What commit and recovery write\<close>

definition log_area :: "nat \<Rightarrow> nat set" where
  "log_area start = {start..start + LOGBLOCKS}"

text \<open>The blocks of a transaction lie outside the log, are distinct and fit in it.\<close>

definition trans_ok :: "nat \<Rightarrow> nat \<Rightarrow> (nat \<Rightarrow> nat) \<Rightarrow> bool" where
  "trans_ok start n blk \<longleftrightarrow> n \<le> LOGBLOCKS \<and> inj_on blk {..<n}
     \<and> (\<forall>t<n. blk t \<notin> log_area start \<and> blk t < 2 ^ 32)"

lemma trans_ok_slot: "trans_ok start n blk \<Longrightarrow> t < n \<Longrightarrow> u < n \<Longrightarrow> blk t \<noteq> start + u + 1 \<and> blk t \<noteq> start"
proof -
  assume a: "trans_ok start n blk" "t < n" "u < n"
  then have "start + u + 1 \<in> log_area start" "start \<in> log_area start" "blk t \<notin> log_area start"
    by (auto simp: trans_ok_def log_area_def)
  then show ?thesis by metis
qed

lemma bwrite_bmodify [simp]:
  "disk (bwrite b (bmodify b d s)) = (disk s)(b := d)"
  "bview (bwrite b (bmodify b d s)) = (bview s)(b := d)"
  "dwrites (bwrite b (bmodify b d s)) = dwrites s @ [(b, d)]"
  "log_start (bwrite b (bmodify b d s)) = log_start s" "lh_n (bwrite b (bmodify b d s)) = lh_n s"
  "lh_block (bwrite b (bmodify b d s)) = lh_block s"
  by (simp_all add: bwrite_def bmodify_def)

lemma bunpin_simps [simp]:
  "disk (bunpin b s) = disk s" "bview (bunpin b s) = bview s" "dwrites (bunpin b s) = dwrites s"
  "log_start (bunpin b s) = log_start s" "lh_n (bunpin b s) = lh_n s" "lh_block (bunpin b s) = lh_block s"
  by (simp_all add: bunpin_def)

text \<open>\<open>wrote s ws s'\<close>: from \<open>s\<close> to \<open>s'\<close> the writes \<open>ws\<close> went to the disk and through the cache.\<close>

definition wrote :: "'z log_state_scheme \<Rightarrow> (nat \<times> block) list \<Rightarrow> 'z log_state_scheme \<Rightarrow> bool" where
  "wrote s ws s' \<longleftrightarrow> disk s' = apply_writes ws (disk s) \<and> bview s' = apply_writes ws (bview s)
     \<and> dwrites s' = dwrites s @ ws \<and> log_start s' = log_start s \<and> lh_block s' = lh_block s"

lemma wrote_trans: "wrote s ws s1 \<Longrightarrow> wrote s1 vs s2 \<Longrightarrow> wrote s (ws @ vs) s2"
  by (simp add: wrote_def)

lemma fold_write_log:
  assumes "trans_ok (log_start s) n (lh_block s)" "m \<le> n"
  shows "wrote s (writes (\<lambda>t. log_start s + t + 1) (\<lambda>t. bview s (lh_block s t)) m) (fold write_log_one [0..<m] s)
    \<and> lh_n (fold write_log_one [0..<m] s) = lh_n s"
  using assms(2)
proof (induction m)
  case (Suc m)
  let ?s = "fold write_log_one [0..<m] s"
  have w: "wrote s (writes (\<lambda>t. log_start s + t + 1) (\<lambda>t. bview s (lh_block s t)) m) ?s" "lh_n ?s = lh_n s"
    using Suc by auto
  have "\<forall>t < m. log_start s + t + 1 \<noteq> lh_block s m"
    using trans_ok_slot[OF assms(1)] Suc.prems by (metis Suc_le_eq less_trans)
  then have "bview ?s (lh_block s m) = bview s (lh_block s m)"
    using w(1) unfolding wrote_def by (simp add: apply_writes_other)
  then have "wrote ?s [(log_start s + m + 1, bview s (lh_block s m))] (write_log_one m ?s)
      \<and> lh_n (write_log_one m ?s) = lh_n ?s"
    using w(1) by (simp add: wrote_def write_log_one_def bread_def Let_def)
  then show ?case using wrote_trans[OF w(1)] w(2) by simp
qed (simp add: wrote_def)

lemma install_one_wrote:
  "wrote s [(lh_block s k, bview s (log_start s + k + 1))] (install_one rec k s) \<and> lh_n (install_one rec k s) = lh_n s"
  by (cases rec) (simp_all add: wrote_def install_one_def bread_def Let_def)

lemma fold_install:
  assumes "trans_ok (log_start s) n (lh_block s)" "m \<le> n"
  shows "wrote s (writes (lh_block s) (\<lambda>t. bview s (log_start s + t + 1)) m) (fold (install_one rec) [0..<m] s)
    \<and> lh_n (fold (install_one rec) [0..<m] s) = lh_n s"
  using assms(2)
proof (induction m)
  case (Suc m)
  let ?s = "fold (install_one rec) [0..<m] s"
  have w: "wrote s (writes (lh_block s) (\<lambda>t. bview s (log_start s + t + 1)) m) ?s" "lh_n ?s = lh_n s"
    using Suc by auto
  have "\<forall>t < m. lh_block s t \<noteq> log_start s + m + 1"
    using trans_ok_slot[OF assms(1)] Suc.prems by (metis Suc_le_eq less_trans)
  then have "bview ?s (log_start s + m + 1) = bview s (log_start s + m + 1)"
    using w(1) unfolding wrote_def by (simp add: apply_writes_other)
  then have "wrote ?s [(lh_block s m, bview s (log_start s + m + 1))] (install_one rec m ?s)
      \<and> lh_n (install_one rec m ?s) = lh_n ?s"
    using install_one_wrote[of ?s m rec] w(1) by (simp add: wrote_def)
  then show ?case using wrote_trans[OF w(1)] w(2) by simp
qed (simp add: wrote_def)

lemma write_head_wrote:
  "wrote s [(log_start s, head_block (bview s (log_start s)) (lh_n s) (lh_block s))] (write_head s)
   \<and> lh_n (write_head s) = lh_n s"
  by (simp add: wrote_def write_head_def bread_def Let_def)

lemma wrote_lh_n: "wrote s ws (s'\<lparr>lh_n := k\<rparr>) \<longleftrightarrow> wrote s ws s'"
  by (simp add: wrote_def)

text \<open>The header as recovery reads it from a disk.\<close>

definition hdr_n :: "(nat \<Rightarrow> block) \<Rightarrow> nat \<Rightarrow> nat" where
  "hdr_n d start = nat (sint (get32 (d start) 0))"

definition hdr_blk :: "(nat \<Rightarrow> block) \<Rightarrow> nat \<Rightarrow> nat \<Rightarrow> nat" where
  "hdr_blk d start i = unat (get32 (d start) (4 + 4 * i))"

lemma hdr_head_block:
  assumes "d start = head_block x n blk" "trans_ok start n blk"
  shows "hdr_n d start = n" "t < n \<Longrightarrow> hdr_blk d start t = blk t"
proof -
  have n: "n \<le> 30" using assms(2) by (simp add: trans_ok_def LOGBLOCKS_def MAXOPBLOCKS_def)
  have "get32 (d start) 0 = of_nat n"
    unfolding assms(1) head_block_def by (simp add: get32_put32s_before)
  moreover have "sint (of_nat n :: u32) = int n"
    using n signed_take_bit_int_eq_self[of 31 "int n"] by (simp add: signed_of_nat)
  ultimately show "hdr_n d start = n" by (simp add: hdr_n_def)
  assume t: "t < n"
  then have "get32 (d start) (4 + 4 * t) = of_nat (blk t)"
    unfolding assms(1) head_block_def by (subst get32_put32s) auto
  moreover have "blk t < 2 ^ 32" using assms(2) t by (auto simp: trans_ok_def)
  ultimately show "hdr_blk d start t = blk t" by (simp add: hdr_blk_def unsigned_of_nat take_bit_nat_eq_self)
qed

lemma hdr_head_empty: "d start = head_block x 0 blk \<Longrightarrow> hdr_n d start = 0"
  using hdr_head_block(1)[of d start x 0 blk] by (simp add: trans_ok_def)

text \<open>What recovery writes, read off the disk it starts from.\<close>

definition recovery_writes :: "(nat \<Rightarrow> block) \<Rightarrow> nat \<Rightarrow> (nat \<times> block) list" where
  "recovery_writes d start = writes (hdr_blk d start) (\<lambda>t. d (start + t + 1)) (hdr_n d start)"

definition hdr_ok :: "(nat \<Rightarrow> block) \<Rightarrow> nat \<Rightarrow> bool" where
  "hdr_ok d start \<longleftrightarrow> trans_ok start (hdr_n d start) (hdr_blk d start)"

lemma trans_ok_cong: "trans_ok start n blk \<Longrightarrow> (\<And>t. t < n \<Longrightarrow> blk' t = blk t) \<Longrightarrow> trans_ok start n blk'"
  by (auto simp: trans_ok_def intro: inj_on_cong[THEN iffD1])

lemma recover_wrote:
  assumes "disk s = d" "bview s = d" "log_start s = start" "hdr_ok d start"
  shows "\<exists>x blk. wrote (read_head s) (recovery_writes d start @ [(start, head_block x 0 blk)]) (recover_from_log s)"
proof -
  let ?s = "read_head s"
  have r: "lh_n ?s = hdr_n d start" "log_start ?s = start" "bview ?s = d" "disk ?s = d"
    "\<And>t. t < hdr_n d start \<Longrightarrow> lh_block ?s t = hdr_blk d start t"
    using assms by (simp_all add: read_head_def bread_def Let_def hdr_n_def hdr_blk_def)
  have "trans_ok (log_start ?s) (hdr_n d start) (lh_block ?s)"
    using assms(4) r by (auto simp: hdr_ok_def intro: trans_ok_cong)
  from fold_install[OF this le_refl]
  have "wrote ?s (writes (lh_block ?s) (\<lambda>t. bview ?s (log_start ?s + t + 1)) (hdr_n d start)) (install_trans True ?s)"
    unfolding install_trans_def r(1) by blast
  moreover have "writes (lh_block ?s) (\<lambda>t. bview ?s (log_start ?s + t + 1)) (hdr_n d start) = recovery_writes d start"
    using r unfolding recovery_writes_def by (intro writes_cong) auto
  ultimately have i: "wrote ?s (recovery_writes d start) ((install_trans True ?s)\<lparr>lh_n := 0\<rparr>)"
    by (simp add: wrote_lh_n)
  then have "log_start ((install_trans True ?s)\<lparr>lh_n := 0\<rparr>) = start" using r(2) by (simp add: wrote_def)
  then show ?thesis
    using wrote_trans[OF i conjunct1[OF write_head_wrote]]
    unfolding recover_from_log_def by auto
qed

lemma read_head_simps [simp]:
  "disk (read_head s) = disk s" "bview (read_head s) = bview s" "dwrites (read_head s) = dwrites s"
  "log_start (read_head s) = log_start s"
  by (simp_all add: read_head_def Let_def)

section \<open>Crashes\<close>

text \<open>The disk after a crash when only the first \<open>k\<close> of the block writes between \<open>s\<close> and \<open>s'\<close>
  reached it, and the machine started again on that disk with its memory lost.\<close>

definition crash :: "'z log_state_scheme \<Rightarrow> 'z log_state_scheme \<Rightarrow> nat \<Rightarrow> nat \<Rightarrow> block" where
  "crash s s' k = apply_writes (take k (drop (length (dwrites s)) (dwrites s'))) (disk s)"

definition reboot :: "'z log_state_scheme \<Rightarrow> (nat \<Rightarrow> block) \<Rightarrow> 'z log_state_scheme" where
  "reboot s d = s\<lparr>disk := d, bview := d, pins := (\<lambda>_. 0), dwrites := [], outstanding := 0, committing := False,
     lh_n := 0, lh_block := (\<lambda>_. 0)\<rparr>"

lemma reboot_simps [simp]:
  "disk (reboot s d) = d" "bview (reboot s d) = d" "log_start (reboot s d) = log_start s"
  by (simp_all add: reboot_def)

lemma reboot_twice [simp]: "reboot (reboot s d) e = reboot s e"
  by (simp add: reboot_def)

lemma crash_wrote: "wrote s ws s' \<Longrightarrow> crash s s' k = apply_writes (take k ws) (disk s)"
  by (simp add: crash_def wrote_def)

text \<open>The blocks outside the log after recovery from disk \<open>d\<close>.\<close>

lemma recovered:
  assumes "hdr_ok d (log_start s)" "b \<notin> log_area (log_start s)"
  shows "disk (recover_from_log (reboot s d)) b = apply_writes (recovery_writes d (log_start s)) d b"
proof -
  obtain x blk where "wrote (read_head (reboot s d))
      (recovery_writes d (log_start s) @ [(log_start s, head_block x 0 blk)]) (recover_from_log (reboot s d))"
    using recover_wrote[of "reboot s d" d "log_start s"] assms(1) by auto
  then show ?thesis using assms(2) by (auto simp: wrote_def log_area_def)
qed

lemma recovery_writes_b:
  assumes "hdr_ok d start"
  shows "apply_writes (recovery_writes d start) d b =
    (if \<exists>t < hdr_n d start. b = hdr_blk d start t
     then d (start + (THE t. t < hdr_n d start \<and> b = hdr_blk d start t) + 1) else d b)"
proof (cases "\<exists>t < hdr_n d start. b = hdr_blk d start t")
  case True
  then obtain t where t: "t < hdr_n d start" "b = hdr_blk d start t" by blast
  have inj: "inj_on (hdr_blk d start) {..<hdr_n d start}" using assms by (simp add: hdr_ok_def trans_ok_def)
  then have "(THE t. t < hdr_n d start \<and> b = hdr_blk d start t) = t"
    using t by (intro the_equality) (auto dest: inj_onD)
  then show ?thesis using True t apply_writes_in[OF t(1) inj, of "\<lambda>t. d (start + t + 1)" d]
    by (simp add: recovery_writes_def)
next
  case False
  then show ?thesis by (auto simp: recovery_writes_def intro!: apply_writes_other)
qed

text \<open>What a commit writes: the log blocks, the header, the home blocks, the empty header.\<close>

definition log_writes :: "'z log_state_scheme \<Rightarrow> (nat \<times> block) list" where
  "log_writes s = writes (\<lambda>t. log_start s + t + 1) (\<lambda>t. bview s (lh_block s t)) (lh_n s)"

definition home_writes :: "'z log_state_scheme \<Rightarrow> (nat \<times> block) list" where
  "home_writes s = writes (lh_block s) (\<lambda>t. bview s (lh_block s t)) (lh_n s)"

definition commit_head :: "'z log_state_scheme \<Rightarrow> block" where
  "commit_head s = head_block (bview s (log_start s)) (lh_n s) (lh_block s)"

lemma commit_wrote:
  assumes ok: "trans_ok (log_start s) (lh_n s) (lh_block s)" and n: "lh_n s > 0"
  shows "\<exists>x blk. wrote s (log_writes s @ [(log_start s, commit_head s)] @ home_writes s
      @ [(log_start s, head_block x 0 blk)]) (commit s)"
proof -
  let ?s1 = "write_log s" and ?s2 = "write_head (write_log s)"
  have s1: "wrote s (log_writes s) ?s1" "lh_n ?s1 = lh_n s"
    using fold_write_log[OF ok le_refl] by (simp_all add: write_log_def log_writes_def)
  then have f1: "log_start ?s1 = log_start s" "lh_block ?s1 = lh_block s" by (auto simp: wrote_def)
  have "bview ?s1 (log_start s) = bview s (log_start s)"
    using s1(1) by (auto simp: wrote_def log_writes_def intro!: apply_writes_other)
  then have "wrote ?s1 [(log_start s, commit_head s)] ?s2" "lh_n ?s2 = lh_n s"
    using write_head_wrote[of ?s1] s1(2) f1 by (simp_all add: commit_head_def)
  then have s2: "wrote s (log_writes s @ [(log_start s, commit_head s)]) ?s2" "lh_n ?s2 = lh_n s"
    using wrote_trans[OF s1(1)] by auto
  have v: "bview ?s2 (log_start s + t + 1) = bview s (lh_block s t)" if "t < lh_n s" for t
  proof -
    have "inj_on (\<lambda>t. log_start s + t + 1) {..<lh_n s}" by (rule inj_onI) simp
    from apply_writes_in[OF that this, of "\<lambda>t. bview s (lh_block s t)" "bview s"]
    show ?thesis using s2(1) by (simp add: wrote_def log_writes_def)
  qed
  have f2: "log_start ?s2 = log_start s" "lh_block ?s2 = lh_block s" using s2 by (auto simp: wrote_def)
  have "wrote ?s2 (writes (lh_block s) (\<lambda>t. bview ?s2 (log_start s + t + 1)) (lh_n s)) (install_trans False ?s2)"
    using fold_install[of ?s2 "lh_n s" "lh_n s" False] ok f2 s2(2) by (simp add: install_trans_def)
  moreover have "writes (lh_block s) (\<lambda>t. bview ?s2 (log_start s + t + 1)) (lh_n s) = home_writes s"
    unfolding home_writes_def using v by (intro writes_cong) auto
  ultimately have "wrote ?s2 (home_writes s) ((install_trans False ?s2)\<lparr>lh_n := 0\<rparr>)"
    by (simp add: wrote_lh_n)
  note s3 = wrote_trans[OF s2(1) this]
  have "log_start ((install_trans False ?s2)\<lparr>lh_n := 0\<rparr>) = log_start s" using s3 by (simp add: wrote_def)
  then show ?thesis
    using wrote_trans[OF s3 conjunct1[OF write_head_wrote]] n unfolding commit_def by (auto simp: Let_def)
qed

text \<open>A transaction in memory, ready to commit: it fits, the header on disk is empty and every
  block outside the transaction is the same in the cache and on the disk.\<close>

definition ready :: "'z log_state_scheme \<Rightarrow> bool" where
  "ready s \<longleftrightarrow> trans_ok (log_start s) (lh_n s) (lh_block s) \<and> hdr_n (disk s) (log_start s) = 0
     \<and> (\<forall>b. b \<notin> lh_block s ` {..<lh_n s} \<longrightarrow> bview s b = disk s b)"

lemma crash_cases:
  assumes "ready s" "0 < lh_n s"
  shows "let d = crash s (commit s) k; b0 = log_start s in hdr_ok d b0
    \<and> (\<forall>b. b \<notin> log_area b0 \<longrightarrow> apply_writes (recovery_writes d b0) d b = (if k \<le> lh_n s then disk s b else bview s b))"
proof -
  let ?n = "lh_n s" and ?d = "crash s (commit s) k" and ?st = "log_start s"
  have ok: "trans_ok ?st ?n (lh_block s)" using assms(1) by (simp add: ready_def)
  obtain x blk where w: "wrote s (log_writes s @ [(?st, commit_head s)] @ home_writes s @ [(?st, head_block x 0 blk)]) (commit s)"
    using commit_wrote[OF ok assms(2)] by blast
  have inj: "inj_on (lh_block s) {..<?n}" using ok by (simp add: trans_ok_def)
  have outside: "apply_writes (log_writes s) e b = e b" if "b \<notin> log_area ?st \<or> b = ?st" for e b
    using that ok unfolding log_writes_def
    by (intro apply_writes_other) (auto simp: log_area_def trans_ok_def)
  have len: "length (log_writes s) = ?n" "length (home_writes s) = ?n"
    by (simp_all add: log_writes_def home_writes_def)
  note cw = crash_wrote[OF w, of k]
  consider "k \<le> ?n" | "?n < k" "k \<le> 2 * ?n + 1" | "2 * ?n + 1 < k" by linarith
  then show ?thesis
  proof cases
    case 1
    then have d: "?d = apply_writes (writes (\<lambda>t. ?st + t + 1) (\<lambda>t. bview s (lh_block s t)) k) (disk s)"
      using cw len by (simp add: log_writes_def take_writes min_def)
    have "?d b = disk s b" if "b \<notin> log_area ?st \<or> b = ?st" for b
      using that ok 1 unfolding d by (intro apply_writes_other) (auto simp: log_area_def trans_ok_def)
    moreover from this have "hdr_n ?d ?st = 0" using assms(1) by (simp add: ready_def hdr_n_def)
    ultimately show ?thesis using 1 by (simp add: recovery_writes_def hdr_ok_def trans_ok_def Let_def)
  next
    case 2
    let ?j = "k - Suc ?n"
    have d: "?d = apply_writes (writes (lh_block s) (\<lambda>t. bview s (lh_block s t)) ?j)
        ((apply_writes (log_writes s) (disk s))(?st := commit_head s))"
    proof -
      have j: "?j \<le> ?n" "k - ?n = Suc ?j" using 2 by auto
      then have "take k (log_writes s @ [(?st, commit_head s)] @ home_writes s @ [(?st, head_block x 0 blk)])
          = log_writes s @ (?st, commit_head s) # take ?j (home_writes s)"
        using len 2 by simp
      then show ?thesis using cw j by (simp add: home_writes_def take_writes min_absorb1)
    qed
    have hd: "?d ?st = commit_head s"
    proof -
      have "lh_block s t \<noteq> ?st" if "t < ?j" for t using trans_ok_slot[OF ok, of t t] that 2 by simp
      then show ?thesis unfolding d by (subst apply_writes_other) auto
    qed
    note h = hdr_head_block[of ?d ?st, OF hd[unfolded commit_head_def] ok]
    have lg: "?d (?st + t + 1) = bview s (lh_block s t)" if "t < ?n" for t
    proof -
      have "inj_on (\<lambda>t. ?st + t + 1) {..<?n}" by (rule inj_onI) simp
      from apply_writes_in[OF that this, of "\<lambda>t. bview s (lh_block s t)" "disk s"]
      show ?thesis unfolding d using trans_ok_slot[OF ok _ that] 2
        by (subst apply_writes_other) (auto simp: log_writes_def)
    qed
    have hok: "hdr_ok ?d ?st" using ok h unfolding hdr_ok_def by (auto intro: trans_ok_cong)
    have "apply_writes (recovery_writes ?d ?st) ?d b = bview s b" if b: "b \<notin> log_area ?st" for b
    proof (cases "b \<in> lh_block s ` {..<?n}")
      case True
      then obtain t where t: "t < ?n" "b = lh_block s t" by auto
      have "recovery_writes ?d ?st = writes (lh_block s) (\<lambda>t. bview s (lh_block s t)) ?n"
        unfolding recovery_writes_def h(1) using h(2) lg by (intro writes_cong) auto
      then show ?thesis using apply_writes_in[OF t(1) inj] t(2) by simp
    next
      case False
      then have "apply_writes (recovery_writes ?d ?st) ?d b = ?d b"
        unfolding recovery_writes_def h(1) using h(2) by (intro apply_writes_other) auto
      also have "\<dots> = ((apply_writes (log_writes s) (disk s))(?st := commit_head s)) b"
        unfolding d using False 2 by (intro apply_writes_other) auto
      also have "\<dots> = disk s b" using b outside by (auto simp: log_area_def)
      finally show ?thesis using assms(1) False by (simp add: ready_def)
    qed
    then show ?thesis using 2 hok by (simp add: Let_def)
  next
    case 3
    have d: "?d = (apply_writes (home_writes s) ((apply_writes (log_writes s) (disk s))(?st := commit_head s)))(?st := head_block x 0 blk)"
      using cw len 3 by simp
    then have h0: "hdr_n ?d ?st = 0" using hdr_head_empty[of ?d ?st x blk] by simp
    have "?d b = bview s b" if b: "b \<notin> log_area ?st" for b
    proof (cases "b \<in> lh_block s ` {..<?n}")
      case True
      then obtain t where t: "t < ?n" "b = lh_block s t" by auto
      have "b \<noteq> ?st" using b by (auto simp: log_area_def)
      then show ?thesis unfolding d home_writes_def using apply_writes_in[OF t(1) inj] t(2) by simp
    next
      case False
      have "b \<noteq> ?st" using b by (auto simp: log_area_def)
      then have "?d b = apply_writes (log_writes s) (disk s) b"
      proof -
        have "lh_block s t \<noteq> b" if "t < ?n" for t using False that by auto
        then show ?thesis unfolding d home_writes_def using \<open>b \<noteq> ?st\<close> by (simp add: apply_writes_other)
      qed
      then show ?thesis using outside b assms(1) False by (simp add: ready_def)
    qed
    then show ?thesis using 3 h0 by (simp add: recovery_writes_def hdr_ok_def trans_ok_def Let_def)
  qed
qed

section \<open>Properties\<close>

text \<open>
  C1. Crash atomicity: cut the block writes of a commit off at any point, lose the memory and
  run recovery. Outside the log the disk then holds the state before the transaction when the
  header had not been written yet, and the state after it when it had.
\<close>

theorem commit_crash_atomic:
  assumes "ready s" "0 < lh_n s" "b \<notin> log_area (log_start s)"
  shows "disk (recover_from_log (reboot s (crash s (commit s) k))) b
    = (if k \<le> lh_n s then disk s b else bview s b)"
  using crash_cases[OF assms(1,2), of k] recovered[OF _ assms(3)] assms(3) by (simp add: Let_def)

text \<open>Recovery interrupted: the header and the log blocks are intact until it is done.\<close>

lemma recovery_crash_disk:
  assumes ok: "hdr_ok d start" and d1: "d1 = apply_writes (take j (recovery_writes d start @ [(start, head_block x 0 blk)])) d"
  shows "hdr_ok d1 start \<and> (\<forall>b. b \<notin> log_area start \<longrightarrow>
     apply_writes (recovery_writes d1 start) d1 b = apply_writes (recovery_writes d start) d b)"
proof (cases "j \<le> hdr_n d start")
  case True
  let ?n = "hdr_n d start" and ?f = "hdr_blk d start" and ?g = "\<lambda>t. d (start + t + 1)"
  have tok: "trans_ok start ?n ?f" using ok by (simp add: hdr_ok_def)
  then have inj: "inj_on ?f {..<?n}" by (simp add: trans_ok_def)
  have e: "d1 = apply_writes (writes ?f ?g j) d"
    using True d1 by (simp add: recovery_writes_def take_writes min_def)
  have lg: "d1 b = d b" if b: "b = start \<or> (\<exists>t < ?n. b = start + t + 1)" for b
  proof -
    have "b \<in> log_area start" using b tok by (auto simp: log_area_def trans_ok_def)
    moreover have "?f t \<notin> log_area start" if "t < j" for t using tok that True by (auto simp: trans_ok_def)
    ultimately have "?f t \<noteq> b" if "t < j" for t using that by metis
    then show ?thesis unfolding e by (simp add: apply_writes_other)
  qed
  have same: "hdr_n d1 start = ?n" "hdr_blk d1 start = ?f"
  proof -
    have "d1 start = d start" using lg by blast
    then show "hdr_n d1 start = ?n" "hdr_blk d1 start = ?f" by (simp_all add: hdr_n_def hdr_blk_def[abs_def])
  qed
  have w: "recovery_writes d1 start = recovery_writes d start"
    unfolding recovery_writes_def same using lg by (intro writes_cong) auto
  have "apply_writes (recovery_writes d start) d1 b = apply_writes (recovery_writes d start) d b" for b
  proof (cases "\<exists>t < ?n. b = ?f t")
    case T: True
    then show ?thesis using apply_writes_in[OF _ inj] by (auto simp: recovery_writes_def)
  next
    case F: False
    then have "?f t \<noteq> b" if "t < ?n" for t using that by auto
    then show ?thesis using True by (simp add: recovery_writes_def e apply_writes_other)
  qed
  then show ?thesis using w same tok by (simp add: hdr_ok_def)
next
  case False
  then have "d1 = (apply_writes (recovery_writes d start) d)(start := head_block x 0 blk)"
    using d1 by (simp add: recovery_writes_def)
  moreover from this have "hdr_n d1 start = 0" using hdr_head_empty[of d1 start x blk] by simp
  ultimately show ?thesis
    by (auto simp: recovery_writes_def hdr_ok_def trans_ok_def log_area_def)
qed

text \<open>
  C20. Recovery may itself be cut off by a crash at any point and started again: the second
  recovery leaves the same blocks outside the log as one uninterrupted recovery.
\<close>

theorem recovery_restartable:
  assumes "ready s" "0 < lh_n s" "b \<notin> log_area (log_start s)" "r = reboot s (crash s (commit s) k)"
  shows "disk (recover_from_log (reboot s (crash r (recover_from_log r) j))) b = disk (recover_from_log r) b"
proof -
  let ?d = "crash s (commit s) k" and ?st = "log_start s"
  have ok: "hdr_ok ?d ?st" using crash_cases[OF assms(1,2), of k] by (simp add: Let_def)
  obtain x blk where w: "wrote (read_head r) (recovery_writes ?d ?st @ [(?st, head_block x 0 blk)]) (recover_from_log r)"
    using recover_wrote[of r ?d ?st] ok assms(4) by auto
  have "crash r (recover_from_log r) j = crash (read_head r) (recover_from_log r) j" by (simp add: crash_def)
  then have d1: "crash r (recover_from_log r) j
      = apply_writes (take j (recovery_writes ?d ?st @ [(?st, head_block x 0 blk)])) ?d"
    using crash_wrote[OF w] assms(4) by simp
  show ?thesis
    using recovery_crash_disk[OF ok d1] recovered[OF _ assms(3)] ok assms(3,4) by simp
qed

text \<open>A transaction of one block: block 50 is 7 everywhere in the cache and 0 on the disk.\<close>

definition demo_log :: log_state where
  "demo_log = proc_state.extend demo_sched
     \<lparr>disk = (\<lambda>_. zero_block), bview = (\<lambda>_. zero_block)(50 := (\<lambda>_. 7)), pins = (\<lambda>_. 0)(50 := 1), dwrites = [],
      log_start = 2, outstanding = 0, committing = True, ncommit = 0, lh_n = 1, lh_block = (\<lambda>_. 0)(0 := 50)\<rparr>"

lemma demo_log_simps:
  "disk demo_log = (\<lambda>_. zero_block)" "bview demo_log = (\<lambda>_. zero_block)(50 := (\<lambda>_. 7))" "log_start demo_log = 2"
  "lh_n demo_log = 1" "lh_block demo_log = (\<lambda>_. 0)(0 := 50)"
  by (simp_all add: demo_log_def proc_state.defs)

lemma demo_log_ready: "ready demo_log"
  by (auto simp: lessThan_Suc ready_def demo_log_simps trans_ok_def LOGBLOCKS_def MAXOPBLOCKS_def log_area_def hdr_n_def)

theorem commit_crash_atomic_witness:
  "disk (recover_from_log (reboot demo_log (crash demo_log (commit demo_log) 1))) 50 = zero_block
   \<and> disk (recover_from_log (reboot demo_log (crash demo_log (commit demo_log) 2))) 50 = (\<lambda>_. 7)"
  using commit_crash_atomic[OF demo_log_ready, of 50 1] commit_crash_atomic[OF demo_log_ready, of 50 2]
  by (simp add: demo_log_simps log_area_def LOGBLOCKS_def MAXOPBLOCKS_def)

theorem recovery_restartable_witness:
  "disk (recover_from_log (reboot (reboot demo_log (crash demo_log (commit demo_log) 2))
     (crash (reboot demo_log (crash demo_log (commit demo_log) 2))
       (recover_from_log (reboot demo_log (crash demo_log (commit demo_log) 2))) 1))) 50
   = disk (recover_from_log (reboot demo_log (crash demo_log (commit demo_log) 2))) 50"
  using recovery_restartable[OF demo_log_ready _ _ refl, of 50 2 1]
  by (simp add: demo_log_simps log_area_def LOGBLOCKS_def MAXOPBLOCKS_def)

end
