(* ===== verification/Log_Admit.thy ===== *)
theory Log_Admit
  imports Log
begin

text \<open>
  Concurrent file system calls and the size of the log: any number of processes open
  transactions with \<open>begin_op\<close>, write blocks and close them with \<open>end_op\<close>, the last one
  committing. If each writes at most \<open>MAXOPBLOCKS\<close> times, the admission test of \<open>begin_op\<close> keeps
  the log from filling up.
\<close>











lemma log_index_le: "log_index blk b i k \<le> i + k"
  by (induction blk b i k rule: log_index.induct) auto


lemma outstanding_simps [simp]:
  "outstanding (write_log_one k s) = outstanding s" "outstanding (install_one rec k s) = outstanding s"
  "outstanding (write_head s) = outstanding s"
  by (simp_all add: write_log_one_def install_one_def write_head_def bwrite_def bmodify_def bunpin_def Let_def)

lemma outstanding_fold [simp]:
  "outstanding (fold write_log_one xs s) = outstanding s" "outstanding (fold (install_one rec) xs s) = outstanding s"
  by (induction xs arbitrary: s) auto

lemma lh_n_write_head [simp]: "lh_n (write_head s) = lh_n s"
  by (simp add: write_head_def bwrite_def bmodify_def Let_def)







end
