(* ===== verification/Sleeplock.thy ===== *)
theory Sleeplock
  imports Sched_Correct
begin

text \<open>
  Sleep locks, \<open>kernel/sleeplock.c\<close>, first as functions run while the spin lock inside is held,
  then, together with \<open>sleep\<close> and \<open>wakeup\<close> of \<open>kernel/proc.c\<close>, as the steps of any number of
  processes: every acquisition and release of a spin lock is a step of its own, so that the
  interleavings in which a wakeup could be lost are there.
\<close>

record sleeplock =
  slocked :: bool
  sname :: string
  spid :: int

definition initsleeplock :: "string \<Rightarrow> sleeplock" where
  "initsleeplock name = \<lparr>slocked = False, sname = name, spid = 0\<rparr>"

text \<open>\<open>Hang\<close>: the caller sleeps until the holder releases the lock.\<close>

definition acquiresleep :: "int \<Rightarrow> sleeplock \<Rightarrow> sleeplock res" where
  "acquiresleep mypid l = (if slocked l then Hang else Ok (l\<lparr>slocked := True, spid := mypid\<rparr>))"

text \<open>The wakeup of the processes sleeping on the lock goes with the new lock state.\<close>

definition releasesleep :: "chan \<Rightarrow> nat option \<Rightarrow> sleeplock \<Rightarrow> (nat \<Rightarrow> proc) \<Rightarrow> sleeplock \<times> (nat \<Rightarrow> proc)" where
  "releasesleep ch me l ps = (l\<lparr>slocked := False, spid := 0\<rparr>, wake ch me ps)"

definition holdingsleep :: "int \<Rightarrow> sleeplock \<Rightarrow> bool" where
  "holdingsleep mypid l \<longleftrightarrow> slocked l \<and> spid l = mypid"

section \<open>The steps of \<open>acquiresleep\<close> and \<open>releasesleep\<close>\<close>

text \<open>
  Where a process is. In \<open>acquiresleep\<close>: at \<open>acquire(&lk->lk)\<close>; at the test of \<open>locked\<close>; having
  set it; in \<open>sleep\<close> at \<open>acquire(&p->lock)\<close>, at \<open>release(lk)\<close>, at \<open>p->state = SLEEPING\<close>, in \<open>sched\<close>
  with \<open>p->lock\<close> about to be released by the scheduler, asleep, and resumed with \<open>p->lock\<close>
  held. Holding the lock. In \<open>releasesleep\<close>: at \<open>acquire\<close>; at \<open>locked = 0\<close>; in \<open>wakeup\<close> about to
  lock process \<open>k\<close>; with process \<open>k\<close> locked.
\<close>

datatype spc =
    SOut | SAcq | SCheck | SGot | SPLock | SRelLk | SSet | SSwitch | SAsleep | SResume
  | SHold | SRAcq | SClear | SWake nat | SWaking nat

record sl_state =
  slk :: bool
  lk_by :: "nat option"
  p_by :: "nat \<Rightarrow> nat option"
  asleep :: "nat \<Rightarrow> bool"
  spc :: "nat \<Rightarrow> spc"

definition goto :: "nat \<Rightarrow> spc \<Rightarrow> sl_state \<Rightarrow> sl_state" where
  "goto i q s = s\<lparr>spc := (spc s)(i := q)\<rparr>"

definition set_p :: "nat \<Rightarrow> nat option \<Rightarrow> sl_state \<Rightarrow> sl_state" where
  "set_p k ow s = s\<lparr>p_by := (p_by s)(k := ow)\<rparr>"

inductive sl_step :: "sl_state \<Rightarrow> sl_state \<Rightarrow> bool" where
  sl_enter: "i < NPROC \<Longrightarrow> spc s i = SOut \<Longrightarrow> sl_step s (goto i SAcq s)"
| sl_acquire: "spc s i = SAcq \<Longrightarrow> lk_by s = None \<Longrightarrow> sl_step s (goto i SCheck (s\<lparr>lk_by := Some i\<rparr>))"
| sl_take: "spc s i = SCheck \<Longrightarrow> \<not> slk s \<Longrightarrow> sl_step s (goto i SGot (s\<lparr>slk := True\<rparr>))"
| sl_got: "spc s i = SGot \<Longrightarrow> sl_step s (goto i SHold (s\<lparr>lk_by := None\<rparr>))"
| sl_busy: "spc s i = SCheck \<Longrightarrow> slk s \<Longrightarrow> sl_step s (goto i SPLock s)"
| sl_plock: "spc s i = SPLock \<Longrightarrow> p_by s i = None \<Longrightarrow> sl_step s (goto i SRelLk (set_p i (Some i) s))"
| sl_rel_lk: "spc s i = SRelLk \<Longrightarrow> sl_step s (goto i SSet (s\<lparr>lk_by := None\<rparr>))"
| sl_set: "spc s i = SSet \<Longrightarrow> sl_step s (goto i SSwitch (s\<lparr>asleep := (asleep s)(i := True)\<rparr>))"
| sl_switch: "spc s i = SSwitch \<Longrightarrow> sl_step s (goto i SAsleep (set_p i None s))"
| sl_resume: "spc s i = SAsleep \<Longrightarrow> \<not> asleep s i \<Longrightarrow> p_by s i = None \<Longrightarrow>
     sl_step s (goto i SResume (set_p i (Some i) s))"
| sl_again: "spc s i = SResume \<Longrightarrow> sl_step s (goto i SAcq (set_p i None s))"
| sl_release: "spc s i = SHold \<Longrightarrow> sl_step s (goto i SRAcq s)"
| sl_racquire: "spc s i = SRAcq \<Longrightarrow> lk_by s = None \<Longrightarrow> sl_step s (goto i SClear (s\<lparr>lk_by := Some i\<rparr>))"
| sl_clear: "spc s i = SClear \<Longrightarrow> sl_step s (goto i (SWake 0) (s\<lparr>slk := False\<rparr>))"
| sl_skip: "spc s i = SWake i \<Longrightarrow> i < NPROC \<Longrightarrow> sl_step s (goto i (SWake (Suc i)) s)"
| sl_wake_lock: "spc s i = SWake k \<Longrightarrow> k < NPROC \<Longrightarrow> k \<noteq> i \<Longrightarrow> p_by s k = None \<Longrightarrow>
     sl_step s (goto i (SWaking k) (set_p k (Some i) s))"
| sl_wake: "spc s i = SWaking k \<Longrightarrow>
     sl_step s (goto i (SWake (Suc k)) (set_p k None (s\<lparr>asleep := (asleep s)(k := False)\<rparr>)))"
| sl_leave: "spc s i = SWake k \<Longrightarrow> k \<ge> NPROC \<Longrightarrow> sl_step s (goto i SOut (s\<lparr>lk_by := None\<rparr>))"
| sl_kill: "p_by s k = None \<Longrightarrow> sl_step s (s\<lparr>asleep := (asleep s)(k := False)\<rparr>)"

definition sl_init :: "sl_state \<Rightarrow> bool" where
  "sl_init s \<longleftrightarrow> \<not> slk s \<and> lk_by s = None \<and> p_by s = (\<lambda>_. None) \<and> asleep s = (\<lambda>_. False)
     \<and> spc s = (\<lambda>_. SOut)"

section \<open>Invariant\<close>

fun holds_lk :: "spc \<Rightarrow> bool" where
  "holds_lk SCheck = True" | "holds_lk SGot = True" | "holds_lk SPLock = True" | "holds_lk SRelLk = True"
| "holds_lk SClear = True" | "holds_lk (SWake k) = True" | "holds_lk (SWaking k) = True"
| "holds_lk _ = False"

fun holds_own :: "spc \<Rightarrow> bool" where
  "holds_own SRelLk = True" | "holds_own SSet = True" | "holds_own SSwitch = True" | "holds_own SResume = True"
| "holds_own _ = False"

fun has_sl :: "spc \<Rightarrow> bool" where
  "has_sl SGot = True" | "has_sl SHold = True" | "has_sl SRAcq = True" | "has_sl SClear = True"
| "has_sl _ = False"

text \<open>Process \<open>i\<close> has given up the condition lock in order to sleep and has not been woken.\<close>

definition sleeping :: "sl_state \<Rightarrow> nat \<Rightarrow> bool" where
  "sleeping s i \<longleftrightarrow> spc s i = SSet \<or> (spc s i = SSwitch \<or> spc s i = SAsleep) \<and> asleep s i"

text \<open>A waker that has not reached \<open>i\<close> yet.\<close>

definition will_wake :: "sl_state \<Rightarrow> nat \<Rightarrow> nat \<Rightarrow> bool" where
  "will_wake s j i \<longleftrightarrow> (\<exists>k. (spc s j = SWake k \<or> spc s j = SWaking k) \<and> k \<le> i)"

definition lk_inv :: "sl_state \<Rightarrow> bool" where
  "lk_inv s \<longleftrightarrow> (\<forall>i. holds_lk (spc s i) \<longleftrightarrow> lk_by s = Some i)"

definition dom_inv :: "sl_state \<Rightarrow> bool" where
  "dom_inv s \<longleftrightarrow> (\<forall>i. spc s i \<noteq> SOut \<longrightarrow> i < NPROC)"

definition own_inv :: "sl_state \<Rightarrow> bool" where
  "own_inv s \<longleftrightarrow> (\<forall>i. holds_own (spc s i) \<longleftrightarrow> p_by s i = Some i)
     \<and> (\<forall>i k. spc s i = SWaking k \<longrightarrow> k \<noteq> i \<and> p_by s k = Some i)"

text \<open>The process that has the sleep lock, if there is one.\<close>

definition slk_inv_at :: "nat option \<Rightarrow> sl_state \<Rightarrow> bool" where
  "slk_inv_at ow s \<longleftrightarrow> (\<forall>i. ow = Some i \<longleftrightarrow> has_sl (spc s i)) \<and> (slk s \<longleftrightarrow> ow \<noteq> None)"

definition slk_inv :: "sl_state \<Rightarrow> bool" where
  "slk_inv s \<longleftrightarrow> (\<exists>ow. slk_inv_at ow s)"

definition busy_inv :: "sl_state \<Rightarrow> bool" where
  "busy_inv s \<longleftrightarrow> (\<forall>i. spc s i = SPLock \<or> spc s i = SRelLk \<longrightarrow> slk s)"

definition asleep_inv :: "sl_state \<Rightarrow> bool" where
  "asleep_inv s \<longleftrightarrow> (\<forall>i. asleep s i \<longrightarrow> spc s i = SSwitch \<or> spc s i = SAsleep)"

definition wake_inv :: "sl_state \<Rightarrow> bool" where
  "wake_inv s \<longleftrightarrow> (\<forall>i. sleeping s i \<longrightarrow> slk s \<or> (\<exists>j. will_wake s j i))"

definition sl_inv :: "sl_state \<Rightarrow> bool" where
  "sl_inv s \<longleftrightarrow> lk_inv s \<and> dom_inv s \<and> own_inv s \<and> slk_inv s \<and> busy_inv s \<and> asleep_inv s \<and> wake_inv s"

lemma st [simp]:
  "slk (goto i q s) = slk s" "lk_by (goto i q s) = lk_by s" "p_by (goto i q s) = p_by s"
  "asleep (goto i q s) = asleep s" "spc (goto i q s) = (spc s)(i := q)"
  "slk (set_p k w s) = slk s" "lk_by (set_p k w s) = lk_by s" "p_by (set_p k w s) = (p_by s)(k := w)"
  "asleep (set_p k w s) = asleep s" "spc (set_p k w s) = spc s"
  by (simp_all add: goto_def set_p_def)

lemma lk_keep:
  "lk_inv s \<Longrightarrow> lk_by t = lk_by s \<Longrightarrow> (\<And>j. holds_lk (spc t j) = holds_lk (spc s j)) \<Longrightarrow> lk_inv t"
  by (simp add: lk_inv_def)

lemma lk_take: "lk_inv s \<Longrightarrow> lk_by s = None \<Longrightarrow> holds_lk q \<Longrightarrow> lk_inv (goto i q (s\<lparr>lk_by := Some i\<rparr>))"
  by (auto simp: lk_inv_def)

lemma lk_drop: "lk_inv s \<Longrightarrow> holds_lk (spc s i) \<Longrightarrow> \<not> holds_lk q \<Longrightarrow> lk_inv (goto i q (s\<lparr>lk_by := None\<rparr>))"
  by (auto simp: lk_inv_def)

lemma lk_step: "sl_step s t \<Longrightarrow> lk_inv s \<Longrightarrow> lk_inv t"
proof (induction rule: sl_step.induct)
  case (sl_acquire s i) then show ?case by (simp add: lk_take)
next
  case (sl_got s i) then show ?case by (intro lk_drop) auto
next
  case (sl_rel_lk s i) then show ?case by (intro lk_drop) auto
next
  case (sl_racquire s i) then show ?case by (simp add: lk_take)
next
  case (sl_leave s i k) then show ?case by (intro lk_drop) auto
qed (erule lk_keep; auto)+

lemma dom_step: "sl_step s t \<Longrightarrow> dom_inv s \<Longrightarrow> dom_inv t"
  by (induction rule: sl_step.induct) (auto simp: dom_inv_def)

lemma own_invI:
  "(\<And>i. p_by s i = Some i \<longleftrightarrow> holds_own (spc s i)) \<Longrightarrow>
   (\<And>i k. spc s i = SWaking k \<Longrightarrow> k \<noteq> i \<and> p_by s k = Some i) \<Longrightarrow> own_inv s"
  by (auto simp: own_inv_def)

lemma own_p_by: "own_inv s \<Longrightarrow> p_by s i = Some i \<longleftrightarrow> holds_own (spc s i)"
  by (auto simp: own_inv_def)

lemma own_waking: "own_inv s \<Longrightarrow> spc s j = SWaking k \<Longrightarrow> k \<noteq> j \<and> p_by s k = Some j \<and> \<not> holds_own (spc s k)"
  by (auto simp: own_inv_def)

lemma own_held: "own_inv s \<Longrightarrow> holds_own (spc s i) \<Longrightarrow> p_by s i = Some i"
  by (auto simp: own_inv_def)

lemma own_waking_unique: "own_inv s \<Longrightarrow> spc s i = SWaking k \<Longrightarrow> spc s j = SWaking k \<Longrightarrow> i = j"
  using own_waking[of s i k] own_waking[of s j k] by simp

lemma own_step: "sl_step s t \<Longrightarrow> own_inv s \<Longrightarrow> own_inv t"
  by (induction rule: sl_step.induct; rule own_invI)
    (auto simp: own_p_by dest: own_waking own_held own_waking_unique split: if_splits)

lemma slk_has: "slk_inv_at ow s \<Longrightarrow> has_sl (spc s i) \<longleftrightarrow> ow = Some i"
  by (simp add: slk_inv_at_def)

lemma slk_keep:
  "slk_inv s \<Longrightarrow> slk t = slk s \<Longrightarrow> (\<And>j. has_sl (spc t j) = has_sl (spc s j)) \<Longrightarrow> slk_inv t"
  by (simp add: slk_inv_def slk_inv_at_def)

lemma slk_step: "sl_step s t \<Longrightarrow> slk_inv s \<Longrightarrow> slk_inv t"
proof (induction rule: sl_step.induct)
  case (sl_take s i)
  then obtain ow where ow: "slk_inv_at ow s" by (auto simp: slk_inv_def)
  then have "slk_inv_at (Some i) (goto i SGot (s\<lparr>slk := True\<rparr>))"
    using sl_take(1,2) slk_has[OF ow] by (auto simp: slk_inv_at_def)
  then show ?case by (auto simp: slk_inv_def)
next
  case (sl_clear s i)
  then obtain ow where ow: "slk_inv_at ow s" by (auto simp: slk_inv_def)
  then have "ow = Some i" using sl_clear(1) slk_has[OF ow, of i] by simp
  then have "slk_inv_at None (goto i (SWake 0) (s\<lparr>slk := False\<rparr>))"
    using ow by (auto simp: slk_inv_at_def)
  then show ?case by (auto simp: slk_inv_def)
qed (erule slk_keep; auto)+

lemma lk_unique: "lk_inv s \<Longrightarrow> holds_lk (spc s i) \<Longrightarrow> holds_lk (spc s j) \<Longrightarrow> i = j"
  by (simp add: lk_inv_def)

lemma busy_step: "sl_step s t \<Longrightarrow> lk_inv s \<Longrightarrow> busy_inv s \<Longrightarrow> busy_inv t"
proof (induction rule: sl_step.induct)
  case (sl_clear s i)
  then have "spc s j \<noteq> SPLock \<and> spc s j \<noteq> SRelLk" if "j \<noteq> i" for j
    using lk_unique[of s i j] that by auto
  then show ?case by (auto simp: busy_inv_def)
qed (auto simp: busy_inv_def split: if_splits)

lemma asleep_step: "sl_step s t \<Longrightarrow> asleep_inv s \<Longrightarrow> asleep_inv t"
  by (induction rule: sl_step.induct) (auto simp: asleep_inv_def split: if_splits)

lemma wake_keep:
  "wake_inv s \<Longrightarrow> slk t = slk s \<Longrightarrow> (\<And>j. sleeping t j \<Longrightarrow> sleeping s j) \<Longrightarrow>
   (\<And>j k. will_wake s j k \<Longrightarrow> will_wake t j k) \<Longrightarrow> wake_inv t"
  unfolding wake_inv_def by metis

lemma wake_busy: "slk s \<Longrightarrow> wake_inv s"
  by (simp add: wake_inv_def)

text \<open>The waker has just dealt with process \<open>k\<close>.\<close>

lemma wake_advance:
  assumes "wake_inv s" "slk t = slk s" "\<And>j. sleeping t j \<Longrightarrow> sleeping s j" "\<not> sleeping t k"
    "spc s i = SWake k \<or> spc s i = SWaking k" "spc t i = SWake (Suc k)" "\<And>j. j \<noteq> i \<Longrightarrow> spc t j = spc s j"
  shows "wake_inv t"
  unfolding wake_inv_def
proof (intro allI impI)
  fix m assume m: "sleeping t m"
  then have "slk s \<or> (\<exists>j. will_wake s j m)" using assms(1,3) by (simp add: wake_inv_def)
  moreover have "will_wake t j m" if "will_wake s j m" for j
  proof (cases "j = i")
    case True
    have "m \<noteq> k" using assms(4) m by auto
    then show ?thesis using that True assms(5,6) by (auto simp: will_wake_def)
  next
    case False
    then show ?thesis using that assms(7) by (simp add: will_wake_def)
  qed
  ultimately show "slk t \<or> (\<exists>j. will_wake t j m)" using assms(2) by auto
qed

lemma wake_step:
  "sl_step s t \<Longrightarrow> dom_inv s \<Longrightarrow> own_inv s \<Longrightarrow> busy_inv s \<Longrightarrow> asleep_inv s \<Longrightarrow> wake_inv s \<Longrightarrow> wake_inv t"
proof (induction rule: sl_step.induct)
  case (sl_take s i)
  show ?case by (rule wake_busy) simp
next
  case (sl_rel_lk s i)
  then show ?case by (intro wake_busy) (auto simp: busy_inv_def)
next
  case (sl_clear s i)
  have "will_wake (goto i (SWake 0) (s\<lparr>slk := False\<rparr>)) i m" for m by (simp add: will_wake_def)
  then show ?case by (auto simp: wake_inv_def)
next
  case (sl_skip s i)
  show ?case by (rule wake_advance[OF sl_skip(7), of _ i i]) (use sl_skip in \<open>auto simp: sleeping_def split: if_splits\<close>)
next
  case (sl_wake s i k)
  have "\<not> holds_own (spc s k)" "k \<noteq> i" using own_waking[OF sl_wake(3,1)] by auto
  then have "\<not> sleeping (goto i (SWake (Suc k)) (set_p k None (s\<lparr>asleep := (asleep s)(k := False)\<rparr>))) k"
    by (auto simp: sleeping_def)
  then show ?case
    by (rule wake_advance[OF sl_wake(6), rotated 2]) (use sl_wake in \<open>auto simp: sleeping_def split: if_splits\<close>)
next
  case (sl_leave s i k)
  have old: "spc s m \<noteq> SOut \<Longrightarrow> m < NPROC" for m using sl_leave(3) by (simp add: dom_inv_def)
  show ?case
    unfolding wake_inv_def
  proof (intro allI impI)
    fix m assume m: "sleeping (goto i SOut (s\<lparr>lk_by := None\<rparr>)) m"
    then have "m \<noteq> i" "sleeping s m" by (auto simp: sleeping_def split: if_splits)
    then have "m < NPROC" using old by (auto simp: sleeping_def)
    then have "\<not> will_wake s i m" using sl_leave(1,2) by (auto simp: will_wake_def)
    moreover have "slk s \<or> (\<exists>j. will_wake s j m)" using \<open>sleeping s m\<close> sl_leave(7) by (simp add: wake_inv_def)
    ultimately show "slk (goto i SOut (s\<lparr>lk_by := None\<rparr>)) \<or> (\<exists>j. will_wake (goto i SOut (s\<lparr>lk_by := None\<rparr>)) j m)"
      by (auto simp: will_wake_def)
  qed
qed (erule wake_keep; auto simp: sleeping_def will_wake_def split: if_splits)+

lemma sl_inv_step: "sl_inv s \<Longrightarrow> sl_step s t \<Longrightarrow> sl_inv t"
  unfolding sl_inv_def
  using lk_step dom_step own_step slk_step busy_step asleep_step wake_step by metis

interpretation slp: inductive_invariant sl_init sl_step sl_inv
proof
  fix s assume "sl_init s"
  then have s: "\<not> slk s" "lk_by s = None" "p_by s = (\<lambda>_. None)" "asleep s = (\<lambda>_. False)" "spc s = (\<lambda>_. SOut)"
    by (auto simp: sl_init_def)
  have "slk_inv_at None s" using s by (simp add: slk_inv_at_def)
  then show "sl_inv s" using s
    by (auto simp: sl_inv_def lk_inv_def dom_inv_def own_inv_def slk_inv_def busy_inv_def asleep_inv_def
        wake_inv_def sleeping_def)
qed (rule sl_inv_step)

text \<open>
  C10. Sleep locks are safe under every interleaving, with spurious wakeups by \<open>kkill\<close>: at most
  one process holds the lock, and no wakeup is lost, that is, a process that has committed
  itself to sleep either waits for a lock that is held or will be reached by a releaser that
  is still on its way through \<open>wakeup\<close>.
\<close>

theorem sleeplock_no_lost_wakeup:
  assumes "reach sl_init sl_step s"
  shows "(\<forall>i j. has_sl (spc s i) \<longrightarrow> has_sl (spc s j) \<longrightarrow> i = j)
    \<and> (\<forall>i. sleeping s i \<longrightarrow> slk s \<or> (\<exists>j. will_wake s j i))"
proof -
  have "slk_inv s" "wake_inv s" using slp.reach_inv[OF assms] by (auto simp: sl_inv_def)
  moreover from this(1) obtain ow where "slk_inv_at ow s" by (auto simp: slk_inv_def)
  ultimately show ?thesis using slk_has[of ow s] by (auto simp: wake_inv_def)
qed

text \<open>Process 0 takes the lock, process 1 finds it held and goes to sleep.\<close>

definition sl_start :: sl_state where
  "sl_start = \<lparr>slk = False, lk_by = None, p_by = (\<lambda>_. None), asleep = (\<lambda>_. False), spc = (\<lambda>_. SOut)\<rparr>"

definition sl_held :: sl_state where
  "sl_held = sl_start\<lparr>slk := True, spc := (\<lambda>_. SOut)(0 := SHold)\<rparr>"

lemma sl_held_reach: "reach sl_init sl_step sl_held"
proof -
  have "reach sl_init sl_step sl_start" by (rule reach_init) (simp add: sl_init_def sl_start_def)
  then have "reach sl_init sl_step (goto 0 SAcq sl_start)"
    by (rule reach_step) (rule sl_enter; simp add: sl_start_def NPROC_def)
  then have "reach sl_init sl_step (goto 0 SCheck ((goto 0 SAcq sl_start)\<lparr>lk_by := Some 0\<rparr>))"
    by (rule reach_step) (rule sl_acquire; simp add: sl_start_def)
  then have "reach sl_init sl_step (goto 0 SGot ((goto 0 SCheck ((goto 0 SAcq sl_start)\<lparr>lk_by := Some 0\<rparr>))\<lparr>slk := True\<rparr>))"
    by (rule reach_step) (rule sl_take; simp add: sl_start_def)
  then have "reach sl_init sl_step (goto 0 SHold ((goto 0 SGot ((goto 0 SCheck ((goto 0 SAcq sl_start)\<lparr>lk_by := Some 0\<rparr>))\<lparr>slk := True\<rparr>))\<lparr>lk_by := None\<rparr>))"
    by (rule reach_step) (rule sl_got; simp)
  then show ?thesis by (simp add: goto_def sl_held_def sl_start_def)
qed

theorem sleeplock_no_lost_wakeup_witness:
  "\<exists>s. sleeping s 1 \<and> (\<forall>i. sleeping s i \<longrightarrow> slk s \<or> (\<exists>j. will_wake s j i))"
proof -
  let ?s1 = "goto 1 SAcq sl_held"
  let ?s2 = "goto 1 SCheck (?s1\<lparr>lk_by := Some 1\<rparr>)"
  let ?s3 = "goto 1 SPLock ?s2"
  let ?s4 = "goto 1 SRelLk (set_p 1 (Some 1) ?s3)"
  let ?s5 = "goto 1 SSet (?s4\<lparr>lk_by := None\<rparr>)"
  have "reach sl_init sl_step ?s1"
    by (rule reach_step[OF sl_held_reach sl_enter]) (simp_all add: sl_held_def NPROC_def)
  then have "reach sl_init sl_step ?s2"
    by (rule reach_step) (rule sl_acquire; simp add: sl_held_def sl_start_def)
  then have "reach sl_init sl_step ?s3" by (rule reach_step) (rule sl_busy; simp add: sl_held_def)
  then have "reach sl_init sl_step ?s4"
    by (rule reach_step) (rule sl_plock; simp add: sl_held_def sl_start_def)
  then have "reach sl_init sl_step ?s5" by (rule reach_step) (rule sl_rel_lk; simp)
  then have "\<forall>i. sleeping ?s5 i \<longrightarrow> slk ?s5 \<or> (\<exists>j. will_wake ?s5 j i)"
    by (rule conjunct2[OF sleeplock_no_lost_wakeup])
  moreover have "sleeping ?s5 1" by (simp add: sleeping_def)
  ultimately show ?thesis by blast
qed

end
