(* ===== verification/Bio.thy ===== *)
theory Bio
  imports Block Sleeplock
begin

text \<open>
  The buffer cache, \<open>kernel/bio.c\<close>: \<open>NBUF\<close> buffers on a doubly linked list through \<open>bcache.head\<close>,
  most recently used first. Buffers are named by their index, the list head by \<open>NBUF\<close>; \<open>prev\<close> and
  \<open>next\<close> are kept as the code keeps them. \<open>virtio_disk_rw\<close> is seen through its contract: it
  moves one block between the buffer and the disk. \<open>bcache.lock\<close> is held around each list
  operation, so each is one step.
\<close>

definition NBUF :: nat where "NBUF = 30"

abbreviation bhead :: nat where "bhead \<equiv> NBUF"

record buf =
  bvalid :: bool
  bdev :: nat
  bblockno :: nat
  block_lk :: sleeplock
  refcnt :: int
  bprev :: nat
  bnext :: nat
  bdata :: block

record bcache =
  bufs :: "nat \<Rightarrow> buf"
  bdisk :: "nat \<Rightarrow> block"

definition upd_buf :: "nat \<Rightarrow> (buf \<Rightarrow> buf) \<Rightarrow> bcache \<Rightarrow> bcache" where
  "upd_buf b f s = s\<lparr>bufs := (bufs s)(b := f (bufs s b))\<rparr>"

section \<open>Operations\<close>

definition push_front :: "nat \<Rightarrow> bcache \<Rightarrow> bcache" where
  "push_front b s =
     (let s1 = upd_buf b (bnext_update (\<lambda>_. bnext (bufs s bhead))) s;
          s2 = upd_buf b (bprev_update (\<lambda>_. bhead)) s1;
          s3 = upd_buf (bnext (bufs s2 bhead)) (bprev_update (\<lambda>_. b)) s2
      in upd_buf bhead (bnext_update (\<lambda>_. b)) s3)"

definition binit :: "bcache \<Rightarrow> bcache" where
  "binit s =
     (let s1 = upd_buf bhead (\<lambda>h. h\<lparr>bprev := bhead, bnext := bhead\<rparr>) s
      in fold (\<lambda>b t. push_front b (upd_buf b (block_lk_update (\<lambda>_. initsleeplock ''buffer'')) t)) [0..<NBUF] s1)"

text \<open>The two scans of \<open>bget\<close>; \<open>None\<close> means that a scan does not end.\<close>

partial_function (option) find_cached :: "nat \<Rightarrow> nat \<Rightarrow> nat \<Rightarrow> bcache \<Rightarrow> nat option option" where
  "find_cached dev bno b s =
     (if b = bhead then Some None
      else if bdev (bufs s b) = dev \<and> bblockno (bufs s b) = bno then Some (Some b)
      else find_cached dev bno (bnext (bufs s b)) s)"

partial_function (option) find_unused_buf :: "nat \<Rightarrow> bcache \<Rightarrow> nat option option" where
  "find_unused_buf b s =
     (if b = bhead then Some None
      else if refcnt (bufs s b) = 0 then Some (Some b)
      else find_unused_buf (bprev (bufs s b)) s)"

definition lock_buf :: "int \<Rightarrow> nat \<Rightarrow> bcache \<Rightarrow> (nat \<times> bcache) res" where
  "lock_buf me b s =
     bindR (acquiresleep me (block_lk (bufs s b))) (\<lambda>l.
       Ok (b, upd_buf b (block_lk_update (\<lambda>_. l)) s))"

definition bget :: "int \<Rightarrow> nat \<Rightarrow> nat \<Rightarrow> bcache \<Rightarrow> (nat \<times> bcache) res" where
  "bget me dev bno s =
     (case find_cached dev bno (bnext (bufs s bhead)) s of
        None \<Rightarrow> Hang
      | Some (Some b) \<Rightarrow> lock_buf me b (upd_buf b (\<lambda>x. x\<lparr>refcnt := refcnt x + 1\<rparr>) s)
      | Some None \<Rightarrow>
         (case find_unused_buf (bprev (bufs s bhead)) s of
            None \<Rightarrow> Hang
          | Some None \<Rightarrow> Panic ''bget: no buffers''
          | Some (Some b) \<Rightarrow>
              lock_buf me b (upd_buf b (\<lambda>x. x\<lparr>bdev := dev, bblockno := bno, bvalid := False, refcnt := 1\<rparr>) s)))"

definition virtio_disk_rw :: "nat \<Rightarrow> bool \<Rightarrow> bcache \<Rightarrow> bcache" where
  "virtio_disk_rw b wr s =
     (if wr then s\<lparr>bdisk := (bdisk s)(bblockno (bufs s b) := bdata (bufs s b))\<rparr>
      else upd_buf b (bdata_update (\<lambda>_. bdisk s (bblockno (bufs s b)))) s)"

definition cache_read :: "int \<Rightarrow> nat \<Rightarrow> nat \<Rightarrow> bcache \<Rightarrow> (nat \<times> bcache) res" where
  "cache_read me dev bno s =
     bindR (bget me dev bno s) (\<lambda>(b, s1).
       Ok (b, if \<not> bvalid (bufs s1 b)
              then upd_buf b (bvalid_update (\<lambda>_. True)) (virtio_disk_rw b False s1) else s1))"

definition cache_write :: "int \<Rightarrow> nat \<Rightarrow> bcache \<Rightarrow> bcache res" where
  "cache_write me b s =
     (if \<not> holdingsleep me (block_lk (bufs s b)) then Panic ''bwrite''
      else Ok (virtio_disk_rw b True s))"

text \<open>Unlink a buffer and put it at the front.\<close>

definition move_front :: "nat \<Rightarrow> bcache \<Rightarrow> bcache" where
  "move_front b s =
     (let s1 = upd_buf (bnext (bufs s b)) (bprev_update (\<lambda>_. bprev (bufs s b))) s;
          s2 = upd_buf (bprev (bufs s1 b)) (bnext_update (\<lambda>_. bnext (bufs s1 b))) s1
      in push_front b s2)"

text \<open>The wakeup inside \<open>releasesleep\<close> concerns the process table only and is left out here.\<close>

definition cache_release :: "int \<Rightarrow> nat \<Rightarrow> bcache \<Rightarrow> bcache res" where
  "cache_release me b s =
     (if \<not> holdingsleep me (block_lk (bufs s b)) then Panic ''brelse''
      else let s1 = upd_buf b (block_lk_update (\<lambda>l. l\<lparr>slocked := False, spid := 0\<rparr>)) s;
               s2 = upd_buf b (\<lambda>x. x\<lparr>refcnt := refcnt x - 1\<rparr>) s1
           in Ok (if refcnt (bufs s2 b) = 0 then move_front b s2 else s2))"

definition cache_pin :: "nat \<Rightarrow> bcache \<Rightarrow> bcache" where
  "cache_pin b s = upd_buf b (\<lambda>x. x\<lparr>refcnt := refcnt x + 1\<rparr>) s"

definition cache_unpin :: "nat \<Rightarrow> bcache \<Rightarrow> bcache" where
  "cache_unpin b s = upd_buf b (\<lambda>x. x\<lparr>refcnt := refcnt x - 1\<rparr>) s"

section \<open>The list\<close>

fun chain :: "(nat \<Rightarrow> nat) \<Rightarrow> nat \<Rightarrow> nat list \<Rightarrow> nat \<Rightarrow> bool" where
  "chain n a [] z \<longleftrightarrow> n a = z"
| "chain n a (x # xs) z \<longleftrightarrow> n a = x \<and> chain n x xs z"

abbreviation nexts :: "bcache \<Rightarrow> nat \<Rightarrow> nat" where "nexts s \<equiv> \<lambda>b. bnext (bufs s b)"
abbreviation prevs :: "bcache \<Rightarrow> nat \<Rightarrow> nat" where "prevs s \<equiv> \<lambda>b. bprev (bufs s b)"

text \<open>The buffers from most to least recently used.\<close>

definition lru :: "bcache \<Rightarrow> nat list \<Rightarrow> bool" where
  "lru s xs \<longleftrightarrow> distinct xs \<and> set xs = {..<NBUF} \<and> chain (nexts s) bhead xs bhead
     \<and> chain (prevs s) bhead (rev xs) bhead"

lemma chain_cong: "(\<And>x. x \<in> insert a (set xs) \<Longrightarrow> n x = m x) \<Longrightarrow> chain n a xs z = chain m a xs z"
  by (induction xs arbitrary: a) auto

lemma chain_append: "chain n a (xs @ y # ys) z \<longleftrightarrow> chain n a xs y \<and> chain n y ys z"
  by (induction xs arbitrary: a) auto

lemma chain_last: "chain n a xs z \<Longrightarrow> n (last (a # xs)) = z"
  by (induction xs arbitrary: a) auto

lemma chain_upd_last:
  "chain n a xs z \<Longrightarrow> distinct (a # xs) \<Longrightarrow> chain (n(last (a # xs) := y)) a xs y"
proof (induction xs arbitrary: a)
  case (Cons x xs)
  have c: "chain (n(last (x # xs) := y)) x xs y" by (rule Cons.IH) (use Cons.prems in auto)
  have "last (x # xs) \<noteq> a" using Cons.prems(2) by (metis distinct.simps(2) last_in_set list.distinct(1))
  moreover have "last (a # x # xs) = last (x # xs)" by simp
  ultimately show ?case using Cons.prems(1) c by (simp del: last.simps add: fun_upd_def)
qed simp

lemma chain_remove:
  assumes "chain n h (us @ b # vs) z" "distinct (h # us @ b # vs)"
  shows "chain (n(last (h # us) := hd (vs @ [z]))) h (us @ vs) z"
proof -
  have c: "chain n h us b" "chain n b vs z" using assms(1) by (simp_all add: chain_append)
  let ?n = "n(last (h # us) := hd (vs @ [z]))"
  have u: "chain ?n h us (hd (vs @ [z]))" using chain_upd_last[OF c(1)] assms(2) by simp
  show ?thesis
  proof (cases vs)
    case Nil
    then show ?thesis using u by simp
  next
    case (Cons v ws)
    have "last (h # us) \<notin> set (v # ws)"
      using assms(2) Cons last_in_set[of "h # us"] by auto
    then have "chain ?n v ws z = chain n v ws z" by (intro chain_cong) auto
    then show ?thesis using u c(2) Cons by (simp add: chain_append)
  qed
qed

lemma chain_push:
  assumes "chain n h xs z" "b \<notin> set (h # xs)" "h \<notin> set xs"
  shows "chain (n(b := n h, h := b)) h (b # xs) z"
proof -
  have b: "b \<noteq> h" using assms(2) by auto
  have "chain (n(b := n h, h := b)) b xs z"
  proof (cases xs)
    case Nil
    then show ?thesis using assms(1) b by simp
  next
    case (Cons x ys)
    then have "chain (n(b := n h, h := b)) x ys z = chain n x ys z"
      using assms(2,3) by (intro chain_cong) auto
    then show ?thesis using assms(1) Cons b by simp
  qed
  then show ?thesis by simp
qed

lemma chain_snoc:
  assumes "chain n h xs h" "b \<notin> set (h # xs)" "distinct (h # xs)"
  shows "chain (n(b := h, last (h # xs) := b)) h (xs @ [b]) h"
proof -
  have l: "last (h # xs) \<noteq> b" using assms(2) last_in_set[of "h # xs"] by auto
  have "chain (n(b := h)) h xs h"
    using assms(1,2) by (subst chain_cong[of h xs _ n]) auto
  then have "chain ((n(b := h))(last (h # xs) := b)) h xs b" using assms(3) by (rule chain_upd_last)
  then show ?thesis using l by (simp add: chain_append)
qed

lemma chain_first: "chain n a xs z \<Longrightarrow> n a = hd (xs @ [z])"
  by (cases xs) auto

lemma hd_rev_last: "hd (rev us @ [h]) = last (h # us)"
  by (cases us rule: rev_cases) auto

lemma upd_buf_simps [simp]:
  "bufs (upd_buf b f s) = (bufs s)(b := f (bufs s b))" "bdisk (upd_buf b f s) = bdisk s"
  by (simp_all add: upd_buf_def)

lemma push_front_links:
  assumes "b \<noteq> bhead"
  shows "nexts (push_front b s) = (nexts s)(b := nexts s bhead, bhead := b)"
    "prevs (push_front b s) = (prevs s)(b := bhead, nexts s bhead := b)"
  using assms by (auto simp: push_front_def Let_def fun_eq_iff)

lemma push_front_chains:
  assumes "chain (nexts s) bhead xs bhead" "chain (prevs s) bhead (rev xs) bhead" "distinct (bhead # xs)"
    "b \<notin> set (bhead # xs)"
  shows "chain (nexts (push_front b s)) bhead (b # xs) bhead"
    "chain (prevs (push_front b s)) bhead (rev (b # xs)) bhead"
proof -
  have b: "b \<noteq> bhead" using assms(4) by auto
  show "chain (nexts (push_front b s)) bhead (b # xs) bhead"
    unfolding push_front_links[OF b] using chain_push[OF assms(1,4)] assms(3) by simp
  have "nexts s bhead = last (bhead # rev xs)"
    using chain_first[OF assms(1)] hd_rev_last[of "rev xs" bhead] by simp
  then show "chain (prevs (push_front b s)) bhead (rev (b # xs)) bhead"
    unfolding push_front_links[OF b] using chain_snoc[OF assms(2), of b] assms(3,4) by simp
qed

lemma move_front_lru:
  assumes "lru s (us @ b # vs)"
  shows "lru (move_front b s) (b # us @ vs)"
proof -
  let ?h = bhead
  have d: "distinct (?h # us @ b # vs)" using assms by (auto simp: lru_def)
  have c: "chain (nexts s) ?h (us @ b # vs) ?h" "chain (prevs s) ?h (rev vs @ b # rev us) ?h"
    using assms by (auto simp: lru_def)
  have nx: "nexts s b = hd (vs @ [?h])" using c(1) by (auto simp: chain_append intro: chain_first)
  have pv: "prevs s b = last (?h # us)"
    using c(2) by (auto simp: chain_append hd_rev_last dest!: chain_first)
  have nb: "nexts s b \<noteq> b"
    unfolding nx using d by (cases vs) auto
  define s2 where "s2 = upd_buf (prevs s b) (bnext_update (\<lambda>_. nexts s b)) (upd_buf (nexts s b) (bprev_update (\<lambda>_. prevs s b)) s)"
  have mv: "move_front b s = push_front b s2"
    using nb by (simp add: move_front_def s2_def Let_def)
  have n2: "nexts s2 = (nexts s)(last (?h # us) := hd (vs @ [?h]))"
    unfolding s2_def nx pv by (auto simp: fun_eq_iff)
  have p2: "prevs s2 = (prevs s)(last (?h # rev vs) := hd (rev us @ [?h]))"
    unfolding s2_def nx pv hd_rev_last[of us] hd_rev_last[of "rev vs", symmetric] by (auto simp: fun_eq_iff)
  have c1: "chain (nexts s2) ?h (us @ vs) ?h"
    unfolding n2 using chain_remove[OF c(1) d] .
  have c2: "chain (prevs s2) ?h (rev vs @ rev us) ?h"
    unfolding p2 using d by (intro chain_remove[OF c(2)]) auto
  have d2: "distinct (?h # us @ vs)" "b \<notin> set (?h # us @ vs)" using d by auto
  show ?thesis
    unfolding lru_def mv using push_front_chains[OF c1 _ d2] c2 d assms by (auto simp: lru_def)
qed

text \<open>An update that leaves the links alone leaves the list alone.\<close>

definition keeps_links :: "(buf \<Rightarrow> buf) \<Rightarrow> bool" where
  "keeps_links f \<longleftrightarrow> (\<forall>x. bnext (f x) = bnext x \<and> bprev (f x) = bprev x)"

lemma lru_upd: "keeps_links f \<Longrightarrow> lru (upd_buf b f s) xs = lru s xs"
proof -
  assume "keeps_links f"
  then have "nexts (upd_buf b f s) = nexts s" "prevs (upd_buf b f s) = prevs s"
    by (auto simp: keeps_links_def fun_eq_iff)
  then show ?thesis by (simp add: lru_def)
qed

lemma find_cached_list:
  "chain (nexts s) a xs bhead \<Longrightarrow> bhead \<notin> set xs \<Longrightarrow>
   find_cached dev bno (nexts s a) s = Some (List.find (\<lambda>b. bdev (bufs s b) = dev \<and> bblockno (bufs s b) = bno) xs)"
proof (induction xs arbitrary: a)
  case Nil
  then show ?case by (simp add: find_cached.simps)
next
  case (Cons x xs)
  then show ?case by (subst find_cached.simps) auto
qed

lemma find_unused_list:
  "chain (prevs s) a xs bhead \<Longrightarrow> bhead \<notin> set xs \<Longrightarrow>
   find_unused_buf (prevs s a) s = Some (List.find (\<lambda>b. refcnt (bufs s b) = 0) xs)"
proof (induction xs arbitrary: a)
  case Nil
  then show ?case by (simp add: find_unused_buf.simps)
next
  case (Cons x xs)
  then show ?case by (subst find_unused_buf.simps) auto
qed

lemma lru_head: "lru s xs \<Longrightarrow> bhead \<notin> set xs"
  by (simp add: lru_def)

text \<open>\<open>bget\<close> in terms of the list.\<close>

lemma bget_lru:
  assumes "lru s xs"
  shows "bget me dev bno s =
    (case List.find (\<lambda>b. bdev (bufs s b) = dev \<and> bblockno (bufs s b) = bno) xs of
       Some b \<Rightarrow> lock_buf me b (upd_buf b (\<lambda>x. x\<lparr>refcnt := refcnt x + 1\<rparr>) s)
     | None \<Rightarrow>
        (case List.find (\<lambda>b. refcnt (bufs s b) = 0) (rev xs) of
           None \<Rightarrow> Panic ''bget: no buffers''
         | Some b \<Rightarrow> lock_buf me b
             (upd_buf b (\<lambda>x. x\<lparr>bdev := dev, bblockno := bno, bvalid := False, refcnt := 1\<rparr>) s)))"
proof -
  have c: "chain (nexts s) bhead xs bhead" "chain (prevs s) bhead (rev xs) bhead" "bhead \<notin> set xs"
    using assms lru_head by (auto simp: lru_def)
  show ?thesis
    using find_cached_list[OF c(1,3)] find_unused_list[OF c(2)] c(3)
    by (auto simp: bget_def split: option.splits)
qed

end
