(* ===== verification/Bio_Correct.thy ===== *)
theory Bio_Correct
  imports Bio
begin

text \<open>
  What the buffer cache promises: \<open>bread\<close> returns the block as last written through the cache,
  whichever buffer holds it; a block is cached in at most one buffer; a buffer is recycled only
  when it is unreferenced, least recently used first. The contract is the locale
  \<open>block_cache\<close>; the copies done by \<open>write_log\<close> and \<open>install_trans\<close> are proved in it, and it is
  interpreted on the functions of \<open>bio.c\<close>.
\<close>

section \<open>The contract\<close>

text \<open>
  \<open>held s b n\<close>: the caller has buffer \<open>b\<close> locked for block \<open>n\<close>. \<open>view\<close> is the contents of the
  blocks as the file system sees them, \<open>dsk\<close> what is on the disk. A buffer may be released
  when it agrees with the disk or is pinned.
\<close>

locale block_cache =
  fixes inv :: "'s \<Rightarrow> bool" and view :: "'s \<Rightarrow> nat \<Rightarrow> block" and dsk :: "'s \<Rightarrow> nat \<Rightarrow> block"
    and held :: "'s \<Rightarrow> nat \<Rightarrow> nat \<Rightarrow> bool" and data :: "'s \<Rightarrow> nat \<Rightarrow> block" and pinned :: "'s \<Rightarrow> nat \<Rightarrow> bool"
    and rd :: "nat \<Rightarrow> 's \<Rightarrow> (nat \<times> 's) res" and md :: "nat \<Rightarrow> block \<Rightarrow> 's \<Rightarrow> 's"
    and wr :: "nat \<Rightarrow> 's \<Rightarrow> 's res" and rel :: "nat \<Rightarrow> 's \<Rightarrow> 's res"
  assumes held_view: "inv s \<Longrightarrow> held s b n \<Longrightarrow> data s b = view s n"
    and rd_law: "inv s \<Longrightarrow> rd n s = Ok (b, s') \<Longrightarrow> inv s' \<and> held s' b n \<and> view s' = view s \<and> dsk s' = dsk s
      \<and> (\<forall>c m. held s c m \<longrightarrow> held s' c m) \<and> (\<forall>c. pinned s c \<longrightarrow> (\<exists>m. held s c m) \<longrightarrow> pinned s' c)"
    and md_law: "inv s \<Longrightarrow> held s b n \<Longrightarrow> inv (md b d s) \<and> view (md b d s) = (view s)(n := d)
      \<and> dsk (md b d s) = dsk s \<and> held (md b d s) = held s \<and> pinned (md b d s) = pinned s"
    and wr_law: "inv s \<Longrightarrow> held s b n \<Longrightarrow> \<exists>s'. wr b s = Ok s' \<and> inv s' \<and> view s' = view s
      \<and> dsk s' = (dsk s)(n := view s n) \<and> held s' = held s \<and> pinned s' = pinned s"
    and rel_law: "inv s \<Longrightarrow> held s b n \<Longrightarrow> view s n = dsk s n \<or> pinned s b \<Longrightarrow> \<exists>s'. rel b s = Ok s' \<and> inv s'
      \<and> view s' = view s \<and> dsk s' = dsk s \<and> (\<forall>c m. c \<noteq> b \<longrightarrow> held s c m \<longrightarrow> held s' c m)"
    and held_block: "inv s \<Longrightarrow> held s b n \<Longrightarrow> held s b m \<Longrightarrow> n = m"
begin

text \<open>Read block \<open>a\<close> and block \<open>b\<close>, copy \<open>a\<close> over \<open>b\<close>, write \<open>b\<close> out, release both: the body of the
  loops of \<open>write_log\<close> and \<open>install_trans\<close>.\<close>

lemma copy_block:
  assumes "inv s" "rd a s = Ok (x, s1)" "rd b s1 = Ok (y, s2)" "a \<noteq> b"
    and "view s a = dsk s a \<or> pinned s2 x"
  shows "\<exists>s3 s4 s5. wr y (md y (data s2 x) s2) = Ok s3 \<and> rel x s3 = Ok s4 \<and> rel y s4 = Ok s5 \<and> inv s5
    \<and> view s5 = (view s)(b := view s a) \<and> dsk s5 = (dsk s)(b := view s a)"
proof -
  have r1: "inv s1" "held s1 x a" "view s1 = view s" "dsk s1 = dsk s" using rd_law[OF assms(1,2)] by auto
  have r2: "inv s2" "held s2 y b" "held s2 x a" "view s2 = view s" "dsk s2 = dsk s"
    using rd_law[OF r1(1) assms(3)] r1 by auto
  have xy: "x \<noteq> y" using held_block[OF r2(1,2)] r2(3) assms(4) by auto
  let ?m = "md y (data s2 x) s2"
  have m: "inv ?m" "held ?m y b" "held ?m x a" "view ?m = (view s)(b := view s a)" "dsk ?m = dsk s" "pinned ?m = pinned s2"
    using md_law[OF r2(1,2), of "data s2 x"] r2 held_view[OF r2(1,3)] by auto
  obtain s3 where w: "wr y ?m = Ok s3" "inv s3" "view s3 = view ?m" "dsk s3 = (dsk ?m)(b := view ?m b)"
    "held s3 = held ?m" "pinned s3 = pinned ?m" using wr_law[OF m(1,2)] by blast
  have "view s3 a = dsk s3 a \<or> pinned s3 x" using assms(4,5) w m by auto
  then obtain s4 where l1: "rel x s3 = Ok s4" "inv s4" "view s4 = view s3" "dsk s4 = dsk s3" "held s4 y b"
    using rel_law[of s3 x a] w m(2,3) xy by auto
  have "view s4 b = dsk s4 b" using l1 w m by simp
  then obtain s5 where "rel y s4 = Ok s5" "inv s5" "view s5 = view s4" "dsk s5 = dsk s4"
    using rel_law[OF l1(2,5)] by blast
  then show ?thesis using w m l1 by (intro exI[of _ s3] exI[of _ s4] exI[of _ s5]) simp
qed

end

section \<open>The invariant of the cache\<close>

definition ROOTDEV :: nat where "ROOTDEV = 1"

definition caches :: "bcache \<Rightarrow> nat \<Rightarrow> nat \<Rightarrow> bool" where
  "caches s b n \<longleftrightarrow> b < NBUF \<and> bdev (bufs s b) = ROOTDEV \<and> bblockno (bufs s b) = n"

definition cache_inv :: "bcache \<Rightarrow> bool" where
  "cache_inv s \<longleftrightarrow> (\<exists>xs. lru s xs)
     \<and> (\<forall>b<NBUF. refcnt (bufs s b) \<ge> 0 \<and> (slocked (block_lk (bufs s b)) \<longrightarrow> refcnt (bufs s b) > 0))
     \<and> (\<forall>b<NBUF. bdev (bufs s b) \<noteq> ROOTDEV \<longrightarrow> refcnt (bufs s b) = 0 \<and> \<not> bvalid (bufs s b))
     \<and> (\<forall>b c n. caches s b n \<longrightarrow> caches s c n \<longrightarrow> b = c)
     \<and> (\<forall>b<NBUF. refcnt (bufs s b) = 0 \<longrightarrow> bvalid (bufs s b) \<longrightarrow> bdata (bufs s b) = bdisk s (bblockno (bufs s b)))"

definition cview :: "bcache \<Rightarrow> nat \<Rightarrow> block" where
  "cview s n = (case List.find (\<lambda>b. bdev (bufs s b) = ROOTDEV \<and> bblockno (bufs s b) = n \<and> bvalid (bufs s b)) [0..<NBUF] of
     None \<Rightarrow> bdisk s n | Some b \<Rightarrow> bdata (bufs s b))"

definition bheld :: "int \<Rightarrow> bcache \<Rightarrow> nat \<Rightarrow> nat \<Rightarrow> bool" where
  "bheld me s b n \<longleftrightarrow> caches s b n \<and> bvalid (bufs s b) \<and> holdingsleep me (block_lk (bufs s b))"

lemma cview_valid:
  "cache_inv s \<Longrightarrow> caches s b n \<Longrightarrow> bvalid (bufs s b) \<Longrightarrow> cview s n = bdata (bufs s b)"
proof -
  assume i: "cache_inv s" "caches s b n" "bvalid (bufs s b)"
  let ?P = "\<lambda>b. bdev (bufs s b) = ROOTDEV \<and> bblockno (bufs s b) = n \<and> bvalid (bufs s b)"
  have "List.find ?P [0..<NBUF] \<noteq> None" using i(2,3) by (auto simp: find_None_iff caches_def)
  then obtain c where c: "List.find ?P [0..<NBUF] = Some c" by blast
  then have "caches s c n" by (auto simp: find_Some_iff caches_def)
  then have "c = b" using i by (auto simp: cache_inv_def)
  then show ?thesis using c by (simp add: cview_def)
qed

lemma cview_none: "(\<And>b. caches s b n \<Longrightarrow> \<not> bvalid (bufs s b)) \<Longrightarrow> cview s n = bdisk s n"
proof -
  assume "\<And>b. caches s b n \<Longrightarrow> \<not> bvalid (bufs s b)"
  then have "List.find (\<lambda>b. bdev (bufs s b) = ROOTDEV \<and> bblockno (bufs s b) = n \<and> bvalid (bufs s b)) [0..<NBUF] = None"
    by (auto simp: find_None_iff caches_def)
  then show ?thesis by (simp add: cview_def)
qed

lemma cview_cases:
  assumes "cache_inv s"
  obtains b where "caches s b n" "bvalid (bufs s b)" "cview s n = bdata (bufs s b)"
    | "\<And>b. caches s b n \<Longrightarrow> \<not> bvalid (bufs s b)" "cview s n = bdisk s n"
  using cview_valid[OF assms] cview_none[of s n] by blast

lemma cache_inv_uniq: "cache_inv s \<Longrightarrow> caches s b n \<Longrightarrow> caches s c n \<Longrightarrow> b = c"
  by (auto simp: cache_inv_def)

lemma lru_keep: "lru s xs \<Longrightarrow> nexts t = nexts s \<Longrightarrow> prevs t = prevs s \<Longrightarrow> lru t xs"
  by (simp add: lru_def)

text \<open>Changes of one buffer that keep its identity and its list links.\<close>

lemma same_view:
  assumes "cache_inv s" "cache_inv t" "bdisk t = bdisk s"
    and "\<And>b n. caches t b n \<and> bvalid (bufs t b) \<Longrightarrow> caches s b n \<and> bvalid (bufs s b) \<and> bdata (bufs t b) = bdata (bufs s b)
           \<or> (\<forall>c. caches s c n \<longrightarrow> \<not> bvalid (bufs s c)) \<and> bdata (bufs t b) = bdisk s n"
    and "\<And>b n. caches s b n \<and> bvalid (bufs s b) \<Longrightarrow> caches t b n \<and> bvalid (bufs t b) \<or> bdata (bufs s b) = bdisk s n"
  shows "cview t = cview s"
proof
  fix n
  show "cview t n = cview s n"
  proof (rule cview_cases[OF assms(2), of n])
    fix b assume t: "caches t b n" "bvalid (bufs t b)" "cview t n = bdata (bufs t b)"
    then consider "caches s b n" "bvalid (bufs s b)" "bdata (bufs t b) = bdata (bufs s b)"
      | "\<forall>c. caches s c n \<longrightarrow> \<not> bvalid (bufs s c)" "bdata (bufs t b) = bdisk s n"
      using assms(4)[of b n] by blast
    then show ?thesis using t(3) cview_valid[OF assms(1)] cview_none[of s n] by cases auto
  next
    assume t: "\<And>b. caches t b n \<Longrightarrow> \<not> bvalid (bufs t b)" "cview t n = bdisk t n"
    show ?thesis
    proof (rule cview_cases[OF assms(1), of n])
      fix b assume "caches s b n" "bvalid (bufs s b)" "cview s n = bdata (bufs s b)"
      then show ?thesis using assms(3) assms(5)[of b n] t by metis
    qed (use t assms(3) in simp)
  qed
qed

section \<open>The operations keep the invariant\<close>

lemma lock_buf_free:
  "\<not> slocked (block_lk (bufs s b)) \<Longrightarrow>
   lock_buf me b s = Ok (b, upd_buf b (\<lambda>x. x\<lparr>block_lk := (block_lk x)\<lparr>slocked := True, spid := me\<rparr>\<rparr>) s)"
  by (simp add: lock_buf_def acquiresleep_def upd_buf_def)

lemma lock_buf_busy: "slocked (block_lk (bufs s b)) \<Longrightarrow> lock_buf me b s = Hang"
  by (simp add: lock_buf_def acquiresleep_def)

text \<open>The buffer for block \<open>n\<close> after \<open>bread\<close>, when it was cached and when it was not.\<close>

definition read_hit :: "int \<Rightarrow> bcache \<Rightarrow> buf \<Rightarrow> buf" where
  "read_hit me s x = x\<lparr>refcnt := refcnt x + 1, block_lk := (block_lk x)\<lparr>slocked := True, spid := me\<rparr>,
     bdata := (if bvalid x then bdata x else bdisk s (bblockno x)), bvalid := True\<rparr>"

definition read_miss :: "int \<Rightarrow> bcache \<Rightarrow> nat \<Rightarrow> buf \<Rightarrow> buf" where
  "read_miss me s n x = x\<lparr>bdev := ROOTDEV, bblockno := n, refcnt := 1,
     block_lk := (block_lk x)\<lparr>slocked := True, spid := me\<rparr>, bdata := bdisk s n, bvalid := True\<rparr>"

lemma find_the:
  assumes "x \<in> set xs" "P x" "\<And>y. y \<in> set xs \<Longrightarrow> P y \<Longrightarrow> y = x"
  shows "List.find P xs = Some x"
proof -
  obtain y where y: "List.find P xs = Some y" using assms(1,2) by (metis find_None_iff option.exhaust)
  then show ?thesis using assms(3)[of y] by (auto simp: find_Some_iff)
qed

lemma find_in: "List.find P xs = Some x \<Longrightarrow> x \<in> set xs \<and> P x"
  by (auto simp: find_Some_iff)

lemma read_hit_eq:
  assumes "cache_inv s" "caches s b n"
  shows "cache_read me ROOTDEV n s =
    (if slocked (block_lk (bufs s b)) then Hang else Ok (b, upd_buf b (read_hit me s) s))"
proof -
  obtain xs where l: "lru s xs" using assms(1) by (auto simp: cache_inv_def)
  have "List.find (\<lambda>b. bdev (bufs s b) = ROOTDEV \<and> bblockno (bufs s b) = n) xs = Some b"
  proof (rule find_the)
    show "b \<in> set xs" "bdev (bufs s b) = ROOTDEV \<and> bblockno (bufs s b) = n"
      using assms(2) l by (simp_all add: caches_def lru_def)
  next
    fix y assume "y \<in> set xs" "bdev (bufs s y) = ROOTDEV \<and> bblockno (bufs s y) = n"
    then have "caches s y n" using l by (simp add: caches_def lru_def)
    then show "y = b" using cache_inv_uniq[OF assms(1) _ assms(2)] by simp
  qed
  then have g: "bget me ROOTDEV n s = lock_buf me b (upd_buf b (\<lambda>x. x\<lparr>refcnt := refcnt x + 1\<rparr>) s)"
    by (simp add: bget_lru[OF l])
  show ?thesis
  proof (cases "slocked (block_lk (bufs s b))")
    case True
    then show ?thesis by (simp add: cache_read_def g lock_buf_busy)
  next
    case False
    have n: "bblockno (bufs s b) = n" using assms(2) by (simp add: caches_def)
    show ?thesis
    proof (cases "bvalid (bufs s b)")
      case V: True
      then have "read_hit me s (bufs s b) = (bufs s b)\<lparr>refcnt := refcnt (bufs s b) + 1,
          block_lk := (block_lk (bufs s b))\<lparr>slocked := True, spid := me\<rparr>\<rparr>"
        by (cases "bufs s b") (simp add: read_hit_def)
      then show ?thesis using False V by (simp add: cache_read_def g lock_buf_free upd_buf_def)
    next
      case V: False
      then show ?thesis using False
        by (simp add: cache_read_def g lock_buf_free upd_buf_def read_hit_def virtio_disk_rw_def)
    qed
  qed
qed

lemma read_miss_eq:
  assumes "cache_inv s" "lru s xs" "\<not> (\<exists>b. caches s b n)"
  shows "cache_read me ROOTDEV n s =
    (case List.find (\<lambda>b. refcnt (bufs s b) = 0) (rev xs) of
       None \<Rightarrow> Panic ''bget: no buffers'' | Some b \<Rightarrow> Ok (b, upd_buf b (read_miss me s n) s))"
proof -
  have none: "List.find (\<lambda>b. bdev (bufs s b) = ROOTDEV \<and> bblockno (bufs s b) = n) xs = None"
    using assms(2,3) by (auto simp: find_None_iff caches_def lru_def)
  show ?thesis
  proof (cases "List.find (\<lambda>b. refcnt (bufs s b) = 0) (rev xs)")
    case None
    then show ?thesis using none by (simp add: cache_read_def bget_lru[OF assms(2)])
  next
    case (Some b)
    then have "refcnt (bufs s b) = 0" "b < NBUF" using find_in[OF Some] assms(2) by (auto simp: lru_def)
    then have "\<not> slocked (block_lk (bufs s b))" using assms(1) by (auto simp: cache_inv_def)
    then show ?thesis using none Some
      by (simp add: cache_read_def bget_lru[OF assms(2)] lock_buf_free upd_buf_def read_miss_def virtio_disk_rw_def)
  qed
qed

lemma keeps_read: "keeps_links (read_hit me s)" "keeps_links (read_miss me s n)"
  by (simp_all add: keeps_links_def read_hit_def read_miss_def)

text \<open>A change of buffer \<open>b\<close> only, under which \<open>b\<close> is referenced.\<close>

lemma cache_inv_upd:
  assumes "cache_inv s" "b < NBUF" "keeps_links f" "refcnt (f (bufs s b)) > 0" "bdev (f (bufs s b)) = ROOTDEV"
    and "\<And>c. caches s c (bblockno (f (bufs s b))) \<Longrightarrow> c = b"
  shows "cache_inv (upd_buf b f s)"
proof -
  let ?t = "upd_buf b f s"
  have "\<exists>xs. lru ?t xs" using assms(1,3) by (auto simp: cache_inv_def lru_upd)
  moreover have "caches ?t x m \<Longrightarrow> caches ?t y m \<Longrightarrow> x = y" for x y m
    using assms(6) cache_inv_uniq[OF assms(1), of x m y]
    by (cases "x = b"; cases "y = b") (auto simp: caches_def)
  ultimately show ?thesis
    using assms(1,2,4,5) unfolding cache_inv_def by auto
qed

lemma caches_upd:
  "caches (upd_buf b f s) c m \<longleftrightarrow> (if c = b then b < NBUF \<and> bdev (f (bufs s b)) = ROOTDEV \<and> bblockno (f (bufs s b)) = m
     else caches s c m)"
  by (auto simp: caches_def)

lemma read_hit_ok:
  assumes inv: "cache_inv s" and b: "caches s b n" "\<not> slocked (block_lk (bufs s b))"
  shows "cache_inv (upd_buf b (read_hit me s) s) \<and> bheld me (upd_buf b (read_hit me s) s) b n
    \<and> cview (upd_buf b (read_hit me s) s) = cview s"
proof -
  let ?t = "upd_buf b (read_hit me s) s"
  have bn: "b < NBUF" "bdev (bufs s b) = ROOTDEV" "bblockno (bufs s b) = n" using b(1) by (auto simp: caches_def)
  have "refcnt (bufs s b) \<ge> 0" using inv bn(1) by (auto simp: cache_inv_def)
  then have i: "cache_inv ?t"
  proof (intro cache_inv_upd[OF inv bn(1) keeps_read(1)])
    fix c assume "caches s c (bblockno (read_hit me s (bufs s b)))"
    then show "c = b" using bn(3) cache_inv_uniq[OF inv _ b(1), of c] by (simp add: read_hit_def)
  qed (use bn in \<open>simp_all add: read_hit_def\<close>)
  have same: "caches ?t c m \<longleftrightarrow> caches s c m" for c m
    using bn by (auto simp: caches_upd read_hit_def) (auto simp: caches_def)
  have "cview ?t = cview s"
  proof (rule same_view[OF inv i])
    fix c m assume c: "caches ?t c m \<and> bvalid (bufs ?t c)"
    show "caches s c m \<and> bvalid (bufs s c) \<and> bdata (bufs ?t c) = bdata (bufs s c)
      \<or> (\<forall>d. caches s d m \<longrightarrow> \<not> bvalid (bufs s d)) \<and> bdata (bufs ?t c) = bdisk s m"
    proof (cases "c = b")
      case True
      then have "caches s b m" using c same[of b m] by simp
      then have "m = n" using bn by (simp add: caches_def)
      moreover have "\<not> bvalid (bufs s b) \<longrightarrow> (\<forall>d. caches s d n \<longrightarrow> \<not> bvalid (bufs s d))"
        using cache_inv_uniq[OF inv _ b(1)] by metis
      ultimately show ?thesis using True b bn by (cases "bvalid (bufs s b)") (simp_all add: read_hit_def)
    next
      case False
      then show ?thesis using c same by auto
    qed
  next
    fix c m assume "caches s c m \<and> bvalid (bufs s c)"
    then show "caches ?t c m \<and> bvalid (bufs ?t c) \<or> bdata (bufs s c) = bdisk s m"
      using same[of c m] by (auto simp: read_hit_def)
  qed simp
  then show ?thesis using i bn by (simp add: bheld_def caches_def read_hit_def holdingsleep_def)
qed

lemma read_miss_ok:
  assumes inv: "cache_inv s" and n: "\<not> (\<exists>b. caches s b n)" and b: "b < NBUF" "refcnt (bufs s b) = 0"
  shows "cache_inv (upd_buf b (read_miss me s n) s) \<and> bheld me (upd_buf b (read_miss me s n) s) b n
    \<and> cview (upd_buf b (read_miss me s n) s) = cview s"
proof -
  let ?t = "upd_buf b (read_miss me s n) s"
  have i: "cache_inv ?t"
    using n by (intro cache_inv_upd[OF inv b(1) keeps_read(2)]) (auto simp: read_miss_def)
  have "cview ?t = cview s"
  proof (rule same_view[OF inv i])
    fix c m assume c: "caches ?t c m \<and> bvalid (bufs ?t c)"
    show "caches s c m \<and> bvalid (bufs s c) \<and> bdata (bufs ?t c) = bdata (bufs s c)
      \<or> (\<forall>d. caches s d m \<longrightarrow> \<not> bvalid (bufs s d)) \<and> bdata (bufs ?t c) = bdisk s m"
      using c n by (cases "c = b") (auto simp: caches_upd read_miss_def)
  next
    fix c m assume c: "caches s c m \<and> bvalid (bufs s c)"
    show "caches ?t c m \<and> bvalid (bufs ?t c) \<or> bdata (bufs s c) = bdisk s m"
    proof (cases "c = b")
      case True
      then show ?thesis using c b inv by (auto simp: cache_inv_def caches_def)
    next
      case False
      then show ?thesis using c by (simp add: caches_upd)
    qed
  qed simp
  then show ?thesis using i b by (simp add: bheld_def caches_def read_miss_def holdingsleep_def)
qed

lemma cache_read_ok:
  assumes inv: "cache_inv s" and r: "cache_read me ROOTDEV n s = Ok (b, s')"
  shows "cache_inv s' \<and> bheld me s' b n \<and> cview s' = cview s \<and> bdisk s' = bdisk s
    \<and> (\<forall>c. c \<noteq> b \<longrightarrow> bufs s' c = bufs s c) \<and> (\<forall>m. \<not> (bheld me s b m))"
proof (cases "\<exists>c. caches s c n")
  case True
  then obtain c where c: "caches s c n" by blast
  then have f: "\<not> slocked (block_lk (bufs s b))" "b = c" "s' = upd_buf b (read_hit me s) s"
    using r by (auto simp: read_hit_eq[OF inv c] split: if_splits)
  then show ?thesis using read_hit_ok[OF inv c, of me] by (simp add: bheld_def holdingsleep_def)
next
  case False
  obtain xs where l: "lru s xs" using inv by (auto simp: cache_inv_def)
  then have f: "List.find (\<lambda>b. refcnt (bufs s b) = 0) (rev xs) = Some b" "s' = upd_buf b (read_miss me s n) s"
    using r by (auto simp: read_miss_eq[OF inv l False] split: option.splits)
  then have z: "refcnt (bufs s b) = 0" "b < NBUF" using find_in[OF f(1)] l by (auto simp: lru_def)
  then have "\<not> slocked (block_lk (bufs s b))" using inv by (auto simp: cache_inv_def)
  then show ?thesis using read_miss_ok[OF inv False z(2,1), of me] f(2) by (simp add: bheld_def holdingsleep_def)
qed

lemma bheld_upd_other: "c \<noteq> b \<Longrightarrow> bheld me (upd_buf b f s) c m = bheld me s c m"
  by (auto simp: bheld_def caches_def)

lemma write_ok:
  assumes inv: "cache_inv s" and h: "bheld me s b n"
  shows "\<exists>s'. cache_write me b s = Ok s' \<and> cache_inv s' \<and> cview s' = cview s
    \<and> bdisk s' = (bdisk s)(n := cview s n) \<and> bufs s' = bufs s"
proof -
  have b: "b < NBUF" "bdev (bufs s b) = ROOTDEV" "bblockno (bufs s b) = n" "bvalid (bufs s b)"
    "slocked (block_lk (bufs s b))" "caches s b n"
    using h by (auto simp: bheld_def caches_def holdingsleep_def)
  let ?t = "s\<lparr>bdisk := (bdisk s)(n := bdata (bufs s b))\<rparr>"
  have cv: "cview s n = bdata (bufs s b)" using cview_valid[OF inv b(6,4)] .
  have eq: "caches ?t = caches s" by (simp add: caches_def fun_eq_iff)
  have "cache_inv ?t"
    unfolding cache_inv_def
  proof (intro conjI allI impI)
    show "\<exists>xs. lru ?t xs" using inv by (auto simp: cache_inv_def lru_def)
  next
    fix c assume c: "c < NBUF" "refcnt (bufs ?t c) = 0" "bvalid (bufs ?t c)"
    then have d: "bdata (bufs s c) = bdisk s (bblockno (bufs s c))" "bdev (bufs s c) = ROOTDEV"
      using inv by (auto simp: cache_inv_def)
    have "bblockno (bufs s c) \<noteq> n"
    proof
      assume "bblockno (bufs s c) = n"
      then have "c = b" using cache_inv_uniq[OF inv _ b(6), of c] c(1) d(2) by (simp add: caches_def)
      then show False using c(2) inv b(1,5) by (auto simp: cache_inv_def)
    qed
    then show "bdata (bufs ?t c) = bdisk ?t (bblockno (bufs ?t c))" using d by simp
  qed (use inv eq in \<open>auto simp: cache_inv_def\<close>)
  moreover have "cview ?t = cview s"
    using cv by (auto simp: cview_def fun_eq_iff split: option.splits)
  moreover have "cache_write me b s = Ok ?t"
    using h b by (simp add: cache_write_def bheld_def virtio_disk_rw_def)
  ultimately show ?thesis using cv by simp
qed

definition cache_modify :: "nat \<Rightarrow> block \<Rightarrow> bcache \<Rightarrow> bcache" where
  "cache_modify b d s = upd_buf b (bdata_update (\<lambda>_. d)) s"

lemma modify_ok:
  assumes inv: "cache_inv s" and h: "bheld me s b n"
  shows "cache_inv (cache_modify b d s) \<and> cview (cache_modify b d s) = (cview s)(n := d)
    \<and> bheld me (cache_modify b d s) = bheld me s"
proof -
  have b: "b < NBUF" "bdev (bufs s b) = ROOTDEV" "bblockno (bufs s b) = n" "bvalid (bufs s b)"
    "slocked (block_lk (bufs s b))" "caches s b n"
    using h by (auto simp: bheld_def caches_def holdingsleep_def)
  let ?t = "cache_modify b d s"
  have same: "caches ?t = caches s" by (auto simp: cache_modify_def caches_def fun_eq_iff)
  have "refcnt (bufs s b) > 0" using inv b(1,5) by (auto simp: cache_inv_def)
  then have i: "cache_inv ?t"
    unfolding cache_modify_def
  proof (intro cache_inv_upd[OF inv b(1)])
    fix c assume "caches s c (bblockno (bdata_update (\<lambda>_. d) (bufs s b)))"
    then show "c = b" using b(3) cache_inv_uniq[OF inv _ b(6), of c] by simp
  qed (use b in \<open>simp_all add: keeps_links_def\<close>)
  have "cview ?t m = ((cview s)(n := d)) m" for m
  proof (cases "m = n")
    case True
    then show ?thesis using cview_valid[OF i, of b n] same b by (simp add: cache_modify_def)
  next
    case False
    show ?thesis
    proof (rule cview_cases[OF i, of m])
      fix c assume c: "caches ?t c m" "bvalid (bufs ?t c)" "cview ?t m = bdata (bufs ?t c)"
      then have "c \<noteq> b" using same b False by (auto simp: caches_def)
      then show ?thesis using c same cview_valid[OF inv, of c m] False by (simp add: cache_modify_def)
    next
      assume c: "\<And>c. caches ?t c m \<Longrightarrow> \<not> bvalid (bufs ?t c)" "cview ?t m = bdisk ?t m"
      have "\<not> bvalid (bufs s c)" if "caches s c m" for c
        using c(1)[of c] that same by (auto simp: cache_modify_def split: if_splits)
      then show ?thesis using cview_none[of s m] c(2) False by (simp add: cache_modify_def)
    qed
  qed
  moreover have "bheld me ?t x m = bheld me s x m" for x m
    by (cases "x = b") (simp_all add: bheld_def same, simp_all add: cache_modify_def)
  ultimately show ?thesis using i by (simp add: fun_eq_iff)
qed

text \<open>Relinking changes nothing but the links.\<close>

definition relinked :: "bcache \<Rightarrow> bcache \<Rightarrow> bool" where
  "relinked s t \<longleftrightarrow> bdisk t = bdisk s \<and> (\<forall>c. \<exists>p n. bufs t c = (bufs s c)\<lparr>bprev := p, bnext := n\<rparr>)"

lemma relinked_refl: "relinked s s"
proof -
  have "bufs s c = (bufs s c)\<lparr>bprev := bprev (bufs s c), bnext := bnext (bufs s c)\<rparr>" for c by simp
  then show ?thesis unfolding relinked_def by blast
qed

lemma relinked_trans: "relinked s t \<Longrightarrow> relinked t u \<Longrightarrow> relinked s u"
  unfolding relinked_def by (metis (no_types, lifting) buf.fold_congs(6,7) buf.surjective buf.update_convs(6,7))

lemma relinked_upd: "(\<And>x. \<exists>p n. f x = x\<lparr>bprev := p, bnext := n\<rparr>) \<Longrightarrow> relinked s (upd_buf b f s)"
proof -
  assume f: "\<And>x. \<exists>p n. f x = x\<lparr>bprev := p, bnext := n\<rparr>"
  have "\<exists>p n. bufs (upd_buf b f s) c = (bufs s c)\<lparr>bprev := p, bnext := n\<rparr>" for c
    using f[of "bufs s c"] relinked_refl[of s] by (cases "c = b") (auto simp: relinked_def)
  then show ?thesis by (simp add: relinked_def)
qed

lemma relinked_prev: "relinked s (upd_buf b (bprev_update (\<lambda>_. v)) s)"
proof (rule relinked_upd)
  fix x :: buf show "\<exists>p n. bprev_update (\<lambda>_. v) x = x\<lparr>bprev := p, bnext := n\<rparr>"
    by (intro exI[of _ v] exI[of _ "bnext x"]) simp
qed

lemma relinked_next: "relinked s (upd_buf b (bnext_update (\<lambda>_. v)) s)"
proof (rule relinked_upd)
  fix x :: buf show "\<exists>p n. bnext_update (\<lambda>_. v) x = x\<lparr>bprev := p, bnext := n\<rparr>"
    by (intro exI[of _ "bprev x"] exI[of _ v]) simp
qed

lemma relinked_move: "relinked s (move_front b s)"
  unfolding move_front_def push_front_def Let_def
  by (intro relinked_trans[OF _ relinked_next] relinked_trans[OF _ relinked_prev] relinked_refl)

lemma relinked_fields:
  assumes "relinked s t"
  shows "bvalid (bufs t c) = bvalid (bufs s c)" "bdev (bufs t c) = bdev (bufs s c)"
    "bblockno (bufs t c) = bblockno (bufs s c)" "block_lk (bufs t c) = block_lk (bufs s c)"
    "refcnt (bufs t c) = refcnt (bufs s c)" "bdata (bufs t c) = bdata (bufs s c)" "bdisk t = bdisk s"
proof -
  obtain p n where "bufs t c = (bufs s c)\<lparr>bprev := p, bnext := n\<rparr>" using assms unfolding relinked_def by blast
  then show "bvalid (bufs t c) = bvalid (bufs s c)" "bdev (bufs t c) = bdev (bufs s c)"
    "bblockno (bufs t c) = bblockno (bufs s c)" "block_lk (bufs t c) = block_lk (bufs s c)"
    "refcnt (bufs t c) = refcnt (bufs s c)" "bdata (bufs t c) = bdata (bufs s c)" by simp_all
qed (use assms in \<open>simp add: relinked_def\<close>)

lemma relinked_inv:
  assumes "relinked s t" "cache_inv s" "lru t xs"
  shows "cache_inv t \<and> cview t = cview s \<and> bheld me t = bheld me s"
proof -
  note f = relinked_fields[OF assms(1)]
  have c: "caches t = caches s" by (simp add: fun_eq_iff caches_def f)
  have "cache_inv t"
    using assms(2) exI[of "lru t", OF assms(3)] unfolding cache_inv_def f c by simp
  then show ?thesis by (simp add: fun_eq_iff bheld_def cview_def f c split: option.split)
qed

definition unref :: "buf \<Rightarrow> buf" where
  "unref x = x\<lparr>block_lk := (block_lk x)\<lparr>slocked := False, spid := 0\<rparr>, refcnt := refcnt x - 1\<rparr>"

lemma release_unref:
  assumes inv: "cache_inv s" and h: "bheld me s b n" and clean: "cview s n = bdisk s n \<or> refcnt (bufs s b) > 1"
  shows "cache_inv (upd_buf b unref s) \<and> cview (upd_buf b unref s) = cview s"
proof -
  have b: "b < NBUF" "caches s b n" "bvalid (bufs s b)" "slocked (block_lk (bufs s b))" "bblockno (bufs s b) = n"
    using h by (auto simp: bheld_def caches_def holdingsleep_def)
  have r: "refcnt (bufs s b) > 0" using inv b by (auto simp: cache_inv_def)
  let ?t = "upd_buf b unref s"
  have u: "bdev (unref x) = bdev x" "bblockno (unref x) = bblockno x" "bvalid (unref x) = bvalid x"
    "bdata (unref x) = bdata x" "refcnt (unref x) = refcnt x - 1" "\<not> slocked (block_lk (unref x))" for x
    by (simp_all add: unref_def)
  have k: "keeps_links unref" by (simp add: keeps_links_def unref_def)
  have same: "caches ?t = caches s" by (auto simp: fun_eq_iff caches_def u)
  have cl: "refcnt (bufs s b) = 1 \<longrightarrow> bdata (bufs s b) = bdisk s (bblockno (bufs s b))"
    using clean cview_valid[OF inv b(2,3)] b(5) by auto
  have i: "cache_inv ?t"
    unfolding cache_inv_def same
  proof (intro conjI allI impI)
    show "\<exists>xs. lru ?t xs" using inv lru_upd[OF k] by (auto simp: cache_inv_def)
  next
    fix c assume c: "c < NBUF" "refcnt (bufs ?t c) = 0" "bvalid (bufs ?t c)"
    then show "bdata (bufs ?t c) = bdisk ?t (bblockno (bufs ?t c))"
      using inv cl by (cases "c = b") (auto simp: cache_inv_def u)
  next
    fix c assume c: "c < NBUF" "bdev (bufs ?t c) \<noteq> ROOTDEV"
    then have "c \<noteq> b" using b(2) by (auto simp: u caches_def)
    then show "refcnt (bufs ?t c) = 0" "\<not> bvalid (bufs ?t c)" using c inv by (auto simp: cache_inv_def)
  qed (use inv r in \<open>auto simp: cache_inv_def u\<close>)
  have v: "bvalid (bufs ?t c) = bvalid (bufs s c)" "bdata (bufs ?t c) = bdata (bufs s c)" for c
    by (simp_all add: u)
  have "cview ?t = cview s"
    by (rule same_view[OF inv i]) (simp_all only: same v upd_buf_simps(2), simp_all)
  then show ?thesis using i by simp
qed

lemma release_ok:
  assumes inv: "cache_inv s" and h: "bheld me s b n" and clean: "cview s n = bdisk s n \<or> refcnt (bufs s b) > 1"
  shows "\<exists>s'. cache_release me b s = Ok s' \<and> cache_inv s' \<and> cview s' = cview s \<and> bdisk s' = bdisk s
    \<and> (\<forall>c m. c \<noteq> b \<longrightarrow> bheld me s c m \<longrightarrow> bheld me s' c m)"
proof -
  let ?t = "upd_buf b unref s"
  have t: "cache_inv ?t" "cview ?t = cview s" using release_unref[OF assms] by auto
  have hold: "holdingsleep me (block_lk (bufs s b))" "b < NBUF" using h by (auto simp: bheld_def caches_def)
  have eq: "upd_buf b (\<lambda>x. x\<lparr>refcnt := refcnt x - 1\<rparr>)
      (upd_buf b (block_lk_update (\<lambda>l. l\<lparr>slocked := False, spid := 0\<rparr>)) s) = ?t"
    by (cases "bufs s b") (simp add: upd_buf_def unref_def)
  have r: "cache_release me b s = Ok (if refcnt (bufs ?t b) = 0 then move_front b ?t else ?t)"
    unfolding cache_release_def Let_def eq using hold(1) by simp
  have keep: "bheld me ?t c m" if "c \<noteq> b" "bheld me s c m" for c m
    using that by (simp add: bheld_upd_other)
  show ?thesis
  proof (cases "refcnt (bufs ?t b) = 0")
    case True
    obtain us vs where "lru ?t (us @ b # vs)"
      using t(1) hold(2) unfolding cache_inv_def lru_def by (metis lessThan_iff split_list)
    then have "lru (move_front b ?t) (b # us @ vs)" by (rule move_front_lru)
    then have "cache_inv (move_front b ?t) \<and> cview (move_front b ?t) = cview ?t \<and> bheld me (move_front b ?t) = bheld me ?t"
      by (rule relinked_inv[OF relinked_move t(1)])
    moreover have "bdisk (move_front b ?t) = bdisk s" using relinked_fields(7)[OF relinked_move] by simp
    ultimately show ?thesis using r True t(2) keep by simp
  next
    case False
    then show ?thesis using r t keep by simp
  qed
qed

interpretation bc: block_cache cache_inv cview bdisk "bheld me" "\<lambda>s b. bdata (bufs s b)"
    "\<lambda>s b. refcnt (bufs s b) > 1" "cache_read me ROOTDEV" cache_modify "cache_write me" "cache_release me"
  for me
proof (unfold_locales, goal_cases)
  case (1 s b n)
  then show ?case using cview_valid[of s b n] by (simp add: bheld_def)
next
  case (2 s n b s')
  note r = cache_read_ok[OF 2]
  have "bheld me s' c m" if "bheld me s c m" for c m
  proof -
    have "c \<noteq> b" using r that by auto
    then show ?thesis using r that by (simp add: bheld_def caches_def)
  qed
  moreover have "refcnt (bufs s' c) > 1" if "refcnt (bufs s c) > 1" "\<exists>m. bheld me s c m" for c
    using r that by (metis (no_types))
  ultimately show ?case using r by simp
next
  case (3 s b n d)
  then show ?case using modify_ok[of s me b n d] by (auto simp: cache_modify_def)
next
  case (4 s b n)
  obtain s' where "cache_write me b s = Ok s'" "cache_inv s'" "cview s' = cview s"
    "bdisk s' = (bdisk s)(n := cview s n)" "bufs s' = bufs s" using write_ok[OF 4] by blast
  then show ?case by (intro exI[of _ s']) (simp add: fun_eq_iff bheld_def caches_def)
next
  case (5 s b n)
  then show ?case using release_ok[of s me b n] by blast
next
  case (6 s b n m)
  then show ?case by (simp add: bheld_def caches_def)
qed

section \<open>Start-up\<close>

text \<open>The cache before \<open>binit\<close>: zeroed static storage and any disk.\<close>

definition zero_cache :: "(nat \<Rightarrow> block) \<Rightarrow> bcache" where
  "zero_cache d = \<lparr>bufs = (\<lambda>_. \<lparr>bvalid = False, bdev = 0, bblockno = 0,
     block_lk = initsleeplock [], refcnt = 0, bprev = 0, bnext = 0,
     bdata = zero_block\<rparr>), bdisk = d\<rparr>"

abbreviation binit_step :: "nat \<Rightarrow> bcache \<Rightarrow> bcache" where
  "binit_step b t \<equiv> push_front b (upd_buf b (block_lk_update (\<lambda>_. initsleeplock ''buffer'')) t)"

text \<open>The fields that \<open>binit\<close> leaves at zero.\<close>

definition fresh_bufs :: "bcache \<Rightarrow> (nat \<Rightarrow> block) \<Rightarrow> bool" where
  "fresh_bufs s d \<longleftrightarrow> bdisk s = d \<and> (\<forall>b. refcnt (bufs s b) = 0 \<and> \<not> bvalid (bufs s b) \<and> bdev (bufs s b) = 0
     \<and> \<not> slocked (block_lk (bufs s b)))"

lemma relinked_push: "relinked s (push_front b s)"
  unfolding push_front_def Let_def
  by (intro relinked_trans[OF _ relinked_next] relinked_trans[OF _ relinked_prev] relinked_refl)

lemma fresh_relinked: "relinked s t \<Longrightarrow> fresh_bufs s d \<Longrightarrow> fresh_bufs t d"
  by (simp add: fresh_bufs_def relinked_fields)

lemma binit_steps:
  assumes "k \<le> NBUF" "fresh_bufs s d" "chain (nexts s) bhead [] bhead" "chain (prevs s) bhead [] bhead"
  shows "let t = fold binit_step [0..<k] s in fresh_bufs t d \<and> chain (nexts t) bhead (rev [0..<k]) bhead
    \<and> chain (prevs t) bhead [0..<k] bhead"
  using assms(1)
proof (induction k)
  case 0
  then show ?case using assms by simp
next
  case (Suc k)
  define t where "t = fold binit_step [0..<k] s"
  have t: "fresh_bufs t d" "chain (nexts t) bhead (rev [0..<k]) bhead" "chain (prevs t) bhead [0..<k] bhead"
    using Suc t_def by (simp_all add: Let_def)
  let ?u = "upd_buf k (block_lk_update (\<lambda>_. initsleeplock ''buffer'')) t"
  have links: "nexts ?u = nexts t" "prevs ?u = prevs t" by (auto simp: fun_eq_iff)
  have u: "fresh_bufs ?u d" using t(1) by (simp add: fresh_bufs_def initsleeplock_def)
  have p: "chain (nexts (push_front k ?u)) bhead (k # rev [0..<k]) bhead"
    "chain (prevs (push_front k ?u)) bhead (rev (k # rev [0..<k])) bhead"
    by (rule push_front_chains; use Suc.prems t(2,3) links in simp)+
  show ?case using p fresh_relinked[OF relinked_push u] by (simp add: t_def[symmetric] Let_def)
qed

text \<open>
  \<open>binit\<close> turns zeroed storage into a well-formed cache: all \<open>NBUF\<close> buffers on the list, last
  initialised first, none valid, so that the blocks read as they are on the disk.
\<close>

theorem binit_correct:
  "cache_inv (binit (zero_cache d)) \<and> lru (binit (zero_cache d)) (rev [0..<NBUF])
   \<and> cview (binit (zero_cache d)) = d"
proof -
  let ?s = "upd_buf bhead (\<lambda>h. h\<lparr>bprev := bhead, bnext := bhead\<rparr>) (zero_cache d)"
  have f: "fresh_bufs ?s d" by (simp add: fresh_bufs_def zero_cache_def initsleeplock_def)
  have b: "binit (zero_cache d) = fold binit_step [0..<NBUF] ?s" by (simp add: binit_def)
  have s: "fresh_bufs (binit (zero_cache d)) d" "lru (binit (zero_cache d)) (rev [0..<NBUF])"
    using binit_steps[OF order_refl f] unfolding b by (auto simp: Let_def lru_def lessThan_atLeast0)
  have "cache_inv (binit (zero_cache d))"
    using s by (auto simp: cache_inv_def fresh_bufs_def caches_def ROOTDEV_def)
  moreover have "cview (binit (zero_cache d)) n = d n" for n
    using s(1) cview_none[of "binit (zero_cache d)" n] by (simp add: fresh_bufs_def)
  ultimately show ?thesis using s(2) by (simp add: fun_eq_iff)
qed

text \<open>Caches used for the concrete examples: fresh from \<open>binit\<close>, and with block 5 read.\<close>

definition demo_cache :: bcache where "demo_cache = binit (zero_cache (\<lambda>n. zero_block(0 := of_nat n)))"

lemma demo_cache_inv: "cache_inv demo_cache" "lru demo_cache (rev [0..<NBUF])"
  "refcnt (bufs demo_cache b) = 0" "\<not> caches demo_cache b n"
proof -
  have f: "fresh_bufs demo_cache (\<lambda>n. zero_block(0 := of_nat n))"
    unfolding demo_cache_def using binit_steps[OF order_refl, of
      "upd_buf bhead (\<lambda>h. h\<lparr>bprev := bhead, bnext := bhead\<rparr>) (zero_cache (\<lambda>n. zero_block(0 := of_nat n)))"
      "\<lambda>n. zero_block(0 := of_nat n)"]
    by (auto simp: Let_def binit_def fresh_bufs_def zero_cache_def initsleeplock_def)
  then show "refcnt (bufs demo_cache b) = 0" "\<not> caches demo_cache b n"
    by (auto simp: fresh_bufs_def caches_def ROOTDEV_def)
  have "fresh_bufs (upd_buf bhead (\<lambda>h. h\<lparr>bprev := bhead, bnext := bhead\<rparr>) (zero_cache (\<lambda>n. zero_block(0 := of_nat n))))
     (\<lambda>n. zero_block(0 := of_nat n))" by (simp add: fresh_bufs_def zero_cache_def initsleeplock_def)
  from binit_steps[OF order_refl this] show l: "lru demo_cache (rev [0..<NBUF])"
    unfolding demo_cache_def binit_def by (auto simp: Let_def lru_def lessThan_atLeast0)
  show "cache_inv demo_cache" using f l by (auto simp: cache_inv_def fresh_bufs_def caches_def ROOTDEV_def)
qed

lemma demo_read: "cache_read 7 ROOTDEV 5 demo_cache = Ok (0, upd_buf 0 (read_miss 7 demo_cache 5) demo_cache)"
proof -
  have "rev (rev [0..<NBUF]) = 0 # [1..<NBUF]" by (simp add: NBUF_def upt_rec)
  then show ?thesis
    using read_miss_eq[OF demo_cache_inv(1,2), of 5 7] demo_cache_inv(3,4) by simp
qed

text \<open>
  C19. \<open>bread\<close> on a well-formed cache: a cached block is returned from its buffer, or waited for
  while another process holds it; otherwise the least recently used unreferenced buffer is recycled,
  and the kernel panics exactly when every buffer is referenced. The buffer returned is locked by
  the caller and holds the current contents of the block; no contents, cached or on disk, change.
\<close>

theorem bread_correct:
  assumes "cache_inv s" "lru s xs"
  shows "(case cache_read me ROOTDEV n s of
     Ok (b, s') \<Rightarrow> cache_inv s' \<and> bheld me s' b n \<and> bdata (bufs s' b) = cview s n \<and> cview s' = cview s \<and> bdisk s' = bdisk s
       \<and> (if \<exists>c. caches s c n then caches s b n else find (\<lambda>c. refcnt (bufs s c) = 0) (rev xs) = Some b)
   | Panic _ \<Rightarrow> (\<nexists>c. caches s c n) \<and> (\<forall>b<NBUF. refcnt (bufs s b) > 0)
   | Hang \<Rightarrow> \<exists>c. caches s c n \<and> slocked (block_lk (bufs s c)))"
proof (cases "\<exists>c. caches s c n")
  case True
  then obtain c where c: "caches s c n" by blast
  show ?thesis
  proof (cases "slocked (block_lk (bufs s c))")
    case True
    then show ?thesis using c by (auto simp: read_hit_eq[OF assms(1) c])
  next
    case False
    then have r: "cache_read me ROOTDEV n s = Ok (c, upd_buf c (read_hit me s) s)"
      by (simp add: read_hit_eq[OF assms(1) c])
    then show ?thesis
      using c cache_read_ok[OF assms(1) r] bc.held_view[of "upd_buf c (read_hit me s) s" me c n] by auto
  qed
next
  case False
  note eq = read_miss_eq[OF assms False, of me]
  show ?thesis
  proof (cases "find (\<lambda>b. refcnt (bufs s b) = 0) (rev xs)")
    case None
    then have "\<forall>b<NBUF. refcnt (bufs s b) \<noteq> 0" using assms(2) by (auto simp: find_None_iff lru_def)
    then show ?thesis using None eq False assms(1) by (auto simp: cache_inv_def order_less_le)
  next
    case (Some b)
    then have r: "cache_read me ROOTDEV n s = Ok (b, upd_buf b (read_miss me s n) s)" using eq by simp
    then show ?thesis
      using False Some cache_read_ok[OF assms(1) r] bc.held_view[of "upd_buf b (read_miss me s n) s" me b n] by auto
  qed
qed

theorem bread_correct_witness:
  "\<exists>b s'. cache_read 7 ROOTDEV 5 demo_cache = Ok (b, s') \<and> bdata (bufs s' b) = cview demo_cache 5"
  using bread_correct[OF demo_cache_inv(1,2), of 7 5] by (simp add: demo_read)

text \<open>
  \<open>brelse\<close> of a buffer that agrees with the disk or is pinned succeeds, keeps the cache well
  formed and changes no contents; a buffer that is no longer referenced becomes the most recently
  used one, and the order of the others is kept.
\<close>

theorem brelse_correct:
  assumes "cache_inv s" "bheld me s b n" "cview s n = bdisk s n \<or> refcnt (bufs s b) > 1" "lru s (us @ b # vs)"
  shows "\<exists>s'. cache_release me b s = Ok s' \<and> cache_inv s' \<and> cview s' = cview s \<and> bdisk s' = bdisk s
    \<and> \<not> slocked (block_lk (bufs s' b)) \<and> refcnt (bufs s' b) = refcnt (bufs s b) - 1
    \<and> lru s' (if refcnt (bufs s b) = 1 then b # us @ vs else us @ b # vs)"
proof -
  obtain s' where s': "cache_release me b s = Ok s'" "cache_inv s'" "cview s' = cview s" "bdisk s' = bdisk s"
    using release_ok[OF assms(1-3)] by blast
  let ?t = "upd_buf b unref s"
  have eq: "upd_buf b (\<lambda>x. x\<lparr>refcnt := refcnt x - 1\<rparr>)
      (upd_buf b (block_lk_update (\<lambda>l. l\<lparr>slocked := False, spid := 0\<rparr>)) s) = ?t"
    by (cases "bufs s b") (simp add: upd_buf_def unref_def)
  have u: "refcnt (unref x) = refcnt x - 1" "\<not> slocked (block_lk (unref x))" for x by (simp_all add: unref_def)
  have t: "s' = (if refcnt (bufs s b) = 1 then move_front b ?t else ?t)"
    using s'(1) assms(2) unfolding cache_release_def Let_def eq by (auto simp: bheld_def u split: if_splits)
  have l: "lru ?t (us @ b # vs)" using assms(4) by (simp add: lru_upd keeps_links_def unref_def)
  show ?thesis
    using s' t l move_front_lru[OF l] relinked_fields(4,5)[OF relinked_move[of ?t b], of b] u by (auto split: if_splits)
qed

theorem brelse_correct_witness:
  "\<exists>s'. cache_release 7 0 (upd_buf 0 (read_miss 7 demo_cache 5) demo_cache) = Ok s'
    \<and> lru s' (0 # rev [1..<NBUF])"
proof -
  let ?s = "upd_buf 0 (read_miss 7 demo_cache 5) demo_cache"
  have r: "cache_inv ?s" "bheld 7 ?s 0 5" "cview ?s = cview demo_cache" "bdisk ?s = bdisk demo_cache"
    using cache_read_ok[OF demo_cache_inv(1) demo_read] by auto
  have c: "cview ?s 5 = bdisk ?s 5" using cview_none[of demo_cache 5] demo_cache_inv(4) r(3,4) by simp
  have "rev [0..<NBUF] = rev [1..<NBUF] @ 0 # []" by (simp add: NBUF_def upt_rec)
  then have l: "lru ?s (rev [1..<NBUF] @ 0 # [])"
    using demo_cache_inv(2) by (simp add: lru_upd keeps_read(2))
  have "refcnt (bufs ?s 0) = 1" by (simp add: read_miss_def)
  then show ?thesis using brelse_correct[OF r(1,2) disjI1[OF c] l] by auto
qed

text \<open>
  The body of the loops of \<open>write_log\<close> and \<open>install_trans\<close> on the real cache: read two blocks,
  copy the first over the second, write it out and release both. It succeeds, afterwards the second
  block has the contents of the first in the cache and on disk, and nothing else changes.
\<close>

theorem cached_copy_correct:
  assumes "cache_inv s" "a \<noteq> b" "cview s a = bdisk s a"
    and "cache_read me ROOTDEV a s = Ok (x, s1)" "cache_read me ROOTDEV b s1 = Ok (y, s2)"
  shows "\<exists>s3 s4 s5. cache_write me y (cache_modify y (bdata (bufs s2 x)) s2) = Ok s3
    \<and> cache_release me x s3 = Ok s4 \<and> cache_release me y s4 = Ok s5 \<and> cache_inv s5
    \<and> cview s5 = (cview s)(b := cview s a) \<and> bdisk s5 = (bdisk s)(b := cview s a)"
  using bc.copy_block[OF assms(1,4,5,2)] assms(3) by blast

theorem cached_copy_correct_witness:
  "\<exists>s1 s2 s5. cache_read 7 ROOTDEV 5 demo_cache = Ok (0, s1) \<and> cache_read 7 ROOTDEV 9 s1 = Ok (1, s2)
     \<and> cview s5 9 = cview demo_cache 5"
proof -
  let ?s = "upd_buf 0 (read_miss 7 demo_cache 5) demo_cache"
  have r: "cache_inv ?s" using cache_read_ok[OF demo_cache_inv(1) demo_read] by auto
  have l: "lru ?s (rev [0..<NBUF])" using demo_cache_inv(2) by (simp add: lru_upd keeps_read(2))
  have n: "\<nexists>c. caches ?s c 9" using demo_cache_inv(4) by (simp add: caches_upd read_miss_def)
  have "rev (rev [0..<NBUF]) = 0 # 1 # [2..<NBUF]" by (simp add: NBUF_def upt_rec)
  then have r2: "cache_read 7 ROOTDEV 9 ?s = Ok (1, upd_buf 1 (read_miss 7 ?s 9) ?s)"
    using read_miss_eq[OF r l n, of 7] demo_cache_inv(3) by (simp add: read_miss_def)
  have "cview demo_cache 5 = bdisk demo_cache 5" using cview_none[of demo_cache 5] demo_cache_inv(4) by simp
  from cached_copy_correct[OF demo_cache_inv(1) _ this demo_read r2] show ?thesis
    using demo_read r2 by (metis fun_upd_same zero_neq_numeral numeral_eq_iff num.distinct num.inject)
qed

end
