(* ===== verification/Fs.thy ===== *)
theory Fs
  imports Log Sleeplock
begin

text \<open>
  The file system, \<open>kernel/fs.c\<close>: block allocator, inodes, file contents, directories and path
  names, over the log. An in-memory inode is named by its index in \<open>itable\<close>. There is one disk,
  so device numbers are kept in the inodes but \<open>bread\<close> does not need them. \<open>itable.lock\<close> is held
  around each access to the table, so each is one step; the sleep locks of the inodes are values.
  A path is the list of the bytes before its NUL, a name the bytes of a path element, at most
  \<open>DIRSIZ\<close>. \<open>me\<close> is the calling process. Messages of \<open>printk\<close> are not part of the state.
  Block numbers computed from the superblock and bit positions are natural numbers: for a file
  system of fewer than \<open>2 ^ 31 - BPB\<close> blocks none of the C arithmetic on them wraps around.
\<close>

section \<open>Data\<close>

definition ROOTINO :: u32 where "ROOTINO = 1"
definition FSMAGIC :: u32 where "FSMAGIC = 0x10203040"
definition NDIRECT :: nat where "NDIRECT = 12"
definition NINDIRECT :: nat where "NINDIRECT = BSIZE div 4"
definition MAXFILE :: nat where "MAXFILE = NDIRECT + NINDIRECT"
definition NINODE :: nat where "NINODE = 50"
definition FS_DEV :: u32 where "FS_DEV = 1"
definition DIRSIZ :: nat where "DIRSIZ = 14"
definition T_DIR :: u16 where "T_DIR = 1"
definition T_FILE :: u16 where "T_FILE = 2"
definition T_DEVICE :: u16 where "T_DEVICE = 3"
definition IPB :: nat where "IPB = BSIZE div 64"
definition BPB :: nat where "BPB = BSIZE * 8"

record superblock =
  magic :: u32
  nblocks_total :: u32
  nblocks :: u32
  ninodes :: u32
  nlog :: u32
  logstart :: u32
  inodestart :: u32
  bmapstart :: u32

record dinode =
  dtype :: u16
  dmajor :: u16
  dminor :: u16
  dnlink :: u16
  dsize :: u32
  daddrs :: "nat \<Rightarrow> u32"

record inode =
  idev :: u32
  inum :: u32
  iref :: int
  ilk :: sleeplock
  ivalid :: bool
  icopy :: dinode

record stat =
  st_dev :: u32
  st_ino :: u32
  st_type :: u16
  st_nlink :: u16
  st_pad :: "u8 list"
  st_size :: u64

record fs_state = log_state +
  sb :: superblock
  inodes :: "nat \<Rightarrow> inode"

definition upd_inode :: "nat \<Rightarrow> (inode \<Rightarrow> inode) \<Rightarrow> 'z fs_state_scheme \<Rightarrow> 'z fs_state_scheme" where
  "upd_inode ip f s = s\<lparr>inodes := (inodes s)(ip := f (inodes s ip))\<rparr>"

definition mypid :: "nat \<Rightarrow> 'z fs_state_scheme \<Rightarrow> int" where
  "mypid me s = pid (procs s me)"

section \<open>Superblock and blocks\<close>

definition sb_of_block :: "block \<Rightarrow> superblock" where
  "sb_of_block b = \<lparr>magic = get32 b 0, nblocks_total = get32 b 4, nblocks = get32 b 8, ninodes = get32 b 12,
     nlog = get32 b 16, logstart = get32 b 20, inodestart = get32 b 24, bmapstart = get32 b 28\<rparr>"

definition readsb :: "'z fs_state_scheme \<Rightarrow> superblock" where
  "readsb s = sb_of_block (bread 1 s)"

definition BBLOCK :: "nat \<Rightarrow> 'z fs_state_scheme \<Rightarrow> nat" where
  "BBLOCK b s = b div BPB + unat (bmapstart (sb s))"

definition IBLOCK :: "u32 \<Rightarrow> 'z fs_state_scheme \<Rightarrow> nat" where
  "IBLOCK i s = unat i div IPB + unat (inodestart (sb s))"

text \<open>Change a buffer and \<open>log_write\<close> it.\<close>

definition blog :: "nat \<Rightarrow> block \<Rightarrow> 'z log_state_scheme \<Rightarrow> 'z log_state_scheme res" where
  "blog b d s = log_write b (bmodify b d s)"

definition bzero :: "nat \<Rightarrow> 'z log_state_scheme \<Rightarrow> 'z log_state_scheme res" where
  "bzero bno s = blog bno (\<lambda>i. if i < BSIZE then 0 else bread bno s i) s"

definition bit_mask :: "nat \<Rightarrow> u8" where
  "bit_mask bi = push_bit (bi mod 8) 1"

definition bit_clear :: "block \<Rightarrow> nat \<Rightarrow> bool" where
  "bit_clear d bi \<longleftrightarrow> d (bi div 8) AND bit_mask bi = 0"

text \<open>\<open>balloc\<close>: the loop over the bitmap blocks, with the bit scan of one block inside.\<close>

definition free_bit :: "nat \<Rightarrow> nat \<Rightarrow> block \<Rightarrow> nat option" where
  "free_bit b nb d = List.find (bit_clear d) [0..<min BPB (nb - b)]"

function balloc_loop :: "nat \<Rightarrow> 'z fs_state_scheme \<Rightarrow> (u32 \<times> 'z fs_state_scheme) res" where
  "balloc_loop b s =
     (if b < unat (nblocks_total (sb s))
      then let d = bread (BBLOCK b s) s
           in case free_bit b (unat (nblocks_total (sb s))) d of
                Some bi \<Rightarrow>
                  bindR (blog (BBLOCK b s) (d(bi div 8 := d (bi div 8) OR bit_mask bi)) s) (\<lambda>s1.
                  bindR (bzero (b + bi) s1) (\<lambda>s2. Ok (of_nat (b + bi), s2)))
              | None \<Rightarrow> balloc_loop (b + BPB) s
      else Ok (0, s))"
  by pat_completeness auto
termination
  by (relation "measure (\<lambda>(b, s). unat (nblocks_total (sb s)) - b)") (auto simp: BPB_def BSIZE_def)

definition balloc :: "'z fs_state_scheme \<Rightarrow> (u32 \<times> 'z fs_state_scheme) res" where
  "balloc s = balloc_loop 0 s"

definition bfree :: "u32 \<Rightarrow> 'z fs_state_scheme \<Rightarrow> 'z fs_state_scheme res" where
  "bfree b s =
     (let blk = BBLOCK (unat b) s;
          d = bread blk s;
          bi = unat b mod BPB
      in if bit_clear d bi then Panic ''freeing free block''
         else blog blk (d(bi div 8 := d (bi div 8) AND NOT (bit_mask bi))) s)"

section \<open>Inodes\<close>

text \<open>\<open>struct dinode\<close> at its place in an inode block.\<close>

definition dinode_off :: "u32 \<Rightarrow> nat" where
  "dinode_off i = 64 * (unat i mod IPB)"

definition get_dinode :: "block \<Rightarrow> nat \<Rightarrow> dinode" where
  "get_dinode b a = \<lparr>dtype = get16 b a, dmajor = get16 b (a + 2), dminor = get16 b (a + 4), dnlink = get16 b (a + 6),
     dsize = get32 b (a + 8), daddrs = (\<lambda>i. if i \<le> NDIRECT then get32 b (a + 12 + 4 * i) else 0)\<rparr>"

definition put_dinode :: "block \<Rightarrow> nat \<Rightarrow> dinode \<Rightarrow> block" where
  "put_dinode b a d =
     put32s (put32 (put16 (put16 (put16 (put16 b a (dtype d)) (a + 2) (dmajor d)) (a + 4) (dminor d)) (a + 6) (dnlink d))
       (a + 8) (dsize d)) (a + 12) (map (daddrs d) [0..<NDIRECT + 1])"

definition zero_dinode :: dinode where
  "zero_dinode = \<lparr>dtype = 0, dmajor = 0, dminor = 0, dnlink = 0, dsize = 0, daddrs = (\<lambda>_. 0)\<rparr>"

definition iinit :: "'z fs_state_scheme \<Rightarrow> 'z fs_state_scheme" where
  "iinit s = fold (\<lambda>i. upd_inode i (ilk_update (\<lambda>_. initsleeplock ''inode''))) [0..<NINODE] s"

text \<open>The scan of \<open>iget\<close>: the entry found, and the first empty one passed.\<close>

fun iget_scan :: "u32 \<Rightarrow> u32 \<Rightarrow> nat list \<Rightarrow> nat option \<Rightarrow> 'z fs_state_scheme \<Rightarrow> nat option \<times> nat option" where
  "iget_scan dev i [] slot s = (None, slot)"
| "iget_scan dev i (ip # ips) slot s =
     (if iref (inodes s ip) > 0 \<and> idev (inodes s ip) = dev \<and> inum (inodes s ip) = i then (Some ip, slot)
      else iget_scan dev i ips (if slot = None \<and> iref (inodes s ip) = 0 then Some ip else slot) s)"

definition iget :: "u32 \<Rightarrow> u32 \<Rightarrow> 'z fs_state_scheme \<Rightarrow> (nat \<times> 'z fs_state_scheme) res" where
  "iget dev i s =
     (case iget_scan dev i [0..<NINODE] None s of
        (Some ip, _) \<Rightarrow> Ok (ip, upd_inode ip (\<lambda>n. n\<lparr>iref := iref n + 1\<rparr>) s)
      | (None, None) \<Rightarrow> Panic ''iget: no inodes''
      | (None, Some ip) \<Rightarrow>
          Ok (ip, upd_inode ip (\<lambda>n. n\<lparr>idev := dev, inum := i, iref := 1, ivalid := False\<rparr>) s))"

fun ialloc_loop :: "u32 \<Rightarrow> u16 \<Rightarrow> nat list \<Rightarrow> 'z fs_state_scheme \<Rightarrow> (nat option \<times> 'z fs_state_scheme) res" where
  "ialloc_loop dev ty [] s = Ok (None, s)"
| "ialloc_loop dev ty (i # ks) s =
     (let b = IBLOCK (of_nat i) s;
          d = bread b s;
          a = dinode_off (of_nat i)
      in if dtype (get_dinode d a) = 0
         then bindR (blog b (put16 (bput_bytes d a (replicate 64 0)) a ty) s) (\<lambda>s1.
              bindR (iget dev (of_nat i) s1) (\<lambda>(ip, s2). Ok (Some ip, s2)))
         else ialloc_loop dev ty ks s)"

definition ialloc :: "u32 \<Rightarrow> u16 \<Rightarrow> 'z fs_state_scheme \<Rightarrow> (nat option \<times> 'z fs_state_scheme) res" where
  "ialloc dev ty s = ialloc_loop dev ty [1..<unat (ninodes (sb s))] s"

definition iupdate :: "nat \<Rightarrow> 'z fs_state_scheme \<Rightarrow> 'z fs_state_scheme res" where
  "iupdate ip s =
     (let n = inodes s ip;
          b = IBLOCK (inum n) s
      in blog b (put_dinode (bread b s) (dinode_off (inum n)) (icopy n)) s)"

definition idup :: "nat \<Rightarrow> 'z fs_state_scheme \<Rightarrow> 'z fs_state_scheme" where
  "idup ip s = upd_inode ip (\<lambda>n. n\<lparr>iref := iref n + 1\<rparr>) s"

definition ilock :: "nat \<Rightarrow> nat \<Rightarrow> 'z fs_state_scheme \<Rightarrow> 'z fs_state_scheme res" where
  "ilock me ip s =
     (if iref (inodes s ip) < 1 then Panic ''ilock''
      else bindR (acquiresleep (mypid me s) (ilk (inodes s ip))) (\<lambda>l.
        let s1 = upd_inode ip (ilk_update (\<lambda>_. l)) s
        in if ivalid (inodes s1 ip) then Ok s1
           else let i = inum (inodes s1 ip);
                    d = get_dinode (bread (IBLOCK i s1) s1) (dinode_off i);
                    s2 = upd_inode ip (\<lambda>n. n\<lparr>icopy := d, ivalid := True\<rparr>) s1
                in if dtype d = 0 then Panic ''ilock: no type'' else Ok s2))"

text \<open>\<open>releasesleep\<close> of an inode lock.\<close>

definition irelease :: "nat \<Rightarrow> nat \<Rightarrow> 'z fs_state_scheme \<Rightarrow> 'z fs_state_scheme" where
  "irelease me ip s =
     (let (l, ps) = releasesleep (ChanInode ip) (Some me) (ilk (inodes s ip)) (procs s)
      in upd_inode ip (ilk_update (\<lambda>_. l)) (s\<lparr>procs := ps\<rparr>))"

definition iunlock :: "nat \<Rightarrow> nat \<Rightarrow> 'z fs_state_scheme \<Rightarrow> 'z fs_state_scheme res" where
  "iunlock me ip s =
     (if \<not> holdingsleep (mypid me s) (ilk (inodes s ip)) \<or> iref (inodes s ip) < 1 then Panic ''iunlock''
      else Ok (irelease me ip s))"

definition set_addr :: "nat \<Rightarrow> nat \<Rightarrow> u32 \<Rightarrow> 'z fs_state_scheme \<Rightarrow> 'z fs_state_scheme" where
  "set_addr ip k a = upd_inode ip (icopy_update (\<lambda>d. d\<lparr>daddrs := (daddrs d)(k := a)\<rparr>))"

abbreviation iaddr :: "nat \<Rightarrow> nat \<Rightarrow> 'z fs_state_scheme \<Rightarrow> u32" where
  "iaddr ip k s \<equiv> daddrs (icopy (inodes s ip)) k"

definition trunc_direct :: "nat \<Rightarrow> nat \<Rightarrow> 'z fs_state_scheme \<Rightarrow> 'z fs_state_scheme res" where
  "trunc_direct ip k s =
     (if iaddr ip k s \<noteq> 0 then bindR (bfree (iaddr ip k s) s) (\<lambda>s1. Ok (set_addr ip k 0 s1)) else Ok s)"

definition trunc_entry :: "nat \<Rightarrow> nat \<Rightarrow> 'z fs_state_scheme \<Rightarrow> 'z fs_state_scheme res" where
  "trunc_entry ind j s =
     (let a = get32 (bread ind s) (4 * j) in if a \<noteq> 0 then bfree a s else Ok s)"

definition trunc_indirect :: "nat \<Rightarrow> 'z fs_state_scheme \<Rightarrow> 'z fs_state_scheme res" where
  "trunc_indirect ip s =
     (let ind = iaddr ip NDIRECT s
      in if ind \<noteq> 0
         then bindR (iterR (trunc_entry (unat ind)) [0..<NINDIRECT] s) (\<lambda>s1.
              bindR (bfree (iaddr ip NDIRECT s1) s1) (\<lambda>s2. Ok (set_addr ip NDIRECT 0 s2)))
         else Ok s)"

definition itrunc :: "nat \<Rightarrow> 'z fs_state_scheme \<Rightarrow> 'z fs_state_scheme res" where
  "itrunc ip s =
     bindR (iterR (trunc_direct ip) [0..<NDIRECT] s) (\<lambda>s1.
     bindR (trunc_indirect ip s1) (\<lambda>s2.
       iupdate ip (upd_inode ip (icopy_update (dsize_update (\<lambda>_. 0))) s2)))"

definition iput :: "nat \<Rightarrow> nat \<Rightarrow> 'z fs_state_scheme \<Rightarrow> 'z fs_state_scheme res" where
  "iput me ip s =
     (let n = inodes s ip
      in bindR (if iref n = 1 \<and> ivalid n \<and> dnlink (icopy n) = 0
                then bindR (acquiresleep (mypid me s) (ilk n)) (\<lambda>l.
                     bindR (itrunc ip (upd_inode ip (ilk_update (\<lambda>_. l)) s)) (\<lambda>s1.
                     bindR (iupdate ip (upd_inode ip (icopy_update (dtype_update (\<lambda>_. 0))) s1)) (\<lambda>s2.
                       Ok (irelease me ip (upd_inode ip (ivalid_update (\<lambda>_. False)) s2)))))
                else Ok s) (\<lambda>s3.
           Ok (upd_inode ip (\<lambda>n. n\<lparr>iref := iref n - 1\<rparr>) s3)))"

definition iunlockput :: "nat \<Rightarrow> nat \<Rightarrow> 'z fs_state_scheme \<Rightarrow> 'z fs_state_scheme res" where
  "iunlockput me ip s = bindR (iunlock me ip s) (iput me ip)"

definition ireclaim_one :: "nat \<Rightarrow> u32 \<Rightarrow> nat \<Rightarrow> 'z fs_state_scheme \<Rightarrow> 'z fs_state_scheme res" where
  "ireclaim_one me dev i s =
     (let d = get_dinode (bread (IBLOCK (of_nat i) s) s) (dinode_off (of_nat i))
      in if dtype d \<noteq> 0 \<and> dnlink d = 0
         then bindR (iget dev (of_nat i) s) (\<lambda>(ip, s1).
              bindR (begin_op s1) (\<lambda>s2.
              bindR (ilock me ip s2) (\<lambda>s3.
              bindR (iunlock me ip s3) (\<lambda>s4.
              bindR (iput me ip s4) (end_op me)))))
         else Ok s)"

definition ireclaim :: "nat \<Rightarrow> u32 \<Rightarrow> 'z fs_state_scheme \<Rightarrow> 'z fs_state_scheme res" where
  "ireclaim me dev s = iterR (ireclaim_one me dev) [1..<unat (ninodes (sb s))] s"

definition fsinit :: "nat \<Rightarrow> u32 \<Rightarrow> 'z fs_state_scheme \<Rightarrow> 'z fs_state_scheme res" where
  "fsinit me dev s =
     (let s1 = s\<lparr>sb := readsb s\<rparr>
      in if magic (sb s1) \<noteq> FSMAGIC then Panic ''invalid file system''
         else bindR (initlog (unat (logstart (sb s1))) s1) (ireclaim me dev))"

section \<open>File contents\<close>

definition bmap :: "nat \<Rightarrow> nat \<Rightarrow> 'z fs_state_scheme \<Rightarrow> (u32 \<times> 'z fs_state_scheme) res" where
  "bmap ip bn s =
     (if bn < NDIRECT
      then if iaddr ip bn s = 0
           then bindR (balloc s) (\<lambda>(a, s1). if a = 0 then Ok (0, s1) else Ok (a, set_addr ip bn a s1))
           else Ok (iaddr ip bn s, s)
      else let k = bn - NDIRECT
           in if k < NINDIRECT
              then bindR (if iaddr ip NDIRECT s = 0
                          then bindR (balloc s) (\<lambda>(a, s1). Ok (a, if a = 0 then s1 else set_addr ip NDIRECT a s1))
                          else Ok (iaddr ip NDIRECT s, s)) (\<lambda>(ind, s1).
                   if ind = 0 then Ok (0, s1)
                   else let a = get32 (bread (unat ind) s1) (4 * k)
                        in if a = 0
                           then bindR (balloc s1) (\<lambda>(a', s2).
                                  if a' \<noteq> 0
                                  then bindR (blog (unat ind) (put32 (bread (unat ind) s2) (4 * k) a') s2) (\<lambda>s3. Ok (a', s3))
                                  else Ok (a', s2))
                           else Ok (a, s1))
              else Panic ''bmap: out of range'')"

definition stati :: "nat \<Rightarrow> stat \<Rightarrow> 'z fs_state_scheme \<Rightarrow> stat" where
  "stati ip st s =
     (let n = inodes s ip
      in st\<lparr>st_dev := idev n, st_ino := inum n, st_type := dtype (icopy n), st_nlink := dnlink (icopy n),
            st_size := ucast (dsize (icopy n))\<rparr>)"

text \<open>
  The loop of \<open>readi\<close>. The guards of \<open>readi\<close> leave \<open>off + n\<close> below \<open>2 ^ 32\<close>, so offsets are
  natural numbers here. \<open>put t bs\<close> stores the bytes \<open>bs\<close> at distance \<open>t\<close> from the
  destination; the bytes handed to it are collected as well, which is what a caller sees whose
  destination is a local variable of the kernel. \<open>None\<close> stands for \<open>tot = -1\<close>.
\<close>

definition readi_size :: "nat \<Rightarrow> nat \<Rightarrow> nat \<Rightarrow> nat" where
  "readi_size off tot n = min (n - tot) (BSIZE - off mod BSIZE)"

function readi_loop :: "(nat \<Rightarrow> u8 list \<Rightarrow> 'z fs_state_scheme \<Rightarrow> (int \<times> 'z fs_state_scheme) res) \<Rightarrow> nat \<Rightarrow> nat \<Rightarrow> nat \<Rightarrow> nat \<Rightarrow>
    'z fs_state_scheme \<Rightarrow> (nat option \<times> u8 list \<times> 'z fs_state_scheme) res" where
  "readi_loop put ip off tot n s =
     (if tot < n
      then bindR (bmap ip (off div BSIZE) s) (\<lambda>(a, s1).
             if a = 0 then Ok (Some tot, [], s1)
             else let m = readi_size off tot n;
                      bs = bget_bytes (bread (unat a) s1) (off mod BSIZE) m
                  in bindR (put tot bs s1) (\<lambda>(r, s2).
                       if r = -1 then Ok (None, bs, s2)
                       else bindR (readi_loop put ip (off + m) (tot + m) n s2) (\<lambda>(t, cs, s3).
                              Ok (t, bs @ cs, s3))))
      else Ok (Some tot, [], s))"
  by pat_completeness auto
termination
  by (relation "measure (\<lambda>(put, ip, off, tot, n, s). n - tot)") (auto simp: readi_size_def BSIZE_def)

definition readi_with :: "(nat \<Rightarrow> u8 list \<Rightarrow> 'z fs_state_scheme \<Rightarrow> (int \<times> 'z fs_state_scheme) res) \<Rightarrow> nat \<Rightarrow> u32 \<Rightarrow> u32 \<Rightarrow>
    'z fs_state_scheme \<Rightarrow> (int \<times> u8 list \<times> 'z fs_state_scheme) res" where
  "readi_with put ip off n s =
     (let len = dsize (icopy (inodes s ip))
      in if off > len \<or> off + n < off then Ok (0, [], s)
         else let n' = if off + n > len then len - off else n
              in bindR (readi_loop put ip (unat off) 0 (unat n') s) (\<lambda>(t, bs, s1).
                   Ok (case t of None \<Rightarrow> -1 | Some k \<Rightarrow> sint (of_nat k :: u32), bs, s1)))"

text \<open>\<open>readi\<close> to an address, and to a local variable of the caller.\<close>

definition readi :: "nat \<Rightarrow> nat \<Rightarrow> bool \<Rightarrow> u64 \<Rightarrow> u32 \<Rightarrow> u32 \<Rightarrow> 'z fs_state_scheme \<Rightarrow> (int \<times> 'z fs_state_scheme) res" where
  "readi me ip user_dst dst off n s =
     bindR (readi_with (\<lambda>t bs. either_copyout me user_dst (dst + of_nat t) bs) ip off n s) (\<lambda>(r, bs, s1). Ok (r, s1))"

definition readi_local :: "nat \<Rightarrow> u32 \<Rightarrow> u32 \<Rightarrow> 'z fs_state_scheme \<Rightarrow> (int \<times> u8 list \<times> 'z fs_state_scheme) res" where
  "readi_local ip off n s = readi_with (\<lambda>t bs s. Ok (0, s)) ip off n s"

text \<open>The loop of \<open>writei\<close>; \<open>get t m\<close> fetches \<open>m\<close> bytes at distance \<open>t\<close> from the source. A failing
  copy leaves the bytes it has copied in the buffer, which is not logged.\<close>

function writei_loop :: "(nat \<Rightarrow> nat \<Rightarrow> 'z fs_state_scheme \<Rightarrow> (int \<times> u8 list \<times> 'z fs_state_scheme) res) \<Rightarrow> nat \<Rightarrow> nat \<Rightarrow> nat \<Rightarrow> nat \<Rightarrow>
    'z fs_state_scheme \<Rightarrow> (nat \<times> 'z fs_state_scheme) res" where
  "writei_loop get ip off tot n s =
     (if tot < n
      then bindR (bmap ip (off div BSIZE) s) (\<lambda>(a, s1).
             if a = 0 then Ok (tot, s1)
             else let m = readi_size off tot n
                  in bindR (get tot m s1) (\<lambda>(r, bs, s2).
                       let d = bput_bytes (bread (unat a) s2) (off mod BSIZE) bs
                       in if r = -1 then Ok (tot, bmodify (unat a) d s2)
                          else bindR (blog (unat a) d s2) (writei_loop get ip (off + m) (tot + m) n)))
      else Ok (tot, s))"
  by pat_completeness auto
termination
  by (relation "measure (\<lambda>(get, ip, off, tot, n, s). n - tot)") (auto simp: readi_size_def BSIZE_def)

definition writei_with :: "(nat \<Rightarrow> nat \<Rightarrow> 'z fs_state_scheme \<Rightarrow> (int \<times> u8 list \<times> 'z fs_state_scheme) res) \<Rightarrow> nat \<Rightarrow> u32 \<Rightarrow> u32 \<Rightarrow>
    'z fs_state_scheme \<Rightarrow> (int \<times> 'z fs_state_scheme) res" where
  "writei_with get ip off n s =
     (if off > dsize (icopy (inodes s ip)) \<or> off + n < off then Ok (-1, s)
      else if unat (off + n) > MAXFILE * BSIZE then Ok (-1, s)
      else bindR (writei_loop get ip (unat off) 0 (unat n) s) (\<lambda>(tot, s1).
             let off' = off + of_nat tot;
                 s2 = (if off' > dsize (icopy (inodes s1 ip))
                       then upd_inode ip (icopy_update (dsize_update (\<lambda>_. off'))) s1 else s1)
             in bindR (iupdate ip s2) (\<lambda>s3. Ok (sint (of_nat tot :: u32), s3))))"

definition writei :: "nat \<Rightarrow> nat \<Rightarrow> bool \<Rightarrow> u64 \<Rightarrow> u32 \<Rightarrow> u32 \<Rightarrow> 'z fs_state_scheme \<Rightarrow> (int \<times> 'z fs_state_scheme) res" where
  "writei me ip user_src src off n s =
     writei_with (\<lambda>t m. either_copyin me user_src (src + of_nat t) m) ip off n s"

definition writei_local :: "nat \<Rightarrow> u8 list \<Rightarrow> u32 \<Rightarrow> 'z fs_state_scheme \<Rightarrow> (int \<times> 'z fs_state_scheme) res" where
  "writei_local ip bs off s =
     writei_with (\<lambda>t m s. Ok (0, take m (drop t bs), s)) ip off (of_nat (length bs)) s"

section \<open>Directories\<close>

definition de_inum :: "u8 list \<Rightarrow> u16" where "de_inum de = ucast (le_word (take 2 de))"
definition de_name :: "u8 list \<Rightarrow> u8 list" where "de_name de = drop 2 de"

definition namecmp :: "cstr \<Rightarrow> cstr \<Rightarrow> int" where
  "namecmp a b = strncmp a b DIRSIZ"

text \<open>The offsets of the entries of a directory.\<close>

definition dir_offsets :: "u32 \<Rightarrow> nat list" where
  "dir_offsets len = map (\<lambda>k. 16 * k) [0..<(unat len + 15) div 16]"

fun dirlookup_loop :: "nat \<Rightarrow> u8 list \<Rightarrow> nat list \<Rightarrow> 'z fs_state_scheme \<Rightarrow> ((nat \<times> u32) option \<times> 'z fs_state_scheme) res" where
  "dirlookup_loop dp name [] s = Ok (None, s)"
| "dirlookup_loop dp name (off # offs) s =
     bindR (readi_local dp (of_nat off) 16 s) (\<lambda>(r, de, s1).
       if r \<noteq> 16 then Panic ''dirlookup read''
       else if de_inum de = 0 then dirlookup_loop dp name offs s1
       else if namecmp (cbytes name) (cbytes (de_name de)) = 0
       then bindR (iget (idev (inodes s1 dp)) (ucast (de_inum de)) s1) (\<lambda>(ip, s2). Ok (Some (ip, of_nat off), s2))
       else dirlookup_loop dp name offs s1)"

definition dirlookup :: "nat \<Rightarrow> u8 list \<Rightarrow> 'z fs_state_scheme \<Rightarrow> ((nat \<times> u32) option \<times> 'z fs_state_scheme) res" where
  "dirlookup dp name s =
     (if dtype (icopy (inodes s dp)) \<noteq> T_DIR then Panic ''dirlookup not DIR''
      else dirlookup_loop dp name (dir_offsets (dsize (icopy (inodes s dp)))) s)"

text \<open>The scan of \<open>dirlink\<close> for an empty entry: its offset, or the end of the directory, and the
  contents of the local variable \<open>de\<close>.\<close>

fun free_dirent :: "nat \<Rightarrow> nat list \<Rightarrow> nat \<Rightarrow> u8 list \<Rightarrow> 'z fs_state_scheme \<Rightarrow> (nat \<times> u8 list \<times> 'z fs_state_scheme) res" where
  "free_dirent dp [] off de s = Ok (off, de, s)"
| "free_dirent dp (off # offs) _ de s =
     bindR (readi_local dp (of_nat off) 16 s) (\<lambda>(r, de', s1).
       if r \<noteq> 16 then Panic ''dirlink read''
       else if de_inum de' = 0 then Ok (off, de', s1)
       else free_dirent dp offs (off + 16) de' s1)"

text \<open>The bytes of the entry written: \<open>strncpy\<close> pads the name with zeros.\<close>

definition dirent_bytes :: "u8 list \<Rightarrow> u8 list \<Rightarrow> u32 \<Rightarrow> u8 list" where
  "dirent_bytes de name i =
     (let nm = strncpy (cbytes (de_name de)) (cbytes name) DIRSIZ
      in le_bytes 2 (ucast i) @ map nm [0..<DIRSIZ])"

definition dirlink :: "nat \<Rightarrow> nat \<Rightarrow> u8 list \<Rightarrow> u32 \<Rightarrow> 'z fs_state_scheme \<Rightarrow> (int \<times> 'z fs_state_scheme) res" where
  "dirlink me dp name i s =
     bindR (dirlookup dp name s) (\<lambda>(found, s1).
       case found of
         Some (ip, _) \<Rightarrow> bindR (iput me ip s1) (\<lambda>s2. Ok (-1, s2))
       | None \<Rightarrow>
           bindR (free_dirent dp (dir_offsets (dsize (icopy (inodes s1 dp)))) 0 (replicate 16 0) s1) (\<lambda>(off, de, s2).
           bindR (writei_local dp (dirent_bytes de name i) (of_nat off) s2) (\<lambda>(r, s3).
             Ok (if r \<noteq> 16 then -1 else 0, s3))))"

section \<open>Paths\<close>

abbreviation slash :: u8 where "slash \<equiv> 47"

text \<open>The next element and the rest of the path.\<close>

definition skipelem :: "u8 list \<Rightarrow> (u8 list \<times> u8 list) option" where
  "skipelem path =
     (let p = dropWhile (\<lambda>c. c = slash) path
      in if p = [] then None
         else Some (take DIRSIZ (takeWhile (\<lambda>c. c \<noteq> slash) p),
                    dropWhile (\<lambda>c. c = slash) (dropWhile (\<lambda>c. c \<noteq> slash) p)))"

lemma skipelem_shorter: "skipelem path = Some (name, rest) \<Longrightarrow> length rest < length path"
proof -
  assume a: "skipelem path = Some (name, rest)"
  define p where "p = dropWhile (\<lambda>c. c = slash) path"
  have p: "p \<noteq> []" "hd p \<noteq> slash" "length p \<le> length path"
    using a hd_dropWhile[of "\<lambda>c. c = slash" path] length_dropWhile_le[of "\<lambda>c. c = slash" path]
    by (auto simp: skipelem_def p_def Let_def split: if_splits)
  obtain x xs where x: "p = x # xs" using p(1) by (cases p) auto
  have "rest = dropWhile (\<lambda>c. c = slash) (dropWhile (\<lambda>c. c \<noteq> slash) p)"
    using a by (auto simp: skipelem_def p_def Let_def split: if_splits)
  then have "length rest \<le> length xs"
    using x p(2) length_dropWhile_le[of "\<lambda>c. c = slash" "dropWhile (\<lambda>c. c \<noteq> slash) xs"]
      length_dropWhile_le[of "\<lambda>c. c \<noteq> slash" xs] by (simp add: order_trans)
  then show ?thesis using p(3) x by simp
qed

function namex_loop :: "nat \<Rightarrow> bool \<Rightarrow> u8 list \<Rightarrow> nat \<Rightarrow> u8 list \<Rightarrow> 'z fs_state_scheme \<Rightarrow>
    ((nat \<times> u8 list) option \<times> 'z fs_state_scheme) res" where
  "namex_loop me want_parent path ip name s =
     (case skipelem path of
        None \<Rightarrow> if want_parent then bindR (iput me ip s) (\<lambda>s1. Ok (None, s1)) else Ok (Some (ip, name), s)
      | Some (elem, rest) \<Rightarrow>
          bindR (ilock me ip s) (\<lambda>s1.
            if dtype (icopy (inodes s1 ip)) \<noteq> T_DIR
            then bindR (iunlockput me ip s1) (\<lambda>s2. Ok (None, s2))
            else if want_parent \<and> rest = []
            then bindR (iunlock me ip s1) (\<lambda>s2. Ok (Some (ip, elem), s2))
            else bindR (dirlookup ip elem s1) (\<lambda>(found, s2).
              case found of
                None \<Rightarrow> bindR (iunlockput me ip s2) (\<lambda>s3. Ok (None, s3))
              | Some (next, _) \<Rightarrow> bindR (iunlockput me ip s2) (namex_loop me want_parent rest next elem))))"
  by pat_completeness auto
termination
  by (relation "measure (\<lambda>(me, w, path, ip, name, s). length path)") (auto dest: skipelem_shorter)

definition namex :: "nat \<Rightarrow> u8 list \<Rightarrow> bool \<Rightarrow> 'z fs_state_scheme \<Rightarrow> ((nat \<times> u8 list) option \<times> 'z fs_state_scheme) res" where
  "namex me path want_parent s =
     (if path \<noteq> [] \<and> hd path = slash
      then bindR (iget FS_DEV ROOTINO s) (\<lambda>(ip, s1). namex_loop me want_parent path ip [] s1)
      else case cwd (procs s me) of
             None \<Rightarrow> Panic ''kerneltrap''
           | Some ip \<Rightarrow> namex_loop me want_parent path ip [] (idup ip s))"

definition namei :: "nat \<Rightarrow> u8 list \<Rightarrow> 'z fs_state_scheme \<Rightarrow> (nat option \<times> 'z fs_state_scheme) res" where
  "namei me path s = bindR (namex me path False s) (\<lambda>(r, s1). Ok (map_option fst r, s1))"

definition nameiparent :: "nat \<Rightarrow> u8 list \<Rightarrow> 'z fs_state_scheme \<Rightarrow> ((nat \<times> u8 list) option \<times> 'z fs_state_scheme) res" where
  "nameiparent me path s = namex me path True s"

declare balloc_loop.simps [simp del] readi_loop.simps [simp del] writei_loop.simps [simp del] namex_loop.simps [simp del]

end
