(* ===== verification/Printk.thy ===== *)
theory Printk
  imports CString
begin

text \<open>
  Number formatting and the format interpreter of \<open>kernel/printk.c\<close>, as functions to the bytes they
  send. \<open>va_arg\<close> takes the next argument: \<open>Num\<close> is a 64-bit slot, \<open>Str\<close> a pointer to a string,
  \<open>Str None\<close> the null pointer. Reading an argument of the other kind or past the last one is
  undefined in C; the result is then \<open>None\<close>.
\<close>

definition BACKSPACE :: u32 where "BACKSPACE = 0x100"

text \<open>The bytes \<open>consputc\<close> sends.\<close>

definition consputc_bytes :: "u32 \<Rightarrow> u8 list" where
  "consputc_bytes c = (if c = BACKSPACE then [8, 32, 8] else [ucast c])"

text \<open>The table \<open>digits\<close>: 0 to 9, a to f.\<close>

definition digit :: "nat \<Rightarrow> u8" where
  "digit d = (if d < 10 then of_nat (48 + d) else of_nat (87 + d))"

text \<open>The \<open>do ... while\<close> loop of \<open>printint\<close>: the buffer from index 0. The base is 10 or 16.\<close>

function digit_loop :: "nat \<Rightarrow> nat \<Rightarrow> u8 list" where
  "digit_loop base x =
     digit (x mod base) # (if base < 2 \<or> x div base = 0 then [] else digit_loop base (x div base))"
  by pat_completeness auto
termination
  by (relation "measure snd") (auto intro!: div_less_dividend gr0I)

declare digit_loop.simps [simp del]

definition printint_buf :: "u64 \<Rightarrow> nat \<Rightarrow> bool \<Rightarrow> u8 list" where
  "printint_buf xx base sign =
     (let neg = sign \<and> sint xx < 0;
          x = (if neg then - xx else xx)
      in digit_loop base (unat x) @ (if neg then [45] else []))"

text \<open>The buffer is sent backwards.\<close>

definition printint :: "u64 \<Rightarrow> nat \<Rightarrow> bool \<Rightarrow> u8 list" where
  "printint xx base sign = rev (printint_buf xx base sign)"

fun printptr_loop :: "u64 \<Rightarrow> nat \<Rightarrow> u8 list" where
  "printptr_loop x 0 = []"
| "printptr_loop x (Suc k) = digit (unat (drop_bit 60 x)) # printptr_loop (push_bit 4 x) k"

definition printptr :: "u64 \<Rightarrow> u8 list" where
  "printptr x = [48, 120] @ printptr_loop x 16"

datatype karg = Num u64 | Str "u8 list option"

text \<open>\<open>va_arg\<close> of an \<open>int\<close>, an \<open>uint32\<close> and an \<open>uint64\<close>.\<close>

definition int_arg :: "u64 \<Rightarrow> u64" where "int_arg w = scast (ucast w :: u32)"
definition uint_arg :: "u64 \<Rightarrow> u64" where "uint_arg w = ucast (ucast w :: u32)"

fun take_num :: "(u64 \<Rightarrow> u8 list) \<Rightarrow> karg list \<Rightarrow> (u8 list \<times> karg list) option" where
  "take_num f (Num w # as) = Some (f w, as)"
| "take_num f as = None"

fun take_str :: "karg list \<Rightarrow> (u8 list \<times> karg list) option" where
  "take_str (Str p # as) = Some (case p of None \<Rightarrow> [40, 110, 117, 108, 108, 41] | Some cs \<Rightarrow> cs, as)"
| "take_str as = None"

text \<open>
  A conversion: \<open>c0 c1 c2\<close> are the characters after \<open>%\<close>, zero past the end. The result is the
  output, the arguments left and the number of characters after \<open>c0\<close> that are consumed;
  \<open>c0 = 0\<close> ends the loop and is dealt with in \<open>format_loop\<close>.
\<close>

definition conversion :: "u8 \<Rightarrow> u8 \<Rightarrow> u8 \<Rightarrow> karg list \<Rightarrow> (u8 list \<times> karg list \<times> nat) option" where
  "conversion c0 c1 c2 as =
     (let num = (\<lambda>f k. map_option (\<lambda>(out, as'). (out, as', k)) (take_num f as))
      in if c0 = 100 then num (\<lambda>w. printint (int_arg w) 10 True) 0
         else if c0 = 108 \<and> c1 = 100 then num (\<lambda>w. printint w 10 True) 1
         else if c0 = 108 \<and> c1 = 108 \<and> c2 = 100 then num (\<lambda>w. printint w 10 True) 2
         else if c0 = 117 then num (\<lambda>w. printint (uint_arg w) 10 False) 0
         else if c0 = 108 \<and> c1 = 117 then num (\<lambda>w. printint w 10 False) 1
         else if c0 = 108 \<and> c1 = 108 \<and> c2 = 117 then num (\<lambda>w. printint w 10 False) 2
         else if c0 = 120 then num (\<lambda>w. printint (uint_arg w) 16 False) 0
         else if c0 = 108 \<and> c1 = 120 then num (\<lambda>w. printint w 16 False) 1
         else if c0 = 108 \<and> c1 = 108 \<and> c2 = 120 then num (\<lambda>w. printint w 16 False) 2
         else if c0 = 112 then num printptr 0
         else if c0 = 99 then num (\<lambda>w. consputc_bytes (ucast w)) 0
         else if c0 = 115 then map_option (\<lambda>(out, as'). (out, as', 0)) (take_str as)
         else if c0 = 37 then Some ([37], as, 0)
         else Some ([37, c0], as, 0))"

text \<open>\<open>fmt\<close> is the format without its NUL.\<close>

definition at_or_0 :: "u8 list \<Rightarrow> nat \<Rightarrow> u8" where
  "at_or_0 cs i = (if i < length cs then cs ! i else 0)"

function format_loop :: "u8 list \<Rightarrow> karg list \<Rightarrow> u8 list option" where
  "format_loop [] as = Some []"
| "format_loop (cx # cs) as =
     (if cx \<noteq> 37 then map_option (\<lambda>out. cx # out) (format_loop cs as)
      else case cs of
             [] \<Rightarrow> Some []
           | c0 # rest \<Rightarrow>
               (case conversion c0 (at_or_0 rest 0) (if at_or_0 rest 0 = 0 then 0 else at_or_0 rest 1) as of
                  None \<Rightarrow> None
                | Some (out, as', k) \<Rightarrow> map_option (\<lambda>more. out @ more) (format_loop (drop k rest) as')))"
  by pat_completeness auto
termination
  by (relation "measure (\<lambda>(cs, as). length cs)") auto

definition printk_bytes :: "u8 list \<Rightarrow> karg list \<Rightarrow> u8 list option" where
  "printk_bytes fmt as = format_loop fmt as"

end
