(* ===== verification/Ring.thy ===== *)
theory Ring
  imports Prelude
begin

text \<open>
  Ring buffers with free-running unsigned counters, as the pipe and the console use them: the read
  and write counters are unsigned words and wrap around, an index is a counter modulo the buffer size, and
  the number of stored items is the difference of the counters. \<open>ring n buf r w\<close> is the stored
  sequence, oldest first. The size must divide the number of
  values of a counter.
\<close>

definition ring :: "nat \<Rightarrow> (nat \<Rightarrow> 'a) \<Rightarrow> 'w::len word \<Rightarrow> 'w word \<Rightarrow> 'a list" where
  "ring n buf r w = map (\<lambda>i. buf (unat (r + of_nat i) mod n)) [0..<unat (w - r)]"

definition ring_size :: "'w::len itself \<Rightarrow> nat \<Rightarrow> bool" where
  "ring_size ty n \<longleftrightarrow> 0 < n \<and> n < 2 ^ LENGTH('w) \<and> n dvd 2 ^ LENGTH('w)"

lemma length_ring [simp]: "length (ring n buf r w) = unat (w - r)"
  by (simp add: ring_def)

lemma ring_empty: "ring n buf r w = [] \<longleftrightarrow> r = w"
proof -
  have "ring n buf r w = [] \<longleftrightarrow> unat (w - r) = 0" by (metis length_0_conv length_ring)
  also have "\<dots> \<longleftrightarrow> w - r = 0" by (rule unat_eq_0)
  finally show ?thesis by auto
qed

lemma unat_pred: "x \<noteq> 0 \<Longrightarrow> unat (x :: 'w::len word) = Suc (unat (x - 1))"
  using unat_minus_one[of x] unat_gt_0[of x] by simp

text \<open>Counters at distance less than \<open>n\<close> use different slots.\<close>

lemma ring_mod:
  assumes "ring_size TYPE('w::len) n"
  shows "unat (a + of_nat i :: 'w::len word) mod n = (unat a + i) mod n"
proof -
  have d: "n dvd 2 ^ LENGTH('w)" using assms by (simp add: ring_size_def)
  have "unat (a + of_nat i :: 'w::len word) = (unat a + i) mod 2 ^ LENGTH('w)"
    by (simp add: unat_word_ariths unat_of_nat mod_simps)
  then show ?thesis using d by (simp add: mod_mod_cancel)
qed

lemma ring_slots:
  assumes "ring_size TYPE('w::len) n" "i < j" "j < i + n"
  shows "unat (a + of_nat i :: 'w::len word) mod n \<noteq> unat (a + of_nat j :: 'w::len word) mod n"
proof
  assume "unat (a + of_nat i :: 'w::len word) mod n = unat (a + of_nat j :: 'w::len word) mod n"
  then have "(unat a + j) mod n = (unat a + i) mod n" using ring_mod[OF assms(1)] by simp
  then have "n dvd (unat a + j) - (unat a + i)" by (rule mod_eq_dvd_iff_nat[THEN iffD1, rotated]) (use assms in simp)
  then have "n dvd j - i" by simp
  then show False using assms by (auto dest: dvd_imp_le)
qed

lemma ring_conv:
  fixes r :: "'w::len word"
  shows "ring_size TYPE('w) n \<Longrightarrow> ring n buf r w = map (\<lambda>i. buf ((unat r + i) mod n)) [0..<unat (w - r)]"
  by (simp add: ring_def ring_mod)

lemma ring_push:
  fixes r :: "'w::len word"
  assumes "ring_size TYPE('w) n" "unat (w - r) < n"
  shows "ring n (buf(unat w mod n := x)) r (w + 1) = ring n buf r w @ [x]"
proof -
  let ?k = "unat (w - r)"
  have lt: "?k + 1 < 2 ^ LENGTH('w)" using assms by (auto simp: ring_size_def)
  have "w + 1 - r = (w - r) + 1" by simp
  then have len: "unat (w + 1 - r) = Suc ?k"
    using lt by (simp only: unat_word_ariths) simp
  have w: "unat w mod n = (unat r + ?k) mod n"
  proof -
    have "w = r + of_nat ?k" by simp
    then show ?thesis using ring_mod[OF assms(1), of r ?k] by metis
  qed
  have "(unat r + i) mod n \<noteq> (unat r + ?k) mod n" if "i < ?k" for i
    using ring_slots[OF assms(1) that, of r] assms(2) unfolding ring_mod[OF assms(1)] by simp
  then have "map (\<lambda>i. (buf((unat r + ?k) mod n := x)) ((unat r + i) mod n)) [0..<?k]
    = map (\<lambda>i. buf ((unat r + i) mod n)) [0..<?k]" by simp
  then show ?thesis by (simp add: ring_conv[OF assms(1)] len w)
qed

lemma ring_pop:
  fixes r :: "'w::len word"
  assumes "ring_size TYPE('w) n" "r \<noteq> w"
  shows "ring n buf r w = buf (unat r mod n) # ring n buf (r + 1) w"
proof -
  have ne: "w - r \<noteq> 0" using assms(2) by simp
  then have k: "unat (w - r) = Suc (unat (w - (r + 1)))"
  proof -
    have "w - (r + 1) = (w - r) - 1" by simp
    then show ?thesis using unat_pred[OF ne] by metis
  qed
  have "(unat (r + 1) + i) mod n = (unat r + Suc i) mod n" for i
    using ring_mod[OF assms(1), of "r + 1" i] ring_mod[OF assms(1), of r "Suc i"] by (simp add: add.assoc)
  then show ?thesis
    unfolding ring_conv[OF assms(1)] k by (simp add: upt_conv_Cons map_Suc_upt[symmetric] del: upt_Suc)
qed

text \<open>Taking the newest item back.\<close>

lemma ring_unpush:
  fixes r :: "'w::len word"
  assumes "ring_size TYPE('w) n" "r \<noteq> w"
  shows "ring n buf r w = ring n buf r (w - 1) @ [buf (unat (w - 1) mod n)]"
proof -
  have ne: "w - r \<noteq> 0" using assms(2) by simp
  then have k: "unat (w - r) = Suc (unat (w - 1 - r))"
  proof -
    have "w - 1 - r = (w - r) - 1" by simp
    then show ?thesis using unat_pred[OF ne] by metis
  qed
  have "w - 1 = r + of_nat (unat (w - 1 - r))" by simp
  then have "unat (w - 1) mod n = (unat r + unat (w - 1 - r)) mod n"
    using ring_mod[OF assms(1), of r "unat (w - 1 - r)"] by metis
  then show ?thesis by (simp add: ring_conv[OF assms(1)] k)
qed

text \<open>Splitting at a counter in between.\<close>

lemma ring_split:
  fixes r :: "'w::len word"
  assumes "ring_size TYPE('w) n" "unat (m - r) + unat (w - m) < 2 ^ LENGTH('w)"
  shows "ring n buf r w = ring n buf r m @ ring n buf m w"
proof -
  have s: "unat (w - r) = unat (m - r) + unat (w - m)"
  proof -
    have "w - r = (m - r) + (w - m)" by simp
    then show ?thesis using assms(2) unat_word_ariths(1)[of "m - r" "w - m"] by simp
  qed
  have "m = r + of_nat (unat (m - r))" by simp
  have m: "(unat m + i) mod n = (unat r + (unat (m - r) + i)) mod n" for i
  proof -
    have "m + of_nat i = r + of_nat (unat (m - r) + i)" by simp
    then show ?thesis using ring_mod[OF assms(1), of m i] ring_mod[OF assms(1), of r "unat (m - r) + i"] by simp
  qed
  have "[0..<a + b] = [0..<a] @ map (\<lambda>i. a + i) [0..<b]" for a b :: nat
    by (rule nth_equalityI) (auto simp: nth_append)
  then show ?thesis by (simp add: ring_conv[OF assms(1)] s m)
qed

lemma ring_cong:
  fixes r :: "'w::len word"
  shows "ring_size TYPE('w) n \<Longrightarrow> (\<And>i. i < unat (w - r) \<Longrightarrow> buf ((unat r + i) mod n) = buf' ((unat r + i) mod n)) \<Longrightarrow>
   ring n buf r w = ring n buf' r w"
  by (simp add: ring_conv)

end
