(* ===== verification/Console.thy ===== *)
theory Console
  imports Fs Printk Ring
begin

text \<open>
  The UART driver \<open>kernel/uart.c\<close>, the console \<open>kernel/console.c\<close> and the output side of
  \<open>kernel/printk.c\<close>. The UART is seen through its registers: writing \<open>THR\<close> sends a byte, kept in
  \<open>uart_out\<close> in the order of sending; a received byte waits in \<open>uart_in\<close> until \<open>RHR\<close> is read.
  The transmitter becomes idle again after each byte and interrupts, as a 16550 does, so a
  process that sleeps in \<open>uartwrite\<close> is woken by \<open>uartintr\<close>, and the spinning of
  \<open>uartputc_sync\<close> ends. \<open>cons.lock\<close> and \<open>tx_lock\<close> are held around each operation.
\<close>

definition INPUT_BUF_SIZE :: nat where "INPUT_BUF_SIZE = 128"

record cons_buf =
  cbuf :: "nat \<Rightarrow> u8"
  cr :: u32
  cw :: u32
  ce :: u32

record con_state = fs_state +
  cons :: cons_buf
  tx_busy :: bool
  uart_out :: "u8 list"
  uart_in :: "u8 list"
  uart_regs :: "(nat \<times> u8) list"
  panicking :: bool
  panicked :: bool

section \<open>uart.c\<close>

text \<open>The register writes of \<open>uartinit\<close>: offset and value.\<close>

definition uartinit :: "'z con_state_scheme \<Rightarrow> 'z con_state_scheme" where
  "uartinit s = s\<lparr>uart_regs := uart_regs s @
     [(1, 0), (3, 128), (0, 3), (1, 0), (3, 3), (2, 1 OR 6), (1, 2 OR 1)]\<rparr>"

definition write_THR :: "u8 \<Rightarrow> 'z con_state_scheme \<Rightarrow> 'z con_state_scheme" where
  "write_THR c s = s\<lparr>uart_out := uart_out s @ [c]\<rparr>"

text \<open>The transmit half of \<open>uartintr\<close>; \<open>cur\<close> is the process it interrupts.\<close>

definition uart_tx_done :: "nat option \<Rightarrow> 'z con_state_scheme \<Rightarrow> 'z con_state_scheme" where
  "uart_tx_done cur s = s\<lparr>tx_busy := False, procs := wake ChanUart cur (procs s)\<rparr>"

text \<open>While the caller sleeps for the UART, the transmit interrupt arrives.\<close>

fun uartwrite :: "nat \<Rightarrow> u8 list \<Rightarrow> 'z con_state_scheme \<Rightarrow> 'z con_state_scheme" where
  "uartwrite me [] s = s"
| "uartwrite me (c # cs) s =
     (let s1 = (if tx_busy s then uart_tx_done None s else s)
      in uartwrite me cs ((write_THR c s1)\<lparr>tx_busy := True\<rparr>))"

definition uartputc_sync :: "u8 \<Rightarrow> 'z con_state_scheme \<Rightarrow> 'z con_state_scheme res" where
  "uartputc_sync c s = (if panicked s then Hang else Ok (write_THR c s))"

definition uartgetc :: "'z con_state_scheme \<Rightarrow> int \<times> 'z con_state_scheme" where
  "uartgetc s = (case uart_in s of [] \<Rightarrow> (-1, s) | c # cs \<Rightarrow> (uint c, s\<lparr>uart_in := cs\<rparr>))"

section \<open>Console output and printk\<close>

definition consputc :: "u32 \<Rightarrow> 'z con_state_scheme \<Rightarrow> 'z con_state_scheme res" where
  "consputc c s = iterR uartputc_sync (consputc_bytes c) s"

definition printk :: "u8 list \<Rightarrow> karg list \<Rightarrow> 'z con_state_scheme \<Rightarrow> 'z con_state_scheme res" where
  "printk fmt as s =
     (case printk_bytes fmt as of None \<Rightarrow> Hang | Some out \<Rightarrow> iterR uartputc_sync out s)"

definition bytes_of :: "string \<Rightarrow> u8 list" where
  "bytes_of cs = map (\<lambda>c. of_nat (of_char c)) cs"

text \<open>What \<open>panic\<close> leaves behind on its way into the endless loop.\<close>

definition panic_output :: "u8 list \<Rightarrow> 'z con_state_scheme \<Rightarrow> 'z con_state_scheme res" where
  "panic_output msg s =
     bindR (printk (bytes_of ''panic: '') [] (s\<lparr>panicking := True\<rparr>)) (\<lambda>s1.
     bindR (printk (bytes_of ''%s'' @ [10]) [Str (Some msg)] s1) (\<lambda>s2.
       Ok (s2\<lparr>panicked := True\<rparr>)))"

section \<open>console.c\<close>

text \<open>Batches of 32 bytes.\<close>

function consolewrite_loop :: "nat \<Rightarrow> bool \<Rightarrow> u64 \<Rightarrow> nat \<Rightarrow> nat \<Rightarrow> 'z con_state_scheme \<Rightarrow> (nat \<times> 'z con_state_scheme) res" where
  "consolewrite_loop me user_src src i n s =
     (if i < n
      then let nn = min 32 (n - i)
           in bindR (either_copyin me user_src (src + of_nat i) nn s) (\<lambda>(r, bs, s1).
                if r = -1 then Ok (i, s1)
                else consolewrite_loop me user_src src (i + nn) n (uartwrite me bs s1))
      else Ok (i, s))"
  by pat_completeness auto
termination
  by (relation "measure (\<lambda>(me, u, src, i, n, s). n - i)") auto

definition consolewrite :: "nat \<Rightarrow> bool \<Rightarrow> u64 \<Rightarrow> int \<Rightarrow> 'z con_state_scheme \<Rightarrow> (int \<times> 'z con_state_scheme) res" where
  "consolewrite me user_src src n s =
     bindR (consolewrite_loop me user_src src 0 (nat n) s) (\<lambda>(i, s1). Ok (int i, s1))"

text \<open>
  A loop that may sleep runs until it returns or goes to sleep: \<open>Done\<close> its result, or \<open>Asleep\<close>
  with what it has done so far.
\<close>

datatype ('a, 'p) wait = Done 'a | Asleep 'p

definition C_ctrl :: "nat \<Rightarrow> u8" where
  "C_ctrl x = of_nat x - 64"

definition ring_char :: "u32 \<Rightarrow> 'z con_state_scheme \<Rightarrow> u8" where
  "ring_char i s = cbuf (cons s) (unat i mod INPUT_BUF_SIZE)"

definition upd_cons :: "(cons_buf \<Rightarrow> cons_buf) \<Rightarrow> 'z con_state_scheme \<Rightarrow> 'z con_state_scheme" where
  "upd_cons f s = s\<lparr>cons := f (cons s)\<rparr>"

text \<open>\<open>consoleread\<close>: \<open>want\<close> is \<open>target\<close> and \<open>n\<close> what is left of it; \<open>dst\<close> has been advanced.\<close>

fun consoleread_loop :: "nat \<Rightarrow> bool \<Rightarrow> nat \<Rightarrow> u64 \<Rightarrow> nat \<Rightarrow> 'z con_state_scheme \<Rightarrow>
    ((int, u64 \<times> nat) wait \<times> 'z con_state_scheme) res" where
  "consoleread_loop me user_dst want dst 0 s = Ok (Done (int want), s)"
| "consoleread_loop me user_dst want dst (Suc n) s =
     (if cr (cons s) = cw (cons s)
      then if pkilled (procs s me) \<noteq> 0 then Ok (Done (-1), s) else Ok (Asleep (dst, Suc n), s)
      else let c = ring_char (cr (cons s)) s;
               s1 = upd_cons (\<lambda>b. b\<lparr>cr := cr b + 1\<rparr>) s
           in if c = C_ctrl 68
              then Ok (Done (int want - int (Suc n)),
                       if Suc n < want then upd_cons (\<lambda>b. b\<lparr>cr := cr b - 1\<rparr>) s1 else s1)
              else bindR (either_copyout me user_dst dst [c] s1) (\<lambda>(r, s2).
                if r = -1 then Ok (Done (int want - int (Suc n)), s2)
                else if c = 10 then Ok (Done (int want - int n), s2)
                else consoleread_loop me user_dst want (dst + 1) n s2))"

definition consoleread :: "nat \<Rightarrow> bool \<Rightarrow> u64 \<Rightarrow> int \<Rightarrow> 'z con_state_scheme \<Rightarrow> ((int, u64 \<times> nat) wait \<times> 'z con_state_scheme) res" where
  "consoleread me user_dst dst n s =
     (if n > 0 then consoleread_loop me user_dst (nat n) dst (nat n) s else Ok (Done 0, s))"

text \<open>\<open>procdump\<close> prints a line per process that is in use.\<close>

fun state_name :: "procstate \<Rightarrow> u8 list" where
  "state_name UNUSED = bytes_of ''unused''"
| "state_name USED = bytes_of ''used''"
| "state_name SLEEPING = bytes_of ''sleep ''"
| "state_name RUNNABLE = bytes_of ''runble''"
| "state_name RUNNING = bytes_of ''run   ''"
| "state_name ZOMBIE = bytes_of ''zombie''"

definition name_bytes :: "cstr \<Rightarrow> u8 list" where
  "name_bytes nm = takeWhile (\<lambda>c. c \<noteq> 0) (map nm [0..<16])"

definition procdump_one :: "nat \<Rightarrow> 'z con_state_scheme \<Rightarrow> 'z con_state_scheme res" where
  "procdump_one p s =
     (let q = procs s p
      in if pstate q = UNUSED then Ok s
         else bindR (printk (bytes_of ''%d %s %s'')
                [Num (word_of_int (pid q)), Str (Some (state_name (pstate q))), Str (Some (name_bytes (pname q)))] s)
              (printk [10] []))"

definition procdump :: "'z con_state_scheme \<Rightarrow> 'z con_state_scheme res" where
  "procdump s = bindR (printk [10] [] s) (iterR procdump_one [0..<NPROC])"

text \<open>Control-U: erase back to the start of the line. At most \<open>INPUT_BUF_SIZE\<close> characters are being
  edited, the bound given to the loop.\<close>

fun kill_line :: "nat \<Rightarrow> 'z con_state_scheme \<Rightarrow> 'z con_state_scheme res" where
  "kill_line 0 s = Ok s"
| "kill_line (Suc k) s =
     (if ce (cons s) \<noteq> cw (cons s) \<and> ring_char (ce (cons s) - 1) s \<noteq> 10
      then bindR (consputc BACKSPACE (upd_cons (\<lambda>b. b\<lparr>ce := ce b - 1\<rparr>) s)) (kill_line k)
      else Ok s)"

definition consoleintr :: "nat option \<Rightarrow> u8 \<Rightarrow> 'z con_state_scheme \<Rightarrow> 'z con_state_scheme res" where
  "consoleintr cur c s =
     (if c = C_ctrl 80 then procdump s
      else if c = C_ctrl 85 then kill_line INPUT_BUF_SIZE s
      else if c = C_ctrl 72 \<or> c = 127
      then if ce (cons s) \<noteq> cw (cons s)
           then consputc BACKSPACE (upd_cons (\<lambda>b. b\<lparr>ce := ce b - 1\<rparr>) s) else Ok s
      else if c \<noteq> 0 \<and> unat (ce (cons s) - cr (cons s)) < INPUT_BUF_SIZE
      then let ch = (if c = 13 then 10 else c)
           in bindR (consputc (ucast ch) s) (\<lambda>s1.
                let s2 = upd_cons (\<lambda>b. b\<lparr>cbuf := (cbuf b)(unat (ce b) mod INPUT_BUF_SIZE := ch), ce := ce b + 1\<rparr>) s1
                in Ok (if ch = 10 \<or> ch = C_ctrl 68 \<or> unat (ce (cons s2) - cr (cons s2)) = INPUT_BUF_SIZE
                       then (upd_cons (\<lambda>b. b\<lparr>cw := ce b\<rparr>) s2)\<lparr>procs := wake ChanCons cur (procs s2)\<rparr>
                       else s2))
      else Ok s)"

text \<open>\<open>uartintr\<close>: the loop takes the bytes that have arrived.\<close>

fun uart_rx_loop :: "nat option \<Rightarrow> nat \<Rightarrow> 'z con_state_scheme \<Rightarrow> 'z con_state_scheme res" where
  "uart_rx_loop cur 0 s = Ok s"
| "uart_rx_loop cur (Suc k) s =
     (let (c, s1) = uartgetc s
      in if c = -1 then Ok s1 else bindR (consoleintr cur (word_of_int c) s1) (uart_rx_loop cur k))"

definition uartintr :: "nat option \<Rightarrow> bool \<Rightarrow> 'z con_state_scheme \<Rightarrow> 'z con_state_scheme res" where
  "uartintr cur tx_idle s =
     (let s1 = (if tx_idle then uart_tx_done cur s else s)
      in uart_rx_loop cur (length (uart_in s1)) s1)"

definition consoleinit :: "'z con_state_scheme \<Rightarrow> 'z con_state_scheme" where
  "consoleinit s = uartinit s"

declare consolewrite_loop.simps [simp del]

end
