(* ===== verification/File.thy ===== *)
theory File
  imports Console
begin

text \<open>
  Open files and pipes, \<open>kernel/file.c\<close> and \<open>kernel/pipe.c\<close>. A \<open>struct file\<close> is named by its index
  in \<open>ftable\<close>, a \<open>struct pipe\<close> by the address of its page. \<open>ftable.lock\<close> and \<open>pi->lock\<close> are held
  around each access, so each run of a pipe operation up to its return or its sleep is one step.
\<close>

definition NFILE :: nat where "NFILE = 100"
definition NDEV :: int where "NDEV = 10"
definition CONSOLE :: u16 where "CONSOLE = 1"
definition PIPESIZE :: nat where "PIPESIZE = 512"

datatype file_kind = FD_NONE | FD_PIPE | FD_INODE | FD_DEVICE

record file_obj =
  fkind :: file_kind
  fref :: int
  readable :: bool
  writable :: bool
  fpipe :: u64
  fip :: nat
  foff :: u32
  fmajor :: u16

record pipe =
  pdata :: "nat \<Rightarrow> u8"
  nread :: u32
  nwrite :: u32
  readopen :: bool
  writeopen :: bool

record file_state = con_state +
  files :: "nat \<Rightarrow> file_obj"
  pipes :: "u64 \<Rightarrow> pipe"

definition upd_file :: "nat \<Rightarrow> (file_obj \<Rightarrow> file_obj) \<Rightarrow> 'z file_state_scheme \<Rightarrow> 'z file_state_scheme" where
  "upd_file f g s = s\<lparr>files := (files s)(f := g (files s f))\<rparr>"

definition upd_pipe :: "u64 \<Rightarrow> (pipe \<Rightarrow> pipe) \<Rightarrow> 'z file_state_scheme \<Rightarrow> 'z file_state_scheme" where
  "upd_pipe pi g s = s\<lparr>pipes := (pipes s)(pi := g (pipes s pi))\<rparr>"

definition wakeup_on :: "nat \<Rightarrow> chan \<Rightarrow> 'z proc_state_scheme \<Rightarrow> 'z proc_state_scheme" where
  "wakeup_on me ch s = s\<lparr>procs := wake ch (Some me) (procs s)\<rparr>"

section \<open>The file table\<close>

definition filealloc :: "'z file_state_scheme \<Rightarrow> nat option \<times> 'z file_state_scheme" where
  "filealloc s =
     (case List.find (\<lambda>f. fref (files s f) = 0) [0..<NFILE] of
        None \<Rightarrow> (None, s)
      | Some f \<Rightarrow> (Some f, upd_file f (fref_update (\<lambda>_. 1)) s))"

definition filedup :: "nat \<Rightarrow> 'z file_state_scheme \<Rightarrow> 'z file_state_scheme res" where
  "filedup f s =
     (if fref (files s f) < 1 then Panic ''filedup''
      else Ok (upd_file f (\<lambda>x. x\<lparr>fref := fref x + 1\<rparr>) s))"

section \<open>Pipes\<close>

definition pipeclose :: "nat \<Rightarrow> u64 \<Rightarrow> bool \<Rightarrow> 'z file_state_scheme \<Rightarrow> 'z file_state_scheme res" where
  "pipeclose me pi wr s =
     (let s1 = (if wr then wakeup_on me (ChanPipeRead (unat pi)) (upd_pipe pi (writeopen_update (\<lambda>_. False)) s)
                else wakeup_on me (ChanPipeWrite (unat pi)) (upd_pipe pi (readopen_update (\<lambda>_. False)) s))
      in if \<not> readopen (pipes s1 pi) \<and> \<not> writeopen (pipes s1 pi) then kfree pi s1 else Ok s1)"

text \<open>\<open>pipewrite\<close> from the test at the top of the loop with \<open>i\<close> bytes written.\<close>

function pipewrite_loop :: "nat \<Rightarrow> u64 \<Rightarrow> u64 \<Rightarrow> nat \<Rightarrow> nat \<Rightarrow> 'z file_state_scheme \<Rightarrow> ((int, nat) wait \<times> 'z file_state_scheme) res" where
  "pipewrite_loop me pi addr i n s =
     (if i < n
      then if \<not> readopen (pipes s pi) \<or> pkilled (procs s me) \<noteq> 0 then Ok (Done (-1), s)
           else if nwrite (pipes s pi) = nread (pipes s pi) + of_nat PIPESIZE
           then Ok (Asleep i, wakeup_on me (ChanPipeRead (unat pi)) s)
           else bindR (copyin (uproc_of (procs s me)) (pagetable (procs s me)) (addr + of_nat i) 1 s) (\<lambda>(r, bs, s1).
             if r = -1 then Ok (Done (int i), wakeup_on me (ChanPipeRead (unat pi)) s1)
             else pipewrite_loop me pi addr (i + 1) n
                    (upd_pipe pi (\<lambda>p. p\<lparr>pdata := (pdata p)(unat (nwrite p) mod PIPESIZE := hd bs),
                                        nwrite := nwrite p + 1\<rparr>) s1))
      else Ok (Done (int i), wakeup_on me (ChanPipeRead (unat pi)) s))"
  by pat_completeness auto
termination
  by (relation "measure (\<lambda>(me, pi, addr, i, n, s). n - i)") auto

definition pipewrite :: "nat \<Rightarrow> u64 \<Rightarrow> u64 \<Rightarrow> int \<Rightarrow> 'z file_state_scheme \<Rightarrow> ((int, nat) wait \<times> 'z file_state_scheme) res" where
  "pipewrite me pi addr n s = pipewrite_loop me pi addr 0 (nat n) s"

text \<open>The copy loop of \<open>piperead\<close>: \<open>k\<close> bytes to go, \<open>i\<close> read.\<close>

fun piperead_copy :: "nat \<Rightarrow> u64 \<Rightarrow> u64 \<Rightarrow> nat \<Rightarrow> nat \<Rightarrow> 'z file_state_scheme \<Rightarrow> (int \<times> 'z file_state_scheme) res" where
  "piperead_copy me pi addr i 0 s = Ok (int i, s)"
| "piperead_copy me pi addr i (Suc k) s =
     (if nread (pipes s pi) = nwrite (pipes s pi) then Ok (int i, s)
      else let ch = pdata (pipes s pi) (unat (nread (pipes s pi)) mod PIPESIZE)
           in bindR (copyout (uproc_of (procs s me)) (pagetable (procs s me)) (addr + of_nat i) [ch] s) (\<lambda>(r, s1).
                if r = -1 then Ok (if i = 0 then -1 else int i, s1)
                else piperead_copy me pi addr (i + 1) k (upd_pipe pi (\<lambda>p. p\<lparr>nread := nread p + 1\<rparr>) s1)))"

definition piperead :: "nat \<Rightarrow> u64 \<Rightarrow> u64 \<Rightarrow> int \<Rightarrow> 'z file_state_scheme \<Rightarrow> ((int, unit) wait \<times> 'z file_state_scheme) res" where
  "piperead me pi addr n s =
     (if nread (pipes s pi) = nwrite (pipes s pi) \<and> writeopen (pipes s pi)
      then if pkilled (procs s me) \<noteq> 0 then Ok (Done (-1), s) else Ok (Asleep (), s)
      else bindR (piperead_copy me pi addr 0 (nat n) s) (\<lambda>(i, s1).
             Ok (Done i, wakeup_on me (ChanPipeWrite (unat pi)) s1)))"

section \<open>Operations on open files\<close>

definition fileclose :: "nat \<Rightarrow> nat \<Rightarrow> 'z file_state_scheme \<Rightarrow> 'z file_state_scheme res" where
  "fileclose me f s =
     (if fref (files s f) < 1 then Panic ''fileclose''
      else let s1 = upd_file f (\<lambda>x. x\<lparr>fref := fref x - 1\<rparr>) s
           in if fref (files s1 f) > 0 then Ok s1
              else let ff = files s1 f;
                       s2 = upd_file f (\<lambda>x. x\<lparr>fref := 0, fkind := FD_NONE\<rparr>) s1
                   in case fkind ff of
                        FD_PIPE \<Rightarrow> pipeclose me (fpipe ff) (writable ff) s2
                      | FD_INODE \<Rightarrow> bindR (begin_op s2) (\<lambda>s3. bindR (iput me (fip ff) s3) (end_op me))
                      | FD_DEVICE \<Rightarrow> bindR (begin_op s2) (\<lambda>s3. bindR (iput me (fip ff) s3) (end_op me))
                      | FD_NONE \<Rightarrow> Ok s2)"

definition close_some :: "nat \<Rightarrow> nat option \<Rightarrow> 'z file_state_scheme \<Rightarrow> 'z file_state_scheme res" where
  "close_some me f s = (case f of None \<Rightarrow> Ok s | Some f \<Rightarrow> fileclose me f s)"

text \<open>\<open>pipealloc\<close>: the two files, read end first. \<open>kalloc\<close> has filled the page with 5.\<close>

definition pipealloc :: "nat \<Rightarrow> 'z file_state_scheme \<Rightarrow> ((nat \<times> nat) option \<times> 'z file_state_scheme) res" where
  "pipealloc me s =
     (let (f0, s1) = filealloc s;
          bad = (\<lambda>f0 f1 t. bindR (close_some me f0 t) (\<lambda>t1. bindR (close_some me f1 t1) (\<lambda>t2. Ok (None, t2))))
      in case f0 of
           None \<Rightarrow> bad None None s1
         | Some r \<Rightarrow>
            (let (f1, s2) = filealloc s1
             in case f1 of
                  None \<Rightarrow> bad (Some r) None s2
                | Some w \<Rightarrow>
                   (let (pi, s3) = kalloc s2
                    in if pi = 0 then bad (Some r) (Some w) s3
                       else let s4 = upd_pipe pi (\<lambda>_. \<lparr>pdata = (\<lambda>_. 5), nread = 0, nwrite = 0,
                                                       readopen = True, writeopen = True\<rparr>) s3;
                                s5 = upd_file r (\<lambda>x. x\<lparr>fkind := FD_PIPE, readable := True, writable := False, fpipe := pi\<rparr>) s4;
                                s6 = upd_file w (\<lambda>x. x\<lparr>fkind := FD_PIPE, readable := False, writable := True, fpipe := pi\<rparr>) s5
                            in Ok (Some (r, w), s6))))"

definition stat_bytes :: "stat \<Rightarrow> u8 list" where
  "stat_bytes st = le_bytes 4 (ucast (st_dev st)) @ le_bytes 4 (ucast (st_ino st)) @ le_bytes 2 (ucast (st_type st))
     @ le_bytes 2 (ucast (st_nlink st)) @ st_pad st @ le_bytes 8 (st_size st)"

text \<open>\<open>st0\<close> is the uninitialised local variable \<open>st\<close>.\<close>

definition filestat :: "nat \<Rightarrow> stat \<Rightarrow> nat \<Rightarrow> u64 \<Rightarrow> 'z file_state_scheme \<Rightarrow> (int \<times> 'z file_state_scheme) res" where
  "filestat me st0 f addr s =
     (if fkind (files s f) = FD_INODE \<or> fkind (files s f) = FD_DEVICE
      then let ip = fip (files s f)
           in bindR (ilock me ip s) (\<lambda>s1.
              let st = stati ip st0 s1
              in bindR (iunlock me ip s1) (\<lambda>s2.
                 bindR (copyout (uproc_of (procs s2 me)) (pagetable (procs s2 me)) addr (stat_bytes st) s2) (\<lambda>(r, s3).
                   Ok (if r < 0 then -1 else 0, s3))))
      else Ok (-1, s))"

text \<open>\<open>devsw[]\<close>: only the console is connected.\<close>

definition dev_ok :: "u16 \<Rightarrow> bool" where
  "dev_ok maj \<longleftrightarrow> 0 \<le> sint maj \<and> sint maj < NDEV \<and> maj = CONSOLE"

definition finish :: "('a, 'p) wait \<times> 's \<Rightarrow> ('a \<times> 's) res" where
  "finish = (\<lambda>(w, s). case w of Done a \<Rightarrow> Ok (a, s) | Asleep _ \<Rightarrow> Hang)"

definition fileread :: "nat \<Rightarrow> nat \<Rightarrow> u64 \<Rightarrow> int \<Rightarrow> 'z file_state_scheme \<Rightarrow> (int \<times> 'z file_state_scheme) res" where
  "fileread me f addr n s =
     (if \<not> readable (files s f) then Ok (-1, s)
      else case fkind (files s f) of
             FD_PIPE \<Rightarrow> bindR (piperead me (fpipe (files s f)) addr n s) finish
           | FD_DEVICE \<Rightarrow>
               if dev_ok (fmajor (files s f)) then bindR (consoleread me True addr n s) finish else Ok (-1, s)
           | FD_INODE \<Rightarrow>
               bindR (ilock me (fip (files s f)) s) (\<lambda>s1.
               bindR (readi me (fip (files s1 f)) True addr (foff (files s1 f)) (word_of_int n) s1) (\<lambda>(r, s2).
               let s3 = (if r > 0 then upd_file f (\<lambda>x. x\<lparr>foff := foff x + word_of_int r\<rparr>) s2 else s2)
               in bindR (iunlock me (fip (files s3 f)) s3) (\<lambda>s4. Ok (r, s4))))
           | FD_NONE \<Rightarrow> Panic ''fileread'')"

definition max_write :: nat where
  "max_write = ((MAXOPBLOCKS - 1 - 1 - 2) div 2) * BSIZE"

function filewrite_loop :: "nat \<Rightarrow> nat \<Rightarrow> u64 \<Rightarrow> nat \<Rightarrow> nat \<Rightarrow> 'z file_state_scheme \<Rightarrow> (nat \<times> 'z file_state_scheme) res" where
  "filewrite_loop me f addr i n s =
     (if i < n
      then let n1 = min (n - i) max_write
           in bindR (begin_op s) (\<lambda>s1.
              bindR (ilock me (fip (files s1 f)) s1) (\<lambda>s2.
              bindR (writei me (fip (files s2 f)) True (addr + of_nat i) (foff (files s2 f)) (of_nat n1) s2) (\<lambda>(r, s3).
              let s4 = (if r > 0 then upd_file f (\<lambda>x. x\<lparr>foff := foff x + word_of_int r\<rparr>) s3 else s3)
              in bindR (iunlock me (fip (files s4 f)) s4) (\<lambda>s5.
                 bindR (end_op me s5) (\<lambda>s6.
                   if r \<noteq> int n1 then Ok (i, s6) else filewrite_loop me f addr (i + n1) n s6)))))
      else Ok (i, s))"
  by pat_completeness auto
termination
  by (relation "measure (\<lambda>(me, f, addr, i, n, s). n - i)") (auto simp: max_write_def MAXOPBLOCKS_def BSIZE_def)

definition filewrite :: "nat \<Rightarrow> nat \<Rightarrow> u64 \<Rightarrow> int \<Rightarrow> 'z file_state_scheme \<Rightarrow> (int \<times> 'z file_state_scheme) res" where
  "filewrite me f addr n s =
     (if \<not> writable (files s f) then Ok (-1, s)
      else case fkind (files s f) of
             FD_PIPE \<Rightarrow> bindR (pipewrite me (fpipe (files s f)) addr n s) finish
           | FD_DEVICE \<Rightarrow>
               if dev_ok (fmajor (files s f)) then consolewrite me True addr n s else Ok (-1, s)
           | FD_INODE \<Rightarrow>
               bindR (filewrite_loop me f addr 0 (nat n) s) (\<lambda>(i, s1). Ok (if int i = n then n else -1, s1))
           | FD_NONE \<Rightarrow> Panic ''filewrite'')"

declare pipewrite_loop.simps [simp del] filewrite_loop.simps [simp del]

end
