(* ===== verification/Vm_Frame.thy ===== *)
theory Vm_Frame
  imports Vm
begin

text \<open>
  The memory functions touch the memory and the allocator only: whatever else the state holds,
  which is the extension of the record \<open>kmem_state\<close>, comes out unchanged. The file system, pipe
  and console proofs use this when bytes move between the kernel and a process.
\<close>

named_theorems vm_frame

lemma kalloc_frame [vm_frame]: "kalloc s = (r, s') \<Longrightarrow> kmem_state.more s' = kmem_state.more s"
  by (auto simp: kalloc_def Let_def split: if_splits)

lemma kfree_frame [vm_frame]: "kfree pa s = Ok s' \<Longrightarrow> kmem_state.more s' = kmem_state.more s"
  by (auto simp: kfree_def Let_def split: if_splits)

lemma walk_from_frame: "walk_from l pt va alloc s = (a, s') \<Longrightarrow> kmem_state.more s' = kmem_state.more s"
proof (induction l pt va alloc s rule: walk_from.induct)
  case (2 l pt va alloc s)
  show ?case
  proof (cases "load64 (phys s) (pte_at pt (Suc l) va) AND PTE_V \<noteq> 0")
    case True
    then show ?thesis using "2.IH"(1)[OF refl refl True] "2.prems" by simp
  next
    case False
    obtain page s1 where k: "kalloc s = (page, s1)" by (cases "kalloc s")
    show ?thesis
    proof (cases "alloc \<and> page \<noteq> 0")
      case True
      then show ?thesis
        using "2.IH"(2)[OF refl refl _ _ k[symmetric]] "2.prems" False kalloc_frame[OF k] k by (simp add: Let_def)
    next
      case F: False
      then show ?thesis using "2.prems" False k kalloc_frame[OF k] by (auto simp: Let_def split: if_splits)
    qed
  qed
qed simp

lemma walk_frame [vm_frame]: "walk pt va alloc s = Ok (a, s') \<Longrightarrow> kmem_state.more s' = kmem_state.more s"
  using walk_from_frame[of 2 pt va alloc s] by (cases "walk_from 2 pt va alloc s") (auto simp: walk_def split: if_splits)

lemma mappages_loop_frame:
  assumes "mappages_loop pt a fin pa perm s = Some (Ok (r, s'))"
  shows "kmem_state.more s' = kmem_state.more s"
proof -
  let ?P = "\<lambda>pt a fin pa perm s y. \<forall>q. y = Ok q \<longrightarrow> kmem_state.more (snd q) = kmem_state.more s"
  have "?P pt a fin pa perm s (Ok (r, s'))"
  proof (rule mappages_loop.raw_induct[OF _ assms, of ?P], intro allI impI)
    fix f pt a fin pa perm s y q
    assume IH: "\<And>pt a fin pa perm s y. f pt a fin pa perm s = Some y \<Longrightarrow> ?P pt a fin pa perm s y"
      and r: "(case walk pt a True s of
        Panic e \<Rightarrow> Some (Panic e)
      | Hang \<Rightarrow> Some Hang
      | Ok q \<Rightarrow>
          (if fst q = 0 then Some (Ok (-1, snd q))
           else if load64 (phys (snd q)) (fst q) AND PTE_V \<noteq> 0 then Some (Panic ''mappages: remap'')
           else let s2 = (snd q)\<lparr>phys := store64 (phys (snd q)) (fst q) (PA2PTE pa OR perm OR PTE_V)\<rparr>
                in if a = fin then Some (Ok (0, s2)) else f pt (a + PGSIZE) fin (pa + PGSIZE) perm s2)) = Some y"
      and q: "y = Ok q"
    obtain w where w: "walk pt a True s = Ok w" using r q by (cases "walk pt a True s") auto
    then have "kmem_state.more (snd w) = kmem_state.more s" using walk_frame[of pt a True s "fst w" "snd w"] by simp
    then show "kmem_state.more (snd q) = kmem_state.more s"
      using r q w by (cases q) (auto simp: Let_def split: if_splits dest!: IH)
  qed
  then show ?thesis by simp
qed

lemma mappages_frame [vm_frame]:
  "mappages pt va n pa perm s = Ok (r, s') \<Longrightarrow> kmem_state.more s' = kmem_state.more s"
  by (auto simp: mappages_def split: if_splits option.splits dest: mappages_loop_frame)

lemma vmfault_frame [vm_frame]: "vmfault p pt va s = Ok (r, s') \<Longrightarrow> kmem_state.more s' = kmem_state.more s"
  by (auto simp: vmfault_def Let_def res_iff split: if_splits prod.splits dest!: kalloc_frame mappages_frame kfree_frame)

lemma resolve_frame:
  "(if walkaddr pt va s = 0 then vmfault p pt va s else Ok (walkaddr pt va s, s)) = Ok (pa, s') \<Longrightarrow>
   kmem_state.more s' = kmem_state.more s"
  by (auto split: if_splits dest: vmfault_frame)

lemma copyout_frame [vm_frame]: "copyout p pt va bs s = Ok (r, s') \<Longrightarrow> kmem_state.more s' = kmem_state.more s"
proof (induction p pt va bs s arbitrary: r s' rule: copyout.induct)
  case (1 p pt va bs s)
  show ?case
  proof (cases "bs = [] \<or> PGROUNDDOWN va \<ge> MAXVA")
    case True
    then show ?thesis using "1.prems" by (subst (asm) copyout.simps) (auto simp: Let_def split: if_splits)
  next
    case False
    then obtain pa s1 where a: "(if walkaddr pt (PGROUNDDOWN va) s = 0 then vmfault p pt (PGROUNDDOWN va) s
        else Ok (walkaddr pt (PGROUNDDOWN va) s, s)) = Ok (pa, s1)"
      using "1.prems" by (subst (asm) copyout.simps) (auto simp: Let_def res_iff)
    note fr = resolve_frame[OF a]
    show ?thesis
    proof (cases "pa = 0")
      case True
      then show ?thesis using "1.prems" False a fr by (subst (asm) copyout.simps) (simp add: Let_def)
    next
      case pa: False
      obtain pte t where w: "walk pt (PGROUNDDOWN va) False s1 = Ok (pte, t)"
        using "1.prems" False a pa by (subst (asm) copyout.simps) (auto simp: Let_def res_iff)
      have nz: "pte \<noteq> 0" using "1.prems" False a pa w by (subst (asm) copyout.simps) (auto simp: Let_def)
      show ?thesis
      proof (cases "load64 (phys s1) pte AND PTE_W = 0")
        case True
        then show ?thesis using "1.prems" False a pa w fr nz by (subst (asm) copyout.simps) (simp add: Let_def)
      next
        case wr: False
        have "copyout p pt (PGROUNDDOWN va + PGSIZE) (drop (chunk va (length bs)) bs)
          (s1\<lparr>phys := write_bytes (phys s1) (pa + (va - PGROUNDDOWN va)) (take (chunk va (length bs)) bs)\<rparr>) = Ok (r, s')"
          using "1.prems" False a pa w wr nz by (subst (asm) copyout.simps) (simp add: Let_def)
        from "1.IH"[OF _ refl _ a refl pa w refl nz wr refl this] False fr show ?thesis by simp
      qed
    qed
  qed
qed

lemma copyin_frame [vm_frame]: "copyin p pt va n s = Ok (r, bs, s') \<Longrightarrow> kmem_state.more s' = kmem_state.more s"
proof (induction p pt va n s arbitrary: r bs s' rule: copyin.induct)
  case (1 p pt va n s)
  show ?case
  proof (cases "n = 0")
    case True
    then show ?thesis using "1.prems" by (subst (asm) copyin.simps) simp
  next
    case False
    then obtain pa s1 where a: "(if walkaddr pt (PGROUNDDOWN va) s = 0 then vmfault p pt (PGROUNDDOWN va) s
        else Ok (walkaddr pt (PGROUNDDOWN va) s, s)) = Ok (pa, s1)"
      using "1.prems" by (subst (asm) copyin.simps) (auto simp: Let_def res_iff)
    note fr = resolve_frame[OF a]
    show ?thesis
    proof (cases "pa = 0")
      case True
      then show ?thesis using "1.prems" False a fr by (subst (asm) copyin.simps) (simp add: Let_def)
    next
      case pa: False
      obtain cs where c: "copyin p pt (PGROUNDDOWN va + PGSIZE) (n - chunk va n) s1 = Ok (r, cs, s')"
        using "1.prems" False a pa by (subst (asm) copyin.simps) (auto simp: Let_def res_iff)
      from "1.IH"[OF False refl a refl pa refl refl this] fr show ?thesis by simp
    qed
  qed
qed

text \<open>How many bytes \<open>copyin\<close> delivers.\<close>

lemma copyin_length: "copyin p pt va n s = Ok (r, bs, s') \<Longrightarrow> r \<noteq> -1 \<Longrightarrow> length bs = n"
proof (induction p pt va n s arbitrary: r bs s' rule: copyin.induct)
  case (1 p pt va n s)
  show ?case
  proof (cases "n = 0")
    case True
    then show ?thesis using "1.prems" by (subst (asm) copyin.simps) simp
  next
    case False
    then obtain pa s1 where a: "(if walkaddr pt (PGROUNDDOWN va) s = 0 then vmfault p pt (PGROUNDDOWN va) s
        else Ok (walkaddr pt (PGROUNDDOWN va) s, s)) = Ok (pa, s1)"
      using "1.prems" by (subst (asm) copyin.simps) (auto simp: Let_def res_iff)
    have pa: "pa \<noteq> 0" using "1.prems" False a by (subst (asm) copyin.simps) (auto simp: Let_def)
    then obtain cs where c: "copyin p pt (PGROUNDDOWN va + PGSIZE) (n - chunk va n) s1 = Ok (r, cs, s')"
      "bs = read_bytes (phys s1) (pa + (va - PGROUNDDOWN va)) (chunk va n) @ cs"
      using "1.prems" False a by (subst (asm) copyin.simps) (auto simp: Let_def res_iff)
    from "1.IH"[OF False refl a refl pa refl refl c(1) "1.prems"(2)] c(2) chunk_le[of va n] show ?thesis by simp
  qed
qed

section \<open>Growing and shrinking\<close>

lemma uvmunmap_page_frame [vm_frame]:
  "uvmunmap_page pt a do_free s = Ok s' \<Longrightarrow> kmem_state.more s' = kmem_state.more s"
  by (auto simp: uvmunmap_page_def res_iff split: if_splits dest!: walk_frame kfree_frame)

lemma uvmunmap_loop_frame:
  assumes "uvmunmap_loop pt a endva do_free s = Some (Ok s')"
  shows "kmem_state.more s' = kmem_state.more s"
proof -
  let ?P = "\<lambda>pt a endva do_free s y. \<forall>q. y = Ok q \<longrightarrow> kmem_state.more q = kmem_state.more s"
  have "?P pt a endva do_free s (Ok s')"
  proof (rule uvmunmap_loop.raw_induct[OF _ assms, of ?P], intro allI impI)
    fix f pt a endva do_free s y q
    assume IH: "\<And>pt a endva do_free s y. f pt a endva do_free s = Some y \<Longrightarrow> ?P pt a endva do_free s y"
      and r: "(if a < endva
        then (case uvmunmap_page pt a do_free s of
                Ok s1 \<Rightarrow> f pt (a + PGSIZE) endva do_free s1
              | Panic e \<Rightarrow> Some (Panic e)
              | Hang \<Rightarrow> Some Hang)
        else Some (Ok s)) = Some y"
      and q: "y = Ok q"
    show "kmem_state.more q = kmem_state.more s"
    proof (cases "a < endva")
      case True
      then obtain u where u: "uvmunmap_page pt a do_free s = Ok u" using r q by (cases "uvmunmap_page pt a do_free s") auto
      then show ?thesis using r q True uvmunmap_page_frame[OF u] by (auto dest!: IH)
    qed (use r q in simp)
  qed
  then show ?thesis by simp
qed

lemma uvmunmap_frame [vm_frame]: "uvmunmap pt va n do_free s = Ok s' \<Longrightarrow> kmem_state.more s' = kmem_state.more s"
  by (auto simp: uvmunmap_def split: if_splits option.splits dest: uvmunmap_loop_frame)

lemma uvmdealloc_frame [vm_frame]: "uvmdealloc pt oldsz newsz s = Ok (r, s') \<Longrightarrow> kmem_state.more s' = kmem_state.more s"
  by (auto simp: uvmdealloc_def res_iff split: if_splits dest!: uvmunmap_frame)

lemma uvmalloc_loop_frame:
  assumes "uvmalloc_loop pt a oldsz newsz xperm s = Some (Ok (r, s'))"
  shows "kmem_state.more s' = kmem_state.more s \<and> (r = 0 \<or> r = newsz)"
proof -
  let ?P = "\<lambda>pt a oldsz newsz xperm s y. \<forall>q. y = Ok q \<longrightarrow> kmem_state.more (snd q) = kmem_state.more s \<and> (fst q = 0 \<or> fst q = newsz)"
  have "?P pt a oldsz newsz xperm s (Ok (r, s'))"
  proof (rule uvmalloc_loop.raw_induct[OF _ assms, of ?P], intro allI impI)
    fix f pt a oldsz newsz xperm s y q
    assume IH: "\<And>pt a oldsz newsz xperm s y. f pt a oldsz newsz xperm s = Some y \<Longrightarrow> ?P pt a oldsz newsz xperm s y"
      and r: "(if a < newsz
        then let k = kalloc s
             in if fst k = 0
                then Some (bindR (uvmdealloc pt a oldsz (snd k)) (\<lambda>(_, s2). Ok (0, s2)))
                else (case mappages pt a PGSIZE (fst k) (PTE_R OR PTE_U OR xperm)
                             ((snd k)\<lparr>phys := memset (phys (snd k)) (fst k) 0 4096\<rparr>) of
                        Panic e \<Rightarrow> Some (Panic e)
                      | Hang \<Rightarrow> Some Hang
                      | Ok q \<Rightarrow>
                          (if fst q \<noteq> 0
                           then Some (bindR (kfree (fst k) (snd q)) (\<lambda>s3.
                                  bindR (uvmdealloc pt a oldsz s3) (\<lambda>(_, s4). Ok (0, s4))))
                           else f pt (a + PGSIZE) oldsz newsz xperm (snd q)))
        else Some (Ok (newsz, s))) = Some y"
      and q: "y = Ok q"
    obtain p s1 where k: "kalloc s = (p, s1)" by (cases "kalloc s")
    have k1: "kmem_state.more s1 = kmem_state.more s" by (rule kalloc_frame[OF k])
    show "kmem_state.more (snd q) = kmem_state.more s \<and> (fst q = 0 \<or> fst q = newsz)"
    proof (cases "a < newsz \<and> p \<noteq> 0")
      case False
      then show ?thesis using r q k1 by (auto simp: k res_iff split: if_splits dest!: uvmdealloc_frame)
    next
      case True
      let ?m = "mappages pt a PGSIZE p (PTE_R OR PTE_U OR xperm) (s1\<lparr>phys := memset (phys s1) p 0 4096\<rparr>)"
      obtain w where w: "?m = Ok w" using r q True k by (cases ?m) auto
      have w1: "kmem_state.more (snd w) = kmem_state.more s"
        using mappages_frame[of pt a PGSIZE p _ _ "fst w" "snd w"] w k1 by fastforce
      show ?thesis
      proof (cases "fst w = 0")
        case z: True
        then have "f pt (a + PGSIZE) oldsz newsz xperm (snd w) = Some y" using r True k w by simp
        then show ?thesis using IH q w1 by fastforce
      next
        case nz: False
        then show ?thesis using r q True k w w1 by (auto simp: res_iff dest!: kfree_frame uvmdealloc_frame)
      qed
    qed
  qed
  then show ?thesis by simp
qed

lemma uvmalloc_frame:
  "uvmalloc pt oldsz newsz xperm s = Ok (r, s') \<Longrightarrow>
   kmem_state.more s' = kmem_state.more s \<and> (r = (if newsz < oldsz then oldsz else newsz) \<or> r = 0)"
  by (auto simp: uvmalloc_def Let_def split: if_splits option.splits dest!: uvmalloc_loop_frame)

end
