(* ===== verification/Pipe_Correct.thy ===== *)
theory Pipe_Correct
  imports File Vm_Frame Vm_Map
begin

text \<open>
  Pipes are bounded first-in, first-out channels. The ring of a pipe is shown to be a queue (an
  interpretation of the contract \<open>fifo\<close>), and then the loops of \<open>pipewrite\<close> and \<open>piperead\<close>, run by
  any processes in any order and mixed with anything else the kernel does, are shown to move
  bytes through it in order.
\<close>

section \<open>The ring of a pipe is a queue\<close>

definition pipe_ring :: "pipe \<Rightarrow> u8 list" where
  "pipe_ring p = ring PIPESIZE (pdata p) (nread p) (nwrite p)"

definition pipe_holds :: "pipe \<Rightarrow> u8 list \<Rightarrow> bool" where
  "pipe_holds p xs \<longleftrightarrow> pipe_ring p = xs \<and> length xs \<le> PIPESIZE"

text \<open>One iteration of the two copy loops, on the pipe alone.\<close>

definition pipe_put :: "u8 \<Rightarrow> pipe \<Rightarrow> pipe option" where
  "pipe_put c p =
     (if nwrite p = nread p + of_nat PIPESIZE then None
      else Some (p\<lparr>pdata := (pdata p)(unat (nwrite p) mod PIPESIZE := c), nwrite := nwrite p + 1\<rparr>))"

definition pipe_get :: "pipe \<Rightarrow> (u8 \<times> pipe) option" where
  "pipe_get p =
     (if nread p = nwrite p then None
      else Some (pdata p (unat (nread p) mod PIPESIZE), p\<lparr>nread := nread p + 1\<rparr>))"

lemma pipe_ring_size: "ring_size TYPE(32) PIPESIZE"
  by (simp add: ring_size_def PIPESIZE_def)

lemma pipe_full:
  "pipe_holds p xs \<Longrightarrow> nwrite p = nread p + of_nat PIPESIZE \<longleftrightarrow> length xs = PIPESIZE"
proof -
  assume h: "pipe_holds p xs"
  then have l: "length xs = unat (nwrite p - nread p)" by (auto simp: pipe_holds_def pipe_ring_def)
  have "nwrite p = nread p + of_nat PIPESIZE \<longleftrightarrow> nwrite p - nread p = of_nat PIPESIZE"
    by (metis add_diff_cancel_left' diff_add_cancel add.commute)
  also have "\<dots> \<longleftrightarrow> unat (nwrite p - nread p) = PIPESIZE"
    by (simp add: word_unat_eq_iff PIPESIZE_def)
  finally show "nwrite p = nread p + of_nat PIPESIZE \<longleftrightarrow> length xs = PIPESIZE" using l by simp
qed

lemma pipe_put_holds: "pipe_holds p xs \<Longrightarrow> pipe_put c p = Some q \<Longrightarrow> pipe_holds q (xs @ [c])"
proof -
  assume h: "pipe_holds p xs" and q: "pipe_put c p = Some q"
  then have "length xs \<noteq> PIPESIZE" using pipe_full[OF h] by (auto simp: pipe_put_def)
  then have lt: "unat (nwrite p - nread p) < PIPESIZE" using h by (auto simp: pipe_holds_def pipe_ring_def)
  show "pipe_holds q (xs @ [c])"
    using h q lt ring_push[OF pipe_ring_size lt, of "pdata p" c]
    by (auto simp: pipe_holds_def pipe_ring_def pipe_put_def split: if_splits)
qed

lemma pipe_get_holds: "pipe_holds p (x # xs) \<Longrightarrow> \<exists>q. pipe_get p = Some (x, q) \<and> pipe_holds q xs"
proof -
  assume h: "pipe_holds p (x # xs)"
  then have ne: "nread p \<noteq> nwrite p" using ring_empty[of PIPESIZE "pdata p" "nread p" "nwrite p"]
    by (auto simp: pipe_holds_def pipe_ring_def)
  show ?thesis
    using h ne ring_pop[OF pipe_ring_size ne, of "pdata p"] by (simp add: pipe_get_def pipe_holds_def pipe_ring_def)
qed

interpretation pipe: fifo pipe_put pipe_get pipe_holds
proof
  fix s :: pipe assume "pipe_holds s []"
  then show "pipe_get s = None"
    using ring_empty[of PIPESIZE "pdata s" "nread s" "nwrite s"] by (simp add: pipe_get_def pipe_holds_def pipe_ring_def)
qed (auto intro: pipe_put_holds pipe_get_holds)

section \<open>Moving bytes leaves the pipes alone\<close>

lemma more_pipes: "kmem_state.more s = kmem_state.more t \<Longrightarrow> pipes s = pipes t"
  by (cases s; cases t) simp

lemma copyout_pipes: "copyout u pt va bs s = Ok (r, s') \<Longrightarrow> pipes s' = pipes s"
  by (rule more_pipes) (rule copyout_frame)

lemma copyin_pipes: "copyin u pt va n s = Ok (r, bs, s') \<Longrightarrow> pipes s' = pipes s"
  by (rule more_pipes) (rule copyin_frame)

lemma upd_pipe_simps [simp]:
  "pipes (upd_pipe pi f s) = (pipes s)(pi := f (pipes s pi))" "procs (upd_pipe pi f s) = procs s"
  by (simp_all add: upd_pipe_def)

lemma wakeup_on_pipes [simp]: "pipes (wakeup_on me ch s) = pipes s"
  by (simp add: wakeup_on_def)

section \<open>The loops\<close>

text \<open>The bytes a run of \<open>pipewrite\<close> takes from the user, and those \<open>piperead\<close> hands over.\<close>

function pipewrite_bytes :: "nat \<Rightarrow> u64 \<Rightarrow> u64 \<Rightarrow> nat \<Rightarrow> nat \<Rightarrow> 'z file_state_scheme \<Rightarrow> u8 list" where
  "pipewrite_bytes me pi a i n s =
     (if i < n \<and> readopen (pipes s pi) \<and> pkilled (procs s me) = 0
      then case copyin (uproc_of (procs s me)) (pagetable (procs s me)) (a + of_nat i) 1 s of
             Ok (r, bs, s1) \<Rightarrow>
               if r = -1 then []
               else (case pipe_put (hd bs) (pipes s pi) of
                       None \<Rightarrow> []
                     | Some p \<Rightarrow> hd bs # pipewrite_bytes me pi a (i + 1) n (upd_pipe pi (\<lambda>_. p) s1))
           | _ \<Rightarrow> []
      else [])"
  by pat_completeness auto
termination
  by (relation "measure (\<lambda>(me, pi, a, i, n, s). n - i)") auto

fun piperead_bytes :: "nat \<Rightarrow> u64 \<Rightarrow> u64 \<Rightarrow> nat \<Rightarrow> nat \<Rightarrow> 'z file_state_scheme \<Rightarrow> u8 list" where
  "piperead_bytes me pi a i 0 s = []"
| "piperead_bytes me pi a i (Suc k) s =
     (case pipe_get (pipes s pi) of
        None \<Rightarrow> []
      | Some (c, p) \<Rightarrow>
          (case copyout (uproc_of (procs s me)) (pagetable (procs s me)) (a + of_nat i) [c] s of
             Ok (r, s1) \<Rightarrow> if r = -1 then [] else c # piperead_bytes me pi a (i + 1) k (upd_pipe pi (\<lambda>_. p) s1)
           | _ \<Rightarrow> []))"

declare pipewrite_bytes.simps [simp del] piperead_bytes.simps(2) [simp del]

definition progress :: "(int, nat) wait \<Rightarrow> nat \<Rightarrow> bool" where
  "progress w k \<longleftrightarrow> (case w of Done r \<Rightarrow> r = -1 \<or> r = int k | Asleep j \<Rightarrow> j = k)"

lemma pipewrite_loop_bytes:
  "pipewrite_loop me pi a i n s = Ok (w, s') \<Longrightarrow> pipe_holds (pipes s pi) xs \<Longrightarrow> i \<le> n \<Longrightarrow>
   pipe_holds (pipes s' pi) (xs @ pipewrite_bytes me pi a i n s)
   \<and> progress w (i + length (pipewrite_bytes me pi a i n s))
   \<and> (\<forall>j. w = Asleep j \<longrightarrow> length (xs @ pipewrite_bytes me pi a i n s) = PIPESIZE)"
proof (induction "n - i" arbitrary: i s xs w s')
  case 0
  have n: "n = i" using 0 by simp
  note U = pipewrite_loop.simps[of me pi a i i s] and V = pipewrite_bytes.simps[of me pi a i i s]
  show ?case using 0 by (auto simp: n U V progress_def)
next
  case (Suc d)
  note U = pipewrite_loop.simps[of me pi a i n s] and V = pipewrite_bytes.simps[of me pi a i n s]
  have lt: "i < n" using Suc.hyps(2) by simp
  show ?case
  proof (cases "\<not> readopen (pipes s pi) \<or> pkilled (procs s me) \<noteq> 0")
    case True
    then have "pipewrite_bytes me pi a i n s = []" by (auto simp: V)
    moreover have "w = Done (-1)" "s' = s" using Suc.prems(1) lt True by (auto simp: U)
    ultimately show ?thesis using Suc.prems by (simp add: progress_def)
  next
    case go: False
    show ?thesis
    proof (cases "nwrite (pipes s pi) = nread (pipes s pi) + of_nat PIPESIZE")
      case True
      then have p: "pipe_put c (pipes s pi) = None" for c by (simp add: pipe_put_def)
      have "length xs = PIPESIZE" using True pipe_full[OF Suc.prems(2)] by simp
      moreover have "w = Asleep i" "pipes s' = pipes s"
        using Suc.prems(1) lt go True by (auto simp: U)
      moreover have "pipewrite_bytes me pi a i n s = []"
        using p by (auto simp: V split: res.splits)
      ultimately show ?thesis using Suc.prems by (simp add: progress_def)
    next
      case room: False
      obtain r bs s1 where c: "copyin (uproc_of (procs s me)) (pagetable (procs s me)) (a + of_nat i) 1 s = Ok (r, bs, s1)"
        using Suc.prems(1) lt go room by (auto simp: U res_iff)
      have p1: "pipes s1 = pipes s" using copyin_pipes[OF c] .
      show ?thesis
      proof (cases "r = -1")
        case True
        have "w = Done (int i)" "pipes s' = pipes s"
          using Suc.prems(1) lt go room c True p1 by (auto simp: U)
        moreover have "pipewrite_bytes me pi a i n s = []" using c True by (simp add: V)
        ultimately show ?thesis using Suc.prems by (simp add: progress_def)
      next
        case ok: False
        obtain p where p: "pipe_put (hd bs) (pipes s pi) = Some p" using room by (auto simp: pipe_put_def)
        then have pe: "(pipes s pi)\<lparr>pdata := (pdata (pipes s pi))(unat (nwrite (pipes s pi)) mod PIPESIZE := hd bs),
            nwrite := nwrite (pipes s pi) + 1\<rparr> = p" using room by (simp add: pipe_put_def)
        let ?t = "upd_pipe pi (\<lambda>_. p) s1"
        have "pipewrite_loop me pi a (i + 1) n ?t = Ok (w, s')"
          using Suc.prems(1) lt go room c ok pe p1 by (simp add: U upd_pipe_def)
        moreover have "pipe_holds (pipes ?t pi) (xs @ [hd bs])" using pipe_put_holds[OF Suc.prems(2) p] by simp
        moreover have "pipewrite_bytes me pi a i n s = hd bs # pipewrite_bytes me pi a (i + 1) n ?t"
          using lt go c ok p by (simp add: V)
        ultimately show ?thesis using Suc.hyps(1)[of "i + 1" ?t w s' "xs @ [hd bs]"] Suc.hyps(2) by simp
      qed
    qed
  qed
qed

lemma piperead_copy_bytes:
  "piperead_copy me pi a i k s = Ok (r, s') \<Longrightarrow> pipe_holds (pipes s pi) xs \<Longrightarrow>
   \<exists>ys. xs = piperead_bytes me pi a i k s @ ys \<and> pipe_holds (pipes s' pi) ys
     \<and> (r = int (i + length (piperead_bytes me pi a i k s)) \<or> r = -1 \<and> i = 0 \<and> piperead_bytes me pi a i k s = [])"
proof (induction k arbitrary: i s xs r s')
  case 0
  then show ?case by simp
next
  case (Suc k)
  show ?case
  proof (cases xs)
    case Nil
    then have "pipe_get (pipes s pi) = None" "nread (pipes s pi) = nwrite (pipes s pi)"
      using pipe.get_empty[of "pipes s pi"] Suc.prems(2) by (auto simp: pipe_get_def split: if_splits)
    then show ?thesis using Suc.prems Nil by (auto simp: piperead_bytes.simps)
  next
    case (Cons x zs)
    obtain p where p: "pipe_get (pipes s pi) = Some (x, p)" "pipe_holds p zs"
      using pipe_get_holds Suc.prems(2) Cons by blast
    then have g: "nread (pipes s pi) \<noteq> nwrite (pipes s pi)"
      "pdata (pipes s pi) (unat (nread (pipes s pi)) mod PIPESIZE) = x"
      "(pipes s pi)\<lparr>nread := nread (pipes s pi) + 1\<rparr> = p"
      by (auto simp: pipe_get_def split: if_splits)
    obtain q s1 where c: "copyout (uproc_of (procs s me)) (pagetable (procs s me)) (a + of_nat i) [x] s = Ok (q, s1)"
      using Suc.prems(1) g by (auto simp: res_iff)
    show ?thesis
    proof (cases "q = -1")
      case True
      then show ?thesis using Suc.prems g c p copyout_pipes[OF c]
        by (auto simp: piperead_bytes.simps split: if_splits)
    next
      case False
      let ?t = "upd_pipe pi (\<lambda>_. p) s1"
      have "piperead_copy me pi a (i + 1) k ?t = Ok (r, s')"
        using Suc.prems(1) g c False copyout_pipes[OF c] by (simp add: upd_pipe_def)
      moreover have "pipe_holds (pipes ?t pi) zs" using p by simp
      ultimately obtain ys where "zs = piperead_bytes me pi a (i + 1) k ?t @ ys" "pipe_holds (pipes s' pi) ys"
        "r = int (i + 1 + length (piperead_bytes me pi a (i + 1) k ?t))"
        using Suc.IH[of "i + 1" ?t r s' zs] by fastforce
      moreover have "piperead_bytes me pi a i (Suc k) s = x # piperead_bytes me pi a (i + 1) k ?t"
        using p c False by (simp add: piperead_bytes.simps)
      ultimately show ?thesis using Cons by auto
    qed
  qed
qed

section \<open>Any interleaving\<close>

text \<open>
  The state of the kernel, the bytes put into the pipe so far and the bytes taken out of it. A step
  is a run of \<open>pipewrite\<close> by some process, from any point of its loop up to its return or its
  sleep; a run of \<open>piperead\<close>; or anything else the kernel does that leaves the data and the
  counters of the pipe alone, such as \<open>pipeclose\<close>.
\<close>

type_synonym 'z pipe_run = "'z file_state_scheme \<times> u8 list \<times> u8 list"

inductive pipe_step :: "u64 \<Rightarrow> 'z pipe_run \<Rightarrow> 'z pipe_run \<Rightarrow> bool" for pi :: u64 where
  step_write: "pipewrite_loop me pi a i n s = Ok (w, s') \<Longrightarrow> i \<le> n \<Longrightarrow>
     pipe_step pi (s, ins, outs) (s', ins @ pipewrite_bytes me pi a i n s, outs)"
| step_read: "piperead me pi a n s = Ok (w, s') \<Longrightarrow>
     pipe_step pi (s, ins, outs) (s', ins, outs @ piperead_bytes me pi a 0 (nat n) s)"
| step_other: "pipe_ring (pipes s' pi) = pipe_ring (pipes s pi) \<Longrightarrow> pipe_step pi (s, ins, outs) (s', ins, outs)"

definition pipe_init :: "u64 \<Rightarrow> 'z pipe_run \<Rightarrow> bool" where
  "pipe_init pi = (\<lambda>(s, ins, outs). nread (pipes s pi) = nwrite (pipes s pi) \<and> ins = [] \<and> outs = [])"

definition pipe_run_inv :: "u64 \<Rightarrow> 'z pipe_run \<Rightarrow> bool" where
  "pipe_run_inv pi = (\<lambda>(s, ins, outs). \<exists>xs. pipe_holds (pipes s pi) xs \<and> ins = outs @ xs)"

lemma piperead_holds:
  assumes "piperead me pi a n s = Ok (w, s')" "pipe_holds (pipes s pi) xs"
  shows "\<exists>ys. xs = piperead_bytes me pi a 0 (nat n) s @ ys \<and> pipe_holds (pipes s' pi) ys"
proof (cases "nread (pipes s pi) = nwrite (pipes s pi) \<and> writeopen (pipes s pi)")
  case True
  then have "pipes s' = pipes s" using assms(1) by (auto simp: piperead_def split: if_splits)
  moreover have "piperead_bytes me pi a 0 k s = []" for k
    using True by (cases k) (simp_all add: piperead_bytes.simps pipe_get_def)
  ultimately show ?thesis using assms(2) by simp
next
  case False
  then obtain r s1 where "piperead_copy me pi a 0 (nat n) s = Ok (r, s1)" "pipes s' = pipes s1"
    using assms(1) by (auto simp: piperead_def res_iff split: if_splits)
  then show ?thesis using piperead_copy_bytes[OF _ assms(2)] by fastforce
qed

interpretation pipe_runs: inductive_invariant "pipe_init pi" "pipe_step pi" "pipe_run_inv pi" for pi
proof
  fix s :: "'z pipe_run" assume "pipe_init pi s"
  then show "pipe_run_inv pi s"
    using ring_empty[of PIPESIZE] by (auto simp: pipe_init_def pipe_run_inv_def pipe_holds_def pipe_ring_def)
next
  fix s t :: "'z pipe_run" assume inv: "pipe_run_inv pi s" and st: "pipe_step pi s t"
  from st inv show "pipe_run_inv pi t"
  proof (cases rule: pipe_step.cases)
    case (step_write me a i n u w u' ins outs)
    then obtain xs where "pipe_holds (pipes u pi) xs" "ins = outs @ xs" using inv by (auto simp: pipe_run_inv_def)
    then show ?thesis using pipewrite_loop_bytes[OF step_write(3) _ step_write(4)] step_write
      by (auto simp: pipe_run_inv_def)
  next
    case (step_read me a n u w u' ins outs)
    then obtain xs where "pipe_holds (pipes u pi) xs" "ins = outs @ xs" using inv by (auto simp: pipe_run_inv_def)
    then show ?thesis using piperead_holds[OF step_read(3)] step_read by (fastforce simp: pipe_run_inv_def)
  next
    case (step_other u' u ins outs)
    then show ?thesis using inv by (auto simp: pipe_run_inv_def pipe_holds_def)
  qed
qed

text \<open>
  C7. A pipe is a bounded first-in, first-out channel under every interleaving of its readers,
  writers and the rest of the kernel, from a pipe that is empty: the bytes written are the bytes
  read followed by the bytes in the ring, and the ring never holds more than \<open>PIPESIZE\<close> bytes,
  although the counters wrap around.
\<close>

theorem pipe_fifo:
  assumes "reach (pipe_init pi) (pipe_step pi) (s, ins, outs)"
  shows "ins = outs @ pipe_ring (pipes s pi) \<and> length (pipe_ring (pipes s pi)) \<le> PIPESIZE"
  using pipe_runs.reach_inv[OF assms] by (auto simp: pipe_run_inv_def pipe_holds_def)

section \<open>What a writer gets in\<close>

lemma walk_from_phys: "phys s = phys t \<Longrightarrow> fst (walk_from l pt va False s) = fst (walk_from l pt va False t)"
  by (induction l arbitrary: pt) (simp_all add: Let_def)

lemma walkaddr_phys: "phys s = phys t \<Longrightarrow> walkaddr pt va s = walkaddr pt va t"
  using walk_from_phys[of s t 2 pt va] by (simp add: walkaddr_def Let_def)

text \<open>The byte at a user address that is mapped.\<close>

definition user_byte :: "u64 \<Rightarrow> u64 \<Rightarrow> 'z kmem_state_scheme \<Rightarrow> u8" where
  "user_byte pt a s = phys s (walkaddr pt (PGROUNDDOWN a) s + (a - PGROUNDDOWN a))"

definition mapped :: "u64 \<Rightarrow> u64 \<Rightarrow> 'z kmem_state_scheme \<Rightarrow> bool" where
  "mapped pt a s \<longleftrightarrow> walkaddr pt (PGROUNDDOWN a) s \<noteq> 0"

lemma user_byte_phys: "phys s = phys t \<Longrightarrow> user_byte pt a s = user_byte pt a t \<and> mapped pt a s = mapped pt a t"
  using walkaddr_phys[of s t] by (simp add: user_byte_def mapped_def)

lemma copyin_byte: "mapped pt a s \<Longrightarrow> copyin u pt a 1 s = Ok (0, [user_byte pt a s], s)"
proof -
  assume m: "mapped pt a s"
  have c: "chunk a (Suc 0) = Suc 0" using chunk_pos[of 1 a] chunk_le[of a 1] by simp
  have z: "copyin u pt va 0 s = Ok (0, [], s)" for va by (subst copyin.simps) simp
  show ?thesis using m
    by (subst copyin.simps) (simp add: mapped_def user_byte_def c z Let_def)
qed

lemma upd_pipe_phys [simp]: "phys (upd_pipe pi f s) = phys s" "phys (wakeup_on me ch s) = phys s"
  by (simp_all add: upd_pipe_def wakeup_on_def)

lemma pipewrite_loop_mapped:
  assumes "pipe_holds (pipes s pi) xs" "readopen (pipes s pi)" "pkilled (procs s me) = 0" "i \<le> n"
    and "\<And>k. k < n \<Longrightarrow> mapped (pagetable (procs s me)) (a + of_nat k) s"
    and "j = i + min (n - i) (PIPESIZE - length xs)"
  shows "\<exists>s'. pipewrite_loop me pi a i n s = Ok (if j = n then Done (int n) else Asleep j, s')
      \<and> pipe_holds (pipes s' pi) (xs @ map (\<lambda>k. user_byte (pagetable (procs s me)) (a + of_nat k) s) [i..<j])"
  using assms
proof (induction "n - i" arbitrary: i s xs)
  case 0
  then have n: "n = i" "j = i" by simp_all
  note U = pipewrite_loop.simps[of me pi a i i s]
  show ?case using 0 by (simp add: n U)
next
  case (Suc d)
  note U = pipewrite_loop.simps[of me pi a i n s]
  have lt: "i < n" using Suc.hyps(2) by simp
  have l: "length xs \<le> PIPESIZE" using Suc.prems(1) by (simp add: pipe_holds_def)
  show ?case
  proof (cases "length xs = PIPESIZE")
    case True
    then have "nwrite (pipes s pi) = nread (pipes s pi) + of_nat PIPESIZE" using pipe_full[OF Suc.prems(1)] by simp
    then show ?thesis using Suc.prems lt True by (simp add: U)
  next
    case room: False
    then have nf: "nwrite (pipes s pi) \<noteq> nread (pipes s pi) + of_nat PIPESIZE" using pipe_full[OF Suc.prems(1)] by simp
    let ?c = "user_byte (pagetable (procs s me)) (a + of_nat i) s"
    obtain p where p: "pipe_put ?c (pipes s pi) = Some p" using nf by (auto simp: pipe_put_def)
    then have pe: "(pipes s pi)\<lparr>pdata := (pdata (pipes s pi))(unat (nwrite (pipes s pi)) mod PIPESIZE := ?c),
        nwrite := nwrite (pipes s pi) + 1\<rparr> = p" using nf by (simp add: pipe_put_def)
    let ?t = "upd_pipe pi (\<lambda>_. p) s"
    have run: "pipewrite_loop me pi a i n s = pipewrite_loop me pi a (i + 1) n ?t"
      using lt Suc.prems(2,3) nf copyin_byte[OF Suc.prems(5)[OF lt]] pe by (simp add: U upd_pipe_def)
    have ro: "readopen (pipes ?t pi)" using Suc.prems(2) pe by auto
    have ub: "user_byte pt b ?t = user_byte pt b s" "mapped pt b ?t = mapped pt b s" for pt b
      using user_byte_phys[of ?t s] by simp_all
    have h: "pipe_holds (pipes ?t pi) (xs @ [?c])" using pipe_put_holds[OF Suc.prems(1) p] by simp
    have d: "d = n - (i + 1)" "i + 1 \<le> n" using Suc.hyps(2) by simp_all
    have j: "j = i + 1 + min (n - (i + 1)) (PIPESIZE - length (xs @ [?c]))"
      using Suc.prems(6) lt room l unfolding length_append list.size by linarith
    have m: "mapped (pagetable (procs ?t me)) (a + of_nat k) ?t" if "k < n" for k
      using Suc.prems(5)[OF that] ub by simp
    have k: "pkilled (procs ?t me) = 0" using Suc.prems(3) by simp
    obtain s' where s': "pipewrite_loop me pi a (i + 1) n ?t = Ok (if j = n then Done (int n) else Asleep j, s')"
      "pipe_holds (pipes s' pi) ((xs @ [?c]) @ map (\<lambda>k. user_byte (pagetable (procs ?t me)) (a + of_nat k) ?t) [i + 1..<j])"
      using Suc.hyps(1)[OF d(1) h ro k d(2) m j] by blast
    have "i < j" using j by linarith
    then have "[i..<j] = i # [i + 1..<j]" by (simp add: upt_conv_Cons)
    then show ?thesis using s' ub unfolding run by simp
  qed
qed

text \<open>
  A writer whose buffer is mapped puts in exactly its own bytes, in order: all of them when they
  fit, and then \<open>pipewrite\<close> returns \<open>n\<close>; otherwise as many as there is room for, and then it
  sleeps with that many written.
\<close>

theorem pipewrite_correct:
  assumes "pipe_holds (pipes s pi) xs" "readopen (pipes s pi)" "pkilled (procs s me) = 0"
    and "\<And>k. k < n \<Longrightarrow> mapped (pagetable (procs s me)) (a + of_nat k) s"
  shows "let m = min n (PIPESIZE - length xs)
    in \<exists>s'. pipewrite me pi a (int n) s = Ok (if m = n then Done (int n) else Asleep m, s')
      \<and> pipe_ring (pipes s' pi) = xs @ map (\<lambda>k. user_byte (pagetable (procs s me)) (a + of_nat k) s) [0..<m]"
  using pipewrite_loop_mapped[of s pi xs me 0 n a, OF assms(1-3) le0 assms(4) refl]
  by (auto simp: pipewrite_def Let_def pipe_holds_def)

text \<open>A process with one page mapped at address 0, and an empty pipe open at both ends.\<close>

definition demo_writer :: "kmem_state \<Rightarrow> file_state" where
  "demo_writer m = (undefined :: file_state)\<lparr>phys := phys m,
     procs := \<lambda>_. (undefined :: proc)\<lparr>pkilled := 0, pagetable := 0x80001000\<rparr>,
     pipes := \<lambda>_. \<lparr>pdata = \<lambda>_. 0, nread = 0, nwrite = 0, readopen = True, writeopen = True\<rparr>\<rparr>"

lemma demo_writer_mapped:
  assumes "walkaddr 0x80001000 0 (m :: kmem_state) = 0x80005000"
  shows "k < 2 \<Longrightarrow> mapped (pagetable (procs (demo_writer m) me)) (0 + of_nat k) (demo_writer m)"
proof -
  assume k: "k < (2::nat)"
  have "walkaddr pt va (demo_writer m) = walkaddr pt va m" for pt va
    by (rule walkaddr_phys) (simp add: demo_writer_def)
  moreover have "PGROUNDDOWN (of_nat k) = 0"
    using k by (auto simp: less_2_cases_iff PGROUNDDOWN_def PGSIZE_def)
  ultimately show ?thesis using assms by (simp add: mapped_def demo_writer_def)
qed

lemma demo_writer_pipe: "pipe_holds (pipes (demo_writer m) pi) []"
  by (simp add: demo_writer_def pipe_holds_def pipe_ring_def ring_def)

theorem pipewrite_correct_witness:
  "\<exists>(s :: file_state) s' (b :: nat \<Rightarrow> u8). pipewrite 0 7 0 2 s = Ok (Done 2, s') \<and> pipe_ring (pipes s' 7) = [b 0, b 1]"
proof -
  obtain m :: kmem_state where m: "walkaddr 0x80001000 0 m = 0x80005000"
    using walkaddr_demo by blast
  define b where "b k = user_byte (pagetable (procs (demo_writer m) 0)) (0 + of_nat k) (demo_writer m)" for k :: nat
  have "min 2 (PIPESIZE - length []) = 2" "[0..<2] = [0, 1::nat]" by (simp_all add: PIPESIZE_def upt_conv_Cons)
  then obtain s' where "pipewrite 0 7 0 2 (demo_writer m) = Ok (Done 2, s')" "pipe_ring (pipes s' 7) = [b 0, b 1]"
    using pipewrite_correct[of "demo_writer m" 7 "[]" 0 2 0, OF demo_writer_pipe _ _ demo_writer_mapped[OF m]]
    by (auto simp: Let_def demo_writer_def b_def)
  then show ?thesis by blast
qed

theorem pipe_fifo_witness:
  "\<exists>(s :: file_state) ins outs. reach (pipe_init 7) (pipe_step 7) (s, ins, outs)
     \<and> length ins = 2 \<and> ins = outs @ pipe_ring (pipes s 7)"
proof -
  obtain m :: kmem_state where m: "walkaddr 0x80001000 0 m = 0x80005000"
    using walkaddr_demo by blast
  let ?s = "demo_writer m"
  have "\<exists>s'. pipewrite_loop 0 7 0 0 2 ?s = Ok (Done 2, s')
      \<and> pipe_holds (pipes s' 7) (map (\<lambda>k. user_byte (pagetable (procs ?s 0)) (0 + of_nat k) ?s) [0..<2])"
    using pipewrite_loop_mapped[of ?s 7 "[]" 0 0 2 0 2, OF demo_writer_pipe _ _ _ demo_writer_mapped[OF m]]
    by (fastforce simp: demo_writer_def PIPESIZE_def)
  then obtain s' where s': "pipewrite_loop 0 7 0 0 2 ?s = Ok (Done 2, s')" by blast
  have "reach (pipe_init 7) (pipe_step 7) (?s, [], [])"
    by (rule reach_init) (simp add: pipe_init_def demo_writer_def)
  then have r: "reach (pipe_init 7) (pipe_step 7) (s', [] @ pipewrite_bytes 0 7 0 0 2 ?s, [])"
    by (rule reach_step) (rule pipe_step.step_write[OF s'], simp)
  have "pipe_holds (pipes s' 7) ([] @ pipewrite_bytes 0 7 0 0 2 ?s)" "progress (Done 2) (0 + length (pipewrite_bytes 0 7 0 0 2 ?s))"
    using pipewrite_loop_bytes[OF s' demo_writer_pipe] by auto
  then have "length (pipewrite_bytes 0 7 0 0 2 ?s) = 2" by (simp add: progress_def)
  then show ?thesis using pipe_fifo[OF r] r by fastforce
qed

end
