(* ===== verification/Life.thy ===== *)
theory Life
  imports File
begin

text \<open>
  The life of a process, from \<open>kernel/proc.c\<close>: \<open>userinit\<close>, \<open>kfork\<close>, \<open>kexit\<close>, \<open>reparent\<close> and
  \<open>kwait\<close>. \<open>c\<close> is the CPU and \<open>me\<close> the calling process. The process locks are taken and
  released as in the code; \<open>wait_lock\<close> is held over the whole of \<open>kwait\<close> up to its sleep and
  over the end of \<open>kexit\<close>, so each is one step. Following a null pointer is a fault in the kernel,
  which ends in \<open>panic("kerneltrap")\<close>.
\<close>

definition TRAPFRAME_SIZE :: nat where "TRAPFRAME_SIZE = 288"

text \<open>Fields of \<open>struct trapframe\<close> by their offsets.\<close>

definition get_tf :: "nat \<Rightarrow> u64 \<Rightarrow> 'z proc_state_scheme \<Rightarrow> u64" where
  "get_tf p off s = load64 (phys s) (trapframe (procs s p) + off)"

definition set_tf :: "nat \<Rightarrow> u64 \<Rightarrow> u64 \<Rightarrow> 'z proc_state_scheme \<Rightarrow> 'z proc_state_scheme" where
  "set_tf p off v s = s\<lparr>phys := store64 (phys s) (trapframe (procs s p) + off) v\<rparr>"

definition tf_epc :: u64 where "tf_epc = 24"
definition tf_sp :: u64 where "tf_sp = 48"
definition tf_a0 :: u64 where "tf_a0 = 112"
definition tf_a1 :: u64 where "tf_a1 = 120"
definition tf_a7 :: u64 where "tf_a7 = 168"

definition fault :: "'a res" where "fault = Panic ''kerneltrap''"

definition userinit :: "nat \<Rightarrow> 'z file_state_scheme \<Rightarrow> 'z file_state_scheme res" where
  "userinit c s =
     bindR (allocproc c s) (\<lambda>(found, s1).
       case found of
         None \<Rightarrow> fault
       | Some p \<Rightarrow>
           bindR (namei p [slash] (s1\<lparr>initproc := Some p\<rparr>)) (\<lambda>(ip, s2).
             plock_release c p (upd_proc p (\<lambda>q. q\<lparr>cwd := ip, pstate := RUNNABLE\<rparr>) s2)))"

definition fork_file :: "nat \<Rightarrow> nat \<Rightarrow> nat \<Rightarrow> 'z file_state_scheme \<Rightarrow> 'z file_state_scheme res" where
  "fork_file me np fd s =
     (case ofile (procs s me) fd of
        None \<Rightarrow> Ok s
      | Some f \<Rightarrow> bindR (filedup f s) (\<lambda>s1.
          Ok (upd_proc np (\<lambda>q. q\<lparr>ofile := (ofile q)(fd := Some f)\<rparr>) s1)))"

definition kfork :: "nat \<Rightarrow> nat \<Rightarrow> 'z file_state_scheme \<Rightarrow> (int \<times> 'z file_state_scheme) res" where
  "kfork c me s =
     bindR (allocproc c s) (\<lambda>(found, s1).
       case found of
         None \<Rightarrow> Ok (-1, s1)
       | Some np \<Rightarrow>
         bindR (uvmcopy (pagetable (procs s1 me)) (pagetable (procs s1 np)) (sz (procs s1 me)) s1) (\<lambda>(r, s2).
           if r < 0
           then bindR (freeproc np s2) (\<lambda>s3. bindR (plock_release c np s3) (\<lambda>s4. Ok (-1, s4)))
           else let s3 = upd_proc np (sz_update (\<lambda>_. sz (procs s2 me))) s2;
                    s4 = s3\<lparr>phys := write_bytes (phys s3) (trapframe (procs s3 np))
                                       (read_bytes (phys s3) (trapframe (procs s3 me)) TRAPFRAME_SIZE)\<rparr>;
                    s5 = set_tf np tf_a0 0 s4
                in bindR (iterR (fork_file me np) [0..<NOFILE] s5) (\<lambda>s6.
                   case cwd (procs s6 me) of
                     None \<Rightarrow> fault
                   | Some ip \<Rightarrow>
                     let s7 = upd_proc np (cwd_update (\<lambda>_. Some ip)) (idup ip s6);
                         s8 = upd_proc np (\<lambda>q. q\<lparr>pname := safestrcpy (pname q) (pname (procs s7 me)) 16\<rparr>) s7;
                         newpid = pid (procs s8 np)
                     in bindR (plock_release c np s8) (\<lambda>s9.
                        bindR (plock_acquire c np (upd_proc np (parent_update (\<lambda>_. Some me)) s9)) (\<lambda>s10.
                        bindR (plock_release c np (upd_proc np (pstate_update (\<lambda>_. RUNNABLE)) s10)) (\<lambda>s11.
                          Ok (newpid, s11)))))))"

text \<open>\<open>wakeup\<close> on a process pointer; nothing sleeps on the null pointer.\<close>

definition wakeup_ptr :: "nat \<Rightarrow> nat option \<Rightarrow> 'z proc_state_scheme \<Rightarrow> 'z proc_state_scheme res" where
  "wakeup_ptr c q s = (case q of None \<Rightarrow> Ok s | Some p \<Rightarrow> wakeup c (ChanProc p) s)"

definition reparent_one :: "nat \<Rightarrow> nat \<Rightarrow> nat \<Rightarrow> 'z proc_state_scheme \<Rightarrow> 'z proc_state_scheme res" where
  "reparent_one c p pp s =
     (if parent (procs s pp) = Some p
      then wakeup_ptr c (initproc s) (upd_proc pp (parent_update (\<lambda>_. initproc s)) s)
      else Ok s)"

definition reparent :: "nat \<Rightarrow> nat \<Rightarrow> 'z proc_state_scheme \<Rightarrow> 'z proc_state_scheme res" where
  "reparent c p s = iterR (reparent_one c p) [0..<NPROC] s"

definition exit_file :: "nat \<Rightarrow> nat \<Rightarrow> 'z file_state_scheme \<Rightarrow> 'z file_state_scheme res" where
  "exit_file me fd s =
     (case ofile (procs s me) fd of
        None \<Rightarrow> Ok s
      | Some f \<Rightarrow> bindR (fileclose me f s) (\<lambda>s1.
          Ok (upd_proc me (\<lambda>q. q\<lparr>ofile := (ofile q)(fd := None)\<rparr>) s1)))"

text \<open>\<open>kexit\<close> up to the call of \<open>sched\<close>: \<open>exit_notify\<close> is the part under \<open>wait_lock\<close>.\<close>

definition exit_notify :: "nat \<Rightarrow> nat \<Rightarrow> int \<Rightarrow> 'z proc_state_scheme \<Rightarrow> 'z proc_state_scheme res" where
  "exit_notify c me status s =
     bindR (reparent c me s) (\<lambda>s1.
     bindR (wakeup_ptr c (parent (procs s1 me)) s1) (\<lambda>s2.
     bindR (plock_acquire c me s2) (\<lambda>s3.
       Ok (upd_proc me (\<lambda>q. q\<lparr>xstate := status, pstate := ZOMBIE\<rparr>) s3))))"

definition kexit_body :: "nat \<Rightarrow> nat \<Rightarrow> int \<Rightarrow> 'z file_state_scheme \<Rightarrow> 'z file_state_scheme res" where
  "kexit_body c me status s =
     (if Some me = initproc s then Panic ''init exiting''
      else bindR (iterR (exit_file me) [0..<NOFILE] s) (\<lambda>s1.
           bindR (begin_op s1) (\<lambda>s2.
           case cwd (procs s2 me) of
             None \<Rightarrow> fault
           | Some ip \<Rightarrow>
             bindR (iput me ip s2) (\<lambda>s3.
             bindR (end_op me s3) (\<lambda>s4.
               exit_notify c me status (upd_proc me (cwd_update (\<lambda>_. None)) s4))))))"

definition kexit ::
    "(nat \<Rightarrow> nat \<Rightarrow> 'z file_state_scheme \<Rightarrow> (nat \<times> 'z file_state_scheme) res) \<Rightarrow> nat \<Rightarrow> nat \<Rightarrow> int \<Rightarrow>
     'z file_state_scheme \<Rightarrow> 'a res" where
  "kexit swtch c me status s =
     bindR (kexit_body c me status s) (\<lambda>s1. bindR (sched swtch c me s1) (\<lambda>_. Panic ''zombie exit''))"

text \<open>The scan of \<open>kwait\<close>: the result it returns, if it does, and \<open>havekids\<close>.\<close>

fun kwait_scan :: "nat \<Rightarrow> nat \<Rightarrow> u64 \<Rightarrow> nat list \<Rightarrow> bool \<Rightarrow> 'z proc_state_scheme \<Rightarrow>
    (int option \<times> bool \<times> 'z proc_state_scheme) res" where
  "kwait_scan c me addr [] kids s = Ok (None, kids, s)"
| "kwait_scan c me addr (pp # pps) kids s =
     (if parent (procs s pp) = Some me
      then bindR (plock_acquire c pp s) (\<lambda>s1.
        if pstate (procs s1 pp) = ZOMBIE
        then let childpid = pid (procs s1 pp)
             in bindR (if addr \<noteq> 0
                       then copyout (uproc_of (procs s1 me)) (pagetable (procs s1 me)) addr
                              (le_bytes 4 (word_of_int (xstate (procs s1 pp)))) s1
                       else Ok (0, s1)) (\<lambda>(r, s2).
                  if r < 0 then bindR (plock_release c pp s2) (\<lambda>s3. Ok (Some (-1), True, s3))
                  else bindR (freeproc pp s2) (\<lambda>s3.
                       bindR (plock_release c pp s3) (\<lambda>s4. Ok (Some childpid, True, s4))))
        else bindR (plock_release c pp s1) (kwait_scan c me addr pps True))
      else kwait_scan c me addr pps kids s)"

definition kwait :: "nat \<Rightarrow> nat \<Rightarrow> u64 \<Rightarrow> 'z proc_state_scheme \<Rightarrow> ((int, unit) wait \<times> 'z proc_state_scheme) res" where
  "kwait c me addr s =
     bindR (kwait_scan c me addr [0..<NPROC] False s) (\<lambda>(r, kids, s1).
       case r of
         Some x \<Rightarrow> Ok (Done x, s1)
       | None \<Rightarrow> if \<not> kids \<or> pkilled (procs s1 me) \<noteq> 0 then Ok (Done (-1), s1) else Ok (Asleep (), s1))"

end
