(* ===== verification/Exec.thy ===== *)
theory Exec
  imports Life
begin

text \<open>
  \<open>kernel/exec.c\<close>: loading an ELF file into a new address space and switching the process to it.
  The ELF structures are read at their offsets from the bytes of the file. The strings of \<open>argv\<close>
  are lists of bytes without their NUL. \<open>goto bad\<close> is a \<open>None\<close> or \<open>False\<close> handed up to
  \<open>exec_bad\<close>.
\<close>

definition ELF_MAGIC :: u32 where "ELF_MAGIC = 0x464C457F"
definition ELF_PROG_LOAD :: u32 where "ELF_PROG_LOAD = 1"
definition MAXARG :: nat where "MAXARG = 32"
definition USERSTACK :: u64 where "USERSTACK = 1"

record elfhdr =
  emagic :: u32
  entry :: u64
  phoff :: u64
  phnum :: u16

record proghdr =
  ptype :: u32
  pflags :: u32
  poff :: u64
  vaddr :: u64
  filesz :: u64
  memsz :: u64

definition field :: "u8 list \<Rightarrow> nat \<Rightarrow> nat \<Rightarrow> u64" where
  "field bs off n = le_word (take n (drop off bs))"

definition elfhdr_of :: "u8 list \<Rightarrow> elfhdr" where
  "elfhdr_of bs = \<lparr>emagic = ucast (field bs 0 4), entry = field bs 24 8, phoff = field bs 32 8, phnum = ucast (field bs 56 2)\<rparr>"

definition proghdr_of :: "u8 list \<Rightarrow> proghdr" where
  "proghdr_of bs = \<lparr>ptype = ucast (field bs 0 4), pflags = ucast (field bs 4 4), poff = field bs 8 8,
     vaddr = field bs 16 8, filesz = field bs 32 8, memsz = field bs 40 8\<rparr>"

definition flags2perm :: "u32 \<Rightarrow> u64" where
  "flags2perm flags =
     (let perm = (if flags AND 1 \<noteq> 0 then PTE_X else 0)
      in if flags AND 2 \<noteq> 0 then perm OR PTE_W else perm)"

text \<open>\<open>loadseg\<close>: one page per step.\<close>

fun loadseg_loop :: "nat \<Rightarrow> u64 \<Rightarrow> u64 \<Rightarrow> nat \<Rightarrow> u32 \<Rightarrow> u32 \<Rightarrow> nat list \<Rightarrow> 'z fs_state_scheme \<Rightarrow> (int \<times> 'z fs_state_scheme) res" where
  "loadseg_loop me pt va ip offset len [] s = Ok (0, s)"
| "loadseg_loop me pt va ip offset len (i # ks) s =
     (let pa = walkaddr pt (va + of_nat i) s
      in if pa = 0 then Panic ''loadseg: address should exist''
         else let n = min (unat len - i) 4096
              in bindR (readi me ip False pa (offset + of_nat i) (of_nat n) s) (\<lambda>(r, s1).
                   if r \<noteq> int n then Ok (-1, s1) else loadseg_loop me pt va ip offset len ks s1))"

definition loadseg :: "nat \<Rightarrow> u64 \<Rightarrow> u64 \<Rightarrow> nat \<Rightarrow> u32 \<Rightarrow> u32 \<Rightarrow> 'z fs_state_scheme \<Rightarrow> (int \<times> 'z fs_state_scheme) res" where
  "loadseg me pt va ip offset len s =
     loadseg_loop me pt va ip offset len (map (\<lambda>k. 4096 * k) [0..<(unat len + 4095) div 4096]) s"

text \<open>The loop over the program headers: whether it ended well, and \<open>sz\<close>.\<close>

fun exec_segments :: "nat \<Rightarrow> u64 \<Rightarrow> nat \<Rightarrow> nat \<Rightarrow> u32 \<Rightarrow> u64 \<Rightarrow> 'z fs_state_scheme \<Rightarrow> (bool \<times> u64 \<times> 'z fs_state_scheme) res" where
  "exec_segments me pt ip 0 off len s = Ok (True, len, s)"
| "exec_segments me pt ip (Suc k) off len s =
     bindR (readi_local ip off 56 s) (\<lambda>(r, bs, s1).
       let ph = proghdr_of bs
       in if r \<noteq> 56 then Ok (False, len, s1)
          else if ptype ph \<noteq> ELF_PROG_LOAD then exec_segments me pt ip k (off + 56) len s1
          else if memsz ph < filesz ph \<or> vaddr ph + memsz ph < vaddr ph \<or> vaddr ph mod PGSIZE \<noteq> 0
          then Ok (False, len, s1)
          else bindR (uvmalloc pt len (vaddr ph + memsz ph) (flags2perm (pflags ph)) s1) (\<lambda>(sz1, s2).
               if sz1 = 0 then Ok (False, len, s2)
               else bindR (loadseg me pt (vaddr ph) ip (ucast (poff ph)) (ucast (filesz ph)) s2) (\<lambda>(q, s3).
                    if q < 0 then Ok (False, sz1, s3) else exec_segments me pt ip k (off + 56) sz1 s3)))"

text \<open>Pushing the argument strings: the stack pointer and their addresses.\<close>

fun exec_args :: "nat \<Rightarrow> u64 \<Rightarrow> u64 \<Rightarrow> u8 list list \<Rightarrow> u64 \<Rightarrow> u64 list \<Rightarrow> 'z fs_state_scheme \<Rightarrow>
    ((u64 \<times> u64 list) option \<times> 'z fs_state_scheme) res" where
  "exec_args me pt stackbase [] stk us s = Ok (Some (stk, us), s)"
| "exec_args me pt stackbase (a # args) stk us s =
     (if length us \<ge> MAXARG then Ok (None, s)
      else let sp1 = stk - of_nat (length a + 1);
               sp2 = sp1 - sp1 mod 16
           in if sp2 < stackbase then Ok (None, s)
              else bindR (copyout (uproc_of (procs s me)) pt sp2 (a @ [0]) s) (\<lambda>(r, s1).
                   if r < 0 then Ok (None, s1) else exec_args me pt stackbase args sp2 (us @ [sp2]) s1))"

text \<open>Stack page, arguments, and the array of their addresses; \<open>None\<close> is \<open>goto bad\<close>.\<close>

definition exec_stack :: "nat \<Rightarrow> u64 \<Rightarrow> u8 list list \<Rightarrow> u64 \<Rightarrow> 'z fs_state_scheme \<Rightarrow> (u64 option \<times> u64 \<times> 'z fs_state_scheme) res" where
  "exec_stack me pt argv len s =
     (let sz0 = PGROUNDUP len
      in bindR (uvmalloc pt sz0 (sz0 + (USERSTACK + 1) * PGSIZE) PTE_W s) (\<lambda>(sz1, s1).
         if sz1 = 0 then Ok (None, sz0, s1)
         else bindR (uvmclear pt (sz1 - (USERSTACK + 1) * PGSIZE) s1) (\<lambda>s2.
              let stackbase = sz1 - USERSTACK * PGSIZE
              in bindR (exec_args me pt stackbase argv sz1 [] s2) (\<lambda>(r, s3).
                 case r of
                   None \<Rightarrow> Ok (None, sz1, s3)
                 | Some (sp1, us) \<Rightarrow>
                     let sp2 = sp1 - of_nat ((length us + 1) * 8);
                         sp3 = sp2 - sp2 mod 16
                     in if sp3 < stackbase then Ok (None, sz1, s3)
                        else bindR (copyout (uproc_of (procs s3 me)) pt sp3 (concat (map (le_bytes 8) (us @ [0]))) s3) (\<lambda>(q, s4).
                             if q < 0 then Ok (None, sz1, s4) else Ok (Some sp3, sz1, s4))))))"

definition last_elem :: "u8 list \<Rightarrow> u8 list" where
  "last_elem path = rev (takeWhile (\<lambda>c. c \<noteq> slash) (rev path))"

definition exec_bad :: "nat \<Rightarrow> u64 \<Rightarrow> u64 \<Rightarrow> nat option \<Rightarrow> 'z fs_state_scheme \<Rightarrow> (int \<times> 'z fs_state_scheme) res" where
  "exec_bad me pt len ip s =
     bindR (if pt \<noteq> 0 then proc_freepagetable pt len s else Ok s) (\<lambda>s1.
     case ip of
       None \<Rightarrow> Ok (-1, s1)
     | Some i \<Rightarrow> bindR (iunlockput me i s1) (\<lambda>s2. bindR (end_op me s2) (\<lambda>s3. Ok (-1, s3))))"

text \<open>Switching the process to the new image.\<close>

definition exec_commit :: "nat \<Rightarrow> u8 list \<Rightarrow> u64 \<Rightarrow> u64 \<Rightarrow> u64 \<Rightarrow> u64 \<Rightarrow> nat \<Rightarrow> 'z fs_state_scheme \<Rightarrow> (int \<times> 'z fs_state_scheme) res" where
  "exec_commit me path pt len stk start argc s =
     (let oldsz = sz (procs s me);
          oldpt = pagetable (procs s me);
          s1 = set_tf me tf_a1 stk s;
          s2 = upd_proc me (\<lambda>q. q\<lparr>pname := safestrcpy (pname q) (cbytes (last_elem path)) 16,
                                  pagetable := pt, sz := len\<rparr>) s1;
          s3 = set_tf me tf_sp stk (set_tf me tf_epc start s2)
      in bindR (proc_freepagetable oldpt oldsz s3) (\<lambda>s4. Ok (int argc, s4)))"

definition kexec :: "nat \<Rightarrow> u8 list \<Rightarrow> u8 list list \<Rightarrow> 'z fs_state_scheme \<Rightarrow> (int \<times> 'z fs_state_scheme) res" where
  "kexec me path argv s =
     bindR (begin_op s) (\<lambda>s1.
     bindR (namei me path s1) (\<lambda>(found, s2).
     case found of
       None \<Rightarrow> bindR (end_op me s2) (\<lambda>s3. Ok (-1, s3))
     | Some ip \<Rightarrow>
       bindR (ilock me ip s2) (\<lambda>s3.
       bindR (readi_local ip 0 64 s3) (\<lambda>(r, bs, s4).
       let elf = elfhdr_of bs
       in if r \<noteq> 64 \<or> emagic elf \<noteq> ELF_MAGIC then exec_bad me 0 0 (Some ip) s4
          else bindR (proc_pagetable me s4) (\<lambda>(pt, s5).
               if pt = 0 then exec_bad me 0 0 (Some ip) s5
               else bindR (exec_segments me pt ip (unat (phnum elf)) (ucast (phoff elf)) 0 s5) (\<lambda>(good, len, s6).
                    if \<not> good then exec_bad me pt len (Some ip) s6
                    else bindR (iunlockput me ip s6) (\<lambda>s7.
                         bindR (end_op me s7) (\<lambda>s8.
                         bindR (exec_stack me pt argv len s8) (\<lambda>(stk, len', s9).
                           case stk of
                             None \<Rightarrow> exec_bad me pt len' None s9
                           | Some stk' \<Rightarrow> exec_commit me path pt len' stk' (entry elf) (length argv) s9)))))))))"

end
