(* ===== verification/Sysfile.thy ===== *)
theory Sysfile
  imports Exec
begin

text \<open>
  System call arguments (\<open>kernel/syscall.c\<close>) and the file system calls (\<open>kernel/sysfile.c\<close>). A
  handler runs for process \<open>me\<close> and returns the value that goes to \<open>a0\<close>; \<open>-1\<close> as an unsigned 64-bit
  number is \<open>neg1\<close>. A call that has to wait is \<open>Hang\<close>.
\<close>

definition MAXPATH :: nat where "MAXPATH = 128"
definition O_WRONLY :: u32 where "O_WRONLY = 1"
definition O_RDWR :: u32 where "O_RDWR = 2"
definition O_CREATE :: u32 where "O_CREATE = 0x200"
definition O_TRUNC :: u32 where "O_TRUNC = 0x400"
definition O_RDONLY :: u32 where "O_RDONLY = 0"

abbreviation neg1 :: u64 where "neg1 \<equiv> - 1"

section \<open>Arguments\<close>

definition fetchaddr :: "nat \<Rightarrow> u64 \<Rightarrow> 'z proc_state_scheme \<Rightarrow> (u64 option \<times> 'z proc_state_scheme) res" where
  "fetchaddr me addr s =
     (let p = procs s me
      in if addr \<ge> sz p \<or> addr + 8 > sz p then Ok (None, s)
         else bindR (copyin (uproc_of p) (pagetable p) addr 8 s) (\<lambda>(r, bs, s1).
                Ok (if r \<noteq> 0 then None else Some (le_word bs), s1)))"

text \<open>The string without its NUL, or an error.\<close>

definition fetchstr :: "nat \<Rightarrow> u64 \<Rightarrow> nat \<Rightarrow> 'z proc_state_scheme \<Rightarrow> u8 list option" where
  "fetchstr me addr max_len s = map_option butlast (copyinstr (pagetable (procs s me)) addr max_len s)"

definition argraw :: "nat \<Rightarrow> nat \<Rightarrow> 'z proc_state_scheme \<Rightarrow> u64 res" where
  "argraw me n s = (if n \<le> 5 then Ok (get_tf me (tf_a0 + 8 * of_nat n) s) else Panic ''argraw'')"

definition argaddr :: "nat \<Rightarrow> nat \<Rightarrow> 'z proc_state_scheme \<Rightarrow> u64" where
  "argaddr me n s = get_tf me (tf_a0 + 8 * of_nat n) s"

definition argint :: "nat \<Rightarrow> nat \<Rightarrow> 'z proc_state_scheme \<Rightarrow> int" where
  "argint me n s = sint (ucast (argaddr me n s) :: u32)"

definition argstr :: "nat \<Rightarrow> nat \<Rightarrow> 'z proc_state_scheme \<Rightarrow> u8 list option" where
  "argstr me n s = fetchstr me (argaddr me n s) MAXPATH s"

definition argfd :: "nat \<Rightarrow> nat \<Rightarrow> 'z proc_state_scheme \<Rightarrow> (nat \<times> nat) option" where
  "argfd me n s =
     (let fd = argint me n s
      in if fd < 0 \<or> fd \<ge> int NOFILE then None
         else map_option (\<lambda>f. (nat fd, f)) (ofile (procs s me) (nat fd)))"

definition set_fd :: "nat \<Rightarrow> nat \<Rightarrow> nat option \<Rightarrow> 'z proc_state_scheme \<Rightarrow> 'z proc_state_scheme" where
  "set_fd me fd f = upd_proc me (\<lambda>q. q\<lparr>ofile := (ofile q)(fd := f)\<rparr>)"

definition fdalloc :: "nat \<Rightarrow> nat \<Rightarrow> 'z proc_state_scheme \<Rightarrow> nat option \<times> 'z proc_state_scheme" where
  "fdalloc me f s =
     (case List.find (\<lambda>fd. ofile (procs s me) fd = None) [0..<NOFILE] of
        None \<Rightarrow> (None, s)
      | Some fd \<Rightarrow> (Some fd, set_fd me fd (Some f) s))"

section \<open>Calls on descriptors\<close>

definition sys_dup :: "nat \<Rightarrow> 'z file_state_scheme \<Rightarrow> (u64 \<times> 'z file_state_scheme) res" where
  "sys_dup me s =
     (case argfd me 0 s of
        None \<Rightarrow> Ok (neg1, s)
      | Some (_, f) \<Rightarrow>
          (case fdalloc me f s of
             (None, s1) \<Rightarrow> Ok (neg1, s1)
           | (Some fd, s1) \<Rightarrow> bindR (filedup f s1) (\<lambda>s2. Ok (of_nat fd, s2))))"

definition sys_read :: "nat \<Rightarrow> 'z file_state_scheme \<Rightarrow> (u64 \<times> 'z file_state_scheme) res" where
  "sys_read me s =
     (case argfd me 0 s of
        None \<Rightarrow> Ok (neg1, s)
      | Some (_, f) \<Rightarrow> bindR (fileread me f (argaddr me 1 s) (argint me 2 s) s) (\<lambda>(r, s1). Ok (word_of_int r, s1)))"

definition sys_write :: "nat \<Rightarrow> 'z file_state_scheme \<Rightarrow> (u64 \<times> 'z file_state_scheme) res" where
  "sys_write me s =
     (case argfd me 0 s of
        None \<Rightarrow> Ok (neg1, s)
      | Some (_, f) \<Rightarrow> bindR (filewrite me f (argaddr me 1 s) (argint me 2 s) s) (\<lambda>(r, s1). Ok (word_of_int r, s1)))"

definition sys_close :: "nat \<Rightarrow> 'z file_state_scheme \<Rightarrow> (u64 \<times> 'z file_state_scheme) res" where
  "sys_close me s =
     (case argfd me 0 s of
        None \<Rightarrow> Ok (neg1, s)
      | Some (fd, f) \<Rightarrow> bindR (fileclose me f (set_fd me fd None s)) (\<lambda>s1. Ok (0, s1)))"

definition sys_fstat :: "nat \<Rightarrow> stat \<Rightarrow> 'z file_state_scheme \<Rightarrow> (u64 \<times> 'z file_state_scheme) res" where
  "sys_fstat me st0 s =
     (case argfd me 0 s of
        None \<Rightarrow> Ok (neg1, s)
      | Some (_, f) \<Rightarrow> bindR (filestat me st0 f (argaddr me 1 s) s) (\<lambda>(r, s1). Ok (word_of_int r, s1)))"

section \<open>Links\<close>

text \<open>Leave with \<open>-1\<close>: unlock and put the inode, if any, and end the transaction.\<close>

definition fail_put :: "nat \<Rightarrow> nat \<Rightarrow> 'z fs_state_scheme \<Rightarrow> (u64 \<times> 'z fs_state_scheme) res" where
  "fail_put me ip s = bindR (iunlockput me ip s) (\<lambda>s1. bindR (end_op me s1) (\<lambda>s2. Ok (neg1, s2)))"

definition fail_op :: "nat \<Rightarrow> 'z fs_state_scheme \<Rightarrow> (u64 \<times> 'z fs_state_scheme) res" where
  "fail_op me s = bindR (end_op me s) (\<lambda>s1. Ok (neg1, s1))"

definition add_nlink :: "nat \<Rightarrow> u16 \<Rightarrow> 'z fs_state_scheme \<Rightarrow> 'z fs_state_scheme" where
  "add_nlink ip d = upd_inode ip (icopy_update (\<lambda>x. x\<lparr>dnlink := dnlink x + d\<rparr>))"

definition link_bad :: "nat \<Rightarrow> nat \<Rightarrow> 'z fs_state_scheme \<Rightarrow> (u64 \<times> 'z fs_state_scheme) res" where
  "link_bad me ip s =
     bindR (ilock me ip s) (\<lambda>s1.
     bindR (iupdate ip (add_nlink ip (- 1) s1)) (fail_put me ip))"

definition sys_link :: "nat \<Rightarrow> 'z fs_state_scheme \<Rightarrow> (u64 \<times> 'z fs_state_scheme) res" where
  "sys_link me s =
     (case (argstr me 0 s, argstr me 1 s) of
        (Some old, Some new) \<Rightarrow>
          bindR (begin_op s) (\<lambda>s1.
          bindR (namei me old s1) (\<lambda>(found, s2).
          case found of
            None \<Rightarrow> fail_op me s2
          | Some ip \<Rightarrow>
            bindR (ilock me ip s2) (\<lambda>s3.
            if dtype (icopy (inodes s3 ip)) = T_DIR then fail_put me ip s3
            else bindR (iupdate ip (add_nlink ip 1 s3)) (\<lambda>s4.
                 bindR (iunlock me ip s4) (\<lambda>s5.
                 bindR (nameiparent me new s5) (\<lambda>(par, s6).
                 case par of
                   None \<Rightarrow> link_bad me ip s6
                 | Some (dp, name) \<Rightarrow>
                   bindR (ilock me dp s6) (\<lambda>s7.
                   bindR (if idev (inodes s7 dp) \<noteq> idev (inodes s7 ip) then Ok (-1, s7)
                          else dirlink me dp name (inum (inodes s7 ip)) s7) (\<lambda>(r, s8).
                   bindR (iunlockput me dp s8) (\<lambda>s9.
                     if r < 0 then link_bad me ip s9
                     else bindR (iput me ip s9) (\<lambda>s10.
                          bindR (end_op me s10) (\<lambda>s11. Ok (0, s11))))))))))))
      | _ \<Rightarrow> Ok (neg1, s))"

fun dir_empty_loop :: "nat \<Rightarrow> nat list \<Rightarrow> 'z fs_state_scheme \<Rightarrow> (bool \<times> 'z fs_state_scheme) res" where
  "dir_empty_loop dp [] s = Ok (True, s)"
| "dir_empty_loop dp (off # offs) s =
     bindR (readi_local dp (of_nat off) 16 s) (\<lambda>(r, de, s1).
       if r \<noteq> 16 then Panic ''isdirempty: readi''
       else if de_inum de \<noteq> 0 then Ok (False, s1) else dir_empty_loop dp offs s1)"

definition isdirempty :: "nat \<Rightarrow> 'z fs_state_scheme \<Rightarrow> (bool \<times> 'z fs_state_scheme) res" where
  "isdirempty dp s = dir_empty_loop dp (drop 2 (dir_offsets (dsize (icopy (inodes s dp))))) s"

definition sys_unlink :: "nat \<Rightarrow> 'z fs_state_scheme \<Rightarrow> (u64 \<times> 'z fs_state_scheme) res" where
  "sys_unlink me s =
     (case argstr me 0 s of
        None \<Rightarrow> Ok (neg1, s)
      | Some path \<Rightarrow>
        bindR (begin_op s) (\<lambda>s1.
        bindR (nameiparent me path s1) (\<lambda>(par, s2).
        case par of
          None \<Rightarrow> fail_op me s2
        | Some (dp, name) \<Rightarrow>
          bindR (ilock me dp s2) (\<lambda>s3.
          if namecmp (cbytes name) (cbytes [46]) = 0 \<or> namecmp (cbytes name) (cbytes [46, 46]) = 0
          then fail_put me dp s3
          else bindR (dirlookup dp name s3) (\<lambda>(found, s4).
          case found of
            None \<Rightarrow> fail_put me dp s4
          | Some (ip, off) \<Rightarrow>
            bindR (ilock me ip s4) (\<lambda>s5.
            if sint (dnlink (icopy (inodes s5 ip))) < 1 then Panic ''unlink: nlink < 1''
            else bindR (if dtype (icopy (inodes s5 ip)) = T_DIR then isdirempty ip s5 else Ok (True, s5)) (\<lambda>(vacant, s6).
            if \<not> vacant then bindR (iunlockput me ip s6) (fail_put me dp)
            else bindR (writei_local dp (replicate 16 0) off s6) (\<lambda>(r, s7).
            if r \<noteq> 16 then Panic ''unlink: writei''
            else bindR (if dtype (icopy (inodes s7 ip)) = T_DIR then iupdate dp (add_nlink dp (- 1) s7) else Ok s7) (\<lambda>s8.
                 bindR (iunlockput me dp s8) (\<lambda>s9.
                 bindR (iupdate ip (add_nlink ip (- 1) s9)) (\<lambda>s10.
                 bindR (iunlockput me ip s10) (\<lambda>s11.
                 bindR (end_op me s11) (\<lambda>s12. Ok (0, s12))))))))))))))"

section \<open>Creating and opening\<close>

definition create_fail :: "nat \<Rightarrow> nat \<Rightarrow> nat \<Rightarrow> 'z fs_state_scheme \<Rightarrow> (nat option \<times> 'z fs_state_scheme) res" where
  "create_fail me dp ip s =
     bindR (iupdate ip (upd_inode ip (icopy_update (dnlink_update (\<lambda>_. 0))) s)) (\<lambda>s1.
     bindR (iunlockput me ip s1) (\<lambda>s2.
     bindR (iunlockput me dp s2) (\<lambda>s3. Ok (None, s3))))"

definition create_entries :: "nat \<Rightarrow> nat \<Rightarrow> nat \<Rightarrow> 'z fs_state_scheme \<Rightarrow> (bool \<times> 'z fs_state_scheme) res" where
  "create_entries me dp ip s =
     bindR (dirlink me ip [46] (inum (inodes s ip)) s) (\<lambda>(r, s1).
       if r < 0 then Ok (False, s1)
       else bindR (dirlink me ip [46, 46] (inum (inodes s1 dp)) s1) (\<lambda>(q, s2). Ok (\<not> q < 0, s2)))"

definition create :: "nat \<Rightarrow> u8 list \<Rightarrow> u16 \<Rightarrow> u16 \<Rightarrow> u16 \<Rightarrow> 'z fs_state_scheme \<Rightarrow> (nat option \<times> 'z fs_state_scheme) res" where
  "create me path ty maj mnr s =
     bindR (nameiparent me path s) (\<lambda>(par, s1).
     case par of
       None \<Rightarrow> Ok (None, s1)
     | Some (dp, name) \<Rightarrow>
       bindR (ilock me dp s1) (\<lambda>s2.
       bindR (dirlookup dp name s2) (\<lambda>(found, s3).
       case found of
         Some (ip, _) \<Rightarrow>
           bindR (iunlockput me dp s3) (\<lambda>s4.
           bindR (ilock me ip s4) (\<lambda>s5.
             if ty = T_FILE \<and> (dtype (icopy (inodes s5 ip)) = T_FILE \<or> dtype (icopy (inodes s5 ip)) = T_DEVICE)
             then Ok (Some ip, s5)
             else bindR (iunlockput me ip s5) (\<lambda>s6. Ok (None, s6))))
       | None \<Rightarrow>
           bindR (ialloc (idev (inodes s3 dp)) ty s3) (\<lambda>(new, s4).
           case new of
             None \<Rightarrow> bindR (iunlockput me dp s4) (\<lambda>s5. Ok (None, s5))
           | Some ip \<Rightarrow>
             bindR (ilock me ip s4) (\<lambda>s5.
             bindR (iupdate ip (upd_inode ip (icopy_update (\<lambda>d. d\<lparr>dmajor := maj, dminor := mnr, dnlink := 1\<rparr>)) s5)) (\<lambda>s6.
             bindR (if ty = T_DIR then create_entries me dp ip s6 else Ok (True, s6)) (\<lambda>(good, s7).
             if \<not> good then create_fail me dp ip s7
             else bindR (dirlink me dp name (inum (inodes s7 ip)) s7) (\<lambda>(r, s8).
                  if r < 0 then create_fail me dp ip s8
                  else bindR (if ty = T_DIR then iupdate dp (add_nlink dp 1 s8) else Ok s8) (\<lambda>s9.
                       bindR (iunlockput me dp s9) (\<lambda>s10. Ok (Some ip, s10)))))))))))"

text \<open>\<open>sys_open\<close> once the inode is found and locked.\<close>

definition open_inode :: "nat \<Rightarrow> u32 \<Rightarrow> nat \<Rightarrow> 'z file_state_scheme \<Rightarrow> (u64 \<times> 'z file_state_scheme) res" where
  "open_inode me omode ip s =
     (let d = icopy (inodes s ip)
      in if dtype d = T_DEVICE \<and> (sint (dmajor d) < 0 \<or> sint (dmajor d) \<ge> NDEV) then fail_put me ip s
         else case filealloc s of
                (None, s1) \<Rightarrow> fail_put me ip s1
              | (Some f, s1) \<Rightarrow>
                 (case fdalloc me f s1 of
                    (None, s2) \<Rightarrow> bindR (fileclose me f s2) (fail_put me ip)
                  | (Some fd, s2) \<Rightarrow>
                     let s3 = upd_file f (\<lambda>x.
                           (if dtype d = T_DEVICE then x\<lparr>fkind := FD_DEVICE, fmajor := dmajor d\<rparr>
                            else x\<lparr>fkind := FD_INODE, foff := 0\<rparr>)
                           \<lparr>fip := ip, readable := (omode AND O_WRONLY = 0),
                            writable := (omode AND O_WRONLY \<noteq> 0 \<or> omode AND O_RDWR \<noteq> 0)\<rparr>) s2
                     in bindR (if omode AND O_TRUNC \<noteq> 0 \<and> dtype d = T_FILE then itrunc ip s3 else Ok s3) (\<lambda>s4.
                        bindR (iunlock me ip s4) (\<lambda>s5.
                        bindR (end_op me s5) (\<lambda>s6. Ok (of_nat fd, s6))))))"

definition sys_open :: "nat \<Rightarrow> 'z file_state_scheme \<Rightarrow> (u64 \<times> 'z file_state_scheme) res" where
  "sys_open me s =
     (case argstr me 0 s of
        None \<Rightarrow> Ok (neg1, s)
      | Some path \<Rightarrow>
        let omode = ucast (argaddr me 1 s)
        in bindR (begin_op s) (\<lambda>s1.
           if omode AND O_CREATE \<noteq> 0
           then bindR (create me path T_FILE 0 0 s1) (\<lambda>(new, s2).
                  case new of None \<Rightarrow> fail_op me s2 | Some ip \<Rightarrow> open_inode me omode ip s2)
           else bindR (namei me path s1) (\<lambda>(found, s2).
                  case found of
                    None \<Rightarrow> fail_op me s2
                  | Some ip \<Rightarrow> bindR (ilock me ip s2) (\<lambda>s3.
                      if dtype (icopy (inodes s3 ip)) = T_DIR \<and> omode \<noteq> O_RDONLY then fail_put me ip s3
                      else open_inode me omode ip s3))))"

text \<open>\<open>sys_mkdir\<close> and \<open>sys_mknod\<close> after their arguments.\<close>

definition make_node :: "nat \<Rightarrow> u8 list option \<Rightarrow> u16 \<Rightarrow> u16 \<Rightarrow> u16 \<Rightarrow> 'z fs_state_scheme \<Rightarrow> (u64 \<times> 'z fs_state_scheme) res" where
  "make_node me path ty maj mnr s =
     (case path of
        None \<Rightarrow> fail_op me s
      | Some p \<Rightarrow>
        bindR (create me p ty maj mnr s) (\<lambda>(new, s1).
        case new of
          None \<Rightarrow> fail_op me s1
        | Some ip \<Rightarrow> bindR (iunlockput me ip s1) (\<lambda>s2. bindR (end_op me s2) (\<lambda>s3. Ok (0, s3)))))"

definition sys_mkdir :: "nat \<Rightarrow> 'z fs_state_scheme \<Rightarrow> (u64 \<times> 'z fs_state_scheme) res" where
  "sys_mkdir me s = bindR (begin_op s) (\<lambda>s1. make_node me (argstr me 0 s1) T_DIR 0 0 s1)"

definition sys_mknod :: "nat \<Rightarrow> 'z fs_state_scheme \<Rightarrow> (u64 \<times> 'z fs_state_scheme) res" where
  "sys_mknod me s =
     bindR (begin_op s) (\<lambda>s1.
       make_node me (argstr me 0 s1) T_DEVICE (ucast (argaddr me 1 s1)) (ucast (argaddr me 2 s1)) s1)"

definition sys_chdir :: "nat \<Rightarrow> 'z fs_state_scheme \<Rightarrow> (u64 \<times> 'z fs_state_scheme) res" where
  "sys_chdir me s =
     bindR (begin_op s) (\<lambda>s1.
     case argstr me 0 s1 of
       None \<Rightarrow> fail_op me s1
     | Some path \<Rightarrow>
       bindR (namei me path s1) (\<lambda>(found, s2).
       case found of
         None \<Rightarrow> fail_op me s2
       | Some ip \<Rightarrow>
         bindR (ilock me ip s2) (\<lambda>s3.
         if dtype (icopy (inodes s3 ip)) \<noteq> T_DIR then fail_put me ip s3
         else bindR (iunlock me ip s3) (\<lambda>s4.
              case cwd (procs s4 me) of
                None \<Rightarrow> fault
              | Some old \<Rightarrow>
                bindR (iput me old s4) (\<lambda>s5.
                bindR (end_op me s5) (\<lambda>s6. Ok (0, upd_proc me (cwd_update (\<lambda>_. Some ip)) s6)))))))"

section \<open>exec and pipe\<close>

text \<open>The loop of \<open>sys_exec\<close> that fetches \<open>argv\<close>: \<open>k\<close> slots are left; the pages allocated so far with
  the strings in them, and whether the loop ended well.\<close>

fun fetch_argv :: "nat \<Rightarrow> u64 \<Rightarrow> nat \<Rightarrow> (u64 \<times> u8 list) list \<Rightarrow> 'z proc_state_scheme \<Rightarrow>
    (bool \<times> (u64 \<times> u8 list) list \<times> 'z proc_state_scheme) res" where
  "fetch_argv me ua 0 acc s = Ok (False, acc, s)"
| "fetch_argv me ua (Suc k) acc s =
     bindR (fetchaddr me ua s) (\<lambda>(r, s1).
     case r of
       None \<Rightarrow> Ok (False, acc, s1)
     | Some uarg \<Rightarrow>
       if uarg = 0 then Ok (True, acc, s1)
       else let (page, s2) = kalloc s1
            in if page = 0 then Ok (False, acc, s2)
               else case fetchstr me uarg 4096 s2 of
                      None \<Rightarrow> Ok (False, acc @ [(page, [])], s2)
                    | Some str \<Rightarrow> fetch_argv me (ua + 8) k (acc @ [(page, str)])
                        (s2\<lparr>phys := write_bytes (phys s2) page (str @ [0])\<rparr>))"

definition sys_exec :: "nat \<Rightarrow> 'z fs_state_scheme \<Rightarrow> (u64 \<times> 'z fs_state_scheme) res" where
  "sys_exec me s =
     (case argstr me 0 s of
        None \<Rightarrow> Ok (neg1, s)
      | Some path \<Rightarrow>
        bindR (fetch_argv me (argaddr me 1 s) MAXARG [] s) (\<lambda>(good, args, s1).
        bindR (if good then kexec me path (map snd args) s1 else Ok (-1, s1)) (\<lambda>(r, s2).
        bindR (iterR kfree (map fst args) s2) (\<lambda>s3. Ok (word_of_int r, s3)))))"

definition pipe_fail :: "nat \<Rightarrow> nat list \<Rightarrow> nat \<Rightarrow> nat \<Rightarrow> 'z file_state_scheme \<Rightarrow> (u64 \<times> 'z file_state_scheme) res" where
  "pipe_fail me fds rf wrf s =
     bindR (fileclose me rf (fold (\<lambda>fd. set_fd me fd None) fds s)) (\<lambda>s1.
     bindR (fileclose me wrf s1) (\<lambda>s2. Ok (neg1, s2)))"

definition sys_pipe :: "nat \<Rightarrow> 'z file_state_scheme \<Rightarrow> (u64 \<times> 'z file_state_scheme) res" where
  "sys_pipe me s =
     bindR (pipealloc me s) (\<lambda>(r, s1).
     case r of
       None \<Rightarrow> Ok (neg1, s1)
     | Some (rf, wrf) \<Rightarrow>
       (case fdalloc me rf s1 of
          (None, s2) \<Rightarrow> pipe_fail me [] rf wrf s2
        | (Some fd0, s2) \<Rightarrow>
          (case fdalloc me wrf s2 of
             (None, s3) \<Rightarrow> pipe_fail me [fd0] rf wrf s3
           | (Some fd1, s3) \<Rightarrow>
             let arr = argaddr me 0 s;
                 out = (\<lambda>a fd t. copyout (uproc_of (procs t me)) (pagetable (procs t me)) a (le_bytes 4 (of_nat fd)) t)
             in bindR (out arr fd0 s3) (\<lambda>(q, s4).
                if q < 0 then pipe_fail me [fd0, fd1] rf wrf s4
                else bindR (out (arr + 4) fd1 s4) (\<lambda>(q', s5).
                     if q' < 0 then pipe_fail me [fd0, fd1] rf wrf s5 else Ok (0, s5))))))"

end
