(* ===== verification/Virtio.thy ===== *)
theory Virtio
  imports File
begin

text \<open>
  The disk driver, \<open>kernel/virtio_disk.c\<close>. The device is seen through the structures the driver
  shares with it: the descriptor table, the ring of available chains, which the driver writes, and
  the ring of used chains with its index, which the device writes. The address in a descriptor
  names the object it points to. A buffer is named by its index in the cache; \<open>bdisk_busy\<close> is
  \<open>b->disk\<close>. \<open>vdisk_lock\<close> is held over every operation up to its sleep, so \<open>virtio_disk_rw\<close> is
  two steps: up to the wait for the device, and from the wakeup on.
\<close>

definition NUM :: nat where "NUM = 8"
definition VRING_DESC_F_NEXT :: u16 where "VRING_DESC_F_NEXT = 1"
definition VRING_DESC_F_WRITE :: u16 where "VRING_DESC_F_WRITE = 2"

datatype target = Nowhere | OpHeader nat | BufData nat | StatusByte nat

record virtq_desc =
  daddr :: target
  dlen :: u32
  dflags :: u16
  dnext :: nat

record virtio_blk_req =
  req_write :: bool
  req_sector :: u64

record vdisk =
  desc :: "nat \<Rightarrow> virtq_desc"
  avail_ring :: "nat \<Rightarrow> nat"
  avail_idx :: u16
  used_ring :: "nat \<Rightarrow> nat"
  dev_used_idx :: u16
  free_map :: "nat \<Rightarrow> bool"
  used_idx :: u16
  info_b :: "nat \<Rightarrow> nat option"
  info_status :: "nat \<Rightarrow> u8"
  ops :: "nat \<Rightarrow> virtio_blk_req"
  bdisk_busy :: "nat \<Rightarrow> bool"

record vd_state = file_state +
  vdisk :: vdisk
  mmio_writes :: "(nat \<times> u32) list"
  queue_pages :: "u64 list"

definition upd_vd :: "(vdisk \<Rightarrow> vdisk) \<Rightarrow> 'z vd_state_scheme \<Rightarrow> 'z vd_state_scheme" where
  "upd_vd f s = s\<lparr>vdisk := f (vdisk s)\<rparr>"

definition mmio_write :: "nat \<Rightarrow> u32 \<Rightarrow> 'z vd_state_scheme \<Rightarrow> 'z vd_state_scheme" where
  "mmio_write r v s = s\<lparr>mmio_writes := mmio_writes s @ [(r, v)]\<rparr>"

section \<open>Initialisation\<close>

text \<open>The feature bits the driver turns off: RO, SCSI, CONFIG_WCE, MQ, ANY_LAYOUT, EVENT_IDX,
  INDIRECT_DESC. \<open>dev\<close> is what the device answers when a register is read.\<close>

definition feature_mask :: u64 where
  "feature_mask = NOT (2 ^ 5 OR 2 ^ 7 OR 2 ^ 11 OR 2 ^ 12 OR 2 ^ 27 OR 2 ^ 29 OR 2 ^ 28)"

definition queue_addr :: "nat \<Rightarrow> u64 \<Rightarrow> 'z vd_state_scheme \<Rightarrow> 'z vd_state_scheme" where
  "queue_addr r a s = mmio_write (r + 4) (ucast (drop_bit 32 a)) (mmio_write r (ucast a) s)"

definition virtio_disk_init :: "(nat \<Rightarrow> u32) \<Rightarrow> 'z vd_state_scheme \<Rightarrow> 'z vd_state_scheme res" where
  "virtio_disk_init dev s =
     (if dev 0 \<noteq> 0x74726976 \<or> dev 4 \<noteq> 2 \<or> dev 8 \<noteq> 2 \<or> dev 12 \<noteq> 0x554d4551 then Panic ''could not find virtio disk''
      else let s1 = mmio_write 0x70 3 (mmio_write 0x70 1 (mmio_write 0x70 0 s));
               s2 = mmio_write 0x20 (ucast (ucast (dev 0x10) AND feature_mask)) s1;
               s3 = mmio_write 0x70 11 s2;
               status = dev 0x70
           in if status AND 8 = 0 then Panic ''virtio disk FEATURES_OK unset''
              else let s4 = mmio_write 0x30 0 s3
                   in if dev 0x44 \<noteq> 0 then Panic ''virtio disk should not be ready''
                      else if dev 0x34 = 0 then Panic ''virtio disk has no queue 0''
                      else if unat (dev 0x34) < NUM then Panic ''virtio disk max queue too short''
                      else let (d, s5) = kalloc s4; (a, s6) = kalloc s5; (u, s7) = kalloc s6
                           in if d = 0 \<or> a = 0 \<or> u = 0 then Panic ''virtio disk kalloc''
                              else let s8 = s7\<lparr>phys := memset (memset (memset (phys s7) d 0 4096) a 0 4096) u 0 4096,
                                                queue_pages := [d, a, u]\<rparr>;
                                       s9 = upd_vd (\<lambda>v. v\<lparr>desc := (\<lambda>_. \<lparr>daddr = Nowhere, dlen = 0, dflags = 0, dnext = 0\<rparr>),
                                              avail_ring := (\<lambda>_. 0), avail_idx := 0, used_ring := (\<lambda>_. 0), dev_used_idx := 0,
                                              free_map := (\<lambda>i. if i < NUM then True else free_map v i)\<rparr>) s8;
                                       s10 = mmio_write 0x38 (of_nat NUM) s9;
                                       s11 = queue_addr 0xa0 u (queue_addr 0x90 a (queue_addr 0x80 d s10))
                                   in Ok (mmio_write 0x70 (status OR 4) (mmio_write 0x44 1 s11)))"

section \<open>Descriptors\<close>

definition alloc_desc :: "'z vd_state_scheme \<Rightarrow> nat option \<times> 'z vd_state_scheme" where
  "alloc_desc s =
     (case List.find (free_map (vdisk s)) [0..<NUM] of
        None \<Rightarrow> (None, s)
      | Some i \<Rightarrow> (Some i, upd_vd (\<lambda>v. v\<lparr>free_map := (free_map v)(i := False)\<rparr>) s))"

definition free_desc :: "nat option \<Rightarrow> nat \<Rightarrow> 'z vd_state_scheme \<Rightarrow> 'z vd_state_scheme res" where
  "free_desc cur i s =
     (if i \<ge> NUM then Panic ''free_desc 1''
      else if free_map (vdisk s) i then Panic ''free_desc 2''
      else let s1 = upd_vd (\<lambda>v. v\<lparr>desc := (desc v)(i := \<lparr>daddr = Nowhere, dlen = 0, dflags = 0, dnext = 0\<rparr>),
                                  free_map := (free_map v)(i := True)\<rparr>) s
           in Ok (s1\<lparr>procs := wake ChanDiskFree cur (procs s1)\<rparr>))"

text \<open>\<open>free_chain\<close> frees a different descriptor in each turn or panics, so \<open>NUM + 1\<close> turns are
  enough.\<close>

fun free_chain_loop :: "nat option \<Rightarrow> nat \<Rightarrow> nat \<Rightarrow> 'z vd_state_scheme \<Rightarrow> 'z vd_state_scheme res" where
  "free_chain_loop cur 0 i s = Hang"
| "free_chain_loop cur (Suc k) i s =
     (let flag = dflags (desc (vdisk s) i); nxt = dnext (desc (vdisk s) i)
      in bindR (free_desc cur i s) (\<lambda>s1.
           if flag AND VRING_DESC_F_NEXT \<noteq> 0 then free_chain_loop cur k nxt s1 else Ok s1))"

definition free_chain :: "nat option \<Rightarrow> nat \<Rightarrow> 'z vd_state_scheme \<Rightarrow> 'z vd_state_scheme res" where
  "free_chain cur i s = free_chain_loop cur (NUM + 1) i s"

text \<open>\<open>alloc3_desc\<close>: \<open>k\<close> descriptors to go, \<open>got\<close> so far; on a failure those are given back.\<close>

fun alloc_descs :: "nat option \<Rightarrow> nat \<Rightarrow> nat list \<Rightarrow> 'z vd_state_scheme \<Rightarrow> (nat list option \<times> 'z vd_state_scheme) res" where
  "alloc_descs cur 0 got s = Ok (Some got, s)"
| "alloc_descs cur (Suc k) got s =
     (case alloc_desc s of
        (Some i, s1) \<Rightarrow> alloc_descs cur k (got @ [i]) s1
      | (None, s1) \<Rightarrow> bindR (iterR (free_desc cur) got s1) (\<lambda>s2. Ok (None, s2)))"

definition alloc3_desc :: "nat option \<Rightarrow> 'z vd_state_scheme \<Rightarrow> (nat list option \<times> 'z vd_state_scheme) res" where
  "alloc3_desc cur s = alloc_descs cur 3 [] s"

section \<open>Requests\<close>

definition format_descs :: "nat \<Rightarrow> nat \<Rightarrow> nat \<Rightarrow> nat \<Rightarrow> nat \<Rightarrow> bool \<Rightarrow> vdisk \<Rightarrow> vdisk" where
  "format_descs b blockno i0 i1 i2 wr v =
     (let v1 = v\<lparr>ops := (ops v)(i0 := \<lparr>req_write = wr, req_sector = ucast (of_nat blockno * of_nat (BSIZE div 512) :: u32)\<rparr>)\<rparr>;
          v2 = v1\<lparr>desc := (desc v1)(i0 := \<lparr>daddr = OpHeader i0, dlen = 16, dflags = VRING_DESC_F_NEXT, dnext = i1\<rparr>)\<rparr>;
          v3 = v2\<lparr>desc := (desc v2)(i1 := \<lparr>daddr = BufData b, dlen = of_nat BSIZE,
                 dflags = (if wr then 0 else VRING_DESC_F_WRITE) OR VRING_DESC_F_NEXT, dnext = i2\<rparr>)\<rparr>
      in v3\<lparr>info_status := (info_status v3)(i0 := 0xff),
            desc := (desc v3)(i2 := \<lparr>daddr = StatusByte i0, dlen = 1, dflags = VRING_DESC_F_WRITE, dnext = 0\<rparr>)\<rparr>)"

text \<open>\<open>virtio_disk_rw\<close> up to the wait: the head of the chain, or asleep for free descriptors.\<close>

definition virtio_submit :: "nat \<Rightarrow> nat \<Rightarrow> nat \<Rightarrow> bool \<Rightarrow> 'z vd_state_scheme \<Rightarrow> ((nat, unit) wait \<times> 'z vd_state_scheme) res" where
  "virtio_submit me b blockno wr s =
     bindR (alloc3_desc (Some me) s) (\<lambda>(r, s1).
       case r of
         Some [i0, i1, i2] \<Rightarrow>
           let s2 = upd_vd (\<lambda>v. (format_descs b blockno i0 i1 i2 wr v)) s1;
               s3 = upd_vd (\<lambda>v. v\<lparr>bdisk_busy := (bdisk_busy v)(b := True), info_b := (info_b v)(i0 := Some b)\<rparr>) s2;
               s4 = upd_vd (\<lambda>v. v\<lparr>avail_ring := (avail_ring v)(unat (avail_idx v) mod NUM := i0)\<rparr>) s3;
               s5 = upd_vd (\<lambda>v. v\<lparr>avail_idx := avail_idx v + 1\<rparr>) s4
           in Ok (Done i0, mmio_write 0x50 0 s5)
       | _ \<Rightarrow> Ok (Asleep (), s1))"

text \<open>From the test of \<open>b->disk\<close> on.\<close>

definition virtio_finish :: "nat \<Rightarrow> nat \<Rightarrow> nat \<Rightarrow> 'z vd_state_scheme \<Rightarrow> ((unit, unit) wait \<times> 'z vd_state_scheme) res" where
  "virtio_finish me b i0 s =
     (if bdisk_busy (vdisk s) b then Ok (Asleep (), s)
      else bindR (free_chain (Some me) i0 (upd_vd (\<lambda>v. v\<lparr>info_b := (info_b v)(i0 := None)\<rparr>) s)) (\<lambda>s1.
             Ok (Done (), s1)))"

text \<open>The completion interrupt. The loop reads the index of the device again in every round; between two
  rounds the device does not move here: what it completes during the loop is completed, for the
  driver, just before the handler or just after it, and then seen in this or in the next interrupt.\<close>

function virtio_intr_loop :: "nat option \<Rightarrow> 'z vd_state_scheme \<Rightarrow> 'z vd_state_scheme res" where
  "virtio_intr_loop cur s =
     (if used_idx (vdisk s) = dev_used_idx (vdisk s) then Ok s
      else let v = vdisk s; i = used_ring v (unat (used_idx v) mod NUM)
           in if info_status v i \<noteq> 0 then Panic ''virtio_disk_intr status''
              else case info_b v i of
                     None \<Rightarrow> Panic ''kerneltrap''
                   | Some b \<Rightarrow>
                      let s1 = upd_vd (\<lambda>v. v\<lparr>bdisk_busy := (bdisk_busy v)(b := False)\<rparr>) s;
                          s2 = s1\<lparr>procs := wake (ChanDiskBuf b) cur (procs s1)\<rparr>
                      in virtio_intr_loop cur (upd_vd (\<lambda>v. v\<lparr>used_idx := used_idx v + 1\<rparr>) s2))"
  by pat_completeness auto
termination
proof (relation "measure (\<lambda>(cur, s). unat (dev_used_idx (vdisk s) - used_idx (vdisk s)))")
  have "unat (d - (u + 1)) < unat (d - u)" if "u \<noteq> d" for d u :: u16
  proof -
    have "d - u \<noteq> 0" using that by simp
    then show ?thesis using unat_minus_one[of "d - u"] unat_gt_0[of "d - u"] by (simp add: diff_diff_eq)
  qed
  then show "used_idx (vdisk s) \<noteq> dev_used_idx (vdisk s) \<Longrightarrow> x = vdisk s \<Longrightarrow> y = used_ring x (unat (used_idx x) mod NUM) \<Longrightarrow>
      \<not> info_status x y \<noteq> 0 \<Longrightarrow> info_b x y = Some b \<Longrightarrow>
      z = upd_vd (\<lambda>v. v\<lparr>bdisk_busy := (bdisk_busy v)(b := False)\<rparr>) s \<Longrightarrow>
      w = z\<lparr>procs := wake (ChanDiskBuf b) cur (procs z)\<rparr> \<Longrightarrow>
      ((cur, upd_vd (\<lambda>v. v\<lparr>used_idx := used_idx v + 1\<rparr>) w), (cur, s))
        \<in> measure (\<lambda>(cur, s). unat (dev_used_idx (vdisk s) - used_idx (vdisk s)))"
    for cur and s :: "'z vd_state_scheme" and x y b z w
    by (auto simp: upd_vd_def)
qed auto

declare virtio_intr_loop.simps [simp del]

definition virtio_disk_intr :: "nat option \<Rightarrow> u32 \<Rightarrow> 'z vd_state_scheme \<Rightarrow> 'z vd_state_scheme res" where
  "virtio_disk_intr cur int_status s = virtio_intr_loop cur (mmio_write 0x64 (int_status AND 3) s)"

end
