(* ===== verification/Trap.thy ===== *)
theory Trap
  imports Sysfile Virtio
begin

text \<open>
  System call dispatch (\<open>kernel/syscall.c\<close>, \<open>kernel/sysproc.c\<close>), traps and interrupts
  (\<open>kernel/trap.c\<close>, \<open>kernel/plic.c\<close>), \<open>forkret\<close> of \<open>kernel/proc.c\<close>, and the machine-mode
  start-up (\<open>kernel/start.c\<close>). The control and status registers of a hart are the record \<open>hart\<close>;
  its \<open>sstatus.SIE\<close> bit is \<open>sie\<close> of the record \<open>cpu\<close>. \<open>c\<close> is the hart, \<open>me\<close> the process it runs.
  Symbols of the assembly files are fields of \<open>syms\<close>.
\<close>

definition SSTATUS_SPP :: u64 where "SSTATUS_SPP = 0x100"
definition SSTATUS_SPIE :: u64 where "SSTATUS_SPIE = 0x20"
definition MSTATUS_MPP_MASK :: u64 where "MSTATUS_MPP_MASK = 0x1800"
definition MSTATUS_MPP_S :: u64 where "MSTATUS_MPP_S = 0x800"
definition SIE_SEIE :: u64 where "SIE_SEIE = 0x200"
definition SIE_STIE :: u64 where "SIE_STIE = 0x20"
definition UART0_IRQ :: u32 where "UART0_IRQ = 10"
definition VIRTIO0_IRQ :: u32 where "VIRTIO0_IRQ = 1"
definition SBRK_EAGER :: int where "SBRK_EAGER = 1"

definition MAKE_SATP :: "u64 \<Rightarrow> u64" where
  "MAKE_SATP pt = push_bit 60 8 OR drop_bit 12 pt"

record hart =
  sstatus :: u64
  sepc :: u64
  scause :: u64
  stval :: u64
  stvec :: u64
  satp :: u64
  stime :: u64
  stimecmp :: u64
  mstatus :: u64
  mepc :: u64
  medeleg :: u64
  mideleg :: u64
  sie_reg :: u64
  pmpaddr0 :: u64
  pmpcfg0 :: u64
  menvcfg :: u64
  mcounteren :: u64
  mhartid :: u64
  tp_reg :: u64

record symbols =
  sym_uservec :: u64
  sym_userret :: u64
  sym_kernelvec :: u64
  sym_usertrap :: u64
  sym_main :: u64

text \<open>The PLIC: priorities by interrupt, enable bits and threshold by hart, the interrupt the claim
  register of a hart offers, and what has been completed.\<close>

record plic =
  pl_prio :: "nat \<Rightarrow> u32"
  pl_enable :: "nat \<Rightarrow> u32"
  pl_threshold :: "nat \<Rightarrow> u32"
  pl_claim :: "nat \<Rightarrow> u32"
  pl_done :: "(nat \<times> u32) list"

record trap_state = vd_state +
  harts :: "nat \<Rightarrow> hart"
  plic :: plic
  syms :: symbols
  fs_ready :: bool

definition upd_hart :: "nat \<Rightarrow> (hart \<Rightarrow> hart) \<Rightarrow> 'z trap_state_scheme \<Rightarrow> 'z trap_state_scheme" where
  "upd_hart c f s = s\<lparr>harts := (harts s)(c := f (harts s c))\<rparr>"

section \<open>sysproc.c\<close>

definition sys_getpid :: "nat \<Rightarrow> 'z proc_state_scheme \<Rightarrow> (u64 \<times> 'z proc_state_scheme) res" where
  "sys_getpid me s = Ok (word_of_int (pid (procs s me)), s)"

definition sys_fork :: "nat \<Rightarrow> nat \<Rightarrow> 'z file_state_scheme \<Rightarrow> (u64 \<times> 'z file_state_scheme) res" where
  "sys_fork c me s = bindR (kfork c me s) (\<lambda>(r, s1). Ok (word_of_int r, s1))"

definition sys_wait :: "nat \<Rightarrow> nat \<Rightarrow> 'z proc_state_scheme \<Rightarrow> (u64 \<times> 'z proc_state_scheme) res" where
  "sys_wait c me s =
     bindR (bindR (kwait c me (argaddr me 0 s) s) finish) (\<lambda>(r, s1). Ok (word_of_int r, s1))"

definition sys_sbrk :: "nat \<Rightarrow> 'z proc_state_scheme \<Rightarrow> (u64 \<times> 'z proc_state_scheme) res" where
  "sys_sbrk me s =
     (let n = argint me 0 s; t = argint me 1 s; old = sz (procs s me)
      in if t = SBRK_EAGER \<or> n < 0
         then bindR (growproc me n s) (\<lambda>(r, s1). Ok (if r < 0 then neg1 else old, s1))
         else if old + word_of_int n < old \<or> old + word_of_int n > TRAPFRAME then Ok (neg1, s)
         else Ok (old, upd_proc me (\<lambda>q. q\<lparr>sz := sz q + word_of_int n\<rparr>) s))"

text \<open>\<open>sys_pause\<close>: whether the caller sleeps, given the clock when it began.\<close>

definition pause_test :: "nat \<Rightarrow> u32 \<Rightarrow> u32 \<Rightarrow> 'z proc_state_scheme \<Rightarrow> ((u64, unit) wait \<times> 'z proc_state_scheme)" where
  "pause_test me n ticks0 s =
     (if ticks s - ticks0 < n
      then if pkilled (procs s me) \<noteq> 0 then (Done neg1, s) else (Asleep (), s)
      else (Done 0, s))"

definition sys_pause :: "nat \<Rightarrow> 'z proc_state_scheme \<Rightarrow> (u64 \<times> 'z proc_state_scheme) res" where
  "sys_pause me s =
     (let n = argint me 0 s
      in finish (pause_test me (word_of_int (if n < 0 then 0 else n)) (ticks s) s))"

definition sys_kill :: "nat \<Rightarrow> nat \<Rightarrow> 'z proc_state_scheme \<Rightarrow> (u64 \<times> 'z proc_state_scheme) res" where
  "sys_kill c me s = bindR (kkill c (argint me 0 s) s) (\<lambda>(r, s1). Ok (word_of_int r, s1))"

definition sys_uptime :: "'z proc_state_scheme \<Rightarrow> (u64 \<times> 'z proc_state_scheme) res" where
  "sys_uptime s = Ok (ucast (ticks s), s)"

definition sys_trace_memory :: "nat \<Rightarrow> 'z proc_state_scheme \<Rightarrow> (u64 \<times> 'z proc_state_scheme) res" where
  "sys_trace_memory me s = Ok (0, s\<lparr>trace_memory := argint me 0 s\<rparr>)"

section \<open>Dispatch\<close>

text \<open>\<open>swtch\<close> is what \<open>kexit\<close> hands to \<open>sched\<close>; \<open>st0\<close> an uninitialised \<open>struct stat\<close>.\<close>

type_synonym 's switch = "nat \<Rightarrow> nat \<Rightarrow> 's \<Rightarrow> (nat \<times> 's) res"

definition sys_exit :: "'z file_state_scheme switch \<Rightarrow> nat \<Rightarrow> nat \<Rightarrow> 'z file_state_scheme \<Rightarrow> (u64 \<times> 'z file_state_scheme) res" where
  "sys_exit swtch c me s = kexit swtch c me (argint me 0 s) s"

text \<open>The table \<open>syscalls[]\<close>, by number.\<close>

definition syscall_table :: "'z trap_state_scheme switch \<Rightarrow> stat \<Rightarrow> nat \<Rightarrow> nat \<Rightarrow> int \<Rightarrow>
    ('z trap_state_scheme \<Rightarrow> (u64 \<times> 'z trap_state_scheme) res) option" where
  "syscall_table swtch st0 c me num =
     (if num = 1 then Some (sys_fork c me)
      else if num = 2 then Some (sys_exit swtch c me)
      else if num = 3 then Some (sys_wait c me)
      else if num = 4 then Some (sys_pipe me)
      else if num = 5 then Some (sys_read me)
      else if num = 6 then Some (sys_kill c me)
      else if num = 7 then Some (sys_exec me)
      else if num = 8 then Some (sys_fstat me st0)
      else if num = 9 then Some (sys_chdir me)
      else if num = 10 then Some (sys_dup me)
      else if num = 11 then Some (sys_getpid me)
      else if num = 12 then Some (sys_sbrk me)
      else if num = 13 then Some (sys_pause me)
      else if num = 14 then Some sys_uptime
      else if num = 15 then Some (sys_open me)
      else if num = 16 then Some (sys_write me)
      else if num = 17 then Some (sys_mknod me)
      else if num = 18 then Some (sys_unlink me)
      else if num = 19 then Some (sys_link me)
      else if num = 20 then Some (sys_mkdir me)
      else if num = 21 then Some (sys_close me)
      else if num = 22 then Some sys_sync
      else if num = 23 then Some (sys_trace_memory me)
      else None)"

definition unknown_call :: "nat \<Rightarrow> int \<Rightarrow> 'z con_state_scheme \<Rightarrow> 'z con_state_scheme res" where
  "unknown_call me num s =
     printk (bytes_of ''%d %s: unknown sys call %d'' @ [10])
       [Num (word_of_int (pid (procs s me))), Str (Some (name_bytes (pname (procs s me)))), Num (word_of_int num)] s"

definition syscall :: "'z trap_state_scheme switch \<Rightarrow> stat \<Rightarrow> nat \<Rightarrow> nat \<Rightarrow> 'z trap_state_scheme \<Rightarrow> 'z trap_state_scheme res" where
  "syscall swtch st0 c me s =
     (let num = sint (ucast (get_tf me tf_a7 s) :: u32)
      in case syscall_table swtch st0 c me num of
           Some f \<Rightarrow> bindR (f s) (\<lambda>(r, s1). Ok (set_tf me tf_a0 r s1))
         | None \<Rightarrow> bindR (unknown_call me num s) (\<lambda>s1. Ok (set_tf me tf_a0 neg1 s1)))"

section \<open>plic.c\<close>

definition upd_plic :: "(plic \<Rightarrow> plic) \<Rightarrow> 'z trap_state_scheme \<Rightarrow> 'z trap_state_scheme" where
  "upd_plic f s = s\<lparr>plic := f (plic s)\<rparr>"

definition plicinit :: "'z trap_state_scheme \<Rightarrow> 'z trap_state_scheme" where
  "plicinit = upd_plic (\<lambda>p. p\<lparr>pl_prio := (pl_prio p)(unat UART0_IRQ := 1, unat VIRTIO0_IRQ := 1)\<rparr>)"

definition plicinithart :: "nat \<Rightarrow> 'z trap_state_scheme \<Rightarrow> 'z trap_state_scheme" where
  "plicinithart c = upd_plic (\<lambda>p. p\<lparr>pl_enable := (pl_enable p)(c := push_bit (unat UART0_IRQ) 1 OR push_bit (unat VIRTIO0_IRQ) 1),
     pl_threshold := (pl_threshold p)(c := 0)\<rparr>)"

text \<open>Reading the claim register takes the interrupt.\<close>

definition plic_claim :: "nat \<Rightarrow> 'z trap_state_scheme \<Rightarrow> u32 \<times> 'z trap_state_scheme" where
  "plic_claim c s = (pl_claim (plic s) c, upd_plic (\<lambda>p. p\<lparr>pl_claim := (pl_claim p)(c := 0)\<rparr>) s)"

definition plic_complete :: "nat \<Rightarrow> u32 \<Rightarrow> 'z trap_state_scheme \<Rightarrow> 'z trap_state_scheme" where
  "plic_complete c irq = upd_plic (\<lambda>p. p\<lparr>pl_done := pl_done p @ [(c, irq)]\<rparr>)"

section \<open>Interrupts\<close>

definition clockintr :: "nat \<Rightarrow> nat option \<Rightarrow> 'z trap_state_scheme \<Rightarrow> 'z trap_state_scheme" where
  "clockintr c cur s =
     (let s1 = (if c = 0 then s\<lparr>ticks := ticks s + 1, procs := wake ChanTicks cur (procs s)\<rparr> else s)
      in upd_hart c (\<lambda>h. h\<lparr>stimecmp := stime h + 1000000\<rparr>) s1)"

text \<open>\<open>tx_idle\<close> and \<open>int_status\<close> are what the UART and the disk answer.\<close>

definition devintr :: "bool \<Rightarrow> u32 \<Rightarrow> nat \<Rightarrow> nat option \<Rightarrow> 'z trap_state_scheme \<Rightarrow> (nat \<times> 'z trap_state_scheme) res" where
  "devintr tx_idle int_status c cur s =
     (let cause = scause (harts s c)
      in if cause = 0x8000000000000009
         then let (irq, s1) = plic_claim c s
              in bindR (if irq = UART0_IRQ then uartintr cur tx_idle s1
                        else if irq = VIRTIO0_IRQ then virtio_disk_intr cur int_status s1
                        else if irq \<noteq> 0 then printk (bytes_of ''unexpected interrupt irq=%d'' @ [10]) [Num (ucast irq)] s1
                        else Ok s1) (\<lambda>s2.
                   Ok (1, if irq \<noteq> 0 then plic_complete c irq s2 else s2))
         else if cause = 0x8000000000000005 then Ok (2, clockintr c cur s)
         else Ok (0, s))"

section \<open>Traps\<close>

definition tf_kernel_satp :: u64 where "tf_kernel_satp = 0"
definition tf_kernel_sp :: u64 where "tf_kernel_sp = 8"
definition tf_kernel_trap :: u64 where "tf_kernel_trap = 16"
definition tf_kernel_hartid :: u64 where "tf_kernel_hartid = 32"

definition trapinithart :: "nat \<Rightarrow> 'z trap_state_scheme \<Rightarrow> 'z trap_state_scheme" where
  "trapinithart c s = upd_hart c (\<lambda>h. h\<lparr>stvec := sym_kernelvec (syms s)\<rparr>) s"

definition kvminithart :: "nat \<Rightarrow> 'z trap_state_scheme \<Rightarrow> 'z trap_state_scheme" where
  "kvminithart c s = upd_hart c (\<lambda>h. h\<lparr>satp := MAKE_SATP (kernel_pagetable s)\<rparr>) s"

definition prepare_return :: "nat \<Rightarrow> nat \<Rightarrow> 'z trap_state_scheme \<Rightarrow> 'z trap_state_scheme" where
  "prepare_return c me s =
     (let s1 = intr_off c s;
          s2 = upd_hart c (\<lambda>h. h\<lparr>stvec := TRAMPOLINE + (sym_uservec (syms s1) - trampoline s1)\<rparr>) s1;
          s3 = set_tf me tf_kernel_satp (satp (harts s2 c)) s2;
          s4 = set_tf me tf_kernel_sp (kstack (procs s3 me) + PGSIZE) s3;
          s5 = set_tf me tf_kernel_trap (sym_usertrap (syms s4)) s4;
          s6 = set_tf me tf_kernel_hartid (tp_reg (harts s5 c)) s5
      in upd_hart c (\<lambda>h. h\<lparr>sstatus := (sstatus h AND NOT SSTATUS_SPP) OR SSTATUS_SPIE,
                           sepc := get_tf me tf_epc s6\<rparr>) s6)"

definition dump_trap :: "nat \<Rightarrow> nat \<Rightarrow> 'z trap_state_scheme \<Rightarrow> 'z trap_state_scheme res" where
  "dump_trap c me s =
     bindR (printk (bytes_of ''usertrap(): unexpected scause 0x%lx pid=%d'' @ [10])
              [Num (scause (harts s c)), Num (word_of_int (pid (procs s me)))] s) (\<lambda>s1.
     printk (bytes_of ''            sepc=0x%lx stval=0x%lx'' @ [10])
              [Num (sepc (harts s1 c)), Num (stval (harts s1 c))] s1)"

text \<open>\<open>usertrap\<close> returns the \<open>satp\<close> of the user page table. The call of \<open>yield\<close> on a timer interrupt
  is commented out in the code.\<close>

definition usertrap :: "'z trap_state_scheme switch \<Rightarrow> stat \<Rightarrow> bool \<Rightarrow> u32 \<Rightarrow> nat \<Rightarrow> nat \<Rightarrow> 'z trap_state_scheme \<Rightarrow>
    (u64 \<times> 'z trap_state_scheme) res" where
  "usertrap swtch st0 tx_idle int_status c me s =
     (if sstatus (harts s c) AND SSTATUS_SPP \<noteq> 0 then Panic ''usertrap: not from user mode''
      else let s1 = upd_hart c (\<lambda>h. h\<lparr>stvec := sym_kernelvec (syms s)\<rparr>) s;
               s2 = set_tf me tf_epc (sepc (harts s1 c)) s1;
               cause = scause (harts s2 c)
           in bindR (if cause = 8
                     then if pkilled (procs s2 me) \<noteq> 0 then kexit swtch c me (-1) s2
                          else syscall swtch st0 c me (intr_on c (set_tf me tf_epc (get_tf me tf_epc s2 + 4) s2))
                     else bindR (devintr tx_idle int_status c (Some me) s2) (\<lambda>(which, s3).
                          if which \<noteq> 0 then Ok s3
                          else bindR (if cause = 15 \<or> cause = 13
                                      then vmfault (uproc_of (procs s3 me)) (pagetable (procs s3 me)) (stval (harts s3 c)) s3
                                      else Ok (0, s3)) (\<lambda>(pa, s4).
                               if pa \<noteq> 0 then Ok s4
                               else bindR (dump_trap c me s4) (setkilled c me)))) (\<lambda>s5.
              if pkilled (procs s5 me) \<noteq> 0 then kexit swtch c me (-1) s5
              else let s6 = prepare_return c me s5 in Ok (MAKE_SATP (pagetable (procs s6 me)), s6)))"

definition kerneltrap :: "bool \<Rightarrow> u32 \<Rightarrow> nat \<Rightarrow> nat option \<Rightarrow> 'z trap_state_scheme \<Rightarrow> 'z trap_state_scheme res" where
  "kerneltrap tx_idle int_status c cur s =
     (let h = harts s c
      in if sstatus h AND SSTATUS_SPP = 0 then Panic ''kerneltrap: not from supervisor mode''
         else if sie (cpus s c) then Panic ''kerneltrap: interrupts enabled''
         else bindR (devintr tx_idle int_status c cur s) (\<lambda>(which, s1).
              if which = 0 then Panic ''kerneltrap''
              else Ok (upd_hart c (\<lambda>g. g\<lparr>sepc := sepc h, sstatus := sstatus h\<rparr>) s1)))"

text \<open>\<open>forkret\<close> up to the jump into the trampoline; the static variable \<open>first\<close> is
  \<open>\<not> fs_ready\<close>.\<close>

definition forkret :: "nat \<Rightarrow> nat \<Rightarrow> 'z trap_state_scheme \<Rightarrow> (u64 \<times> 'z trap_state_scheme) res" where
  "forkret c me s =
     bindR (plock_release c me s) (\<lambda>s1.
     bindR (if \<not> fs_ready s1
            then bindR (fsinit me FS_DEV s1) (\<lambda>s2.
                 bindR (kexec me (bytes_of ''/init'') [bytes_of ''/init''] (s2\<lparr>fs_ready := True\<rparr>)) (\<lambda>(r, s3).
                 let s4 = set_tf me tf_a0 (word_of_int r) s3
                 in if get_tf me tf_a0 s4 = neg1 then Panic ''exec'' else Ok s4))
            else Ok s1) (\<lambda>s5.
     let s6 = prepare_return c me s5 in Ok (MAKE_SATP (pagetable (procs s6 me)), s6)))"

section \<open>Start-up\<close>

definition timerinit :: "nat \<Rightarrow> 'z trap_state_scheme \<Rightarrow> 'z trap_state_scheme" where
  "timerinit c = upd_hart c (\<lambda>h. h\<lparr>menvcfg := menvcfg h OR push_bit 63 1, mcounteren := mcounteren h OR 2,
     stimecmp := stime h + 1000000\<rparr>)"

text \<open>\<open>start\<close> up to \<open>mret\<close>, which jumps to \<open>main\<close> in supervisor mode.\<close>

definition start :: "nat \<Rightarrow> 'z trap_state_scheme \<Rightarrow> 'z trap_state_scheme" where
  "start c s =
     (let s1 = upd_hart c (\<lambda>h. h\<lparr>mstatus := (mstatus h AND NOT MSTATUS_MPP_MASK) OR MSTATUS_MPP_S,
                 mepc := sym_main (syms s), satp := 0, medeleg := 0xffff, mideleg := 0xffff,
                 sie_reg := sie_reg h OR SIE_SEIE OR SIE_STIE, pmpaddr0 := 0x3fffffffffffff, pmpcfg0 := 0xf\<rparr>) s
      in upd_hart c (\<lambda>h. h\<lparr>tp_reg := mhartid h\<rparr>) (timerinit c s1))"

text \<open>\<open>main\<close> on hart 0 up to \<open>scheduler()\<close>; the buffer cache is initialised by \<open>Bio.binit\<close>, which works on
  a state of its own. \<open>dev\<close> is what the disk answers.\<close>

definition main_boot :: "(nat \<Rightarrow> u32) \<Rightarrow> 'z trap_state_scheme \<Rightarrow> 'z trap_state_scheme res" where
  "main_boot dev s =
     bindR (printk [10] [] (consoleinit s)) (\<lambda>s1.
     bindR (printk (bytes_of ''xv6 kernel is booting'' @ [10]) [] s1) (\<lambda>s2.
     bindR (printk [10] [] s2) (\<lambda>s3.
     bindR (kinit s3) (\<lambda>s4.
     bindR (kvminit s4) (\<lambda>s5.
     bindR (virtio_disk_init dev (iinit (plicinithart 0 (plicinit (trapinithart 0 (procinit (kvminithart 0 s5))))))) (\<lambda>s6.
       userinit 0 s6))))))"

definition main_hart :: "nat \<Rightarrow> 'z trap_state_scheme \<Rightarrow> 'z trap_state_scheme res" where
  "main_hart c s =
     bindR (printk (bytes_of ''hart %d starting'' @ [10]) [Num (of_nat c)] s) (\<lambda>s1.
       Ok (plicinithart c (trapinithart c (kvminithart c s1))))"

end
