(* ===== verification/Fs_Blocks.thy ===== *)
theory Fs_Blocks
  imports Fs
begin

text \<open>
  The block allocator and the inodes on disk. The bitmap is read as the set of the blocks in use;
  \<open>balloc\<close> and \<open>bfree\<close> change it in one point. What an operation does to the disk as the cache
  shows it is stated with \<open>logged\<close>: only the view, the pins and the in-memory log change, and at
  most \<open>k\<close> blocks are added to the log.
\<close>

section \<open>Logged updates\<close>

definition room :: "nat \<Rightarrow> 'z log_state_scheme \<Rightarrow> bool" where
  "room k s \<longleftrightarrow> lh_n s + k \<le> LOGBLOCKS \<and> 1 \<le> outstanding s"

definition logged :: "nat \<Rightarrow> 'z log_state_scheme \<Rightarrow> 'z log_state_scheme \<Rightarrow> bool" where
  "logged k s s' \<longleftrightarrow> lh_n s' \<le> lh_n s + k \<and>
     s' = s\<lparr>bview := bview s', pins := pins s', lh_n := lh_n s', lh_block := lh_block s'\<rparr>"

named_theorems logged_frame

lemma logged_refl [simp]: "logged k s s"
  by (simp add: logged_def)

lemma logged_trans: "logged k s t \<Longrightarrow> logged j t u \<Longrightarrow> logged (k + j) s u"
proof -
  assume a: "logged k s t" and b: "logged j t u"
  have "lh_n u \<le> lh_n s + (k + j)" using a b by (simp add: logged_def)
  moreover have "u = s\<lparr>bview := bview u, pins := pins u, lh_n := lh_n u, lh_block := lh_block u\<rparr>"
  proof -
    have t: "t = s\<lparr>bview := bview t, pins := pins t, lh_n := lh_n t, lh_block := lh_block t\<rparr>"
      and u: "u = t\<lparr>bview := bview u, pins := pins u, lh_n := lh_n u, lh_block := lh_block u\<rparr>"
      using a b by (simp_all add: logged_def)
    show ?thesis by (subst u, subst t) simp
  qed
  ultimately show ?thesis by (simp add: logged_def)
qed

lemma logged_fields [logged_frame]:
  assumes "logged k s s'"
  shows "outstanding s' = outstanding s" "committing s' = committing s" "procs s' = procs s"
    "log_state.more s' = log_state.more s" "disk s' = disk s"
  by (subst assms[unfolded logged_def, THEN conjunct2], simp)+

lemma logged_fs [logged_frame]:
  fixes s :: "'z fs_state_scheme"
  assumes "logged k s s'"
  shows "sb s' = sb s" "inodes s' = inodes s"
  by (subst assms[unfolded logged_def, THEN conjunct2], simp)+

lemma room_logged: "room (k + j) s \<Longrightarrow> logged k s s' \<Longrightarrow> room j s'"
  using logged_fields(1)[of k s s'] by (auto simp: room_def logged_def)

lemma room_mono: "room k s \<Longrightarrow> j \<le> k \<Longrightarrow> room j s"
  by (simp add: room_def)

lemma blog_ok:
  assumes "room 1 s"
  shows "\<exists>s'. blog b d s = Ok s' \<and> logged 1 s s' \<and> bview s' = (bview s)(b := d)"
proof -
  have g: "\<not> LOGBLOCKS \<le> lh_n s" "\<not> outstanding s < 1" using assms by (auto simp: room_def)
  then show ?thesis
    by (auto simp: blog_def log_write_def bmodify_def bpin_def Let_def logged_def)
qed

lemma bzero_ok:
  assumes "room 1 s"
  shows "\<exists>s'. bzero b s = Ok s' \<and> logged 1 s s'
    \<and> bview s' = (bview s)(b := \<lambda>i. if i < BSIZE then 0 else bview s b i)"
  unfolding bzero_def bread_def by (rule blog_ok[OF assms])

section \<open>The bitmap\<close>

definition fs_size :: "'z fs_state_scheme \<Rightarrow> nat" where
  "fs_size s = unat (nblocks_total (sb s))"

definition block_used :: "nat \<Rightarrow> 'z fs_state_scheme \<Rightarrow> bool" where
  "block_used b s \<longleftrightarrow> \<not> bit_clear (bview s (BBLOCK b s)) (b mod BPB)"

definition bitmap_block :: "nat \<Rightarrow> 'z fs_state_scheme \<Rightarrow> bool" where
  "bitmap_block k s \<longleftrightarrow> (\<exists>b < fs_size s. k = BBLOCK b s)"

text \<open>The layout \<open>mkfs\<close> makes: the boot block and the bitmap are marked as used.\<close>

definition bitmap_ok :: "'z fs_state_scheme \<Rightarrow> bool" where
  "bitmap_ok s \<longleftrightarrow> block_used 0 s \<and> (\<forall>k < fs_size s. bitmap_block k s \<longrightarrow> block_used k s)"

lemma bit_clear_iff: "bit_clear d bi \<longleftrightarrow> \<not> bit (d (bi div 8)) (bi mod 8)"
  by (simp add: bit_clear_def bit_mask_def bit_iff_and_push_bit_not_eq_0)

lemma bit_bit_mask: "bit (bit_mask k) j \<longleftrightarrow> j = k mod 8"
  by (auto simp: bit_mask_def push_bit_eq_mult bit_exp_iff possible_bit_word)

lemma other_bit: "bi \<noteq> bj \<Longrightarrow> bi div 8 = bj div (8::nat) \<Longrightarrow> bj mod 8 \<noteq> bi mod 8"
  by (metis div_mult_mod_eq)

lemma bit_clear_set:
  "bit_clear (d(bi div 8 := d (bi div 8) OR bit_mask bi)) bj \<longleftrightarrow> bit_clear d bj \<and> bj \<noteq> bi"
proof (cases "bj = bi")
  case True
  then show ?thesis by (simp add: bit_clear_iff bit_or_iff bit_bit_mask)
next
  case False
  then show ?thesis using other_bit[of bi bj] by (simp add: bit_clear_iff bit_or_iff bit_bit_mask)
qed

lemma bit_clear_reset:
  "bit_clear (d(bi div 8 := d (bi div 8) AND NOT (bit_mask bi))) bj \<longleftrightarrow> bit_clear d bj \<or> bj = bi"
proof (cases "bj = bi")
  case True
  then show ?thesis by (simp add: bit_clear_iff bit_and_iff bit_not_iff bit_bit_mask)
next
  case False
  have "bj mod 8 < 8" by simp
  then show ?thesis using False other_bit[of bi bj]
    by (auto simp: bit_clear_iff bit_and_iff bit_not_iff bit_bit_mask possible_bit_word)
qed

lemma BPB_pos [simp]: "0 < BPB"
  by (simp add: BPB_def BSIZE_def)

lemma block_bit:
  assumes "b mod BPB = 0" "bi < BPB"
  shows "BBLOCK (b + bi) s = BBLOCK b s" "(b + bi) mod BPB = bi"
proof -
  obtain q where b: "b = BPB * q" using assms(1) by auto
  show "BBLOCK (b + bi) s = BBLOCK b s" "(b + bi) mod BPB = bi"
    using assms(2) by (simp_all add: b BBLOCK_def)
qed

lemma BBLOCK_inject: "BBLOCK x s = BBLOCK y s \<Longrightarrow> x mod BPB = y mod BPB \<Longrightarrow> x = y"
  unfolding BBLOCK_def by (metis add_right_cancel div_mult_mod_eq)

lemma logged_bitmap [logged_frame]:
  assumes "logged k s (s' :: 'z fs_state_scheme)"
  shows "BBLOCK b s' = BBLOCK b s" "fs_size s' = fs_size s" "bitmap_block b s' = bitmap_block b s"
  using logged_fs[OF assms] by (simp_all add: BBLOCK_def fs_size_def bitmap_block_def)

text \<open>Setting and clearing the bit of a block.\<close>

lemma block_used_set:
  assumes "logged k s s'"
    and "bview s' = (bview s)(BBLOCK b s := (bview s (BBLOCK b s))((b mod BPB) div 8 := bview s (BBLOCK b s) ((b mod BPB) div 8) OR bit_mask (b mod BPB)))"
  shows "block_used x s' \<longleftrightarrow> block_used x s \<or> x = b"
  using BBLOCK_inject[of x s b] logged_bitmap(1)[OF assms(1), of x]
  by (auto simp: block_used_def assms(2) bit_clear_set)

lemma block_used_reset:
  assumes "logged k s s'"
    and "bview s' = (bview s)(BBLOCK b s := (bview s (BBLOCK b s))((b mod BPB) div 8 := bview s (BBLOCK b s) ((b mod BPB) div 8) AND NOT (bit_mask (b mod BPB))))"
  shows "block_used x s' \<longleftrightarrow> block_used x s \<and> x \<noteq> b"
  using BBLOCK_inject[of x s b] logged_bitmap(1)[OF assms(1), of x]
  by (auto simp: block_used_def assms(2) bit_clear_reset)

section \<open>balloc and bfree\<close>

lemma block_used_at:
  "b mod BPB = 0 \<Longrightarrow> bi < BPB \<Longrightarrow> block_used (b + bi) s \<longleftrightarrow> \<not> bit_clear (bview s (BBLOCK b s)) bi"
  by (simp add: block_used_def block_bit)

lemma free_bit_None:
  assumes "b mod BPB = 0" "free_bit b (fs_size s) (bview s (BBLOCK b s)) = None" "b \<le> x" "x < b + BPB" "x < fs_size s"
  shows "block_used x s"
proof -
  have "x - b < min BPB (fs_size s - b)" using assms(3-5) by auto
  then have "\<not> bit_clear (bview s (BBLOCK b s)) (x - b)"
    using assms(2) by (auto simp: free_bit_def find_None_iff)
  then show ?thesis using block_used_at[OF assms(1), of "x - b" s] assms(3,4) by auto
qed

lemma free_bit_Some:
  assumes "b mod BPB = 0" "free_bit b (fs_size s) (bview s (BBLOCK b s)) = Some bi"
  shows "bi < BPB" "b + bi < fs_size s" "\<not> block_used (b + bi) s" "\<And>x. b \<le> x \<Longrightarrow> x < b + bi \<Longrightarrow> block_used x s"
proof -
  have f: "bi < min BPB (fs_size s - b)" "bit_clear (bview s (BBLOCK b s)) bi"
    "\<And>j. j < bi \<Longrightarrow> \<not> bit_clear (bview s (BBLOCK b s)) j"
    using assms(2) by (auto simp: free_bit_def find_Some_iff)
  show "bi < BPB" "b + bi < fs_size s" using f(1) by auto
  show "\<not> block_used (b + bi) s" using block_used_at[OF assms(1), of bi s] f by auto
  fix x assume "b \<le> x" "x < b + bi"
  then show "block_used x s" using block_used_at[OF assms(1), of "x - b" s] f(1) f(3)[of "x - b"] by auto
qed

text \<open>What a successful \<open>balloc\<close> of block \<open>b\<close> does.\<close>

definition allocated :: "nat \<Rightarrow> 'z fs_state_scheme \<Rightarrow> 'z fs_state_scheme \<Rightarrow> bool" where
  "allocated b s s' \<longleftrightarrow> logged 2 s s' \<and> bitmap_ok s'
     \<and> (\<forall>x < fs_size s. block_used x s' \<longleftrightarrow> block_used x s \<or> x = b)
     \<and> (\<forall>i < BSIZE. bview s' b i = 0)
     \<and> (\<forall>k. k \<noteq> b \<and> k \<noteq> BBLOCK b s \<longrightarrow> bview s' k = bview s k)"

lemma take_block:
  assumes ok: "bitmap_ok s" "room 2 s" and b: "b < fs_size s" "\<not> block_used b s"
  shows "\<exists>s'. bindR (blog (BBLOCK b s) ((bview s (BBLOCK b s))((b mod BPB) div 8 :=
             bview s (BBLOCK b s) ((b mod BPB) div 8) OR bit_mask (b mod BPB))) s) (bzero b) = Ok s'
           \<and> allocated b s s'"
proof -
  obtain t where t: "blog (BBLOCK b s) ((bview s (BBLOCK b s))((b mod BPB) div 8 :=
      bview s (BBLOCK b s) ((b mod BPB) div 8) OR bit_mask (b mod BPB))) s = Ok t" "logged 1 s t"
    "bview t = (bview s)(BBLOCK b s := (bview s (BBLOCK b s))((b mod BPB) div 8 :=
      bview s (BBLOCK b s) ((b mod BPB) div 8) OR bit_mask (b mod BPB)))"
    using blog_ok[OF room_mono[OF ok(2)]] by fastforce
  have rt: "room 1 t" using room_logged[of 1 1 s t] ok(2) t(2) by (simp add: numeral_2_eq_2)
  obtain s' where s': "bzero b t = Ok s'" "logged 1 t s'"
    "bview s' = (bview t)(b := \<lambda>i. if i < BSIZE then 0 else bview t b i)"
    using bzero_ok[OF rt] by blast
  have l: "logged 2 s s'" using logged_trans[OF t(2) s'(2)] by (simp add: numeral_2_eq_2)
  have nb: "BBLOCK x s \<noteq> b" if "x < fs_size s" for x
    using that ok(1) b by (auto simp: bitmap_ok_def bitmap_block_def)
  have used: "block_used x s' \<longleftrightarrow> block_used x s \<or> x = b" if x: "x < fs_size s" for x
  proof -
    have "bview s' (BBLOCK x s') = bview t (BBLOCK x t)"
      using nb[OF x] logged_bitmap(1)[OF l] logged_bitmap(1)[OF t(2)] by (simp add: s'(3))
    then have "block_used x s' = block_used x t" by (simp add: block_used_def)
    then show ?thesis using block_used_set[OF t(2,3), of x] by simp
  qed
  have "bitmap_ok s'"
    using ok(1) used b(1) logged_bitmap[OF l] by (auto simp: bitmap_ok_def)
  moreover have "\<forall>i < BSIZE. bview s' b i = 0" by (simp add: s'(3))
  moreover have "\<forall>k. k \<noteq> b \<and> k \<noteq> BBLOCK b s \<longrightarrow> bview s' k = bview s k" by (simp add: s'(3) t(3))
  ultimately have "allocated b s s'" using l used by (simp add: allocated_def)
  then show ?thesis using t(1) s'(1) by auto
qed

lemma balloc_loop_ok:
  assumes "bitmap_ok s" "room 2 s" "b mod BPB = 0" "\<And>x. x < b \<Longrightarrow> x < fs_size s \<Longrightarrow> block_used x s"
  shows "(\<forall>x < fs_size s. block_used x s) \<and> balloc_loop b s = Ok (0, s)
    \<or> (\<exists>a s'. balloc_loop b s = Ok (a, s') \<and> a \<noteq> 0 \<and> unat a < fs_size s \<and> \<not> block_used (unat a) s
         \<and> (\<forall>x < unat a. block_used x s) \<and> allocated (unat a) s s')"
  using assms
proof (induction "fs_size s - b" arbitrary: b rule: less_induct)
  case (less b)
  note U = balloc_loop.simps[of b s]
  show ?case
  proof (cases "b < fs_size s")
    case False
    then show ?thesis using less.prems(4) by (auto simp: U fs_size_def)
  next
    case True
    show ?thesis
    proof (cases "free_bit b (fs_size s) (bview s (BBLOCK b s))")
      case None
      have step: "balloc_loop b s = balloc_loop (b + BPB) s"
        using True None unfolding U by (simp add: bread_def Let_def fs_size_def)
      have m: "fs_size s - (b + BPB) < fs_size s - b" using True BPB_pos by linarith
      have z: "(b + BPB) mod BPB = 0" using less.prems(3) by simp
      have u: "block_used x s" if "x < b + BPB" "x < fs_size s" for x
        using free_bit_None[OF less.prems(3) None, of x] less.prems(4) that by (cases "x < b") auto
      show ?thesis unfolding step using less.hyps[OF m less.prems(1,2) z] u by blast
    next
      case (Some bi)
      note f = free_bit_Some[OF less.prems(3) Some]
      let ?a = "of_nat (b + bi) :: u32"
      have "fs_size s < 2 ^ 32" unfolding fs_size_def by (rule order_less_le_trans[OF unsigned_less]) simp
      then have a: "unat ?a = b + bi" using f(2) by (simp add: unat_of_nat del: of_nat_add)
      have nz: "?a \<noteq> 0"
      proof
        assume "?a = 0"
        then have "b + bi = 0" using a by simp
        then show False using less.prems(1) f(3) by (simp add: bitmap_ok_def)
      qed
      note bb = block_bit[OF less.prems(3) f(1)]
      obtain s' where s': "bindR (blog (BBLOCK b s) ((bview s (BBLOCK b s))(bi div 8 :=
             bview s (BBLOCK b s) (bi div 8) OR bit_mask bi)) s) (bzero (b + bi)) = Ok s'" "allocated (b + bi) s s'"
        using take_block[OF less.prems(1,2) f(2,3)] unfolding bb by blast
      then have "balloc_loop b s = Ok (?a, s')"
        using True Some unfolding U by (auto simp: bread_def Let_def fs_size_def res_iff)
      moreover have "\<forall>x < b + bi. block_used x s" using f less.prems(4) by (metis linorder_not_le order_less_trans)
      ultimately show ?thesis using s'(2) f nz a by metis
    qed
  qed
qed

text \<open>
  C18. \<open>balloc\<close> on a file system whose bitmap covers itself, inside a transaction with two log
  entries to spare: if there is a free block it returns the lowest-numbered one, marks it in the
  bitmap and zeroes it, changes no other bit and no other block; if there is none it returns 0 and
  changes nothing. It never panics and never returns block 0 as allocated.
\<close>

theorem balloc_correct:
  assumes "bitmap_ok s" "room 2 s"
  shows "if \<exists>b < fs_size s. \<not> block_used b s
    then \<exists>a s'. balloc s = Ok (a, s') \<and> a \<noteq> 0
       \<and> unat a = (LEAST b. b < fs_size s \<and> \<not> block_used b s) \<and> allocated (unat a) s s'
    else balloc s = Ok (0, s)"
proof -
  have "(LEAST b. b < fs_size s \<and> \<not> block_used b s) = unat (a :: u32)"
    if "unat a < fs_size s" "\<not> block_used (unat a) s" "\<forall>x < unat a. block_used x s" for a
    using that by (intro Least_equality) (auto simp: not_less[symmetric])
  then show ?thesis
    using balloc_loop_ok[OF assms, of 0] by (auto simp: balloc_def)
qed

text \<open>
  C35. \<open>bfree\<close> panics exactly when the block is already free; otherwise it clears the one bit, so the
  block is free again, and changes no other bit and no block but that of the bitmap.
\<close>

theorem bfree_correct:
  assumes "room 1 s"
  shows "(bfree b s = Panic ''freeing free block'' \<longleftrightarrow> \<not> block_used (unat b) s)
    \<and> (block_used (unat b) s \<longrightarrow> (\<exists>s'. bfree b s = Ok s' \<and> logged 1 s s'
         \<and> (\<forall>x. block_used x s' \<longleftrightarrow> block_used x s \<and> x \<noteq> unat b)
         \<and> (\<forall>k. k \<noteq> BBLOCK (unat b) s \<longrightarrow> bview s' k = bview s k)))"
proof (cases "block_used (unat b) s")
  case False
  then show ?thesis by (simp add: bfree_def bread_def block_used_def Let_def)
next
  case True
  let ?k = "BBLOCK (unat b) s" and ?bi = "unat b mod BPB"
  obtain s' where s': "blog ?k ((bview s ?k)(?bi div 8 := bview s ?k (?bi div 8) AND NOT (bit_mask ?bi))) s = Ok s'"
    "logged 1 s s'" "bview s' = (bview s)(?k := (bview s ?k)(?bi div 8 := bview s ?k (?bi div 8) AND NOT (bit_mask ?bi)))"
    using blog_ok[OF assms] by blast
  then have "bfree b s = Ok s'"
    using True by (simp add: bfree_def bread_def block_used_def Let_def)
  then show ?thesis using True s'(2,3) block_used_reset[OF s'(2,3)] by simp
qed

text \<open>A file system of 2000 blocks laid out as by \<open>mkfs\<close>, with 48 blocks in use and a transaction
  open.\<close>

definition demo_fs :: fs_state where
  "demo_fs = (undefined :: fs_state)\<lparr>lh_n := 0, outstanding := 1,
     bview := (\<lambda>k. if k = 46 then (\<lambda>i. if i < 6 then 255 else 0) else zero_block),
     sb := \<lparr>magic = FSMAGIC, nblocks_total = 2000, nblocks = 1953, ninodes = 200, nlog = 31,
            logstart = 2, inodestart = 33, bmapstart = 46\<rparr>\<rparr>"

lemma demo_fs_size: "fs_size demo_fs = 2000"
  by (simp add: demo_fs_def fs_size_def)

lemma demo_fs_used: "x < 2000 \<Longrightarrow> block_used x demo_fs \<longleftrightarrow> x < 48"
proof -
  assume x: "x < 2000"
  have "(255 :: u8) = -1" by simp
  then have "bit (255 :: u8) (x mod 8)" by (simp only: bit_minus_1_iff possible_bit_word) simp
  moreover have "x mod BPB = x" "BBLOCK x demo_fs = 46"
    using x by (simp_all add: BPB_def BSIZE_def BBLOCK_def demo_fs_def)
  ultimately show ?thesis by (auto simp: block_used_def bit_clear_iff demo_fs_def)
qed

lemma demo_fs_ok: "bitmap_ok demo_fs" "room 2 demo_fs"
proof -
  have "BBLOCK b demo_fs = 46" if "b < 2000" for b
    using that by (simp add: BPB_def BSIZE_def BBLOCK_def demo_fs_def)
  then show "bitmap_ok demo_fs" by (auto simp: bitmap_ok_def bitmap_block_def demo_fs_size demo_fs_used)
  show "room 2 demo_fs" by (simp add: room_def demo_fs_def LOGBLOCKS_def MAXOPBLOCKS_def)
qed

theorem balloc_correct_witness: "\<exists>a s'. balloc demo_fs = Ok (a, s') \<and> unat a = 48"
proof -
  have l: "(LEAST b. b < fs_size demo_fs \<and> \<not> block_used b demo_fs) = 48"
    by (rule Least_equality) (auto simp: demo_fs_size demo_fs_used not_less[symmetric])
  moreover have "\<exists>b < fs_size demo_fs. \<not> block_used b demo_fs"
    by (rule exI[of _ 48]) (simp add: demo_fs_size demo_fs_used)
  ultimately show ?thesis using balloc_correct[OF demo_fs_ok] by auto
qed

theorem bfree_correct_witness:
  "(\<exists>s'. bfree 47 demo_fs = Ok s' \<and> \<not> block_used 47 s') \<and> bfree 48 demo_fs = Panic ''freeing free block''"
  using bfree_correct[OF room_mono[OF demo_fs_ok(2)], of 47] bfree_correct[OF room_mono[OF demo_fs_ok(2)], of 48]
  by (auto simp: demo_fs_used)

section \<open>Inodes on disk\<close>

definition dinode_ok :: "dinode \<Rightarrow> bool" where
  "dinode_ok d \<longleftrightarrow> (\<forall>i > NDIRECT. daddrs d i = 0)"

definition disk_inode :: "u32 \<Rightarrow> 'z fs_state_scheme \<Rightarrow> dinode" where
  "disk_inode i s = get_dinode (bview s (IBLOCK i s)) (dinode_off i)"

lemma get_put_dinode: "dinode_ok d \<Longrightarrow> get_dinode (put_dinode b a d) a = d"
proof -
  assume d: "dinode_ok d"
  let ?w = "map (daddrs d) [0..<NDIRECT + 1]"
  let ?h = "put32 (put16 (put16 (put16 (put16 b a (dtype d)) (a + 2) (dmajor d)) (a + 4) (dminor d)) (a + 6) (dnlink d)) (a + 8) (dsize d)"
  have ad: "daddrs (get_dinode (put_dinode b a d) a) i = daddrs d i" for i
  proof (cases "i \<le> NDIRECT")
    case True
    then have "get32 (put32s ?h (a + 12) ?w) (a + 12 + 4 * i) = ?w ! i" by (intro get32_put32s) simp
    then show ?thesis using True by (simp add: get_dinode_def put_dinode_def nth_append del: upt_Suc)
  qed (use d in \<open>simp add: get_dinode_def dinode_ok_def\<close>)
  have "daddrs (get_dinode (put_dinode b a d) a) = daddrs d" using ad by (rule ext)
  then show ?thesis
    by (intro dinode.equality)
      (simp_all add: get_dinode_def put_dinode_def get16_put32s_before get32_put32s_before
         get16_put32_other get16_put16_other)
qed

lemma bytes_cong: "(\<And>i. i < n \<Longrightarrow> b (a + i) = b' (a + i)) \<Longrightarrow> bget_bytes b a n = bget_bytes b' a n"
  by (rule nth_equalityI) (auto simp: bget_bytes_def)

lemma get_dinode_cong: "(\<And>i. i < 64 \<Longrightarrow> b (a + i) = b' (a + i)) \<Longrightarrow> get_dinode b a = get_dinode b' a"
proof -
  assume e: "\<And>i. i < 64 \<Longrightarrow> b (a + i) = b' (a + i)"
  have "bget_bytes b (a + k) n = bget_bytes b' (a + k) n" if "k + n \<le> 64" for k n
    using that by (intro bytes_cong) (simp add: e add.assoc)
  from this[of 0] this have "get16 b a = get16 b' a" "k + 2 \<le> 64 \<Longrightarrow> get16 b (a + k) = get16 b' (a + k)"
    "k + 4 \<le> 64 \<Longrightarrow> get32 b (a + k) = get32 b' (a + k)" for k
    by (simp_all add: get16_def get32_def)
  note g = this
  have "get32 b (a + 12 + 4 * i) = get32 b' (a + 12 + 4 * i)" if "i \<le> NDIRECT" for i
    using g(3)[of "12 + 4 * i"] that by (simp add: NDIRECT_def add.assoc)
  then have "(\<lambda>i. if i \<le> NDIRECT then get32 b (a + 12 + 4 * i) else 0) = (\<lambda>i. if i \<le> NDIRECT then get32 b' (a + 12 + 4 * i) else 0)"
    by auto
  then show ?thesis using g(1) g(2)[of 2] g(2)[of 4] g(2)[of 6] g(3)[of 8] by (simp add: get_dinode_def)
qed

lemma put_dinode_other: "i < a \<or> a + 64 \<le> i \<Longrightarrow> put_dinode b a d i = b i"
proof -
  assume i: "i < a \<or> a + 64 \<le> i"
  let ?w = "map (daddrs d) [0..<NDIRECT + 1]"
  have "length ?w = 13" by (simp add: NDIRECT_def)
  then have "i < a + 12 \<or> a + 12 + 4 * length ?w \<le> i" using i by auto
  then have "put32s h (a + 12) ?w i = h i" for h by (rule put32s_outside)
  then show ?thesis using i by (auto simp: put_dinode_def put32_def put16_def bput_bytes_other length_le_bytes)
qed

lemma dinode_place:
  assumes "IBLOCK i s = IBLOCK j s" "i \<noteq> j" "k < 64"
  shows "dinode_off j + k < dinode_off i \<or> dinode_off i + 64 \<le> dinode_off j + k"
proof -
  have "unat i div IPB = unat j div IPB" using assms(1) by (simp add: IBLOCK_def)
  moreover have "unat i \<noteq> unat j" using assms(2) by (simp add: word_unat_eq_iff)
  ultimately have "unat i mod IPB \<noteq> unat j mod IPB" by (metis div_mult_mod_eq)
  then show ?thesis using assms(3) unfolding dinode_off_def by linarith
qed

lemma IBLOCK_logged [logged_frame]: "logged k s s' \<Longrightarrow> IBLOCK i s' = IBLOCK i (s :: 'z fs_state_scheme)"
  by (simp add: IBLOCK_def logged_fs)

lemma iupdate_ok:
  assumes "room 1 s" "dinode_ok (icopy (inodes s ip))"
  shows "\<exists>s'. iupdate ip s = Ok s' \<and> logged 1 s s'
    \<and> (\<forall>j. disk_inode j s' = (if j = inum (inodes s ip) then icopy (inodes s ip) else disk_inode j s))
    \<and> (\<forall>k. k \<noteq> IBLOCK (inum (inodes s ip)) s \<longrightarrow> bview s' k = bview s k)"
proof -
  let ?n = "inodes s ip" and ?b = "IBLOCK (inum (inodes s ip)) s"
  obtain s' where s': "iupdate ip s = Ok s'" "logged 1 s s'"
    "bview s' = (bview s)(?b := put_dinode (bview s ?b) (dinode_off (inum ?n)) (icopy ?n))"
    using blog_ok[OF assms(1), of ?b "put_dinode (bview s ?b) (dinode_off (inum ?n)) (icopy ?n)"]
    by (auto simp: iupdate_def bread_def Let_def)
  have "disk_inode j s' = (if j = inum ?n then icopy ?n else disk_inode j s)" for j
  proof (cases "j = inum ?n")
    case True
    then show ?thesis using get_put_dinode[OF assms(2)] IBLOCK_logged[OF s'(2)]
      by (simp add: disk_inode_def s'(3))
  next
    case False
    have "get_dinode (bview s' (IBLOCK j s)) (dinode_off j) = get_dinode (bview s (IBLOCK j s)) (dinode_off j)"
    proof (cases "IBLOCK j s = ?b")
      case True
      show ?thesis
        by (rule get_dinode_cong)
          (use dinode_place[OF True[symmetric]] False True in \<open>simp add: s'(3) put_dinode_other\<close>)
    qed (simp add: s'(3))
    then show ?thesis using False IBLOCK_logged[OF s'(2)] by (simp add: disk_inode_def)
  qed
  then show ?thesis using s' by auto
qed

text \<open>
  C29. What \<open>iupdate\<close> writes, \<open>ilock\<close> reads back: after \<open>iupdate\<close> of an inode, locking any
  referenced entry of the inode table that stands for the same inode number and holds no valid copy
  yet loads exactly the type, link count, size and addresses that were written; every other inode on
  the disk, even in the same block, is unchanged.
\<close>

theorem iupdate_ilock:
  assumes "room 1 s" "dinode_ok (icopy (inodes s ip))" "dtype (icopy (inodes s ip)) \<noteq> 0"
    and "inum (inodes s jp) = inum (inodes s ip)" "iref (inodes s jp) \<ge> 1" "\<not> ivalid (inodes s jp)"
    and "acquiresleep (mypid me s) (ilk (inodes s jp)) = Ok l"
  shows "\<exists>s' s''. iupdate ip s = Ok s' \<and> ilock me jp s' = Ok s''
    \<and> icopy (inodes s'' jp) = icopy (inodes s ip) \<and> ivalid (inodes s'' jp)
    \<and> (\<forall>j. j \<noteq> inum (inodes s ip) \<longrightarrow> disk_inode j s' = disk_inode j s)"
proof -
  obtain s' where s': "iupdate ip s = Ok s'" "logged 1 s s'"
    "\<And>j. disk_inode j s' = (if j = inum (inodes s ip) then icopy (inodes s ip) else disk_inode j s)"
    using iupdate_ok[OF assms(1,2)] by blast
  have f: "inodes s' = inodes s" "mypid me s' = mypid me s"
    using logged_fs[OF s'(2)] logged_fields[OF s'(2)] by (simp_all add: mypid_def)
  have "disk_inode (inum (inodes s ip)) s' = icopy (inodes s ip)" using s'(3) by simp
  then have "\<exists>s''. ilock me jp s' = Ok s'' \<and> icopy (inodes s'' jp) = icopy (inodes s ip) \<and> ivalid (inodes s'' jp)"
    using assms(3-) by (simp add: ilock_def f Let_def upd_inode_def bread_def disk_inode_def IBLOCK_def)
  then show ?thesis using s' by auto
qed

text \<open>Two table entries for inode 5, the second of them empty so far.\<close>

definition demo_inodes :: fs_state where
  "demo_inodes = demo_fs\<lparr>inodes := (\<lambda>ip. \<lparr>idev = 1, inum = 5, iref = 1, ilk = initsleeplock ''inode'', ivalid = (ip = 0),
     icopy = \<lparr>dtype = T_FILE, dmajor = 0, dminor = 0, dnlink = 1, dsize = 7, daddrs = (\<lambda>i. if i = 0 then 100 else 0)\<rparr>\<rparr>)\<rparr>"

theorem iupdate_ilock_witness:
  "\<exists>s' s''. iupdate 0 demo_inodes = Ok s' \<and> ilock 3 1 s' = Ok s'' \<and> dsize (icopy (inodes s'' 1)) = 7"
proof -
  have "room 1 demo_inodes" using room_mono[OF demo_fs_ok(2), of 1] by (simp add: room_def demo_inodes_def)
  then show ?thesis
    using iupdate_ilock[of demo_inodes 0 1 3]
    by (fastforce simp: demo_inodes_def dinode_ok_def NDIRECT_def T_FILE_def acquiresleep_def initsleeplock_def)
qed

end
