(* ===== verification/Fs_File.thy ===== *)
theory Fs_File
  imports Fs_Blocks
begin

text \<open>
  The contents of a file. \<open>slot_addr ip k\<close> is the address of data block \<open>k\<close> of an inode, and for
  \<open>k = MAXFILE\<close> that of its indirect block; \<open>file_byte\<close> is the byte at an offset, zero where no
  block is allocated. \<open>bmap\<close> changes neither the contents nor other files; \<open>readi\<close> returns the
  bytes of the contents, \<open>writei\<close> replaces a range of them.
\<close>

section \<open>The blocks of an inode\<close>

definition file_addr :: "nat \<Rightarrow> nat \<Rightarrow> 'z fs_state_scheme \<Rightarrow> u32" where
  "file_addr ip bn s =
     (if bn < NDIRECT then iaddr ip bn s
      else if iaddr ip NDIRECT s = 0 then 0
      else get32 (bview s (unat (iaddr ip NDIRECT s))) (4 * (bn - NDIRECT)))"

definition slot_addr :: "nat \<Rightarrow> nat \<Rightarrow> 'z fs_state_scheme \<Rightarrow> u32" where
  "slot_addr ip k s = (if k = MAXFILE then iaddr ip NDIRECT s else file_addr ip k s)"

definition file_byte :: "nat \<Rightarrow> nat \<Rightarrow> 'z fs_state_scheme \<Rightarrow> u8" where
  "file_byte ip i s =
     (if file_addr ip (i div BSIZE) s = 0 then 0
      else bview s (unat (file_addr ip (i div BSIZE) s)) (i mod BSIZE))"

definition file_blocks :: "nat \<Rightarrow> 'z fs_state_scheme \<Rightarrow> nat set" where
  "file_blocks ip s = {unat (slot_addr ip k s) | k. k \<le> MAXFILE \<and> slot_addr ip k s \<noteq> 0}"

definition data_block :: "nat \<Rightarrow> nat \<Rightarrow> 'z fs_state_scheme \<Rightarrow> bool" where
  "data_block ip b s \<longleftrightarrow> b < fs_size s \<and> block_used b s \<and> \<not> bitmap_block b s \<and> b \<noteq> IBLOCK (inum (inodes s ip)) s"

text \<open>The blocks of the inode are allocated, are not those of the bitmap or of the inode itself, and
  no two slots share a block.\<close>

definition file_ok :: "nat \<Rightarrow> 'z fs_state_scheme \<Rightarrow> bool" where
  "file_ok ip s \<longleftrightarrow> bitmap_ok s \<and> dinode_ok (icopy (inodes s ip))
     \<and> IBLOCK (inum (inodes s ip)) s < fs_size s \<and> block_used (IBLOCK (inum (inodes s ip)) s) s
     \<and> \<not> bitmap_block (IBLOCK (inum (inodes s ip)) s) s
     \<and> (\<forall>k \<le> MAXFILE. slot_addr ip k s \<noteq> 0 \<longrightarrow> data_block ip (unat (slot_addr ip k s)) s)
     \<and> inj_on (\<lambda>k. slot_addr ip k s) {k. k \<le> MAXFILE \<and> slot_addr ip k s \<noteq> 0}"

lemma MAXFILE_gt [simp]: "NDIRECT < MAXFILE" "k < NDIRECT \<Longrightarrow> k \<noteq> MAXFILE" "k < NINDIRECT \<Longrightarrow> NDIRECT + k \<noteq> MAXFILE"
  by (auto simp: MAXFILE_def NDIRECT_def NINDIRECT_def BSIZE_def)

lemma slot_addr_simps:
  "slot_addr ip MAXFILE s = iaddr ip NDIRECT s"
  "k < MAXFILE \<Longrightarrow> slot_addr ip k s = file_addr ip k s"
  by (simp_all add: slot_addr_def)

text \<open>What happens to one inode in a step that leaves its contents alone.\<close>

definition same_file :: "nat \<Rightarrow> 'z fs_state_scheme \<Rightarrow> 'z fs_state_scheme \<Rightarrow> bool" where
  "same_file ip s t \<longleftrightarrow> (\<forall>i < MAXFILE * BSIZE. file_byte ip i t = file_byte ip i s)"

text \<open>
  What an operation on inode \<open>ip\<close> may do to the rest: it leaves the other entries of the inode
  table, the superblock and all blocks alone except the bitmap, the block of the inode on disk,
  the blocks of the file and blocks that were free; blocks in use stay so. Of the inode it changes
  the size and the addresses only, and takes no block from the file.
\<close>

definition entry_of :: "inode \<Rightarrow> u32 \<times> int \<times> sleeplock \<times> bool \<times> u16" where
  "entry_of i = (idev i, iref i, ilk i, ivalid i, dtype (icopy i))"

definition confined :: "nat \<Rightarrow> 'z fs_state_scheme \<Rightarrow> 'z fs_state_scheme \<Rightarrow> bool" where
  "confined ip s t \<longleftrightarrow> sb t = sb s \<and> (\<forall>jp. jp \<noteq> ip \<longrightarrow> inodes t jp = inodes s jp)
     \<and> inum (inodes t ip) = inum (inodes s ip) \<and> outstanding t = outstanding s
     \<and> entry_of (inodes t ip) = entry_of (inodes s ip)
     \<and> (\<forall>m < MAXFILE. file_addr ip m s \<noteq> 0 \<longrightarrow> file_addr ip m t \<noteq> 0)
     \<and> (\<forall>b < fs_size s. block_used b s \<longrightarrow> block_used b t)
     \<and> (\<forall>b \<in> file_blocks ip t. b \<in> file_blocks ip s \<or> b < fs_size s \<and> \<not> block_used b s)
     \<and> (\<forall>b. bview t b \<noteq> bview s b \<longrightarrow> bitmap_block b s \<or> b = IBLOCK (inum (inodes s ip)) s
           \<or> b \<in> file_blocks ip s \<or> b < fs_size s \<and> \<not> block_used b s)"

lemma confined_refl [simp]: "confined ip s s"
  by (simp add: confined_def)

lemma confined_sb:
  assumes "confined ip s t"
  shows "fs_size t = fs_size s" "bitmap_block b t = bitmap_block b s" "IBLOCK i t = IBLOCK i s" "BBLOCK b t = BBLOCK b s"
  using assms by (simp_all add: confined_def fs_size_def bitmap_block_def IBLOCK_def BBLOCK_def)

lemma confined_trans:
  assumes st: "confined ip s t" and tu: "confined ip t u"
  shows "confined ip s u"
proof -
  note e = confined_sb[OF st]
  have used: "\<forall>b < fs_size s. block_used b s \<longrightarrow> block_used b u"
    using st tu by (simp add: confined_def e)
  have st_fb: "b \<in> file_blocks ip t \<Longrightarrow> b \<in> file_blocks ip s \<or> b < fs_size s \<and> \<not> block_used b s" for b
    using st by (simp add: confined_def)
  have free: "b < fs_size s \<Longrightarrow> \<not> block_used b t \<Longrightarrow> \<not> block_used b s" for b
    using st by (auto simp: confined_def)
  have "\<forall>b \<in> file_blocks ip u. b \<in> file_blocks ip s \<or> b < fs_size s \<and> \<not> block_used b s"
    using tu st_fb free e(1) unfolding confined_def by metis
  moreover have "bitmap_block b s \<or> b = IBLOCK (inum (inodes s ip)) s \<or> b \<in> file_blocks ip s \<or> b < fs_size s \<and> \<not> block_used b s"
    if "bview u b \<noteq> bview s b" for b
  proof (cases "bview t b = bview s b")
    case True
    then have "bitmap_block b t \<or> b = IBLOCK (inum (inodes t ip)) t \<or> b \<in> file_blocks ip t \<or> b < fs_size t \<and> \<not> block_used b t"
      using that tu by (simp add: confined_def)
    moreover have "inum (inodes t ip) = inum (inodes s ip)" using st by (simp add: confined_def)
    ultimately show ?thesis using st_fb[of b] free[of b] by (auto simp: e)
  next
    case False
    then show ?thesis using st by (simp add: confined_def)
  qed
  ultimately show ?thesis using used st tu by (simp add: confined_def)
qed

section \<open>Allocation is invisible\<close>

text \<open>Two states in which the inode and its indirect block are the same have the same addresses.\<close>

lemma slot_addr_cong:
  assumes "icopy (inodes t ip) = icopy (inodes s ip)"
    and "iaddr ip NDIRECT s \<noteq> 0 \<Longrightarrow> bview t (unat (iaddr ip NDIRECT s)) = bview s (unat (iaddr ip NDIRECT s))"
  shows "slot_addr ip k t = slot_addr ip k s" "file_addr ip k t = file_addr ip k s"
  using assms by (simp_all add: slot_addr_def file_addr_def)

lemma file_byte_cong:
  assumes "file_addr ip (i div BSIZE) t = file_addr ip (i div BSIZE) s"
    and "file_addr ip (i div BSIZE) s \<noteq> 0 \<Longrightarrow>
      bview t (unat (file_addr ip (i div BSIZE) s)) (i mod BSIZE) = bview s (unat (file_addr ip (i div BSIZE) s)) (i mod BSIZE)"
  shows "file_byte ip i t = file_byte ip i s"
  using assms by (simp add: file_byte_def)

lemma offset_block: "i < MAXFILE * BSIZE \<Longrightarrow> i div BSIZE < MAXFILE"
  by (simp add: BSIZE_def less_mult_imp_div_less)

lemma file_ok_slot:
  assumes "file_ok ip s" "k \<le> MAXFILE" "slot_addr ip k s \<noteq> 0"
  shows "data_block ip (unat (slot_addr ip k s)) s"
  using assms by (simp add: file_ok_def)

lemma file_ok_inj:
  assumes "file_ok ip s" "k \<le> MAXFILE" "j \<le> MAXFILE" "slot_addr ip k s = slot_addr ip j s" "slot_addr ip k s \<noteq> 0"
  shows "k = j"
proof -
  have "inj_on (\<lambda>k. slot_addr ip k s) {k. k \<le> MAXFILE \<and> slot_addr ip k s \<noteq> 0}"
    using assms(1) by (simp add: file_ok_def)
  from inj_onD[OF this, of k j] show ?thesis using assms by simp
qed

lemma file_ok_addr:
  assumes "file_ok ip s" "k < MAXFILE" "file_addr ip k s \<noteq> 0"
  shows "data_block ip (unat (file_addr ip k s)) s"
  using file_ok_slot[OF assms(1), of k] assms(2,3) by (simp add: slot_addr_def)

lemma file_ok_indirect:
  assumes "file_ok ip s" "iaddr ip NDIRECT s \<noteq> 0"
  shows "data_block ip (unat (iaddr ip NDIRECT s)) s"
  using file_ok_slot[OF assms(1), of MAXFILE] assms(2) by (simp add: slot_addr_def)

text \<open>\<open>balloc\<close> leaves every file alone.\<close>

lemma allocated_fields:
  assumes "allocated b s t"
  shows "logged 2 s t" "bitmap_ok t" "\<And>x. x < fs_size s \<Longrightarrow> block_used x t \<longleftrightarrow> block_used x s \<or> x = b"
    "\<And>k. k \<noteq> b \<Longrightarrow> k \<noteq> BBLOCK b s \<Longrightarrow> bview t k = bview s k" "\<And>i. i < BSIZE \<Longrightarrow> bview t b i = 0"
  using assms by (auto simp: allocated_def)

lemma allocated_file:
  assumes ok: "file_ok ip s" and al: "allocated b s t" and b: "b < fs_size s" "\<not> block_used b s"
  shows "slot_addr ip k t = slot_addr ip k s" "file_ok ip t" "same_file ip s t" "confined ip s t"
    "data_block ip b t" "b \<notin> file_blocks ip t"
proof -
  note f = allocated_fields[OF al] and e = logged_bitmap[OF allocated_fields(1)[OF al]]
  have i: "inodes t = inodes s" "sb t = sb s" using logged_fs[OF f(1)] by simp_all
  have ib: "IBLOCK j t = IBLOCK j s" for j by (rule IBLOCK_logged[OF f(1)])
  have keep: "bview t x = bview s x" if "data_block ip x s" for x
    using that b f(4)[of x] by (auto simp: data_block_def bitmap_block_def)
  have dkeep: "data_block ip x t" if "data_block ip x s" for x
    using that f(3)[of x] by (simp add: data_block_def e ib i)
  have slot: "slot_addr ip k t = slot_addr ip k s" "file_addr ip k t = file_addr ip k s" for k
    using slot_addr_cong[of t ip s k] keep[OF file_ok_indirect[OF ok]] i by simp_all
  show "slot_addr ip k t = slot_addr ip k s" by (rule slot)
  have ibk: "b \<noteq> IBLOCK (inum (inodes s ip)) s" using ok b by (auto simp: file_ok_def)
  show "file_ok ip t"
    using ok f(2,3) dkeep by (simp add: file_ok_def slot i ib e)
  show "same_file ip s t" unfolding same_file_def
  proof (intro allI impI)
    fix i assume "i < MAXFILE * BSIZE"
    then show "file_byte ip i t = file_byte ip i s"
      using keep[OF file_ok_addr[OF ok offset_block]] by (intro file_byte_cong) (simp_all add: slot)
  qed
  have fb: "file_blocks ip t = file_blocks ip s" by (simp add: file_blocks_def slot)
  have ch: "x = b \<or> bitmap_block x s" if "bview t x \<noteq> bview s x" for x
    using f(4)[of x] that b(1) by (auto simp: bitmap_block_def)
  show "confined ip s t"
    using f(3) ch logged_fields(1)[OF f(1)] b by (auto simp: confined_def i fb slot)
  have "\<not> bitmap_block b s" using ok b by (auto simp: file_ok_def bitmap_ok_def)
  then show "data_block ip b t" using b f(3)[of b] ibk by (simp add: data_block_def e ib i)
  show "b \<notin> file_blocks ip t"
    using ok b unfolding fb by (auto simp: file_ok_def file_blocks_def data_block_def)
qed

text \<open>A fresh block is put into an empty slot; the slots are those of the new state.\<close>

lemma file_ok_hook:
  assumes ok: "file_ok ip s" and conf: "bitmap_ok t" "dinode_ok (icopy (inodes t ip))" "inum (inodes t ip) = inum (inodes s ip)"
    and used: "\<And>x. x < fs_size s \<Longrightarrow> block_used x t = block_used x s" and sb: "sb t = sb s"
    and slot: "\<And>k. k \<le> MAXFILE \<Longrightarrow> slot_addr ip k t = (if k = j then a else slot_addr ip k s)"
    and a: "data_block ip (unat a) s" "unat a \<notin> file_blocks ip s"
  shows "file_ok ip t" "file_blocks ip t \<subseteq> insert (unat a) (file_blocks ip s)"
proof -
  have e: "fs_size t = fs_size s" "BBLOCK x t = BBLOCK x s" "bitmap_block x t = bitmap_block x s" "IBLOCK i t = IBLOCK i s" for x i
    using sb by (simp_all add: fs_size_def BBLOCK_def bitmap_block_def IBLOCK_def)
  have d: "data_block ip x t = data_block ip x s" for x
    using used[of x] conf(3) by (auto simp: data_block_def e)
  have "data_block ip (unat (slot_addr ip k t)) t" if "k \<le> MAXFILE" "slot_addr ip k t \<noteq> 0" for k
    using that a(1) file_ok_slot[OF ok, of k] by (simp add: d slot split: if_splits)
  moreover have "inj_on (\<lambda>k. slot_addr ip k t) {k. k \<le> MAXFILE \<and> slot_addr ip k t \<noteq> 0}"
  proof (rule inj_onI, clarify)
    fix k l assume kl: "k \<le> MAXFILE" "l \<le> MAXFILE" "slot_addr ip k t = slot_addr ip l t" "slot_addr ip k t \<noteq> 0" "slot_addr ip l t \<noteq> 0"
    have old: "slot_addr ip m s \<noteq> a" if "m \<le> MAXFILE" "slot_addr ip m s \<noteq> 0" for m
      using that a(2) by (auto simp: file_blocks_def)
    have "inj_on (\<lambda>k. slot_addr ip k s) {k. k \<le> MAXFILE \<and> slot_addr ip k s \<noteq> 0}" using ok by (simp add: file_ok_def)
    then show "k = l" using kl old by (auto simp: slot inj_on_def split: if_splits)
  qed
  ultimately show "file_ok ip t"
    using ok conf used by (simp add: file_ok_def e)
  show "file_blocks ip t \<subseteq> insert (unat a) (file_blocks ip s)"
    by (auto simp: file_blocks_def slot split: if_splits)
qed

lemma get32_zero: "(\<And>i. i < 4 \<Longrightarrow> b (a + i) = 0) \<Longrightarrow> get32 b a = 0"
  using bytes_cong[of 4 b a zero_block] get_zero_block(1)[of a] by (simp add: get32_def zero_block_def)

text \<open>A step that may allocate blocks to the inode but leaves the contents alone.\<close>

definition grown :: "nat \<Rightarrow> nat \<Rightarrow> 'z fs_state_scheme \<Rightarrow> 'z fs_state_scheme \<Rightarrow> bool" where
  "grown k ip s t \<longleftrightarrow> file_ok ip t \<and> same_file ip s t \<and> confined ip s t \<and> lh_n t \<le> lh_n s + k
     \<and> dsize (icopy (inodes t ip)) = dsize (icopy (inodes s ip)) \<and> phys t = phys s \<and> procs t = procs s"

lemma grown_trans: "grown k ip s t \<Longrightarrow> grown j ip t u \<Longrightarrow> grown (k + j) ip s u"
  using confined_trans[of ip s t u] by (auto simp: grown_def same_file_def)

lemma grown_refl: "file_ok ip s \<Longrightarrow> grown k ip s s"
  by (simp add: grown_def same_file_def)

lemma grown_mono: "grown k ip s t \<Longrightarrow> k \<le> j \<Longrightarrow> grown j ip s t"
  by (simp add: grown_def)

lemma room_grown: "room (k + j) s \<Longrightarrow> grown k ip s t \<Longrightarrow> room j t"
  by (auto simp: room_def grown_def confined_def)

lemma logged_phys: "logged k s t \<Longrightarrow> phys t = phys s"
  by (subst (asm) logged_def, erule conjE, drule arg_cong[of _ _ phys]) simp

lemma balloc_file:
  assumes "file_ok ip s" "room 2 s"
  shows "(\<forall>b < fs_size s. block_used b s) \<and> balloc s = Ok (0, s)
    \<or> (\<exists>a t. balloc s = Ok (a, t) \<and> a \<noteq> 0 \<and> grown 2 ip s t \<and> data_block ip (unat a) t
         \<and> unat a \<notin> file_blocks ip t \<and> unat a < fs_size s \<and> \<not> block_used (unat a) s
         \<and> (\<forall>i < BSIZE. bview t (unat a) i = 0) \<and> (\<forall>k. slot_addr ip k t = slot_addr ip k s))"
proof -
  have ok: "bitmap_ok s" using assms(1) by (simp add: file_ok_def)
  consider "(\<forall>x < fs_size s. block_used x s) \<and> balloc_loop 0 s = Ok (0, s)"
    | a t where "balloc_loop 0 s = Ok (a, t)" "a \<noteq> 0" "unat a < fs_size s" "\<not> block_used (unat a) s"
        "allocated (unat a) s t"
    using balloc_loop_ok[OF ok assms(2), of 0] by auto
  then show ?thesis
  proof cases
    case 1
    then show ?thesis by (simp add: balloc_def)
  next
    case 2
    note f = allocated_file[OF assms(1) 2(5,3,4)] and g = allocated_fields[OF 2(5)]
    have "grown 2 ip s t"
      using f(2-4) g(1) logged_fs(2)[OF g(1)] logged_fields(3)[OF g(1)] logged_phys[OF g(1)]
      by (simp add: grown_def logged_def)
    then show ?thesis using 2 f g by (auto simp: balloc_def)
  qed
qed

text \<open>Putting a new block, free in the state before, into an empty slot keeps the step confined.\<close>

lemma confined_hook:
  assumes "confined ip s0 s" "sb t = sb s" "\<And>jp. jp \<noteq> ip \<Longrightarrow> inodes t jp = inodes s jp"
    and "inum (inodes t ip) = inum (inodes s ip)" "outstanding t = outstanding s"
    and "\<And>x. x < fs_size s \<Longrightarrow> block_used x t = block_used x s"
    and "file_blocks ip t \<subseteq> insert b (file_blocks ip s)" "b < fs_size s0" "\<not> block_used b s0"
    and ch: "\<And>x. bview t x \<noteq> bview s x \<Longrightarrow> x \<in> file_blocks ip s"
    and ino: "entry_of (inodes t ip) = entry_of (inodes s ip)"
    and keep: "\<And>m. m < MAXFILE \<Longrightarrow> file_addr ip m s \<noteq> 0 \<Longrightarrow> file_addr ip m t \<noteq> 0"
  shows "confined ip s0 t"
proof -
  have fb: "x \<in> file_blocks ip s \<Longrightarrow> x \<in> file_blocks ip s0 \<or> x < fs_size s0 \<and> \<not> block_used x s0" for x
    using assms(1) by (simp add: confined_def)
  have "x \<in> file_blocks ip t \<Longrightarrow> x \<in> file_blocks ip s0 \<or> x < fs_size s0 \<and> \<not> block_used x s0" for x
    using assms(7-9) fb[of x] by auto
  moreover have "bitmap_block x s0 \<or> x = IBLOCK (inum (inodes s0 ip)) s0 \<or> x \<in> file_blocks ip s0
      \<or> x < fs_size s0 \<and> \<not> block_used x s0" if "bview t x \<noteq> bview s0 x" for x
  proof (cases "bview t x = bview s x")
    case True
    then show ?thesis using that assms(1) by (simp add: confined_def)
  next
    case False
    then show ?thesis using ch[of x] fb[of x] by auto
  qed
  moreover have "\<forall>x < fs_size s0. block_used x s0 \<longrightarrow> block_used x t"
    using assms(1,6) confined_sb(1)[OF assms(1)] by (simp add: confined_def)
  ultimately show ?thesis using assms(1-5) ino keep by (simp add: confined_def)
qed

text \<open>A new block is \<open>fresh\<close> for a file: allocated since \<open>s0\<close>, zeroed, in no slot.\<close>

definition fresh :: "nat \<Rightarrow> u32 \<Rightarrow> 'z fs_state_scheme \<Rightarrow> 'z fs_state_scheme \<Rightarrow> bool" where
  "fresh ip a s0 s \<longleftrightarrow> a \<noteq> 0 \<and> data_block ip (unat a) s \<and> unat a \<notin> file_blocks ip s
     \<and> (\<forall>i < BSIZE. bview s (unat a) i = 0) \<and> unat a < fs_size s0 \<and> \<not> block_used (unat a) s0"

lemma hook_direct:
  assumes g: "grown n ip s0 s" and a: "fresh ip a s0 s" and k: "k \<le> NDIRECT" "iaddr ip k s = 0"
  shows "grown n ip s0 (set_addr ip k a s)"
proof -
  let ?t = "set_addr ip k a s"
  let ?j = "if k = NDIRECT then MAXFILE else k"
  have ok: "file_ok ip s" using g by (simp add: grown_def)
  have zero: "\<forall>i < BSIZE. bview s (unat a) i = 0" and az: "a \<noteq> 0" using a by (simp_all add: fresh_def)
  have fs: "bview ?t = bview s" "sb ?t = sb s" "outstanding ?t = outstanding s" "lh_n ?t = lh_n s" "phys ?t = phys s" "procs ?t = procs s"
    by (simp_all add: set_addr_def upd_inode_def)
  have ino: "inum (inodes ?t ip) = inum (inodes s ip)" "\<And>jp. jp \<noteq> ip \<Longrightarrow> inodes ?t jp = inodes s jp"
    "dsize (icopy (inodes ?t ip)) = dsize (icopy (inodes s ip))"
    "\<And>m. iaddr ip m ?t = (if m = k then a else iaddr ip m s)"
    by (simp_all add: set_addr_def upd_inode_def)
  have z32: "get32 (bview s (unat a)) (4 * m) = 0" if "m < NINDIRECT" for m
    using that zero by (intro get32_zero) (simp add: NINDIRECT_def)
  have faddr: "file_addr ip m ?t = (if m = k \<and> k < NDIRECT then a else file_addr ip m s)" if m: "m < MAXFILE" for m
  proof (cases "m < NDIRECT")
    case True
    then show ?thesis using k(1) by (auto simp: file_addr_def ino)
  next
    case False
    then have "m - NDIRECT < NINDIRECT" using m by (simp add: MAXFILE_def less_diff_conv2)
    note z = z32[OF this]
    have "file_addr ip m ?t = (if k = NDIRECT then 0 else file_addr ip m s)"
      using False z az unfolding file_addr_def fs(1) ino(4) by auto
    then show ?thesis using False k by (auto simp: file_addr_def)
  qed
  have slot: "slot_addr ip m ?t = (if m = ?j then a else slot_addr ip m s)" if "m \<le> MAXFILE" for m
  proof (cases "m = MAXFILE")
    case True
    have "MAXFILE \<noteq> k" using k(1) MAXFILE_gt(1) by linarith
    then show ?thesis using True k(1) ino(4)[of NDIRECT] by (cases "k = NDIRECT") (simp_all add: slot_addr_def)
  next
    case False
    then have "m < MAXFILE" using that by simp
    from faddr[OF this] show ?thesis using False k(1) by (cases "k = NDIRECT") (simp_all add: slot_addr_def)
  qed
  have e: "fs_size ?t = fs_size s" "BBLOCK x ?t = BBLOCK x s" "bitmap_block x ?t = bitmap_block x s" "block_used x ?t = block_used x s" for x
    using fs by (simp_all add: fs_size_def BBLOCK_def bitmap_block_def block_used_def)
  have bm: "bitmap_ok ?t" using ok by (simp add: bitmap_ok_def e file_ok_def)
  have di: "dinode_ok (icopy (inodes ?t ip))"
    using ok k(1) ino(4) by (auto simp: dinode_ok_def file_ok_def)
  have ad: "data_block ip (unat a) s" "unat a \<notin> file_blocks ip s" using a by (simp_all add: fresh_def)
  note h = file_ok_hook[OF ok bm di ino(1) e(4) fs(2) slot ad]
  have old: "k < NDIRECT \<Longrightarrow> file_addr ip k s = 0" using k by (simp add: file_addr_def)
  have "file_byte ip i ?t = file_byte ip i s" if i: "i < MAXFILE * BSIZE" for i
    using old zero faddr[OF offset_block[OF i]] by (auto simp: file_byte_def fs BSIZE_def split: if_splits)
  then have "same_file ip s0 ?t" using g by (simp add: same_file_def grown_def)
  moreover have "confined ip s0 ?t"
    by (rule confined_hook[OF _ fs(2) ino(2,1) fs(3) e(4) h(2)]) (use g a fs(1) faddr az in \<open>simp_all add: grown_def fresh_def entry_of_def set_addr_def upd_inode_def\<close>)
  ultimately show ?thesis using h(1) ino fs g by (simp add: grown_def)
qed

lemma get32_put32_slot: "i \<noteq> j \<Longrightarrow> get32 (put32 b (4 * j) w) (4 * i) = get32 b (4 * i)"
  by (intro get32_put32_other) linarith

lemma hook_indirect:
  assumes g: "grown n ip s0 s" and a: "fresh ip a s0 s" and k: "k < NINDIRECT" "file_addr ip (NDIRECT + k) s = 0"
    and ind: "iaddr ip NDIRECT s \<noteq> 0" and room: "room 1 s"
  shows "\<exists>t. blog (unat (iaddr ip NDIRECT s)) (put32 (bview s (unat (iaddr ip NDIRECT s))) (4 * k) a) s = Ok t
    \<and> grown (n + 1) ip s0 t \<and> file_addr ip (NDIRECT + k) t = a"
proof -
  let ?i = "unat (iaddr ip NDIRECT s)"
  obtain t where t: "blog ?i (put32 (bview s ?i) (4 * k) a) s = Ok t" "logged 1 s t"
    "bview t = (bview s)(?i := put32 (bview s ?i) (4 * k) a)"
    using blog_ok[OF room] by blast
  have ok: "file_ok ip s" using g by (simp add: grown_def)
  have zero: "\<forall>i < BSIZE. bview s (unat a) i = 0" and az: "a \<noteq> 0" using a by (simp_all add: fresh_def)
  note fs = logged_fs[OF t(2)] and ff = logged_fields[OF t(2)] and e = logged_bitmap[OF t(2)]
  have di: "data_block ip ?i s" by (rule file_ok_indirect[OF ok ind])
  have used: "block_used x t = block_used x s" if "x < fs_size s" for x
    using that di by (auto simp: block_used_def e t(3) data_block_def bitmap_block_def)
  have bm: "bitmap_ok t" using ok used by (simp add: bitmap_ok_def e file_ok_def)
  have faddr: "file_addr ip m t = (if m = NDIRECT + k then a else file_addr ip m s)" if m: "m < MAXFILE" for m
    using k(1) ind get32_put32_slot[of "m - NDIRECT" k]
    by (cases "m < NDIRECT"; cases "m = NDIRECT + k") (auto simp: file_addr_def fs t(3))
  have km: "NDIRECT + k < MAXFILE" "NDIRECT + k \<noteq> MAXFILE" using k(1) by (simp_all add: MAXFILE_def)
  have slot: "slot_addr ip m t = (if m = NDIRECT + k then a else slot_addr ip m s)" if "m \<le> MAXFILE" for m
    using that faddr[of m] km by (cases "m = MAXFILE") (auto simp: slot_addr_def fs)
  have ino: "dinode_ok (icopy (inodes t ip))" "inum (inodes t ip) = inum (inodes s ip)"
    using ok by (simp_all add: fs file_ok_def)
  have ad: "data_block ip (unat a) s" "unat a \<notin> file_blocks ip s" using a by (simp_all add: fresh_def)
  note h = file_ok_hook[OF ok bm ino used fs(1) slot ad]
  have ifb: "?i \<in> file_blocks ip s" using ind by (force simp: file_blocks_def slot_addr_def)
  have keep: "file_addr ip m s \<noteq> 0 \<Longrightarrow> m < MAXFILE \<Longrightarrow> unat (file_addr ip m s) \<noteq> ?i" for m
  proof
    assume m: "file_addr ip m s \<noteq> 0" "m < MAXFILE" "unat (file_addr ip m s) = ?i"
    have "file_addr ip m s = iaddr ip NDIRECT s" using m(3) by (simp only: word_unat_eq_iff)
    then have "slot_addr ip m s = slot_addr ip MAXFILE s" using m(2) by (simp add: slot_addr_simps)
    moreover have "slot_addr ip m s \<noteq> 0" using m(1,2) by (simp add: slot_addr_simps)
    ultimately have "m = MAXFILE" using m(2) by (intro file_ok_inj[OF ok]) simp_all
    then show False using m(2) by simp
  qed
  have anz: "unat a \<noteq> ?i" using ifb ad(2) by auto
  have "file_byte ip i t = file_byte ip i s" if i: "i < MAXFILE * BSIZE" for i
  proof (cases "i div BSIZE = NDIRECT + k")
    case True
    have "file_addr ip (i div BSIZE) t = a" using faddr[OF offset_block[OF i]] True by simp
    moreover have "i mod BSIZE < BSIZE" by (simp add: BSIZE_def)
    ultimately show ?thesis using zero anz k(2) True by (simp add: file_byte_def t(3))
  next
    case False
    have "file_addr ip (i div BSIZE) t = file_addr ip (i div BSIZE) s" using faddr[OF offset_block[OF i]] False by simp
    then show ?thesis using keep[OF _ offset_block[OF i]] by (intro file_byte_cong) (simp_all add: t(3))
  qed
  then have "same_file ip s0 t" using g by (simp add: same_file_def grown_def)
  moreover have "confined ip s0 t"
    by (rule confined_hook[OF _ fs(1) _ ino(2) ff(1) used h(2)])
      (use g a t(3) ifb faddr az in \<open>auto simp: grown_def fresh_def fs split: if_splits\<close>)
  ultimately have "grown (n + 1) ip s0 t"
    using h(1) g t(2) logged_phys[OF t(2)] ff(3) by (simp add: grown_def fs logged_def)
  then show ?thesis using t(1) faddr[OF km(1)] by simp
qed

text \<open>
  \<open>bmap\<close>: the address of a data block, allocating it and the indirect block if need be; 0 if the
  disk is full. It adds at most five entries to the log and never changes contents.
\<close>

lemma grown_full: "grown k ip s t \<Longrightarrow> (\<forall>b < fs_size s. block_used b s) \<Longrightarrow> \<forall>b < fs_size t. block_used b t"
  using confined_sb(1)[of ip s t] by (simp add: grown_def confined_def)

lemma balloc_fresh:
  assumes "file_ok ip s" "room 2 s"
  shows "(\<forall>b < fs_size s. block_used b s) \<and> balloc s = Ok (0, s)
    \<or> (\<exists>a t. balloc s = Ok (a, t) \<and> a \<noteq> 0 \<and> grown 2 ip s t \<and> fresh ip a s t \<and> (\<forall>k. slot_addr ip k t = slot_addr ip k s))"
  using balloc_file[OF assms] by (auto simp: fresh_def)

lemma iaddr_set_addr [simp]: "iaddr ip m (set_addr ip k a s) = (if m = k then a else iaddr ip m s)"
  by (simp add: set_addr_def upd_inode_def)

lemma bmap_direct:
  assumes ok: "file_ok ip s" "room 2 s" and bn: "bn < NDIRECT"
  shows "\<exists>a t. bmap ip bn s = Ok (a, t) \<and> grown 2 ip s t
    \<and> (if a = 0 then \<forall>b < fs_size t. block_used b t else file_addr ip bn t = a)"
proof (cases "iaddr ip bn s = 0")
  case False
  then show ?thesis using bn grown_refl[OF ok(1)] by (auto simp: bmap_def file_addr_def)
next
  case True
  from balloc_fresh[OF ok] show ?thesis
  proof (elim disjE exE conjE)
    assume "\<forall>b < fs_size s. block_used b s" "balloc s = Ok (0, s)"
    then show ?thesis using bn True grown_refl[OF ok(1)] by (simp add: bmap_def)
  next
    fix a t assume t: "balloc s = Ok (a, t)" "a \<noteq> 0" "grown 2 ip s t" "fresh ip a s t" "\<forall>k. slot_addr ip k t = slot_addr ip k s"
    have "slot_addr ip bn t = slot_addr ip bn s" using t(5) by simp
    then have "iaddr ip bn t = 0" using True bn by (simp add: slot_addr_def file_addr_def)
    then have "grown 2 ip s (set_addr ip bn a t)" using hook_direct[OF t(3,4)] bn by simp
    moreover have "bmap ip bn s = Ok (a, set_addr ip bn a t)" using bn True t(1,2) by (simp add: bmap_def)
    moreover have "file_addr ip bn (set_addr ip bn a t) = a" using bn by (simp add: file_addr_def)
    ultimately show ?thesis using t(2) by auto
  qed
qed

text \<open>The second half of \<open>bmap\<close>, from an indirect block that is there.\<close>

lemma bmap_entry:
  assumes g: "grown n ip s0 s" "room 3 s" and k: "k < NINDIRECT" and ind: "iaddr ip NDIRECT s \<noteq> 0"
  shows "\<exists>a t. (let a = get32 (bread (unat (iaddr ip NDIRECT s)) s) (4 * k)
      in if a = 0
         then bindR (balloc s) (\<lambda>(a', s2).
                if a' \<noteq> 0
                then bindR (blog (unat (iaddr ip NDIRECT s)) (put32 (bread (unat (iaddr ip NDIRECT s)) s2) (4 * k) a') s2) (\<lambda>s3. Ok (a', s3))
                else Ok (a', s2))
         else Ok (a, s)) = Ok (a, t)
    \<and> grown (n + 3) ip s0 t \<and> (if a = 0 then \<forall>b < fs_size t. block_used b t else file_addr ip (NDIRECT + k) t = a)"
proof (cases "file_addr ip (NDIRECT + k) s = 0")
  case False
  then show ?thesis using ind grown_mono[OF g(1)] by (auto simp: file_addr_def bread_def Let_def)
next
  case True
  have ok: "file_ok ip s" using g(1) by (simp add: grown_def)
  have z: "get32 (bread (unat (iaddr ip NDIRECT s)) s) (4 * k) = 0" using True ind by (simp add: file_addr_def bread_def)
  have r2: "room 2 s" using room_mono[OF g(2)] by simp
  from balloc_fresh[OF ok r2] show ?thesis
  proof (elim disjE exE conjE)
    assume "\<forall>b < fs_size s. block_used b s" "balloc s = Ok (0, s)"
    then show ?thesis using z grown_mono[OF g(1)] by (auto simp: Let_def)
  next
    fix a t assume t: "balloc s = Ok (a, t)" "a \<noteq> 0" "grown 2 ip s t" "fresh ip a s t" "\<forall>k. slot_addr ip k t = slot_addr ip k s"
    have i: "iaddr ip NDIRECT t = iaddr ip NDIRECT s" using t(5)[rule_format, of MAXFILE] by (simp add: slot_addr_def)
    have "NDIRECT + k < MAXFILE" using k by (simp add: MAXFILE_def)
    then have fa: "file_addr ip (NDIRECT + k) t = 0" using t(5)[rule_format, of "NDIRECT + k"] True by (simp add: slot_addr_def)
    have fr: "fresh ip a s0 t"
      using t(4) g(1) confined_sb(1)[of ip s0 s] by (auto simp: fresh_def grown_def confined_def)
    have r: "room 1 t" using room_grown[OF _ t(3), of 1] g(2) by (simp add: eval_nat_numeral)
    obtain u where u: "blog (unat (iaddr ip NDIRECT t)) (put32 (bview t (unat (iaddr ip NDIRECT t))) (4 * k) a) t = Ok u"
      "grown (n + 2 + 1) ip s0 u" "file_addr ip (NDIRECT + k) u = a"
      using hook_indirect[OF grown_trans[OF g(1) t(3)] fr k fa _ r] ind i by auto
    have "grown (n + 3) ip s0 u" using u(2) by (rule grown_mono) simp
    then show ?thesis using z t(1,2) u by (auto simp: i Let_def bread_def)
  qed
qed

lemma bmap_ok:
  assumes ok: "file_ok ip s" "room 5 s" and bn: "bn < MAXFILE"
  shows "\<exists>a t. bmap ip bn s = Ok (a, t) \<and> grown 5 ip s t
    \<and> (if a = 0 then \<forall>b < fs_size t. block_used b t else file_addr ip bn t = a)"
proof (cases "bn < NDIRECT")
  case True
  have r2: "room 2 s" using room_mono[OF ok(2)] by simp
  have "grown 2 ip s t \<Longrightarrow> grown 5 ip s t" for t by (erule grown_mono) simp
  then show ?thesis using bmap_direct[OF ok(1) r2 True] by metis
next
  case False
  define k where "k = bn - NDIRECT"
  have k: "bn = NDIRECT + k" "k < NINDIRECT" using False bn by (auto simp: k_def MAXFILE_def)
  show ?thesis
  proof (cases "iaddr ip NDIRECT s = 0")
    case ind: False
    have r3: "room 3 s" using room_mono[OF ok(2)] by simp
    obtain a t where t: "bmap ip bn s = Ok (a, t)" "grown (0 + 3) ip s t"
      "if a = 0 then \<forall>b < fs_size t. block_used b t else file_addr ip bn t = a"
      using bmap_entry[OF grown_refl[OF ok(1), of 0] r3 k(2) ind] False k(2) ind
      by (auto simp: bmap_def k(1))
    then show ?thesis using grown_mono[OF t(2), of 5] by auto
  next
    case ind: True
    have r2: "room 2 s" using room_mono[OF ok(2)] by simp
    from balloc_fresh[OF ok(1) r2] show ?thesis
    proof (elim disjE exE conjE)
      assume "\<forall>b < fs_size s. block_used b s" "balloc s = Ok (0, s)"
      then show ?thesis using False k ind grown_refl[OF ok(1)] by (simp add: bmap_def)
    next
      fix a t assume t: "balloc s = Ok (a, t)" "a \<noteq> 0" "grown 2 ip s t" "fresh ip a s t" "\<forall>k. slot_addr ip k t = slot_addr ip k s"
      let ?t = "set_addr ip NDIRECT a t"
      have "iaddr ip NDIRECT t = 0" using t(5)[rule_format, of MAXFILE] ind by (simp add: slot_addr_def)
      then have g: "grown 2 ip s ?t" by (intro hook_direct[OF t(3,4)]) simp_all
      have r3: "room 3 ?t" using room_grown[OF _ g, of 3] ok(2) by simp
      have i: "iaddr ip NDIRECT ?t = a" "iaddr ip NDIRECT ?t \<noteq> 0" using t(2) by simp_all
      obtain a' u where u: "(let b = get32 (bread (unat a) ?t) (4 * k)
        in if b = 0
           then bindR (balloc ?t) (\<lambda>(a', s2).
                  if a' \<noteq> 0
                  then bindR (blog (unat a) (put32 (bread (unat a) s2) (4 * k) a') s2) (\<lambda>s3. Ok (a', s3))
                  else Ok (a', s2))
           else Ok (b, ?t)) = Ok (a', u)" "grown (2 + 3) ip s u"
        "if a' = 0 then \<forall>b < fs_size u. block_used b u else file_addr ip bn u = a'"
        using bmap_entry[OF g r3 k(2) i(2)] unfolding i(1) k(1) by blast
      have "bmap ip bn s = Ok (a', u)"
        using False k(2) ind t(1,2) u(1) by (simp add: bmap_def k(1))
      then show ?thesis using u(2,3) by auto
    qed
  qed
qed

section \<open>readi\<close>

lemma bmap_mapped: "bn < MAXFILE \<Longrightarrow> file_addr ip bn s \<noteq> 0 \<Longrightarrow> bmap ip bn s = Ok (file_addr ip bn s, s)"
proof -
  assume bn: "bn < MAXFILE" and a: "file_addr ip bn s \<noteq> 0"
  show ?thesis
  proof (cases "bn < NDIRECT")
    case True
    then show ?thesis using a by (simp add: bmap_def file_addr_def)
  next
    case False
    then have "bn - NDIRECT < NINDIRECT" using bn by (simp add: MAXFILE_def less_diff_conv2)
    moreover have "iaddr ip NDIRECT s \<noteq> 0" using a False by (auto simp: file_addr_def)
    ultimately show ?thesis using a False by (simp add: bmap_def file_addr_def bread_def Let_def)
  qed
qed

lemma readi_size_pos: "tot < n \<Longrightarrow> 0 < readi_size off tot n"
  by (simp add: readi_size_def BSIZE_def)

lemma readi_size_le: "readi_size off tot n \<le> n - tot" "readi_size off tot n + off mod BSIZE \<le> BSIZE"
proof -
  have "off mod BSIZE < BSIZE" by (simp add: BSIZE_def)
  then show "readi_size off tot n \<le> n - tot" "readi_size off tot n + off mod BSIZE \<le> BSIZE"
    unfolding readi_size_def by linarith+
qed

text \<open>The bytes of one block.\<close>

lemma in_block:
  assumes "j + off mod BSIZE < BSIZE"
  shows "(off + j) div BSIZE = off div BSIZE" "(off + j) mod BSIZE = off mod BSIZE + j"
proof -
  define q r where "q = off div BSIZE" and "r = off mod BSIZE"
  have rj: "r + j < BSIZE" using assms by (simp add: r_def add.commute)
  have "off = BSIZE * q + r" by (simp add: q_def r_def)
  then have e: "off + j = BSIZE * q + (r + j)" by simp
  have "(off + j) div BSIZE = q" "(off + j) mod BSIZE = r + j" unfolding e using rj by simp_all
  then show "(off + j) div BSIZE = off div BSIZE" "(off + j) mod BSIZE = off mod BSIZE + j"
    by (simp_all only: q_def r_def)
qed

lemma block_bytes:
  assumes "file_addr ip (off div BSIZE) s \<noteq> 0" "m + off mod BSIZE \<le> BSIZE"
  shows "bget_bytes (bread (unat (file_addr ip (off div BSIZE) s)) s) (off mod BSIZE) m = map (\<lambda>i. file_byte ip i s) [off..<off + m]"
proof (rule nth_equalityI)
  fix j assume "j < length (bget_bytes (bread (unat (file_addr ip (off div BSIZE) s)) s) (off mod BSIZE) m)"
  then have j: "j < m" by simp
  then have "j + off mod BSIZE < BSIZE" using assms(2) by linarith
  note d = in_block[OF this]
  show "bget_bytes (bread (unat (file_addr ip (off div BSIZE) s)) s) (off mod BSIZE) m ! j = map (\<lambda>i. file_byte ip i s) [off..<off + m] ! j"
    using assms(1) j d by (simp add: bget_bytes_def bread_def file_byte_def)
qed simp

lemma readi_loop_local:
  assumes "tot \<le> n" "\<And>i. off \<le> i \<Longrightarrow> i < off + (n - tot) \<Longrightarrow> i div BSIZE < MAXFILE \<and> file_addr ip (i div BSIZE) s \<noteq> 0"
  shows "readi_loop (\<lambda>t bs s. Ok (0, s)) ip off tot n s = Ok (Some n, map (\<lambda>i. file_byte ip i s) [off..<off + (n - tot)], s)"
  using assms
proof (induction "n - tot" arbitrary: off tot rule: less_induct)
  case less
  note U = readi_loop.simps[of "\<lambda>t bs s. Ok (0, s)" ip off tot n s]
  show ?case
  proof (cases "tot < n")
    case False
    then have "tot = n" using less.prems(1) by simp
    then show ?thesis using False unfolding U by simp
  next
    case True
    define m where "m = readi_size off tot n"
    have m: "0 < m" "m \<le> n - tot" "m + off mod BSIZE \<le> BSIZE"
      unfolding m_def using readi_size_pos[OF True] readi_size_le[of off tot n] by blast+
    have a: "off div BSIZE < MAXFILE" "file_addr ip (off div BSIZE) s \<noteq> 0" using less.prems(2)[of off] True by auto
    have dec: "n - (tot + m) < n - tot" "tot + m \<le> n" using m True by auto
    have IH: "readi_loop (\<lambda>t bs s. Ok (0, s)) ip (off + m) (tot + m) n s
        = Ok (Some n, map (\<lambda>i. file_byte ip i s) [off + m..<off + m + (n - (tot + m))], s)"
      by (rule less.hyps[OF dec]) (use less.prems(2) m in auto)
    have e: "off + m + (n - (tot + m)) = off + (n - tot)" using m(2) by simp
    have "[off..<off + (n - tot)] = [off..<off + m] @ [off + m..<off + (n - tot)]"
      using upt_add_eq_append[of off "off + m" "n - (tot + m)"] unfolding e by simp
    then show ?thesis
      using True bmap_mapped[OF a] a(2) block_bytes[OF a(2) m(3)] IH unfolding U e
      by (simp add: m_def[symmetric] Let_def)
  qed
qed

lemma u32_overflow: "(x :: u32) + y < x \<longleftrightarrow> unat x + unat y \<ge> 2 ^ 32"
proof -
  have "unat y < 2 ^ 32" by (rule order_less_le_trans[OF unsigned_less]) simp
  then show ?thesis by (auto simp: word_less_nat_alt unat_plus_if')
qed

lemma readi_local_eq:
  assumes "unat (dsize (icopy (inodes s ip))) \<le> MAXFILE * BSIZE"
    and "\<And>bn. bn * BSIZE < unat (dsize (icopy (inodes s ip))) \<Longrightarrow> file_addr ip bn s \<noteq> 0"
  shows "readi_local ip off n s =
    (let len = unat (dsize (icopy (inodes s ip)));
         k = (if unat off > len \<or> unat off + unat n \<ge> 2 ^ 32 then 0 else min (unat n) (len - unat off))
     in Ok (int k, map (\<lambda>i. file_byte ip i s) [unat off..<unat off + k], s))"
proof -
  let ?len = "dsize (icopy (inodes s ip))"
  note ov = u32_overflow[of off n]
  show ?thesis
  proof (cases "unat off > unat ?len \<or> unat off + unat n \<ge> 2 ^ 32")
    case True
    then show ?thesis using ov by (auto simp: readi_local_def readi_with_def Let_def word_less_nat_alt)
  next
    case False
    define n' where "n' = (if off + n > ?len then ?len - off else n)"
    have "unat (off + n) = unat off + unat n" using False by (simp add: unat_word_ariths)
    moreover have "unat (?len - off) = unat ?len - unat off" using False by (intro unat_sub) (simp add: word_le_nat_alt)
    ultimately have n': "unat n' = min (unat n) (unat ?len - unat off)" using False
      by (auto simp: n'_def word_less_nat_alt)
    have blk: "i div BSIZE < MAXFILE \<and> file_addr ip (i div BSIZE) s \<noteq> 0" if "i < unat ?len" for i
    proof -
      have "i div BSIZE * BSIZE \<le> i" by simp
      then have "i div BSIZE * BSIZE < unat ?len" using that by linarith
      moreover have "i < MAXFILE * BSIZE" using that assms(1) by linarith
      ultimately show ?thesis using assms(2) offset_block by blast
    qed
    have "unat n' < 2 ^ 31" using n' assms(1) by (simp add: MAXFILE_def NDIRECT_def NINDIRECT_def BSIZE_def)
    moreover have "readi_loop (\<lambda>t bs s. Ok (0, s)) ip (unat off) 0 (unat n') s
        = Ok (Some (unat n'), map (\<lambda>i. file_byte ip i s) [unat off..<unat off + (unat n' - 0)], s)"
      by (rule readi_loop_local) (use blk n' in auto)
    ultimately show ?thesis
      using False ov n' sint_of_nat32[of "unat n'"] unfolding readi_local_def readi_with_def Let_def n'_def[symmetric]
      by (simp add: word_less_nat_alt)
  qed
qed

text \<open>
  C21. \<open>readi\<close> into a local buffer of the kernel, on a file without holes: it returns the bytes of
  the file from \<open>off\<close> on, \<open>n\<close> of them or as many as there are before the end of the file, and 0 past
  the end or when \<open>off + n\<close> overflows; it never panics and changes nothing.
\<close>

theorem readi_correct:
  assumes "unat (dsize (icopy (inodes s ip))) \<le> MAXFILE * BSIZE"
    and "\<And>bn. bn * BSIZE < unat (dsize (icopy (inodes s ip))) \<Longrightarrow> file_addr ip bn s \<noteq> 0"
  shows "readi_local ip off n s =
    (let len = unat (dsize (icopy (inodes s ip)));
         k = (if unat off > len \<or> unat off + unat n \<ge> 2 ^ 32 then 0 else min (unat n) (len - unat off))
     in Ok (int k, map (\<lambda>i. file_byte ip i s) [unat off..<unat off + k], s))"
  using assms by (rule readi_local_eq)

section \<open>writei\<close>

text \<open>A step that replaces the bytes from \<open>off\<close> on by \<open>xs\<close>.\<close>

definition written :: "nat \<Rightarrow> nat \<Rightarrow> nat \<Rightarrow> u8 list \<Rightarrow> 'z fs_state_scheme \<Rightarrow> 'z fs_state_scheme \<Rightarrow> bool" where
  "written k ip off xs s t \<longleftrightarrow> file_ok ip t \<and> confined ip s t \<and> lh_n t \<le> lh_n s + k
     \<and> dsize (icopy (inodes t ip)) = dsize (icopy (inodes s ip))
     \<and> (\<forall>i < MAXFILE * BSIZE. file_byte ip i t
           = (if off \<le> i \<and> i < off + length xs then xs ! (i - off) else file_byte ip i s))"

lemma written_trans:
  assumes "written k ip off xs s t" "written j ip (off + length xs) ys t u"
  shows "written (k + j) ip off (xs @ ys) s u"
  using assms confined_trans[of ip s t u] by (auto simp: written_def nth_append)

lemma grown_written: "grown k ip s t \<Longrightarrow> written k ip off [] s t"
  by (auto simp: grown_def written_def same_file_def)

lemma written_mono: "written k ip off xs s t \<Longrightarrow> k \<le> j \<Longrightarrow> written j ip off xs s t"
  by (simp add: written_def)

lemma room_written: "room (k + j) s \<Longrightarrow> written k ip off xs s t \<Longrightarrow> room j t"
  by (auto simp: room_def written_def confined_def)

text \<open>Logging a block of the file that is not its indirect block.\<close>

lemma logged_data:
  assumes ok: "file_ok ip s" and l: "logged k s t" and v: "bview t = (bview s)(b := d)"
    and b: "\<not> bitmap_block b s" "iaddr ip NDIRECT s \<noteq> 0 \<Longrightarrow> b \<noteq> unat (iaddr ip NDIRECT s)"
    and src: "b \<in> file_blocks ip s \<or> b = IBLOCK (inum (inodes s ip)) s"
  shows "file_ok ip t" "confined ip s t" "\<And>m. file_addr ip m t = file_addr ip m s"
proof -
  note fs = logged_fs[OF l] and e = logged_bitmap[OF l] and ff = logged_fields[OF l]
  have used: "block_used x t = block_used x s" if "x < fs_size s" for x
    using that b(1) by (auto simp: block_used_def e v bitmap_block_def)
  have slot: "slot_addr ip m t = slot_addr ip m s" "file_addr ip m t = file_addr ip m s" for m
    by (rule slot_addr_cong; use b(2) fs(2) in \<open>auto simp: v\<close>)+
  show "file_addr ip m t = file_addr ip m s" for m by (rule slot)
  have d: "data_block ip x t = data_block ip x s" for x
    using used[of x] by (auto simp: data_block_def e fs(2) IBLOCK_logged[OF l])
  have "bitmap_ok t" using ok used by (simp add: bitmap_ok_def e file_ok_def)
  then show "file_ok ip t" using ok used d by (simp add: file_ok_def slot fs(2) e IBLOCK_logged[OF l])
  have "file_blocks ip t = file_blocks ip s" by (simp add: file_blocks_def slot)
  then show "confined ip s t"
    using used src by (auto simp: confined_def fs ff(1) v slot)
qed

lemma file_addr_distinct:
  assumes "file_ok ip s" "m < MAXFILE" "l < MAXFILE" "file_addr ip m s \<noteq> 0" "unat (file_addr ip m s) = unat (file_addr ip l s)"
  shows "m = l"
proof -
  have "file_addr ip m s = file_addr ip l s" using assms(5) by (simp only: word_unat_eq_iff)
  then show ?thesis using file_ok_inj[OF assms(1), of m l] assms(2-4) by (simp add: slot_addr_def)
qed

lemma file_addr_indirect:
  assumes ok: "file_ok ip s" and m: "m < MAXFILE" "file_addr ip m s \<noteq> 0"
  shows "unat (file_addr ip m s) \<noteq> unat (iaddr ip NDIRECT s)" "unat (file_addr ip m s) \<in> file_blocks ip s"
proof
  assume "unat (file_addr ip m s) = unat (iaddr ip NDIRECT s)"
  then have "file_addr ip m s = iaddr ip NDIRECT s" by (simp only: word_unat_eq_iff)
  then have "slot_addr ip m s = slot_addr ip MAXFILE s" using m(1) by (simp add: slot_addr_simps)
  moreover have "slot_addr ip m s \<noteq> 0" using m by (simp add: slot_addr_simps)
  ultimately have "m = MAXFILE" using m(1) by (intro file_ok_inj[OF ok]) simp_all
  then show False using m(1) by simp
next
  have "slot_addr ip m s = file_addr ip m s" "m \<le> MAXFILE" using m(1) by (simp_all add: slot_addr_simps)
  then show "unat (file_addr ip m s) \<in> file_blocks ip s" using m(2) unfolding file_blocks_def by force
qed

text \<open>A range of offsets inside one block.\<close>

lemma range_in_block:
  assumes "len + off mod BSIZE \<le> BSIZE"
  shows "off \<le> i \<and> i < off + len \<longleftrightarrow>
    i div BSIZE = off div BSIZE \<and> off mod BSIZE \<le> i mod BSIZE \<and> i mod BSIZE < off mod BSIZE + len"
    "i div BSIZE = off div BSIZE \<Longrightarrow> i - off = i mod BSIZE - off mod BSIZE"
proof -
  have e: "i = i div BSIZE * BSIZE + i mod BSIZE" "off = off div BSIZE * BSIZE + off mod BSIZE" by simp_all
  show "i - off = i mod BSIZE - off mod BSIZE" if "i div BSIZE = off div BSIZE"
    using e that by (metis diff_cancel2 add.commute)
  show "off \<le> i \<and> i < off + len \<longleftrightarrow>
    i div BSIZE = off div BSIZE \<and> off mod BSIZE \<le> i mod BSIZE \<and> i mod BSIZE < off mod BSIZE + len" (is "?l = ?r")
  proof
    assume l: ?l
    define j where "j = i - off"
    have i: "i = off + j" "j + off mod BSIZE < BSIZE" using l assms by (auto simp: j_def)
    show ?r using in_block[OF i(2)] l unfolding i(1) by auto
  next
    assume r: ?r
    define q where "q = off div BSIZE * BSIZE"
    have "i = q + i mod BSIZE" "off = q + off mod BSIZE" using r e by (simp_all add: q_def)
    then show ?l using r by linarith
  qed
qed

lemma write_block:
  assumes ok: "file_ok ip s" "room 1 s" and a: "off div BSIZE < MAXFILE" "file_addr ip (off div BSIZE) s \<noteq> 0"
    and len: "length xs + off mod BSIZE \<le> BSIZE"
  shows "\<exists>t. blog (unat (file_addr ip (off div BSIZE) s)) (bput_bytes (bread (unat (file_addr ip (off div BSIZE) s)) s) (off mod BSIZE) xs) s = Ok t
    \<and> written 1 ip off xs s t"
proof -
  define a where "a = unat (file_addr ip (off div BSIZE) s)"
  obtain t where t: "blog a (bput_bytes (bread a s) (off mod BSIZE) xs) s = Ok t" "logged 1 s t"
    "bview t = (bview s)(a := bput_bytes (bread a s) (off mod BSIZE) xs)"
    using blog_ok[OF ok(2)] by blast
  note ai = file_addr_indirect[OF ok(1) a, folded a_def]
  have nb: "\<not> bitmap_block a s" using file_ok_addr[OF ok(1) a] by (simp add: data_block_def a_def)
  note l = logged_data[OF ok(1) t(2,3) nb ai(1) disjI1[OF ai(2)]]
  have "file_byte ip i t = (if off \<le> i \<and> i < off + length xs then xs ! (i - off) else file_byte ip i s)"
    if i: "i < MAXFILE * BSIZE" for i
  proof (cases "i div BSIZE = off div BSIZE")
    case True
    have "file_byte ip i t = bput_bytes (bread a s) (off mod BSIZE) xs (i mod BSIZE)"
      using a(2) True by (simp add: file_byte_def l(3) t(3) a_def)
    moreover have "file_byte ip i s = bread a s (i mod BSIZE)" using a(2) True by (simp add: file_byte_def a_def bread_def)
    ultimately show ?thesis
      using range_in_block[OF len, of i] True by (auto simp: bput_bytes_def)
  next
    case False
    have "file_byte ip i t = file_byte ip i s"
    proof (rule file_byte_cong)
      show "file_addr ip (i div BSIZE) t = file_addr ip (i div BSIZE) s" by (rule l(3))
      assume "file_addr ip (i div BSIZE) s \<noteq> 0"
      then have "unat (file_addr ip (i div BSIZE) s) \<noteq> a"
        using file_addr_distinct[OF ok(1) offset_block[OF i] a(1)] False by (auto simp: a_def)
      then show "bview t (unat (file_addr ip (i div BSIZE) s)) (i mod BSIZE) = bview s (unat (file_addr ip (i div BSIZE) s)) (i mod BSIZE)"
        by (simp add: t(3))
    qed
    then show ?thesis using range_in_block(1)[OF len, of i] False by auto
  qed
  then have "written 1 ip off xs s t" using l t(2) logged_fs(2)[OF t(2)] by (simp add: written_def logged_def)
  then show ?thesis using t(1) by (auto simp: a_def)
qed

text \<open>The number of blocks a range of offsets touches.\<close>

definition touched :: "nat \<Rightarrow> nat \<Rightarrow> nat" where
  "touched off n = (off + n + BSIZE - 1) div BSIZE - off div BSIZE"

lemma touched_step:
  assumes "tot < n" "m = readi_size off tot n"
  shows "0 < touched off (n - tot)" "tot + m < n \<Longrightarrow> touched (off + m) (n - (tot + m)) + 1 = touched off (n - tot)"
proof -
  have B: "0 < BSIZE" by (simp add: BSIZE_def)
  have "off div BSIZE < (off + (n - tot) + BSIZE - 1) div BSIZE"
  proof -
    have "off div BSIZE + 1 = (off + BSIZE) div BSIZE" using B div_add_self2[of BSIZE off] by simp
    also have "\<dots> \<le> (off + (n - tot) + BSIZE - 1) div BSIZE" using assms(1) by (intro div_le_mono) linarith
    finally show ?thesis by simp
  qed
  then show pos: "0 < touched off (n - tot)" by (simp add: touched_def)
  assume m: "tot + m < n"
  then have mm: "m = BSIZE - off mod BSIZE" using assms(2) unfolding readi_size_def by linarith
  have "off mod BSIZE < BSIZE" using B by simp
  then have "off + m = (off div BSIZE + 1) * BSIZE" using mm div_mult_mod_eq[of off BSIZE]
    unfolding add_mult_distrib by linarith
  then have "(off + m) div BSIZE = off div BSIZE + 1" using B by simp
  moreover have e: "off + m + (n - (tot + m)) = off + (n - tot)" using m by simp
  ultimately show "touched (off + m) (n - (tot + m)) + 1 = touched off (n - tot)"
    using pos unfolding touched_def e by linarith
qed

definition disk_full :: "'z fs_state_scheme \<Rightarrow> bool" where
  "disk_full s \<longleftrightarrow> (\<forall>b < fs_size s. block_used b s)"

lemma writei_loop_ok:
  assumes "file_ok ip s" "tot \<le> length bs" "off + (length bs - tot) \<le> MAXFILE * BSIZE"
    and "tot < length bs \<Longrightarrow> room (6 * touched off (length bs - tot) + e) s"
  shows "\<exists>k t. writei_loop (\<lambda>t m s. Ok (0, take m (drop t bs), s)) ip off tot (length bs) s = Ok (k, t)
    \<and> tot \<le> k \<and> k \<le> length bs \<and> (k < length bs \<longrightarrow> disk_full t)
    \<and> written (if tot < length bs then 6 * touched off (length bs - tot) else 0) ip off (take (k - tot) (drop tot bs)) s t"
  using assms
proof (induction "length bs - tot" arbitrary: off tot s rule: less_induct)
  case less
  let ?get = "\<lambda>t m s. Ok (0, take m (drop t bs), s)"
  let ?n = "length bs"
  note U = writei_loop.simps[of ?get ip off tot ?n s]
  show ?case
  proof (cases "tot < ?n")
    case False
    then have "tot = ?n" using less.prems(2) by simp
    then show ?thesis using False grown_written[OF grown_refl[OF less.prems(1)]] unfolding U by simp
  next
    case True
    define m where "m = readi_size off tot ?n"
    have m: "0 < m" "m \<le> ?n - tot" "m + off mod BSIZE \<le> BSIZE"
      unfolding m_def using readi_size_pos[OF True] readi_size_le[of off tot ?n] by blast+
    note tch = touched_step[OF True m_def]
    have rm: "room (6 * touched off (?n - tot) + e) s" using less.prems(4) True by simp
    have ob: "off div BSIZE < MAXFILE" using less.prems(3) True by (intro offset_block) linarith
    have r5: "room 5 s" using tch(1) by (intro room_mono[OF rm]) linarith
    obtain a s1 where b: "bmap ip (off div BSIZE) s = Ok (a, s1)" "grown 5 ip s s1"
      "if a = 0 then \<forall>b < fs_size s1. block_used b s1 else file_addr ip (off div BSIZE) s1 = a"
      using bmap_ok[OF less.prems(1) r5 ob] by blast
    show ?thesis
    proof (cases "a = 0")
      case z: True
      have "written (6 * touched off (?n - tot)) ip off [] s s1"
        using grown_written[OF grown_mono[OF b(2), of "6 * touched off (?n - tot)"]] tch(1) by simp
      then show ?thesis using True z b less.prems(2) unfolding U by (simp add: disk_full_def)
    next
      case nz: False
      then have fa: "file_addr ip (off div BSIZE) s1 = a" using b(3) by simp
      let ?xs = "take m (drop tot bs)"
      have lx: "length ?xs = m" using m(2) by simp
      have ok1: "file_ok ip s1" using b(2) by (simp add: grown_def)
      have r1: "room 1 s1" using tch(1) by (intro room_grown[OF _ b(2)] room_mono[OF rm]) linarith
      obtain s2 where s2: "blog (unat a) (bput_bytes (bread (unat a) s1) (off mod BSIZE) ?xs) s1 = Ok s2" "written 1 ip off ?xs s1 s2"
        using write_block[OF ok1 r1 ob, of ?xs] fa nz lx m(3) by auto
      have w: "written (5 + 1) ip off ?xs s s2"
        using written_trans[OF grown_written[OF b(2), of off], of 1 ?xs s2] s2(2) by simp
      have ok2: "file_ok ip s2" using s2(2) by (simp add: written_def)
      have d: "?n - (tot + m) < ?n - tot" "tot + m \<le> ?n" using m True by auto
      have lim: "off + m + (?n - (tot + m)) \<le> MAXFILE * BSIZE" using less.prems(3) m(2) by simp
      have rr: "room (6 * touched (off + m) (?n - (tot + m)) + e) s2" if "tot + m < ?n"
        using tch(2)[OF that] by (intro room_written[OF _ w] room_mono[OF rm]) linarith
      obtain k t where k: "writei_loop ?get ip (off + m) (tot + m) ?n s2 = Ok (k, t)" "tot + m \<le> k" "k \<le> ?n"
        "k < ?n \<longrightarrow> disk_full t"
        "written (if tot + m < ?n then 6 * touched (off + m) (?n - (tot + m)) else 0) ip (off + m) (take (k - (tot + m)) (drop (tot + m) bs)) s2 t"
        using less.hyps[OF d(1) ok2 d(2) lim rr] by blast
      have cat: "?xs @ take (k - (tot + m)) (drop (tot + m) bs) = take (k - tot) (drop tot bs)"
      proof -
        have e: "k - tot = m + (k - (tot + m))" using k(2) by simp
        show ?thesis unfolding e take_add by (simp add: add.commute)
      qed
      have "written (5 + 1 + (if tot + m < ?n then 6 * touched (off + m) (?n - (tot + m)) else 0)) ip off (take (k - tot) (drop tot bs)) s t"
        using written_trans[OF w, of _ "take (k - (tot + m)) (drop (tot + m) bs)" t] k(5) unfolding lx cat by blast
      then have "written (6 * touched off (?n - tot)) ip off (take (k - tot) (drop tot bs)) s t"
        using tch by (elim written_mono) (auto split: if_splits)
      moreover have "writei_loop ?get ip off tot ?n s = Ok (k, t)"
        using True b(1) nz s2(1) k(1) unfolding U m_def[symmetric] by simp
      ultimately show ?thesis using True k by auto
    qed
  qed
qed

text \<open>Changing the size in the table, and \<open>iupdate\<close>, leave contents alone.\<close>

lemma set_size_file:
  fixes s :: "'z fs_state_scheme" and z :: u32
  assumes "file_ok ip s"
  defines "t \<equiv> upd_inode ip (icopy_update (dsize_update (\<lambda>_. z))) s"
  shows "file_ok ip t" "confined ip s t" "\<And>i. file_byte ip i t = file_byte ip i s"
    "lh_n t = lh_n s" "icopy (inodes t ip) = (icopy (inodes s ip))\<lparr>dsize := z\<rparr>" "disk_full t = disk_full s"
proof -
  have i: "bview t = bview s" "sb t = sb s" "outstanding t = outstanding s" "lh_n t = lh_n s" "iaddr ip k t = iaddr ip k s"
    "inum (inodes t ip) = inum (inodes s ip)" "\<And>jp. jp \<noteq> ip \<Longrightarrow> inodes t jp = inodes s jp"
    "icopy (inodes t ip) = (icopy (inodes s ip))\<lparr>dsize := z\<rparr>" for k
    by (simp_all add: t_def upd_inode_def)
  have fa: "file_addr ip m t = file_addr ip m s" "slot_addr ip m t = slot_addr ip m s" for m
    by (simp_all add: file_addr_def slot_addr_def i(1,5))
  have e: "fs_size t = fs_size s" "BBLOCK x t = BBLOCK x s" "bitmap_block x t = bitmap_block x s" "block_used x t = block_used x s"
    "IBLOCK j t = IBLOCK j s" for x j
    by (simp_all add: fs_size_def BBLOCK_def bitmap_block_def block_used_def IBLOCK_def i(1,2))
  show "file_byte ip j t = file_byte ip j s" for j by (simp add: file_byte_def fa i(1))
  show "file_ok ip t"
    using assms(1) by (simp add: file_ok_def fa e i(6,8) bitmap_ok_def data_block_def dinode_ok_def)
  have "entry_of (inodes t ip) = entry_of (inodes s ip)" by (simp add: entry_of_def t_def upd_inode_def)
  then show "confined ip s t" by (simp add: confined_def i e file_blocks_def fa)
  show "lh_n t = lh_n s" "icopy (inodes t ip) = (icopy (inodes s ip))\<lparr>dsize := z\<rparr>" by (rule i)+
  show "disk_full t = disk_full s" by (simp add: disk_full_def e)
qed

lemma iupdate_file:
  assumes ok: "file_ok ip s" and r: "room 1 s"
  shows "\<exists>t. iupdate ip s = Ok t \<and> file_ok ip t \<and> confined ip s t \<and> (\<forall>i < MAXFILE * BSIZE. file_byte ip i t = file_byte ip i s)
    \<and> inodes t = inodes s \<and> disk_inode (inum (inodes s ip)) t = icopy (inodes s ip) \<and> disk_full t = disk_full s"
proof -
  let ?b = "IBLOCK (inum (inodes s ip)) s"
  obtain t where t: "iupdate ip s = Ok t" "logged 1 s t"
    "\<forall>j. disk_inode j t = (if j = inum (inodes s ip) then icopy (inodes s ip) else disk_inode j s)"
    "\<forall>k. k \<noteq> ?b \<longrightarrow> bview t k = bview s k"
    using iupdate_ok[OF r, of ip] ok by (auto simp: file_ok_def)
  have v: "bview t = (bview s)(?b := bview t ?b)" using t(4) by auto
  have nb: "\<not> bitmap_block ?b s" using ok by (simp add: file_ok_def)
  have ni: "iaddr ip NDIRECT s \<noteq> 0 \<Longrightarrow> ?b \<noteq> unat (iaddr ip NDIRECT s)"
    using file_ok_indirect[OF ok] by (simp add: data_block_def)
  note l = logged_data[OF ok t(2) v nb ni disjI2[OF refl]]
  have "file_byte ip i t = file_byte ip i s" if "i < MAXFILE * BSIZE" for i
    using file_ok_addr[OF ok offset_block[OF that]] t(4)
    by (intro file_byte_cong l(3)) (auto simp: data_block_def)
  moreover have "block_used x t = block_used x s" if "x < fs_size s" for x
    using that nb logged_bitmap[OF t(2)] t(4) by (auto simp: block_used_def bitmap_block_def)
  then have "disk_full t = disk_full s" by (simp add: disk_full_def logged_bitmap[OF t(2)])
  ultimately show ?thesis using t(1,3) l(1,2) logged_fs(2)[OF t(2)] by auto
qed

text \<open>Another file, none of whose blocks are touched.\<close>

lemma confined_other:
  assumes c: "confined ip s t" and jp: "jp \<noteq> ip" "file_ok jp s"
    and dis: "file_blocks jp s \<inter> file_blocks ip s = {}" "IBLOCK (inum (inodes s ip)) s \<notin> file_blocks jp s"
  shows "same_file jp s t"
  unfolding same_file_def
proof (intro allI impI)
  have keep: "bview t b = bview s b" if b: "b \<in> file_blocks jp s" for b
  proof -
    have "data_block jp b s" using b file_ok_slot[OF jp(2)] by (auto simp: file_blocks_def)
    then show ?thesis using b dis c by (auto simp: data_block_def confined_def)
  qed
  have ij: "inodes t jp = inodes s jp" using c jp(1) by (simp add: confined_def)
  have fa: "file_addr jp m t = file_addr jp m s" for m
  proof (rule slot_addr_cong(2))
    assume "iaddr jp NDIRECT s \<noteq> 0"
    then have "unat (iaddr jp NDIRECT s) \<in> file_blocks jp s" by (force simp: file_blocks_def slot_addr_def)
    then show "bview t (unat (iaddr jp NDIRECT s)) = bview s (unat (iaddr jp NDIRECT s))" by (rule keep)
  qed (simp add: ij)
  fix i assume i: "i < MAXFILE * BSIZE"
  show "file_byte jp i t = file_byte jp i s"
    using keep[OF file_addr_indirect(2)[OF jp(2) offset_block[OF i]]] by (intro file_byte_cong fa) simp
qed

lemma writei_loop_block:
  fixes s :: "'z fs_state_scheme"
  assumes "writei_loop (\<lambda>t m s. Ok (0, take m (drop t bs), s)) ip off 0 (length bs) s = Ok (k, t)"
  shows "readi_size off 0 (length bs) = length bs \<longrightarrow> k = 0 \<or> k = length bs"
proof
  let ?get = "\<lambda>t m s. Ok (0 :: int, take m (drop t bs), s)"
  assume r: "readi_size off 0 (length bs) = length bs"
  have e: "writei_loop ?get ip (off + length bs) (length bs) (length bs) u = Ok (length bs, u)" for u :: "'z fs_state_scheme"
    by (simp add: writei_loop.simps[of ?get ip "off + length bs"])
  show "k = 0 \<or> k = length bs"
    using assms e unfolding writei_loop.simps[of ?get ip off 0 "length bs" s]
    by (auto simp: r Let_def res_iff split: if_splits)
qed

lemma writei_ok:
  assumes "file_ok ip s" "room (6 * touched (unat off) (length bs) + 1) s" "length bs < 2 ^ 31"
  shows "if unat off > unat (dsize (icopy (inodes s ip))) \<or> unat off + length bs > MAXFILE * BSIZE
    then writei_local ip bs off s = Ok (-1, s)
    else \<exists>k s'. writei_local ip bs off s = Ok (int k, s')
      \<and> k \<le> length bs \<and> (k < length bs \<longrightarrow> disk_full s')
      \<and> (\<forall>i < MAXFILE * BSIZE. file_byte ip i s'
            = (if unat off \<le> i \<and> i < unat off + k then bs ! (i - unat off) else file_byte ip i s))
      \<and> unat (dsize (icopy (inodes s' ip))) = max (unat (dsize (icopy (inodes s ip)))) (unat off + k)
      \<and> disk_inode (inum (inodes s ip)) s' = icopy (inodes s' ip)
      \<and> file_ok ip s' \<and> confined ip s s'
      \<and> (readi_size (unat off) 0 (length bs) = length bs \<longrightarrow> k = 0 \<or> k = length bs)
      \<and> (\<forall>jp. jp \<noteq> ip \<and> file_ok jp s \<and> file_blocks jp s \<inter> file_blocks ip s = {}
            \<and> IBLOCK (inum (inodes s ip)) s \<notin> file_blocks jp s \<longrightarrow> same_file jp s s')"
proof -
  let ?n = "of_nat (length bs) :: u32" and ?len = "dsize (icopy (inodes s ip))"
  have n: "unat ?n = length bs" using assms(3) by (simp add: unat_of_nat)
  have lim: "MAXFILE * BSIZE < 2 ^ 31" by (simp add: MAXFILE_def NDIRECT_def NINDIRECT_def BSIZE_def)
  show ?thesis
  proof (cases "unat off > unat ?len \<or> unat off + length bs > MAXFILE * BSIZE")
    case True
    have "unat (off + ?n) > MAXFILE * BSIZE" if "unat off + length bs > MAXFILE * BSIZE" "unat off + length bs < 2 ^ 32"
      using that n by (simp add: unat_word_ariths)
    then have "writei_local ip bs off s = Ok (-1, s)"
      using True u32_overflow[of off ?n] n
      by (auto simp: writei_local_def writei_with_def word_less_nat_alt)
    then show ?thesis using True by simp
  next
    case False
    have sum: "unat off + length bs < 2 ^ 31" using False lim by simp
    then have on: "unat (off + ?n) = unat off + length bs" using n by (simp add: unat_word_ariths)
    have ro: "0 < length bs \<Longrightarrow> room (6 * touched (unat off) (length bs - 0) + 1) s" using assms(2) by simp
    have fit: "unat off + (length bs - 0) \<le> MAXFILE * BSIZE" using False by simp
    obtain k t where k: "writei_loop (\<lambda>t m s. Ok (0, take m (drop t bs), s)) ip (unat off) 0 (length bs) s = Ok (k, t)"
      "k \<le> length bs" "k < length bs \<longrightarrow> disk_full t"
      "written (if 0 < length bs then 6 * touched (unat off) (length bs - 0) else 0) ip (unat off) (take (k - 0) (drop 0 bs)) s t"
      using writei_loop_ok[OF assms(1) le0 fit ro] by blast
    have w: "written (6 * touched (unat off) (length bs)) ip (unat off) (take k bs) s t"
      using written_mono[OF k(4), of "6 * touched (unat off) (length bs)"] by simp
    have okt: "file_ok ip t" using w by (simp add: written_def)
    have rt: "room 1 t" using room_written[OF assms(2) w] .
    have offk: "unat (off + of_nat k) = unat off + k"
      using sum k(2) by (simp add: unat_word_ariths unat_of_nat)
    define u where "u = (if off + of_nat k > dsize (icopy (inodes t ip))
      then upd_inode ip (icopy_update (dsize_update (\<lambda>_. off + of_nat k))) t else t)"
    note ss = set_size_file[OF okt, where z = "off + of_nat k"]
    have u: "file_ok ip u" "confined ip t u" "\<And>i. file_byte ip i u = file_byte ip i t" "lh_n u = lh_n t"
      "disk_full u = disk_full t" "unat (dsize (icopy (inodes u ip))) = max (unat ?len) (unat off + k)"
      using okt ss w offk by (auto simp: u_def word_less_nat_alt written_def max_def)
    have ru: "room 1 u" using rt u(2,4) by (simp add: room_def confined_def)
    obtain s' where s': "iupdate ip u = Ok s'" "file_ok ip s'" "confined ip u s'"
      "\<forall>i < MAXFILE * BSIZE. file_byte ip i s' = file_byte ip i u" "inodes s' = inodes u"
      "disk_inode (inum (inodes u ip)) s' = icopy (inodes u ip)" "disk_full s' = disk_full u"
      using iupdate_file[OF u(1) ru] by blast
    have cf: "confined ip s s'"
      using confined_trans[OF confined_trans[OF _ u(2)] s'(3)] w by (simp add: written_def)
    have "writei_local ip bs off s = Ok (int k, s')"
      using False on n sum k(1,2) s'(1) u32_overflow[of off ?n] sint_of_nat32[of k]
      by (simp add: writei_local_def writei_with_def word_less_nat_alt Let_def u_def)
    moreover have "\<forall>i < MAXFILE * BSIZE. file_byte ip i s'
        = (if unat off \<le> i \<and> i < unat off + k then bs ! (i - unat off) else file_byte ip i s)"
      using w k(2) s'(4) u(3) by (auto simp: written_def)
    moreover have "inum (inodes u ip) = inum (inodes s ip)"
      using w u(2) by (simp add: written_def confined_def)
    ultimately show ?thesis
      unfolding if_not_P[OF False] using k(2,3) s' u cf writei_loop_block[OF k(1)] confined_other[OF cf] by (intro exI[of _ k] exI[of _ s']) auto
  qed
qed

text \<open>
  C3. \<open>writei\<close> of \<open>bs\<close> at \<open>off\<close>, inside a transaction with room in the log and on a well-formed
  file. If \<open>off\<close> is past the end or the write would not fit into a file, it returns -1 and changes
  nothing. Otherwise it writes the first \<open>k\<close> bytes and returns \<open>k\<close>, where \<open>k\<close> is less than the
  length of \<open>bs\<close> only if the disk is full: the contents are the old ones with these bytes in place,
  also where new blocks were allocated; the size grows to \<open>off + k\<close> if that is larger, and the inode
  on disk is brought up to date. The file stays well formed, and no other well-formed file that
  shares no block with it is affected.
\<close>

theorem writei_correct:
  assumes "file_ok ip s" "room (6 * touched (unat off) (length bs) + 1) s" "length bs < 2 ^ 31"
  shows "if unat off > unat (dsize (icopy (inodes s ip))) \<or> unat off + length bs > MAXFILE * BSIZE
    then writei_local ip bs off s = Ok (-1, s)
    else \<exists>k s'. writei_local ip bs off s = Ok (int k, s')
      \<and> k \<le> length bs \<and> (k < length bs \<longrightarrow> disk_full s')
      \<and> (\<forall>i < MAXFILE * BSIZE. file_byte ip i s'
            = (if unat off \<le> i \<and> i < unat off + k then bs ! (i - unat off) else file_byte ip i s))
      \<and> unat (dsize (icopy (inodes s' ip))) = max (unat (dsize (icopy (inodes s ip)))) (unat off + k)
      \<and> disk_inode (inum (inodes s ip)) s' = icopy (inodes s' ip)
      \<and> file_ok ip s'
      \<and> (\<forall>jp. jp \<noteq> ip \<and> file_ok jp s \<and> file_blocks jp s \<inter> file_blocks ip s = {}
            \<and> IBLOCK (inum (inodes s ip)) s \<notin> file_blocks jp s \<longrightarrow> same_file jp s s')"
proof (cases "unat off > unat (dsize (icopy (inodes s ip))) \<or> unat off + length bs > MAXFILE * BSIZE")
  case True
  then show ?thesis using writei_ok[OF assms] by simp
next
  case False
  show ?thesis using writei_ok[OF assms] unfolding if_not_P[OF False] by blast
qed

text \<open>A file of three bytes in block 47, and an empty file.\<close>

definition demo_file :: fs_state where
  "demo_file = demo_fs\<lparr>bview := (bview demo_fs)(47 := \<lambda>i. of_nat (i + 1)),
     inodes := (\<lambda>ip. \<lparr>idev = 1, inum = 5 + of_nat ip, iref = 1, ilk = initsleeplock ''inode'', ivalid = True,
       icopy = \<lparr>dtype = T_FILE, dmajor = 0, dminor = 0, dnlink = 1, dsize = (if ip = 0 then 3 else 0),
                daddrs = (\<lambda>i. if ip = 0 \<and> i = 0 then 47 else 0)\<rparr>\<rparr>)\<rparr>"

theorem readi_correct_witness: "readi_local 0 1 10 demo_file = Ok (2, [2, 3], demo_file)"
proof -
  have len: "dsize (icopy (inodes demo_file 0)) = 3" by (simp add: demo_file_def)
  have fa: "file_addr 0 0 demo_file = 47" by (simp add: demo_file_def file_addr_def NDIRECT_def)
  have "bn * BSIZE < unat (3 :: u32) \<Longrightarrow> file_addr 0 bn demo_file \<noteq> 0" for bn
    using fa by (cases bn) (simp_all add: BSIZE_def)
  moreover have "file_byte 0 1 demo_file = 2" "file_byte 0 2 demo_file = 3"
    using fa by (simp_all add: file_byte_def BSIZE_def) (simp_all add: demo_file_def)
  moreover have "[1..<3] = [1, 2::nat]" by (simp add: upt_conv_Cons)
  ultimately show ?thesis
    using readi_correct[of demo_file 0 1 10]
    by (simp add: len MAXFILE_def NDIRECT_def NINDIRECT_def BSIZE_def Let_def del: One_nat_def upt_Suc)
qed

lemma demo_file_empty: "file_ok 7 demo_file"
proof -
  have z: "slot_addr 7 k demo_file = 0" for k by (simp add: slot_addr_def file_addr_def demo_file_def)
  have e: "fs_size demo_file = 2000" "BBLOCK b demo_file = BBLOCK b demo_fs" "bitmap_block b demo_file = bitmap_block b demo_fs"
    "IBLOCK (inum (inodes demo_file 7)) demo_file = 33" for b
    using demo_fs_size by (simp_all add: demo_file_def fs_size_def BBLOCK_def bitmap_block_def IBLOCK_def demo_fs_def IPB_def BSIZE_def)
  have k: "BBLOCK b demo_fs = 46" if "b < 2000" for b
    using that by (simp add: BPB_def BSIZE_def BBLOCK_def demo_fs_def)
  have u: "block_used b demo_file = block_used b demo_fs" if "b < 2000" for b
    using k[OF that] e(2)[of b] by (simp add: block_used_def demo_file_def)
  have "bitmap_ok demo_file" using demo_fs_ok(1) u by (simp add: bitmap_ok_def e demo_fs_size)
  moreover have "\<not> bitmap_block 33 demo_fs" using k by (auto simp: bitmap_block_def demo_fs_size)
  moreover have "block_used 33 demo_file" using u[of 33] demo_fs_used[of 33] by simp
  ultimately show ?thesis
    by (simp add: file_ok_def e z dinode_ok_def) (simp add: demo_file_def)
qed

theorem writei_correct_witness:
  "\<exists>k s'. writei_local 7 [7, 8, 9] 0 demo_file = Ok (int k, s') \<and> k \<le> 3 \<and> unat (dsize (icopy (inodes s' 7))) = k"
proof -
  have "touched 0 (length [7, 8, 9 :: u8]) = 1" by (simp add: touched_def BSIZE_def)
  then have r: "room (6 * touched (unat 0) (length [7, 8, 9 :: u8]) + 1) demo_file"
    using demo_fs_ok(2) by (simp add: room_def demo_file_def demo_fs_def LOGBLOCKS_def MAXOPBLOCKS_def)
  have d: "dsize (icopy (inodes demo_file 7)) = 0" by (simp add: demo_file_def)
  have f: "\<not> (unat (0 :: u32) > unat (0 :: u32) \<or> unat (0 :: u32) + length [7, 8, 9 :: u8] > MAXFILE * BSIZE)"
    by (simp add: MAXFILE_def NDIRECT_def NINDIRECT_def BSIZE_def)
  show ?thesis
    using writei_correct[OF demo_file_empty r] unfolding d if_not_P[OF f] by auto
qed

end
