(* ===== verification/Fs_Path.thy ===== *)
theory Fs_Path
  imports Fs
begin

text \<open>
  Path names. The character loop of \<open>skipelem\<close>, called again and again by \<open>namex\<close>, is compared
  with a reference definition that first splits the whole path at its slashes and then walks the
  list of its elements.
\<close>

section \<open>Splitting a path\<close>

fun split_slash :: "u8 list \<Rightarrow> u8 list list" where
  "split_slash [] = [[]]"
| "split_slash (c # cs) =
     (if c = slash then [] # split_slash cs else (c # hd (split_slash cs)) # tl (split_slash cs))"

definition path_elems :: "u8 list \<Rightarrow> u8 list list" where
  "path_elems path = map (take DIRSIZ) (filter (\<lambda>w. w \<noteq> []) (split_slash path))"

lemma split_slash_nonempty: "split_slash p \<noteq> []"
  by (cases p) auto

lemma split_slash_word:
  "\<forall>c \<in> set w. c \<noteq> slash \<Longrightarrow> split_slash (w @ p) = (w @ hd (split_slash p)) # tl (split_slash p)"
  by (induction w) (auto simp: split_slash_nonempty)

lemma path_elems_slashes: "path_elems (dropWhile (\<lambda>c. c = slash) p) = path_elems p"
  by (induction p) (auto simp: path_elems_def)

lemma path_elems_word:
  assumes "p \<noteq> []" "hd p \<noteq> slash"
  shows "path_elems p = take DIRSIZ (takeWhile (\<lambda>c. c \<noteq> slash) p) # path_elems (dropWhile (\<lambda>c. c \<noteq> slash) p)"
proof -
  define w where "w = takeWhile (\<lambda>c. c \<noteq> slash) p"
  define r where "r = dropWhile (\<lambda>c. c \<noteq> slash) p"
  have p: "p = w @ r" by (simp add: w_def r_def)
  have w: "\<forall>c \<in> set w. c \<noteq> slash" unfolding w_def by (auto dest: set_takeWhileD)
  have ne: "w \<noteq> []" using assms by (cases p) (auto simp: w_def)
  have r: "r = [] \<or> (\<exists>cs. r = slash # cs)"
  proof (cases r)
    case (Cons c cs)
    then have "dropWhile (\<lambda>c. c \<noteq> slash) p \<noteq> []" by (simp only: r_def[symmetric]) simp
    from hd_dropWhile[OF this] show ?thesis using Cons by (simp only: r_def[symmetric]) simp
  qed simp
  have "split_slash p = (w @ hd (split_slash r)) # tl (split_slash r)"
    using split_slash_word[OF w, of r] p by simp
  then have "path_elems p = take DIRSIZ w # path_elems r"
    using ne r by (auto simp: path_elems_def)
  then show ?thesis by (simp only: w_def r_def)
qed

lemma path_elems_Nil: "path_elems p = [] \<longleftrightarrow> dropWhile (\<lambda>c. c = slash) p = []"
proof -
  let ?q = "dropWhile (\<lambda>c. c = slash) p"
  have "?q \<noteq> [] \<Longrightarrow> hd ?q \<noteq> slash" using hd_dropWhile[of "\<lambda>c. c = slash" p] by simp
  then show ?thesis
    using path_elems_word[of ?q] path_elems_slashes[of p] by (cases "?q = []") (auto simp: path_elems_def)
qed

lemma skipelem_Some:
  assumes "skipelem p = Some (e, r)"
  shows "path_elems p = e # path_elems r" "r = [] \<longleftrightarrow> path_elems r = []"
proof -
  let ?q = "dropWhile (\<lambda>c. c = slash) p"
  have q: "?q \<noteq> []" "e = take DIRSIZ (takeWhile (\<lambda>c. c \<noteq> slash) ?q)"
    "r = dropWhile (\<lambda>c. c = slash) (dropWhile (\<lambda>c. c \<noteq> slash) ?q)"
    using assms by (auto simp: skipelem_def Let_def split: if_splits)
  have "hd ?q \<noteq> slash" using hd_dropWhile[OF q(1)] by simp
  then have "path_elems ?q = e # path_elems (dropWhile (\<lambda>c. c \<noteq> slash) ?q)" using path_elems_word[OF q(1)] q(2) by simp
  then show "path_elems p = e # path_elems r" unfolding q(3) path_elems_slashes by simp
  have "dropWhile (\<lambda>c. c = slash) r = r" unfolding q(3) by simp
  then show "r = [] \<longleftrightarrow> path_elems r = []" using path_elems_Nil[of r] by simp
qed

section \<open>Walking the elements\<close>

text \<open>One level: lock the directory, look the name up, release and drop the directory.\<close>

definition enter_dir :: "nat \<Rightarrow> nat \<Rightarrow> u8 list \<Rightarrow> 'z fs_state_scheme \<Rightarrow> (nat option \<times> 'z fs_state_scheme) res" where
  "enter_dir me ip name s =
     bindR (ilock me ip s) (\<lambda>s1.
       if dtype (icopy (inodes s1 ip)) \<noteq> T_DIR
       then bindR (iunlockput me ip s1) (\<lambda>s2. Ok (None, s2))
       else bindR (dirlookup ip name s1) (\<lambda>(found, s2).
              bindR (iunlockput me ip s2) (\<lambda>s3. Ok (map_option fst found, s3))))"

text \<open>The directory of the last element: it must be a directory, and is left unlocked.\<close>

definition check_dir :: "nat \<Rightarrow> nat \<Rightarrow> 'z fs_state_scheme \<Rightarrow> (bool \<times> 'z fs_state_scheme) res" where
  "check_dir me ip s =
     bindR (ilock me ip s) (\<lambda>s1.
       if dtype (icopy (inodes s1 ip)) \<noteq> T_DIR
       then bindR (iunlockput me ip s1) (\<lambda>s2. Ok (False, s2))
       else bindR (iunlock me ip s1) (\<lambda>s2. Ok (True, s2)))"

fun walk_elems :: "nat \<Rightarrow> bool \<Rightarrow> u8 list list \<Rightarrow> nat \<Rightarrow> u8 list \<Rightarrow> 'z fs_state_scheme \<Rightarrow>
    ((nat \<times> u8 list) option \<times> 'z fs_state_scheme) res" where
  "walk_elems me want_parent [] ip name s =
     (if want_parent then bindR (iput me ip s) (\<lambda>s1. Ok (None, s1)) else Ok (Some (ip, name), s))"
| "walk_elems me want_parent (e # es) ip name s =
     (if want_parent \<and> es = []
      then bindR (check_dir me ip s) (\<lambda>(ok, s1). Ok (if ok then Some (ip, e) else None, s1))
      else bindR (enter_dir me ip e s) (\<lambda>(found, s1).
             case found of None \<Rightarrow> Ok (None, s1) | Some jp \<Rightarrow> walk_elems me want_parent es jp e s1))"

lemma namex_loop_walk:
  fixes s :: "'z fs_state_scheme"
  shows "namex_loop me w path ip name s = walk_elems me w (path_elems path) ip name s"
proof (induction "length path" arbitrary: path ip name s rule: less_induct)
  case less
  note U = namex_loop.simps[of me w path ip name s]
  show ?case
  proof (cases "skipelem path")
    case None
    then have "path_elems path = []" using path_elems_Nil[of path] by (auto simp: skipelem_def Let_def split: if_splits)
    then show ?thesis using None by (simp add: U)
  next
    case (Some er)
    obtain e r where er: "er = (e, r)" by (cases er)
    note sk = skipelem_Some[OF Some[unfolded er]]
    have IH: "namex_loop me w r jp nm t = walk_elems me w (path_elems r) jp nm t" for jp nm and t :: "'z fs_state_scheme"
      using less[OF skipelem_shorter[OF Some[unfolded er]]] .
    show ?thesis
      unfolding U sk(1)
      by (cases w; insert IH; auto simp: Some er sk(2) enter_dir_def check_dir_def bindR_assoc intro!: bindR_cong split: option.splits)
  qed
qed

text \<open>
  C25. \<open>namex\<close> is the walk over the elements of its path: from the root inode if the path begins
  with a slash and from the current directory of the process otherwise, one level per element,
  where the elements are the non-empty pieces between slashes, cut to \<open>DIRSIZ\<close> bytes. It gives
  nothing as soon as a level is not a directory or has no such entry, and with \<open>want_parent\<close> it
  stops at the directory of the last element and returns that element.
\<close>

theorem namex_walks_elements:
  "namex me path want_parent s =
     (if path \<noteq> [] \<and> hd path = slash
      then bindR (iget FS_DEV ROOTINO s) (\<lambda>(ip, s1). walk_elems me want_parent (path_elems path) ip [] s1)
      else case cwd (procs s me) of
             None \<Rightarrow> Panic ''kerneltrap''
           | Some ip \<Rightarrow> walk_elems me want_parent (path_elems path) ip [] (idup ip s))"
  unfolding namex_def namex_loop_walk by (rule refl)

end
