(* ===== verification/Virtio_Correct.thy ===== *)
theory Virtio_Correct
  imports Virtio Ring
begin

text \<open>
  The disk driver and the device together. Any number of processes submit requests and wait for
  them, the device takes chains from the available ring and completes them in any order, and the
  interrupt handler runs at any time. The descriptors are conserved, the chains of the requests in
  flight stay apart, and none of the panics of the driver can happen.
\<close>

section \<open>Descriptors\<close>

abbreviation no_desc :: virtq_desc where
  "no_desc \<equiv> \<lparr>daddr = Nowhere, dlen = 0, dflags = 0, dnext = 0\<rparr>"

lemma vdisk_upd [simp]: "vdisk (upd_vd f s) = f (vdisk s)" "vdisk (mmio_write r v s) = vdisk s"
  by (simp_all add: upd_vd_def mmio_write_def)

lemma vdisk_procs [simp]: "vdisk (s\<lparr>procs := ps\<rparr>) = vdisk s"
  by simp

lemma free_desc_ok:
  assumes "i < NUM" "\<not> free_map (vdisk s) i"
  shows "\<exists>t. free_desc cur i s = Ok t
    \<and> vdisk t = (vdisk s)\<lparr>desc := (desc (vdisk s))(i := no_desc), free_map := (free_map (vdisk s))(i := True)\<rparr>"
  using assms by (simp add: free_desc_def Let_def)

lemma free_list_ok:
  assumes "distinct is" "\<And>i. i \<in> set is \<Longrightarrow> i < NUM \<and> \<not> free_map (vdisk s) i"
  shows "\<exists>t. iterR (free_desc cur) is s = Ok t
    \<and> vdisk t = (vdisk s)\<lparr>desc := \<lambda>i. if i \<in> set is then no_desc else desc (vdisk s) i,
         free_map := \<lambda>i. i \<in> set is \<or> free_map (vdisk s) i\<rparr>"
  using assms
proof (induction "is" arbitrary: s)
  case (Cons i js)
  obtain t where t: "free_desc cur i s = Ok t"
    "vdisk t = (vdisk s)\<lparr>desc := (desc (vdisk s))(i := no_desc), free_map := (free_map (vdisk s))(i := True)\<rparr>"
    using free_desc_ok[of i s cur] Cons.prems(2) by auto
  have "j \<in> set js \<Longrightarrow> j < NUM \<and> \<not> free_map (vdisk t) j" for j
    using Cons.prems by (auto simp: t(2))
  then obtain u where u: "iterR (free_desc cur) js t = Ok u"
    "vdisk u = (vdisk t)\<lparr>desc := \<lambda>i. if i \<in> set js then no_desc else desc (vdisk t) i,
       free_map := \<lambda>i. i \<in> set js \<or> free_map (vdisk t) i\<rparr>"
    using Cons.IH[of t] Cons.prems(1) by auto
  then show ?case using t by (auto simp: fun_eq_iff)
qed simp

text \<open>\<open>alloc_descs\<close> gets all the descriptors it wants or gives back what it had.\<close>

lemma alloc_descs_ok:
  assumes "distinct got" "\<forall>i \<in> set got. i < NUM \<and> \<not> free_map (vdisk s) i"
  shows "(\<exists>new t. alloc_descs cur k got s = Ok (Some (got @ new), t) \<and> length new = k \<and> distinct new
      \<and> (\<forall>i \<in> set new. i < NUM \<and> free_map (vdisk s) i)
      \<and> vdisk t = (vdisk s)\<lparr>free_map := \<lambda>i. free_map (vdisk s) i \<and> i \<notin> set new\<rparr>)
    \<or> (\<exists>t D. alloc_descs cur k got s = Ok (None, t) \<and> (\<forall>i \<in> D. i \<in> set got \<or> free_map (vdisk s) i)
      \<and> vdisk t = (vdisk s)\<lparr>desc := \<lambda>i. if i \<in> D then no_desc else desc (vdisk s) i,
           free_map := \<lambda>i. i \<in> set got \<or> free_map (vdisk s) i\<rparr>)"
  using assms
proof (induction k arbitrary: got s)
  case 0
  then show ?case by auto
next
  case (Suc k)
  show ?case
  proof (cases "List.find (free_map (vdisk s)) [0..<NUM]")
    case None
    then show ?thesis using free_list_ok[OF Suc.prems(1), of s cur] Suc.prems(2)
      by (auto simp: alloc_desc_def res_iff intro!: exI[of _ "set got"])
  next
    case (Some i)
    define s1 where "s1 = upd_vd (\<lambda>v. v\<lparr>free_map := (free_map v)(i := False)\<rparr>) s"
    have i: "i < NUM" "free_map (vdisk s) i" using Some by (auto simp: find_Some_iff)
    have ig: "i \<notin> set got" using i Suc.prems(2) by auto
    have e: "alloc_descs cur (Suc k) got s = alloc_descs cur k (got @ [i]) s1"
      using Some by (simp add: alloc_desc_def s1_def)
    have v1: "vdisk s1 = (vdisk s)\<lparr>free_map := (free_map (vdisk s))(i := False)\<rparr>" by (simp add: s1_def)
    have d: "distinct (got @ [i])" using Suc.prems(1) ig by simp
    have p: "\<forall>j \<in> set (got @ [i]). j < NUM \<and> \<not> free_map (vdisk s1) j"
      using Suc.prems(2) i by (auto simp: v1)
    from Suc.IH[OF d p] show ?thesis
    proof (elim disjE exE conjE)
      fix new t
      assume n: "alloc_descs cur k (got @ [i]) s1 = Ok (Some ((got @ [i]) @ new), t)" "length new = k" "distinct new"
        "\<forall>j \<in> set new. j < NUM \<and> free_map (vdisk s1) j"
        "vdisk t = (vdisk s1)\<lparr>free_map := \<lambda>j. free_map (vdisk s1) j \<and> j \<notin> set new\<rparr>"
      have "vdisk t = (vdisk s)\<lparr>free_map := \<lambda>j. free_map (vdisk s) j \<and> j \<notin> set (i # new)\<rparr>"
        unfolding n(5) v1 by (auto intro!: arg_cong[where f = "\<lambda>f. (vdisk s)\<lparr>free_map := f\<rparr>"])
      then show ?thesis using n i e by (intro disjI1 exI[of _ "i # new"] exI[of _ t]) (auto simp: v1 split: if_splits)
    next
      fix t D
      assume n: "alloc_descs cur k (got @ [i]) s1 = Ok (None, t)"
        "\<forall>j \<in> D. j \<in> set (got @ [i]) \<or> free_map (vdisk s1) j"
        "vdisk t = (vdisk s1)\<lparr>desc := \<lambda>j. if j \<in> D then no_desc else desc (vdisk s1) j,
           free_map := \<lambda>j. j \<in> set (got @ [i]) \<or> free_map (vdisk s1) j\<rparr>"
      have "vdisk t = (vdisk s)\<lparr>desc := \<lambda>j. if j \<in> D then no_desc else desc (vdisk s) j,
           free_map := \<lambda>j. j \<in> set got \<or> free_map (vdisk s) j\<rparr>"
        unfolding n(3) v1 using i(2) by (auto simp: fun_eq_iff intro!: arg_cong[where f = "\<lambda>f. (vdisk s)\<lparr>desc := _, free_map := f\<rparr>"])
      then show ?thesis using n i e by (intro disjI2 exI[of _ t] exI[of _ D]) (auto simp: v1 split: if_splits)
    qed
  qed
qed

text \<open>Freeing a chain of three.\<close>

lemma free_chain_ok:
  assumes "distinct [i, j, k]" "i < NUM" "j < NUM" "k < NUM"
    and "\<not> free_map (vdisk s) i" "\<not> free_map (vdisk s) j" "\<not> free_map (vdisk s) k"
    and "dflags (desc (vdisk s) i) AND VRING_DESC_F_NEXT \<noteq> 0" "dnext (desc (vdisk s) i) = j"
    and "dflags (desc (vdisk s) j) AND VRING_DESC_F_NEXT \<noteq> 0" "dnext (desc (vdisk s) j) = k"
    and "dflags (desc (vdisk s) k) AND VRING_DESC_F_NEXT = 0"
  shows "\<exists>t. free_chain cur i s = Ok t
    \<and> vdisk t = (vdisk s)\<lparr>desc := (desc (vdisk s))(i := no_desc, j := no_desc, k := no_desc),
         free_map := (free_map (vdisk s))(i := True, j := True, k := True)\<rparr>"
proof -
  obtain a where a: "free_desc cur i s = Ok a"
    "vdisk a = (vdisk s)\<lparr>desc := (desc (vdisk s))(i := no_desc), free_map := (free_map (vdisk s))(i := True)\<rparr>"
    using free_desc_ok assms(2,5) by blast
  have "\<not> free_map (vdisk a) j" using assms(1,6) by (simp add: a(2))
  then obtain b where b: "free_desc cur j a = Ok b"
    "vdisk b = (vdisk a)\<lparr>desc := (desc (vdisk a))(j := no_desc), free_map := (free_map (vdisk a))(j := True)\<rparr>"
    using free_desc_ok assms(3) by blast
  have "\<not> free_map (vdisk b) k" using assms(1,7) by (simp add: a(2) b(2))
  then obtain c where c: "free_desc cur k b = Ok c"
    "vdisk c = (vdisk b)\<lparr>desc := (desc (vdisk b))(k := no_desc), free_map := (free_map (vdisk b))(k := True)\<rparr>"
    using free_desc_ok assms(4) by blast
  have "free_chain_loop cur (Suc (Suc (Suc n))) i s = Ok c" for n
    using a b c assms(1,8-12) by (simp add: Let_def)
  from this[of 6] have "free_chain cur i s = Ok c" by (simp add: free_chain_def NUM_def)
  then show ?thesis using a(2) b(2) c(2) by simp
qed

text \<open>The loop of the interrupt handler over the new entries of the used ring.\<close>

lemma NUM_ring: "ring_size TYPE(16) NUM"
  by (simp add: ring_size_def NUM_def)

lemma intr_loop_ok:
  assumes "ring NUM (used_ring (vdisk s)) (used_idx (vdisk s)) (dev_used_idx (vdisk s)) = us"
    and "\<forall>h \<in> set us. info_status (vdisk s) h = 0 \<and> info_b (vdisk s) h \<noteq> None"
  shows "\<exists>t. virtio_intr_loop cur s = Ok t
    \<and> vdisk t = (vdisk s)\<lparr>bdisk_busy := \<lambda>b. bdisk_busy (vdisk s) b \<and> b \<notin> (\<lambda>h. the (info_b (vdisk s) h)) ` set us,
         used_idx := dev_used_idx (vdisk s)\<rparr>"
  using assms
proof (induction us arbitrary: s)
  case Nil
  then have "dev_used_idx (vdisk s) = used_idx (vdisk s)"
    using ring_empty[of NUM "used_ring (vdisk s)" "used_idx (vdisk s)" "dev_used_idx (vdisk s)"] by simp
  then show ?case by (simp add: virtio_intr_loop.simps[of cur s])
next
  case (Cons h us)
  have ne: "used_idx (vdisk s) \<noteq> dev_used_idx (vdisk s)"
    using Cons.prems(1) ring_empty[of NUM "used_ring (vdisk s)" "used_idx (vdisk s)" "dev_used_idx (vdisk s)"] by auto
  have h: "used_ring (vdisk s) (unat (used_idx (vdisk s)) mod NUM) = h"
    "ring NUM (used_ring (vdisk s)) (used_idx (vdisk s) + 1) (dev_used_idx (vdisk s)) = us"
    using Cons.prems(1) ring_pop[OF NUM_ring ne, of "used_ring (vdisk s)"] by auto
  obtain b where b: "info_b (vdisk s) h = Some b" "info_status (vdisk s) h = 0" using Cons.prems(2) by auto
  define s1 where "s1 = upd_vd (\<lambda>v. v\<lparr>bdisk_busy := (bdisk_busy v)(b := False)\<rparr>) s"
  define s2 where "s2 = upd_vd (\<lambda>v. v\<lparr>used_idx := used_idx v + 1\<rparr>) (s1\<lparr>procs := wake (ChanDiskBuf b) cur (procs s1)\<rparr>)"
  have v: "vdisk s2 = (vdisk s)\<lparr>bdisk_busy := (bdisk_busy (vdisk s))(b := False), used_idx := used_idx (vdisk s) + 1\<rparr>"
    by (simp add: s2_def s1_def)
  have step: "virtio_intr_loop cur s = virtio_intr_loop cur s2"
    using h(1) b ne by (simp add: virtio_intr_loop.simps[of cur s] Let_def s2_def s1_def)
  have "ring NUM (used_ring (vdisk s2)) (used_idx (vdisk s2)) (dev_used_idx (vdisk s2)) = us"
    "\<forall>h \<in> set us. info_status (vdisk s2) h = 0 \<and> info_b (vdisk s2) h \<noteq> None"
    using h(2) Cons.prems(2) by (simp_all add: v)
  from Cons.IH[OF this] show ?case using b(1) unfolding step by (auto simp: v fun_eq_iff)
qed

section \<open>Driver and device\<close>

text \<open>
  A request in flight: the rest of its chain, its buffer, and how far it is: in the available ring,
  taken by the device, in the used ring, or acknowledged by the interrupt handler. Requests are
  named by the head of their chain. The third component of a state is the device's own index into
  the available ring.
\<close>

datatype phase = Avail | Taken | Used | Acked

record flight =
  fl1 :: nat
  fl2 :: nat
  fbuf :: nat
  fphase :: phase

type_synonym 'z vd_run = "'z vd_state_scheme \<times> (nat \<Rightarrow> flight option) \<times> u16"

text \<open>
  The steps: a process submits a request for a buffer it has locked, so none that is in flight; it
  finds too few descriptors and sleeps; the device takes the next chain of the available ring; it
  completes one it has taken, which sets the status byte to 0 (the device reports success: on any other status the
  handler panics) and adds the head to the used ring;
  the interrupt handler runs; the submitter wakes up and finishes, or sleeps on; anything else that
  leaves the driver's data alone.
\<close>

inductive vd_step :: "'z vd_run \<Rightarrow> 'z vd_run \<Rightarrow> bool" where
  vd_submit: "virtio_submit me b bn wr s = Ok (Done h, s') \<Longrightarrow> (\<forall>g f. fl g = Some f \<longrightarrow> fbuf f \<noteq> b) \<Longrightarrow>
     vd_step (s, fl, sn) (s', fl(h \<mapsto> \<lparr>fl1 = dnext (desc (vdisk s') h),
       fl2 = dnext (desc (vdisk s') (dnext (desc (vdisk s') h))), fbuf = b, fphase = Avail\<rparr>), sn)"
| vd_full: "virtio_submit me b bn wr s = Ok (Asleep u, s') \<Longrightarrow> vd_step (s, fl, sn) (s', fl, sn)"
| vd_take: "sn \<noteq> avail_idx (vdisk s) \<Longrightarrow> h = avail_ring (vdisk s) (unat sn mod NUM) \<Longrightarrow>
     vd_step (s, fl, sn) (s, fl(h := map_option (fphase_update (\<lambda>_. Taken)) (fl h)), sn + 1)"
| vd_complete: "fl h = Some f \<Longrightarrow> fphase f = Taken \<Longrightarrow>
     vd_step (s, fl, sn) (upd_vd (\<lambda>v. v\<lparr>info_status := (info_status v)(h := 0),
       used_ring := (used_ring v)(unat (dev_used_idx v) mod NUM := h), dev_used_idx := dev_used_idx v + 1\<rparr>) s,
       fl(h \<mapsto> f\<lparr>fphase := Used\<rparr>), sn)"
| vd_intr: "virtio_disk_intr cur st s = Ok s' \<Longrightarrow>
     vd_step (s, fl, sn) (s', \<lambda>h. map_option (\<lambda>f. if fphase f = Used then f\<lparr>fphase := Acked\<rparr> else f) (fl h), sn)"
| vd_finish: "fl h = Some f \<Longrightarrow> virtio_finish me (fbuf f) h s = Ok (Done u, s') \<Longrightarrow> vd_step (s, fl, sn) (s', fl(h := None), sn)"
| vd_wait: "fl h = Some f \<Longrightarrow> virtio_finish me (fbuf f) h s = Ok (Asleep u, s') \<Longrightarrow> vd_step (s, fl, sn) (s', fl, sn)"
| vd_other: "vdisk s' = vdisk s \<Longrightarrow> vd_step (s, fl, sn) (s', fl, sn)"

text \<open>After \<open>virtio_disk_init\<close>, with no buffer marked as owned by the disk.\<close>

definition vd_init :: "'z vd_run \<Rightarrow> bool" where
  "vd_init = (\<lambda>(s, fl, sn). (\<exists>dev s0. virtio_disk_init dev s0 = Ok s \<and> used_idx (vdisk s0) = 0
     \<and> (\<forall>b. \<not> bdisk_busy (vdisk s0) b)) \<and> fl = (\<lambda>_. None) \<and> sn = 0)"

definition chain_of :: "nat \<Rightarrow> flight \<Rightarrow> nat set" where
  "chain_of h f = {h, fl1 f, fl2 f}"

definition in_flight :: "(nat \<Rightarrow> flight option) \<Rightarrow> nat set" where
  "in_flight fl = {i. \<exists>h f. fl h = Some f \<and> i \<in> chain_of h f}"

definition at_phase :: "phase \<Rightarrow> (nat \<Rightarrow> flight option) \<Rightarrow> nat set" where
  "at_phase p fl = {h. \<exists>f. fl h = Some f \<and> fphase f = p}"

text \<open>One request is well formed in the driver's data.\<close>

definition flight_ok :: "vdisk \<Rightarrow> nat \<Rightarrow> flight \<Rightarrow> bool" where
  "flight_ok v h f \<longleftrightarrow> distinct [h, fl1 f, fl2 f] \<and> h < NUM \<and> fl1 f < NUM \<and> fl2 f < NUM
     \<and> dflags (desc v h) AND VRING_DESC_F_NEXT \<noteq> 0 \<and> dnext (desc v h) = fl1 f
     \<and> dflags (desc v (fl1 f)) AND VRING_DESC_F_NEXT \<noteq> 0 \<and> dnext (desc v (fl1 f)) = fl2 f
     \<and> dflags (desc v (fl2 f)) AND VRING_DESC_F_NEXT = 0
     \<and> info_b v h = Some (fbuf f) \<and> (bdisk_busy v (fbuf f) \<longleftrightarrow> fphase f \<noteq> Acked)
     \<and> (fphase f = Used \<longrightarrow> info_status v h = 0)"

definition apart :: "(nat \<Rightarrow> flight option) \<Rightarrow> bool" where
  "apart fl \<longleftrightarrow> (\<forall>h f g e. fl h = Some f \<and> fl g = Some e \<and> h \<noteq> g \<longrightarrow> chain_of h f \<inter> chain_of g e = {} \<and> fbuf f \<noteq> fbuf e)"

definition vd_ok :: "vdisk \<Rightarrow> (nat \<Rightarrow> flight option) \<Rightarrow> u16 \<Rightarrow> bool" where
  "vd_ok v fl sn \<longleftrightarrow> (\<forall>h f. fl h = Some f \<longrightarrow> flight_ok v h f) \<and> apart fl
     \<and> (\<forall>i < NUM. free_map v i \<longleftrightarrow> i \<notin> in_flight fl)
     \<and> distinct (ring NUM (avail_ring v) sn (avail_idx v)) \<and> set (ring NUM (avail_ring v) sn (avail_idx v)) = at_phase Avail fl
     \<and> distinct (ring NUM (used_ring v) (used_idx v) (dev_used_idx v))
     \<and> set (ring NUM (used_ring v) (used_idx v) (dev_used_idx v)) = at_phase Used fl"

definition vd_inv :: "'z vd_run \<Rightarrow> bool" where
  "vd_inv = (\<lambda>(s, fl, sn). vd_ok (vdisk s) fl sn)"

section \<open>The invariant\<close>

lemma flight_ok_cong:
  "flight_ok v h f \<Longrightarrow> (\<And>i. i \<in> chain_of h f \<Longrightarrow> desc v' i = desc v i) \<Longrightarrow> info_b v' h = info_b v h \<Longrightarrow>
   bdisk_busy v' (fbuf f) = bdisk_busy v (fbuf f) \<Longrightarrow> info_status v' h = info_status v h \<Longrightarrow> flight_ok v' h f"
  by (simp add: flight_ok_def chain_of_def)

lemma in_flightI: "fl h = Some f \<Longrightarrow> i \<in> chain_of h f \<Longrightarrow> i \<in> in_flight fl"
  by (auto simp: in_flight_def)

lemma in_flight_upd: "fl h = None \<Longrightarrow> in_flight (fl(h \<mapsto> f)) = chain_of h f \<union> in_flight fl"
  unfolding in_flight_def by (rule set_eqI) (auto, metis option.distinct(1))

text \<open>A step that changes phases only.\<close>

definition rephased :: "(nat \<Rightarrow> flight option) \<Rightarrow> (nat \<Rightarrow> flight option) \<Rightarrow> bool" where
  "rephased fl fl' \<longleftrightarrow> (\<forall>h. (fl' h = None \<longleftrightarrow> fl h = None)
     \<and> (\<forall>f f'. fl h = Some f \<and> fl' h = Some f' \<longrightarrow> fl1 f' = fl1 f \<and> fl2 f' = fl2 f \<and> fbuf f' = fbuf f))"

lemma rephased_sym: "rephased fl fl' \<Longrightarrow> rephased fl' fl"
  by (auto simp: rephased_def)

lemma rephasedD: "rephased fl fl' \<Longrightarrow> fl' h = Some f' \<Longrightarrow> \<exists>f. fl h = Some f \<and> chain_of h f' = chain_of h f \<and> fbuf f' = fbuf f"
  unfolding rephased_def by (drule spec[of _ h]) (auto simp: chain_of_def)

lemma rephased_in_flight: "rephased fl fl' \<Longrightarrow> in_flight fl' = in_flight fl"
  using rephasedD[of fl fl'] rephasedD[OF rephased_sym, of fl fl'] unfolding in_flight_def by blast

lemma rephased_apart: "rephased fl fl' \<Longrightarrow> apart fl \<Longrightarrow> apart fl'"
  using rephasedD[of fl fl'] unfolding apart_def by metis

lemma chain_of_phase [simp]: "chain_of h (f\<lparr>fphase := p\<rparr>) = chain_of h f" "chain_of h (fphase_update g f) = chain_of h f"
  by (simp_all add: chain_of_def)

text \<open>The two outcomes of a submission.\<close>

lemma submit_cases:
  fixes s :: "'z vd_state_scheme"
  obtains (full) D s' where "virtio_submit me b bn wr s = Ok (Asleep (), s')"
      "\<forall>i \<in> D. free_map (vdisk s) i"
      "vdisk s' = (vdisk s)\<lparr>desc := \<lambda>i. if i \<in> D then no_desc else desc (vdisk s) i\<rparr>"
  | (got) i0 i1 i2 s' where "virtio_submit me b bn wr s = Ok (Done i0, s')" "distinct [i0, i1, i2]"
      "\<forall>i \<in> {i0, i1, i2}. i < NUM \<and> free_map (vdisk s) i"
      "vdisk s' = (let v = (format_descs b bn i0 i1 i2 wr
          ((vdisk s)\<lparr>free_map := \<lambda>i. free_map (vdisk s) i \<and> i \<notin> {i0, i1, i2}\<rparr>))
        in v\<lparr>bdisk_busy := (bdisk_busy v)(b := True), info_b := (info_b v)(i0 := Some b),
             avail_ring := (avail_ring v)(unat (avail_idx v) mod NUM := i0), avail_idx := avail_idx v + 1\<rparr>)"
proof -
  have p: "\<forall>i \<in> set []. i < NUM \<and> \<not> free_map (vdisk s) i" by simp
  from alloc_descs_ok[OF distinct.simps(1)[THEN iffD2, OF TrueI] p, of "Some me" 3] show thesis
  proof (elim disjE exE conjE)
    fix new t
    assume n: "alloc_descs (Some me) 3 [] s = Ok (Some ([] @ new), t)" "length new = 3" "distinct new"
      "\<forall>i \<in> set new. i < NUM \<and> free_map (vdisk s) i"
      "vdisk t = (vdisk s)\<lparr>free_map := \<lambda>i. free_map (vdisk s) i \<and> i \<notin> set new\<rparr>"
    obtain i0 i1 i2 where new: "new = [i0, i1, i2]" using n(2) by (auto simp: numeral_3_eq_3 length_Suc_conv)
    show thesis
      by (rule got[of i0 _ i1 i2]) (use n in \<open>auto simp: new virtio_submit_def alloc3_desc_def Let_def\<close>)
  next
    fix t D
    assume n: "alloc_descs (Some me) 3 [] s = Ok (None, t)" "\<forall>i \<in> D. i \<in> set [] \<or> free_map (vdisk s) i"
      "vdisk t = (vdisk s)\<lparr>desc := \<lambda>i. if i \<in> D then no_desc else desc (vdisk s) i,
         free_map := \<lambda>i. i \<in> set [] \<or> free_map (vdisk s) i\<rparr>"
    show thesis
      by (rule full[of t D]) (use n in \<open>simp_all add: virtio_submit_def alloc3_desc_def\<close>)
  qed
qed

lemma vd_okD:
  assumes "vd_ok v fl sn"
  shows "fl h = Some f \<Longrightarrow> flight_ok v h f" "apart fl" "i < NUM \<Longrightarrow> free_map v i \<longleftrightarrow> i \<notin> in_flight fl"
    "distinct (ring NUM (avail_ring v) sn (avail_idx v))" "set (ring NUM (avail_ring v) sn (avail_idx v)) = at_phase Avail fl"
    "distinct (ring NUM (used_ring v) (used_idx v) (dev_used_idx v))"
    "set (ring NUM (used_ring v) (used_idx v) (dev_used_idx v)) = at_phase Used fl"
  using assms by (simp_all add: vd_ok_def)

lemma chain_busy:
  assumes "vd_ok v fl sn" "fl h = Some f" "i \<in> chain_of h f"
  shows "i < NUM" "\<not> free_map v i"
proof -
  show i: "i < NUM" using vd_okD(1)[OF assms(1,2)] assms(3) by (auto simp: flight_ok_def chain_of_def)
  show "\<not> free_map v i" using vd_okD(3)[OF assms(1) i] in_flightI[where fl = fl, OF assms(2) assms(3)] by simp
qed

lemma inv_full:
  assumes ok: "vd_ok v fl sn" and D: "\<forall>i \<in> D. free_map v i"
  shows "vd_ok (v\<lparr>desc := \<lambda>i. if i \<in> D then no_desc else desc v i\<rparr>) fl sn"
proof -
  have "flight_ok (v\<lparr>desc := \<lambda>i. if i \<in> D then no_desc else desc v i\<rparr>) h f" if "fl h = Some f" for h f
    by (rule flight_ok_cong[OF vd_okD(1)[OF ok that]]) (use chain_busy(2)[OF ok that] D in auto)
  then show ?thesis using ok by (simp add: vd_ok_def)
qed

lemma ring_room:
  assumes "distinct xs" "set xs \<subseteq> {..<NUM} - {h}" "h < NUM"
  shows "length xs < NUM"
proof -
  have "length xs = card (set xs)" using assms(1) by (simp add: distinct_card)
  also have "\<dots> \<le> card ({..<NUM} - {h})" using assms(2) by (intro card_mono) auto
  also have "\<dots> < NUM" using assms(3) by simp
  finally show ?thesis .
qed

lemma phase_less: "vd_ok v fl sn \<Longrightarrow> at_phase p fl \<subseteq> {..<NUM}"
  using vd_okD(1) by (auto simp: at_phase_def flight_ok_def)

lemma apart_upd:
  assumes "apart fl" "\<And>g e. fl g = Some e \<Longrightarrow> chain_of g e \<inter> chain_of h f = {} \<and> fbuf e \<noteq> fbuf f"
  shows "apart (fl(h \<mapsto> f))"
  unfolding apart_def
proof (intro allI impI, elim conjE)
  fix a d g e assume a: "(fl(h \<mapsto> f)) a = Some d" "(fl(h \<mapsto> f)) g = Some e" "a \<noteq> g"
  show "chain_of a d \<inter> chain_of g e = {} \<and> fbuf d \<noteq> fbuf e"
  proof (cases "a = h")
    case True
    then show ?thesis using a assms(2)[of g e] by (simp add: Int_commute)
  next
    case False
    then show ?thesis using a assms(1) assms(2)[of a d] by (cases "g = h") (auto simp: apart_def)
  qed
qed

lemma inv_submit:
  assumes ok: "vd_ok v fl sn" and d: "distinct [i0, i1, i2]" and fr: "\<forall>i \<in> {i0, i1, i2}. i < NUM \<and> free_map v i"
    and b: "\<forall>g f. fl g = Some f \<longrightarrow> fbuf f \<noteq> b"
    and v': "v' = (let w = (format_descs b bn i0 i1 i2 wr (v\<lparr>free_map := \<lambda>i. free_map v i \<and> i \<notin> {i0, i1, i2}\<rparr>))
        in w\<lparr>bdisk_busy := (bdisk_busy w)(b := True), info_b := (info_b w)(i0 := Some b),
             avail_ring := (avail_ring w)(unat (avail_idx w) mod NUM := i0), avail_idx := avail_idx w + 1\<rparr>)"
  shows "vd_ok v' (fl(i0 \<mapsto> \<lparr>fl1 = dnext (desc v' i0), fl2 = dnext (desc v' (dnext (desc v' i0))), fbuf = b, fphase = Avail\<rparr>)) sn"
proof -
  have F: "desc v' = (desc v)(i0 := \<lparr>daddr = OpHeader i0, dlen = 16, dflags = VRING_DESC_F_NEXT, dnext = i1\<rparr>,
      i1 := \<lparr>daddr = BufData b, dlen = of_nat BSIZE, dflags = (if wr then 0 else VRING_DESC_F_WRITE) OR VRING_DESC_F_NEXT, dnext = i2\<rparr>,
      i2 := \<lparr>daddr = StatusByte i0, dlen = 1, dflags = VRING_DESC_F_WRITE, dnext = 0\<rparr>)"
    "free_map v' = (\<lambda>i. free_map v i \<and> i \<notin> {i0, i1, i2})" "info_b v' = (info_b v)(i0 := Some b)"
    "info_status v' = (info_status v)(i0 := 0xff)" "bdisk_busy v' = (bdisk_busy v)(b := True)"
    "avail_ring v' = (avail_ring v)(unat (avail_idx v) mod NUM := i0)" "avail_idx v' = avail_idx v + 1"
    "used_ring v' = used_ring v" "used_idx v' = used_idx v" "dev_used_idx v' = dev_used_idx v"
    by (simp_all add: v' format_descs_def Let_def)
  let ?f = "\<lparr>fl1 = i1, fl2 = i2, fbuf = b, fphase = Avail\<rparr>"
  have nf: "fl i0 = None"
    using chain_busy(2)[OF ok, of i0 _ i0] fr by (cases "fl i0") (auto simp: chain_of_def)
  have new: "flight_ok v' i0 ?f"
    using d fr by (simp add: flight_ok_def F VRING_DESC_F_NEXT_def VRING_DESC_F_WRITE_def)
  have old: "flight_ok v' h f" "chain_of h f \<inter> {i0, i1, i2} = {}" if "fl h = Some f" for h f
  proof -
    have out: "i \<notin> {i0, i1, i2}" if "i \<in> chain_of h f" for i
      using chain_busy(2)[OF ok \<open>fl h = Some f\<close> that] fr by auto
    then show "chain_of h f \<inter> {i0, i1, i2} = {}" by auto
    have "h \<noteq> i0" using out[of h] by (simp add: chain_of_def)
    then show "flight_ok v' h f"
      using out b that by (intro flight_ok_cong[OF vd_okD(1)[OF ok that]]) (auto simp: F)
  qed
  have c: "chain_of i0 ?f = {i0, i1, i2}" by (simp add: chain_of_def)
  have ap: "apart (fl(i0 \<mapsto> ?f))"
    by (rule apart_upd[OF vd_okD(2)[OF ok]]) (use old(2) b c in auto)
  have inf: "in_flight (fl(i0 \<mapsto> ?f)) = {i0, i1, i2} \<union> in_flight fl"
    using in_flight_upd[of fl i0 ?f, OF nf] by (simp add: chain_of_def)
  have i0: "i0 < NUM" "i0 \<notin> at_phase p fl" for p using fr nf by (auto simp: at_phase_def)
  have "length (ring NUM (avail_ring v) sn (avail_idx v)) < NUM"
    using ring_room[OF vd_okD(4)[OF ok], of i0] vd_okD(5)[OF ok] phase_less[OF ok, of Avail] i0 by auto
  then have rg: "ring NUM (avail_ring v') sn (avail_idx v') = ring NUM (avail_ring v) sn (avail_idx v) @ [i0]"
    unfolding F by (intro ring_push NUM_ring) simp
  have ph: "at_phase Avail (fl(i0 \<mapsto> ?f)) = insert i0 (at_phase Avail fl)" "at_phase Used (fl(i0 \<mapsto> ?f)) = at_phase Used fl"
    using nf by (auto simp: at_phase_def)
  have e: "dnext (desc v' i0) = i1" "dnext (desc v' i1) = i2" using d by (simp_all add: F)
  show ?thesis unfolding e vd_ok_def
  proof (intro conjI allI impI)
    fix h f assume "(fl(i0 \<mapsto> ?f)) h = Some f"
    then show "flight_ok v' h f" using new old(1) by (cases "h = i0") auto
  next
    fix i assume "i < NUM"
    then show "free_map v' i \<longleftrightarrow> i \<notin> in_flight (fl(i0 \<mapsto> ?f))" using vd_okD(3)[OF ok] by (auto simp: F(2) inf)
  qed (use ap rg ph ok i0 in \<open>auto simp: vd_ok_def F\<close>)
qed

lemma rephased_upd: "fl h = Some f \<Longrightarrow> rephased fl (fl(h \<mapsto> f\<lparr>fphase := p\<rparr>))"
  by (auto simp: rephased_def)

lemma at_phase_upd:
  "fl h = Some f \<Longrightarrow> at_phase q (fl(h \<mapsto> f\<lparr>fphase := p\<rparr>)) = (if p = q then insert h (at_phase q fl) else at_phase q fl - {h})"
  by (auto simp: at_phase_def)

lemma inv_take:
  assumes ok: "vd_ok v fl sn" and ne: "sn \<noteq> avail_idx v" and h: "h = avail_ring v (unat sn mod NUM)"
  shows "\<exists>f. fl h = Some f \<and> fphase f = Avail" "vd_ok v (fl(h := map_option (fphase_update (\<lambda>_. Taken)) (fl h))) (sn + 1)"
proof -
  have r: "ring NUM (avail_ring v) sn (avail_idx v) = h # ring NUM (avail_ring v) (sn + 1) (avail_idx v)"
    unfolding h by (rule ring_pop[OF NUM_ring ne])
  then have "h \<in> at_phase Avail fl" using vd_okD(5)[OF ok] by auto
  then obtain f where f: "fl h = Some f" "fphase f = Avail" by (auto simp: at_phase_def)
  then show "\<exists>f. fl h = Some f \<and> fphase f = Avail" by blast
  let ?fl = "fl(h \<mapsto> f\<lparr>fphase := Taken\<rparr>)"
  note re = rephased_upd[of fl h f Taken, OF f(1)]
  have "flight_ok v h (f\<lparr>fphase := Taken\<rparr>)" using vd_okD(1)[OF ok f(1)] f(2) by (simp add: flight_ok_def)
  then have fo: "?fl g = Some e \<Longrightarrow> flight_ok v g e" for g e using vd_okD(1)[OF ok] by (auto split: if_splits)
  have "h \<notin> at_phase Used fl" using f by (simp add: at_phase_def)
  then have "vd_ok v ?fl (sn + 1)"
    using fo rephased_apart[OF re vd_okD(2)[OF ok]] rephased_in_flight[OF re] vd_okD(3-7)[OF ok] r
      at_phase_upd[of fl h f _ Taken, OF f(1)] by (auto simp: vd_ok_def)
  then show "vd_ok v (fl(h := map_option (fphase_update (\<lambda>_. Taken)) (fl h))) (sn + 1)" using f by simp
qed

lemma inv_complete:
  assumes ok: "vd_ok v fl sn" and f: "fl h = Some f" "fphase f = Taken"
  shows "vd_ok (v\<lparr>info_status := (info_status v)(h := 0), used_ring := (used_ring v)(unat (dev_used_idx v) mod NUM := h),
      dev_used_idx := dev_used_idx v + 1\<rparr>) (fl(h \<mapsto> f\<lparr>fphase := Used\<rparr>)) sn" (is "vd_ok ?v ?fl sn")
proof -
  note re = rephased_upd[of fl h f Used, OF f(1)]
  have hn: "h < NUM" "h \<notin> at_phase Used fl" "h \<notin> at_phase Avail fl"
    using vd_okD(1)[OF ok f(1)] f by (auto simp: flight_ok_def at_phase_def)
  have "length (ring NUM (used_ring v) (used_idx v) (dev_used_idx v)) < NUM"
    using ring_room[OF vd_okD(6)[OF ok], of h] vd_okD(7)[OF ok] phase_less[OF ok, of Used] hn by auto
  then have rg: "ring NUM (used_ring ?v) (used_idx ?v) (dev_used_idx ?v) = ring NUM (used_ring v) (used_idx v) (dev_used_idx v) @ [h]"
    using ring_push[OF NUM_ring, of "dev_used_idx v" "used_idx v" "used_ring v" h] by simp
  have new: "flight_ok ?v h (f\<lparr>fphase := Used\<rparr>)" using vd_okD(1)[OF ok f(1)] f(2) by (simp add: flight_ok_def)
  have old: "flight_ok ?v g e" if "fl g = Some e" "g \<noteq> h" for g e
    by (rule flight_ok_cong[OF vd_okD(1)[OF ok that(1)]]) (use that in simp_all)
  have fo: "?fl g = Some e \<Longrightarrow> flight_ok ?v g e" for g e using new old by (cases "g = h") auto
  show ?thesis
    using fo rephased_apart[OF re vd_okD(2)[OF ok]] rephased_in_flight[OF re] vd_okD(3-7)[OF ok] rg hn
      at_phase_upd[of fl h f _ Used, OF f(1)] unfolding vd_ok_def by simp
qed

abbreviation ack :: "(nat \<Rightarrow> flight option) \<Rightarrow> nat \<Rightarrow> flight option" where
  "ack fl \<equiv> \<lambda>h. map_option (\<lambda>f. if fphase f = Used then f\<lparr>fphase := Acked\<rparr> else f) (fl h)"

lemma inv_intr:
  fixes s :: "'z vd_state_scheme"
  assumes ok: "vd_ok (vdisk s) fl sn"
  shows "\<exists>t. virtio_disk_intr cur st s = Ok t \<and> vd_ok (vdisk t) (ack fl) sn"
proof -
  let ?v = "vdisk s" and ?us = "ring NUM (used_ring (vdisk s)) (used_idx (vdisk s)) (dev_used_idx (vdisk s))"
  have us: "\<exists>f. fl h = Some f \<and> fphase f = Used" if "h \<in> set ?us" for h
    using that vd_okD(7)[OF ok] by (auto simp: at_phase_def)
  have pre: "\<forall>h \<in> set ?us. info_status ?v h = 0 \<and> info_b ?v h \<noteq> None"
    using us vd_okD(1)[OF ok] by (fastforce simp: flight_ok_def)
  obtain t where t: "virtio_intr_loop cur (mmio_write 0x64 (st AND 3) s) = Ok t"
    "vdisk t = ?v\<lparr>bdisk_busy := \<lambda>b. bdisk_busy ?v b \<and> b \<notin> (\<lambda>h. the (info_b ?v h)) ` set ?us, used_idx := dev_used_idx ?v\<rparr>"
    using intr_loop_ok[of "mmio_write 0x64 (st AND 3) s" ?us cur] pre by auto
  have run: "virtio_disk_intr cur st s = Ok t" using t(1) by (simp add: virtio_disk_intr_def)
  have re: "rephased fl (ack fl)" by (auto simp: rephased_def)
  have busy: "bdisk_busy (vdisk t) (fbuf f) \<longleftrightarrow> fphase f \<noteq> Used \<and> fphase f \<noteq> Acked" if f: "fl h = Some f" for h f
  proof -
    have "fbuf f \<in> (\<lambda>h. the (info_b ?v h)) ` set ?us \<longleftrightarrow> fphase f = Used"
    proof
      assume "fphase f = Used"
      then have "h \<in> set ?us" using f vd_okD(7)[OF ok] by (auto simp: at_phase_def)
      moreover have "the (info_b ?v h) = fbuf f" using vd_okD(1)[OF ok f] by (simp add: flight_ok_def)
      ultimately show "fbuf f \<in> (\<lambda>h. the (info_b ?v h)) ` set ?us" by force
    next
      assume "fbuf f \<in> (\<lambda>h. the (info_b ?v h)) ` set ?us"
      then obtain g e where g: "fl g = Some e" "fphase e = Used" "the (info_b ?v g) = fbuf f" using us by fastforce
      then have "fbuf e = fbuf f" using vd_okD(1)[OF ok g(1)] by (simp add: flight_ok_def)
      then have "g = h" using vd_okD(2)[OF ok] f g(1) by (auto simp: apart_def)
      then show "fphase f = Used" using f g by simp
    qed
    then show ?thesis using vd_okD(1)[OF ok f] by (auto simp: t(2) flight_ok_def)
  qed
  have fo: "flight_ok (vdisk t) h e" if e: "ack fl h = Some e" for h e
  proof -
    obtain f where f: "fl h = Some f" "e = (if fphase f = Used then f\<lparr>fphase := Acked\<rparr> else f)" using e by auto
    show ?thesis using vd_okD(1)[OF ok f(1)] busy[OF f(1)] unfolding f(2) by (auto simp: flight_ok_def t(2))
  qed
  have "(x \<in> at_phase Avail (ack fl) \<longleftrightarrow> x \<in> at_phase Avail fl) \<and> x \<notin> at_phase Used (ack fl)" for x
    by (cases "fl x") (auto simp: at_phase_def)
  then have ph: "at_phase Avail (ack fl) = at_phase Avail fl" "at_phase Used (ack fl) = {}" by blast+
  have "ring NUM (used_ring ?v) (dev_used_idx ?v) (dev_used_idx ?v) = []" by (simp add: ring_empty)
  then have "vd_ok (vdisk t) (ack fl) sn"
    using fo rephased_apart[OF re vd_okD(2)[OF ok]] rephased_in_flight[OF re] vd_okD(3-5)[OF ok] ph
    unfolding vd_ok_def by (simp add: t(2))
  then show ?thesis using run by blast
qed

lemma in_flight_remove:
  assumes "apart fl" "fl h = Some f"
  shows "in_flight (fl(h := None)) = in_flight fl - chain_of h f"
proof (rule set_eqI)
  fix i
  show "i \<in> in_flight (fl(h := None)) \<longleftrightarrow> i \<in> in_flight fl - chain_of h f"
  proof
    assume "i \<in> in_flight (fl(h := None))"
    then obtain g e where g: "fl g = Some e" "g \<noteq> h" "i \<in> chain_of g e" by (auto simp: in_flight_def split: if_splits)
    then have "chain_of g e \<inter> chain_of h f = {}" using assms unfolding apart_def by metis
    then show "i \<in> in_flight fl - chain_of h f" using g by (auto simp: in_flight_def)
  next
    assume a: "i \<in> in_flight fl - chain_of h f"
    then obtain g e where "fl g = Some e" "i \<in> chain_of g e" by (auto simp: in_flight_def)
    moreover have "g \<noteq> h" using a calculation assms(2) by auto
    ultimately show "i \<in> in_flight (fl(h := None))" by (auto simp: in_flight_def)
  qed
qed

lemma inv_finish:
  fixes s :: "'z vd_state_scheme"
  assumes ok: "vd_ok (vdisk s) fl sn" and f: "fl h = Some f"
  shows "if fphase f = Acked
    then \<exists>t. virtio_finish me (fbuf f) h s = Ok (Done (), t) \<and> vd_ok (vdisk t) (fl(h := None)) sn
    else virtio_finish me (fbuf f) h s = Ok (Asleep (), s)"
proof (cases "fphase f = Acked")
  case False
  then show ?thesis using vd_okD(1)[OF ok f] by (simp add: flight_ok_def virtio_finish_def)
next
  case True
  let ?v = "vdisk s"
  note fo = vd_okD(1)[OF ok f, unfolded flight_ok_def]
  note nb = chain_busy(2)[OF ok f]
  define s1 where "s1 = upd_vd (\<lambda>v. v\<lparr>info_b := (info_b v)(h := None)\<rparr>) s"
  have v1: "vdisk s1 = ?v\<lparr>info_b := (info_b ?v)(h := None)\<rparr>" by (simp add: s1_def)
  obtain t where t: "free_chain (Some me) h s1 = Ok t"
    "vdisk t = (vdisk s1)\<lparr>desc := (desc (vdisk s1))(h := no_desc, fl1 f := no_desc, fl2 f := no_desc),
       free_map := (free_map (vdisk s1))(h := True, fl1 f := True, fl2 f := True)\<rparr>"
    using free_chain_ok[of h "fl1 f" "fl2 f" s1 "Some me"] fo nb[of h] nb[of "fl1 f"] nb[of "fl2 f"]
    unfolding v1 chain_of_def by auto
  have run: "virtio_finish me (fbuf f) h s = Ok (Done (), t)"
    using fo True t(1) by (simp add: virtio_finish_def s1_def)
  have old: "flight_ok (vdisk t) g e" if g: "fl g = Some e" "g \<noteq> h" for g e
  proof -
    have "chain_of g e \<inter> chain_of h f = {}" using vd_okD(2)[OF ok] f g unfolding apart_def by metis
    then show ?thesis
      using g by (intro flight_ok_cong[OF vd_okD(1)[OF ok g(1)]]) (auto simp: t(2) v1 chain_of_def)
  qed
  have ap: "apart (fl(h := None))" using vd_okD(2)[OF ok] by (simp add: apart_def)
  have ph: "at_phase p (fl(h := None)) = at_phase p fl - (if p = Acked then {h} else {})" for p
    using f True by (auto simp: at_phase_def)
  have fm: "free_map (vdisk t) i \<longleftrightarrow> i \<notin> in_flight (fl(h := None))" if "i < NUM" for i
    using vd_okD(3)[OF ok that] in_flight_remove[OF vd_okD(2)[OF ok] f] by (auto simp: t(2) v1 chain_of_def)
  have fo': "(fl(h := None)) g = Some e \<Longrightarrow> flight_ok (vdisk t) g e" for g e using old by (auto split: if_splits)
  have "vd_ok (vdisk t) (fl(h := None)) sn"
    using fo' ap ph fm vd_okD(4-7)[OF ok] unfolding vd_ok_def by (simp add: t(2) v1)
  then show ?thesis using run True by simp
qed

lemma vd_inv_step: "vd_step q q' \<Longrightarrow> vd_inv q \<Longrightarrow> vd_inv q'"
proof (induction rule: vd_step.induct)
  case (vd_submit me b bn wr s h s' fl sn)
  have ok: "vd_ok (vdisk s) fl sn" using vd_submit(3) by (simp add: vd_inv_def)
  show ?case
  proof (cases rule: submit_cases[of me b bn wr s])
    case (full D t)
    then show ?thesis using vd_submit(1) by simp
  next
    case (got i0 i1 i2 t)
    then have "h = i0" "s' = t" using vd_submit(1) by simp_all
    then show ?thesis using inv_submit[OF ok got(2,3) vd_submit(2) got(4)] by (simp add: vd_inv_def)
  qed
next
  case (vd_full me b bn wr s u s' fl sn)
  show ?case
  proof (cases rule: submit_cases[of me b bn wr s])
    case (full D t)
    then show ?thesis using vd_full inv_full[of "vdisk s" fl sn D] by (auto simp: vd_inv_def)
  next
    case (got i0 i1 i2 t)
    then show ?thesis using vd_full(1) by simp
  qed
next
  case (vd_take sn s h fl)
  then show ?case using inv_take(2)[of "vdisk s" fl sn h] by (simp add: vd_inv_def)
next
  case (vd_complete fl h f s sn)
  then show ?case using inv_complete[of "vdisk s" fl sn h f] by (simp add: vd_inv_def)
next
  case (vd_intr cur st s s' fl sn)
  then show ?case using inv_intr[of s fl sn cur st] by (auto simp: vd_inv_def)
next
  case (vd_finish fl h f me s u s' sn)
  then show ?case using inv_finish[of s fl sn h f me] by (auto simp: vd_inv_def split: if_splits)
next
  case (vd_wait fl h f me s u s' sn)
  then show ?case using inv_finish[of s fl sn h f me] by (auto simp: vd_inv_def split: if_splits)
next
  case (vd_other s' s fl sn)
  then show ?case by (simp add: vd_inv_def)
qed

lemma vd_init_inv: "vd_init q \<Longrightarrow> vd_inv q"
proof -
  assume q: "vd_init q"
  obtain s fl sn where e: "q = (s, fl, sn)" by (cases q) auto
  obtain dev s0 where i: "virtio_disk_init dev s0 = Ok s" "used_idx (vdisk s0) = 0" "fl = (\<lambda>_. None)" "sn = 0"
    using q by (auto simp: e vd_init_def)
  have kv: "kalloc x = (r, y) \<Longrightarrow> vdisk y = vdisk x" for x y :: "'z vd_state_scheme" and r
    by (auto simp: kalloc_def Let_def split: if_splits)
  have "used_idx (vdisk s) = 0" "dev_used_idx (vdisk s) = 0" "avail_idx (vdisk s) = 0" "\<forall>j < NUM. free_map (vdisk s) j"
    using i(1,2) by (auto simp: virtio_disk_init_def Let_def if_Ok_iff queue_addr_def split: if_splits prod.splits dest!: kv)
  then show ?thesis
    by (simp add: e vd_inv_def vd_ok_def i(3,4) apart_def in_flight_def at_phase_def ring_empty[THEN iffD2])
qed

interpretation vd: inductive_invariant vd_init vd_step vd_inv
  by unfold_locales (rule vd_init_inv, assumption, rule vd_inv_step)

lemma conserved:
  assumes ok: "vd_ok v fl sn"
  shows "card {i. i < NUM \<and> free_map v i} + 3 * card (dom fl) = NUM"
proof -
  let ?C = "\<lambda>h. chain_of h (the (fl h))"
  have fin: "finite (dom fl)"
    using vd_okD(1)[OF ok] by (intro finite_subset[of "dom fl" "{..<NUM}"]) (auto simp: flight_ok_def)
  have u: "in_flight fl = (\<Union>h \<in> dom fl. ?C h)" by (force simp: in_flight_def)
  have three: "card (?C h) = 3" if h: "h \<in> dom fl" for h
    using vd_okD(1)[OF ok, of h] h by (auto simp: flight_ok_def chain_of_def)
  have "card (in_flight fl) = (\<Sum>h \<in> dom fl. card (?C h))"
    unfolding u
  proof (rule card_UN_disjoint[OF fin])
    show "\<forall>h \<in> dom fl. finite (?C h)" by (simp add: chain_of_def)
    show "\<forall>h \<in> dom fl. \<forall>g \<in> dom fl. h \<noteq> g \<longrightarrow> ?C h \<inter> ?C g = {}"
      using vd_okD(2)[OF ok] unfolding apart_def dom_def by fastforce
  qed
  then have c: "card (in_flight fl) = 3 * card (dom fl)" using three by simp
  have sub: "in_flight fl \<subseteq> {..<NUM}" using chain_busy(1)[OF ok] by (auto simp: in_flight_def)
  have "{i. i < NUM \<and> free_map v i} = {..<NUM} - in_flight fl" using vd_okD(3)[OF ok] by auto
  then have "card {i. i < NUM \<and> free_map v i} = NUM - card (in_flight fl)"
    using card_Diff_subset[of "in_flight fl" "{..<NUM}"] sub finite_subset[OF sub] by simp
  then show ?thesis using c card_mono[OF _ sub] by simp
qed

text \<open>
  C6. The disk driver under any interleaving of its processes, its interrupt handler and a device
  that completes each chain it is given once, in any order, with success. No descriptor is lost or used twice:
  the free ones and three per request in flight are all of them. The driver never panics: submitting
  returns, or sleeps for lack of descriptors; the interrupt handler returns; and the submitter of
  a request in flight finishes, and frees the whole chain, exactly when the handler has acknowledged
  it, and sleeps on otherwise. The device always finds the head of a well-formed chain in the ring.
\<close>

theorem virtio_driver_safe:
  fixes s :: "'z vd_state_scheme"
  assumes "reach vd_init vd_step (s, fl, sn)"
  shows "card {i. i < NUM \<and> free_map (vdisk s) i} + 3 * card (dom fl) = NUM
    \<and> (\<forall>me b bn wr. \<exists>r s'. virtio_submit me b bn wr s = Ok (r, s'))
    \<and> (\<forall>cur st. \<exists>s'. virtio_disk_intr cur st s = Ok s')
    \<and> (\<forall>me h f. fl h = Some f \<longrightarrow>
         (\<exists>r s'. virtio_finish me (fbuf f) h s = Ok (r, s') \<and> (r = Done () \<longleftrightarrow> fphase f = Acked)))
    \<and> (sn \<noteq> avail_idx (vdisk s) \<longrightarrow> (\<exists>f. fl (avail_ring (vdisk s) (unat sn mod NUM)) = Some f
         \<and> flight_ok (vdisk s) (avail_ring (vdisk s) (unat sn mod NUM)) f))"
proof -
  have ok: "vd_ok (vdisk s) fl sn" using vd.reach_inv[OF assms] by (simp add: vd_inv_def)
  have "\<exists>r s'. virtio_submit me b bn wr s = Ok (r, s')" for me b bn wr
    by (rule submit_cases[of me b bn wr s]) auto
  moreover have "\<exists>r s'. virtio_finish me (fbuf f) h s = Ok (r, s') \<and> (r = Done () \<longleftrightarrow> fphase f = Acked)"
    if "fl h = Some f" for me h f
    using inv_finish[OF ok that, of me] by (cases "fphase f = Acked") auto
  moreover have "\<exists>f. fl (avail_ring (vdisk s) (unat sn mod NUM)) = Some f
         \<and> flight_ok (vdisk s) (avail_ring (vdisk s) (unat sn mod NUM)) f" if "sn \<noteq> avail_idx (vdisk s)"
    using inv_take(1)[OF ok that refl] vd_okD(1)[OF ok] by blast
  ultimately show ?thesis using conserved[OF ok] inv_intr[OF ok] by blast
qed

text \<open>A device that answers as the driver expects, and memory full of fives, which \<open>kalloc\<close> reads
  as an endless free list.\<close>

definition demo_dev :: "nat \<Rightarrow> u32" where
  "demo_dev r = (if r = 0 then 0x74726976 else if r = 4 \<or> r = 8 then 2 else if r = 12 then 0x554d4551
     else if r = 0x70 then 15 else if r = 0x34 then 1024 else 0)"

definition demo_vd :: vd_state where
  "demo_vd = (undefined :: vd_state)\<lparr>phys := (\<lambda>_. 5), freelist := 0x80001000, trace_memory := 0,
     vdisk := (undefined :: vdisk)\<lparr>used_idx := 0, bdisk_busy := (\<lambda>_. False)\<rparr>\<rparr>"

lemma kalloc_fives:
  "phys s = (\<lambda>_. 5) \<Longrightarrow> trace_memory s = 0 \<Longrightarrow> freelist s \<noteq> 0 \<Longrightarrow>
   \<exists>t. kalloc s = (freelist s, t) \<and> phys t = (\<lambda>_. 5) \<and> trace_memory t = 0 \<and> freelist t \<noteq> 0"
proof -
  assume a: "phys s = (\<lambda>_. 5)" "trace_memory s = 0" "freelist s \<noteq> 0"
  have "memset (\<lambda>_. 5) r 5 4096 = (\<lambda>_. 5)" for r by (auto simp: memset_eq)
  moreover have "load64 (\<lambda>_. 5) r \<noteq> 0" for r
  proof -
    have "read_bytes (\<lambda>_. 5) r n = replicate n 5" for n by (rule nth_equalityI) (simp_all add: read_bytes_nth)
    moreover have "le_word (replicate 8 5) \<noteq> 0" by code_simp
    ultimately show ?thesis by (simp add: load64_def)
  qed
  ultimately show ?thesis using a by (simp add: kalloc_def Let_def)
qed

lemma mmio_fields [simp]:
  "phys (mmio_write r v s) = phys s" "trace_memory (mmio_write r v s) = trace_memory s" "freelist (mmio_write r v s) = freelist s"
  by (simp_all add: mmio_write_def)

lemma demo_vd_init: "\<exists>s. virtio_disk_init demo_dev demo_vd = Ok s"
proof -
  let ?d = demo_dev
  define s4 where "s4 = mmio_write 0x30 0 (mmio_write 0x70 11 (mmio_write 0x20 (ucast (ucast (?d 0x10) AND feature_mask))
    (mmio_write 0x70 3 (mmio_write 0x70 1 (mmio_write 0x70 0 demo_vd)))))"
  have s4: "phys s4 = (\<lambda>_. 5)" "trace_memory s4 = 0" "freelist s4 \<noteq> 0"
    by (simp_all add: s4_def demo_vd_def)
  obtain s5 where k5: "kalloc s4 = (freelist s4, s5)" "phys s5 = (\<lambda>_. 5)" "trace_memory s5 = 0" "freelist s5 \<noteq> 0"
    using kalloc_fives[OF s4] by blast
  obtain s6 where k6: "kalloc s5 = (freelist s5, s6)" "phys s6 = (\<lambda>_. 5)" "trace_memory s6 = 0" "freelist s6 \<noteq> 0"
    using kalloc_fives[OF k5(2-4)] by blast
  obtain s7 where k7: "kalloc s6 = (freelist s6, s7)" using kalloc_fives[OF k6(2-4)] by blast
  have d: "?d 0 = 0x74726976" "?d 4 = 2" "?d 8 = 2" "?d 12 = 0x554d4551" "?d 0x70 AND 8 \<noteq> 0" "?d 0x44 = 0" "?d 0x34 = 1024"
    by (simp_all add: demo_dev_def)
  show ?thesis
    using d s4(3) k5(4) k6(4) unfolding virtio_disk_init_def Let_def s4_def[symmetric] k5(1) prod.case k6(1) k7
    by (simp add: NUM_def)
qed

theorem virtio_driver_safe_witness:
  "\<exists>(s :: vd_state) fl sn. reach vd_init vd_step (s, fl, sn) \<and> card {i. i < NUM \<and> free_map (vdisk s) i} = 8"
proof -
  obtain s where s: "virtio_disk_init demo_dev demo_vd = Ok s" using demo_vd_init by blast
  have "used_idx (vdisk demo_vd) = 0" "\<forall>b. \<not> bdisk_busy (vdisk demo_vd) b" by (simp_all add: demo_vd_def)
  then have r: "reach vd_init vd_step (s, (\<lambda>_. None), 0)"
    using s by (intro reach_init) (auto simp: vd_init_def)
  then show ?thesis using virtio_driver_safe[OF r] by (auto simp: NUM_def)
qed

end
