(* ===== verification/Console_Correct.thy ===== *)
theory Console_Correct
  imports Console
begin

text \<open>
  The line discipline of the console. The input buffer, a ring with the three counters \<open>r\<close>, \<open>w\<close> and
  \<open>e\<close>, is read as two sequences: what has been committed and can be read, and the line being
  edited.
\<close>

definition console_holds :: "'z con_state_scheme \<Rightarrow> u8 list \<Rightarrow> u8 list \<Rightarrow> bool" where
  "console_holds s q ed \<longleftrightarrow>
     ring INPUT_BUF_SIZE (cbuf (cons s)) (cr (cons s)) (cw (cons s)) = q
     \<and> ring INPUT_BUF_SIZE (cbuf (cons s)) (cw (cons s)) (ce (cons s)) = ed
     \<and> length q + length ed \<le> INPUT_BUF_SIZE \<and> 10 \<notin> set ed \<and> \<not> panicked s"

text \<open>The effect of one character on the two sequences.\<close>

definition type_char :: "u8 \<Rightarrow> u8 list \<times> u8 list \<Rightarrow> u8 list \<times> u8 list" where
  "type_char c = (\<lambda>(q, ed).
     if c = C_ctrl 85 then (q, [])
     else if c = C_ctrl 72 \<or> c = 127 then (q, butlast ed)
     else if c \<noteq> 0 \<and> length q + length ed < INPUT_BUF_SIZE
     then let ch = (if c = 13 then 10 else c); ed' = ed @ [ch]
          in if ch = 10 \<or> ch = C_ctrl 68 \<or> length q + length ed' = INPUT_BUF_SIZE then (q @ ed', []) else (q, ed')
     else (q, ed))"

lemma INPUT_BUF_ring: "ring_size TYPE(32) INPUT_BUF_SIZE"
  by (simp add: ring_size_def INPUT_BUF_SIZE_def)

lemma upd_cons_simps [simp]:
  "cons (upd_cons f s) = f (cons s)" "panicked (upd_cons f s) = panicked s" "procs (upd_cons f s) = procs s"
  by (simp_all add: upd_cons_def)

lemma uart_list_ok:
  "\<not> panicked s \<Longrightarrow> \<exists>t. iterR uartputc_sync bs s = Ok t \<and> cons t = cons s \<and> \<not> panicked t"
proof (induction bs arbitrary: s)
  case (Cons b bs)
  have "cons (write_THR b s) = cons s" "\<not> panicked (write_THR b s)" using Cons.prems by (simp_all add: write_THR_def)
  then show ?case using Cons.IH[of "write_THR b s"] Cons.prems by (auto simp: uartputc_sync_def)
qed simp

lemma consputc_ok: "\<not> panicked s \<Longrightarrow> \<exists>t. consputc c s = Ok t \<and> cons t = cons s \<and> \<not> panicked t"
  by (simp add: consputc_def uart_list_ok)

lemma holds_cons: "console_holds s q ed \<Longrightarrow> cons t = cons s \<Longrightarrow> \<not> panicked t \<Longrightarrow> console_holds t q ed"
  by (simp add: console_holds_def)

lemma holds_length:
  assumes "console_holds s q ed"
  shows "unat (ce (cons s) - cr (cons s)) = length q + length ed" "ce (cons s) = cw (cons s) \<longleftrightarrow> ed = []"
    "ring INPUT_BUF_SIZE (cbuf (cons s)) (cr (cons s)) (ce (cons s)) = q @ ed"
proof -
  have l: "unat (cw (cons s) - cr (cons s)) = length q" "unat (ce (cons s) - cw (cons s)) = length ed"
    using assms by (auto simp: console_holds_def)
  have "unat (cw (cons s) - cr (cons s)) + unat (ce (cons s) - cw (cons s)) < 2 ^ LENGTH(32)"
    using assms unfolding l by (simp add: console_holds_def INPUT_BUF_SIZE_def)
  then show r: "ring INPUT_BUF_SIZE (cbuf (cons s)) (cr (cons s)) (ce (cons s)) = q @ ed"
    using ring_split[OF INPUT_BUF_ring, of "cw (cons s)" "cr (cons s)" "ce (cons s)" "cbuf (cons s)"] assms
    by (simp add: console_holds_def)
  show "unat (ce (cons s) - cr (cons s)) = length q + length ed"
    using arg_cong[OF r, of length] by simp
  show "ce (cons s) = cw (cons s) \<longleftrightarrow> ed = []"
    using assms ring_empty[of INPUT_BUF_SIZE "cbuf (cons s)" "cw (cons s)" "ce (cons s)"] by (auto simp: console_holds_def)
qed

text \<open>Taking back the last character of the line.\<close>

lemma holds_erase:
  assumes "console_holds s q (ed @ [x])"
  shows "console_holds (upd_cons (\<lambda>b. b\<lparr>ce := ce b - 1\<rparr>) s) q ed" "ring_char (ce (cons s) - 1) s = x"
proof -
  have "cw (cons s) \<noteq> ce (cons s)" using holds_length(2)[OF assms] by auto
  note u = ring_unpush[OF INPUT_BUF_ring this, of "cbuf (cons s)"]
  show "console_holds (upd_cons (\<lambda>b. b\<lparr>ce := ce b - 1\<rparr>) s) q ed" "ring_char (ce (cons s) - 1) s = x"
    using assms u by (auto simp: console_holds_def ring_char_def)
qed

lemma kill_line_ok:
  "console_holds s q ed \<Longrightarrow> length ed \<le> k \<Longrightarrow> \<exists>t. kill_line k s = Ok t \<and> console_holds t q []"
proof (induction k arbitrary: s ed)
  case 0
  then show ?case by simp
next
  case (Suc k)
  show ?case
  proof (cases ed rule: rev_cases)
    case Nil
    then show ?thesis using Suc.prems holds_length(2)[OF Suc.prems(1)] by auto
  next
    case (snoc xs x)
    let ?s = "upd_cons (\<lambda>b. b\<lparr>ce := ce b - 1\<rparr>) s"
    note e = holds_erase[OF Suc.prems(1)[unfolded snoc]]
    have go: "ce (cons s) \<noteq> cw (cons s)" "ring_char (ce (cons s) - 1) s \<noteq> 10"
      using holds_length(2)[OF Suc.prems(1)] e(2) Suc.prems(1) by (auto simp: snoc console_holds_def)
    obtain t where t: "consputc BACKSPACE ?s = Ok t" "cons t = cons ?s" "\<not> panicked t"
      using consputc_ok[of ?s] e(1) by (auto simp: console_holds_def)
    have "console_holds t q xs" using holds_cons[OF e(1) t(2,3)] .
    then show ?thesis using Suc.IH[of t xs] Suc.prems(2) go t(1) by (simp add: snoc)
  qed
qed

text \<open>Adding a character at the end of the line.\<close>

lemma holds_add:
  fixes ch :: u8
  assumes h: "console_holds s q ed" and room: "length q + length ed < INPUT_BUF_SIZE"
  defines "b \<equiv> (cons s)\<lparr>cbuf := (cbuf (cons s))(unat (ce (cons s)) mod INPUT_BUF_SIZE := ch), ce := ce (cons s) + 1\<rparr>"
  shows "ring INPUT_BUF_SIZE (cbuf b) (cw b) (ce b) = ed @ [ch]" "ring INPUT_BUF_SIZE (cbuf b) (cr b) (cw b) = q"
    "ring INPUT_BUF_SIZE (cbuf b) (cr b) (ce b) = q @ ed @ [ch]"
proof -
  have l: "unat (cw (cons s) - cr (cons s)) = length q" "unat (ce (cons s) - cw (cons s)) = length ed"
    using h by (auto simp: console_holds_def)
  have lt: "unat (ce (cons s) - cw (cons s)) < INPUT_BUF_SIZE" "unat (ce (cons s) - cr (cons s)) < INPUT_BUF_SIZE"
    using holds_length(1)[OF h] l(2) room by linarith+
  show e: "ring INPUT_BUF_SIZE (cbuf b) (cw b) (ce b) = ed @ [ch]"
    using ring_push[OF INPUT_BUF_ring lt(1), of "cbuf (cons s)" ch] h by (simp add: b_def console_holds_def)
  show r: "ring INPUT_BUF_SIZE (cbuf b) (cr b) (ce b) = q @ ed @ [ch]"
    using ring_push[OF INPUT_BUF_ring lt(2), of "cbuf (cons s)" ch] holds_length(3)[OF h] by (simp add: b_def)
  have "unat (ce b - cw b) = length ed + 1" using arg_cong[OF e, of length] by simp
  then have "unat (cw b - cr b) + unat (ce b - cw b) < 2 ^ LENGTH(32)"
    using l(1) room by (simp add: b_def INPUT_BUF_SIZE_def)
  then have "ring INPUT_BUF_SIZE (cbuf b) (cr b) (ce b) = ring INPUT_BUF_SIZE (cbuf b) (cr b) (cw b) @ ring INPUT_BUF_SIZE (cbuf b) (cw b) (ce b)"
    using ring_split[OF INPUT_BUF_ring, of "cw b" "cr b" "ce b" "cbuf b"] by simp
  then show "ring INPUT_BUF_SIZE (cbuf b) (cr b) (cw b) = q" unfolding e r by simp
qed

lemma consoleintr_ok:
  assumes h: "console_holds s q ed" and c: "c \<noteq> C_ctrl 80"
  shows "\<exists>t. consoleintr cur c s = Ok t \<and> console_holds t (fst (type_char c (q, ed))) (snd (type_char c (q, ed)))"
proof -
  have np: "\<not> panicked s" using h by (simp add: console_holds_def)
  consider (kill) "c = C_ctrl 85" | (erase) "c \<noteq> C_ctrl 85" "c = C_ctrl 72 \<or> c = 127"
    | (add) "c \<noteq> C_ctrl 85" "c \<noteq> C_ctrl 72" "c \<noteq> 127" "c \<noteq> 0" "length q + length ed < INPUT_BUF_SIZE"
    | (ignore) "c \<noteq> C_ctrl 85" "c \<noteq> C_ctrl 72" "c \<noteq> 127" "c = 0 \<or> \<not> length q + length ed < INPUT_BUF_SIZE"
    by blast
  then show ?thesis
  proof cases
    case kill
    have "length ed \<le> INPUT_BUF_SIZE" using h by (simp add: console_holds_def)
    then show ?thesis using kill_line_ok[OF h] kill c by (simp add: consoleintr_def type_char_def)
  next
    case erase
    show ?thesis
    proof (cases ed rule: rev_cases)
      case Nil
      then show ?thesis using erase c h holds_length(2)[OF h] by (auto simp: consoleintr_def type_char_def)
    next
      case (snoc xs x)
      let ?s = "upd_cons (\<lambda>b. b\<lparr>ce := ce b - 1\<rparr>) s"
      note e = holds_erase(1)[OF h[unfolded snoc]]
      obtain t where t: "consputc BACKSPACE ?s = Ok t" "cons t = cons ?s" "\<not> panicked t"
        using consputc_ok[of ?s] np by auto
      have "console_holds t q xs" using holds_cons[OF e t(2,3)] .
      then show ?thesis using erase c t(1) holds_length(2)[OF h] by (auto simp: consoleintr_def type_char_def snoc)
    qed
  next
    case add
    define ch where "ch = (if c = 13 then 10 else c)"
    obtain s1 where s1: "consputc (ucast ch) s = Ok s1" "cons s1 = cons s" "\<not> panicked s1"
      using consputc_ok[OF np] by blast
    define b where "b = (cons s)\<lparr>cbuf := (cbuf (cons s))(unat (ce (cons s)) mod INPUT_BUF_SIZE := ch), ce := ce (cons s) + 1\<rparr>"
    note a = holds_add[OF h add(5), of ch, folded b_def]
    have len: "unat (ce b - cr b) = length q + length (ed @ [ch])" using arg_cong[OF a(3), of length] by simp
    have room: "unat (ce (cons s) - cr (cons s)) < INPUT_BUF_SIZE" using holds_length(1)[OF h] add(5) by simp
    define s2 where "s2 = upd_cons (\<lambda>b. b\<lparr>cbuf := (cbuf b)(unat (ce b) mod INPUT_BUF_SIZE := ch), ce := ce b + 1\<rparr>) s1"
    have c2: "cons s2 = b" "\<not> panicked s2" using s1 by (simp_all add: s2_def b_def)
    have run: "consoleintr cur c s = Ok (if ch = 10 \<or> ch = C_ctrl 68 \<or> unat (ce b - cr b) = INPUT_BUF_SIZE
        then (upd_cons (\<lambda>b. b\<lparr>cw := ce b\<rparr>) s2)\<lparr>procs := wake ChanCons cur (procs s2)\<rparr> else s2)"
    proof -
      have f: "(c = C_ctrl 80) = False" "(c = C_ctrl 85) = False" "(c = C_ctrl 72 \<or> c = 127) = False"
        "(c \<noteq> 0 \<and> unat (ce (cons s) - cr (cons s)) < INPUT_BUF_SIZE) = True"
        using add c room by simp_all
      show ?thesis
        unfolding consoleintr_def Let_def f if_False if_True ch_def[symmetric] s1(1) bindR_simps s2_def[symmetric] c2 ..
    qed
    show ?thesis
    proof (cases "ch = 10 \<or> ch = C_ctrl 68 \<or> unat (ce b - cr b) = INPUT_BUF_SIZE")
      case True
      have "type_char c (q, ed) = (q @ ed @ [ch], [])"
        using add True len by (auto simp: type_char_def ch_def[symmetric] Let_def)
      moreover have "length q + length (ed @ [ch]) \<le> INPUT_BUF_SIZE" using add(5) by simp
      ultimately show ?thesis using run True a c2 by (simp add: console_holds_def ring_empty[THEN iffD2])
    next
      case False
      have "type_char c (q, ed) = (q, ed @ [ch])"
        using add False len by (auto simp: type_char_def ch_def[symmetric] Let_def)
      moreover have "length q + length (ed @ [ch]) \<le> INPUT_BUF_SIZE" using add(5) by simp
      ultimately show ?thesis using run False a c2 h by (simp add: console_holds_def)
    qed
  next
    case ignore
    then show ?thesis using c h holds_length(1)[OF h] by (auto simp: consoleintr_def type_char_def)
  qed
qed

text \<open>
  C26. The line discipline. Whatever characters arrive (Control-P, which prints the process table,
  aside), the interrupt handler keeps the buffer of the console in step with the plain line editor
  \<open>type_char\<close> on two sequences: backspace and delete take back the last character of the line being
  edited, never one that has been committed; Control-U clears that line; a newline, a carriage
  return, an end-of-file mark or a full buffer commits it; further characters are dropped when the
  buffer is full. The handler never panics or hangs, although the counters wrap around.
\<close>

theorem console_line_discipline:
  assumes "console_holds s q ed" "C_ctrl 80 \<notin> set cs"
  shows "\<exists>t. iterR (consoleintr cur) cs s = Ok t
    \<and> console_holds t (fst (fold type_char cs (q, ed))) (snd (fold type_char cs (q, ed)))"
  using assms
proof (induction cs arbitrary: s q ed)
  case (Cons c cs)
  obtain q' ed' where e: "type_char c (q, ed) = (q', ed')" by (cases "type_char c (q, ed)")
  obtain t where t: "consoleintr cur c s = Ok t" "console_holds t q' ed'"
    using consoleintr_ok[OF Cons.prems(1), of c cur] Cons.prems(2) e by auto
  from Cons.IH[OF t(2)] Cons.prems(2) show ?case by (auto simp: t(1) e)
qed simp

text \<open>"hi", backspace, "o", return on an empty console commits "ho" and a newline.\<close>

theorem console_line_discipline_witness:
  "\<exists>(s :: con_state) t. iterR (consoleintr None) [104, 105, 8, 111, 13] s = Ok t \<and> console_holds t [104, 111, 10] []"
proof -
  let ?s = "(undefined :: con_state)\<lparr>cons := \<lparr>cbuf = \<lambda>_. 0, cr = 0, cw = 0, ce = 0\<rparr>, panicked := False\<rparr>"
  have h: "console_holds ?s [] []" by (simp add: console_holds_def ring_empty[THEN iffD2])
  have "C_ctrl 80 \<notin> set [104, 105, 8, 111, 13]" by (simp add: C_ctrl_def)
  moreover have "fold type_char [104, 105, 8, 111, 13] ([], []) = ([104, 111, 10], [])"
    by (simp add: type_char_def C_ctrl_def INPUT_BUF_SIZE_def)
  ultimately show ?thesis using console_line_discipline[OF h, of "[104, 105, 8, 111, 13]" None] by auto
qed

end
