(* ===== verification/Sbrk_Correct.thy ===== *)
theory Sbrk_Correct
  imports Trap Vm_Frame
begin

text \<open>
  \<open>sys_sbrk\<close> and \<open>growproc\<close>: the user memory of a process stays below the trap frame, whatever the
  process asks for and whether the memory is allocated at once or on first use.
\<close>

lemma more_procs: "kmem_state.more s = kmem_state.more t \<Longrightarrow> procs s = procs t"
  by (cases s; cases t) simp

lemma uvmalloc_procs:
  "uvmalloc pt oldsz newsz xperm s = Ok (r, s') \<Longrightarrow>
   procs s' = procs s \<and> (r = (if newsz < oldsz then oldsz else newsz) \<or> r = 0)"
  using more_procs[of s' s] uvmalloc_frame by blast

lemma uvmdealloc_procs:
  "uvmdealloc pt oldsz newsz s = Ok (r, s') \<Longrightarrow> procs s' = procs s \<and> r = min oldsz newsz"
  using more_procs[of s' s] uvmdealloc_frame[of pt oldsz newsz s r s']
  by (auto simp: uvmdealloc_def res_iff min_def split: if_splits)

text \<open>A process whose size alone has changed.\<close>

definition resized :: "nat \<Rightarrow> u64 \<Rightarrow> 'z proc_state_scheme \<Rightarrow> 'z proc_state_scheme \<Rightarrow> bool" where
  "resized me n s t \<longleftrightarrow> procs t = (procs s)(me := (procs s me)\<lparr>sz := n\<rparr>)"

lemma resized_same: "procs t = procs s \<Longrightarrow> resized me (sz (procs s me)) s t"
  by (simp add: resized_def)

lemma resized_upd: "procs u = procs s \<Longrightarrow> resized me n s (upd_proc me (sz_update (\<lambda>_. n)) u)"
  by (simp add: resized_def upd_proc_def)

lemma growproc_cases:
  assumes "growproc me n s = Ok (r, s')" "sz (procs s me) \<le> TRAPFRAME"
  shows "r = -1 \<and> n > 0 \<and> procs s' = procs s
    \<or> r = 0 \<and> (\<exists>m \<le> TRAPFRAME. resized me m s s' \<and> (n \<ge> 0 \<longrightarrow> m = max (sz (procs s me)) (sz (procs s me) + word_of_int n))
         \<and> (n < 0 \<longrightarrow> m = min (sz (procs s me)) (sz (procs s me) + word_of_int n)))"
proof -
  consider "n > 0" | "n < 0" | "n = 0" by linarith
  then show ?thesis
  proof cases
    case 1
    show ?thesis
      using assms 1
      by (auto simp: growproc_def Let_def res_iff max_def split: if_splits dest!: uvmalloc_procs intro: resized_upd)
  next
    case 2
    show ?thesis
      using assms 2
      by (auto simp: growproc_def Let_def res_iff dest!: uvmdealloc_procs intro!: exI[of _ "min (sz (procs s me)) (sz (procs s me) + word_of_int n)"] resized_upd simp: min.coboundedI1)
  next
    case 3
    then show ?thesis using assms resized_upd[of s s me "sz (procs s me)"] by (auto simp: growproc_def Let_def)
  qed
qed

lemma argint_bound: "argint me i s < 2 ^ 31"
  using sint_lt[of "ucast (argaddr me i s) :: u32"] by (simp add: argint_def)

lemma add_no_wrap:
  fixes a :: u64
  assumes "a \<le> TRAPFRAME" "0 \<le> n" "n < 2 ^ 31"
  shows "unat (a + word_of_int n) = unat a + nat n" "a \<le> a + word_of_int n"
proof -
  have a: "unat a \<le> 0x3FFFFFE000" using assms(1)
    by (simp add: word_le_nat_alt TRAPFRAME_def TRAMPOLINE_def MAXVA_def PGSIZE_def)
  have "int (nat n) = n" using assms(2) by simp
  then have "word_of_int n = (of_nat (nat n) :: u64)" by (metis of_int_of_nat_eq)
  moreover have n: "unat (of_nat (nat n) :: u64) = nat n" using assms(3) by (simp add: unat_of_nat nat_less_iff)
  ultimately show e: "unat (a + word_of_int n) = unat a + nat n"
    using a assms(3) by (simp add: unat_word_ariths)
  then show "a \<le> a + word_of_int n" by (simp add: word_le_nat_alt)
qed

lemma neg1_size: "a \<le> TRAPFRAME \<Longrightarrow> a \<noteq> neg1"
proof
  assume "a \<le> TRAPFRAME" "a = neg1"
  moreover have "\<not> (neg1 :: u64) \<le> TRAPFRAME" unfolding TRAPFRAME_def TRAMPOLINE_def MAXVA_def PGSIZE_def by code_simp
  ultimately show False by simp
qed

lemma sbrk_cases:
  assumes "sys_sbrk me s = Ok (r, s')" "sz (procs s me) \<le> TRAPFRAME"
  shows "\<exists>m \<le> TRAPFRAME. resized me m s s' \<and>
    (if r = neg1 then m = sz (procs s me)
     else r = sz (procs s me)
       \<and> m = (if argint me 0 s < 0 then min (sz (procs s me)) (sz (procs s me) + word_of_int (argint me 0 s))
              else sz (procs s me) + word_of_int (argint me 0 s)))"
proof -
  let ?n = "argint me 0 s" and ?old = "sz (procs s me)"
  have nw: "0 \<le> ?n \<Longrightarrow> ?old \<le> ?old + word_of_int ?n" using add_no_wrap(2)[OF assms(2) _ argint_bound] .
  have nn: "?old \<noteq> neg1" by (rule neg1_size[OF assms(2)])
  show ?thesis
  proof (cases "argint me 1 s = SBRK_EAGER \<or> ?n < 0")
    case True
    then obtain x where g: "growproc me ?n s = Ok (x, s')" "r = (if x < 0 then neg1 else ?old)"
      using assms(1) by (auto simp: sys_sbrk_def Let_def res_iff)
    from growproc_cases[OF g(1) assms(2)] show ?thesis
    proof (elim disjE exE conjE)
      assume "x = -1" "procs s' = procs s"
      then show ?thesis using g(2) assms(2) resized_same[of s' s me] by auto
    next
      fix m assume m: "x = 0" "m \<le> TRAPFRAME" "resized me m s s'"
        "?n \<ge> 0 \<longrightarrow> m = max ?old (?old + word_of_int ?n)" "?n < 0 \<longrightarrow> m = min ?old (?old + word_of_int ?n)"
      then show ?thesis using g(2) nn nw by (intro exI[of _ m]) (auto simp: max_def)
    qed
  next
    case False
    then have n: "0 \<le> ?n" by simp
    show ?thesis
    proof (cases "?old + word_of_int ?n > TRAPFRAME")
      case True
      then have "r = neg1" "s' = s" using assms(1) False by (auto simp: sys_sbrk_def Let_def)
      then show ?thesis using assms(2) resized_same[of s s me] by auto
    next
      case F: False
      have "\<not> ?old + word_of_int ?n < ?old" using nw[OF n] by simp
      then have "r = ?old" "s' = upd_proc me (\<lambda>q. q\<lparr>sz := sz q + word_of_int ?n\<rparr>) s"
        using assms(1) False F by (auto simp: sys_sbrk_def Let_def)
      then show ?thesis using F nn n
        by (intro exI[of _ "?old + word_of_int ?n"]) (auto simp: resized_def upd_proc_def)
    qed
  qed
qed

text \<open>
  C30. The size of a process never exceeds the address of its trap frame: a call of \<open>sbrk\<close> from such
  a size that returns keeps it there and changes no other process and nothing else of this one. It
  returns -1 and leaves the size alone, or the old size; the new size is then the old one plus \<open>n\<close>
  without wrap-around for \<open>n \<ge> 0\<close>, and for \<open>n < 0\<close> the smaller one, which is the old size when more
  is given back than there is. A lazy \<open>sbrk\<close> with \<open>n \<ge> 0\<close> always returns and allocates nothing.
\<close>

theorem sbrk_bounded:
  assumes "sz (procs s me) \<le> TRAPFRAME"
  shows "(\<forall>r s'. sys_sbrk me s = Ok (r, s') \<longrightarrow>
      (\<exists>m \<le> TRAPFRAME. procs s' = (procs s)(me := (procs s me)\<lparr>sz := m\<rparr>)
        \<and> (if r = neg1 then m = sz (procs s me)
           else r = sz (procs s me)
             \<and> (argint me 0 s \<ge> 0 \<longrightarrow> unat m = unat (sz (procs s me)) + nat (argint me 0 s))
             \<and> (argint me 0 s < 0 \<longrightarrow> m = min (sz (procs s me)) (sz (procs s me) + word_of_int (argint me 0 s))))))
    \<and> (argint me 0 s \<ge> 0 \<and> argint me 1 s \<noteq> SBRK_EAGER \<longrightarrow>
      (\<exists>r s'. sys_sbrk me s = Ok (r, s') \<and> phys s' = phys s \<and> freelist s' = freelist s))"
proof -
  have n: "0 \<le> argint me 0 s \<Longrightarrow>
      unat (sz (procs s me) + word_of_int (argint me 0 s)) = unat (sz (procs s me)) + nat (argint me 0 s)"
    using add_no_wrap(1)[OF assms _ argint_bound] .
  show ?thesis
    using sbrk_cases[OF _ assms] n
    by (fastforce simp: resized_def sys_sbrk_def Let_def upd_proc_def split: if_splits)
qed

text \<open>A process of size 4096 asks for 100 more bytes, lazily.\<close>

definition demo_sbrk :: proc_state where
  "demo_sbrk = (undefined :: proc_state)\<lparr>phys := (\<lambda>a. if a = 0x1070 then 100 else if a = 0x1078 then 2 else 0),
     procs := \<lambda>_. (undefined :: proc)\<lparr>sz := 4096, trapframe := 0x1000\<rparr>\<rparr>"

theorem sbrk_bounded_witness:
  "\<exists>r s'. sys_sbrk 0 demo_sbrk = Ok (r, s') \<and> r = 4096 \<and> unat (sz (procs s' 0)) = 4196"
proof -
  have sz: "sz (procs demo_sbrk 0) = 4096" "sz (procs demo_sbrk 0) \<le> TRAPFRAME"
    by (simp_all add: demo_sbrk_def TRAPFRAME_def TRAMPOLINE_def MAXVA_def PGSIZE_def)
  have a: "argint 0 0 demo_sbrk = 100" "argint 0 1 demo_sbrk = 2"
  proof -
    let ?m = "\<lambda>a. if a = 0x1070 then 100 else if a = 0x1078 then 2 else 0"
    have "load64 ?m 0x1070 = 100" "load64 ?m 0x1078 = 2" by code_simp+
    then show "argint 0 0 demo_sbrk = 100" "argint 0 1 demo_sbrk = 2"
      by (simp_all add: argint_def argaddr_def get_tf_def demo_sbrk_def tf_a0_def)
  qed
  note c = sbrk_bounded[OF sz(2)]
  obtain r s' where r: "sys_sbrk 0 demo_sbrk = Ok (r, s')" using c a by (auto simp: SBRK_EAGER_def)
  have "r \<noteq> neg1"
    using r a sz(1) by (auto simp: sys_sbrk_def Let_def SBRK_EAGER_def TRAPFRAME_def TRAMPOLINE_def MAXVA_def PGSIZE_def)
  then have "r = 4096" "unat (sz (procs s' 0)) = 4196"
    using conjunct1[OF c, rule_format, OF r] a sz(1) by auto
  then show ?thesis using r by blast
qed

end
