(* ===== verification/User_IO.thy ===== *)
theory User_IO
  imports Printk
begin

text \<open>
  How the user programs read a file: the contract of \<open>read\<close> on an open file, and the programs
  \<open>user/cat.c\<close> and \<open>user/wc.c\<close>, loops that read a file to its end. \<open>rd k e\<close> stands for
  \<open>read(fd, buf, k)\<close> in the state \<open>e\<close> of the system: \<open>None\<close> is the result -1, \<open>Some bs\<close> the bytes
  read. The contract says that reads return consecutive pieces of the rest of the file, at least
  a byte of it while there is one.
\<close>

type_synonym 'e reader = "nat \<Rightarrow> 'e \<Rightarrow> u8 list option \<times> 'e"

locale byte_source =
  fixes rd :: "nat \<Rightarrow> 'e \<Rightarrow> u8 list option \<times> 'e" and rest :: "'e \<Rightarrow> u8 list" and fine :: "'e \<Rightarrow> bool"
  assumes rd_ok: "fine e \<Longrightarrow> k < 2 ^ 31 \<Longrightarrow> \<exists>bs e'. rd k e = (Some bs, e') \<and> rest e = bs @ rest e' \<and> length bs \<le> k
      \<and> (0 < k \<and> rest e \<noteq> [] \<longrightarrow> bs \<noteq> []) \<and> fine e'"

section \<open>cat\<close>

text \<open>What \<open>cat\<close> has written and whether it returns (\<open>True\<close>) or exits with an error; \<open>wr\<close> is
  \<open>write(1, buf, n)\<close>.\<close>

partial_function (option) cat_loop :: "'e reader \<Rightarrow> (u8 list \<Rightarrow> 'e \<Rightarrow> int \<times> 'e) \<Rightarrow> 'e \<Rightarrow> (bool \<times> 'e) option" where
  "cat_loop rd wr e =
     (case rd 512 e of
        (None, e1) \<Rightarrow> Some (False, e1)
      | (Some bs, e1) \<Rightarrow>
          if bs = [] then Some (True, e1)
          else (case wr bs e1 of (r, e2) \<Rightarrow>
                 if r \<noteq> int (length bs) then Some (False, e2) else cat_loop rd wr e2))"

definition cat :: "'e reader \<Rightarrow> (u8 list \<Rightarrow> 'e \<Rightarrow> int \<times> 'e) \<Rightarrow> 'e \<Rightarrow> (bool \<times> 'e) option" where
  "cat rd wr e = cat_loop rd wr e"

section \<open>wc\<close>

text \<open>The counters \<open>l w c\<close> and \<open>inword\<close>. \<open>strchr\<close> of \<open>ulib.c\<close> does not find the NUL, which
  counts as a letter. An \<open>int\<close> that overflows is undefined in C; the counters are unbounded here.\<close>

record wc_state =
  wc_l :: nat
  wc_w :: nat
  wc_c :: nat
  inword :: bool

definition is_space :: "u8 \<Rightarrow> bool" where
  "is_space x \<longleftrightarrow> x \<in> {32, 13, 9, 10, 11}"

definition wc_byte :: "u8 \<Rightarrow> wc_state \<Rightarrow> wc_state" where
  "wc_byte x st =
     (let st1 = st\<lparr>wc_c := wc_c st + 1\<rparr>;
          st2 = (if x = 10 then st1\<lparr>wc_l := wc_l st1 + 1\<rparr> else st1)
      in if is_space x then st2\<lparr>inword := False\<rparr>
         else if \<not> inword st2 then st2\<lparr>wc_w := wc_w st2 + 1, inword := True\<rparr>
         else st2)"

partial_function (option) wc_loop :: "'e reader \<Rightarrow> wc_state \<Rightarrow> 'e \<Rightarrow> ((nat \<times> nat \<times> nat) option \<times> 'e) option" where
  "wc_loop rd st e =
     (case rd 512 e of
        (None, e1) \<Rightarrow> Some (None, e1)
      | (Some bs, e1) \<Rightarrow>
          if bs = [] then Some (Some (wc_l st, wc_w st, wc_c st), e1)
          else wc_loop rd (fold wc_byte bs st) e1)"

text \<open>The three numbers \<open>wc\<close> prints; \<open>None\<close> inside is the exit after a read error.\<close>

definition wc :: "'e reader \<Rightarrow> 'e \<Rightarrow> ((nat \<times> nat \<times> nat) option \<times> 'e) option" where
  "wc rd e = wc_loop rd \<lparr>wc_l = 0, wc_w = 0, wc_c = 0, inword = False\<rparr> e"

section \<open>The programs on a file\<close>

text \<open>The number of words: the places where a letter follows a space or the start.\<close>

definition word_starts :: "u8 list \<Rightarrow> nat" where
  "word_starts bs = card {i. i < length bs \<and> \<not> is_space (bs ! i) \<and> (i = 0 \<or> is_space (bs ! (i - 1)))}"

definition wc_of :: "u8 list \<Rightarrow> wc_state" where
  "wc_of bs = \<lparr>wc_l = count_list bs 10, wc_w = word_starts bs, wc_c = length bs,
     inword = (bs \<noteq> [] \<and> \<not> is_space (last bs))\<rparr>"

lemma word_starts_snoc:
  "word_starts (bs @ [x]) =
     word_starts bs + (if \<not> is_space x \<and> (bs = [] \<or> is_space (last bs)) then 1 else 0)"
proof -
  let ?S = "\<lambda>bs. {i. i < length bs \<and> \<not> is_space (bs ! i) \<and> (i = 0 \<or> is_space (bs ! (i - 1)))}"
  have "?S (bs @ [x]) = ?S bs \<union> (if \<not> is_space x \<and> (bs = [] \<or> is_space (last bs)) then {length bs} else {})"
    by (cases "bs = []") (auto simp: nth_append last_conv_nth less_Suc_eq split: if_splits)
  moreover have "finite (?S bs)" "length bs \<notin> ?S bs" by auto
  ultimately show ?thesis unfolding word_starts_def by simp
qed

lemma wc_of_snoc: "wc_byte x (wc_of bs) = wc_of (bs @ [x])"
  by (auto simp: wc_byte_def wc_of_def word_starts_snoc Let_def)

lemma fold_wc_byte: "fold wc_byte xs (wc_of bs) = wc_of (bs @ xs)"
  by (induction xs arbitrary: bs) (simp_all add: wc_of_snoc)

context byte_source
begin

lemma wc_loop_ok:
  assumes "fine e"
  shows "\<exists>e'. wc_loop rd (wc_of bs) e = Some (Some (wc_l (wc_of (bs @ rest e)), wc_w (wc_of (bs @ rest e)), wc_c (wc_of (bs @ rest e))), e')"
  using assms
proof (induction "length (rest e)" arbitrary: e bs rule: less_induct)
  case less
  obtain xs e1 where r: "rd 512 e = (Some xs, e1)" "rest e = xs @ rest e1" "rest e \<noteq> [] \<longrightarrow> xs \<noteq> []" "fine e1"
    using rd_ok[OF less.prems, of 512] by auto
  show ?case
  proof (cases "xs = []")
    case True
    then have "rest e = []" using r(3) by blast
    then show ?thesis using r(1) True by (subst wc_loop.simps) simp
  next
    case False
    then have "length (rest e1) < length (rest e)" unfolding r(2) by simp
    from less.hyps[OF this r(4), of "bs @ xs"] have "\<exists>e'. wc_loop rd (wc_of (bs @ xs)) e1 = Some (Some (wc_l (wc_of ((bs @ xs) @ rest e1)),
        wc_w (wc_of ((bs @ xs) @ rest e1)), wc_c (wc_of ((bs @ xs) @ rest e1))), e')"
      .
    moreover have "wc_loop rd (wc_of bs) e = wc_loop rd (wc_of (bs @ xs)) e1"
      using False r(1) by (simp add: wc_loop.simps[of rd "wc_of bs" e] fold_wc_byte)
    ultimately show ?thesis unfolding r(2) append_assoc by simp
  qed
qed

lemma wc_ok:
  assumes "fine e"
  shows "\<exists>e'. wc rd e = Some (Some (count_list (rest e) 10, word_starts (rest e), length (rest e)), e')"
proof -
  have "\<lparr>wc_l = 0, wc_w = 0, wc_c = 0, inword = False\<rparr> = wc_of []"
    by (simp add: wc_of_def word_starts_def)
  then show ?thesis using wc_loop_ok[OF assms, of "[]"] by (simp add: wc_def) (simp add: wc_of_def)
qed

lemma cat_ok:
  assumes "fine e" and quiet: "\<And>k e. out (snd (rd k e)) = out e"
    and wr: "\<And>bs e. fine e \<Longrightarrow>
      \<exists>e'. wr bs e = (int (length bs), e') \<and> out e' = out e @ bs \<and> rest e' = rest e \<and> fine e'"
  shows "\<exists>e'. cat rd wr e = Some (True, e') \<and> out e' = out e @ rest e"
  using assms(1) unfolding cat_def
proof (induction "length (rest e)" arbitrary: e rule: less_induct)
  case less
  obtain xs e1 where r: "rd 512 e = (Some xs, e1)" "rest e = xs @ rest e1" "rest e \<noteq> [] \<longrightarrow> xs \<noteq> []" "fine e1"
    using rd_ok[OF less.prems, of 512] by auto
  note U = cat_loop.simps[of rd wr e]
  have e1: "out e1 = out e" using quiet[of 512 e] r(1) by simp
  show ?case
  proof (cases "xs = []")
    case True
    then have "rest e = []" using r(3) by blast
    then show ?thesis using U r(1) True e1 by simp
  next
    case False
    obtain e2 where w: "wr xs e1 = (int (length xs), e2)" "out e2 = out e1 @ xs" "rest e2 = rest e1" "fine e2"
      using wr[OF r(4)] by blast
    have "length (rest e2) < length (rest e)" unfolding r(2) w(3) using False by simp
    from less.hyps[OF this w(4)] have "\<exists>e'. cat_loop rd wr e2 = Some (True, e') \<and> out e' = out e @ xs @ rest e1"
      unfolding w(2,3) e1 by simp
    moreover have "cat_loop rd wr e = cat_loop rd wr e2" using U r(1) w(1) False by simp
    ultimately show ?thesis unfolding r(2) by simp
  qed
qed

end

end
