(* ===== verification/Grep.thy ===== *)
theory Grep
  imports User_IO
begin

text \<open>
  The program \<open>grep\<close>, \<open>user/grep.c\<close>. A pattern or a text is the list of the bytes before its NUL
  and a pointer into it the list that is left. The buffer of \<open>grep\<close> is the list of its first \<open>m\<close>
  bytes, which may hold NULs.
  The matcher is compared with the language of the pattern, and the loop over the buffer with the
  list of the lines of the input.
\<close>

section \<open>The matcher\<close>

text \<open>42 is \<open>*\<close>, 36 is \<open>$\<close>, 46 is the dot, 94 is \<open>^\<close> and 10 the newline.\<close>

function matchhere :: "u8 list \<Rightarrow> u8 list \<Rightarrow> bool" and matchstar :: "u8 \<Rightarrow> u8 list \<Rightarrow> u8 list \<Rightarrow> bool" where
  "matchhere [] tx = True"
| "matchhere (c # re) tx =
     (if at_or_0 re 0 = 42 then matchstar c (drop 1 re) tx
      else if c = 36 \<and> re = [] then tx = []
      else if tx \<noteq> [] \<and> (c = 46 \<or> c = hd tx) then matchhere re (tl tx)
      else False)"
| "matchstar c re tx =
     (if matchhere re tx then True
      else if tx \<noteq> [] \<and> (hd tx = c \<or> c = 46) then matchstar c re (tl tx)
      else False)"
  by pat_completeness auto
termination
  by (relation "measures [case_sum (\<lambda>(re, tx). length re) (\<lambda>(c, re, tx). length re + 1),
        case_sum (\<lambda>(re, tx). length tx) (\<lambda>(c, re, tx). length tx)]")
     (auto simp: at_or_0_def split: if_splits)

text \<open>The loop of \<open>match\<close> over the suffixes of the text, the empty one included.\<close>

fun match_from :: "u8 list \<Rightarrow> u8 list \<Rightarrow> bool" where
  "match_from re [] = matchhere re []"
| "match_from re (x # tx) = (matchhere re (x # tx) \<or> match_from re tx)"

definition match :: "u8 list \<Rightarrow> u8 list \<Rightarrow> bool" where
  "match re tx = (if at_or_0 re 0 = 94 then matchhere (drop 1 re) tx else match_from re tx)"

section \<open>The loop over the input\<close>

text \<open>\<open>strchr(p, '\n')\<close>: the offset of the first newline, unless a NUL comes before it.\<close>

fun newline_at :: "u8 list \<Rightarrow> nat option" where
  "newline_at [] = None"
| "newline_at (x # xs) = (if x = 10 then Some 0 else if x = 0 then None else map_option Suc (newline_at xs))"

lemma newline_at_less [dest]: "newline_at p = Some i \<Longrightarrow> i < length p"
  by (induction p arbitrary: i) (auto split: if_splits)

text \<open>The inner loop, from \<open>p\<close> to the end of the buffer: what is written and what is left.\<close>

function grep_lines :: "u8 list \<Rightarrow> u8 list \<Rightarrow> u8 list \<times> u8 list" where
  "grep_lines pat p =
     (case newline_at p of
        None \<Rightarrow> ([], p)
      | Some i \<Rightarrow> (case grep_lines pat (drop (i + 1) p) of (out, p') \<Rightarrow>
          ((if match pat (take i p) then take (i + 1) p else []) @ out, p')))"
  by pat_completeness auto
termination
  by (relation "measure (\<lambda>(pat, p). length p)") (auto dest: newline_at_less)

declare grep_lines.simps [simp del]

definition GREPBUF :: nat where "GREPBUF = 1024"

partial_function (option) grep_loop ::
    "'e reader \<Rightarrow> u8 list \<Rightarrow> u8 list \<Rightarrow> u8 list \<Rightarrow> 'e \<Rightarrow> (u8 list \<times> 'e) option" where
  "grep_loop rd pat out b e =
     (case rd (GREPBUF - length b - 1) e of
        (None, e1) \<Rightarrow> Some (out, e1)
      | (Some bs, e1) \<Rightarrow>
          if bs = [] then Some (out, e1)
          else (case grep_lines pat (b @ bs) of (w, b1) \<Rightarrow> grep_loop rd pat (out @ w) b1 e1))"

text \<open>What \<open>grep\<close> writes, and the state of the system after it.\<close>

definition grep :: "'e reader \<Rightarrow> u8 list \<Rightarrow> 'e \<Rightarrow> (u8 list \<times> 'e) option" where
  "grep rd pat e = grep_loop rd pat [] [] e"

section \<open>The language of a pattern\<close>

datatype ritem = One u8 | Many u8

definition fits :: "u8 \<Rightarrow> u8 \<Rightarrow> bool" where
  "fits c x \<longleftrightarrow> c = 46 \<or> x = c"

text \<open>The items of a pattern, and whether it is tied to the end of the text.\<close>

fun items :: "u8 list \<Rightarrow> ritem list \<times> bool" where
  "items [] = ([], False)"
| "items [c] = (if c = 36 then ([], True) else ([One c], False))"
| "items (c # d # re) =
     (if d = 42 then apfst (Cons (Many c)) (items re) else apfst (Cons (One c)) (items (d # re)))"

primrec lang :: "ritem list \<Rightarrow> u8 list set" where
  "lang [] = {[]}"
| "lang (r # rs) = (case r of
     One c \<Rightarrow> {x # w | x w. fits c x \<and> w \<in> lang rs}
   | Many c \<Rightarrow> {v @ w | v w. (\<forall>x\<in>set v. fits c x) \<and> w \<in> lang rs})"

definition spells :: "ritem list \<Rightarrow> bool \<Rightarrow> u8 list \<Rightarrow> bool" where
  "spells rs e tx \<longleftrightarrow> (\<exists>mid post. tx = mid @ post \<and> mid \<in> lang rs \<and> (e \<longrightarrow> post = []))"

definition here :: "u8 list \<Rightarrow> u8 list \<Rightarrow> bool" where
  "here re tx \<longleftrightarrow> spells (fst (items re)) (snd (items re)) tx"

lemma spells_One: "spells (One c # rs) e (x # tx) \<longleftrightarrow> fits c x \<and> spells rs e tx" (is "?L \<longleftrightarrow> ?R")
proof
  assume ?L
  then obtain mid post where m: "x # tx = mid @ post" "mid \<in> lang (One c # rs)" "e \<longrightarrow> post = []"
    unfolding spells_def by blast
  then obtain w where "x # tx = (x # w) @ post" "fits c x" "w \<in> lang rs" by auto
  with m(3) have "x # tx = (x # w) @ post" "fits c x" "w \<in> lang rs" "e \<longrightarrow> post = []" by blast+
  then show ?R by (auto simp: spells_def)
next
  assume ?R
  then obtain w post where w: "tx = w @ post" "fits c x" "w \<in> lang rs" "e \<longrightarrow> post = []"
    unfolding spells_def by blast
  then show ?L unfolding spells_def by (intro exI[of _ "x # w"] exI[of _ post]) auto
qed

lemma spells_One_Nil [simp]: "\<not> spells (One c # rs) e []"
  by (auto simp: spells_def)

lemma spells_Many:
  "spells (Many c # rs) e tx \<longleftrightarrow> (\<exists>v w. tx = v @ w \<and> (\<forall>x\<in>set v. fits c x) \<and> spells rs e w)"
  (is "?L \<longleftrightarrow> ?R")
proof
  assume ?L
  then obtain mid post where m: "tx = mid @ post" "mid \<in> lang (Many c # rs)" "e \<longrightarrow> post = []"
    unfolding spells_def by blast
  then obtain v w where "mid = v @ w" "\<forall>x\<in>set v. fits c x" "w \<in> lang rs" by auto
  with m have "tx = (v @ w) @ post" "\<forall>x\<in>set v. fits c x" "w \<in> lang rs" "e \<longrightarrow> post = []" by blast+
  then show ?R unfolding spells_def by (intro exI[of _ v] exI[of _ "w @ post"]) auto
next
  assume ?R
  then obtain v w post where w: "tx = v @ w @ post" "\<forall>x\<in>set v. fits c x" "w \<in> lang rs" "e \<longrightarrow> post = []"
    unfolding spells_def by blast
  then show ?L unfolding spells_def by (intro exI[of _ "v @ w"] exI[of _ post]) auto
qed

lemma here_Nil [simp]: "here [] tx"
  by (simp add: here_def spells_def)

lemma here_end: "here [36] tx \<longleftrightarrow> tx = []"
  by (auto simp: here_def spells_def)

lemma items_one:
  "at_or_0 re 0 \<noteq> 42 \<Longrightarrow> \<not> (c = 36 \<and> re = []) \<Longrightarrow> items (c # re) = apfst (Cons (One c)) (items re)"
  by (cases re) (auto simp: at_or_0_def split: if_splits)

lemma here_one:
  assumes "at_or_0 re 0 \<noteq> 42" "\<not> (c = 36 \<and> re = [])"
  shows "here (c # re) tx \<longleftrightarrow> tx \<noteq> [] \<and> fits c (hd tx) \<and> here re (tl tx)"
  unfolding here_def items_one[OF assms] by (cases tx) (auto simp: spells_One)

lemma items_star: "at_or_0 re 0 = 42 \<Longrightarrow> items (c # re) = apfst (Cons (Many c)) (items (drop 1 re))"
  by (cases re) (auto simp: at_or_0_def split: if_splits)

lemma here_star:
  assumes "at_or_0 re 0 = 42"
  shows "here (c # re) tx \<longleftrightarrow> (\<exists>v w. tx = v @ w \<and> (\<forall>x\<in>set v. fits c x) \<and> here (drop 1 re) w)"
  unfolding here_def items_star[OF assms] by (simp add: spells_Many)

lemma star_unfold:
  "(\<exists>v w. tx = v @ w \<and> (\<forall>x\<in>set v. fits c x) \<and> P w) \<longleftrightarrow>
     P tx \<or> (tx \<noteq> [] \<and> fits c (hd tx) \<and> (\<exists>v w. tl tx = v @ w \<and> (\<forall>x\<in>set v. fits c x) \<and> P w))"
  (is "?L \<longleftrightarrow> ?R")
proof
  assume ?L
  then obtain v w where v: "tx = v @ w" "\<forall>x\<in>set v. fits c x" "P w" by blast
  then show ?R by (cases v) auto
next
  assume ?R
  then show ?L
  proof
    assume "P tx"
    then show ?L by (intro exI[of _ "[]"] exI[of _ tx]) simp
  next
    assume a: "tx \<noteq> [] \<and> fits c (hd tx) \<and> (\<exists>v w. tl tx = v @ w \<and> (\<forall>x\<in>set v. fits c x) \<and> P w)"
    then obtain v w where "tl tx = v @ w" "\<forall>x\<in>set v. fits c x" "P w" by blast
    with a show ?L by (intro exI[of _ "hd tx # v"] exI[of _ w]) (cases tx, auto)
  qed
qed

lemma matchhere_here:
  "matchhere re tx \<longleftrightarrow> here re tx"
  "matchstar c re tx \<longleftrightarrow> (\<exists>v w. tx = v @ w \<and> (\<forall>x\<in>set v. fits c x) \<and> here re w)"
proof (induction re tx and c re tx rule: matchhere_matchstar.induct)
  case (2 c re tx)
  consider "at_or_0 re 0 = 42" | "at_or_0 re 0 \<noteq> 42" "c = 36" "re = []"
    | "at_or_0 re 0 \<noteq> 42" "\<not> (c = 36 \<and> re = [])" by blast
  then show ?case
  proof cases
    case 1
    then show ?thesis using 2(1) here_star by simp
  next
    case 2
    then show ?thesis by (simp add: here_end)
  next
    case 3
    then show ?thesis using 2(2) here_one[OF 3] by (auto simp: fits_def)
  qed
next
  case (3 c re tx)
  show ?case
    by (subst star_unfold) (use 3 in \<open>auto simp: fits_def\<close>)
qed simp

lemma match_from_here: "match_from re tx \<longleftrightarrow> (\<exists>pre rest. tx = pre @ rest \<and> here re rest)"
proof (induction tx)
  case (Cons x tx)
  have "(\<exists>pre rest. x # tx = pre @ rest \<and> here re rest)
      \<longleftrightarrow> here re (x # tx) \<or> (\<exists>pre rest. tx = pre @ rest \<and> here re rest)"
    by (metis append_Cons append_Nil append_eq_Cons_conv)
  then show ?case using Cons by (simp add: matchhere_here)
qed (simp add: matchhere_here)

text \<open>
  C34. \<open>match\<close> finds exactly the texts that contain a word of the language of the pattern, read
  as a list of literals, dots and starred characters, at the start of the text when the pattern
  begins with \<open>^\<close> and at its end when it ends with \<open>$\<close>.
\<close>

theorem match_regular:
  "match re tx \<longleftrightarrow>
     (\<exists>pre mid post. tx = pre @ mid @ post
        \<and> mid \<in> lang (fst (items (if at_or_0 re 0 = 94 then drop 1 re else re)))
        \<and> (if at_or_0 re 0 = 94 then pre = [] else True)
        \<and> (if snd (items (if at_or_0 re 0 = 94 then drop 1 re else re)) then post = [] else True))"
  by (auto simp: match_def matchhere_here match_from_here here_def spells_def)

section \<open>The lines of the input\<close>

text \<open>The complete lines, without their newlines, and what follows the last newline.\<close>

fun lines_of :: "u8 list \<Rightarrow> u8 list list \<times> u8 list" where
  "lines_of [] = ([], [])"
| "lines_of (x # xs) = (case lines_of xs of (ls, r) \<Rightarrow>
     if x = 10 then ([] # ls, r)
     else (case ls of [] \<Rightarrow> ([], x # r) | l # ls' \<Rightarrow> ((x # l) # ls', r)))"

definition selected :: "u8 list \<Rightarrow> u8 list \<Rightarrow> u8 list" where
  "selected pat bs = concat (map (\<lambda>l. l @ [10]) (filter (match pat) (fst (lines_of bs))))"

lemma lines_newline_at:
  "0 \<notin> set p \<Longrightarrow> lines_of p = (case newline_at p of None \<Rightarrow> ([], p)
     | Some i \<Rightarrow> (take i p # fst (lines_of (drop (i + 1) p)), snd (lines_of (drop (i + 1) p))))"
  by (induction p) (auto split: prod.splits option.splits list.splits)

lemma newline_at_char: "newline_at p = Some i \<Longrightarrow> take (i + 1) p = take i p @ [10]"
  by (induction p arbitrary: i) (auto split: if_splits)

lemma set_drop_nul: "0 \<notin> set p \<Longrightarrow> (0::u8) \<notin> set (drop n p)"
  using set_drop_subset by fastforce

lemma grep_lines_eq: "0 \<notin> set p \<Longrightarrow> grep_lines pat p = (selected pat p, snd (lines_of p))"
proof (induction pat p rule: grep_lines.induct)
  case (1 pat p)
  show ?case
  proof (cases "newline_at p")
    case None
    then show ?thesis using lines_newline_at[OF 1(2)] by (simp add: grep_lines.simps[of pat p] selected_def)
  next
    case (Some i)
    have "grep_lines pat (drop (i + 1) p) = (selected pat (drop (i + 1) p), snd (lines_of (drop (i + 1) p)))"
      by (rule 1(1)[OF Some]) (rule set_drop_nul[OF 1(2)])
    then show ?thesis using Some lines_newline_at[OF 1(2)] newline_at_char[OF Some]
      by (simp add: grep_lines.simps[of pat p] selected_def)
  qed
qed

lemma lines_of_append:
  "lines_of (p @ q) = (case lines_of p of (ls, r) \<Rightarrow> case lines_of (r @ q) of (ls', r') \<Rightarrow> (ls @ ls', r'))"
  by (induction p) (auto split: prod.splits list.splits)

lemma selected_append: "selected pat (p @ q) = selected pat p @ selected pat (snd (lines_of p) @ q)"
  by (simp add: selected_def lines_of_append[of p q] split: prod.splits)

lemma lines_of_Cons_simps:
  "snd (lines_of (x # xs)) = (if x \<noteq> 10 \<and> fst (lines_of xs) = [] then x # snd (lines_of xs) else snd (lines_of xs))"
  by (simp add: case_prod_beta split: list.split)

lemma lines_rest_set: "set (snd (lines_of p)) \<subseteq> set p"
  by (induction p) (auto simp only: lines_of_Cons_simps lines_of.simps(1) snd_conv split: if_split_asm, auto)

lemma lines_rest_no_newline: "10 \<notin> set (snd (lines_of p))"
proof (induction p)
  case (Cons x p)
  then show ?case by (simp only: lines_of_Cons_simps) (simp split: if_split)
qed simp

lemma lines_no_newline: "10 \<notin> set b \<Longrightarrow> lines_of b = ([], b)"
  by (induction b) auto

text \<open>A line that starts with a piece without newline is as long as the piece.\<close>

lemma lines_first_long:
  "10 \<notin> set b \<Longrightarrow> (case fst (lines_of (b @ q)) of [] \<Rightarrow> True | l # ls \<Rightarrow> length b \<le> length l)"
  by (induction b) (auto split: prod.splits list.splits)

text \<open>All complete lines fit in the buffer with their newline.\<close>

definition short_lines :: "u8 list \<Rightarrow> bool" where
  "short_lines bs \<longleftrightarrow> (\<forall>l\<in>set (fst (lines_of bs)). length l + 1 < GREPBUF)"

lemma selected_none:
  assumes "10 \<notin> set b" "short_lines (b @ q)" "length b + 1 \<ge> GREPBUF \<or> q = []"
  shows "selected pat (b @ q) = []"
proof (cases "q = []")
  case True
  then show ?thesis using lines_no_newline[OF assms(1)] by (simp add: selected_def)
next
  case False
  then show ?thesis using assms lines_first_long[OF assms(1), of q]
    by (cases "fst (lines_of (b @ q))") (auto simp: selected_def short_lines_def)
qed

lemma short_lines_append: "short_lines (p @ q) \<longleftrightarrow> short_lines p \<and> short_lines (snd (lines_of p) @ q)"
  by (auto simp: short_lines_def lines_of_append[of p q] split: prod.splits)

context byte_source
begin

lemma grep_loop_ok:
  assumes "fine e" "0 \<notin> set (b @ rest e)" "10 \<notin> set b" "short_lines (b @ rest e)"
  shows "\<exists>e'. grep_loop rd pat out b e = Some (out @ selected pat (b @ rest e), e')"
  using assms
proof (induction "length (rest e)" arbitrary: e b out rule: less_induct)
  case less
  have buf: "GREPBUF - length b - 1 < 2 ^ 31" by (simp add: GREPBUF_def)
  obtain xs e1 where r: "rd (GREPBUF - length b - 1) e = (Some xs, e1)" "rest e = xs @ rest e1"
      "0 < GREPBUF - length b - 1 \<and> rest e \<noteq> [] \<longrightarrow> xs \<noteq> []" "fine e1"
    using rd_ok[OF less.prems(1) buf] by blast
  note U = grep_loop.simps[of rd pat out b e]
  show ?case
  proof (cases "xs = []")
    case True
    then have "length b + 1 \<ge> GREPBUF \<or> rest e = []" using r(3) by auto
    then have "selected pat (b @ rest e) = []" by (rule selected_none[OF less.prems(3,4)])
    then show ?thesis using U r(1) True by simp
  next
    case False
    let ?b = "snd (lines_of (b @ xs))"
    have p: "0 \<notin> set (b @ xs)" "0 \<notin> set (rest e1)" using less.prems(2) unfolding r(2) by auto
    have lt: "length (rest e1) < length (rest e)" unfolding r(2) using False by simp
    have "0 \<notin> set (?b @ rest e1)" using p lines_rest_set[of "b @ xs"] by auto
    moreover have "short_lines (?b @ rest e1)"
      using less.prems(4) short_lines_append[of "b @ xs" "rest e1"] unfolding r(2) by simp
    ultimately have "\<exists>e'. grep_loop rd pat (out @ selected pat (b @ xs)) ?b e1
        = Some ((out @ selected pat (b @ xs)) @ selected pat (?b @ rest e1), e')"
      by (intro less.hyps[OF lt r(4) _ lines_rest_no_newline])
    moreover have "grep_loop rd pat out b e = grep_loop rd pat (out @ selected pat (b @ xs)) ?b e1"
      using U r(1) False grep_lines_eq[OF p(1), of pat] by simp
    ultimately show ?thesis using selected_append[of pat "b @ xs" "rest e1"] unfolding r(2) by simp
  qed
qed

lemma grep_ok:
  "fine e \<Longrightarrow> 0 \<notin> set (rest e) \<Longrightarrow> short_lines (rest e) \<Longrightarrow>
     \<exists>e'. grep rd pat e = Some (selected pat (rest e), e')"
  using grep_loop_ok[of e "[]" pat "[]"] by (simp add: grep_def)

end

end
