(* ===== verification/User_Files.thy ===== *)
theory User_Files
  imports Grep Fs_File
begin

text \<open>
  The user programs on the files of the kernel: reading an inode piece by piece, as \<open>fileread\<close>
  does, meets the contract \<open>byte_source\<close>, so that what \<open>grep\<close> and \<open>wc\<close> print is a function of the
  contents of the file.
\<close>

text \<open>The branch of \<open>fileread\<close> for an inode: the offset moves by what \<open>readi\<close> returns.\<close>

definition inode_read :: "nat \<Rightarrow> (nat \<times> 'z fs_state_scheme) reader" where
  "inode_read ip k e =
     (case readi_local ip (of_nat (fst e)) (of_nat k) (snd e) of
        Ok (r, bs, s) \<Rightarrow> if r < 0 then (None, fst e, s) else (Some bs, fst e + nat r, s)
      | _ \<Rightarrow> (None, e))"

definition file_size :: "nat \<Rightarrow> 'z fs_state_scheme \<Rightarrow> nat" where
  "file_size ip s = unat (dsize (icopy (inodes s ip)))"

definition file_bytes :: "nat \<Rightarrow> 'z fs_state_scheme \<Rightarrow> u8 list" where
  "file_bytes ip s = map (\<lambda>i. file_byte ip i s) [0..<file_size ip s]"

text \<open>A file without holes, of a size that the inode can hold.\<close>

definition readable :: "nat \<Rightarrow> 'z fs_state_scheme \<Rightarrow> bool" where
  "readable ip s \<longleftrightarrow> file_size ip s \<le> MAXFILE * BSIZE
     \<and> (\<forall>bn < MAXFILE. bn * BSIZE < file_size ip s \<longrightarrow> file_addr ip bn s \<noteq> 0)"

lemma readable_blocks:
  "readable ip s \<Longrightarrow> bn * BSIZE < file_size ip s \<Longrightarrow> file_addr ip bn s \<noteq> 0"
  unfolding readable_def by (metis (no_types) less_le_trans mult_less_cancel2)

lemma inode_read_eq:
  assumes "readable ip s" "off \<le> file_size ip s" "k < 2 ^ 31"
  shows "inode_read ip k (off, s) =
    (Some (map (\<lambda>i. file_byte ip i s) [off..<off + min k (file_size ip s - off)]), off + min k (file_size ip s - off), s)"
proof -
  have sz: "file_size ip s \<le> 274432"
    using assms(1) by (simp add: readable_def MAXFILE_def NDIRECT_def NINDIRECT_def BSIZE_def)
  have u: "unat (of_nat off :: u32) = off" "unat (of_nat k :: u32) = k"
    using assms(2,3) sz by (simp_all add: unat_of_nat take_bit_nat_eq_self)
  have c: "\<not> (off > file_size ip s \<or> off + k \<ge> 2 ^ 32)" using assms(2,3) sz by simp
  have h: "unat (dsize (icopy (inodes s ip))) \<le> MAXFILE * BSIZE"
    "\<And>bn. bn * BSIZE < unat (dsize (icopy (inodes s ip))) \<Longrightarrow> file_addr ip bn s \<noteq> 0"
    using assms(1) readable_blocks[OF assms(1)] by (auto simp: readable_def file_size_def)
  have "readi_local ip (of_nat off) (of_nat k) s = Ok (int (min k (file_size ip s - off)),
      map (\<lambda>i. file_byte ip i s) [off..<off + min k (file_size ip s - off)], s)"
    using readi_local_eq[where off = "of_nat off" and n = "of_nat k", OF h] c
    unfolding Let_def u file_size_def[symmetric] by simp
  then show ?thesis by (simp add: inode_read_def)
qed

definition inode_rest :: "nat \<Rightarrow> nat \<times> 'z fs_state_scheme \<Rightarrow> u8 list" where
  "inode_rest ip e = map (\<lambda>i. file_byte ip i (snd e)) [fst e..<file_size ip (snd e)]"

definition inode_fine :: "nat \<Rightarrow> nat \<times> 'z fs_state_scheme \<Rightarrow> bool" where
  "inode_fine ip e \<longleftrightarrow> readable ip (snd e) \<and> fst e \<le> file_size ip (snd e)"

interpretation inode_src: byte_source "inode_read ip" "inode_rest ip" "inode_fine ip" for ip
proof
  fix e :: "nat \<times> 'z fs_state_scheme" and k :: nat
  assume f: "inode_fine ip e" and k: "k < 2 ^ 31"
  obtain off s where e: "e = (off, s)" by fastforce
  let ?n = "min k (file_size ip s - off)"
  have "[off..<file_size ip s] = [off..<off + ?n] @ [off + ?n..<file_size ip s]"
    using f upt_add_eq_append[of off "off + ?n" "file_size ip s - off - ?n"] by (auto simp: inode_fine_def e min_def)
  then show "\<exists>bs e'. inode_read ip k e = (Some bs, e') \<and> inode_rest ip e = bs @ inode_rest ip e'
      \<and> length bs \<le> k \<and> (0 < k \<and> inode_rest ip e \<noteq> [] \<longrightarrow> bs \<noteq> []) \<and> inode_fine ip e'"
    using inode_read_eq[of ip s off k] f k by (auto simp: inode_fine_def inode_rest_def e)
qed

lemma inode_rest_0: "inode_rest ip (0, s) = file_bytes ip s"
  by (simp add: inode_rest_def file_bytes_def)

text \<open>
  C27. \<open>grep\<close> on a file: whatever the sizes of the pieces in which the kernel returns the file, it
  returns, and writes exactly the lines of the file that the pattern matches, in order, provided
  the file holds no NUL and every line fits in the buffer. A last line without newline is not a line.
\<close>

theorem grep_file:
  assumes "readable ip s" "0 \<notin> set (file_bytes ip s)" "short_lines (file_bytes ip s)"
  shows "\<exists>e'. grep (inode_read ip) pat (0, s)
    = Some (concat (map (\<lambda>l. l @ [10]) (filter (match pat) (fst (lines_of (file_bytes ip s))))), e')"
  using inode_src.grep_ok[of ip "(0, s)" pat] assms
  by (simp add: inode_fine_def inode_rest_0 selected_def)

text \<open>
  \<open>wc\<close> on a file returns and prints the number of its newlines, of the places where a word
  starts and of its bytes.
\<close>

theorem wc_file:
  assumes "readable ip s"
  shows "\<exists>e'. wc (inode_read ip) (0, s) =
    Some (Some (count_list (file_bytes ip s) 10, word_starts (file_bytes ip s), file_size ip s), e')"
  using inode_src.wc_ok[of ip "(0, s)"] assms
  by (simp add: inode_fine_def inode_rest_0) (simp add: file_bytes_def)

section \<open>Witnesses\<close>

text \<open>The file \<open>ab\<close>, newline, \<open>b\<close>, newline in block 47.\<close>

definition demo_text :: fs_state where
  "demo_text = demo_file\<lparr>bview := (bview demo_file)(47 := (\<lambda>i. [97, 98, 10, 98, 10] ! i)),
     inodes := (\<lambda>ip. (inodes demo_file ip)\<lparr>icopy := (icopy (inodes demo_file ip))\<lparr>dsize := 5\<rparr>\<rparr>)\<rparr>"

lemma demo_text_file:
  "readable 0 demo_text" "file_bytes 0 demo_text = [97, 98, 10, 98, 10]" "file_size 0 demo_text = 5"
proof -
  show sz: "file_size 0 demo_text = 5" by (simp add: file_size_def demo_text_def)
  have fa: "file_addr 0 0 demo_text = 47" by (simp add: demo_text_def demo_file_def file_addr_def NDIRECT_def)
  have "file_addr 0 bn demo_text \<noteq> 0" if "bn * BSIZE < 5" for bn
    using fa that by (cases bn) (simp_all add: BSIZE_def)
  then show "readable 0 demo_text" unfolding readable_def sz
    by (simp add: MAXFILE_def NDIRECT_def NINDIRECT_def BSIZE_def)
  have b: "file_byte 0 i demo_text = [97, 98, 10, 98, 10] ! i" if "i < 5" for i
    using fa that by (simp add: file_byte_def BSIZE_def) (simp add: demo_text_def)
  have "[0..<5] = [0, 1, 2, 3, 4]" by (simp add: upt_conv_Cons)
  then show "file_bytes 0 demo_text = [97, 98, 10, 98, 10]"
    unfolding file_bytes_def sz by (simp add: b)
qed

theorem grep_file_witness: "\<exists>e'. grep (inode_read 0) [94, 98] (0, demo_text) = Some ([98, 10], e')"
proof -
  have l: "fst (lines_of [97, 98, 10, 98, 10 :: u8]) = [[97, 98], [98]]" by simp
  have "short_lines (file_bytes 0 demo_text)"
    unfolding short_lines_def demo_text_file(2) l by (simp add: GREPBUF_def)
  moreover have "\<not> match [94, 98] [97, 98]" "match [94, 98] [98]" by (simp_all add: match_def at_or_0_def)
  ultimately show ?thesis
    using grep_file[OF demo_text_file(1), of "[94, 98]"] unfolding demo_text_file(2) l by simp
qed

theorem wc_file_witness: "\<exists>e'. wc (inode_read 0) (0, demo_text) = Some (Some (2, 2, 5), e')"
proof -
  have "word_starts [97, 98, 10, 98, 10] = 2"
    using word_starts_snoc[of "[97, 98, 10, 98]" 10] word_starts_snoc[of "[97, 98, 10]" 98]
      word_starts_snoc[of "[97, 98]" 10] word_starts_snoc[of "[97]" 98] word_starts_snoc[of "[]" 97]
    by (simp add: is_space_def) (simp add: word_starts_def)
  then show ?thesis using wc_file[OF demo_text_file(1)] unfolding demo_text_file(2,3) by (simp add: numeral_2_eq_2[symmetric])
qed

end
