(* ===== verification/Uprintf.thy ===== *)
theory Uprintf
  imports Printk
begin

text \<open>
  The \<open>printf\<close> of user programs, \<open>user/printf.c\<close>, as a function to the bytes written, and
  both number printers: digits fit in the buffer of 20 characters, \<open>atoi\<close> reads a printed number
  back, and the format interpreter of the user library, a machine of two states, prints what
  \<open>printk\<close> of the kernel prints, up to the case of hexadecimal digits.
\<close>

section \<open>user/printf.c\<close>

text \<open>The table \<open>digits\<close>: 0 to 9, A to F.\<close>

definition udigit :: "nat \<Rightarrow> u8" where
  "udigit d = (if d < 10 then of_nat (48 + d) else of_nat (55 + d))"

function udigit_loop :: "nat \<Rightarrow> nat \<Rightarrow> u8 list" where
  "udigit_loop base x =
     udigit (x mod base) # (if base < 2 \<or> x div base = 0 then [] else udigit_loop base (x div base))"
  by pat_completeness auto
termination
  by (relation "measure snd") (auto intro!: div_less_dividend gr0I)

declare udigit_loop.simps [simp del]

definition up_printint_buf :: "u64 \<Rightarrow> nat \<Rightarrow> bool \<Rightarrow> u8 list" where
  "up_printint_buf xx base sg =
     (if sg \<and> sint xx < 0 then udigit_loop base (unat (- xx)) @ [45] else udigit_loop base (unat xx))"

definition up_printint :: "u64 \<Rightarrow> nat \<Rightarrow> bool \<Rightarrow> u8 list" where
  "up_printint xx base sg = rev (up_printint_buf xx base sg)"

fun up_printptr_loop :: "u64 \<Rightarrow> nat \<Rightarrow> u8 list" where
  "up_printptr_loop x 0 = []"
| "up_printptr_loop x (Suc k) = udigit (unat (drop_bit 60 x)) # up_printptr_loop (push_bit 4 x) k"

definition up_printptr :: "u64 \<Rightarrow> u8 list" where
  "up_printptr x = [48, 120] @ up_printptr_loop x 16"

definition up_conversion :: "u8 \<Rightarrow> u8 \<Rightarrow> u8 \<Rightarrow> karg list \<Rightarrow> (u8 list \<times> karg list \<times> nat) option" where
  "up_conversion c0 c1 c2 as =
     (let num = (\<lambda>f k. map_option (\<lambda>(out, as'). (out, as', k)) (take_num f as))
      in if c0 = 100 then num (\<lambda>w. up_printint (int_arg w) 10 True) 0
         else if c0 = 108 \<and> c1 = 100 then num (\<lambda>w. up_printint w 10 True) 1
         else if c0 = 108 \<and> c1 = 108 \<and> c2 = 100 then num (\<lambda>w. up_printint w 10 True) 2
         else if c0 = 117 then num (\<lambda>w. up_printint (uint_arg w) 10 False) 0
         else if c0 = 108 \<and> c1 = 117 then num (\<lambda>w. up_printint w 10 False) 1
         else if c0 = 108 \<and> c1 = 108 \<and> c2 = 117 then num (\<lambda>w. up_printint w 10 False) 2
         else if c0 = 120 then num (\<lambda>w. up_printint (uint_arg w) 16 False) 0
         else if c0 = 108 \<and> c1 = 120 then num (\<lambda>w. up_printint w 16 False) 1
         else if c0 = 108 \<and> c1 = 108 \<and> c2 = 120 then num (\<lambda>w. up_printint w 16 False) 2
         else if c0 = 112 then num up_printptr 0
         else if c0 = 99 then num (\<lambda>w. [ucast w]) 0
         else if c0 = 115 then map_option (\<lambda>(out, as'). (out, as', 0)) (take_str as)
         else if c0 = 37 then Some ([37], as, 0)
         else Some ([37, c0], as, 0))"

text \<open>The loop of \<open>vprintf\<close>: \<open>st\<close> says whether \<open>state\<close> is \<open>'%'\<close>.\<close>

function vprintf_loop :: "bool \<Rightarrow> u8 list \<Rightarrow> karg list \<Rightarrow> u8 list option" where
  "vprintf_loop st [] as = Some []"
| "vprintf_loop False (c0 # cs) as =
     (if c0 = 37 then vprintf_loop True cs as
      else map_option (\<lambda>out. c0 # out) (vprintf_loop False cs as))"
| "vprintf_loop True (c0 # cs) as =
     (case up_conversion c0 (at_or_0 cs 0) (if at_or_0 cs 0 = 0 then 0 else at_or_0 cs 1) as of
        None \<Rightarrow> None
      | Some (out, as', k) \<Rightarrow> map_option (\<lambda>more. out @ more) (vprintf_loop False (drop k cs) as'))"
  by pat_completeness auto
termination
  by (relation "measure (\<lambda>(st, cs, as). length cs)") auto

definition vprintf :: "u8 list \<Rightarrow> karg list \<Rightarrow> u8 list option" where
  "vprintf fmt as = vprintf_loop False fmt as"

section \<open>Numbers\<close>

text \<open>Both loops write the digits from the least significant on.\<close>

lemma digit_loop_length: "2 \<le> base \<Longrightarrow> x < base ^ n \<Longrightarrow> 0 < n \<Longrightarrow> length (digit_loop base x) \<le> n"
proof (induction base x arbitrary: n rule: digit_loop.induct)
  case (1 base x)
  show ?case
  proof (cases "x div base = 0")
    case True
    then show ?thesis using 1(4) by (subst digit_loop.simps) simp
  next
    case False
    obtain m where n: "n = Suc m" using 1(4) by (cases n) auto
    have "x div base < base ^ m" using 1(2,3) n by (simp add: less_mult_imp_div_less mult.commute)
    moreover have "0 < m" using False 1(3) n calculation by (cases m) auto
    ultimately have "length (digit_loop base (x div base)) \<le> m"
      using 1(1)[of m] 1(2) False by simp
    then show ?thesis using False 1(2) n by (subst digit_loop.simps) simp
  qed
qed

definition digits_value :: "u8 list \<Rightarrow> nat" where
  "digits_value ds = foldr (\<lambda>d v. (unat d - 48) + 10 * v) ds 0"

lemma digit_decimal: "d < 10 \<Longrightarrow> unat (digit d) = 48 + d"
  by (simp add: digit_def unat_of_nat take_bit_nat_eq_self del: of_nat_add)

lemma digit_loop_decimal:
  "digits_value (digit_loop 10 x) = x \<and> (\<forall>d\<in>set (digit_loop 10 x). 48 \<le> d \<and> d \<le> 57)"
proof (induction "10::nat" x rule: digit_loop.induct)
  case (1 x)
  have d: "unat (digit (x mod 10)) = 48 + x mod 10" by (simp add: digit_decimal)
  then have r: "48 \<le> digit (x mod 10)" "digit (x mod 10) \<le> 57"
    by (simp_all add: word_le_nat_alt)
  note U = digit_loop.simps[of 10 x]
  show ?case
  proof (cases "x div 10 = 0")
    case True
    then show ?thesis using d r U by (simp add: digits_value_def mod_eq_self_iff_div_eq_0)
  next
    case False
    then have "digits_value (digit_loop 10 (x div 10)) = x div 10"
      "\<forall>d\<in>set (digit_loop 10 (x div 10)). 48 \<le> d \<and> d \<le> 57" using 1 by auto
    then show ?thesis using False d r U by (simp add: digits_value_def)
  qed
qed

lemma foldl_digits: "foldl (\<lambda>v d. v * 10 + (unat d - 48)) 0 (rev ds) = digits_value ds"
  by (simp add: digits_value_def foldl_conv_foldr mult.commute add.commute)

lemma atoi_from_digits:
  assumes "\<forall>d\<in>set bs. 48 \<le> d \<and> d \<le> (57 :: u8)" "i \<le> length bs"
  shows "atoi_from (cbytes bs) i (of_nat v) = Some (of_nat (foldl (\<lambda>v d. v * 10 + (unat d - 48)) v (drop i bs)))"
  using assms(2)
proof (induction "length bs - i" arbitrary: i v)
  case 0
  then have "i = length bs" by simp
  then show ?case by (simp add: atoi_from.simps[of _ "length bs"] cbytes_def)
next
  case (Suc k)
  then have i: "i < length bs" by linarith
  let ?d = "bs ! i"
  have d: "48 \<le> ?d" "?d \<le> 57" using assms(1) nth_mem[OF i] by blast+
  then have u: "48 \<le> unat ?d" by (simp add: word_le_nat_alt)
  have "(of_nat v * 10 + ucast ?d - 48 :: 32 word) = of_nat (v * 10 + (unat ?d - 48))"
    using u by (simp add: of_nat_diff)
  note a = this
  have "cbytes bs i = ?d" using i by (simp add: cbytes_def)
  then have "atoi_from (cbytes bs) i (of_nat v) = atoi_from (cbytes bs) (Suc i) (of_nat v * 10 + ucast ?d - 48)"
    using d by (simp add: atoi_from.simps[of "cbytes bs" i "of_nat v"])
  also have "\<dots> = atoi_from (cbytes bs) (Suc i) (of_nat (v * 10 + (unat ?d - 48)))" by (simp only: a)
  also have "\<dots> = Some (of_nat (foldl (\<lambda>v d. v * 10 + (unat d - 48)) (v * 10 + (unat ?d - 48)) (drop (Suc i) bs)))"
    by (rule Suc.hyps(1)) (use Suc.hyps(2) i in auto)
  finally show ?case using Cons_nth_drop_Suc[OF i, symmetric] by simp
qed

text \<open>
  Reading back a printed number: \<open>atoi\<close> of what \<open>printint\<close> prints in base 10 for an \<open>int\<close>
  that is not negative is that \<open>int\<close>, whether it is printed as signed or not.
\<close>

theorem atoi_printint:
  assumes "uint x < 2 ^ 31"
  shows "atoi (cbytes (printint x 10 sign)) = Some (uint x)"
proof -
  have "sint x = uint x"
    using assms signed_take_bit_int_eq_self[of 63 "uint x"] order_trans[of "- (2 ^ 63)" 0 "uint x"] by (simp add: sint_uint)
  then have p: "printint x 10 sign = rev (digit_loop 10 (unat x))" by (simp add: printint_def printint_buf_def)
  have v: "digits_value (digit_loop 10 (unat x)) = unat x" "\<forall>d\<in>set (rev (digit_loop 10 (unat x))). 48 \<le> d \<and> d \<le> 57"
    using digit_loop_decimal[of "unat x"] by auto
  have "atoi_from (cbytes (printint x 10 sign)) 0 0 = Some (of_nat (unat x))"
    using atoi_from_digits[OF v(2), of 0 0] unfolding p by (simp add: foldl_digits v(1))
  moreover have "sint (of_nat (unat x) :: 32 word) = uint x"
  proof -
    have "int (unat x) < int (2 ^ 31)" using assms unfolding uint_nat by simp
    then have "unat x < 2 ^ 31" by (simp only: of_nat_less_iff)
    then show ?thesis by (rule trans[OF sint_of_nat32 uint_nat[symmetric]])
  qed
  ultimately show ?thesis by (simp only: atoi_def option.map)
qed

theorem atoi_printint_witness: "atoi (cbytes (printint 2026 10 True)) = Some 2026"
  using atoi_printint[of 2026 True] by simp

section \<open>The buffer\<close>

text \<open>
  \<open>printint\<close> never writes past its buffer of 20 characters, in either base, with or without a
  sign, for any 64-bit value.
\<close>

theorem printint_fits: 
  assumes "base = 10 \<or> base = 16"
  shows "length (printint_buf x base sign) \<le> 20"
proof (cases "sign \<and> sint x < 0")
  case True
  have "unat (- x) \<le> 2 ^ 63"
  proof -
    have "- x = word_of_int (- sint x)" by simp
    moreover have "- (2 ^ 63) \<le> sint x" using sint_ge[of x] by simp
    moreover have "uint (word_of_int (- sint x) :: u64) = - sint x"
      using True calculation(2) uint_word_of_int[of "- sint x", where ?'a = 64]
        mod_pos_pos_trivial[of "- sint x" "2 ^ 64"] by auto
    ultimately show ?thesis by (metis nat_le_iff nat_uint_eq minus_le_iff of_nat_numeral of_nat_power)
  qed
  then have "length (digit_loop base (unat (- x))) \<le> 19"
    using assms by (intro digit_loop_length) auto
  then show ?thesis using True by (simp add: printint_buf_def)
next
  case False
  have "length (digit_loop base (unat x)) \<le> 20"
    using assms unat_lt_2_64[of x] by (intro digit_loop_length) auto
  then show ?thesis using False by (auto simp: printint_buf_def)
qed

theorem printint_fits_witness: "length (printint_buf (- 1) 10 True) \<le> 20"
  using printint_fits[of 10 "- 1" True] by simp

section \<open>The two format interpreters\<close>

text \<open>The same character up to the case of a hexadecimal digit.\<close>

definition same_digit :: "u8 \<Rightarrow> u8 \<Rightarrow> bool" where
  "same_digit a b \<longleftrightarrow> a = b \<or> (65 \<le> a \<and> a \<le> 70 \<and> b = a + 32)"

abbreviation same_text :: "u8 list \<Rightarrow> u8 list \<Rightarrow> bool" where
  "same_text \<equiv> list_all2 same_digit"

lemma same_digit_refl [simp]: "same_digit a a"
  by (simp add: same_digit_def)

lemma same_text_refl [simp]: "same_text xs xs"
  by (simp add: list_all2_refl)

lemma same_digit_table: "d < 16 \<Longrightarrow> same_digit (udigit d) (digit d)"
proof -
  assume "d < 16"
  then have "d \<in> set [0..<16]" by simp
  moreover have "\<forall>d\<in>set [0..<16]. same_digit (udigit d) (digit d)" by code_simp
  ultimately show ?thesis by blast
qed

lemma same_digit_loop:
  "0 < base \<Longrightarrow> base \<le> 16 \<Longrightarrow> same_text (udigit_loop base x) (digit_loop base x)"
proof (induction base x rule: digit_loop.induct)
  case (1 base x)
  have d: "same_digit (udigit (x mod base)) (digit (x mod base))"
    using 1(2,3) mod_less_divisor[of base x] by (intro same_digit_table) linarith
  show ?case
    using 1 d by (auto simp: digit_loop.simps[of base x] udigit_loop.simps[of base x])
qed

lemma same_printint: "0 < base \<Longrightarrow> base \<le> 16 \<Longrightarrow> same_text (up_printint x base s) (printint x base s)"
  by (auto simp: up_printint_def up_printint_buf_def printint_def printint_buf_def Let_def list_all2_rev
      intro!: list_all2_appendI same_digit_loop)

lemma same_printptr_loop: "same_text (up_printptr_loop x k) (printptr_loop x k)"
proof (induction k arbitrary: x)
  case (Suc k)
  have "unat (drop_bit 60 x) < 16"
  proof -
    have "drop_bit 60 (unat x) < 16" using unat_lt_2_64[of x] by (simp add: drop_bit_eq_div less_mult_imp_div_less)
    then show ?thesis by (simp only: unat_drop_bit_eq)
  qed
  then show ?case using Suc by (simp add: same_digit_table)
qed simp

lemma same_printptr: "same_text (up_printptr x) (printptr x)"
  by (simp add: up_printptr_def printptr_def same_printptr_loop)

definition plain_chars :: "karg list \<Rightarrow> bool" where
  "plain_chars as \<longleftrightarrow> (\<forall>w. Num w \<in> set as \<longrightarrow> (ucast w :: u32) \<noteq> BACKSPACE)"

text \<open>Two outcomes of a conversion: the same text, the same arguments left and the same length.\<close>

abbreviation same_conv :: "(u8 list \<times> karg list \<times> nat) option \<Rightarrow> (u8 list \<times> karg list \<times> nat) option \<Rightarrow> bool" where
  "same_conv \<equiv> rel_option (rel_prod same_text (=))"

lemma same_num:
  "(\<And>w. Num w \<in> set as \<Longrightarrow> same_text (f w) (g w)) \<Longrightarrow>
    same_conv (map_option (\<lambda>(out, as'). (out, as', k)) (take_num f as))
      (map_option (\<lambda>(out, as'). (out, as', k)) (take_num g as))"
  by (cases "(f, as)" rule: take_num.cases) auto

lemma same_conv_refl [simp]: "same_conv r r"
  by (cases r) auto

lemma ucast_u32_u8: "(ucast (ucast (w :: u64) :: u32) :: u8) = ucast w"
  by (rule bit_word_eqI) (simp add: bit_simps)

lemma same_char: "plain_chars as \<Longrightarrow> Num w \<in> set as \<Longrightarrow> same_text [ucast w] (consputc_bytes (ucast w))"
  by (auto simp: plain_chars_def consputc_bytes_def ucast_u32_u8)

lemmas same_texts = same_num same_printint same_printptr same_char

lemma same_conversion: "plain_chars as \<Longrightarrow> same_conv (up_conversion c0 c1 c2 as) (conversion c0 c1 c2 as)"
  unfolding up_conversion_def conversion_def Let_def
  by (intro if_cong[THEN arg_cong] | simp add: same_texts)+

lemma take_num_args: "take_num f as = Some (out, as') \<Longrightarrow> set as' \<subseteq> set as"
  by (cases "(f, as)" rule: take_num.cases) auto

lemma take_str_args: "take_str as = Some (out, as') \<Longrightarrow> set as' \<subseteq> set as"
  by (cases as rule: take_str.cases) auto

lemma conversion_args: "conversion c0 c1 c2 as = Some (out, as', k) \<Longrightarrow> set as' \<subseteq> set as"
  by (auto simp: conversion_def Let_def dest: take_num_args take_str_args split: if_splits)

text \<open>
  C38. The \<open>vprintf\<close> of user programs and the \<open>printk\<close> of the kernel agree: on the same format and
  arguments both print the same characters, up to the case of hexadecimal digits, or both run out
  of arguments, when no argument is the code by which the console erases a character.
\<close>

theorem vprintf_printk:
  assumes "plain_chars as"
  shows "rel_option same_text (vprintf fmt as) (printk_bytes fmt as)"
  unfolding vprintf_def printk_bytes_def
  using assms
proof (induction fmt as rule: format_loop.induct)
  case (2 c0 cs as)
  show ?case
  proof (cases "c0 = 37")
    case False
    then show ?thesis using 2 by (auto simp: option.rel_map elim!: option.rel_mono_strong)
  next
    case True
    show ?thesis
    proof (cases cs)
      case Nil
      then show ?thesis using True by simp
    next
      case (Cons d rest)
      let ?c1 = "at_or_0 rest 0" and ?c2 = "if at_or_0 rest 0 = 0 then 0 else at_or_0 rest 1"
      have c: "same_conv (up_conversion d ?c1 ?c2 as) (conversion d ?c1 ?c2 as)"
        using 2(3) by (rule same_conversion)
      show ?thesis
      proof (cases "conversion d ?c1 ?c2 as")
        case None
        then show ?thesis using c True Cons by simp
      next
        case (Some r)
        obtain out as' k where r: "r = (out, as', k)" by (cases r)
        with c Some obtain out' where u: "up_conversion d ?c1 ?c2 as = Some (out', as', k)" "same_text out' out"
          by (auto simp: option_rel_Some2)
        have "plain_chars as'" using 2(3) conversion_args[OF Some[unfolded r]] by (auto simp: plain_chars_def)
        then have "rel_option same_text (vprintf_loop False (drop k rest) as') (format_loop (drop k rest) as')"
          using 2(2) True Cons Some r by auto
        then show ?thesis using True Cons Some r u
          by (auto simp: option.rel_map elim!: option.rel_mono_strong intro: list_all2_appendI)
      qed
    qed
  qed
qed simp

theorem vprintf_printk_witness:
  "rel_option same_text (vprintf [120, 61, 37, 120] [Num 0xAB]) (printk_bytes [120, 61, 37, 120] [Num 0xAB])
   \<and> printk_bytes [120, 61, 37, 120] [Num 0xAB] = Some [120, 61, 97, 98]"
proof -
  have "plain_chars [Num 0xAB]" by (simp add: plain_chars_def BACKSPACE_def)
  moreover have "printk_bytes [120, 61, 37, 120] [Num 0xAB] = Some [120, 61, 97, 98]" by code_simp
  ultimately show ?thesis using vprintf_printk[of "[Num 0xAB]" "[120, 61, 37, 120]"] by blast
qed

end
