(* ===== verification/Umalloc.thy ===== *)
theory Umalloc
  imports Prelude
begin

text \<open>
  The memory allocator of user programs, \<open>user/umalloc.c\<close>: a circular list of free blocks in
  address order, with a block of size 0, \<open>base\<close>, that is never handed out. The header of a block
  is seen through two functions from header addresses to its fields; sizes count headers of
  16 bytes. \<open>sbrk\<close> is a parameter, with the state of the rest of the system in \<open>uenv\<close>.
\<close>

section \<open>user/umalloc.c\<close>

record 'e um_state =
  hptr :: "u64 \<Rightarrow> u64"
  hsize :: "u64 \<Rightarrow> u32"
  ufreep :: u64
  uenv :: 'e

definition SBRK_ERROR :: u64 where "SBRK_ERROR = - 1"

text \<open>Pointer arithmetic on headers: \<open>p + n\<close>.\<close>

definition hplus :: "u64 \<Rightarrow> u32 \<Rightarrow> u64" where
  "hplus p n = p + 16 * ucast n"

text \<open>The search for the place in \<open>free\<close>.\<close>

partial_function (option) free_find :: "u64 \<Rightarrow> u64 \<Rightarrow> 'e um_state \<Rightarrow> u64 option" where
  "free_find bp p s =
     (if bp > p \<and> bp < hptr s p then Some p
      else if p \<ge> hptr s p \<and> (bp > p \<or> bp < hptr s p) then Some p
      else free_find bp (hptr s p) s)"

definition free_at :: "u64 \<Rightarrow> u64 \<Rightarrow> 'e um_state \<Rightarrow> 'e um_state" where
  "free_at bp p s =
     (let q = hptr s p;
          s1 = (if hplus bp (hsize s bp) = q
                then s\<lparr>hsize := (hsize s)(bp := hsize s bp + hsize s q), hptr := (hptr s)(bp := hptr s q)\<rparr>
                else s\<lparr>hptr := (hptr s)(bp := q)\<rparr>);
          s2 = (if hplus p (hsize s1 p) = bp
                then s1\<lparr>hsize := (hsize s1)(p := hsize s1 p + hsize s1 bp), hptr := (hptr s1)(p := hptr s1 bp)\<rparr>
                else s1\<lparr>hptr := (hptr s1)(p := bp)\<rparr>)
      in s2\<lparr>ufreep := p\<rparr>)"

definition ufree :: "u64 \<Rightarrow> 'e um_state \<Rightarrow> 'e um_state option" where
  "ufree ap s = map_option (\<lambda>p. free_at (ap - 16) p s) (free_find (ap - 16) (ufreep s) s)"

text \<open>\<open>morecore\<close>: the argument of \<open>sbrk\<close> is an \<open>int\<close>.\<close>

definition morecore :: "(int \<Rightarrow> 'e \<Rightarrow> u64 \<times> 'e) \<Rightarrow> u32 \<Rightarrow> 'e um_state \<Rightarrow> (u64 \<times> 'e um_state) option" where
  "morecore sbrk nu s =
     (let nu' = (if nu < 4096 then 4096 else nu)
      in case sbrk (sint (ucast (ucast nu' * 16 :: u64) :: u32)) (uenv s) of (p, e) \<Rightarrow>
           let s1 = s\<lparr>uenv := e\<rparr>
           in if p = SBRK_ERROR then Some (0, s1)
              else map_option (\<lambda>s2. (ufreep s2, s2)) (ufree (p + 16) (s1\<lparr>hsize := (hsize s1)(p := nu')\<rparr>)))"

partial_function (option) malloc_loop ::
    "(int \<Rightarrow> 'e \<Rightarrow> u64 \<times> 'e) \<Rightarrow> u32 \<Rightarrow> u64 \<Rightarrow> u64 \<Rightarrow> 'e um_state \<Rightarrow> (u64 \<times> 'e um_state) option" where
  "malloc_loop sbrk nunits p prevp s =
     (if hsize s p \<ge> nunits
      then if hsize s p = nunits
           then Some (p + 16, s\<lparr>hptr := (hptr s)(prevp := hptr s p), ufreep := prevp\<rparr>)
           else let rest = hsize s p - nunits;
                    q = hplus p rest
                in Some (q + 16, s\<lparr>hsize := (hsize s)(p := rest, q := nunits), ufreep := prevp\<rparr>)
      else if p = ufreep s
           then (case morecore sbrk nunits s of
                   None \<Rightarrow> None
                 | Some r \<Rightarrow> if fst r = 0 then Some (0, snd r)
                     else malloc_loop sbrk nunits (hptr (snd r) (fst r)) (fst r) (snd r))
           else malloc_loop sbrk nunits (hptr s p) p s)"

definition nunits_of :: "u32 \<Rightarrow> u32" where
  "nunits_of nbytes = ucast ((ucast nbytes + 16 - 1 :: u64) div 16 + 1)"

text \<open>\<open>base\<close> is the address of the static header.\<close>

definition malloc :: "(int \<Rightarrow> 'e \<Rightarrow> u64 \<times> 'e) \<Rightarrow> u64 \<Rightarrow> u32 \<Rightarrow> 'e um_state \<Rightarrow> (u64 \<times> 'e um_state) option" where
  "malloc sbrk base nbytes s =
     (let s1 = (if ufreep s = 0
                then s\<lparr>hptr := (hptr s)(base := base), ufreep := base, hsize := (hsize s)(base := 0)\<rparr> else s)
      in malloc_loop sbrk (nunits_of nbytes) (hptr s1 (ufreep s1)) (ufreep s1) s1)"

section \<open>The circular list\<close>

text \<open>\<open>trail f x ys y\<close>: following \<open>f\<close> from \<open>x\<close> visits \<open>ys\<close> and then arrives at \<open>y\<close>.\<close>

fun trail :: "('a \<Rightarrow> 'a) \<Rightarrow> 'a \<Rightarrow> 'a list \<Rightarrow> 'a \<Rightarrow> bool" where
  "trail f x [] y \<longleftrightarrow> f x = y"
| "trail f x (a # ys) y \<longleftrightarrow> f x = a \<and> trail f a ys y"

lemma trail_append: "trail f x (ys @ a # zs) y \<longleftrightarrow> trail f x ys a \<and> trail f a zs y"
  by (induction ys arbitrary: x) auto

lemma trail_upd: "z \<notin> set (x # ys) \<Longrightarrow> trail (f(z := v)) x ys y \<longleftrightarrow> trail f x ys y"
  by (induction ys arbitrary: x) auto

lemma trail_cong: "(\<And>z. z \<in> set (x # ys) \<Longrightarrow> g z = f z) \<Longrightarrow> trail g x ys y \<longleftrightarrow> trail f x ys y"
  by (induction ys arbitrary: x) auto

lemma trail_next: "trail f x (ys @ a # zs) y \<Longrightarrow> f a = hd (zs @ [y])"
  by (cases zs) (auto simp: trail_append)

lemma trail_rotate:
  assumes "trail f b ys b" "x \<in> set (b # ys)" "distinct (b # ys)"
  shows "\<exists>ps. trail f x ps x \<and> set (x # ps) = set (b # ys) \<and> distinct (x # ps)"
proof (cases "x = b")
  case False
  then obtain us vs where ys: "ys = us @ x # vs" using assms(2) split_list[of x ys] by auto
  then have "trail f x (vs @ b # us) x" using assms(1) by (simp add: trail_append)
  then show ?thesis using ys assms(3) by (intro exI[of _ "vs @ b # us"]) auto
qed (use assms in auto)

definition blk_end :: "'e um_state \<Rightarrow> u64 \<Rightarrow> nat" where
  "blk_end s x = unat x + 16 * unat (hsize s x)"

definition free_set :: "u64 list \<Rightarrow> 'e um_state \<Rightarrow> nat set" where
  "free_set ys s = (\<Union>y\<in>set ys. {unat y..<blk_end s y})"

abbreviation before :: "'e um_state \<Rightarrow> u64 \<Rightarrow> u64 \<Rightarrow> bool" where
  "before s x y \<equiv> blk_end s x < unat y"

text \<open>The free blocks \<open>ys\<close> are linked in address order after \<open>base\<close>, and no two touch.\<close>

definition heap_ok :: "u64 \<Rightarrow> u64 list \<Rightarrow> 'e um_state \<Rightarrow> bool" where
  "heap_ok base ys s \<longleftrightarrow> trail (hptr s) base ys base \<and> ufreep s \<in> set (base # ys)
     \<and> sorted_wrt (before s) (base # ys) \<and> hsize s base = 0 \<and> base \<noteq> 0
     \<and> (\<forall>y\<in>set ys. 0 < hsize s y \<and> blk_end s y < 2 ^ 36)"

lemma unat_ucast_u32: "unat (ucast (n :: u32) :: u64) = unat n"
proof -
  have "unat n < 2 ^ 64" by (rule order_less_trans[OF unsigned_less]) simp
  then show ?thesis by (simp add: unsigned_ucast_eq take_bit_word_eq_self take_bit_nat_eq_self)
qed

lemma unat_hplus:
  assumes "unat x + 16 * unat n < 2 ^ 64"
  shows "unat (hplus x n) = unat x + 16 * unat n"
proof -
  have "unat (16 * ucast n :: u64) = 16 * unat n" using assms by (simp add: unat_word_ariths unat_ucast_u32)
  then show ?thesis using assms by (simp add: hplus_def unat_word_ariths)
qed

lemma hplus_eq_iff: "blk_end s x < 2 ^ 64 \<Longrightarrow> hplus x (hsize s x) = y \<longleftrightarrow> blk_end s x = unat y"
  using unat_hplus[of x "hsize s x"] by (auto simp: blk_end_def word_unat_eq_iff)

lemma sorted_distinct:
  "sorted_wrt (before s) xs \<Longrightarrow> distinct xs"
  by (induction xs) (auto simp: blk_end_def)

lemma sorted_less: "sorted_wrt (before s) (x # xs) \<Longrightarrow> y \<in> set xs \<Longrightarrow> x < y"
  by (auto simp: blk_end_def word_less_nat_alt)

section \<open>free\<close>

definition place :: "u64 \<Rightarrow> u64 \<Rightarrow> 'e um_state \<Rightarrow> bool" where
  "place bp p s \<longleftrightarrow> (bp > p \<and> bp < hptr s p) \<or> (p \<ge> hptr s p \<and> (bp > p \<or> bp < hptr s p))"

lemma free_find_trail:
  "trail (hptr s) x ps y \<Longrightarrow> \<exists>z\<in>set (x # ps). place bp z s \<Longrightarrow>
     \<exists>z\<in>set (x # ps). free_find bp x s = Some z \<and> place bp z s"
proof (induction ps arbitrary: x)
  case Nil
  then show ?case by (auto simp: free_find.simps[of bp x s] place_def)
next
  case (Cons a ps)
  show ?case
  proof (cases "place bp x s")
    case True
    then show ?thesis by (auto simp: free_find.simps[of bp x s] place_def)
  next
    case False
    then have "\<exists>z\<in>set (a # ps). place bp z s" using Cons.prems(2) by auto
    with Cons obtain z where "z \<in> set (a # ps)" "free_find bp a s = Some z" "place bp z s" by auto
    moreover have "free_find bp x s = free_find bp a s"
      using False Cons.prems(1) by (auto simp: free_find.simps[of bp x s] place_def)
    ultimately show ?thesis by auto
  qed
qed

lemma last_below:
  "x < bp \<Longrightarrow> (bp :: u64) \<notin> set (x # xs) \<Longrightarrow> \<exists>us z vs. x # xs = us @ z # vs \<and> z < bp \<and> (vs = [] \<or> bp < hd vs)"
proof (induction xs arbitrary: x)
  case Nil
  then show ?case by (intro exI[of _ "[]"]) auto
next
  case (Cons a xs)
  show ?case
  proof (cases "a < bp")
    case True
    then obtain us z vs where "a # xs = us @ z # vs" "z < bp" "vs = [] \<or> bp < hd vs"
      using Cons.IH[of a] Cons.prems(2) by auto
    then show ?thesis by (intro exI[of _ "x # us"] exI[of _ z] exI[of _ vs]) auto
  next
    case False
    then have "bp < a" using Cons.prems(2) by (auto simp: not_less order_le_less)
    then show ?thesis using Cons.prems(1) by (intro exI[of _ "[]"] exI[of _ x] exI[of _ "a # xs"]) auto
  qed
qed

lemma free_find_place:
  assumes h: "heap_ok base ys s" and bp: "base < bp" "bp \<notin> set ys"
  shows "\<exists>us z vs. free_find bp (ufreep s) s = Some z \<and> base # ys = us @ z # vs \<and> z < bp \<and> (\<forall>v\<in>set vs. bp < v)
    \<and> hptr s z = hd (vs @ [base])"
proof -
  have c: "trail (hptr s) base ys base" and srt: "sorted_wrt (before s) (base # ys)" and f: "ufreep s \<in> set (base # ys)"
    using h by (auto simp: heap_ok_def)
  have nx: "hptr s z = hd (vs @ [base])" if "base # ys = us @ z # vs" for us z vs
    using that c by (cases us; cases vs) (auto simp: trail_append)
  have "bp \<notin> set (base # ys)" using bp by auto
  from last_below[OF bp(1) this] obtain us z vs
    where z: "base # ys = us @ z # vs" "z < bp" "vs = [] \<or> bp < hd vs" by blast
  have "z \<in> set (base # ys)" using z(1) by simp
  moreover have "place bp z s"
  proof (cases vs)
    case Nil
    then have "hptr s z = base" using nx[OF z(1)] by simp
    moreover have "base \<le> z" using z(1) srt sorted_less[of s base ys z] by (cases us) auto
    ultimately show ?thesis using z(2) by (simp add: place_def)
  next
    case (Cons v vs')
    then show ?thesis using nx[OF z(1)] z(2,3) by (simp add: place_def)
  qed
  moreover obtain ps where ps: "trail (hptr s) (ufreep s) ps (ufreep s)" "set (ufreep s # ps) = set (base # ys)"
    using trail_rotate[OF c f sorted_distinct[OF srt]] by blast
  ultimately obtain p where p: "p \<in> set (base # ys)" "free_find bp (ufreep s) s = Some p" "place bp p s"
    using free_find_trail[OF ps(1), of bp] by blast
  obtain us' vs' where l: "base # ys = us' @ p # vs'" using split_list[OF p(1)] by blast
  have srt': "sorted_wrt (before s) (p # vs')" using srt unfolding l by (simp add: sorted_wrt_append)
  have "p < bp \<and> (\<forall>v\<in>set vs'. bp < v)"
  proof (cases vs')
    case Nil
    then show ?thesis using p(3) nx[OF l] bp(1) by (auto simp: place_def)
  next
    case (Cons v ws)
    then have hp: "hptr s p = v" and "p < v" using nx[OF l] sorted_less[OF srt'] by auto
    then have b: "p < bp" "bp < v" using p(3) by (auto simp: place_def)
    have "v < w" if "w \<in> set ws" for w using srt' that Cons by (intro sorted_less[of s v ws]) auto
    then show ?thesis using b Cons by (auto intro: less_trans)
  qed
  then show ?thesis using p(2) l nx[OF l] by blast
qed

text \<open>First half of \<open>free_at\<close>: the block is linked to its successors, or joined with the first.\<close>

definition join_right :: "u64 \<Rightarrow> u64 \<Rightarrow> 'e um_state \<Rightarrow> 'e um_state" where
  "join_right bp q s =
     (if hplus bp (hsize s bp) = q
      then s\<lparr>hsize := (hsize s)(bp := hsize s bp + hsize s q), hptr := (hptr s)(bp := hptr s q)\<rparr>
      else s\<lparr>hptr := (hptr s)(bp := q)\<rparr>)"

definition join_left :: "u64 \<Rightarrow> u64 \<Rightarrow> 'e um_state \<Rightarrow> 'e um_state" where
  "join_left bp p s =
     (if hplus p (hsize s p) = bp
      then s\<lparr>hsize := (hsize s)(p := hsize s p + hsize s bp), hptr := (hptr s)(p := hptr s bp)\<rparr>
      else s\<lparr>hptr := (hptr s)(p := bp)\<rparr>)"

lemma free_at_joins: "free_at bp p s = (join_left bp p (join_right bp (hptr s p) s))\<lparr>ufreep := p\<rparr>"
  by (simp add: free_at_def join_left_def join_right_def Let_def)

lemma unat_size_add:
  "unat x + 16 * (unat (m :: u32) + unat n) < 2 ^ 36 \<Longrightarrow> unat (m + n) = unat m + unat n"
  by (simp add: unat_word_ariths)

lemma blk_end_cong: "hsize s' x = hsize s x \<Longrightarrow> blk_end s' x = blk_end s x"
  by (simp add: blk_end_def)

lemma free_set_cong: "(\<And>y. y \<in> set ys \<Longrightarrow> hsize s' y = hsize s y) \<Longrightarrow> free_set ys s' = free_set ys s"
  by (auto simp: free_set_def blk_end_def)

lemma free_set_simps [simp]:
  "free_set [] s = {}"
  "free_set (y # ys) s = {unat y..<blk_end s y} \<union> free_set ys s"
  "free_set (xs @ ys) s = free_set xs s \<union> free_set ys s"
  by (auto simp: free_set_def)

lemma before_cong: "(\<And>x. x \<in> set xs \<Longrightarrow> hsize s' x = hsize s x) \<Longrightarrow>
    sorted_wrt (before s') xs \<longleftrightarrow> sorted_wrt (before s) xs"
  by (induction xs) (auto simp: blk_end_def)

lemma join_right_ok:
  assumes c: "trail (hptr s) z vs base" and srt: "sorted_wrt (before s) (z # vs)"
    and szs: "\<forall>v\<in>set vs. 0 < hsize s v \<and> blk_end s v < 2 ^ 36"
    and bp: "base < bp" "z < bp" "\<forall>v\<in>set vs. blk_end s bp \<le> unat v" "0 < hsize s bp" "blk_end s bp < 2 ^ 36"
  shows "\<exists>vs1. let s1 = join_right bp (hptr s z) s in trail (hptr s1) bp vs1 base \<and> sorted_wrt (before s1) (bp # vs1)
     \<and> set vs1 \<subseteq> set vs \<and> (\<forall>x. x \<noteq> bp \<longrightarrow> hptr s1 x = hptr s x \<and> hsize s1 x = hsize s x)
     \<and> {unat bp..<blk_end s1 bp} \<union> free_set vs1 s1 = {unat bp..<blk_end s bp} \<union> free_set vs s
     \<and> 0 < hsize s1 bp \<and> blk_end s bp \<le> blk_end s1 bp \<and> blk_end s1 bp < 2 ^ 36 \<and> uenv s1 = uenv s"
proof (cases vs)
  case Nil
  then have "hptr s z = base" using c by simp
  moreover have "blk_end s bp \<noteq> unat base" using bp(1) by (auto simp: blk_end_def word_less_nat_alt)
  ultimately have "join_right bp (hptr s z) s = s\<lparr>hptr := (hptr s)(bp := base)\<rparr>"
    using hplus_eq_iff[of s bp base] bp(5) by (simp add: join_right_def)
  then show ?thesis using bp(4,5) Nil by (intro exI[of _ "[]"]) (simp add: Let_def blk_end_def)
next
  case (Cons v vs')
  have q: "hptr s z = v" and cv: "trail (hptr s) v vs' base" using c Cons by auto
  have nv: "bp \<notin> set (v # vs')" using bp(3,4) Cons by (auto simp: blk_end_def word_less_nat_alt)
  have e: "hplus bp (hsize s bp) = v \<longleftrightarrow> blk_end s bp = unat v" using hplus_eq_iff[of s bp v] bp(5) by simp
  have srt': "sorted_wrt (before s) (v # vs')" using srt Cons by simp
  show ?thesis
  proof (cases "blk_end s bp = unat v")
    case True
    let ?s = "s\<lparr>hsize := (hsize s)(bp := hsize s bp + hsize s v), hptr := (hptr s)(bp := hptr s v)\<rparr>"
    have j: "join_right bp (hptr s z) s = ?s" using True e q by (simp add: join_right_def)
    have "blk_end s v < 2 ^ 36" using szs Cons by simp
    moreover from this have "unat (hsize s bp + hsize s v) = unat (hsize s bp) + unat (hsize s v)"
      using True by (intro unat_size_add[of bp]) (simp add: blk_end_def)
    ultimately have be: "blk_end ?s bp = blk_end s v" "0 < hsize ?s bp" "blk_end ?s bp < 2 ^ 36"
        "blk_end s bp \<le> blk_end ?s bp"
      using True bp(4) by (simp_all add: blk_end_def word_less_nat_alt)
    have ch: "trail (hptr ?s) bp vs' base"
      using cv nv by (cases vs') (auto simp: trail_upd)
    have "sorted_wrt (before ?s) vs' \<longleftrightarrow> sorted_wrt (before s) vs'" by (rule before_cong) (use nv in auto)
    then have so: "sorted_wrt (before ?s) (bp # vs')" using srt' be(1) by simp
    have "{unat bp..<blk_end ?s bp} = {unat bp..<blk_end s bp} \<union> {unat v..<blk_end s v}"
      using be(1) True by (auto simp: blk_end_def)
    moreover have "free_set vs' ?s = free_set vs' s" by (rule free_set_cong) (use nv in auto)
    ultimately have fs: "{unat bp..<blk_end ?s bp} \<union> free_set vs' ?s = {unat bp..<blk_end s bp} \<union> free_set vs s"
      using Cons by (simp add: Un_assoc)
    show ?thesis unfolding Let_def j using ch so fs be Cons by (intro exI[of _ vs']) auto
  next
    case False
    let ?s = "s\<lparr>hptr := (hptr s)(bp := v)\<rparr>"
    have j: "join_right bp (hptr s z) s = ?s" using False e q by (simp add: join_right_def)
    have ch: "trail (hptr ?s) bp (v # vs') base" using cv nv by (simp add: trail_upd)
    have "sorted_wrt (before ?s) (v # vs')" using srt' before_cong[of "v # vs'" ?s s] by simp
    moreover have "blk_end s bp < unat x" if "x \<in> set (v # vs')" for x
      using that bp(3) False srt' Cons by (fastforce simp: blk_end_def)
    ultimately have so: "sorted_wrt (before ?s) (bp # v # vs')" by (simp add: blk_end_def)
    show ?thesis unfolding Let_def j using ch so bp(4,5) Cons
      by (intro exI[of _ "v # vs'"]) (auto simp: blk_end_def free_set_def)
  qed
qed

text \<open>What a heap looks like after a block has been given to it.\<close>

definition gained :: "u64 \<Rightarrow> u64 list \<Rightarrow> 'e um_state \<Rightarrow> u64 \<Rightarrow> u64 list \<Rightarrow> 'e um_state \<Rightarrow> bool" where
  "gained base ys s bp ys' s' \<longleftrightarrow> heap_ok base ys' s'
     \<and> free_set ys' s' = free_set ys s \<union> {unat bp..<blk_end s bp}
     \<and> (\<exists>y\<in>set ys'. unat y \<le> unat bp \<and> blk_end s bp \<le> blk_end s' y)
     \<and> (\<forall>x. x \<notin> set ys \<longrightarrow> x \<noteq> bp \<longrightarrow> hsize s' x = hsize s x) \<and> uenv s' = uenv s"

lemma sorted_appD: "sorted_wrt R (xs @ ys) \<Longrightarrow> x \<in> set xs \<Longrightarrow> y \<in> set ys \<Longrightarrow> R x y"
  by (auto simp: sorted_wrt_append)

lemma join_left_ok:
  assumes left: "us = [] \<and> z = base \<or> (\<exists>us'. us = base # us' \<and> trail (hptr s) base us' z)"
    and right: "trail (hptr s) bp vs base"
    and srt: "sorted_wrt (before s) (us @ [z])" "sorted_wrt (before s) (bp # vs)"
    and sep: "\<forall>u\<in>set us. \<forall>x\<in>set (bp # vs). before s u x" "blk_end s z \<le> unat bp" "z < bp" "base < bp"
    and szs: "\<forall>x\<in>set (tl (us @ [z]) @ bp # vs). 0 < hsize s x \<and> blk_end s x < 2 ^ 36" "hsize s base = 0" "base \<noteq> 0"
  shows "\<exists>ys'. let s' = (join_left bp z s)\<lparr>ufreep := z\<rparr> in heap_ok base ys' s'
    \<and> free_set ys' s' = free_set (tl (us @ [z])) s \<union> {unat bp..<blk_end s bp} \<union> free_set vs s
    \<and> (\<exists>y\<in>set ys'. unat y \<le> unat bp \<and> blk_end s bp \<le> blk_end s' y)
    \<and> (\<forall>x. x \<noteq> z \<or> z = base \<longrightarrow> hsize s' x = hsize s x) \<and> uenv s' = uenv s"
proof -
  have dz: "z \<notin> set us" "bp \<notin> set us" "bp \<noteq> z"
    using sorted_distinct[OF srt(1)] sep by (auto simp: blk_end_def word_less_nat_alt)
  have bpv: "unat bp < unat v" if "v \<in> set vs" for v
    using srt(2) that by (auto simp: blk_end_def)
  have zv: "z \<notin> set vs" using bpv sep(3) by (fastforce simp: word_less_nat_alt)
  have bpsz: "0 < hsize s bp" "blk_end s bp < 2 ^ 36" using szs(1) by auto
  have srtl: "sorted_wrt (before s) us" "\<And>u. u \<in> set us \<Longrightarrow> before s u z" using srt(1) by (auto simp: sorted_wrt_append)
  have zsz: "blk_end s z < 2 ^ 64" using sep(2) unat_lt_2_64[of bp] by linarith
  note e = hplus_eq_iff[OF zsz, of bp]
  show ?thesis
  proof (cases "blk_end s z = unat bp")
    case False
    let ?s = "s\<lparr>hptr := (hptr s)(z := bp), ufreep := z\<rparr>"
    have j: "(join_left bp z s)\<lparr>ufreep := z\<rparr> = ?s" using False e by (simp add: join_left_def)
    define ys' where "ys' = tl (us @ [z]) @ bp # vs"
    have all: "base # ys' = us @ z # bp # vs" using left by (auto simp: ys'_def)
    have "trail (hptr ?s) base ys' base"
      using left right dz zv by (auto simp: ys'_def trail_append trail_upd fun_upd_other)
    moreover have "sorted_wrt (before ?s) (base # ys')"
      unfolding all using srt sep False srtl bpv by (fastforce simp: sorted_wrt_append blk_end_def)
    moreover have "z \<in> set (base # ys')" unfolding all by simp
    moreover have "\<forall>y\<in>set ys'. 0 < hsize ?s y \<and> blk_end ?s y < 2 ^ 36" using szs(1) by (simp add: ys'_def blk_end_def)
    ultimately have "heap_ok base ys' ?s" using szs(2,3) by (simp add: heap_ok_def)
    moreover have "free_set ys' ?s = free_set ys' s" by (rule free_set_cong) simp
    ultimately show ?thesis unfolding Let_def j by (intro exI[of _ ys']) (auto simp: ys'_def blk_end_def)
  next
    case True
    have zb: "z \<noteq> base" using True szs(2) sep(4) by (auto simp: blk_end_def word_less_nat_alt)
    then obtain us' where us: "us = base # us'" "trail (hptr s) base us' z" using left by blast
    let ?s = "s\<lparr>hsize := (hsize s)(z := hsize s z + hsize s bp), hptr := (hptr s)(z := hptr s bp), ufreep := z\<rparr>"
    have j: "(join_left bp z s)\<lparr>ufreep := z\<rparr> = ?s" using True e by (simp add: join_left_def)
    have "unat (hsize s z + hsize s bp) = unat (hsize s z) + unat (hsize s bp)"
      using bpsz(2) True by (intro unat_size_add[of z]) (simp add: blk_end_def)
    then have be: "blk_end ?s z = blk_end s bp" "0 < hsize ?s z"
      using True bpsz(1) by (simp_all add: blk_end_def word_less_nat_alt)
    have bo: "blk_end ?s x = blk_end s x" if "x \<noteq> z" for x using that by (simp add: blk_end_def)
    let ?ys = "us' @ z # vs"
    have "trail (hptr ?s) z vs base" using right zv by (cases vs) (auto simp: trail_upd)
    then have "trail (hptr ?s) base ?ys base" using us dz(1) by (simp add: trail_append trail_upd)
    moreover have "sorted_wrt (before ?s) (base # ?ys)"
    proof -
      have "sorted_wrt (before ?s) us" "sorted_wrt (before ?s) vs"
        by (subst before_cong[of _ ?s s], use srtl(1) srt(2) dz(1) zv in auto)+
      moreover have "before ?s u x" if "u \<in> set us" "x \<in> set (z # vs)" for u x
        using that srtl(2) sep(1) dz(1) by (auto simp: blk_end_def)
      moreover have "before ?s z x" if "x \<in> set vs" for x using srt(2) that be(1) by simp
      ultimately have "sorted_wrt (before ?s) (us @ z # vs)" by (simp add: sorted_wrt_append)
      then show ?thesis using us(1) by simp
    qed
    moreover have "\<forall>y\<in>set ?ys. 0 < hsize ?s y \<and> blk_end ?s y < 2 ^ 36"
      using szs(1) be bpsz bo us(1) by (auto simp: blk_end_def)
    ultimately have "heap_ok base ?ys ?s" using szs(2,3) zb by (simp add: heap_ok_def)
    moreover have "free_set us' ?s = free_set us' s" by (rule free_set_cong) (use dz(1) us(1) in auto)
    moreover have "free_set vs ?s = free_set vs s" by (rule free_set_cong) (use zv in auto)
    ultimately have "heap_ok base ?ys ?s" "free_set ?ys ?s = free_set us' s \<union> {unat z..<blk_end s bp} \<union> free_set vs s"
      using be(1) by (simp_all add: Un_assoc)
    moreover have "{unat z..<blk_end s bp} = {unat z..<blk_end s z} \<union> {unat bp..<blk_end s bp}"
      using True by (auto simp: blk_end_def)
    ultimately show ?thesis unfolding Let_def j using us(1) be(1) sep(3) zb
      by (intro exI[of _ ?ys]) (auto simp: Un_assoc word_less_nat_alt)
  qed
qed

lemma free_at_ok:
  assumes h: "heap_ok base ys s" and l: "base # ys = us @ z # vs"
    and bp: "base < bp" "0 < hsize s bp" "blk_end s bp < 2 ^ 36"
    and zbp: "blk_end s z \<le> unat bp" "z < bp" and vs: "\<forall>v\<in>set vs. blk_end s bp \<le> unat v"
  shows "\<exists>ys'. gained base ys s bp ys' (free_at bp z s)"
proof -
  have c0: "trail (hptr s) base ys base" and srt: "sorted_wrt (before s) (us @ z # vs)" and b0: "hsize s base = 0" "base \<noteq> 0"
    and szs: "\<forall>y\<in>set ys. 0 < hsize s y \<and> blk_end s y < 2 ^ 36"
    using h l by (auto simp: heap_ok_def)
  have c: "trail (hptr s) z vs base" and us: "us \<noteq> [] \<Longrightarrow> us = base # tl us \<and> trail (hptr s) base (tl us) z"
    and zb: "us = [] \<Longrightarrow> z = base"
    using c0 l by (cases us; auto simp: trail_append)+
  have vss: "\<forall>v\<in>set vs. 0 < hsize s v \<and> blk_end s v < 2 ^ 36" using szs l by (cases us) auto
  have ysl: "ys = tl (us @ [z]) @ vs" using l by (cases us) auto
  have srtz: "sorted_wrt (before s) (z # vs)" using srt by (simp add: sorted_wrt_append)
  define s1 where "s1 = join_right bp (hptr s z) s"
  obtain vs1 where s1: "trail (hptr s1) bp vs1 base" "sorted_wrt (before s1) (bp # vs1)" "set vs1 \<subseteq> set vs"
      "\<And>x. x \<noteq> bp \<Longrightarrow> hptr s1 x = hptr s x \<and> hsize s1 x = hsize s x"
      "{unat bp..<blk_end s1 bp} \<union> free_set vs1 s1 = {unat bp..<blk_end s bp} \<union> free_set vs s"
      "0 < hsize s1 bp" "blk_end s bp \<le> blk_end s1 bp" "blk_end s1 bp < 2 ^ 36" "uenv s1 = uenv s"
    using join_right_ok[OF c srtz vss bp(1) zbp(2) vs bp(2,3)] unfolding s1_def Let_def by blast
  have ltz: "u < z" if "u \<in> set us" for u
    using sorted_appD[OF srt that, of z] by (simp add: blk_end_def word_less_nat_alt)
  have dj: "bp \<notin> set (us @ z # vs)" "z \<notin> set us" "z \<notin> set (bp # vs1)"
  proof -
    have "v \<noteq> bp" if "v \<in> set vs" for v
      using vs bp(2) that by (auto simp: blk_end_def word_less_nat_alt)
    moreover have "u \<noteq> bp" if "u \<in> set us" for u using ltz[OF that] zbp(2) by auto
    ultimately show "bp \<notin> set (us @ z # vs)" using zbp(2) by auto
    show "z \<notin> set us" using ltz by auto
    show "z \<notin> set (bp # vs1)" using zbp(2) s1(3) sorted_distinct[OF srtz] by auto
  qed
  have pre: "blk_end s u < unat x" if "u \<in> set us" "x = z \<or> x = bp \<or> x \<in> set vs1" for u x
    using sorted_appD[OF srt that(1), of x] sorted_appD[OF srt that(1), of z] that(2) s1(3) zbp(2)
    by (auto simp: word_less_nat_alt)
  have same: "hsize s1 x = hsize s x" "hptr s1 x = hptr s x" "blk_end s1 x = blk_end s x" if "x \<in> set (us @ z # vs)" for x
  proof -
    have "x \<noteq> bp" using dj(1) that by metis
    then show "hsize s1 x = hsize s x" "hptr s1 x = hptr s x" "blk_end s1 x = blk_end s x" using s1(4)[of x] by (auto simp: blk_end_def)
  qed
  have sub: "set (tl (us @ [z])) \<subseteq> set (us @ z # vs)" by (cases us) auto
  have free1: "free_set (tl (us @ [z])) s1 = free_set (tl (us @ [z])) s"
    by (rule free_set_cong) (use same(1) sub in blast)
  have left: "us = [] \<and> z = base \<or> (\<exists>us'. us = base # us' \<and> trail (hptr s1) base us' z)"
  proof (cases us)
    case (Cons a us')
    then have "trail (hptr s) base us' z" "a = base" using us by auto
    moreover have "trail (hptr s1) base us' z \<longleftrightarrow> trail (hptr s) base us' z"
      by (rule trail_cong) (use same(2) Cons \<open>a = base\<close> in auto)
    ultimately show ?thesis using Cons by auto
  qed (use zb in auto)
  have srt1: "sorted_wrt (before s1) (us @ [z])"
    using srt before_cong[of "us @ [z]" s1 s] same(1) by (auto simp: sorted_wrt_append)
  have sep: "\<forall>u\<in>set us. \<forall>x\<in>set (bp # vs1). before s1 u x" using pre same(3) by auto
  have sz1: "\<forall>x\<in>set (tl (us @ [z]) @ bp # vs1). 0 < hsize s1 x \<and> blk_end s1 x < 2 ^ 36"
    using szs same s1(3,6,8) sub ysl by (auto simp del: tl_append2)
  have base1: "hsize s1 base = 0" using b0 s1(4)[of base] bp(1) by auto
  have zz: "blk_end s1 z \<le> unat bp" using same(3)[of z] zbp(1) by simp
  obtain ys' where ys': "heap_ok base ys' (free_at bp z s)"
    "free_set ys' (free_at bp z s) = free_set (tl (us @ [z])) s1 \<union> {unat bp..<blk_end s1 bp} \<union> free_set vs1 s1"
    "\<exists>y\<in>set ys'. unat y \<le> unat bp \<and> blk_end s1 bp \<le> blk_end (free_at bp z s) y"
    "\<forall>x. x \<noteq> z \<or> z = base \<longrightarrow> hsize (free_at bp z s) x = hsize s1 x" "uenv (free_at bp z s) = uenv s1"
    using join_left_ok[OF left s1(1) srt1 s1(2) sep zz zbp(2) bp(1) sz1 base1 b0(2)]
    unfolding Let_def s1_def free_at_joins by blast
  have "z = base \<or> z \<in> set ys" using l by (cases us) auto
  then have "\<forall>x. x \<notin> set ys \<longrightarrow> x \<noteq> bp \<longrightarrow> hsize (free_at bp z s) x = hsize s x"
    using ys'(4) s1(4) by metis
  moreover have "free_set ys' (free_at bp z s) = free_set ys s \<union> {unat bp..<blk_end s bp}"
    unfolding ys'(2) free1 Un_assoc s1(5) ysl by auto
  moreover have "\<exists>y\<in>set ys'. unat y \<le> unat bp \<and> blk_end s bp \<le> blk_end (free_at bp z s) y"
    using ys'(3) s1(7) order_trans by blast
  ultimately show ?thesis using ys'(1,5) s1(9) unfolding gained_def by auto
qed

text \<open>\<open>free\<close> of a block that lies outside the free blocks.\<close>

definition fresh_block :: "u64 \<Rightarrow> u64 list \<Rightarrow> 'e um_state \<Rightarrow> u64 \<Rightarrow> bool" where
  "fresh_block base ys s bp \<longleftrightarrow> base < bp \<and> 0 < hsize s bp \<and> blk_end s bp < 2 ^ 36
     \<and> {unat bp..<blk_end s bp} \<inter> free_set ys s = {}"

lemma blocks_apart:
  assumes "fresh_block base ys s bp" "y \<in> set ys" "0 < hsize s y"
  shows "bp \<noteq> y" "y < bp \<Longrightarrow> blk_end s y \<le> unat bp" "bp < y \<Longrightarrow> blk_end s bp \<le> unat y"
proof -
  have "{unat y..<blk_end s y} \<subseteq> free_set ys s" using assms(2) by (auto simp: free_set_def)
  then have d: "{unat bp..<blk_end s bp} \<inter> {unat y..<blk_end s y} = {}" "unat bp < blk_end s bp" "unat y < blk_end s y"
    using assms(1,3) unfolding fresh_block_def by (blast, auto simp: fresh_block_def blk_end_def word_less_nat_alt)
  show "bp \<noteq> y" using d by auto
  show "blk_end s y \<le> unat bp" if "y < bp"
  proof (rule ccontr)
    assume "\<not> blk_end s y \<le> unat bp"
    then have "unat bp \<in> {unat bp..<blk_end s bp} \<inter> {unat y..<blk_end s y}" using d that by (simp add: word_less_nat_alt)
    then show False using d(1) by blast
  qed
  show "blk_end s bp \<le> unat y" if "bp < y"
  proof (rule ccontr)
    assume "\<not> blk_end s bp \<le> unat y"
    then have "unat y \<in> {unat bp..<blk_end s bp} \<inter> {unat y..<blk_end s y}" using d that by (simp add: word_less_nat_alt)
    then show False using d(1) by blast
  qed
qed

lemma ufree_ok:
  assumes h: "heap_ok base ys s" and fb: "fresh_block base ys s bp"
  shows "\<exists>s' ys'. ufree (bp + 16) s = Some s' \<and> gained base ys s bp ys' s'"
proof -
  have szs: "\<And>y. y \<in> set ys \<Longrightarrow> 0 < hsize s y" and b0: "hsize s base = 0" using h by (auto simp: heap_ok_def)
  have bp: "base < bp" "0 < hsize s bp" "blk_end s bp < 2 ^ 36" using fb by (auto simp: fresh_block_def)
  have "bp \<notin> set ys" using blocks_apart(1)[OF fb] szs by blast
  from free_find_place[OF h bp(1) this] obtain us z vs where z: "free_find bp (ufreep s) s = Some z"
    "base # ys = us @ z # vs" "z < bp" "\<forall>v\<in>set vs. bp < v" by blast
  have "z \<in> set (base # ys)" using z(2) by simp
  then have ze: "blk_end s z \<le> unat bp"
    using blocks_apart(2)[OF fb] szs z(3) b0 by (auto simp: blk_end_def word_less_nat_alt)
  have "set vs \<subseteq> set ys" using z(2) by (cases us) auto
  then have ve: "\<forall>v\<in>set vs. blk_end s bp \<le> unat v" using blocks_apart(3)[OF fb] szs z(4) by blast
  show ?thesis using free_at_ok[OF h z(2) bp ze z(3) ve] z(1) by (auto simp: ufree_def)
qed

section \<open>malloc\<close>

lemma trail_map: "trail f x ys y \<longleftrightarrow> map f (x # ys) = ys @ [y]"
  by (induction ys arbitrary: x) auto

lemma trail_inj: "trail f b ys b \<Longrightarrow> distinct (b # ys) \<Longrightarrow> inj_on f (set (b # ys))"
proof -
  assume c: "trail f b ys b" and d: "distinct (b # ys)"
  have "distinct (map f (b # ys))" using c d unfolding trail_map by simp
  then show ?thesis by (rule distinct_map[THEN iffD1, THEN conjunct2])
qed

lemma trail_end: "trail f x ys y \<Longrightarrow> f (last (x # ys)) = y"
  by (induction ys arbitrary: x) auto

lemma trail_last: "trail f x (as @ a # bs) y \<Longrightarrow> f (last (x # as)) = a"
  by (induction as arbitrary: x) auto

text \<open>The code that takes \<open>n\<close> units from the block \<open>p\<close>, whose predecessor is \<open>prevp\<close>.\<close>

definition take_block :: "u32 \<Rightarrow> u64 \<Rightarrow> u64 \<Rightarrow> 'e um_state \<Rightarrow> u64 \<times> 'e um_state" where
  "take_block n p prevp s =
     (if hsize s p = n then (p + 16, s\<lparr>hptr := (hptr s)(prevp := hptr s p), ufreep := prevp\<rparr>)
      else let rest = hsize s p - n; q = hplus p rest
           in (q + 16, s\<lparr>hsize := (hsize s)(p := rest, q := n), ufreep := prevp\<rparr>))"

definition block :: "u64 \<Rightarrow> u32 \<Rightarrow> nat set" where
  "block r n = {unat (r - 16)..<unat (r - 16) + 16 * unat n}"

definition lost :: "u64 \<Rightarrow> u64 list \<Rightarrow> 'e um_state \<Rightarrow> u32 \<Rightarrow> u64 \<Rightarrow> u64 list \<Rightarrow> 'e um_state \<Rightarrow> bool" where
  "lost base ys s n r ys' s' \<longleftrightarrow> heap_ok base ys' s' \<and> base < r - 16 \<and> block r n \<subseteq> free_set ys s
     \<and> free_set ys' s' = free_set ys s - block r n \<and> hsize s' (r - 16) = n
     \<and> (\<forall>x. x \<notin> set ys \<longrightarrow> x \<noteq> r - 16 \<longrightarrow> hsize s' x = hsize s x) \<and> uenv s' = uenv s"

lemma take_block_ok:
  assumes h: "heap_ok base ys s" and x: "x \<in> set ys" and pv: "prev \<in> set (base # ys)" "hptr s prev = x"
    and n: "0 < n" "n \<le> hsize s x"
  shows "\<exists>ys'. lost base ys s n (fst (take_block n x prev s)) ys' (snd (take_block n x prev s))"
proof -
  have c: "trail (hptr s) base ys base" and srt: "sorted_wrt (before s) (base # ys)" and b0: "hsize s base = 0" "base \<noteq> 0"
    and szs: "\<And>y. y \<in> set ys \<Longrightarrow> 0 < hsize s y \<and> blk_end s y < 2 ^ 36"
    using h by (auto simp: heap_ok_def)
  note dst = sorted_distinct[OF srt]
  obtain us vs where l: "ys = us @ x # vs" using split_list[OF x] by blast
  have prev: "prev = last (base # us)"
  proof -
    have "hptr s (last (base # us)) = x" using c l trail_last by fast
    moreover have "last (base # us) \<in> set (base # ys)" using l by auto
    ultimately show ?thesis using trail_inj[OF c dst] pv unfolding inj_on_def by metis
  qed
  have bx: "base < x" using sorted_less[OF srt x] .
  have xe: "blk_end s x < 2 ^ 36" "unat x < blk_end s x" using szs[OF x] by (auto simp: blk_end_def word_less_nat_alt)
  have ub: "before s u x" if "u \<in> set (base # us)" for u using srt l that by (auto simp: sorted_wrt_append)
  have vb: "before s x v" if "v \<in> set vs" for v using srt l that by (auto simp: sorted_wrt_append)
  have rest: "free_set us s \<inter> {unat x..<blk_end s x} = {}" "free_set vs s \<inter> {unat x..<blk_end s x} = {}"
    using ub vb by (fastforce simp: free_set_def)+
  show ?thesis
  proof (cases "hsize s x = n")
    case True
    let ?s = "s\<lparr>hptr := (hptr s)(prev := hptr s x), ufreep := prev\<rparr>"
    have t: "take_block n x prev s = (x + 16, ?s)" using True by (simp add: take_block_def)
    have dp: "prev \<notin> set (x # vs)" using prev dst l by (cases us rule: rev_cases) auto
    have "trail (hptr ?s) base (us @ vs) base"
    proof -
      have c1: "trail (hptr s) base us x" "trail (hptr s) x vs base" using c l by (auto simp: trail_append)
      have c2: "trail (hptr ?s) prev vs base" using c1(2) dp by (cases vs) (auto simp: trail_upd)
      show ?thesis
      proof (cases us rule: rev_cases)
        case Nil
        then show ?thesis using c2 prev by simp
      next
        case (snoc us' u)
        then have "prev = u" "u \<notin> set (base # us')" using prev dst l by auto
        then show ?thesis using c1(1) c2 snoc by (simp add: trail_append trail_upd)
      qed
    qed
    moreover have "sorted_wrt (before ?s) (base # us @ vs)"
      using srt l before_cong[of "base # us @ vs" ?s s] by (auto simp: sorted_wrt_append)
    moreover have "prev \<in> set (base # us @ vs)" using prev by auto
    moreover have "\<forall>y\<in>set (us @ vs). 0 < hsize ?s y \<and> blk_end ?s y < 2 ^ 36" using szs l by (auto simp: blk_end_def)
    ultimately have hp: "heap_ok base (us @ vs) ?s" using b0 by (simp add: heap_ok_def)
    have "block (x + 16) n = {unat x..<blk_end s x}" using True by (simp add: block_def blk_end_def)
    moreover have "free_set (us @ vs) ?s = free_set (us @ vs) s" by (rule free_set_cong) simp
    ultimately show ?thesis unfolding t using hp rest bx True l by (intro exI[of _ "us @ vs"]) (auto simp: lost_def)
  next
    case False
    let ?r = "hsize s x - n"
    let ?q = "hplus x ?r"
    let ?s = "s\<lparr>hsize := (hsize s)(x := ?r, ?q := n), ufreep := prev\<rparr>"
    have t: "take_block n x prev s = (?q + 16, ?s)" using False by (simp add: take_block_def Let_def)
    have nr: "unat ?r = unat (hsize s x) - unat n" using n(2) by (intro unat_sub)
    have nn: "0 < unat n" "unat n < unat (hsize s x)" using n False by (auto simp: word_le_nat_alt word_less_nat_alt order_le_less word_unat_eq_iff)
    have q: "unat ?q = blk_end s x - 16 * unat n" "unat x < unat ?q" "unat ?q + 16 * unat n = blk_end s x"
    proof -
      have "unat ?q = unat x + 16 * unat ?r" using xe nr by (intro unat_hplus) (auto simp: blk_end_def)
      then show "unat ?q = blk_end s x - 16 * unat n" "unat x < unat ?q" "unat ?q + 16 * unat n = blk_end s x"
        using nr nn by (auto simp: blk_end_def algebra_simps diff_mult_distrib2)
    qed
    have qn: "?q \<notin> set (base # ys)"
    proof
      assume "?q \<in> set (base # ys)"
      then consider "?q \<in> set (base # us)" | "?q = x" | "?q \<in> set vs" using l by auto
      then show False
        by cases (use ub[of ?q] vb[of ?q] q nn in \<open>auto simp: blk_end_def\<close>)
    qed
    have bq: "blk_end ?s x = unat ?q" "blk_end ?s ?q = blk_end s x"
      "\<And>y. y \<in> set (base # us @ vs) \<Longrightarrow> blk_end ?s y = blk_end s y"
    proof -
      have "?q \<noteq> x" using qn l by auto
      then show "blk_end ?s x = unat ?q" "blk_end ?s ?q = blk_end s x" using q nr nn by (auto simp: blk_end_def)
      show "blk_end ?s y = blk_end s y" if "y \<in> set (base # us @ vs)" for y
        using that qn dst l by (auto simp: blk_end_def)
    qed
    have "sorted_wrt (before ?s) (base # ys)"
    proof -
      have "sorted_wrt (before ?s) (base # us)" "sorted_wrt (before ?s) vs"
        by (subst before_cong[of _ ?s s], use srt l qn dst in \<open>auto simp: sorted_wrt_append\<close>)+
      moreover have "before ?s u y" if "u \<in> set (base # us)" "y \<in> set (x # vs)" for u y
        using srt l that bq(3)[of u] by (auto simp: sorted_wrt_append)
      moreover have "before ?s x v" if "v \<in> set vs" for v
        using vb[OF that] bq(1) q(3) by linarith
      ultimately have "sorted_wrt (before ?s) ((base # us) @ x # vs)" unfolding sorted_wrt_append by auto
      then show ?thesis using l by simp
    qed
    moreover have "trail (hptr ?s) base ys base" using c by simp
    moreover have "prev \<in> set (base # ys)" using pv by simp
    moreover have "0 < hsize ?s y \<and> blk_end ?s y < 2 ^ 36" if "y \<in> set ys" for y
    proof (cases "y = x")
      case True
      then show ?thesis using bq(1) q(3) xe(1) nr nn qn l by (auto simp: word_less_nat_alt)
    next
      case False
      then show ?thesis using szs[OF that] bq(3)[of y] that l qn by auto
    qed
    ultimately have hp: "heap_ok base ys ?s" using b0 qn bx by (auto simp: heap_ok_def)
    have bl: "block (?q + 16) n = {unat ?q..<blk_end s x}" using q(3) by (simp add: block_def)
    have "free_set us ?s = free_set us s" by (rule free_set_cong) (use qn dst l in auto)
    moreover have "free_set vs ?s = free_set vs s" by (rule free_set_cong) (use qn dst l in auto)
    moreover have "{unat x..<unat ?q} = {unat x..<blk_end s x} - {unat ?q..<blk_end s x}" using q by auto
    moreover have "{unat ?q..<blk_end s x} \<subseteq> {unat x..<blk_end s x}" using q by auto
    ultimately have "free_set ys ?s = free_set ys s - block (?q + 16) n" "block (?q + 16) n \<subseteq> free_set ys s"
      unfolding bl l free_set_simps bq(1) using rest by blast+
    moreover have "base < ?q" using bx q(2) by (simp add: word_less_nat_alt)
    moreover have "\<forall>z. z \<notin> set ys \<longrightarrow> z \<noteq> ?q \<longrightarrow> hsize ?s z = hsize s z" using x by auto
    ultimately show ?thesis unfolding t using hp qn by (intro exI[of _ ys]) (simp add: lost_def)
  qed
qed

text \<open>The scan of the list, from the successor of \<open>prev\<close> to \<open>ufreep\<close>.\<close>

lemma malloc_scan_fit:
  "trail (hptr s) prev ps y \<Longrightarrow> ps @ [y] = as @ x # bs \<Longrightarrow> \<forall>a\<in>set as. hsize s a < n \<and> a \<noteq> ufreep s
    \<Longrightarrow> n \<le> hsize s x \<Longrightarrow>
     malloc_loop sbrk n (hd (ps @ [y])) prev s = Some (take_block n x (last (prev # as)) s)"
proof (induction as arbitrary: prev ps)
  case Nil
  have "hd (ps @ [y]) = x" using Nil.prems(2) by simp
  then show ?case using Nil.prems(4) by (simp add: malloc_loop.simps[of sbrk n x prev s] take_block_def Let_def)
next
  case (Cons a as)
  then obtain ps' where ps: "ps = a # ps'" by (cases ps) auto
  have a: "hsize s a < n" "a \<noteq> ufreep s" using Cons.prems(3) by auto
  have "hptr s a = hd (ps' @ [y])" using Cons.prems(1) ps by (cases ps') auto
  then have "malloc_loop sbrk n (hd (ps @ [y])) prev s = malloc_loop sbrk n (hd (ps' @ [y])) a s"
    using a ps by (simp add: malloc_loop.simps[of sbrk n a prev s] not_le[symmetric])
  also have "\<dots> = Some (take_block n x (last (a # as)) s)"
    by (rule Cons.IH) (use Cons.prems ps in auto)
  finally show ?case by simp
qed

lemma malloc_scan_none:
  "trail (hptr s) prev ps (ufreep s) \<Longrightarrow> ufreep s \<notin> set ps \<Longrightarrow> \<forall>a\<in>set (ps @ [ufreep s]). hsize s a < n \<Longrightarrow>
     malloc_loop sbrk n (hd (ps @ [ufreep s])) prev s =
       (case morecore sbrk n s of None \<Rightarrow> None
        | Some r \<Rightarrow> if fst r = 0 then Some (0, snd r)
            else malloc_loop sbrk n (hptr (snd r) (fst r)) (fst r) (snd r))"
proof (induction ps arbitrary: prev)
  case Nil
  then show ?case by (simp add: malloc_loop.simps[of sbrk n "ufreep s" prev s] not_le[symmetric])
next
  case (Cons a ps)
  have "hptr s a = hd (ps @ [ufreep s])" using Cons.prems(1) by (cases ps) auto
  then have "malloc_loop sbrk n a prev s = malloc_loop sbrk n (hd (ps @ [ufreep s])) a s"
    using Cons.prems(2,3) by (auto simp: malloc_loop.simps[of sbrk n a prev s] not_le[symmetric])
  then show ?case using Cons by simp
qed

lemma heap_cycle:
  assumes "heap_ok base ys s"
  obtains ps where "trail (hptr s) (ufreep s) ps (ufreep s)" "set (ufreep s # ps) = set (base # ys)"
    "ufreep s \<notin> set ps" "hptr s (ufreep s) = hd (ps @ [ufreep s])"
proof -
  have c: "trail (hptr s) base ys base" "ufreep s \<in> set (base # ys)" "distinct (base # ys)"
    using assms sorted_distinct[of s "base # ys"] by (auto simp: heap_ok_def)
  from trail_rotate[OF this] obtain ps where ps: "trail (hptr s) (ufreep s) ps (ufreep s)"
    "set (ufreep s # ps) = set (base # ys)" "distinct (ufreep s # ps)" by blast
  moreover have "hptr s (ufreep s) = hd (ps @ [ufreep s])" using ps(1) by (cases ps) auto
  ultimately show thesis using that by auto
qed

text \<open>With a block that is large enough, the first one found is taken.\<close>

lemma malloc_loop_fit:
  assumes h: "heap_ok base ys s" and n: "0 < n" and fit: "y \<in> set ys" "n \<le> hsize s y"
  shows "\<exists>r s' ys'. malloc_loop sbrk n (hptr s (ufreep s)) (ufreep s) s = Some (r, s') \<and> lost base ys s n r ys' s'"
proof -
  obtain ps where ps: "trail (hptr s) (ufreep s) ps (ufreep s)" "set (ufreep s # ps) = set (base # ys)"
    "ufreep s \<notin> set ps" "hptr s (ufreep s) = hd (ps @ [ufreep s])" by (rule heap_cycle[OF h])
  have "y \<in> set (ps @ [ufreep s])" using fit(1) ps(2) by auto
  then have "\<exists>y\<in>set (ps @ [ufreep s]). n \<le> hsize s y" using fit(2) by blast
  from split_list_first_prop[OF this] obtain as x bs
    where l: "ps @ [ufreep s] = as @ x # bs" and x: "n \<le> hsize s x" and as: "\<forall>a\<in>set as. \<not> n \<le> hsize s a" by blast
  have f: "set as \<subseteq> set ps \<and> x \<in> set (ufreep s # ps) \<and> hptr s (last (ufreep s # as)) = x"
  proof (cases bs rule: rev_cases)
    case Nil
    then show ?thesis using l trail_end[OF ps(1)] by auto
  next
    case (snoc bs' b)
    then have "ps = as @ x # bs'" using l by simp
    then show ?thesis using trail_last[of "hptr s" "ufreep s" as x bs' "ufreep s"] ps(1) by auto
  qed
  have "hsize s base = 0" using h by (simp add: heap_ok_def)
  then have "x \<noteq> base" using x n by auto
  then have xy: "x \<in> set ys" using f ps(2) by auto
  have "\<forall>a\<in>set as. hsize s a < n \<and> a \<noteq> ufreep s" using as f ps(3) by auto
  from malloc_scan_fit[OF ps(1) l this x] have
    "malloc_loop sbrk n (hptr s (ufreep s)) (ufreep s) s = Some (take_block n x (last (ufreep s # as)) s)" unfolding ps(4) .
  moreover have "last (ufreep s # as) \<in> set (base # ys)"
  proof -
    have "last (ufreep s # as) \<in> set (ufreep s # as)" by (rule last_in_set) simp
    then have "last (ufreep s # as) \<in> set (ufreep s # ps)" using f by (auto simp del: last.simps)
    then show ?thesis unfolding ps(2) .
  qed
  ultimately show ?thesis
    using take_block_ok[OF h xy _ conjunct2[OF conjunct2[OF f]] n x] by (metis prod.collapse)
qed

text \<open>What \<open>sbrk\<close> must do, as the kernel documents it: fail, or return the start of \<open>m\<close> bytes of
  memory above \<open>base\<close> that do not overlap the memory handed out before.\<close>

definition sbrk_fine :: "u64 \<Rightarrow> nat set \<Rightarrow> int \<Rightarrow> u64 \<Rightarrow> bool" where
  "sbrk_fine base used m p \<longleftrightarrow> p = SBRK_ERROR
     \<or> (base < p \<and> unat p + nat m < 2 ^ 36 \<and> {unat p..<unat p + nat m} \<inter> used = {})"

text \<open>The units \<open>morecore\<close> asks for, and the argument of \<open>sbrk\<close> for sizes below 2 GB.\<close>

definition core_units :: "u32 \<Rightarrow> u32" where
  "core_units n = (if n < 4096 then 4096 else n)"

lemma ucast_of_nat_64_32: "(ucast (of_nat k :: u64) :: u32) = of_nat k"
  by (rule bit_word_eqI) (simp add: bit_simps)

lemma core_arg:
  assumes "unat n < 2 ^ 27"
  shows "sint (ucast (ucast (core_units n) * 16 :: u64) :: u32) = int (16 * unat (core_units n))"
proof -
  let ?c = "core_units n"
  have c: "unat ?c < 2 ^ 27" using assms by (auto simp: core_units_def)
  have "ucast ?c * 16 = (of_nat (16 * unat ?c) :: u64)"
    by (simp add: mult.commute)
  then have "(ucast (ucast ?c * 16 :: u64) :: u32) = of_nat (16 * unat ?c)"
    using c by (simp only: ucast_of_nat_64_32)
  then show ?thesis using sint_of_nat32[of "16 * unat ?c"] c by (simp only:) auto
qed

lemma free_set_bound: "heap_ok base ys s \<Longrightarrow> free_set ys s \<subseteq> {..<2 ^ 36 - 1}"
  by (fastforce simp: heap_ok_def free_set_def)

lemma free_set_heads: "heap_ok base ys s \<Longrightarrow> y \<in> set ys \<Longrightarrow> unat y \<in> free_set ys s"
  by (auto simp: heap_ok_def free_set_def blk_end_def word_less_nat_alt intro!: bexI[of _ y])

lemma lost_nonzero: "heap_ok base ys s \<Longrightarrow> lost base ys s n r ys' s' \<Longrightarrow> 0 < n \<Longrightarrow> r \<noteq> 0"
proof
  assume a: "heap_ok base ys s" "lost base ys s n r ys' s'" "0 < n" "r = 0"
  then have "unat (r - 16) \<in> block r n" by (simp add: block_def word_less_nat_alt)
  then have "unat (r - 16) < 2 ^ 36" using a(2) free_set_bound[OF a(1)] by (auto simp: lost_def)
  then show False using a(4) by simp
qed

text \<open>What \<open>malloc\<close> does to the heap: \<open>new\<close> is the memory that \<open>sbrk\<close> added.\<close>

definition served :: "u64 \<Rightarrow> u64 list \<Rightarrow> 'e um_state \<Rightarrow> u32 \<Rightarrow> nat set \<Rightarrow> u64 \<Rightarrow> u64 list \<Rightarrow> 'e um_state \<Rightarrow> bool" where
  "served base ys s n new r ys' s' \<longleftrightarrow> heap_ok base ys' s'
     \<and> (if r = 0 then free_set ys' s' = free_set ys s \<and> (\<forall>y\<in>set ys. hsize s y < n)
        else block r n \<subseteq> free_set ys s \<union> new \<and> free_set ys' s' = (free_set ys s \<union> new) - block r n
          \<and> base < r - 16 \<and> hsize s' (r - 16) = n)
     \<and> (\<forall>x. unat x \<notin> free_set ys s \<union> new \<longrightarrow> hsize s' x = hsize s x)"

lemma lost_served:
  assumes h: "heap_ok base ys s" and l: "lost base ys s n r ys' s'" and n: "0 < n"
  shows "served base ys s n {} r ys' s'"
proof -
  have "unat (r - 16) \<in> free_set ys s"
    using l n by (auto simp: lost_def block_def word_less_nat_alt)
  then have "hsize s' x = hsize s x" if "unat x \<notin> free_set ys s" for x
    using that l free_set_heads[OF h] unfolding lost_def by metis
  then show ?thesis using l lost_nonzero[OF h l n] by (auto simp: served_def lost_def)
qed

definition new_memory :: "(int \<Rightarrow> 'e \<Rightarrow> u64 \<times> 'e) \<Rightarrow> u32 \<Rightarrow> 'e \<Rightarrow> nat set" where
  "new_memory sbrk n e = (let p = fst (sbrk (int (16 * unat (core_units n))) e)
     in if p = SBRK_ERROR then {} else {unat p..<unat p + 16 * unat (core_units n)})"

definition grown :: "(int \<Rightarrow> 'e \<Rightarrow> u64 \<times> 'e) \<Rightarrow> u32 \<Rightarrow> 'e \<Rightarrow> nat set \<Rightarrow> 'e \<Rightarrow> bool" where
  "grown sbrk n e new e' \<longleftrightarrow> new = {} \<and> e' = e
     \<or> new = new_memory sbrk n e \<and> e' = snd (sbrk (int (16 * unat (core_units n))) e)"

text \<open>When \<open>malloc\<close> gets new memory and when it gives up.\<close>

definition answered :: "(int \<Rightarrow> 'e \<Rightarrow> u64 \<times> 'e) \<Rightarrow> u32 \<Rightarrow> u64 list \<Rightarrow> 'e um_state \<Rightarrow> nat set \<Rightarrow> u64 \<Rightarrow> 'e \<Rightarrow> bool" where
  "answered sbrk n ys s new r e' \<longleftrightarrow>
     (if \<exists>y\<in>set ys. n \<le> hsize s y then r \<noteq> 0 \<and> new = {} \<and> e' = uenv s
      else e' = snd (sbrk (int (16 * unat (core_units n))) (uenv s))
        \<and> (if fst (sbrk (int (16 * unat (core_units n))) (uenv s)) = SBRK_ERROR then r = 0 \<and> new = {}
           else r \<noteq> 0 \<and> new = new_memory sbrk n (uenv s)))"

lemma answered_grown: "answered sbrk n ys s new r e' \<Longrightarrow> grown sbrk n (uenv s) new e'"
  by (auto simp: answered_def grown_def new_memory_def Let_def split: if_splits)

lemma morecore_ok:
  assumes h: "heap_ok base ys s" and n: "0 < n" "unat n < 2 ^ 27"
    and sb: "sbrk_fine base (free_set ys s) (int (16 * unat (core_units n))) (fst (sbrk (int (16 * unat (core_units n))) (uenv s)))"
  shows "if fst (sbrk (int (16 * unat (core_units n))) (uenv s)) = SBRK_ERROR
    then morecore sbrk n s = Some (0, s\<lparr>uenv := snd (sbrk (int (16 * unat (core_units n))) (uenv s))\<rparr>)
    else \<exists>s' ys'. morecore sbrk n s = Some (ufreep s', s') \<and> heap_ok base ys' s'
      \<and> free_set ys' s' = free_set ys s \<union> new_memory sbrk n (uenv s) \<and> (\<exists>y\<in>set ys'. n \<le> hsize s' y)
      \<and> (\<forall>x. unat x \<notin> free_set ys s \<union> new_memory sbrk n (uenv s) \<longrightarrow> hsize s' x = hsize s x)
      \<and> uenv s' = snd (sbrk (int (16 * unat (core_units n))) (uenv s))"
proof -
  let ?c = "core_units n"
  obtain p e where pe: "sbrk (int (16 * unat ?c)) (uenv s) = (p, e)" by fastforce
  have cn: "n \<le> ?c" "0 < ?c" using n(1) by (auto simp: core_units_def)
  note U = morecore_def[of sbrk n s, folded core_units_def, unfolded Let_def core_arg[OF n(2)] pe prod.case]
  show ?thesis
  proof (cases "p = SBRK_ERROR")
    case True
    then show ?thesis using pe U by auto
  next
    case False
    then have f: "base < p" "unat p + 16 * unat ?c < 2 ^ 36" "{unat p..<unat p + 16 * unat ?c} \<inter> free_set ys s = {}"
      using sb pe by (auto simp: sbrk_fine_def nat_mult_distrib)
    let ?s = "s\<lparr>uenv := e, hsize := (hsize s)(p := ?c)\<rparr>"
    have np: "p \<notin> set (base # ys)"
    proof -
      have "unat p \<in> {unat p..<unat p + 16 * unat ?c}" using cn(2) by (simp add: word_less_nat_alt)
      then have "unat p \<notin> free_set ys s" using f(3) by blast
      then show ?thesis using f(1) free_set_heads[OF h, of p] by auto
    qed
    have be: "blk_end ?s y = blk_end s y" if "y \<in> set (base # ys)" for y using that np by (auto simp: blk_end_def)
    have fs: "free_set ys ?s = free_set ys s" by (rule free_set_cong) (use np in auto)
    have "sorted_wrt (before ?s) (base # ys) \<longleftrightarrow> sorted_wrt (before s) (base # ys)"
      by (rule before_cong) (use np in auto)
    then have h': "heap_ok base ys ?s" using h np be by (auto simp: heap_ok_def)
    have nm: "new_memory sbrk n (uenv s) = {unat p..<blk_end ?s p}"
      using False pe by (simp add: new_memory_def blk_end_def Let_def)
    have "fresh_block base ys ?s p" using f cn(2) unfolding fresh_block_def fs by (simp add: blk_end_def)
    from ufree_ok[OF h' this] obtain s' ys' where s': "ufree (p + 16) ?s = Some s'" "gained base ys ?s p ys' s'" by blast
    have "morecore sbrk n s = Some (ufreep s', s')" using U s'(1) False by simp
    moreover have "\<exists>y\<in>set ys'. n \<le> hsize s' y"
    proof -
      obtain y where y: "y \<in> set ys'" "unat y \<le> unat p" "blk_end ?s p \<le> blk_end s' y"
        using s'(2) by (auto simp: gained_def)
      then have "unat ?c \<le> unat (hsize s' y)" by (auto simp: blk_end_def)
      then have "n \<le> hsize s' y" using cn(1) by (simp add: word_le_nat_alt)
      then show ?thesis using y(1) by blast
    qed
    moreover have "hsize s' x = hsize s x" if "unat x \<notin> free_set ys s \<union> new_memory sbrk n (uenv s)" for x
    proof -
      have "x \<notin> set ys" using that free_set_heads[OF h] by blast
      moreover have "x \<noteq> p" using that cn(2) unfolding nm by (auto simp: blk_end_def word_less_nat_alt)
      ultimately show ?thesis using s'(2) by (auto simp: gained_def)
    qed
    ultimately show ?thesis using s'(2) pe False unfolding gained_def fs nm by auto
  qed
qed

lemma malloc_loop_ok:
  assumes h: "heap_ok base ys s" and n: "0 < n" "unat n < 2 ^ 27"
    and sb: "sbrk_fine base (free_set ys s) (int (16 * unat (core_units n))) (fst (sbrk (int (16 * unat (core_units n))) (uenv s)))"
  shows "\<exists>r s' ys' new. malloc_loop sbrk n (hptr s (ufreep s)) (ufreep s) s = Some (r, s')
    \<and> served base ys s n new r ys' s' \<and> answered sbrk n ys s new r (uenv s')"
proof (cases "\<exists>y\<in>set ys. n \<le> hsize s y")
  case True
  then obtain r s' ys' where "malloc_loop sbrk n (hptr s (ufreep s)) (ufreep s) s = Some (r, s')" "lost base ys s n r ys' s'"
    using malloc_loop_fit[OF h n(1)] by blast
  note l = this
  have "answered sbrk n ys s {} r (uenv s')"
    using True lost_nonzero[OF h l(2) n(1)] l(2) by (simp add: answered_def lost_def)
  then show ?thesis using l(1) lost_served[OF h l(2) n(1)] by blast
next
  case False
  have small: "\<forall>y\<in>set (base # ys). hsize s y < n" using False h n(1) by (auto simp: heap_ok_def not_le)
  obtain ps where ps: "trail (hptr s) (ufreep s) ps (ufreep s)" "set (ufreep s # ps) = set (base # ys)"
    "ufreep s \<notin> set ps" "hptr s (ufreep s) = hd (ps @ [ufreep s])" by (rule heap_cycle[OF h])
  have "\<forall>a\<in>set (ps @ [ufreep s]). hsize s a < n" using small ps(2) by auto
  note loop = malloc_scan_none[OF ps(1,3) this, of sbrk, folded ps(4)]
  note mc = morecore_ok[where sbrk = sbrk, OF h n sb]
  show ?thesis
  proof (cases "fst (sbrk (int (16 * unat (core_units n))) (uenv s)) = SBRK_ERROR")
    case True
    let ?s = "s\<lparr>uenv := snd (sbrk (int (16 * unat (core_units n))) (uenv s))\<rparr>"
    have e: "morecore sbrk n s = Some (0, ?s)" using mc True by simp
    have "heap_ok base ys ?s" "free_set ys ?s = free_set ys s"
      using h by (auto simp: heap_ok_def blk_end_def free_set_def)
    then show ?thesis using loop e small True
      by (intro exI[of _ 0] exI[of _ ?s] exI[of _ ys] exI[of _ "{}"]) (auto simp: served_def answered_def not_le)
  next
    case F: False
    let ?N = "new_memory sbrk n (uenv s)"
    obtain s2 ys2 where m: "morecore sbrk n s = Some (ufreep s2, s2)" "heap_ok base ys2 s2"
      "free_set ys2 s2 = free_set ys s \<union> ?N" "\<exists>y\<in>set ys2. n \<le> hsize s2 y"
      "\<forall>x. unat x \<notin> free_set ys s \<union> ?N \<longrightarrow> hsize s2 x = hsize s x"
      "uenv s2 = snd (sbrk (int (16 * unat (core_units n))) (uenv s))" using mc F by auto
    have "ufreep s2 \<noteq> 0"
      using m(2) sorted_less[of s2 base ys2] by (auto simp: heap_ok_def)
    moreover obtain r s' ys' where r: "malloc_loop sbrk n (hptr s2 (ufreep s2)) (ufreep s2) s2 = Some (r, s')"
      "lost base ys2 s2 n r ys' s'" using malloc_loop_fit[OF m(2) n(1)] m(4) by blast
    ultimately have "malloc_loop sbrk n (hptr s (ufreep s)) (ufreep s) s = Some (r, s')" using loop m(1) by simp
    moreover have "served base ys s n ?N r ys' s'"
      using lost_served[OF m(2) r(2) n(1)] lost_nonzero[OF m(2) r(2) n(1)] m(3,5) by (auto simp: served_def)
    moreover have "answered sbrk n ys s ?N r (uenv s')"
      using r(2) m(6) F False lost_nonzero[OF m(2) r(2) n(1)] by (simp add: answered_def lost_def)
    ultimately show ?thesis by blast
  qed
qed

section \<open>The allocator\<close>

text \<open>The units of a request: the header and enough units for the bytes.\<close>

lemma word_div16: "M < 2 ^ 64 \<Longrightarrow> (of_nat M :: u64) div 16 = of_nat (M div 16)"
  by (simp add: word_arith_nat_div unat_of_nat take_bit_nat_eq_self)

lemma nunits_of_eq: "unat (nunits_of nbytes) = (unat nbytes + 15) div 16 + 1"
proof -
  have b: "unat nbytes < 2 ^ 32" by (rule order_less_le_trans[OF unsigned_less]) simp
  have "(ucast nbytes + 16 - 1 :: u64) = of_nat (unat nbytes + 15)"
    using unat_ucast_u32[of nbytes] by (simp flip: word_unat_eq_iff)
  moreover have "(of_nat (unat nbytes + 15) :: u64) div 16 = of_nat ((unat nbytes + 15) div 16)"
    using b by (intro word_div16) simp
  ultimately have "nunits_of nbytes = ucast (of_nat ((unat nbytes + 15) div 16 + 1) :: u64)"
    by (simp add: nunits_of_def add.commute)
  then have "nunits_of nbytes = of_nat ((unat nbytes + 15) div 16 + 1)" by (simp only: ucast_of_nat_64_32)
  then show ?thesis using b by (simp add: unat_of_nat take_bit_nat_eq_self del: of_nat_Suc of_nat_add)
qed

text \<open>Before the first call the list does not exist yet.\<close>

definition heap_ready :: "u64 \<Rightarrow> u64 list \<Rightarrow> 'e um_state \<Rightarrow> bool" where
  "heap_ready base ys s \<longleftrightarrow> heap_ok base ys s \<or> (ufreep s = 0 \<and> ys = [] \<and> base \<noteq> 0)"

definition first_call :: "u64 \<Rightarrow> 'e um_state \<Rightarrow> 'e um_state" where
  "first_call base s = (if ufreep s = 0
     then s\<lparr>hptr := (hptr s)(base := base), ufreep := base, hsize := (hsize s)(base := 0)\<rparr> else s)"

lemma first_call_ok:
  assumes "heap_ready base ys s"
  shows "heap_ok base ys (first_call base s)" "free_set ys (first_call base s) = free_set ys s"
    "uenv (first_call base s) = uenv s" "x \<noteq> base \<Longrightarrow> hsize (first_call base s) x = hsize s x"
    "y \<in> set ys \<Longrightarrow> hsize (first_call base s) y = hsize s y"
proof -
  have nz: "ufreep s \<noteq> 0" if "heap_ok base ys s"
    using that sorted_less[of s base ys] by (auto simp: heap_ok_def)
  then have "heap_ok base ys s \<Longrightarrow> first_call base s = s" by (simp add: first_call_def)
  moreover have "heap_ok base [] (first_call base s)" if "ufreep s = 0" "base \<noteq> 0"
    using that by (simp add: first_call_def heap_ok_def)
  ultimately show "heap_ok base ys (first_call base s)" "free_set ys (first_call base s) = free_set ys s"
    "uenv (first_call base s) = uenv s" "x \<noteq> base \<Longrightarrow> hsize (first_call base s) x = hsize s x"
    "y \<in> set ys \<Longrightarrow> hsize (first_call base s) y = hsize s y"
    using assms nz by (auto simp: heap_ready_def first_call_def free_set_def)
qed

lemma malloc_first_call: "malloc sbrk base nbytes s =
    malloc_loop sbrk (nunits_of nbytes) (hptr (first_call base s) (ufreep (first_call base s)))
      (ufreep (first_call base s)) (first_call base s)"
  by (simp add: malloc_def first_call_def Let_def)

lemma malloc_served:
  assumes h: "heap_ready base ys s" and nb: "unat nbytes \<le> 2 ^ 31 - 32"
    and sb: "sbrk_fine base (free_set ys s) (int (16 * unat (core_units (nunits_of nbytes))))
       (fst (sbrk (int (16 * unat (core_units (nunits_of nbytes)))) (uenv s)))"
  shows "\<exists>r s' ys' new. malloc sbrk base nbytes s = Some (r, s')
    \<and> served base ys (first_call base s) (nunits_of nbytes) new r ys' s'
    \<and> answered sbrk (nunits_of nbytes) ys s new r (uenv s')"
proof -
  have u: "unat (nunits_of nbytes) < 2 ^ 27" using nb nunits_of_eq[of nbytes] by auto
  have p: "0 < nunits_of nbytes" using nunits_of_eq[of nbytes] by (simp add: word_less_nat_alt)
  note fc = first_call_ok[OF h]
  have "answered sbrk n ys (first_call base s) new r e' = answered sbrk n ys s new r e'" for n new r e'
    using fc(3,5) by (simp add: answered_def)
  then show ?thesis
    using malloc_loop_ok[where sbrk = sbrk, OF fc(1) p u, unfolded fc(2,3), OF sb] unfolding malloc_first_call by simp
qed

text \<open>The bytes the caller may use lie behind the header in the block.\<close>

definition payload :: "u64 \<Rightarrow> u32 \<Rightarrow> nat set" where
  "payload r nbytes = {unat r..<unat r + unat nbytes}"

lemma served_payload:
  assumes h: "heap_ready base ys s" and v: "served base ys (first_call base s) (nunits_of nbytes) new r ys' s'"
    and a: "new = {} \<or> new \<subseteq> {..<2 ^ 36}" and r: "r \<noteq> 0"
  shows "payload r nbytes \<subseteq> block r (nunits_of nbytes)"
proof -
  note fc = first_call_ok[OF h]
  have n: "unat (nunits_of nbytes) = (unat nbytes + 15) div 16 + 1" by (rule nunits_of_eq)
  have "unat (r - 16) \<in> block r (nunits_of nbytes)" using n by (simp add: block_def)
  then have "unat (r - 16) < 2 ^ 36"
    using v r a free_set_bound[OF fc(1)] by (fastforce simp: served_def)
  then have "unat (r - 16 + 16) = unat (r - 16) + 16" by (simp only: unat_word_ariths) simp
  then have "unat r = unat (r - 16) + 16" by simp
  moreover have "unat nbytes \<le> 16 * ((unat nbytes + 15) div 16)" by simp
  ultimately show ?thesis unfolding payload_def block_def n by auto
qed

text \<open>
  C33. \<open>malloc\<close> of at most 2 GB - 32 bytes returns, whatever the state of the free list. If some free block has the
  \<open>n\<close> units of the request and its header, it succeeds without calling \<open>sbrk\<close>; otherwise it calls \<open>sbrk\<close> once, for
  \<open>n\<close> units or 4096, and returns 0 exactly if that fails, changing nothing. On success the result is the
  address behind the header of a block of exactly \<open>n\<close> units of free or newly obtained memory, the bytes
  requested lie in it, its header records \<open>n\<close>, exactly this block is no longer free, and no header
  outside the free and the new memory has changed.
\<close>

theorem malloc_correct:
  assumes "heap_ready base ys s" and "unat nbytes \<le> 2 ^ 31 - 32" and "unat n = (unat nbytes + 15) div 16 + 1"
    and "m = 16 * max 4096 (unat n)" and "sbrk_fine base (free_set ys s) (int m) (fst (sbrk (int m) (uenv s)))"
  shows "\<exists>r s' ys' new. malloc sbrk base nbytes s = Some (r, s') \<and> heap_ok base ys' s'
    \<and> (if \<exists>y\<in>set ys. n \<le> hsize s y then r \<noteq> 0 \<and> new = {} \<and> uenv s' = uenv s
       else (case sbrk (int m) (uenv s) of (p, e) \<Rightarrow> uenv s' = e
         \<and> (if p = SBRK_ERROR then r = 0 \<and> new = {} else r \<noteq> 0 \<and> new = {unat p..<unat p + m})))
    \<and> (if r = 0 then free_set ys' s' = free_set ys s
       else block r n \<subseteq> free_set ys s \<union> new \<and> free_set ys' s' = (free_set ys s \<union> new) - block r n
         \<and> {unat r..<unat r + unat nbytes} \<subseteq> block r n \<and> hsize s' (r - 16) = n)
    \<and> (\<forall>x. x \<noteq> base \<and> unat x \<notin> free_set ys s \<union> new \<longrightarrow> hsize s' x = hsize s x)"
proof -
  note fc = first_call_ok[OF assms(1)]
  have n: "nunits_of nbytes = n" using assms(3) nunits_of_eq[of nbytes] by (simp add: word_unat_eq_iff)
  have m: "16 * unat (core_units n) = m" using assms(4) by (auto simp: core_units_def word_less_nat_alt max_def)
  obtain r s' ys' new where r: "malloc sbrk base nbytes s = Some (r, s')"
    "served base ys (first_call base s) n new r ys' s'" "answered sbrk n ys s new r (uenv s')"
    using malloc_served[where sbrk = sbrk, OF assms(1,2)] assms(5) unfolding n m by blast
  have "new = {} \<or> new \<subseteq> {..<2 ^ 36}"
    using r(3) assms(5) by (auto simp: answered_def new_memory_def sbrk_fine_def m Let_def split: if_splits)
  then have "r \<noteq> 0 \<Longrightarrow> {unat r..<unat r + unat nbytes} \<subseteq> block r n"
    using served_payload[OF assms(1), of nbytes, unfolded n, OF r(2)] by (simp add: payload_def)
  moreover have "x \<noteq> base \<Longrightarrow> unat x \<notin> free_set ys s \<union> new \<Longrightarrow> hsize s' x = hsize s x" for x
    using r(2) fc(2,4) by (auto simp: served_def)
  ultimately show ?thesis using r unfolding served_def answered_def fc(2) new_memory_def m Let_def
    by (intro exI[of _ r] exI[of _ s'] exI[of _ ys'] exI[of _ new]) (auto split: if_splits prod.splits)
qed

text \<open>
  \<open>free\<close> of a block that does not overlap the free memory returns, makes exactly its bytes free
  and keeps the list well formed: sorted by address, with no two adjacent blocks.
\<close>

theorem ufree_correct:
  assumes "heap_ok base ys s" and "fresh_block base ys s (r - 16)"
  shows "\<exists>s' ys'. ufree r s = Some s' \<and> heap_ok base ys' s'
    \<and> free_set ys' s' = free_set ys s \<union> block r (hsize s (r - 16))"
  using ufree_ok[OF assms] by (auto simp: gained_def block_def blk_end_def)

section \<open>A program that uses the allocator\<close>

text \<open>The state of the allocator and the blocks the program holds, each with the size it asked for. The
  program frees only what it holds; it may call \<open>malloc\<close>, for at most \<open>lim\<close> bytes, and \<open>free\<close> in any order.\<close>

inductive um_step :: "(int \<Rightarrow> 'e \<Rightarrow> u64 \<times> 'e) \<Rightarrow> u64 \<Rightarrow> u32 \<Rightarrow>
    'e um_state \<times> (u64 \<rightharpoonup> u32) \<Rightarrow> 'e um_state \<times> (u64 \<rightharpoonup> u32) \<Rightarrow> bool"
  for sbrk base lim where
  um_malloc: "nbytes \<le> lim \<Longrightarrow> malloc sbrk base nbytes s = Some (r, s') \<Longrightarrow>
     um_step sbrk base lim (s, H) (s', if r = 0 then H else H(r \<mapsto> nbytes))"
| um_free: "r \<in> dom H \<Longrightarrow> ufree r s = Some s' \<Longrightarrow> um_step sbrk base lim (s, H) (s', H(r := None))"

text \<open>What the program may expect of \<open>sbrk\<close>: \<open>brk e\<close> is the end of its memory.\<close>

definition sbrk_law :: "(int \<Rightarrow> 'e \<Rightarrow> u64 \<times> 'e) \<Rightarrow> ('e \<Rightarrow> nat) \<Rightarrow> bool" where
  "sbrk_law sbrk brk \<longleftrightarrow> (\<forall>m e. m \<ge> 0 \<longrightarrow> (if fst (sbrk m e) = SBRK_ERROR then brk (snd (sbrk m e)) = brk e
     else brk e \<le> unat (fst (sbrk m e)) \<and> unat (fst (sbrk m e)) + nat m = brk (snd (sbrk m e))
       \<and> brk (snd (sbrk m e)) < 2 ^ 36))"

definition um_init :: "u64 \<Rightarrow> ('e \<Rightarrow> nat) \<Rightarrow> 'e um_state \<times> (u64 \<rightharpoonup> u32) \<Rightarrow> bool" where
  "um_init base brk q \<longleftrightarrow> ufreep (fst q) = 0 \<and> snd q = Map.empty \<and> base \<noteq> 0 \<and> unat base < brk (uenv (fst q))"

definition held :: "'e um_state \<Rightarrow> u64 \<Rightarrow> nat set" where
  "held s r = block r (hsize s (r - 16))"

definition um_inv_at :: "u64 \<Rightarrow> ('e \<Rightarrow> nat) \<Rightarrow> u64 list \<Rightarrow> 'e um_state \<times> u64 set \<Rightarrow> bool" where
  "um_inv_at base brk ys q \<longleftrightarrow> (case q of (s, H) \<Rightarrow> heap_ready base ys s \<and> unat base < brk (uenv s)
     \<and> free_set ys s \<subseteq> {..<brk (uenv s)}
     \<and> (\<forall>r\<in>H. base < r - 16 \<and> 0 < hsize s (r - 16) \<and> held s r \<subseteq> {..<brk (uenv s)} \<inter> {..<2 ^ 36 - 1} - free_set ys s)
     \<and> (\<forall>r\<in>H. \<forall>r'\<in>H. r \<noteq> r' \<longrightarrow> held s r \<inter> held s r' = {}) \<and> (H \<noteq> {} \<longrightarrow> ufreep s \<noteq> 0))"

definition um_inv :: "u64 \<Rightarrow> ('e \<Rightarrow> nat) \<Rightarrow> 'e um_state \<times> (u64 \<rightharpoonup> u32) \<Rightarrow> bool" where
  "um_inv base brk q \<longleftrightarrow> (\<exists>ys. um_inv_at base brk ys (fst q, dom (snd q)))
     \<and> (\<forall>r n. snd q r = Some n \<longrightarrow> payload r n \<subseteq> held (fst q) r)"

lemma held_head: "0 < hsize s (r - 16) \<Longrightarrow> unat (r - 16) \<in> held s r"
  by (simp add: held_def block_def word_less_nat_alt)

lemma held_cong: "hsize s' (r - 16) = hsize s (r - 16) \<Longrightarrow> held s' r = held s r"
  by (simp add: held_def)

lemma law_fine:
  assumes "sbrk_law sbrk brk" "unat base < brk (uenv s)" "A \<subseteq> {..<brk (uenv s)}"
  shows "sbrk_fine base A (int k) (fst (sbrk (int k) (uenv s)))"
proof (cases "fst (sbrk (int k) (uenv s)) = SBRK_ERROR")
  case False
  then have "brk (uenv s) \<le> unat (fst (sbrk (int k) (uenv s)))"
    "unat (fst (sbrk (int k) (uenv s))) + k < 2 ^ 36"
    using assms(1)[unfolded sbrk_law_def, rule_format, of "int k" "uenv s"] by auto
  then show ?thesis using assms(2,3) by (auto simp: sbrk_fine_def word_less_nat_alt)
qed (simp add: sbrk_fine_def)

lemma grown_brk:
  assumes "sbrk_law sbrk brk" "grown sbrk n e new e'"
  shows "brk e \<le> brk e'" "new \<subseteq> {brk e..<brk e'} \<inter> {..<2 ^ 36 - 1}"
proof -
  define k where "k = 16 * unat (core_units n)"
  have "brk e \<le> brk (snd (sbrk (int k) e)) \<and> new_memory sbrk n e \<subseteq> {brk e..<brk (snd (sbrk (int k) e))} \<inter> {..<2 ^ 36 - 1}"
    using assms(1)[unfolded sbrk_law_def, rule_format, of "int k" e]
    unfolding new_memory_def Let_def k_def[symmetric]
    by (cases "fst (sbrk (int k) e) = SBRK_ERROR") auto
  moreover have "new = {} \<and> e' = e \<or> e' = snd (sbrk (int k) e) \<and> new = new_memory sbrk n e"
    using assms(2) by (auto simp: grown_def k_def)
  ultimately show "brk e \<le> brk e'" "new \<subseteq> {brk e..<brk e'} \<inter> {..<2 ^ 36 - 1}" by auto
qed

lemma um_inv_malloc:
  assumes law: "sbrk_law sbrk brk" and inv: "um_inv_at base brk ys (s, H)" and nb: "unat nbytes \<le> 2 ^ 31 - 32"
  shows "\<exists>r s' ys'. malloc sbrk base nbytes s = Some (r, s') \<and> um_inv_at base brk ys' (s', if r = 0 then H else insert r H)
    \<and> (\<forall>q\<in>H. held s' q = held s q) \<and> (r \<noteq> 0 \<longrightarrow> r \<notin> H \<and> payload r nbytes \<subseteq> held s' r)"
proof -
  have i: "heap_ready base ys s" "unat base < brk (uenv s)" "free_set ys s \<subseteq> {..<brk (uenv s)}"
    "\<And>r. r \<in> H \<Longrightarrow> base < r - 16 \<and> 0 < hsize s (r - 16) \<and> held s r \<subseteq> {..<brk (uenv s)} \<inter> {..<2 ^ 36 - 1} - free_set ys s"
    "\<And>r r'. r \<in> H \<Longrightarrow> r' \<in> H \<Longrightarrow> r \<noteq> r' \<Longrightarrow> held s r \<inter> held s r' = {}"
    using inv by (auto simp: um_inv_at_def)
  note fc = first_call_ok[OF i(1)]
  let ?n = "nunits_of nbytes"
  obtain r s' ys' new where r: "malloc sbrk base nbytes s = Some (r, s')"
    "served base ys (first_call base s) ?n new r ys' s'" "answered sbrk ?n ys s new r (uenv s')"
    using malloc_served[where sbrk = sbrk, OF i(1) nb law_fine[OF law i(2,3)]] by blast
  note g = grown_brk[OF law answered_grown[OF r(3)]]
  have sv: "heap_ok base ys' s'" "\<And>x. x \<noteq> base \<Longrightarrow> unat x \<notin> free_set ys s \<union> new \<Longrightarrow> hsize s' x = hsize s x"
    using r(2) fc(2,4) by (auto simp: served_def)
  have fs: "free_set ys' s' \<subseteq> free_set ys s \<union> new" using r(2) fc(2) by (auto simp: served_def split: if_splits)
  have keep: "held s' q = held s q" "base < q - 16" "0 < hsize s' (q - 16)" "held s q \<inter> (free_set ys s \<union> new) = {}" if "q \<in> H" for q
  proof -
    show d: "held s q \<inter> (free_set ys s \<union> new) = {}" using i(4)[OF that] g(2) by fastforce
    have "unat (q - 16) \<in> held s q" using i(4)[OF that] held_head by blast
    then have "hsize s' (q - 16) = hsize s (q - 16)" using d i(4)[OF that] by (intro sv(2)) auto
    then show "held s' q = held s q" "base < q - 16" "0 < hsize s' (q - 16)" using i(4)[OF that] held_cong by auto
  qed
  have f0: "ufreep s' \<noteq> 0" using sv(1) sorted_less[of s' base ys'] by (auto simp: heap_ok_def)
  have old: "\<forall>q\<in>H. base < q - 16 \<and> 0 < hsize s' (q - 16) \<and> held s' q \<subseteq> {..<brk (uenv s')} \<inter> {..<2 ^ 36 - 1} - free_set ys' s'"
    using keep i(4) fs g(1) by fastforce
  have base: "heap_ready base ys' s' \<and> unat base < brk (uenv s') \<and> free_set ys' s' \<subseteq> {..<brk (uenv s')}"
  proof -
    have "x < brk (uenv s')" if "x \<in> free_set ys' s'" for x
      using that fs i(3) g by (auto dest!: subsetD intro: less_le_trans)
    then show ?thesis using sv(1) i(2) g(1) by (auto simp: heap_ready_def)
  qed
  have apart: "\<forall>q\<in>H. \<forall>q'\<in>H. q \<noteq> q' \<longrightarrow> held s' q \<inter> held s' q' = {}" using keep(1) i(5) by simp
  show ?thesis
  proof (cases "r = 0")
    case True
    then show ?thesis using r(1) base old apart f0 keep(1) by (auto simp: um_inv_at_def)
  next
    case False
    then have n: "hsize s' (r - 16) = ?n" "base < r - 16" "held s' r \<subseteq> free_set ys s \<union> new" "held s' r \<inter> free_set ys' s' = {}"
      using r(2) fc(2) by (auto simp: served_def held_def)
    have "0 < ?n" using nunits_of_eq[of nbytes] by (simp add: word_less_nat_alt)
    moreover have "free_set ys s \<subseteq> {..<2 ^ 36 - 1}" using free_set_bound[OF fc(1)] fc(2) by simp
    then have "held s' r \<subseteq> {..<brk (uenv s')} \<inter> {..<2 ^ 36 - 1} - free_set ys' s'" using n(3,4) i(3) g by fastforce
    moreover have "\<forall>q\<in>H. held s' q \<inter> held s' r = {} \<and> held s' r \<inter> held s' q = {}" using keep(1,4) n(3) by blast
    ultimately have "um_inv_at base brk ys' (s', insert r H)"
      using base old apart n(1,2) f0 unfolding um_inv_at_def prod.case by simp
    moreover have "new \<subseteq> {..<2 ^ 36}" using g(2) by fastforce
    then have "payload r nbytes \<subseteq> held s' r"
      using served_payload[OF i(1) r(2) _ False] n(1) by (simp add: held_def)
    moreover have "r \<notin> H"
    proof
      assume "r \<in> H"
      then have "held s' r \<inter> (free_set ys s \<union> new) = {}" using keep(1,4) by simp
      then show False using n(3) held_head[of s' r] n(1) \<open>0 < ?n\<close> by auto
    qed
    ultimately show ?thesis using r(1) False keep(1) by auto
  qed
qed

lemma um_inv_free:
  assumes inv: "um_inv_at base brk ys (s, H)" and r: "r \<in> H"
  shows "\<exists>s' ys'. ufree r s = Some s' \<and> um_inv_at base brk ys' (s', H - {r}) \<and> (\<forall>q\<in>H - {r}. held s' q = held s q)"
proof -
  have i: "heap_ready base ys s" "unat base < brk (uenv s)" "free_set ys s \<subseteq> {..<brk (uenv s)}" "ufreep s \<noteq> 0"
    "\<And>r. r \<in> H \<Longrightarrow> base < r - 16 \<and> 0 < hsize s (r - 16) \<and> held s r \<subseteq> {..<brk (uenv s)} \<inter> {..<2 ^ 36 - 1} - free_set ys s"
    "\<And>r r'. r \<in> H \<Longrightarrow> r' \<in> H \<Longrightarrow> r \<noteq> r' \<Longrightarrow> held s r \<inter> held s r' = {}"
    using inv r by (auto simp: um_inv_at_def)
  have h: "heap_ok base ys s" using i(1,4) by (simp add: heap_ready_def)
  have hr: "held s r = {unat (r - 16)..<blk_end s (r - 16)}" by (simp add: held_def block_def blk_end_def)
  have ne: "0 < hsize s (r - 16)" using i(5)[OF r] by simp
  have "blk_end s (r - 16) - 1 \<in> held s r" unfolding hr using ne by (auto simp: blk_end_def word_less_nat_alt)
  then have "blk_end s (r - 16) - 1 < 2 ^ 36 - 1" using i(5)[OF r] by blast
  then have "fresh_block base ys s (r - 16)" using i(5)[OF r] ne unfolding fresh_block_def hr[symmetric] by auto
  from ufree_ok[OF h this] obtain s' ys' where s': "ufree r s = Some s'" "gained base ys s (r - 16) ys' s'" by auto
  have g: "heap_ok base ys' s'" "free_set ys' s' = free_set ys s \<union> held s r" "uenv s' = uenv s"
    "\<And>x. x \<notin> set ys \<Longrightarrow> x \<noteq> r - 16 \<Longrightarrow> hsize s' x = hsize s x"
    using s'(2) by (auto simp: gained_def hr)
  have keep: "held s' q = held s q" "hsize s' (q - 16) = hsize s (q - 16)" if "q \<in> H" "q \<noteq> r" for q
  proof -
    have "unat (q - 16) \<in> held s q" using i(5)[OF that(1)] held_head by blast
    then have "unat (q - 16) \<notin> free_set ys s" "unat (q - 16) \<notin> held s r" using i(5)[OF that(1)] i(6)[OF that(1) r that(2)] by auto
    then have "q - 16 \<notin> set ys" "q - 16 \<noteq> r - 16" using free_set_heads[OF h] held_head[of s r] ne by auto
    then show "hsize s' (q - 16) = hsize s (q - 16)" by (rule g(4))
    then show "held s' q = held s q" by (rule held_cong)
  qed
  have f0: "ufreep s' \<noteq> 0" using g(1) sorted_less[of s' base ys'] by (auto simp: heap_ok_def)
  have "base < q - 16 \<and> 0 < hsize s' (q - 16) \<and> held s' q \<subseteq> {..<brk (uenv s')} \<inter> {..<2 ^ 36 - 1} - free_set ys' s'"
    if "q \<in> H - {r}" for q
    using that keep[of q] i(5)[of q] i(6)[of q r] r unfolding g(2,3) by auto
  moreover have "\<forall>q\<in>H - {r}. \<forall>q'\<in>H - {r}. q \<noteq> q' \<longrightarrow> held s' q \<inter> held s' q' = {}" using keep(1) i(6) by auto
  moreover have "free_set ys' s' \<subseteq> {..<brk (uenv s')}" using i(3) i(5)[OF r] unfolding g(2,3) by auto
  ultimately have "um_inv_at base brk ys' (s', H - {r})"
    using g(1) i(2) f0 by (simp add: um_inv_at_def heap_ready_def g(3))
  then show ?thesis using s'(1) keep(1) by blast
qed

lemma um_inv_step:
  assumes law: "sbrk_law sbrk brk" and lim: "unat lim \<le> 2 ^ 31 - 32" and inv: "um_inv base brk q" and st: "um_step sbrk base lim q q'"
  shows "um_inv base brk q'"
  using st
proof cases
  case (um_malloc nbytes s r s' H)
  obtain ys where ys: "um_inv_at base brk ys (s, dom H)" and pl: "\<And>r n. H r = Some n \<Longrightarrow> payload r n \<subseteq> held s r"
    using inv um_malloc(1) by (auto simp: um_inv_def)
  have nb: "unat nbytes \<le> 2 ^ 31 - 32" using um_malloc(3) lim by (simp add: word_le_nat_alt)
  obtain ys' where n: "um_inv_at base brk ys' (s', if r = 0 then dom H else insert r (dom H))"
    "\<forall>q\<in>dom H. held s' q = held s q" "r \<noteq> 0 \<longrightarrow> payload r nbytes \<subseteq> held s' r"
    using um_inv_malloc[OF law ys nb] um_malloc(4) by auto
  show ?thesis using n pl um_malloc(2) by (cases "r = 0") (auto simp: um_inv_def domI)
next
  case (um_free r H s s')
  obtain ys where ys: "um_inv_at base brk ys (s, dom H)" and pl: "\<And>r n. H r = Some n \<Longrightarrow> payload r n \<subseteq> held s r"
    using inv um_free(1) by (auto simp: um_inv_def)
  show ?thesis using um_inv_free[OF ys um_free(3)] um_free(2,4) pl by (auto simp: um_inv_def domI)
qed

interpretation umem: inductive_invariant "um_init base brk" "um_step sbrk base lim"
    "\<lambda>q. sbrk_law sbrk brk \<and> unat lim \<le> 2 ^ 31 - 32 \<longrightarrow> um_inv base brk q"
  for base sbrk lim brk
proof
  fix q
  assume "um_init base brk q"
  then have "um_inv_at base brk [] (fst q, dom (snd q))" "snd q = Map.empty"
    by (auto simp: um_init_def um_inv_at_def heap_ready_def split: prod.splits)
  then show "sbrk_law sbrk brk \<and> unat lim \<le> 2 ^ 31 - 32 \<longrightarrow> um_inv base brk q" by (auto simp: um_inv_def)
qed (use um_inv_step in blast)

text \<open>
  C17. Memory safety of the allocator for programs that ask for at most \<open>lim\<close> bytes in a call, where \<open>lim\<close> is
  below 2 GB: in every state that such a program can reach by calls of \<open>malloc\<close> and by freeing what it
  holds, the bytes it asked for lie in the block it holds, behind the header; the blocks do not overlap one
  another or the free list; and every further call of \<open>malloc\<close> and every \<open>free\<close> of a block held returns.
\<close>

theorem umalloc_safe:
  assumes "sbrk_law sbrk brk" "unat lim \<le> 2 ^ 31 - 32" "reach (um_init base brk) (um_step sbrk base lim) (s, H)"
  shows "\<exists>ys. heap_ready base ys s
    \<and> (\<forall>r n. H r = Some n \<longrightarrow> {unat r..<unat r + unat n} \<subseteq> held s r - {unat (r - 16)..<unat (r - 16) + 16})
    \<and> (\<forall>r\<in>dom H. held s r \<inter> free_set ys s = {} \<and> (\<forall>r'\<in>dom H. r \<noteq> r' \<longrightarrow> held s r \<inter> held s r' = {}))
    \<and> (\<forall>r\<in>dom H. ufree r s \<noteq> None) \<and> (\<forall>n \<le> lim. malloc sbrk base n s \<noteq> None)"
proof -
  obtain ys where ys: "um_inv_at base brk ys (s, dom H)" and pl: "\<And>r n. H r = Some n \<Longrightarrow> payload r n \<subseteq> held s r"
    using umem.reach_inv[OF assms(3)] assms(1,2) by (auto simp: um_inv_def)
  have "\<forall>r\<in>dom H. ufree r s \<noteq> None" using um_inv_free[OF ys] by fastforce
  moreover have "\<forall>n \<le> lim. malloc sbrk base n s \<noteq> None"
  proof (intro allI impI)
    fix n assume "n \<le> lim"
    then have "unat n \<le> 2 ^ 31 - 32" using assms(2) by (simp add: word_le_nat_alt)
    then show "malloc sbrk base n s \<noteq> None" using um_inv_malloc[OF assms(1) ys] by fastforce
  qed
  moreover have "{unat r..<unat r + unat n} \<subseteq> held s r - {unat (r - 16)..<unat (r - 16) + 16}" if "H r = Some n" for r n
  proof -
    have "held s r \<subseteq> {..<2 ^ 36 - 1}" "unat (r - 16) \<in> held s r"
      using ys held_head[of s r] domI[of H r, OF that] by (auto simp: um_inv_at_def)
    then have "unat (r - 16) < 2 ^ 36" by auto
    then have "unat (r - 16 + 16) = unat (r - 16) + 16" by (simp only: unat_word_ariths) simp
    then show ?thesis using pl[OF that] by (auto simp: payload_def)
  qed
  ultimately show ?thesis using ys by (intro exI[of _ ys]) (auto simp: um_inv_at_def)
qed

section \<open>Witnesses\<close>

text \<open>An \<open>sbrk\<close> that moves the end of memory, and a program whose static header is at 0x4000.\<close>

definition demo_sbrk :: "int \<Rightarrow> nat \<Rightarrow> u64 \<times> nat" where
  "demo_sbrk m e = (if e + nat m < 2 ^ 36 then (of_nat e, e + nat m) else (SBRK_ERROR, e))"

definition demo_um :: "nat um_state" where
  "demo_um = \<lparr>hptr = \<lambda>_. 0, hsize = \<lambda>_. 0, ufreep = 0, uenv = 0x5000\<rparr>"

lemma demo_sbrk_law: "sbrk_law demo_sbrk (\<lambda>e. e)"
proof -
  have "(of_nat e :: u64) \<noteq> SBRK_ERROR \<and> unat (of_nat e :: u64) = e" if "e < 2 ^ 36" for e
  proof -
    have u: "unat (of_nat e :: u64) = e" using that by (simp add: unat_of_nat take_bit_nat_eq_self)
    moreover have "0x1000000000 \<le> SBRK_ERROR" by code_simp
    then have "unat SBRK_ERROR \<ge> 2 ^ 36" unfolding word_le_nat_alt by simp
    ultimately show ?thesis using that by auto
  qed
  then show ?thesis by (auto simp: sbrk_law_def demo_sbrk_def)
qed

lemma demo_um_ready: "heap_ready 0x4000 [] demo_um"
  by (simp add: heap_ready_def demo_um_def)

theorem malloc_correct_witness:
  "\<exists>r s' ys'. malloc demo_sbrk 0x4000 100 demo_um = Some (r, s') \<and> r \<noteq> 0 \<and> heap_ok 0x4000 ys' s'
     \<and> {unat r..<unat r + 100} \<subseteq> {0x5000..<0x15000} \<and> free_set ys' s' = {0x5000..<0x15000} - block r 8"
proof -
  have m: "(65536 :: nat) = 16 * max 4096 (unat (8 :: u32))" by simp
  have "sbrk_fine 0x4000 (free_set [] demo_um) (int 65536) (fst (demo_sbrk (int 65536) (uenv demo_um)))"
    by (rule law_fine[OF demo_sbrk_law]) (simp_all add: demo_um_def)
  note c = malloc_correct[where sbrk = demo_sbrk and nbytes = 100 and n = 8, OF demo_um_ready _ _ m this]
  have "demo_sbrk (int 65536) (uenv demo_um) = (0x5000, 86016)" "(0x5000 :: u64) \<noteq> SBRK_ERROR"
    by (simp_all add: demo_sbrk_def demo_um_def SBRK_ERROR_def)
  then obtain r s' ys' where "malloc demo_sbrk 0x4000 100 demo_um = Some (r, s')" "heap_ok 0x4000 ys' s'" "r \<noteq> 0"
    and b: "block r 8 \<subseteq> {0x5000..<0x15000}" and "free_set ys' s' = {0x5000..<0x15000} - block r 8" and p: "{unat r..<unat r + 100} \<subseteq> block r 8"
    using c by auto
  then show ?thesis using subset_trans[OF p b] by blast
qed

definition demo_heap :: "nat um_state" where
  "demo_heap = \<lparr>hptr = (\<lambda>_. 0x4000), hsize = (\<lambda>a. if a = 0x5000 then 10 else 0), ufreep = 0x4000, uenv = 0x6000\<rparr>"

theorem ufree_correct_witness:
  "\<exists>s' ys'. ufree 0x5010 demo_heap = Some s' \<and> heap_ok 0x4000 ys' s' \<and> free_set ys' s' = {0x5000..<0x50a0}"
proof -
  have "heap_ok 0x4000 [] demo_heap" by (simp add: heap_ok_def demo_heap_def)
  moreover have "fresh_block 0x4000 [] demo_heap (0x5010 - 16)"
    by (simp add: fresh_block_def blk_end_def demo_heap_def)
  ultimately show ?thesis using ufree_correct[of "0x4000" "[]" demo_heap "0x5010"]
    by (simp add: block_def demo_heap_def)
qed

theorem umalloc_safe_witness:
  "\<exists>r s'. malloc demo_sbrk 0x4000 100 demo_um = Some (r, s') \<and> malloc demo_sbrk 0x4000 200 s' \<noteq> None
     \<and> (r = 0 \<or> ufree r s' \<noteq> None \<and> {unat r..<unat r + 100} \<subseteq> held s' r)"
proof -
  let ?S = "um_step demo_sbrk 0x4000 1000" and ?i = "um_init 0x4000 (\<lambda>e. e)"
  have i: "reach ?i ?S (demo_um, Map.empty)" by (rule reach_init) (simp add: um_init_def demo_um_def)
  have l: "unat (1000 :: u32) \<le> 2 ^ 31 - 32" by simp
  have "malloc demo_sbrk 0x4000 100 demo_um \<noteq> None" using umalloc_safe[OF demo_sbrk_law l i] by auto
  then obtain r s' where r: "malloc demo_sbrk 0x4000 100 demo_um = Some (r, s')" by auto
  then have "?S (demo_um, Map.empty) (s', if r = 0 then Map.empty else Map.empty(r \<mapsto> 100))" by (intro um_malloc) auto
  from umalloc_safe[OF demo_sbrk_law l reach_step[OF i this]] r show ?thesis by (auto split: if_splits)
qed

section \<open>Requests of 2 GB and more\<close>

text \<open>The argument of \<open>sbrk\<close> is an \<open>int\<close>: a request for all but one of the 4 GB an \<open>uint\<close> can
  name asks the kernel for 16 bytes, and is answered with a block of 0x10000001 units.\<close>

lemma huge_request_truncated:
  "nunits_of 0xffffffff = 0x10000001"
  "sint (ucast (ucast (core_units 0x10000001) * 16 :: u64) :: u32) = 16"
  by code_simp+

end
