(* ===== verification/Sh.thy ===== *)
theory Sh
  imports Printk
begin

text \<open>
  The command parser of the shell, \<open>user/sh.c\<close>. The line is the list \<open>buf\<close> of its bytes before the
  NUL, a pointer into it is an index, and \<open>es\<close> is its length. A \<open>struct cmd\<close> is a tree over the
  kind of strings it holds: pairs \<open>(q, eq)\<close> of indices in the parser, byte strings afterwards.
  \<open>panic\<close> prints a message and exits, and is the last thing the parser does (the line that \<open>parsecmd\<close> prints
  before it, with the text it did not read, is left out); running out of fuel is \<open>Hang\<close>.
\<close>

section \<open>Commands\<close>

datatype 's cmd =
    EXEC "'s list"
  | REDIR "'s cmd" 's u32 nat
  | PIPE "'s cmd" "'s cmd"
  | LIST "'s cmd" "'s cmd"
  | BACK "'s cmd"

definition MAXARGS :: nat where "MAXARGS = 10"

text \<open>Modes of \<open>kernel/fcntl.h\<close> in the redirections.\<close>

definition rd_mode :: u32 where "rd_mode = 0"
definition out_mode :: u32 where "out_mode = 0x001 OR 0x200 OR 0x400"
definition app_mode :: u32 where "app_mode = 0x001 OR 0x200"

section \<open>Tokens\<close>

definition whitespace :: "u8 list" where "whitespace = [32, 9, 13, 10, 11]"
definition symbols :: "u8 list" where "symbols = [60, 124, 62, 38, 59, 40, 41]"

function skip_while :: "(u8 \<Rightarrow> bool) \<Rightarrow> u8 list \<Rightarrow> nat \<Rightarrow> nat" where
  "skip_while P buf s = (if s < length buf \<and> P (buf ! s) then skip_while P buf (s + 1) else s)"
  by pat_completeness auto
termination
  by (relation "measure (\<lambda>(P, buf, s). length buf - s)") auto

declare skip_while.simps [simp del]

definition skip_space :: "u8 list \<Rightarrow> nat \<Rightarrow> nat" where
  "skip_space = skip_while (\<lambda>c. c \<in> set whitespace)"

definition skip_word :: "u8 list \<Rightarrow> nat \<Rightarrow> nat" where
  "skip_word = skip_while (\<lambda>c. c \<notin> set whitespace \<and> c \<notin> set symbols)"

text \<open>\<open>gettoken\<close>: the kind of the token, where it starts and ends, and the new \<open>*ps\<close>. The kinds are
  0 at the end, the character of a symbol, \<open>'+'\<close> (43) for \<open>>>\<close> and \<open>'a'\<close> (97) for a word;
  \<open>token_at\<close> is the \<open>switch\<close>.\<close>

definition token_at :: "u8 list \<Rightarrow> nat \<Rightarrow> u8 \<times> nat" where
  "token_at buf q =
     (let c = at_or_0 buf q
      in if c = 0 then (c, q)
         else if c \<in> {124, 40, 41, 59, 38, 60} then (c, q + 1)
         else if c = 62 then (if at_or_0 buf (q + 1) = 62 then (43, q + 2) else (c, q + 1))
         else (97, skip_word buf q))"

definition gettoken :: "u8 list \<Rightarrow> nat \<Rightarrow> u8 \<times> nat \<times> nat \<times> nat" where
  "gettoken buf s =
     (let q = skip_space buf s
      in case token_at buf q of (ret, eq) \<Rightarrow> (ret, q, eq, skip_space buf eq))"

definition peek :: "u8 list \<Rightarrow> nat \<Rightarrow> u8 list \<Rightarrow> bool \<times> nat" where
  "peek buf s toks = (let s' = skip_space buf s in (at_or_0 buf s' \<noteq> 0 \<and> at_or_0 buf s' \<in> set toks, s'))"

abbreviation after_token :: "u8 list \<Rightarrow> nat \<Rightarrow> nat" where
  "after_token buf s \<equiv> snd (snd (snd (gettoken buf s)))"

text \<open>A token that is not the end moves \<open>*ps\<close> on.\<close>

lemma skip_while_eq: "skip_while P buf s = s + length (takeWhile P (drop s buf))"
proof (induction P buf s rule: skip_while.induct)
  case (1 P buf s)
  show ?case
  proof (cases "s < length buf")
    case True
    then have "drop s buf = buf ! s # drop (Suc s) buf" by (simp add: Cons_nth_drop_Suc)
    then show ?thesis using 1 True by (simp add: skip_while.simps[of P buf s])
  qed (simp add: skip_while.simps[of P buf s])
qed

lemma skip_while_le: "s \<le> skip_while P buf s"
  by (simp add: skip_while_eq)

lemma skip_while_bound: "s \<le> length buf \<Longrightarrow> skip_while P buf s \<le> length buf"
  using length_takeWhile_le[of P "drop s buf"] by (simp add: skip_while_eq)

lemma skip_while_stop: "skip_while P buf s < length buf \<Longrightarrow> \<not> P (buf ! skip_while P buf s)"
  using nth_length_takeWhile[of P "drop s buf"] by (simp add: skip_while_eq)

lemma skip_while_all:
  assumes "s \<le> i" "i < skip_while P buf s"
  shows "P (buf ! i)"
proof -
  have i: "i - s < length (takeWhile P (drop s buf))" using assms by (simp add: skip_while_eq)
  have "P (takeWhile P (drop s buf) ! (i - s))" using nth_mem[OF i] by (rule set_takeWhileD[THEN conjunct2])
  moreover have "takeWhile P (drop s buf) ! (i - s) = buf ! i"
    using takeWhile_nth[OF i] i length_takeWhile_le[of P "drop s buf"] assms(1) by simp
  ultimately show ?thesis by simp
qed

lemma skip_while_step: "s < length buf \<Longrightarrow> P (buf ! s) \<Longrightarrow> s < skip_while P buf s"
  using skip_while_le[of "s + 1" P buf] by (subst skip_while.simps) simp

lemma at_or_0_nonzero: "at_or_0 buf s \<noteq> 0 \<Longrightarrow> s < length buf"
  by (auto simp: at_or_0_def split: if_splits)

lemma skip_space_stop: "skip_space buf s < length buf \<Longrightarrow> buf ! skip_space buf s \<notin> set whitespace"
  unfolding skip_space_def by (rule skip_while_stop)

lemma skip_space_le: "s \<le> skip_space buf s"
  by (simp add: skip_space_def skip_while_le)

lemma token_at_greater:
  assumes "fst (token_at buf q) \<noteq> 0" "buf ! q \<notin> set whitespace"
  shows "q < snd (token_at buf q)"
proof -
  have "at_or_0 buf q \<noteq> 0" using assms(1) by (auto simp: token_at_def)
  note lt = at_or_0_nonzero[OF this]
  have "q < skip_word buf q" if "at_or_0 buf q \<notin> set symbols"
    unfolding skip_word_def
    by (rule skip_while_step[OF lt]) (use assms(2) that lt in \<open>simp add: at_or_0_def\<close>)
  then show ?thesis using assms(1) by (auto simp: token_at_def Let_def symbols_def)
qed

lemma after_token_greater:
  assumes "fst (gettoken buf s) \<noteq> 0"
  shows "s < after_token buf s"
proof -
  let ?q = "skip_space buf s"
  have t: "fst (token_at buf ?q) \<noteq> 0" using assms by (simp add: gettoken_def Let_def case_prod_beta)
  then have "at_or_0 buf ?q \<noteq> 0" by (auto simp: token_at_def)
  then have "?q < snd (token_at buf ?q)"
    by (intro token_at_greater[OF t] skip_space_stop) (rule at_or_0_nonzero)
  also have "\<dots> \<le> after_token buf s" by (simp add: gettoken_def Let_def case_prod_beta skip_space_le)
  finally show ?thesis using skip_space_le[of s buf] by simp
qed

lemma after_token_le: "s \<le> after_token buf s"
  using after_token_greater[of buf s] skip_space_le[of s buf] skip_space_le[of "skip_space buf s" buf]
  by (cases "fst (gettoken buf s) = 0") (auto simp: gettoken_def token_at_def Let_def split: if_splits)

lemma skip_space_bound: "s \<le> length buf \<Longrightarrow> skip_space buf s \<le> length buf"
  by (simp add: skip_space_def skip_while_bound)

lemma token_at_bound: "q \<le> length buf \<Longrightarrow> snd (token_at buf q) \<le> length buf"
  using at_or_0_nonzero[of buf q] at_or_0_nonzero[of buf "q + 1"] skip_while_bound[of q buf]
  by (auto simp: token_at_def Let_def skip_word_def)

text \<open>From \<open>s\<close> to \<open>s'\<close>, forward and not past the end.\<close>

definition moves :: "u8 list \<Rightarrow> nat \<Rightarrow> nat \<Rightarrow> bool" where
  "moves buf s s' \<longleftrightarrow> s \<le> s' \<and> (s \<le> length buf \<longrightarrow> s' \<le> length buf)"

lemma moves_refl [simp]: "moves buf s s"
  by (simp add: moves_def)

lemma moves_trans: "moves buf s t \<Longrightarrow> moves buf t u \<Longrightarrow> moves buf s u"
  by (auto simp: moves_def)

lemma moves_le: "moves buf s s' \<Longrightarrow> s \<le> s'"
  by (simp add: moves_def)

lemma after_token_moves: "moves buf s (after_token buf s)"
  using after_token_le[of s buf] skip_space_bound token_at_bound[of "skip_space buf s" buf]
  by (auto simp: moves_def gettoken_def Let_def case_prod_beta)

lemma peek_pos:
  "s \<le> snd (peek buf s toks)" "fst (peek buf s toks) \<Longrightarrow> snd (peek buf s toks) < length buf"
  "fst (peek buf s toks) \<Longrightarrow> fst (gettoken buf (snd (peek buf s toks))) \<noteq> 0"
proof -
  show "s \<le> snd (peek buf s toks)" by (simp add: peek_def Let_def skip_space_le)
  assume p: "fst (peek buf s toks)"
  then have nz: "at_or_0 buf (skip_space buf s) \<noteq> 0" by (simp add: peek_def Let_def)
  then show lt: "snd (peek buf s toks) < length buf" by (simp add: peek_def Let_def at_or_0_nonzero)
  have "skip_space buf (skip_space buf s) = skip_space buf s"
    using skip_space_stop[of buf s] lt unfolding skip_space_def peek_def Let_def
    by (subst skip_while.simps) simp
  then show "fst (gettoken buf (snd (peek buf s toks))) \<noteq> 0"
    using nz by (auto simp: peek_def gettoken_def token_at_def Let_def)
qed

lemma peek_token: "(b, s1) = peek buf s toks \<Longrightarrow> b \<Longrightarrow> s \<le> s1 \<and> s1 < length buf \<and> s1 < after_token buf s1"
  using peek_pos[where s = s and buf = buf and toks = toks] after_token_greater[where s = s1 and buf = buf]
  by (metis fst_conv snd_conv)

lemma token_token:
  "(b, s1) = peek buf s toks \<Longrightarrow> b \<Longrightarrow> (tok, x, y, s2) = gettoken buf s1 \<Longrightarrow> (t, q, eq, s3) = gettoken buf s2 \<Longrightarrow>
     s < s3 \<and> s < length buf"
  using peek_token[of b s1 buf s toks] after_token_le[of s2 buf] by (auto simp: prod_eq_iff)

section \<open>The parser\<close>

type_synonym tcmd = "(nat \<times> nat) cmd"

definition redir :: "u8 \<Rightarrow> 's cmd \<Rightarrow> 's \<Rightarrow> 's cmd" where
  "redir tok c f = (if tok = 60 then REDIR c f rd_mode 0
     else if tok = 62 then REDIR c f out_mode 1
     else if tok = 43 then REDIR c f app_mode 1
     else c)"

function parseredirs :: "tcmd \<Rightarrow> u8 list \<Rightarrow> nat \<Rightarrow> (tcmd \<times> nat) res" where
  "parseredirs c buf s =
     (case peek buf s [60, 62] of (b, s1) \<Rightarrow>
        if b then (case gettoken buf s1 of (tok, _, _, s2) \<Rightarrow>
          case gettoken buf s2 of (t, q, eq, s3) \<Rightarrow>
            if t \<noteq> 97 then Panic ''missing file for redirection''
            else parseredirs (redir tok c (q, eq)) buf s3)
        else Ok (c, s1))"
  by pat_completeness auto
termination
  by (relation "measure (\<lambda>(c, buf, s). length buf - s)") (auto dest: token_token)

declare parseredirs.simps [simp del]

lemma parseredirs_le: "parseredirs c buf s = Ok (c', s') \<Longrightarrow> s \<le> s'"
proof (induction c buf s rule: parseredirs.induct)
  case (1 c buf s)
  obtain b s1 where p: "peek buf s [60, 62] = (b, s1)" by fastforce
  have s1: "s \<le> s1" using peek_pos(1)[where s = s and buf = buf and toks = "[60, 62]"] p by simp
  obtain tok x y s2 where g: "gettoken buf s1 = (tok, x, y, s2)" by (metis prod_cases4)
  obtain t q eq s3 where g2: "gettoken buf s2 = (t, q, eq, s3)" by (metis prod_cases4)
  have "s1 \<le> s2" "s2 \<le> s3" using after_token_le[of s1 buf] after_token_le[of s2 buf] g g2 by auto
  moreover have "b \<Longrightarrow> t = 97 \<Longrightarrow> s3 \<le> s'"
    using 1(1)[OF p[symmetric] _ g[symmetric] refl refl g2[symmetric] refl refl] 1(2) p g g2
    by (simp add: parseredirs.simps[of c buf s])
  ultimately show ?case using 1(2) p g g2 s1 by (auto simp: parseredirs.simps[of c buf s] split: if_splits)
qed

fun push_arg :: "'s \<Rightarrow> 's cmd \<Rightarrow> 's cmd" where
  "push_arg a (EXEC as) = EXEC (as @ [a])"
| "push_arg a (REDIR c f m fd) = REDIR (push_arg a c) f m fd"
| "push_arg a c = c"

text \<open>The loop of \<open>parseexec\<close>: \<open>ret\<close> is the \<open>execcmd\<close> under the redirections read so far; the
  arguments are added to the \<open>execcmd\<close>.\<close>

function parse_args :: "tcmd \<Rightarrow> nat \<Rightarrow> u8 list \<Rightarrow> nat \<Rightarrow> (tcmd \<times> nat) res" where
  "parse_args ret argc buf s =
     (case peek buf s [124, 41, 38, 59] of (b, s1) \<Rightarrow>
        if b then Ok (ret, s1)
        else (case gettoken buf s1 of (tok, q, eq, s2) \<Rightarrow>
          if tok = 0 then Ok (ret, s2)
          else if tok \<noteq> 97 then Panic ''syntax''
          else if argc + 1 \<ge> MAXARGS then Panic ''too many args''
          else bindR (parseredirs (push_arg (q, eq) ret) buf s2) (\<lambda>(ret', s3). parse_args ret' (argc + 1) buf s3)))"
  by pat_completeness auto
termination
  by (relation "measure (\<lambda>(ret, argc, buf, s). MAXARGS - argc)") auto

declare parse_args.simps [simp del]

text \<open>The \<open>while\<close> loop of \<open>parseline\<close>.\<close>

function parse_amps :: "tcmd \<Rightarrow> u8 list \<Rightarrow> nat \<Rightarrow> tcmd \<times> nat" where
  "parse_amps c buf s =
     (case peek buf s [38] of (b, s1) \<Rightarrow>
        if b then parse_amps (BACK c) buf (after_token buf s1) else (c, s1))"
  by pat_completeness auto
termination
  by (relation "measure (\<lambda>(c, buf, s). length buf - s)") (auto dest!: peek_token)

declare parse_amps.simps [simp del]

fun parseline :: "nat \<Rightarrow> u8 list \<Rightarrow> nat \<Rightarrow> (tcmd \<times> nat) res"
  and parsepipe :: "nat \<Rightarrow> u8 list \<Rightarrow> nat \<Rightarrow> (tcmd \<times> nat) res"
  and parseexec :: "nat \<Rightarrow> u8 list \<Rightarrow> nat \<Rightarrow> (tcmd \<times> nat) res"
  and parseblock :: "nat \<Rightarrow> u8 list \<Rightarrow> nat \<Rightarrow> (tcmd \<times> nat) res" where
  "parseline 0 buf s = Hang"
| "parseline (Suc n) buf s =
     bindR (parsepipe n buf s) (\<lambda>(c, s1).
       case parse_amps c buf s1 of (c1, s2) \<Rightarrow>
         case peek buf s2 [59] of (b, s3) \<Rightarrow>
           if b then bindR (parseline n buf (after_token buf s3)) (\<lambda>(c2, s4). Ok (LIST c1 c2, s4))
           else Ok (c1, s3))"
| "parsepipe 0 buf s = Hang"
| "parsepipe (Suc n) buf s =
     bindR (parseexec n buf s) (\<lambda>(c, s1).
       case peek buf s1 [124] of (b, s2) \<Rightarrow>
         if b then bindR (parsepipe n buf (after_token buf s2)) (\<lambda>(c2, s3). Ok (PIPE c c2, s3))
         else Ok (c, s2))"
| "parseexec 0 buf s = Hang"
| "parseexec (Suc n) buf s =
     (case peek buf s [40] of (b, s1) \<Rightarrow>
        if b then parseblock n buf s1
        else bindR (parseredirs (EXEC []) buf s1) (\<lambda>(ret, s2). parse_args ret 0 buf s2))"
| "parseblock 0 buf s = Hang"
| "parseblock (Suc n) buf s =
     (case peek buf s [40] of (b, s1) \<Rightarrow>
        if \<not> b then Panic ''parseblock''
        else bindR (parseline n buf (after_token buf s1)) (\<lambda>(c, s2).
          case peek buf s2 [41] of (b2, s3) \<Rightarrow>
            if \<not> b2 then Panic ''syntax - missing )''
            else parseredirs c buf (after_token buf s3)))"

text \<open>\<open>nulterminate\<close> on the buffer; the last string ends at the NUL of the line.\<close>

fun nulterminate :: "tcmd \<Rightarrow> u8 list \<Rightarrow> u8 list" where
  "nulterminate (EXEC as) buf = fold (\<lambda>(q, eq) b. b[eq := 0]) as buf"
| "nulterminate (REDIR c (q, eq) m fd) buf = (nulterminate c buf)[eq := 0]"
| "nulterminate (PIPE l r) buf = nulterminate r (nulterminate l buf)"
| "nulterminate (LIST l r) buf = nulterminate r (nulterminate l buf)"
| "nulterminate (BACK c) buf = nulterminate c buf"

definition parsecmd :: "nat \<Rightarrow> u8 list \<Rightarrow> (tcmd \<times> u8 list) res" where
  "parsecmd fuel buf =
     bindR (parseline fuel buf 0) (\<lambda>(c, s).
       if snd (peek buf s []) \<noteq> length buf then Panic ''syntax''
       else Ok (c, nulterminate c buf))"

section \<open>The parser returns\<close>

lemma parseredirs_returns: "parseredirs c buf s \<noteq> Hang"
  by (induction c buf s rule: parseredirs.induct) (subst parseredirs.simps, auto split: prod.split)

lemma bindR_Hang_iff: "bindR m f = Hang \<longleftrightarrow> m = Hang \<or> (\<exists>x. m = Ok x \<and> f x = Hang)"
  by (cases m) auto

lemma parse_args_returns: "parse_args ret argc buf s \<noteq> Hang"
proof (induction ret argc buf s rule: parse_args.induct)
  case (1 ret argc buf s)
  obtain b s1 where p: "peek buf s [124, 41, 38, 59] = (b, s1)" by fastforce
  obtain tok q eq s2 where g: "gettoken buf s1 = (tok, q, eq, s2)" by (metis prod_cases4)
  show ?case using 1 p g parseredirs_returns
    by (auto simp: parse_args.simps[of ret argc buf s] bindR_Hang_iff split: if_splits)
qed

text \<open>The runs that return, one rule for each parser.\<close>

lemma peek_moves: "peek buf s toks = (b, s') \<Longrightarrow> moves buf s s'"
  by (auto simp: peek_def Let_def moves_def skip_space_le skip_space_bound)

lemma parseredirs_cases:
  assumes "parseredirs c buf s = Ok (c', s')"
  obtains "c' = c" "s' = snd (peek buf s [60, 62])"
  | s1 tok x y s2 q eq s3 where "peek buf s [60, 62] = (True, s1)" "gettoken buf s1 = (tok, x, y, s2)"
      "gettoken buf s2 = (97, q, eq, s3)" "parseredirs (redir tok c (q, eq)) buf s3 = Ok (c', s')" "s < s3" "moves buf s s3"
proof (cases "peek buf s [60, 62]")
  case (Pair b s1)
  obtain tok x y s2 where g: "gettoken buf s1 = (tok, x, y, s2)" by (metis prod_cases4)
  obtain t q eq s3 where g2: "gettoken buf s2 = (t, q, eq, s3)" by (metis prod_cases4)
  have "b \<Longrightarrow> s < s3" using token_token[OF Pair[symmetric] _ g[symmetric] g2[symmetric]] by simp
  moreover have "moves buf s s3"
    using peek_moves[OF Pair] after_token_moves[of buf s1] after_token_moves[of buf s2] g g2 moves_trans by fastforce
  ultimately show thesis using that assms Pair g g2 by (cases b) (auto simp: parseredirs.simps[of c buf s] split: if_splits)
qed

lemma parse_args_cases:
  assumes "parse_args ret argc buf s = Ok (c', s')"
  obtains "c' = ret" "moves buf s s'"
  | s1 q eq s2 ret' s3 where "gettoken buf s1 = (97, q, eq, s2)" "moves buf s s2" "argc + 1 < MAXARGS"
      "parseredirs (push_arg (q, eq) ret) buf s2 = Ok (ret', s3)" "parse_args ret' (argc + 1) buf s3 = Ok (c', s')"
proof (cases "peek buf s [124, 41, 38, 59]")
  case (Pair b s1)
  have s1: "moves buf s s1" by (rule peek_moves[OF Pair])
  obtain tok q eq s2 where g: "gettoken buf s1 = (tok, q, eq, s2)" by (metis prod_cases4)
  have "moves buf s s2" using s1 after_token_moves[of buf s1] g moves_trans by fastforce
  then show thesis using that assms Pair g s1
    by (force simp: parse_args.simps[of ret argc buf s] res_iff split: if_splits)
qed

lemma parseline_cases:
  assumes "parseline n buf s = Ok (c, s')"
  obtains m c1 s1 c2 s2 s3 where "n = Suc m" "parsepipe m buf s = Ok (c1, s1)" "parse_amps c1 buf s1 = (c2, s2)"
    "peek buf s2 [59] = (False, s3)" "c = c2" "s' = s3"
  | m c1 s1 c2 s2 s3 c3 where "n = Suc m" "parsepipe m buf s = Ok (c1, s1)" "parse_amps c1 buf s1 = (c2, s2)"
    "peek buf s2 [59] = (True, s3)" "parseline m buf (after_token buf s3) = Ok (c3, s')" "c = LIST c2 c3"
proof (cases n)
  case (Suc m)
  then obtain c1 s1 where 1: "parsepipe m buf s = Ok (c1, s1)" using assms by (auto simp: res_iff)
  obtain c2 s2 where 2: "parse_amps c1 buf s1 = (c2, s2)" by fastforce
  obtain b s3 where 3: "peek buf s2 [59] = (b, s3)" by fastforce
  show thesis using that(1)[OF Suc 1 2] that(2)[OF Suc 1 2] 1 2 3 assms Suc by (cases b) (auto simp: res_iff)
qed (use assms in simp)

lemma parsepipe_cases:
  assumes "parsepipe n buf s = Ok (c, s')"
  obtains m s1 where "n = Suc m" "parseexec m buf s = Ok (c, s1)" "peek buf s1 [124] = (False, s')"
  | m c1 s1 s2 c2 where "n = Suc m" "parseexec m buf s = Ok (c1, s1)" "peek buf s1 [124] = (True, s2)"
    "parsepipe m buf (after_token buf s2) = Ok (c2, s')" "c = PIPE c1 c2"
proof (cases n)
  case (Suc m)
  then obtain c1 s1 where 1: "parseexec m buf s = Ok (c1, s1)" using assms by (auto simp: res_iff)
  obtain b s2 where 2: "peek buf s1 [124] = (b, s2)" by fastforce
  show thesis using that(1)[OF Suc] that(2)[OF Suc 1] 1 2 assms Suc by (cases b) (auto simp: res_iff)
qed (use assms in simp)

lemma parseexec_cases:
  assumes "parseexec n buf s = Ok (c, s')"
  obtains m s1 where "n = Suc m" "peek buf s [40] = (True, s1)" "parseblock m buf s1 = Ok (c, s')"
  | m s1 ret s2 where "n = Suc m" "peek buf s [40] = (False, s1)" "parseredirs (EXEC []) buf s1 = Ok (ret, s2)"
    "parse_args ret 0 buf s2 = Ok (c, s')"
proof (cases n)
  case (Suc m)
  obtain b s1 where 1: "peek buf s [40] = (b, s1)" by fastforce
  show thesis using that(1)[OF Suc] that(2)[OF Suc] 1 assms Suc by (cases b) (auto simp: res_iff)
qed (use assms in simp)

lemma parseblock_cases:
  assumes "parseblock n buf s = Ok (c, s')"
  obtains m s1 c1 s2 s3 where "n = Suc m" "peek buf s [40] = (True, s1)" "parseline m buf (after_token buf s1) = Ok (c1, s2)"
    "peek buf s2 [41] = (True, s3)" "parseredirs c1 buf (after_token buf s3) = Ok (c, s')"
proof (cases n)
  case (Suc m)
  obtain b s1 where 1: "peek buf s [40] = (b, s1)" by fastforce
  then have b: "b" using assms Suc by (cases b) auto
  then obtain c1 s2 where 2: "parseline m buf (after_token buf s1) = Ok (c1, s2)" using 1 assms Suc by (auto simp: res_iff)
  obtain b2 s3 where 3: "peek buf s2 [41] = (b2, s3)" by fastforce
  show thesis using that[OF Suc _ 2] 1 2 3 b assms Suc by (cases b2) (auto simp: res_iff)
qed (use assms in simp)

section \<open>The words of a command\<close>

text \<open>A word of the line: characters that are neither white space nor symbols, up to one that is.\<close>

definition word_char :: "u8 \<Rightarrow> bool" where
  "word_char c \<longleftrightarrow> c \<notin> set whitespace \<and> c \<notin> set symbols"

definition word_token :: "u8 list \<Rightarrow> nat \<times> nat \<Rightarrow> bool" where
  "word_token buf = (\<lambda>(q, eq). q < eq \<and> eq \<le> length buf \<and> (\<forall>i. q \<le> i \<longrightarrow> i < eq \<longrightarrow> word_char (buf ! i))
     \<and> (eq < length buf \<longrightarrow> \<not> word_char (buf ! eq)))"

lemma gettoken_word:
  assumes "gettoken buf s = (97, q, eq, s')"
  shows "word_token buf (q, eq)"
proof -
  have q: "q = skip_space buf s" "token_at buf q = (97, eq)" using assms by (auto simp: gettoken_def Let_def split: prod.splits)
  then have e: "eq = skip_word buf q" "at_or_0 buf q \<noteq> 0" by (auto simp: token_at_def Let_def split: if_splits)
  note lt = at_or_0_nonzero[OF e(2)]
  have "q < eq" using token_at_greater[of buf q] q skip_space_stop[of buf s] lt by simp
  moreover have "eq \<le> length buf" using skip_while_bound[of q buf] lt e(1) by (simp add: skip_word_def)
  moreover have "\<forall>i. q \<le> i \<longrightarrow> i < eq \<longrightarrow> word_char (buf ! i)"
    using skip_while_all e(1) unfolding skip_word_def word_char_def by blast
  moreover have "eq < length buf \<longrightarrow> \<not> word_char (buf ! eq)"
    using skip_while_stop e(1) unfolding skip_word_def word_char_def by blast
  ultimately show ?thesis by (simp add: word_token_def)
qed

text \<open>Every parser moves on and builds commands out of words of the line.\<close>

fun argv_ok :: "'s cmd \<Rightarrow> bool" where
  "argv_ok (EXEC as) \<longleftrightarrow> length as < MAXARGS"
| "argv_ok (REDIR c f m fd) \<longleftrightarrow> argv_ok c"
| "argv_ok (PIPE l r) \<longleftrightarrow> argv_ok l \<and> argv_ok r"
| "argv_ok (LIST l r) \<longleftrightarrow> argv_ok l \<and> argv_ok r"
| "argv_ok (BACK c) \<longleftrightarrow> argv_ok c"

text \<open>The arguments read so far, under the redirections.\<close>

fun exec_len :: "'s cmd \<Rightarrow> nat" where
  "exec_len (EXEC as) = length as"
| "exec_len (REDIR c f m fd) = exec_len c"
| "exec_len c = 0"

definition words_ok :: "u8 list \<Rightarrow> tcmd \<Rightarrow> bool" where
  "words_ok buf c \<longleftrightarrow> (\<forall>t\<in>set_cmd c. word_token buf t) \<and> argv_ok c"

lemma words_ok_simps [simp]:
  "words_ok buf (PIPE l r) \<longleftrightarrow> words_ok buf l \<and> words_ok buf r"
  "words_ok buf (LIST l r) \<longleftrightarrow> words_ok buf l \<and> words_ok buf r"
  "words_ok buf (BACK c) \<longleftrightarrow> words_ok buf c"
  "words_ok buf (EXEC [])"
  by (auto simp: words_ok_def MAXARGS_def)

lemma words_ok_redir: "word_token buf f \<Longrightarrow> words_ok buf c \<Longrightarrow> words_ok buf (redir tok c f)"
  by (auto simp: redir_def words_ok_def)

lemma exec_len_redir [simp]: "exec_len (redir tok c f) = exec_len c"
  by (simp add: redir_def)

lemma words_ok_push_arg:
  "word_token buf a \<Longrightarrow> words_ok buf c \<Longrightarrow> exec_len c + 1 < MAXARGS \<Longrightarrow> words_ok buf (push_arg a c)"
  by (induction a c rule: push_arg.induct) (auto simp: words_ok_def)

lemma exec_len_push_arg: "exec_len (push_arg a c) \<le> exec_len c + 1"
  by (induction a c rule: push_arg.induct) auto

lemma parseredirs_ok:
  "parseredirs c buf s = Ok (c', s') \<Longrightarrow> words_ok buf c \<Longrightarrow> moves buf s s' \<and> words_ok buf c' \<and> exec_len c' = exec_len c"
proof (induction "length buf - s" arbitrary: c s rule: less_induct)
  case less
  from less.prems(1) show ?case
  proof (cases rule: parseredirs_cases)
    case 1
    then show ?thesis using less.prems(2) peek_moves[of buf s "[60, 62]"] by (cases "peek buf s [60, 62]") simp
  next
    case (2 s1 tok x y s2 q eq s3)
    have "s < length buf" using token_token[OF 2(1)[symmetric] _ 2(2)[symmetric] 2(3)[symmetric]] by simp
    then have d: "length buf - s3 < length buf - s" using 2(5) by (rule diff_less_mono2[rotated])
    show ?thesis using less.hyps[OF d 2(4) words_ok_redir[OF gettoken_word[OF 2(3)] less.prems(2)]] moves_trans[OF 2(6)] by auto
  qed
qed

lemma parse_args_ok:
  "parse_args ret argc buf s = Ok (c', s') \<Longrightarrow> words_ok buf ret \<Longrightarrow> exec_len ret \<le> argc \<Longrightarrow> moves buf s s' \<and> words_ok buf c'"
proof (induction "MAXARGS - argc" arbitrary: argc ret s rule: less_induct)
  case less
  from less.prems(1) show ?case
  proof (cases rule: parse_args_cases)
    case 1
    then show ?thesis using less.prems(2) by simp
  next
    case (2 s1 q eq s2 ret' s3)
    have "words_ok buf (push_arg (q, eq) ret)"
      by (rule words_ok_push_arg[OF gettoken_word[OF 2(1)] less.prems(2)]) (use 2(3) less.prems(3) in simp)
    then have r: "moves buf s2 s3" "words_ok buf ret'" "exec_len ret' \<le> argc + 1"
      using parseredirs_ok[OF 2(4)] exec_len_push_arg[of "(q, eq)" ret] less.prems(3) by auto
    have "moves buf s3 s' \<and> words_ok buf c'" by (rule less.hyps[OF _ 2(5) r(2,3)]) (use 2(3) in simp)
    then show ?thesis using moves_trans[OF moves_trans[OF 2(2) r(1)]] by auto
  qed
qed

lemma parse_amps_ok:
  "words_ok buf c \<Longrightarrow> moves buf s (snd (parse_amps c buf s)) \<and> words_ok buf (fst (parse_amps c buf s))"
proof (induction c buf s rule: parse_amps.induct)
  case (1 c buf s)
  obtain b s1 where p: "peek buf s [38] = (b, s1)" by fastforce
  have "moves buf s s1" "moves buf s (after_token buf s1)"
    using peek_moves[OF p] moves_trans after_token_moves by blast+
  then show ?case using 1(1)[OF p[symmetric]] 1(2) p moves_trans
    by (auto simp: parse_amps.simps[of c buf s])
qed

lemma peek_le: "peek buf s toks = (b, s') \<Longrightarrow> s \<le> s'"
  using peek_pos(1)[where s = s and buf = buf and toks = toks] by simp

lemma moves4: "moves buf s s1 \<Longrightarrow> moves buf s1 s2 \<Longrightarrow> moves buf s2 s3 \<Longrightarrow> moves buf s3 s4 \<Longrightarrow> moves buf s s4"
  by (blast intro: moves_trans)

lemma parser_ok:
  "(\<forall>s c s'. parseline n buf s = Ok (c, s') \<longrightarrow> moves buf s s' \<and> words_ok buf c)
   \<and> (\<forall>s c s'. parsepipe n buf s = Ok (c, s') \<longrightarrow> moves buf s s' \<and> words_ok buf c)
   \<and> (\<forall>s c s'. parseexec n buf s = Ok (c, s') \<longrightarrow> moves buf s s' \<and> words_ok buf c)
   \<and> (\<forall>s c s'. parseblock n buf s = Ok (c, s') \<longrightarrow> moves buf s s' \<and> words_ok buf c)"
proof (induction n)
  case (Suc n)
  note ih = Suc.IH[THEN conjunct1, rule_format] Suc.IH[THEN conjunct2, THEN conjunct1, rule_format]
    Suc.IH[THEN conjunct2, THEN conjunct2, THEN conjunct1, rule_format]
    Suc.IH[THEN conjunct2, THEN conjunct2, THEN conjunct2, rule_format]
  have "moves buf s s' \<and> words_ok buf c" if "parseline (Suc n) buf s = Ok (c, s')" for s c s'
    using that
  proof (cases rule: parseline_cases)
    case (1 m c1 s1 c2 s2 s3)
    then show ?thesis using ih(2)[of s c1 s1] parse_amps_ok[where buf = buf and c = c1 and s = s1] peek_moves[OF 1(4)] by (auto intro: moves_trans)
  next
    case (2 m c1 s1 c2 s2 s3 c3)
    then have m: "moves buf s s1" "moves buf s1 s2" "words_ok buf c1" "words_ok buf c2" "moves buf (after_token buf s3) s'" "words_ok buf c3"
      using ih(2)[of s c1 s1] parse_amps_ok[where buf = buf and c = c1 and s = s1] ih(1)[of "after_token buf s3" c3 s'] by auto
    have "moves buf s s'"
      by (rule moves_trans[OF moves4[OF m(1,2) peek_moves[OF 2(4)] after_token_moves] m(5)])
    then show ?thesis using m 2 by simp
  qed
  moreover have "moves buf s s' \<and> words_ok buf c" if "parsepipe (Suc n) buf s = Ok (c, s')" for s c s'
    using that
  proof (cases rule: parsepipe_cases)
    case (1 m s1)
    then show ?thesis using ih(3)[of s c s1] peek_moves[OF 1(3)] by (auto intro: moves_trans)
  next
    case (2 m c1 s1 s2 c2)
    then show ?thesis using ih(3)[of s c1 s1] peek_moves[OF 2(3)] after_token_moves[of buf s2] ih(2)[of "after_token buf s2" c2 s']
      by (auto intro: moves_trans)
  qed
  moreover have "moves buf s s' \<and> words_ok buf c" if "parseexec (Suc n) buf s = Ok (c, s')" for s c s'
    using that
  proof (cases rule: parseexec_cases)
    case (1 m s1)
    then show ?thesis using ih(4)[of s1 c s'] peek_moves[OF 1(2)] by (auto intro: moves_trans)
  next
    case (2 m s1 ret s2)
    then show ?thesis using parseredirs_ok[OF 2(3)] parse_args_ok[OF 2(4)] peek_moves[OF 2(2)] by (auto intro: moves_trans)
  qed
  moreover have "moves buf s s' \<and> words_ok buf c" if "parseblock (Suc n) buf s = Ok (c, s')" for s c s'
    using that
  proof (cases rule: parseblock_cases)
    case (1 m s1 c1 s2 s3)
    then have l: "moves buf (after_token buf s1) s2" "words_ok buf c1" using ih(1)[of "after_token buf s1" c1 s2] by auto
    show ?thesis using parseredirs_ok[OF 1(5) l(2)] moves4[OF peek_moves[OF 1(2)] after_token_moves l(1) peek_moves[OF 1(4)]]
      after_token_moves[of buf s3] by (auto intro: moves_trans)
  qed
  ultimately show ?case by blast
qed simp

lemma parser_returns:
  "(\<forall>s. 4 * (length buf - s) + 4 \<le> n \<longrightarrow> parseline n buf s \<noteq> Hang)
   \<and> (\<forall>s. 4 * (length buf - s) + 3 \<le> n \<longrightarrow> parsepipe n buf s \<noteq> Hang)
   \<and> (\<forall>s. 4 * (length buf - s) + 2 \<le> n \<longrightarrow> parseexec n buf s \<noteq> Hang)
   \<and> (\<forall>s. 4 * (length buf - s) + 1 \<le> n \<longrightarrow> parseblock n buf s \<noteq> Hang)"
proof (induction n)
  case (Suc n)
  note ih = Suc.IH[THEN conjunct1, rule_format] Suc.IH[THEN conjunct2, THEN conjunct1, rule_format]
    Suc.IH[THEN conjunct2, THEN conjunct2, THEN conjunct1, rule_format]
    Suc.IH[THEN conjunct2, THEN conjunct2, THEN conjunct2, rule_format]
  note ok = parser_ok[of n buf, THEN conjunct1, rule_format] parser_ok[of n buf, THEN conjunct2, THEN conjunct1, rule_format]
    parser_ok[of n buf, THEN conjunct2, THEN conjunct2, THEN conjunct1, rule_format]
  have shrink: "4 * (length buf - after_token buf s1) + 4 \<le> 4 * (length buf - s)"
    if "(True, s1) = peek buf s0 toks" "s \<le> s0" for s1 s0 s toks
    using peek_token[OF that(1)] that(2) by auto
  have "parseline (Suc n) buf s \<noteq> Hang" if f: "4 * (length buf - s) + 4 \<le> Suc n" for s
  proof
    assume h: "parseline (Suc n) buf s = Hang"
    have "parsepipe n buf s \<noteq> Hang" by (rule ih(2)) (use f in simp)
    then obtain c1 s1 where 1: "parsepipe n buf s = Ok (c1, s1)" using h by (cases "parsepipe n buf s") auto
    obtain c2 s2 where 2: "parse_amps c1 buf s1 = (c2, s2)" by fastforce
    obtain b s3 where 3: "peek buf s2 [59] = (b, s3)" by fastforce
    have b: "b" "parseline n buf (after_token buf s3) = Hang" using h 1 2 3 by (auto simp: bindR_Hang_iff split: if_splits)
    have "s \<le> s1" "words_ok buf c1" using ok(2)[OF 1] moves_le by auto
    then have "s \<le> s2" using parse_amps_ok[where buf = buf and c = c1 and s = s1] 2 moves_le by fastforce
    then show False using ih(1)[of "after_token buf s3"] b f shrink[of s3 s2 "[59]" s] 3 by simp
  qed
  moreover have "parsepipe (Suc n) buf s \<noteq> Hang" if f: "4 * (length buf - s) + 3 \<le> Suc n" for s
  proof
    assume h: "parsepipe (Suc n) buf s = Hang"
    have "parseexec n buf s \<noteq> Hang" by (rule ih(3)) (use f in simp)
    then obtain c1 s1 where 1: "parseexec n buf s = Ok (c1, s1)" using h by (cases "parseexec n buf s") auto
    obtain b s2 where 2: "peek buf s1 [124] = (b, s2)" by fastforce
    have b: "b" "parsepipe n buf (after_token buf s2) = Hang" using h 1 2 by (auto simp: bindR_Hang_iff split: if_splits)
    have "s \<le> s1" using ok(3)[OF 1] moves_le by blast
    then show False using ih(2)[of "after_token buf s2"] b f shrink[of s2 s1 "[124]" s] 2 by simp
  qed
  moreover have "parseexec (Suc n) buf s \<noteq> Hang" if f: "4 * (length buf - s) + 2 \<le> Suc n" for s
  proof
    assume h: "parseexec (Suc n) buf s = Hang"
    obtain b s1 where 1: "peek buf s [40] = (b, s1)" by fastforce
    have "parseblock n buf s1 \<noteq> Hang" by (rule ih(4)) (use f peek_le[OF 1] in simp)
    then show False using h 1 parseredirs_returns parse_args_returns by (auto simp: bindR_Hang_iff split: if_splits)
  qed
  moreover have "parseblock (Suc n) buf s \<noteq> Hang" if f: "4 * (length buf - s) + 1 \<le> Suc n" for s
  proof
    assume h: "parseblock (Suc n) buf s = Hang"
    obtain b s1 where 1: "peek buf s [40] = (b, s1)" by fastforce
    have b: "b" "parseline n buf (after_token buf s1) = Hang"
      using h 1 parseredirs_returns by (auto simp: bindR_Hang_iff case_prod_beta split: if_splits)
    then show False using ih(1)[of "after_token buf s1"] f shrink[of s1 s "[40]" s] 1 by simp
  qed
  ultimately show ?case by blast
qed simp

definition line_fuel :: "u8 list \<Rightarrow> nat" where "line_fuel buf = 4 * length buf + 4"

section \<open>The strings of a command\<close>

text \<open>A C string in the terminated line, and the words of the line as they were.\<close>

definition string_at :: "u8 list \<Rightarrow> nat \<Rightarrow> u8 list" where
  "string_at buf q = takeWhile (\<lambda>c. c \<noteq> 0) (drop q buf)"

definition piece :: "u8 list \<Rightarrow> nat \<times> nat \<Rightarrow> u8 list" where
  "piece buf = (\<lambda>(q, eq). take (eq - q) (drop q buf))"

lemma nth_update: "i < length xs \<Longrightarrow> xs[e := x] ! i = (if i = e then x else xs ! i)"
  by (cases "e < length xs") auto

lemma fold_terminate:
  "length (fold (\<lambda>(q, eq) b. b[eq := 0]) as buf) = length (buf :: u8 list)"
  "i < length buf \<Longrightarrow> fold (\<lambda>(q, eq) b. b[eq := 0]) as buf ! i = (if \<exists>q. (q, i) \<in> set as then 0 else buf ! i)"
  by (induction as arbitrary: buf) (auto simp: nth_update split: if_splits)

lemma length_nulterminate [simp]: "length (nulterminate c buf) = length buf"
  by (induction c buf rule: nulterminate.induct) (simp_all add: fold_terminate(1))

lemma nth_nulterminate:
  "i < length buf \<Longrightarrow> nulterminate c buf ! i = (if \<exists>q. (q, i) \<in> set_cmd c then 0 else buf ! i)"
  by (induction c buf rule: nulterminate.induct) (auto simp: fold_terminate nth_update)

lemma string_at_eq:
  assumes "q \<le> e" "e \<le> length b" "\<And>i. q \<le> i \<Longrightarrow> i < e \<Longrightarrow> b ! i \<noteq> 0" "e < length b \<Longrightarrow> b ! e = 0"
  shows "string_at b q = take (e - q) (drop q b)"
proof -
  have d: "drop q b = take (e - q) (drop q b) @ drop e b"
    using assms(1) by (metis append_take_drop_id drop_drop le_add_diff_inverse2)
  have t: "\<forall>x\<in>set (take (e - q) (drop q b)). x \<noteq> 0"
    using assms(1-3) by (auto simp: in_set_conv_nth)
  have "takeWhile (\<lambda>c. c \<noteq> 0) (drop e b) = []"
    using assms(2,4) by (cases "e < length b") (auto simp: takeWhile_eq_Nil_iff hd_drop_conv_nth)
  then show ?thesis unfolding string_at_def by (subst d, subst takeWhile_append2) (use t in auto)
qed

lemma terminated_word:
  assumes "words_ok buf c" "0 \<notin> set buf" "(q, e) \<in> set_cmd c"
  shows "string_at (nulterminate c buf) q = piece buf (q, e)"
proof -
  have w: "q < e" "e \<le> length buf" "\<And>i. q \<le> i \<Longrightarrow> i < e \<Longrightarrow> word_char (buf ! i)"
    using assms(1,3) by (auto simp: words_ok_def word_token_def)
  have ends: "\<not> word_char (buf ! e')" if "(q', e') \<in> set_cmd c" "e' < length buf" for q' e'
    using assms(1) that by (auto simp: words_ok_def word_token_def)
  have same: "nulterminate c buf ! i = buf ! i" if "q \<le> i" "i < e" for i
    using nth_nulterminate[of i buf c] w that ends[of _ i] by auto
  have "string_at (nulterminate c buf) q = take (e - q) (drop q (nulterminate c buf))"
  proof (rule string_at_eq)
    show "nulterminate c buf ! i \<noteq> 0" if "q \<le> i" "i < e" for i
      using same[OF that] assms(2) that w(2) by (metis nth_mem order_less_le_trans)
    show "nulterminate c buf ! e = 0" if "e < length (nulterminate c buf)"
      using nth_nulterminate[of e buf c] that assms(3) by force
  qed (use w in auto)
  also have "\<dots> = piece buf (q, e)"
    unfolding piece_def prod.case by (rule nth_equalityI) (use same w(2) in auto)
  finally show ?thesis .
qed

lemma parsecmd_ok:
  assumes "parsecmd n buf = Ok (c, b)"
  shows "words_ok buf c \<and> b = nulterminate c buf"
  using assms parser_ok[of n buf] by (auto simp: parsecmd_def res_iff split: if_splits)

lemma parsecmd_returns: "parsecmd (line_fuel buf) buf \<noteq> Hang"
  using parser_returns[of buf "line_fuel buf"] by (auto simp: parsecmd_def line_fuel_def bindR_Hang_iff split: if_splits)

text \<open>
  C36. The parser of the shell returns on every line, with a syntax error or with a command in
  which no argument vector overflows and every string, as terminated in place, is a non-empty word
  of the line: no terminating NUL falls inside another word.
\<close>

theorem parsecmd_safe:
  assumes "0 \<notin> set buf"
  shows "case parsecmd (line_fuel buf) buf of
      Hang \<Rightarrow> False
    | Panic msg \<Rightarrow> True
    | Ok (c, b) \<Rightarrow> argv_ok c \<and> length b = length buf
        \<and> (\<forall>t\<in>set_cmd c. string_at b (fst t) = piece buf t \<and> piece buf t \<noteq> [] \<and> list_all word_char (piece buf t))"
proof (cases "parsecmd (line_fuel buf) buf")
  case (Ok r)
  obtain c b where r: "r = (c, b)" by fastforce
  have ok: "words_ok buf c" "b = nulterminate c buf" using parsecmd_ok[of "line_fuel buf" buf c b] Ok r by auto
  have "string_at b q = piece buf (q, e) \<and> piece buf (q, e) \<noteq> [] \<and> list_all word_char (piece buf (q, e))"
    if "(q, e) \<in> set_cmd c" for q e
  proof -
    have "word_token buf (q, e)" using ok(1) that by (auto simp: words_ok_def)
    then show ?thesis
      using terminated_word[OF ok(1) assms that] ok(2) by (auto simp: word_token_def piece_def list_all_length)
  qed
  then show ?thesis using Ok r ok by (auto simp: words_ok_def)
qed (use parsecmd_returns in auto)

theorem parsecmd_safe_witness:
  "parsecmd (line_fuel [108, 115, 62, 97]) [108, 115, 62, 97] = Ok (REDIR (EXEC [(0, 2)]) (3, 4) out_mode 1, [108, 115, 0, 97])
   \<and> string_at [108, 115, 0, 97] 0 = [108, 115]"
proof -
  have "parsecmd (line_fuel [108, 115, 62, 97]) [108, 115, 62, 97] = Ok (REDIR (EXEC [(0, 2)]) (3, 4) out_mode 1, [108, 115, 0, 97])"
    by code_simp
  then show ?thesis using parsecmd_safe[of "[108, 115, 62, 97]"] by (auto simp: piece_def)
qed

end
