(* ===== verification/Sh_Print.thy ===== *)
theory Sh_Print
  imports Sh
begin

text \<open>
  The parser of the shell against the grammar of its commands: a syntax tree, printed with one
  space after each word, is parsed back to the command that the tree stands for.
\<close>

section \<open>The syntax and what it means\<close>

text \<open>Redirections are pairs of a kind (60, 62, 43 for \<open><\<close>, \<open>>\<close>, \<open>>>\<close>) and a file name. A simple
  command is its leading redirections and its words, each with the redirections after it.\<close>

type_synonym rd = "u8 \<times> u8 list"

datatype sline = Line spipe nat | Seq spipe nat sline
  and spipe = Stage sexec | Bar sexec spipe
  and sexec = Simple "rd list" "(u8 list \<times> rd list) list" | Group sline "rd list"

definition show_rd :: "rd \<Rightarrow> u8 list" where
  "show_rd = (\<lambda>(k, w). (if k = 43 then [62, 62] else [k]) @ w @ [32])"

definition show_rds :: "rd list \<Rightarrow> u8 list" where
  "show_rds rs = concat (map show_rd rs)"

definition show_words :: "(u8 list \<times> rd list) list \<Rightarrow> u8 list" where
  "show_words ws = concat (map (\<lambda>(w, rs). w @ [32] @ show_rds rs) ws)"

primrec show_line :: "sline \<Rightarrow> u8 list" and show_pipe :: "spipe \<Rightarrow> u8 list" and show_exec :: "sexec \<Rightarrow> u8 list" where
  "show_line (Line p n) = show_pipe p @ replicate n 38"
| "show_line (Seq p n l) = show_pipe p @ replicate n 38 @ [59] @ show_line l"
| "show_pipe (Stage e) = show_exec e"
| "show_pipe (Bar e p) = show_exec e @ [124] @ show_pipe p"
| "show_exec (Simple rs ws) = show_rds rs @ show_words ws"
| "show_exec (Group l rs) = [40] @ show_line l @ [41] @ show_rds rs"

definition with_rds :: "'s cmd \<Rightarrow> (u8 \<times> 's) list \<Rightarrow> 's cmd" where
  "with_rds c rs = foldl (\<lambda>c (k, w). redir k c w) c rs"

definition with_words :: "'s cmd \<Rightarrow> ('s \<times> (u8 \<times> 's) list) list \<Rightarrow> 's cmd" where
  "with_words c ws = foldl (\<lambda>c (w, rs). with_rds (push_arg w c) rs) c ws"

primrec mean_line :: "sline \<Rightarrow> u8 list cmd" and mean_pipe :: "spipe \<Rightarrow> u8 list cmd" and mean_exec :: "sexec \<Rightarrow> u8 list cmd" where
  "mean_line (Line p n) = (BACK ^^ n) (mean_pipe p)"
| "mean_line (Seq p n l) = LIST ((BACK ^^ n) (mean_pipe p)) (mean_line l)"
| "mean_pipe (Stage e) = mean_exec e"
| "mean_pipe (Bar e p) = PIPE (mean_exec e) (mean_pipe p)"
| "mean_exec (Simple rs ws) = with_words (with_rds (EXEC []) rs) ws"
| "mean_exec (Group l rs) = with_rds (mean_line l) rs"

text \<open>Words that can be printed, and at most nine of them in a command.\<close>

definition word_ok :: "u8 list \<Rightarrow> bool" where
  "word_ok w \<longleftrightarrow> w \<noteq> [] \<and> list_all (\<lambda>c. word_char c \<and> c \<noteq> 0) w"

definition rds_ok :: "rd list \<Rightarrow> bool" where
  "rds_ok rs \<longleftrightarrow> list_all (\<lambda>(k, w). k \<in> {60, 62, 43} \<and> word_ok w) rs"

primrec line_ok :: "sline \<Rightarrow> bool" and pipe_ok :: "spipe \<Rightarrow> bool" and exec_ok :: "sexec \<Rightarrow> bool" where
  "line_ok (Line p n) \<longleftrightarrow> pipe_ok p"
| "line_ok (Seq p n l) \<longleftrightarrow> pipe_ok p \<and> line_ok l"
| "pipe_ok (Stage e) \<longleftrightarrow> exec_ok e"
| "pipe_ok (Bar e p) \<longleftrightarrow> exec_ok e \<and> pipe_ok p"
| "exec_ok (Simple rs ws) \<longleftrightarrow> rds_ok rs \<and> list_all (\<lambda>(w, rs). word_ok w \<and> rds_ok rs) ws \<and> length ws < MAXARGS"
| "exec_ok (Group l rs) \<longleftrightarrow> line_ok l \<and> rds_ok rs"

section \<open>What is left of the line\<close>

definition trim :: "u8 list \<Rightarrow> u8 list" where
  "trim = dropWhile (\<lambda>c. c \<in> set whitespace)"

definition rest :: "u8 list \<Rightarrow> nat \<Rightarrow> u8 list" where
  "rest buf s = drop (skip_space buf s) buf"

lemma drop_skip_while: "drop (skip_while P buf s) buf = dropWhile P (drop s buf)"
  by (simp add: skip_while_eq dropWhile_eq_drop add.commute)

lemma drop_skip_space: "drop (skip_space buf s) buf = trim (drop s buf)"
  by (simp add: skip_space_def drop_skip_while trim_def)

lemma rest_eq: "rest buf s = trim (drop s buf)"
  by (simp add: rest_def drop_skip_space)

lemma trim_trim [simp]: "trim (trim xs) = trim xs"
  by (simp add: trim_def dropWhile_idem)

lemma rest_skip [simp]: "rest buf (skip_space buf s) = rest buf s"
  by (simp add: rest_eq drop_skip_space)

text \<open>The next character, 0 at the end.\<close>

definition next_char :: "u8 list \<Rightarrow> u8" where
  "next_char xs = (case trim xs of [] \<Rightarrow> 0 | c # _ \<Rightarrow> c)"

lemma at_or_0_drop: "at_or_0 buf s = (case drop s buf of [] \<Rightarrow> 0 | c # _ \<Rightarrow> c)"
  by (cases "s < length buf") (auto simp: at_or_0_def Cons_nth_drop_Suc[symmetric])

lemma at_skip_space: "at_or_0 buf (skip_space buf s) = (case rest buf s of [] \<Rightarrow> 0 | c # _ \<Rightarrow> c)"
  by (simp add: at_or_0_drop rest_def)

lemma peek_rest:
  assumes "rest buf s = trim xs"
  shows "fst (peek buf s toks) \<longleftrightarrow> next_char xs \<noteq> 0 \<and> next_char xs \<in> set toks" "rest buf (snd (peek buf s toks)) = trim xs"
  using assms by (simp_all add: peek_def Let_def at_skip_space next_char_def)

lemma trim_simps [simp]:
  "trim [] = []" "trim (32 # xs) = trim xs"
  "c \<in> set symbols \<Longrightarrow> trim (c # xs) = c # xs"
  by (auto simp: trim_def whitespace_def symbols_def)

lemma trim_word: "word_ok w \<Longrightarrow> trim (w @ xs) = w @ xs"
  by (cases w) (auto simp: trim_def word_ok_def word_char_def)

lemma symbol_members [simp]:
  "60 \<in> set symbols" "124 \<in> set symbols" "62 \<in> set symbols" "38 \<in> set symbols" "59 \<in> set symbols" "40 \<in> set symbols" "41 \<in> set symbols"
  by (simp_all add: symbols_def)

lemma gettoken_word_rest:
  assumes "rest buf s = w @ r" "word_ok w" "r = [] \<or> \<not> word_char (hd r)"
  shows "\<exists>q e s'. gettoken buf s = (97, q, e, s') \<and> piece buf (q, e) = w \<and> rest buf s' = trim r"
proof -
  let ?q = "skip_space buf s"
  have d: "drop ?q buf = w @ r" using assms(1) by (simp add: rest_def)
  obtain c w' where w: "w = c # w'" "word_char c" "c \<noteq> 0" using assms(2) by (cases w) (auto simp: word_ok_def)
  have c: "at_or_0 buf ?q = c" using d w(1) by (simp add: at_or_0_drop)
  have "takeWhile (\<lambda>c. c \<notin> set whitespace \<and> c \<notin> set symbols) (w @ r) = w"
    using assms(2,3) by (cases r) (auto simp: word_ok_def word_char_def list_all_iff takeWhile_append)
  then have e: "skip_word buf ?q = ?q + length w" by (simp add: skip_word_def skip_while_eq d)
  have "c \<notin> set symbols" using w(2) by (simp add: word_char_def)
  then have "token_at buf ?q = (97, ?q + length w)"
    using c e w(3) by (auto simp: token_at_def Let_def symbols_def)
  moreover have "drop (?q + length w) buf = r" using d by (metis append_eq_conv_conj drop_drop add.commute)
  ultimately show ?thesis using d by (simp add: gettoken_def Let_def rest_eq drop_skip_space piece_def)
qed

lemma gettoken_symbol_rest:
  assumes "rest buf s = c # r" "c \<in> {124, 40, 41, 59, 38, 60}"
  shows "\<exists>q e s'. gettoken buf s = (c, q, e, s') \<and> rest buf s' = trim r"
proof -
  let ?q = "skip_space buf s"
  have d: "drop ?q buf = c # r" using assms(1) by (simp add: rest_def)
  then have "at_or_0 buf ?q = c" by (simp add: at_or_0_drop)
  moreover have "drop (?q + 1) buf = r" using d by (metis Suc_eq_plus1 drop_Suc list.sel(3) tl_drop)
  ultimately show ?thesis using assms(2) by (auto simp: gettoken_def token_at_def Let_def rest_eq drop_skip_space)
qed

lemma gettoken_output_rest:
  assumes "rest buf s = 62 # r" "r = [] \<or> hd r \<noteq> 62"
  shows "\<exists>q e s'. gettoken buf s = (62, q, e, s') \<and> rest buf s' = trim r"
proof -
  let ?q = "skip_space buf s"
  have d: "drop ?q buf = 62 # r" using assms(1) by (simp add: rest_def)
  then have c: "at_or_0 buf ?q = 62" by (simp add: at_or_0_drop)
  have r: "drop (Suc ?q) buf = r" using d by (metis drop_Suc list.sel(3) tl_drop)
  then have "at_or_0 buf (Suc ?q) \<noteq> 62" using assms(2) by (auto simp: at_or_0_drop split: list.split)
  then show ?thesis using c r by (simp add: gettoken_def token_at_def Let_def rest_eq drop_skip_space)
qed

lemma gettoken_append_rest:
  assumes "rest buf s = 62 # 62 # r"
  shows "\<exists>q e s'. gettoken buf s = (43, q, e, s') \<and> rest buf s' = trim r"
proof -
  let ?q = "skip_space buf s"
  have d: "drop ?q buf = 62 # 62 # r" using assms(1) by (simp add: rest_def)
  then have c: "at_or_0 buf ?q = 62" by (simp add: at_or_0_drop)
  have r1: "drop (Suc ?q) buf = 62 # r" using d by (metis drop_Suc list.sel(3) tl_drop)
  then have c1: "at_or_0 buf (Suc ?q) = 62" by (simp add: at_or_0_drop)
  have r2: "drop (Suc (Suc ?q)) buf = r" using r1 by (metis drop_Suc list.sel(3) tl_drop)
  then show ?thesis using c c1 by (simp add: gettoken_def token_at_def Let_def rest_eq drop_skip_space)
qed

section \<open>Redirections and words\<close>

abbreviation texts :: "u8 list \<Rightarrow> tcmd \<Rightarrow> u8 list cmd" where
  "texts buf \<equiv> map_cmd (piece buf)"

lemma map_redir: "map_cmd f (redir k c w) = redir k (map_cmd f c) (f w)"
  by (simp add: redir_def)

lemma map_push_arg: "map_cmd f (push_arg w c) = push_arg (f w) (map_cmd f c)"
  by (induction w c rule: push_arg.induct) auto

lemma show_rds_simps [simp]: "show_rds [] = []" "show_rds (r # rs) = show_rd r @ show_rds rs"
  by (simp_all add: show_rds_def)

lemma show_words_simps [simp]:
  "show_words [] = []" "show_words ((w, rs) # ws) = w @ [32] @ show_rds rs @ show_words ws"
  by (simp_all add: show_words_def)

lemma with_simps [simp]:
  "with_rds c [] = c" "with_rds c ((k, w) # rs) = with_rds (redir k c w) rs"
  "with_words c [] = c" "with_words c ((w, rs) # ws) = with_words (with_rds (push_arg w c) rs) ws"
  by (simp_all add: with_rds_def with_words_def)

lemma next_char_simps [simp]:
  "next_char [] = 0" "next_char (32 # xs) = next_char xs" "c \<in> set symbols \<Longrightarrow> next_char (c # xs) = c"
  by (simp_all add: next_char_def)

lemma gettoken_rd:
  assumes "rest buf s = show_rd (k, w) @ post" "k \<in> {60, 62, 43}" "word_ok w"
  shows "\<exists>x y s1. gettoken buf s = (k, x, y, s1) \<and> rest buf s1 = w @ [32] @ post"
proof -
  have t: "trim (w @ [32] @ post) = w @ [32] @ post" by (rule trim_word[OF assms(3)])
  have h: "hd (w @ [32] @ post) \<noteq> 62" using assms(3) by (cases w) (auto simp: word_ok_def word_char_def symbols_def)
  consider "k = 60" | "k = 62" | "k = 43" using assms(2) by auto
  then show ?thesis
  proof cases
    case 1
    then show ?thesis using gettoken_symbol_rest[of buf s 60 "w @ [32] @ post"] assms(1) t by (simp add: show_rd_def)
  next
    case 2
    then show ?thesis using gettoken_output_rest[of buf s "w @ [32] @ post"] assms(1) t h by (simp add: show_rd_def)
  next
    case 3
    then show ?thesis using gettoken_append_rest[of buf s "w @ [32] @ post"] assms(1) t by (simp add: show_rd_def)
  qed
qed

lemma trim_show_rd: "k \<in> {60, 62, 43} \<Longrightarrow> trim (show_rd (k, w) @ xs) = show_rd (k, w) @ xs"
  by (auto simp: show_rd_def)

lemma space_no_word: "\<not> word_char 32"
  by (simp add: word_char_def whitespace_def)

lemma parseredirs_show:
  "rest buf s = trim (show_rds rs @ post) \<Longrightarrow> rds_ok rs \<Longrightarrow> next_char post \<notin> {60, 62} \<Longrightarrow>
     \<exists>c' s'. parseredirs c buf s = Ok (c', s') \<and> texts buf c' = with_rds (texts buf c) rs \<and> rest buf s' = trim post"
proof (induction rs arbitrary: c s)
  case Nil
  then show ?case
    using peek_rest[of buf s post "[60, 62]"] by (auto simp: parseredirs.simps[of c buf s] case_prod_beta)
next
  case (Cons r rs)
  obtain k w where r: "r = (k, w)" "k \<in> {60, 62, 43}" "word_ok w" using Cons.prems(2) by (cases r) (auto simp: rds_ok_def)
  have rs_ok: "rds_ok rs" using Cons.prems(2) by (simp add: rds_ok_def)
  let ?post = "show_rds rs @ post"
  have rs: "rest buf s = show_rd (k, w) @ ?post" using Cons.prems(1) r trim_show_rd[OF r(2)] by simp
  have "next_char (show_rd (k, w) @ ?post) \<in> {60, 62}" using r(2) by (auto simp: show_rd_def)
  then have p: "fst (peek buf s [60, 62])" "rest buf (snd (peek buf s [60, 62])) = show_rd (k, w) @ ?post"
    using peek_rest[of buf s "show_rd (k, w) @ ?post" "[60, 62]"] rs trim_show_rd[OF r(2)] by auto
  obtain x y s1 where g: "gettoken buf (snd (peek buf s [60, 62])) = (k, x, y, s1)" "rest buf s1 = w @ [32] @ ?post"
    using gettoken_rd[OF p(2) r(2,3)] by blast
  obtain q e s2 where g2: "gettoken buf s1 = (97, q, e, s2)" "piece buf (q, e) = w" "rest buf s2 = trim ?post"
    using gettoken_word_rest[of buf s1 w "[32] @ ?post"] g(2) r(3) space_no_word by auto
  have "parseredirs c buf s = parseredirs (redir k c (q, e)) buf s2"
    using p(1) g(1) g2(1) by (simp add: parseredirs.simps[of c buf s] case_prod_beta)
  moreover obtain c' s' where "parseredirs (redir k c (q, e)) buf s2 = Ok (c', s')"
    "texts buf c' = with_rds (texts buf (redir k c (q, e))) rs" "rest buf s' = trim post"
    using Cons.IH[OF g2(3) rs_ok Cons.prems(3)] by blast
  ultimately show ?case using r(1) g2(2) by (simp add: map_redir)
qed

text \<open>What follows a command ends it: nothing, or one of the characters \<open>T\<close>.\<close>

definition ends :: "u8 set \<Rightarrow> u8 list \<Rightarrow> bool" where
  "ends T post \<longleftrightarrow> trim post = [] \<or> next_char post \<in> T"

lemma next_char_word: "word_ok w \<Longrightarrow> next_char (w @ xs) = hd w \<and> word_char (hd w) \<and> hd w \<noteq> 0"
  by (cases w) (auto simp: next_char_def trim_word[of w xs] trim_def word_ok_def word_char_def)

lemma next_char_rd: "next_char (show_rd (k, w) @ xs) = (if k = 43 then 62 else k)" if "k \<in> {60, 62, 43}"
  using that by (auto simp: show_rd_def)

lemma next_char_rds: "rds_ok rs \<Longrightarrow> next_char (show_rds rs @ xs) \<in> {60, 62, next_char xs}"
  by (cases rs) (auto simp: rds_ok_def next_char_rd)

lemma next_char_words:
  "list_all (\<lambda>(w, rs). word_ok w \<and> rds_ok rs) ws \<Longrightarrow>
     next_char (show_words ws @ xs) = next_char xs \<and> ws = [] \<or> word_char (next_char (show_words ws @ xs))"
  by (cases ws) (auto simp: next_char_word)

lemma word_char_no_symbol: "word_char c \<Longrightarrow> c \<notin> {60, 124, 62, 38, 59, 40, 41}"
  by (auto simp: word_char_def symbols_def)

lemma ends_next: "ends T post \<Longrightarrow> next_char post \<in> insert 0 T"
  by (auto simp: ends_def next_char_def)

lemma gettoken_end:
  assumes "rest buf s = []"
  shows "\<exists>q e s'. gettoken buf s = (0, q, e, s') \<and> rest buf s' = []"
proof -
  have "at_or_0 buf (skip_space buf s) = 0" using assms by (simp add: at_skip_space)
  then have "gettoken buf s = (0, skip_space buf s, skip_space buf s, skip_space buf (skip_space buf s))"
    by (simp add: gettoken_def token_at_def Let_def)
  then show ?thesis using assms by simp
qed

lemma parse_args_show:
  "rest buf s = trim (show_words ws @ post) \<Longrightarrow> list_all (\<lambda>(w, rs). word_ok w \<and> rds_ok rs) ws \<Longrightarrow>
     argc + length ws < MAXARGS \<Longrightarrow> ends {124, 41, 38, 59} post \<Longrightarrow>
     \<exists>c' s'. parse_args ret argc buf s = Ok (c', s') \<and> texts buf c' = with_words (texts buf ret) ws \<and> rest buf s' = trim post"
proof (induction ws arbitrary: ret argc s)
  case Nil
  let ?p = "peek buf s [124, 41, 38, 59]"
  have p: "fst ?p \<longleftrightarrow> next_char post \<noteq> 0 \<and> next_char post \<in> {124, 41, 38, 59}" "rest buf (snd ?p) = trim post"
    using peek_rest[of buf s post "[124, 41, 38, 59]"] Nil.prems(1) by auto
  show ?case
  proof (cases "fst ?p")
    case True
    then show ?thesis using p by (simp add: parse_args.simps[of ret argc buf s] case_prod_beta)
  next
    case False
    then have "trim post = []" using p(1) Nil.prems(4) by (auto simp: ends_def)
    then obtain q e s2 where "gettoken buf (snd ?p) = (0, q, e, s2)" "rest buf s2 = trim post"
      using gettoken_end[of buf "snd ?p"] p(2) by auto
    then show ?thesis using False by (simp add: parse_args.simps[of ret argc buf s] case_prod_beta)
  qed
next
  case (Cons wr ws)
  obtain w rs where wr: "wr = (w, rs)" "word_ok w" "rds_ok rs" using Cons.prems(2) by (cases wr) auto
  have wsok: "list_all (\<lambda>(w, rs). word_ok w \<and> rds_ok rs) ws" using Cons.prems(2) by simp
  let ?post = "show_rds rs @ show_words ws @ post"
  let ?p = "peek buf s [124, 41, 38, 59]"
  have all: "show_words (wr # ws) @ post = w @ [32] @ ?post" using wr by simp
  have r: "rest buf s = trim (w @ [32] @ ?post)" using Cons.prems(1) unfolding all .
  have nc: "next_char (w @ [32] @ ?post) = hd w" "word_char (hd w)" using next_char_word[OF wr(2)] by auto
  have p: "\<not> fst ?p" "rest buf (snd ?p) = w @ [32] @ ?post"
    using peek_rest[OF r, of "[124, 41, 38, 59]"] nc word_char_no_symbol[OF nc(2)] trim_word[OF wr(2)] by auto
  obtain q e s2 where g: "gettoken buf (snd ?p) = (97, q, e, s2)" "piece buf (q, e) = w" "rest buf s2 = trim ?post"
    using gettoken_word_rest[OF p(2) wr(2)] space_no_word by auto
  have "next_char (show_words ws @ post) \<notin> {60, 62}"
    using next_char_words[OF wsok, of post] ends_next[OF Cons.prems(4)] word_char_no_symbol by auto
  from parseredirs_show[OF g(3) wr(3) this] obtain c2 s3 where
    rd: "parseredirs (push_arg (q, e) ret) buf s2 = Ok (c2, s3)"
    "texts buf c2 = with_rds (texts buf (push_arg (q, e) ret)) rs" "rest buf s3 = trim (show_words ws @ post)" by blast
  have "argc + 1 + length ws < MAXARGS" using Cons.prems(3) by simp
  from Cons.IH[OF rd(3) wsok this Cons.prems(4)] obtain c' s' where
    "parse_args c2 (argc + 1) buf s3 = Ok (c', s')" "texts buf c' = with_words (texts buf c2) ws" "rest buf s' = trim post" by blast
  moreover have "\<not> MAXARGS \<le> argc + 1" using Cons.prems(3) by simp
  ultimately show ?case using p(1) g rd wr(1)
    by (simp add: parse_args.simps[of ret argc buf s] case_prod_beta map_push_arg)
qed

lemma parse_amps_show:
  "rest buf s = trim (replicate n 38 @ post) \<Longrightarrow> next_char post \<noteq> 38 \<Longrightarrow>
     \<exists>s'. parse_amps c buf s = ((BACK ^^ n) c, s') \<and> rest buf s' = trim post"
proof (induction n arbitrary: c s)
  case 0
  then show ?case using peek_rest[of buf s post "[38]"] by (auto simp: parse_amps.simps[of c buf s] case_prod_beta)
next
  case (Suc n)
  let ?p = "peek buf s [38]"
  have p: "fst ?p" "rest buf (snd ?p) = 38 # replicate n 38 @ post"
    using peek_rest[of buf s "38 # replicate n 38 @ post" "[38]"] Suc.prems(1) by auto
  obtain q e s1 where "gettoken buf (snd ?p) = (38, q, e, s1)" "rest buf s1 = trim (replicate n 38 @ post)"
    using gettoken_symbol_rest[OF p(2)] by auto
  then show ?case using Suc.IH[of s1 "BACK c"] Suc.prems(2) p(1)
    by (auto simp: parse_amps.simps[of c buf s] case_prod_beta funpow_Suc_right simp del: funpow.simps)
qed

lemma map_back: "map_cmd f ((BACK ^^ n) c) = (BACK ^^ n) (map_cmd f c)"
  by (induction n) auto

section \<open>Commands\<close>

lemma symbol_step:
  assumes "rest buf s = trim (c # r)" "c \<in> {124, 40, 41, 59, 38, 60}" "c \<in> set toks"
  shows "\<exists>s1. peek buf s toks = (True, s1) \<and> rest buf s1 = c # r \<and> rest buf (after_token buf s1) = trim r"
proof -
  have c: "c \<in> set symbols" "c \<noteq> 0" using assms(2) by auto
  have p: "fst (peek buf s toks)" "rest buf (snd (peek buf s toks)) = c # r"
    using peek_rest[OF assms(1), of toks] assms(3) c by auto
  then show ?thesis using gettoken_symbol_rest[OF p(2) assms(2)] by (intro exI[of _ "snd (peek buf s toks)"]) (auto simp: prod_eq_iff)
qed

lemma no_symbol_step:
  assumes "rest buf s = trim post" "next_char post \<notin> set toks"
  shows "\<exists>s1. peek buf s toks = (False, s1) \<and> rest buf s1 = trim post"
  using peek_rest[OF assms(1), of toks] assms(2) by (intro exI[of _ "snd (peek buf s toks)"]) (auto simp: prod_eq_iff)

text \<open>With enough fuel, a parser reads what was printed and stops before \<open>post\<close>.\<close>

definition reads :: "(nat \<Rightarrow> u8 list \<Rightarrow> nat \<Rightarrow> (tcmd \<times> nat) res) \<Rightarrow> u8 list \<Rightarrow> u8 list cmd \<Rightarrow> u8 set \<Rightarrow> bool" where
  "reads prs tx c T \<longleftrightarrow> (\<forall>buf s post. rest buf s = trim (tx @ post) \<longrightarrow> ends T post \<longrightarrow>
     (\<exists>n0 c' s'. texts buf c' = c \<and> rest buf s' = trim post \<and> (\<forall>n\<ge>n0. prs n buf s = Ok (c', s'))))"

lemma readsD:
  "reads prs tx c T \<Longrightarrow> rest buf s = trim (tx @ post) \<Longrightarrow> ends T post \<Longrightarrow>
     \<exists>n0 c' s'. texts buf c' = c \<and> rest buf s' = trim post \<and> (\<forall>n\<ge>n0. prs n buf s = Ok (c', s'))"
  by (simp add: reads_def)

lemma readsI:
  assumes "\<And>buf s post. rest buf s = trim (tx @ post) \<Longrightarrow> ends T post \<Longrightarrow>
     \<exists>n0 c' s'. texts buf c' = c \<and> rest buf s' = trim post \<and> (\<forall>n\<ge>n0. prs (Suc n) buf s = Ok (c', s'))"
  shows "reads prs tx c T"
  unfolding reads_def
proof (intro allI impI)
  fix buf s post
  assume "rest buf s = trim (tx @ post)" "ends T post"
  from assms[OF this] obtain n0 c' s' where a: "texts buf c' = c" "rest buf s' = trim post"
    "\<And>n. n \<ge> n0 \<Longrightarrow> prs (Suc n) buf s = Ok (c', s')" by blast
  then have "prs n buf s = Ok (c', s')" if "n \<ge> Suc n0" for n using that by (cases n) auto
  then show "\<exists>n0 c' s'. texts buf c' = c \<and> rest buf s' = trim post \<and> (\<forall>n\<ge>n0. prs n buf s = Ok (c', s'))" using a by blast
qed

lemma ends_symbol: "c \<in> set symbols \<Longrightarrow> c \<in> T \<Longrightarrow> ends T (c # xs)"
  by (simp add: ends_def)

lemma reads_simple:
  assumes "exec_ok (Simple rs ws)"
  shows "reads parseexec (show_exec (Simple rs ws)) (mean_exec (Simple rs ws)) {124, 41, 38, 59}"
proof (rule readsI)
  fix buf s post
  assume r: "rest buf s = trim (show_exec (Simple rs ws) @ post)" and e: "ends {124, 41, 38, 59} post"
  have ok: "rds_ok rs" "list_all (\<lambda>(w, rs). word_ok w \<and> rds_ok rs) ws" "0 + length ws < MAXARGS" using assms by auto
  let ?post = "show_words ws @ post"
  have r': "rest buf s = trim (show_rds rs @ ?post)" using r by simp
  have w: "next_char ?post \<notin> {60, 62, 40}"
    using next_char_words[OF ok(2), of post] ends_next[OF e] word_char_no_symbol by auto
  then have "next_char (show_rds rs @ ?post) \<notin> set [40]" using next_char_rds[OF ok(1), of ?post] by auto
  from no_symbol_step[OF r' this] obtain s1 where p: "peek buf s [40] = (False, s1)" "rest buf s1 = trim (show_rds rs @ ?post)" by blast
  obtain c1 s2 where rd: "parseredirs (EXEC []) buf s1 = Ok (c1, s2)" "texts buf c1 = with_rds (EXEC []) rs" "rest buf s2 = trim ?post"
    using parseredirs_show[OF p(2) ok(1), of "EXEC []"] w by auto
  obtain c2 s3 where "parse_args c1 0 buf s2 = Ok (c2, s3)" "texts buf c2 = with_words (texts buf c1) ws" "rest buf s3 = trim post"
    using parse_args_show[OF rd(3) ok(2,3) e] by blast
  then show "\<exists>n0 c' s'. texts buf c' = mean_exec (Simple rs ws) \<and> rest buf s' = trim post
      \<and> (\<forall>n\<ge>n0. parseexec (Suc n) buf s = Ok (c', s'))"
    using p(1) rd(1,2) by (intro exI[of _ 0] exI[of _ c2] exI[of _ s3]) simp
qed

lemma reads_group:
  assumes l: "reads parseline (show_line l) (mean_line l) {41}" and rs: "rds_ok rs"
  shows "reads parseexec (show_exec (Group l rs)) (mean_exec (Group l rs)) {124, 41, 38, 59}"
proof (rule readsI)
  fix buf s post
  assume r: "rest buf s = trim (show_exec (Group l rs) @ post)" and e: "ends {124, 41, 38, 59} post"
  let ?post = "show_rds rs @ post"
  have r': "rest buf s = trim (40 # show_line l @ 41 # ?post)" using r by simp
  obtain s1 where p: "peek buf s [40] = (True, s1)" "rest buf s1 = trim (40 # show_line l @ 41 # ?post)"
    using symbol_step[OF r', of "[40]"] by auto
  from symbol_step[OF p(2), of "[40]"] obtain s2 where q: "peek buf s1 [40] = (True, s2)"
    "rest buf (after_token buf s2) = trim (show_line l @ 41 # ?post)" by auto
  have "ends {41} (41 # ?post)" by (simp add: ends_symbol)
  from readsD[OF l q(2) this] obtain n0 c1 s3 where c1: "texts buf c1 = mean_line l" "rest buf s3 = trim (41 # ?post)"
    "\<forall>n\<ge>n0. parseline n buf (after_token buf s2) = Ok (c1, s3)" by blast
  obtain s4 where s4: "peek buf s3 [41] = (True, s4)" "rest buf (after_token buf s4) = trim ?post"
    using symbol_step[OF c1(2), of "[41]"] by auto
  have "next_char post \<notin> {60, 62}" using ends_next[OF e] by auto
  from parseredirs_show[OF s4(2) rs this, of c1] obtain c2 s5 where
    c2: "parseredirs c1 buf (after_token buf s4) = Ok (c2, s5)" "texts buf c2 = with_rds (texts buf c1) rs" "rest buf s5 = trim post" by blast
  have "parseexec (Suc n) buf s = Ok (c2, s5)" if "n \<ge> Suc n0" for n
    using that p(1) q(1) c1(3) s4(1) c2(1) by (cases n) auto
  then show "\<exists>n0 c' s'. texts buf c' = mean_exec (Group l rs) \<and> rest buf s' = trim post
      \<and> (\<forall>n\<ge>n0. parseexec (Suc n) buf s = Ok (c', s'))"
    using c1(1) c2(2,3) by (intro exI[of _ "Suc n0"] exI[of _ c2] exI[of _ s5]) simp
qed

lemma reads_stage:
  assumes x: "reads parseexec (show_exec x) (mean_exec x) {124, 41, 38, 59}"
  shows "reads parsepipe (show_pipe (Stage x)) (mean_pipe (Stage x)) {41, 38, 59}"
proof (rule readsI)
  fix buf s post
  assume r: "rest buf s = trim (show_pipe (Stage x) @ post)" and e: "ends {41, 38, 59} post"
  have e': "ends {124, 41, 38, 59} post" using e by (auto simp: ends_def)
  from readsD[OF x r[unfolded show_pipe.simps] e'] obtain n0 c1 s1 where
    c1: "texts buf c1 = mean_exec x" "rest buf s1 = trim post" "\<forall>n\<ge>n0. parseexec n buf s = Ok (c1, s1)" by blast
  have "next_char post \<notin> set [124]" using ends_next[OF e] by auto
  from no_symbol_step[OF c1(2) this] obtain s2 where "peek buf s1 [124] = (False, s2)" "rest buf s2 = trim post" by blast
  then show "\<exists>n0 c' s'. texts buf c' = mean_pipe (Stage x) \<and> rest buf s' = trim post
      \<and> (\<forall>n\<ge>n0. parsepipe (Suc n) buf s = Ok (c', s'))"
    using c1 by (intro exI[of _ n0] exI[of _ c1] exI[of _ s2]) simp
qed

lemma reads_bar:
  assumes x: "reads parseexec (show_exec x) (mean_exec x) {124, 41, 38, 59}"
    and p: "reads parsepipe (show_pipe p) (mean_pipe p) {41, 38, 59}"
  shows "reads parsepipe (show_pipe (Bar x p)) (mean_pipe (Bar x p)) {41, 38, 59}"
proof (rule readsI)
  fix buf s post
  assume r: "rest buf s = trim (show_pipe (Bar x p) @ post)" and e: "ends {41, 38, 59} post"
  let ?post = "124 # show_pipe p @ post"
  have r': "rest buf s = trim (show_exec x @ ?post)" using r by simp
  have "ends {124, 41, 38, 59} ?post" by (simp add: ends_symbol)
  from readsD[OF x r' this] obtain n0 c1 s1 where c1: "texts buf c1 = mean_exec x" "rest buf s1 = trim ?post"
    "\<forall>n\<ge>n0. parseexec n buf s = Ok (c1, s1)" by blast
  obtain s2 where s2: "peek buf s1 [124] = (True, s2)" "rest buf (after_token buf s2) = trim (show_pipe p @ post)"
    using symbol_step[OF c1(2), of "[124]"] by auto
  from readsD[OF p s2(2) e] obtain n1 c2 s3 where c2: "texts buf c2 = mean_pipe p" "rest buf s3 = trim post"
    "\<forall>n\<ge>n1. parsepipe n buf (after_token buf s2) = Ok (c2, s3)" by blast
  show "\<exists>n0 c' s'. texts buf c' = mean_pipe (Bar x p) \<and> rest buf s' = trim post
      \<and> (\<forall>n\<ge>n0. parsepipe (Suc n) buf s = Ok (c', s'))"
    using c1 s2(1) c2 by (intro exI[of _ "max n0 n1"] exI[of _ "PIPE c1 c2"] exI[of _ s3]) simp
qed

lemma reads_line:
  assumes p: "reads parsepipe (show_pipe p) (mean_pipe p) {41, 38, 59}"
  shows "reads parseline (show_line (Line p k)) (mean_line (Line p k)) {41}"
proof (rule readsI)
  fix buf s post
  assume r: "rest buf s = trim (show_line (Line p k) @ post)" and e: "ends {41} post"
  let ?post = "replicate k 38 @ post"
  have r': "rest buf s = trim (show_pipe p @ ?post)" using r by simp
  have "ends {41, 38, 59} ?post" using e by (cases k) (auto simp: ends_symbol, auto simp: ends_def)
  from readsD[OF p r' this] obtain n0 c1 s1 where c1: "texts buf c1 = mean_pipe p" "rest buf s1 = trim ?post"
    "\<forall>n\<ge>n0. parsepipe n buf s = Ok (c1, s1)" by blast
  have "next_char post \<noteq> 38" "next_char post \<notin> set [59]" using ends_next[OF e] by auto
  with parse_amps_show[OF c1(2), of c1] obtain s2 where s2: "parse_amps c1 buf s1 = ((BACK ^^ k) c1, s2)" "rest buf s2 = trim post" by blast
  with no_symbol_step[of buf s2 post "[59]"] \<open>next_char post \<notin> set [59]\<close>
  obtain s3 where s3: "peek buf s2 [59] = (False, s3)" "rest buf s3 = trim post" by blast
  show "\<exists>n0 c' s'. texts buf c' = mean_line (Line p k) \<and> rest buf s' = trim post
      \<and> (\<forall>n\<ge>n0. parseline (Suc n) buf s = Ok (c', s'))"
    using c1 s2(1) s3 by (intro exI[of _ n0] exI[of _ "(BACK ^^ k) c1"] exI[of _ s3]) (simp add: map_back)
qed

lemma reads_seq:
  assumes p: "reads parsepipe (show_pipe p) (mean_pipe p) {41, 38, 59}"
    and l: "reads parseline (show_line l) (mean_line l) {41}"
  shows "reads parseline (show_line (Seq p k l)) (mean_line (Seq p k l)) {41}"
proof (rule readsI)
  fix buf s post
  assume r: "rest buf s = trim (show_line (Seq p k l) @ post)" and e: "ends {41} post"
  let ?rest = "59 # show_line l @ post"
  let ?post = "replicate k 38 @ ?rest"
  have r': "rest buf s = trim (show_pipe p @ ?post)" using r by simp
  have "ends {41, 38, 59} ?post" by (cases k) (auto simp: ends_symbol)
  from readsD[OF p r' this] obtain n0 c1 s1 where c1: "texts buf c1 = mean_pipe p" "rest buf s1 = trim ?post"
    "\<forall>n\<ge>n0. parsepipe n buf s = Ok (c1, s1)" by blast
  have "next_char ?rest \<noteq> 38" by simp
  with parse_amps_show[OF c1(2), of c1] obtain s2 where s2: "parse_amps c1 buf s1 = ((BACK ^^ k) c1, s2)" "rest buf s2 = trim ?rest" by blast
  obtain s3 where s3: "peek buf s2 [59] = (True, s3)" "rest buf (after_token buf s3) = trim (show_line l @ post)"
    using symbol_step[OF s2(2), of "[59]"] by auto
  from readsD[OF l s3(2) e] obtain n1 c2 s4 where c2: "texts buf c2 = mean_line l" "rest buf s4 = trim post"
    "\<forall>n\<ge>n1. parseline n buf (after_token buf s3) = Ok (c2, s4)" by blast
  show "\<exists>n0 c' s'. texts buf c' = mean_line (Seq p k l) \<and> rest buf s' = trim post
      \<and> (\<forall>n\<ge>n0. parseline (Suc n) buf s = Ok (c', s'))"
    using c1 s2(1) s3(1) c2
    by (intro exI[of _ "max n0 n1"] exI[of _ "LIST ((BACK ^^ k) c1) c2"] exI[of _ s4]) (simp add: map_back)
qed

lemma reads_all:
  "line_ok l \<Longrightarrow> reads parseline (show_line l) (mean_line l) {41}"
  "pipe_ok p \<Longrightarrow> reads parsepipe (show_pipe p) (mean_pipe p) {41, 38, 59}"
  "exec_ok x \<Longrightarrow> reads parseexec (show_exec x) (mean_exec x) {124, 41, 38, 59}"
proof (induction l and p and x)
  case (Simple rs ws)
  then show ?case by (rule reads_simple)
qed (use reads_line reads_seq reads_stage reads_bar reads_group in auto)

section \<open>More fuel\<close>

lemma bindR_more:
  assumes "bindR a f \<noteq> Hang" "a \<noteq> Hang \<Longrightarrow> a' = a" "\<And>x. a = Ok x \<Longrightarrow> f x \<noteq> Hang \<Longrightarrow> g x = f x"
  shows "bindR a' g = bindR a f"
  using assms by (cases a) auto

lemma parser_more:
  "(\<forall>s. parseline n buf s \<noteq> Hang \<longrightarrow> parseline (Suc n) buf s = parseline n buf s)
   \<and> (\<forall>s. parsepipe n buf s \<noteq> Hang \<longrightarrow> parsepipe (Suc n) buf s = parsepipe n buf s)
   \<and> (\<forall>s. parseexec n buf s \<noteq> Hang \<longrightarrow> parseexec (Suc n) buf s = parseexec n buf s)
   \<and> (\<forall>s. parseblock n buf s \<noteq> Hang \<longrightarrow> parseblock (Suc n) buf s = parseblock n buf s)"
proof (induction n)
  case (Suc n)
  note ih = Suc.IH[THEN conjunct1, rule_format] Suc.IH[THEN conjunct2, THEN conjunct1, rule_format]
    Suc.IH[THEN conjunct2, THEN conjunct2, THEN conjunct1, rule_format]
    Suc.IH[THEN conjunct2, THEN conjunct2, THEN conjunct2, rule_format]
  have "parseline (Suc (Suc n)) buf s = parseline (Suc n) buf s" if "parseline (Suc n) buf s \<noteq> Hang" for s
    unfolding parseline.simps(2)[of "Suc n" buf s] parseline.simps(2)[of n buf s]
    by (rule bindR_more[OF that[unfolded parseline.simps(2)[of n buf s]] ih(2)], assumption)
       (auto simp del: parseline.simps parsepipe.simps split: prod.splits if_splits intro!: bindR_more ih(1))
  moreover have "parsepipe (Suc (Suc n)) buf s = parsepipe (Suc n) buf s" if "parsepipe (Suc n) buf s \<noteq> Hang" for s
    unfolding parsepipe.simps(2)[of "Suc n" buf s] parsepipe.simps(2)[of n buf s]
    by (rule bindR_more[OF that[unfolded parsepipe.simps(2)[of n buf s]] ih(3)], assumption)
       (auto simp del: parseline.simps parsepipe.simps split: prod.splits if_splits intro!: bindR_more ih(2))
  moreover have "parseexec (Suc (Suc n)) buf s = parseexec (Suc n) buf s" if "parseexec (Suc n) buf s \<noteq> Hang" for s
    using that ih(4) unfolding parseexec.simps(2)[of "Suc n" buf s] parseexec.simps(2)[of n buf s]
    by (auto simp del: parseblock.simps split: prod.splits if_splits)
  moreover have "parseblock (Suc (Suc n)) buf s = parseblock (Suc n) buf s" if "parseblock (Suc n) buf s \<noteq> Hang" for s
    using that unfolding parseblock.simps(2)[of "Suc n" buf s] parseblock.simps(2)[of n buf s]
    by (auto simp del: parseline.simps parsepipe.simps split: prod.splits if_splits intro!: bindR_more ih(1))
  ultimately show ?case by blast
qed simp

lemma parseline_more:
  assumes "parseline n buf s \<noteq> Hang" "n \<le> m"
  shows "parseline m buf s = parseline n buf s"
  using assms(2)
proof (induction m rule: dec_induct)
  case (step m)
  then show ?case using parser_more[of m buf] assms(1) by auto
qed simp

section \<open>Printing and parsing\<close>

lemma no_nul_rd: "k \<in> {60, 62, 43} \<Longrightarrow> word_ok w \<Longrightarrow> 0 \<notin> set (show_rd (k, w))"
  by (auto simp: show_rd_def word_ok_def list_all_iff)

lemma no_nul_rds: "rds_ok rs \<Longrightarrow> 0 \<notin> set (show_rds rs)"
  by (induction rs) (use no_nul_rd in \<open>auto simp: rds_ok_def\<close>)

lemma no_nul_words: "list_all (\<lambda>(w, rs). word_ok w \<and> rds_ok rs) ws \<Longrightarrow> 0 \<notin> set (show_words ws)"
  by (induction ws) (use no_nul_rds in \<open>auto simp: word_ok_def list_all_iff\<close>)

lemma no_nul_line:
  "line_ok l \<Longrightarrow> 0 \<notin> set (show_line l)" "pipe_ok p \<Longrightarrow> 0 \<notin> set (show_pipe p)" "exec_ok x \<Longrightarrow> 0 \<notin> set (show_exec x)"
  by (induction l and p and x) (use no_nul_rds no_nul_words in auto)

definition blank :: "u8 list \<Rightarrow> bool" where
  "blank ws \<longleftrightarrow> list_all (\<lambda>c. c \<in> set whitespace) ws"

lemma trim_blank: "blank ws \<Longrightarrow> trim ws = []"
  by (simp add: blank_def trim_def list_all_iff)

lemma no_nul_shown: "line_ok l \<Longrightarrow> blank ws \<Longrightarrow> 0 \<notin> set (show_line l @ ws)"
  using no_nul_line(1)[of l] by (auto simp: blank_def list_all_iff whitespace_def)

lemma parseline_show:
  assumes "line_ok l" "blank ws"
  defines "buf \<equiv> show_line l @ ws"
  shows "\<exists>c s. parseline (line_fuel buf) buf 0 = Ok (c, s) \<and> texts buf c = mean_line l \<and> rest buf s = []"
proof -
  have "rest buf 0 = trim (show_line l @ ws)" by (simp add: rest_eq buf_def)
  moreover have "ends {41} ws" using trim_blank[OF assms(2)] by (simp add: ends_def)
  ultimately obtain n0 c s where c: "texts buf c = mean_line l" "rest buf s = trim ws" "\<forall>n\<ge>n0. parseline n buf 0 = Ok (c, s)"
    using readsD[OF reads_all(1)[OF assms(1)]] by blast
  have "parseline (line_fuel buf) buf 0 \<noteq> Hang"
    using parser_returns[of buf "line_fuel buf"] by (simp add: line_fuel_def)
  from parseline_more[OF this, of "max n0 (line_fuel buf)"] have "parseline (line_fuel buf) buf 0 = Ok (c, s)"
    using c(3) by simp
  then show ?thesis using c trim_blank[OF assms(2)] by simp
qed

lemma parsecmd_show:
  assumes "line_ok l" "blank ws"
  defines "buf \<equiv> show_line l @ ws"
  shows "\<exists>c b. parsecmd (line_fuel buf) buf = Ok (c, b) \<and> map_cmd (\<lambda>t. string_at b (fst t)) c = mean_line l"
proof -
  obtain c s where p: "parseline (line_fuel buf) buf 0 = Ok (c, s)" "texts buf c = mean_line l" "rest buf s = []"
    using parseline_show[OF assms(1,2)] unfolding buf_def by blast
  have "s \<le> length buf" using parser_ok[of "line_fuel buf" buf] p(1) by (auto simp: moves_def)
  then have "skip_space buf s = length buf" using p(3) skip_space_bound[of s buf] by (simp add: rest_def)
  then have r: "parsecmd (line_fuel buf) buf = Ok (c, nulterminate c buf)"
    using p(1) by (simp add: parsecmd_def peek_def Let_def)
  have w: "words_ok buf c" using parsecmd_ok[OF r] by blast
  have "map_cmd (\<lambda>t. string_at (nulterminate c buf) (fst t)) c = texts buf c"
    by (rule cmd.map_cong0) (use terminated_word[OF w] no_nul_shown[OF assms(1,2)] in \<open>auto simp: buf_def\<close>)
  then show ?thesis using r p(2) by auto
qed

text \<open>
  C28. The shell parses what the printer of the syntax prints: for a line of the grammar with
  non-empty words and at most nine arguments in a command, and blanks at its end, the parser
  returns the command the line means: its pipes, lists, background commands and redirections,
  outermost last, its argument vectors, and the strings as they stand in the terminated line.
\<close>

theorem parse_print:
  assumes "line_ok l" "blank ws"
  shows "\<exists>c b. parsecmd (line_fuel (show_line l @ ws)) (show_line l @ ws) = Ok (c, b)
    \<and> map_cmd (\<lambda>t. string_at b (fst t)) c = mean_line l"
  by (rule parsecmd_show[OF assms])

theorem parse_print_witness:
  "show_line (Seq (Bar (Simple [] [([108, 115], [])]) (Stage (Group (Line (Stage (Simple [] [([119, 99], [(60, [97])])])) 0) [(43, [98])]))) 1
       (Line (Stage (Simple [(62, [99])] [([101], [])])) 0))
     = [108, 115, 32, 124, 40, 119, 99, 32, 60, 97, 32, 41, 62, 62, 98, 32, 38, 59, 62, 99, 32, 101, 32]
   \<and> (\<exists>c b. parsecmd 100 [108, 115, 32, 124, 40, 119, 99, 32, 60, 97, 32, 41, 62, 62, 98, 32, 38, 59, 62, 99, 32, 101, 32, 10] = Ok (c, b)
     \<and> map_cmd (\<lambda>t. string_at b (fst t)) c
        = LIST (BACK (PIPE (EXEC [[108, 115]]) (REDIR (REDIR (EXEC [[119, 99]]) [97] rd_mode 0) [98] app_mode 1)))
            (REDIR (EXEC [[101]]) [99] out_mode 1))"
proof -
  let ?l = "Seq (Bar (Simple [] [([108, 115], [])]) (Stage (Group (Line (Stage (Simple [] [([119, 99], [(60, [97])])])) 0) [(43, [98])]))) 1
       (Line (Stage (Simple [(62, [99])] [([101], [])])) 0)"
  have s: "show_line ?l = [108, 115, 32, 124, 40, 119, 99, 32, 60, 97, 32, 41, 62, 62, 98, 32, 38, 59, 62, 99, 32, 101, 32]"
    by (simp add: show_rd_def)
  have ok: "line_ok ?l"
    by (simp add: rds_ok_def word_ok_def word_char_def whitespace_def symbols_def MAXARGS_def)
  have m: "mean_line ?l = LIST (BACK (PIPE (EXEC [[108, 115]]) (REDIR (REDIR (EXEC [[119, 99]]) [97] rd_mode 0) [98] app_mode 1)))
            (REDIR (EXEC [[101]]) [99] out_mode 1)"
    by (simp add: redir_def)
  show ?thesis using parse_print[OF ok, of "[10]"] by (simp only: s m) (simp add: line_fuel_def blank_def whitespace_def)
qed

end
