(* ===== verification/Sh_Run.thy ===== *)
theory Sh_Run
  imports Sh_Print Uprintf Sysfile
begin

text \<open>
  The shell as a program, \<open>main\<close>, \<open>getcmd\<close>, \<open>runcmd\<close>, \<open>fork1\<close> and \<open>panic\<close> of \<open>user/sh.c\<close> and
  \<open>gets\<close> of \<open>user/ulib.c\<close>: a tree of the system calls they make, with what follows each result.
  Running the tree on a table of file descriptors shows the processes it starts and the files
  they have; the tables behave as those of the kernel do.
\<close>

section \<open>Programs\<close>

text \<open>System calls whose result is not used have one continuation. \<open>PRead\<close> is \<open>read(0, &c, 1)\<close>,
  \<open>PExec\<close> goes on when \<open>exec\<close> fails, and \<open>PStuck\<close> is a run out of fuel.\<close>

datatype prog =
    PExit int
  | PExec "u8 list list" prog
  | PWrite nat "u8 list" prog
  | PClose nat prog
  | POpen "u8 list" u32 "int \<Rightarrow> prog"
  | PDup nat prog
  | PPipe "int \<Rightarrow> nat \<Rightarrow> nat \<Rightarrow> prog"
  | PFork "int \<Rightarrow> prog"
  | PWait prog
  | PChdir "u8 list" "int \<Rightarrow> prog"
  | PRead "u8 option \<Rightarrow> prog"
  | PStuck

definition eprintf :: "string \<Rightarrow> u8 list \<Rightarrow> prog \<Rightarrow> prog" where
  "eprintf fmt s k = (case vprintf (bytes_of fmt @ [10]) [Str (Some s)] of None \<Rightarrow> PStuck | Some out \<Rightarrow> PWrite 2 out k)"

definition sh_panic :: "string \<Rightarrow> prog" where
  "sh_panic msg = eprintf ''%s'' (bytes_of msg) (PExit 1)"

definition fork1 :: "(int \<Rightarrow> prog) \<Rightarrow> prog" where
  "fork1 k = PFork (\<lambda>r. if r = -1 then sh_panic ''fork'' else k r)"

fun runcmd :: "u8 list cmd \<Rightarrow> prog" where
  "runcmd (EXEC []) = PExit 1"
| "runcmd (EXEC (a # as)) = PExec (a # as) (eprintf ''exec %s failed'' a (PExit 0))"
| "runcmd (REDIR c f mode fd) =
     PClose fd (POpen f mode (\<lambda>r. if r < 0 then eprintf ''open %s failed'' f (PExit 1) else runcmd c))"
| "runcmd (LIST l r) = fork1 (\<lambda>r0. if r0 = 0 then runcmd l else PWait (runcmd r))"
| "runcmd (PIPE l r) =
     PPipe (\<lambda>r0 p0 p1.
       if r0 < 0 then sh_panic ''pipe''
       else fork1 (\<lambda>r1.
         if r1 = 0 then PClose 1 (PDup p1 (PClose p0 (PClose p1 (runcmd l))))
         else fork1 (\<lambda>r2.
           if r2 = 0 then PClose 0 (PDup p0 (PClose p0 (PClose p1 (runcmd r))))
           else PClose p0 (PClose p1 (PWait (PWait (PExit 0)))))))"
| "runcmd (BACK c) = fork1 (\<lambda>r0. if r0 = 0 then runcmd c else PExit 0)"

text \<open>\<open>gets\<close> with \<open>m\<close> bytes of room left, and \<open>getcmd\<close>: the string it leaves in the buffer, up to
  the first NUL.\<close>

fun gets_loop :: "nat \<Rightarrow> u8 list \<Rightarrow> (u8 list \<Rightarrow> prog) \<Rightarrow> prog" where
  "gets_loop 0 acc k = k acc"
| "gets_loop (Suc m) acc k =
     PRead (\<lambda>r. case r of None \<Rightarrow> k acc
       | Some c \<Rightarrow> if c = 10 \<or> c = 13 then k (acc @ [c]) else gets_loop m (acc @ [c]) k)"

definition gets :: "nat \<Rightarrow> (u8 list \<Rightarrow> prog) \<Rightarrow> prog" where
  "gets room k = gets_loop (room - 1) [] (\<lambda>line. k (takeWhile (\<lambda>c. c \<noteq> 0) line))"

definition getcmd :: "nat \<Rightarrow> (u8 list option \<Rightarrow> prog) \<Rightarrow> prog" where
  "getcmd nbuf k = PWrite 2 [36, 32] (gets nbuf (\<lambda>line. k (if line = [] then None else Some line)))"

text \<open>The child's part: parse and run. The tree of the command holds pointers into the line; it is
  read from the terminated line.\<close>

definition sh_child :: "u8 list \<Rightarrow> prog" where
  "sh_child line =
     (case parsecmd (line_fuel line) line of
        Ok (c, b) \<Rightarrow> runcmd (map_cmd (\<lambda>t. string_at b (fst t)) c)
      | Panic msg \<Rightarrow> sh_panic msg
      | Hang \<Rightarrow> PStuck)"

text \<open>The body of the loop of \<open>main\<close> for one line, then \<open>k\<close>.\<close>

definition sh_line :: "u8 list \<Rightarrow> prog \<Rightarrow> prog" where
  "sh_line line k =
     (let cmd = dropWhile (\<lambda>c. c = 32 \<or> c = 9) line
      in if at_or_0 cmd 0 = 10 then k
         else if take 3 cmd = [99, 100, 32]
         then (let dir = drop 3 (butlast cmd)
               in PChdir dir (\<lambda>r. if r < 0 then eprintf ''cannot cd %s'' dir k else k))
         else fork1 (\<lambda>r. if r = 0 then sh_child cmd else PWait k))"

fun sh_loop :: "nat \<Rightarrow> prog" where
  "sh_loop 0 = PStuck"
| "sh_loop (Suc n) = getcmd 100 (\<lambda>line. case line of None \<Rightarrow> PExit 0 | Some l \<Rightarrow> sh_line l (sh_loop n))"

text \<open>The loop that opens the console until three descriptors are open.\<close>

fun open_console :: "nat \<Rightarrow> prog \<Rightarrow> prog" where
  "open_console 0 k = PStuck"
| "open_console (Suc n) k =
     POpen (bytes_of ''console'') 2 (\<lambda>fd. if fd \<ge> 0 then (if fd \<ge> 3 then PClose (nat fd) k else open_console n k) else k)"

definition sh_main :: "nat \<Rightarrow> prog" where
  "sh_main n = open_console 4 (sh_loop n)"

section \<open>Tables of descriptors\<close>

text \<open>What the programs rely on: the lowest free descriptor is given out.\<close>

locale descriptors =
  fixes fd_of :: "'s \<Rightarrow> nat \<Rightarrow> 'f option" and put :: "'f \<Rightarrow> 's \<Rightarrow> nat option \<times> 's" and shut :: "nat \<Rightarrow> 's \<Rightarrow> 's"
  assumes put_some: "put f s = (Some fd, s') \<Longrightarrow>
      fd < NOFILE \<and> fd_of s fd = None \<and> (\<forall>i<fd. fd_of s i \<noteq> None) \<and> fd_of s' = (fd_of s)(fd \<mapsto> f)"
    and put_none: "put f s = (None, s') \<Longrightarrow> (\<forall>i<NOFILE. fd_of s i \<noteq> None) \<and> s' = s"
    and fd_of_shut: "fd < NOFILE \<Longrightarrow> fd_of (shut fd s) = (fd_of s)(fd := None)"
begin

lemma put_lowest:
  assumes "fd < NOFILE" "fd_of s fd = None" "\<forall>i<fd. fd_of s i \<noteq> None"
  shows "\<exists>s'. put f s = (Some fd, s') \<and> fd_of s' = (fd_of s)(fd \<mapsto> f)"
proof -
  obtain r s' where p: "put f s = (r, s')" by fastforce
  then obtain fd' where r: "r = Some fd'" using put_none[of f s s'] assms(1,2) by (cases r) auto
  have "fd' < NOFILE \<and> fd_of s fd' = None \<and> (\<forall>i<fd'. fd_of s i \<noteq> None) \<and> fd_of s' = (fd_of s)(fd' \<mapsto> f)"
    using put_some p r by blast
  moreover from this have "fd' = fd" using assms(2,3) by (metis linorder_neqE_nat)
  ultimately show ?thesis using p r by auto
qed

text \<open>Closing a descriptor and getting a new one puts the new file in its place, when the lower ones
  are open.\<close>

lemma redirect:
  assumes "fd < NOFILE" "\<forall>i<fd. fd_of s i \<noteq> None"
  shows "\<exists>s'. put f (shut fd s) = (Some fd, s') \<and> fd_of s' = (fd_of s)(fd \<mapsto> f)"
  using put_lowest[of fd "shut fd s" f] assms fd_of_shut[OF assms(1), of s] by simp

end

type_synonym 'f tab = "nat \<Rightarrow> 'f option"

definition fd_alloc :: "'f \<Rightarrow> 'f tab \<Rightarrow> nat option \<times> 'f tab" where
  "fd_alloc f t =
     (case List.find (\<lambda>fd. t fd = None) [0..<NOFILE] of None \<Rightarrow> (None, t) | Some fd \<Rightarrow> (Some fd, t(fd \<mapsto> f)))"

definition fd_close :: "nat \<Rightarrow> 'f tab \<Rightarrow> 'f tab" where
  "fd_close fd t = (if fd < NOFILE then t(fd := None) else t)"

lemma find_lowest:
  assumes "List.find P [0..<n] = Some i"
  shows "i < n \<and> P i \<and> (\<forall>j<i. \<not> P j)"
  using assms by (auto simp: find_Some_iff)

interpretation tab: descriptors "\<lambda>t. t" fd_alloc fd_close
  by unfold_locales (auto simp: fd_alloc_def fd_close_def find_None_iff split: option.splits dest: find_lowest)

lemma ofile_set_fd: "ofile (procs (set_fd me fd f s) me) = (ofile (procs s me))(fd := f)"
  by (simp add: set_fd_def upd_proc_def)

interpretation kern: descriptors "\<lambda>s. ofile (procs s me)" "fdalloc me" "\<lambda>fd. set_fd me fd None"
  by unfold_locales
     (auto simp: fdalloc_def ofile_set_fd find_None_iff split: option.splits dest: find_lowest)

text \<open>The descriptor \<open>fdalloc\<close> of the kernel gives is that of its table.\<close>

lemma fdalloc_table: "fdalloc me f s = (r, s') \<Longrightarrow> fd_alloc f (ofile (procs s me)) = (r, ofile (procs s' me))"
  by (auto simp: fdalloc_def fd_alloc_def ofile_set_fd split: option.splits)

section \<open>Running a program\<close>

text \<open>A run gives the processes started with \<open>exec\<close>, each with its arguments and descriptors, and
  leaves the number of the next pipe and the input. \<open>opens\<close> is the file \<open>open\<close> finds, \<open>chdirs\<close> the
  result of \<open>chdir\<close>; \<open>fork\<close> succeeds, and a child goes first. \<open>None\<close> is a run out of fuel.\<close>

datatype 'f ofd = OFile 'f | RdEnd nat | WrEnd nat

type_synonym 'f job = "u8 list list \<times> 'f ofd tab"

definition do_open :: "(u8 list \<Rightarrow> u32 \<Rightarrow> 'f option) \<Rightarrow> u8 list \<Rightarrow> u32 \<Rightarrow> 'f ofd tab \<Rightarrow> int \<times> 'f ofd tab" where
  "do_open opens path mode t =
     (case opens path mode of
        None \<Rightarrow> (-1, t)
      | Some f \<Rightarrow> (case fd_alloc (OFile f) t of (None, t1) \<Rightarrow> (-1, t1) | (Some fd, t1) \<Rightarrow> (int fd, t1)))"

definition do_dup :: "nat \<Rightarrow> 'f ofd tab \<Rightarrow> 'f ofd tab" where
  "do_dup fd t = (case t fd of None \<Rightarrow> t | Some f \<Rightarrow> snd (fd_alloc f t))"

definition do_pipe :: "nat \<Rightarrow> 'f ofd tab \<Rightarrow> (nat \<times> nat) option \<times> 'f ofd tab" where
  "do_pipe n t =
     (case fd_alloc (RdEnd n) t of
        (None, t1) \<Rightarrow> (None, t1)
      | (Some p0, t1) \<Rightarrow>
          (case fd_alloc (WrEnd n) t1 of
             (None, t2) \<Rightarrow> (None, fd_close p0 t2)
           | (Some p1, t2) \<Rightarrow> (Some (p0, p1), t2)))"

primrec run :: "(u8 list \<Rightarrow> u32 \<Rightarrow> 'f option) \<Rightarrow> (u8 list \<Rightarrow> int) \<Rightarrow> prog \<Rightarrow> 'f ofd tab \<Rightarrow> nat \<times> u8 list \<Rightarrow>
    ('f job list \<times> nat \<times> u8 list) option" where
  "run opens chdirs (PExit r) = (\<lambda>t w. Some ([], w))"
| "run opens chdirs (PExec as k) =
     (\<lambda>t w. case run opens chdirs k t w of None \<Rightarrow> None | Some (js, w1) \<Rightarrow> Some ((as, t) # js, w1))"
| "run opens chdirs (PWrite fd bs k) = run opens chdirs k"
| "run opens chdirs (PClose fd k) = (\<lambda>t. run opens chdirs k (fd_close fd t))"
| "run opens chdirs (POpen path mode k) = (\<lambda>t. case do_open opens path mode t of (r, t1) \<Rightarrow> run opens chdirs (k r) t1)"
| "run opens chdirs (PDup fd k) = (\<lambda>t. run opens chdirs k (do_dup fd t))"
| "run opens chdirs (PPipe k) = (\<lambda>t (n, inp).
     case do_pipe n t of
       (None, t1) \<Rightarrow> run opens chdirs (k (-1) 0 0) t1 (n, inp)
     | (Some (p0, p1), t1) \<Rightarrow> run opens chdirs (k 0 p0 p1) t1 (n + 1, inp))"
| "run opens chdirs (PFork k) = (\<lambda>t w.
     case run opens chdirs (k 0) t w of
       None \<Rightarrow> None
     | Some (js, w1) \<Rightarrow> (case run opens chdirs (k 1) t w1 of None \<Rightarrow> None | Some (js', w2) \<Rightarrow> Some (js @ js', w2)))"
| "run opens chdirs (PWait k) = run opens chdirs k"
| "run opens chdirs (PChdir dir k) = run opens chdirs (k (chdirs dir))"
| "run opens chdirs (PRead k) = (\<lambda>t (n, inp).
     case inp of [] \<Rightarrow> run opens chdirs (k None) t (n, []) | c # cs \<Rightarrow> run opens chdirs (k (Some c)) t (n, cs))"
| "run opens chdirs PStuck = (\<lambda>t w. None)"

section \<open>What a command starts\<close>

text \<open>The processes of a command when the descriptors are \<open>t\<close>: each gets exactly the files it
  names in place of \<open>t\<close>'s, and nothing more.\<close>

primrec plumb :: "(u8 list \<Rightarrow> u32 \<Rightarrow> 'f option) \<Rightarrow> u8 list cmd \<Rightarrow> 'f ofd tab \<Rightarrow> nat \<Rightarrow> 'f job list \<times> nat" where
  "plumb opens (EXEC as) = (\<lambda>t n. (if as = [] then [] else [(as, t)], n))"
| "plumb opens (REDIR c f mode fd) =
     (\<lambda>t n. case opens f mode of None \<Rightarrow> ([], n) | Some g \<Rightarrow> plumb opens c (t(fd \<mapsto> OFile g)) n)"
| "plumb opens (PIPE l r) = (\<lambda>t n.
     case plumb opens l (t(1 \<mapsto> WrEnd n)) (n + 1) of (js, n1) \<Rightarrow>
       case plumb opens r (t(0 \<mapsto> RdEnd n)) n1 of (js', n2) \<Rightarrow> (js @ js', n2))"
| "plumb opens (LIST l r) = (\<lambda>t n.
     case plumb opens l t n of (js, n1) \<Rightarrow> case plumb opens r t n1 of (js', n2) \<Rightarrow> (js @ js', n2))"
| "plumb opens (BACK c) = plumb opens c"

text \<open>Exactly the three standard descriptors are open.\<close>

definition std_fds :: "'f tab \<Rightarrow> bool" where
  "std_fds t \<longleftrightarrow> (\<forall>i. t i \<noteq> None \<longleftrightarrow> i < 3)"

primrec redirs_std :: "'s cmd \<Rightarrow> bool" where
  "redirs_std (EXEC as) \<longleftrightarrow> True"
| "redirs_std (REDIR c f mode fd) \<longleftrightarrow> fd < 3 \<and> redirs_std c"
| "redirs_std (PIPE l r) \<longleftrightarrow> redirs_std l \<and> redirs_std r"
| "redirs_std (LIST l r) \<longleftrightarrow> redirs_std l \<and> redirs_std r"
| "redirs_std (BACK c) \<longleftrightarrow> redirs_std c"

subsection \<open>Messages\<close>

lemma vprintf_loop_plain: "37 \<notin> set pre \<Longrightarrow> vprintf_loop False (pre @ cs) as = map_option (\<lambda>out. pre @ out) (vprintf_loop False cs as)"
  by (induction pre) (cases "vprintf_loop False cs as"; simp)+

lemma vprintf_string:
  assumes "37 \<notin> set pre" "37 \<notin> set post"
  shows "vprintf (pre @ 37 # 115 # post) [Str (Some s)] = Some (pre @ s @ post)"
proof -
  have "vprintf_loop False post [] = Some post" using vprintf_loop_plain[OF assms(2), of "[]" "[]"] by simp
  then show ?thesis
    unfolding vprintf_def vprintf_loop_plain[OF assms(1)] by (simp add: up_conversion_def Let_def)
qed

lemma eprintf_run:
  assumes "bytes_of fmt = pre @ 37 # 115 # post" "37 \<notin> set pre" "37 \<notin> set post"
  shows "run opens chdirs (eprintf fmt s k) = run opens chdirs k"
  using vprintf_string[of pre "post @ [10]" s] assms by (simp add: eprintf_def)

lemma messages_run [simp]:
  "run opens chdirs (eprintf ''%s'' s k) = run opens chdirs k"
  "run opens chdirs (eprintf ''exec %s failed'' s k) = run opens chdirs k"
  "run opens chdirs (eprintf ''open %s failed'' s k) = run opens chdirs k"
  "run opens chdirs (eprintf ''cannot cd %s'' s k) = run opens chdirs k"
  by (rule eprintf_run[where pre = "[]" and post = "[]"], code_simp, simp, simp)
     (rule eprintf_run[where pre = "bytes_of ''exec ''" and post = "bytes_of '' failed''"], code_simp, code_simp, code_simp,
      rule eprintf_run[where pre = "bytes_of ''open ''" and post = "bytes_of '' failed''"], code_simp, code_simp, code_simp,
      rule eprintf_run[where pre = "bytes_of ''cannot cd ''" and post = "[]"], code_simp, code_simp, code_simp)

lemma sh_panic_run [simp]: "run opens chdirs (sh_panic msg) = (\<lambda>t w. Some ([], w))"
  by (simp add: sh_panic_def)

lemma fork1_run [simp]:
  "run opens chdirs (fork1 k) t w =
     (case run opens chdirs (k 0) t w of
        None \<Rightarrow> None
      | Some (js, w1) \<Rightarrow> (case run opens chdirs (k 1) t w1 of None \<Rightarrow> None | Some (js', w2) \<Rightarrow> Some (js @ js', w2)))"
  by (simp add: fork1_def)

subsection \<open>Descriptors\<close>

lemma std_fds_open: "std_fds t \<Longrightarrow> i < 3 \<Longrightarrow> t i \<noteq> None"
  by (simp add: std_fds_def)

lemma std_fds_upd: "std_fds t \<Longrightarrow> fd < 3 \<Longrightarrow> std_fds (t(fd \<mapsto> f))"
  by (auto simp: std_fds_def)

lemma std_fds_shut: "std_fds t \<Longrightarrow> 3 \<le> i \<Longrightarrow> t i = None"
  by (metis std_fds_def not_le)

lemma replace_fd: "fd < NOFILE \<Longrightarrow> \<forall>i<fd. t i \<noteq> None \<Longrightarrow> fd_alloc f (fd_close fd t) = (Some fd, t(fd \<mapsto> f))"
  using tab.redirect[of fd t f] by blast

lemma three_NOFILE: "i < 5 \<Longrightarrow> i < NOFILE"
  by (simp add: NOFILE_def)

lemma do_open_std:
  assumes "std_fds t" "fd < 3"
  shows "do_open opens path mode (fd_close fd t) =
    (case opens path mode of None \<Rightarrow> (-1, fd_close fd t) | Some g \<Rightarrow> (int fd, t(fd \<mapsto> OFile g)))"
proof (cases "opens path mode")
  case (Some g)
  have "\<forall>i<fd. t i \<noteq> None" using assms by (auto simp: std_fds_def)
  from replace_fd[OF three_NOFILE this] have "fd_alloc (OFile g) (fd_close fd t) = (Some fd, t(fd \<mapsto> OFile g))"
    using assms(2) by simp
  then show ?thesis using Some by (simp add: do_open_def)
qed (simp add: do_open_def)

lemma do_pipe_std:
  assumes "std_fds t"
  shows "do_pipe n t = (Some (3, 4), t(3 \<mapsto> RdEnd n, 4 \<mapsto> WrEnd n))"
proof -
  let ?t1 = "t(3 \<mapsto> RdEnd n)"
  have "t 3 = None" "t 4 = None" "\<forall>i<3. t i \<noteq> None" using assms by (auto simp: std_fds_shut std_fds_open)
  then have "fd_alloc (RdEnd n) t = (Some 3, ?t1)" using tab.put_lowest[of 3 t "RdEnd n"] by (simp add: NOFILE_def)
  moreover have "?t1 4 = None" "\<forall>i<4. ?t1 i \<noteq> None" using assms by (auto simp: std_fds_shut intro!: std_fds_open[unfolded not_None_eq])
  then have "fd_alloc (WrEnd n) ?t1 = (Some 4, ?t1(4 \<mapsto> WrEnd n))"
    using tab.put_lowest[of 4 ?t1 "WrEnd n"] by (simp add: NOFILE_def)
  ultimately show ?thesis by (simp add: do_pipe_def)
qed

text \<open>A child of a pipe puts its end of the pipe in place of \<open>fd\<close> and closes both ends.\<close>

lemma pipe_child:
  assumes "std_fds t" "fd < 3" "p \<in> {3, 4}"
  shows "fd_close 4 (fd_close 3 (do_dup p (fd_close fd (t(3 \<mapsto> a, 4 \<mapsto> b))))) = t(fd \<mapsto> (if p = 3 then a else b))"
proof -
  let ?t = "t(3 \<mapsto> a, 4 \<mapsto> b)"
  let ?f = "if p = 3 then a else b"
  have "\<forall>i<fd. ?t i \<noteq> None" using assms by (auto intro!: std_fds_open[unfolded not_None_eq])
  from replace_fd[where t = ?t and f = ?f, OF three_NOFILE this] have "fd_alloc ?f (fd_close fd ?t) = (Some fd, ?t(fd \<mapsto> ?f))"
    using assms(2) by simp
  moreover have "fd_close fd ?t p = Some ?f" using assms(2,3) by (auto simp: fd_close_def NOFILE_def)
  ultimately have "do_dup p (fd_close fd ?t) = ?t(fd \<mapsto> ?f)" by (simp add: do_dup_def)
  moreover have "t 3 = None" "t 4 = None" using assms(1) by (auto simp: std_fds_shut)
  ultimately show ?thesis using assms(2) by (auto simp: fd_close_def NOFILE_def)
qed

section \<open>runcmd\<close>

lemma runcmd_run:
  "std_fds t \<Longrightarrow> redirs_std c \<Longrightarrow>
     run opens chdirs (runcmd c) t (n, inp) = Some (case plumb opens c t n of (js, n1) \<Rightarrow> (js, n1, inp))"
proof (induction c arbitrary: t n)
  case (EXEC as)
  then show ?case by (cases as) simp_all
next
  case (REDIR c f mode fd)
  have "run opens chdirs (runcmd c) (t(fd \<mapsto> OFile g)) (n, inp) =
      Some (case plumb opens c (t(fd \<mapsto> OFile g)) n of (js, n1) \<Rightarrow> (js, n1, inp))" for g
    using REDIR.IH[of "t(fd \<mapsto> OFile g)" n] REDIR.prems by (simp add: std_fds_upd del: fun_upd_apply)
  then show ?case using REDIR.prems by (cases "opens f mode") (simp_all add: do_open_std)
next
  case (PIPE l r)
  have "run opens chdirs (runcmd l) (t(1 \<mapsto> WrEnd n)) (n + 1, inp) =
      Some (case plumb opens l (t(1 \<mapsto> WrEnd n)) (n + 1) of (js, n1) \<Rightarrow> (js, n1, inp))"
    using PIPE.IH(1)[of "t(1 \<mapsto> WrEnd n)" "n + 1"] PIPE.prems by (simp add: std_fds_upd del: fun_upd_apply)
  moreover have "run opens chdirs (runcmd r) (t(0 \<mapsto> RdEnd n)) (n1, inp) =
      Some (case plumb opens r (t(0 \<mapsto> RdEnd n)) n1 of (js, n2) \<Rightarrow> (js, n2, inp))" for n1
    using PIPE.IH(2)[of "t(0 \<mapsto> RdEnd n)" n1] PIPE.prems by (simp add: std_fds_upd del: fun_upd_apply)
  ultimately show ?case using PIPE(3)
    pipe_child[OF PIPE(3), of 1 4 "RdEnd n" "WrEnd n"] pipe_child[OF PIPE(3), of 0 3 "RdEnd n" "WrEnd n"]
    by (simp add: do_pipe_std split: prod.split)
qed (auto split: prod.split)

lemma plumb_std:
  "std_fds t \<Longrightarrow> redirs_std c \<Longrightarrow> list_all (\<lambda>(as, t'). as \<noteq> [] \<and> std_fds t') (fst (plumb opens c t n))"
  by (induction c arbitrary: t n) (simp_all add: std_fds_upd case_prod_beta split: option.split)

text \<open>
  C37. The plumbing of the shell: started with exactly the three standard descriptors, \<open>runcmd\<close>
  starts exactly the processes of the command, and each has the standard descriptors of the
  shell with the files of its redirections and the ends of its pipes in their places. No process
  is left with another end of a pipe, and a redirection that cannot be opened starts nothing.
\<close>

theorem runcmd_plumbing:
  assumes "std_fds t" "redirs_std c"
  shows "\<exists>n'. run opens chdirs (runcmd c) t (n, inp) = Some (fst (plumb opens c t n), n', inp)
    \<and> list_all (\<lambda>(as, t'). as \<noteq> [] \<and> std_fds t') (fst (plumb opens c t n))"
  using runcmd_run[OF assms] plumb_std[OF assms] by (simp add: case_prod_beta)

theorem runcmd_plumbing_witness:
  "\<exists>n'. run (\<lambda>f m. Some f) (\<lambda>d. 0) (runcmd (PIPE (EXEC [[108]]) (REDIR (EXEC [[119]]) [97] out_mode 1)))
      [0 \<mapsto> OFile [], 1 \<mapsto> OFile [], 2 \<mapsto> OFile []] (7, [])
    = Some ([([[108]], [0 \<mapsto> OFile [], 1 \<mapsto> WrEnd 7, 2 \<mapsto> OFile []]),
             ([[119]], [0 \<mapsto> RdEnd 7, 1 \<mapsto> OFile [97], 2 \<mapsto> OFile []])], n', [])"
proof -
  let ?t = "[0 \<mapsto> OFile [], 1 \<mapsto> OFile [], 2 \<mapsto> OFile []] :: u8 list ofd tab"
  let ?c = "PIPE (EXEC [[108]]) (REDIR (EXEC [[119]]) [97] out_mode 1)"
  have "fst (plumb (\<lambda>f m. Some f) ?c ?t 7)
      = [([[108]], [0 \<mapsto> OFile [], 1 \<mapsto> WrEnd 7, 2 \<mapsto> OFile []]), ([[119]], [0 \<mapsto> RdEnd 7, 1 \<mapsto> OFile [97], 2 \<mapsto> OFile []])]"
    by (simp add: fun_upd_twist)
  moreover have "std_fds ?t" by (auto simp: std_fds_def)
  moreover have "redirs_std ?c" by simp
  ultimately show ?thesis using runcmd_plumbing[of ?t ?c "\<lambda>f m. Some f" "\<lambda>d. 0" 7 "[]"] by auto
qed

section \<open>A session\<close>

text \<open>Lines that can be typed: printed lines that fit in the buffer and are not a \<open>cd\<close>.\<close>

definition typed :: "sline \<Rightarrow> bool" where
  "typed l \<longleftrightarrow> line_ok l \<and> length (show_line l) < 99 \<and> take 3 (show_line l) \<noteq> [99, 100, 32]"

primrec session :: "(u8 list \<Rightarrow> u32 \<Rightarrow> 'f option) \<Rightarrow> sline list \<Rightarrow> 'f ofd tab \<Rightarrow> nat \<Rightarrow> 'f job list \<times> nat" where
  "session opens [] t n = ([], n)"
| "session opens (l # ls) t n =
     (case plumb opens (mean_line l) t n of (js, n1) \<Rightarrow> case session opens ls t n1 of (js', n2) \<Rightarrow> (js @ js', n2))"

lemma redirs_std_push_arg [simp]: "redirs_std (push_arg w c) = redirs_std c"
  by (induction w c rule: push_arg.induct) auto

lemma redirs_std_redir: "redirs_std c \<Longrightarrow> redirs_std (redir k c w)"
  by (simp add: redir_def)

lemma redirs_std_rds: "redirs_std c \<Longrightarrow> redirs_std (with_rds c rs)"
  by (induction rs arbitrary: c) (auto simp: redirs_std_redir)

lemma redirs_std_words: "redirs_std c \<Longrightarrow> redirs_std (with_words c ws)"
  by (induction ws arbitrary: c) (auto simp: redirs_std_rds)

lemma redirs_std_back: "redirs_std ((BACK ^^ n) c) = redirs_std c"
  by (induction n) auto

lemma redirs_std_mean: "redirs_std (mean_line l)" "redirs_std (mean_pipe p)" "redirs_std (mean_exec x)"
  by (induction l and p and x) (simp_all add: redirs_std_back redirs_std_rds redirs_std_words)

subsection \<open>The characters of a printed line\<close>

text \<open>No NUL, no end of line, and no blank at the start.\<close>

definition line_char :: "u8 \<Rightarrow> bool" where
  "line_char c \<longleftrightarrow> c \<notin> {0, 10, 13}"

lemma line_char_word: "word_char c \<and> c \<noteq> 0 \<Longrightarrow> line_char c"
  by (auto simp: line_char_def word_char_def whitespace_def)

lemma line_char_consts [simp]: "line_char 32" "line_char 38" "line_char 40" "line_char 41" "line_char 59" "line_char 60" "line_char 62" "line_char 124"
  by (simp_all add: line_char_def)

lemma word_line_char: "word_ok w \<Longrightarrow> list_all line_char w"
  by (auto simp: word_ok_def list_all_iff line_char_word)

lemma rds_line_char: "rds_ok rs \<Longrightarrow> list_all line_char (show_rds rs)"
  by (induction rs) (auto simp: rds_ok_def show_rd_def word_line_char)

lemma words_line_char: "list_all (\<lambda>(w, rs). word_ok w \<and> rds_ok rs) ws \<Longrightarrow> list_all line_char (show_words ws)"
  by (induction ws) (auto simp: word_line_char rds_line_char)

lemma show_line_char:
  "line_ok l \<Longrightarrow> list_all line_char (show_line l)" "pipe_ok p \<Longrightarrow> list_all line_char (show_pipe p)"
  "exec_ok x \<Longrightarrow> list_all line_char (show_exec x)"
  by (induction l and p and x) (auto simp: rds_line_char words_line_char list_all_iff[of line_char "replicate n 38" for n])

definition no_blank :: "u8 list \<Rightarrow> bool" where
  "no_blank xs \<longleftrightarrow> xs = [] \<or> hd xs \<notin> set whitespace"

lemma no_blank_append: "no_blank xs \<Longrightarrow> no_blank ys \<Longrightarrow> no_blank (xs @ ys)"
  by (cases xs) (auto simp: no_blank_def)

lemma no_blank_symbol [simp]: "c \<in> set symbols \<Longrightarrow> no_blank (c # xs)"
  by (auto simp: no_blank_def symbols_def whitespace_def)

lemma no_blank_simps [simp]: "no_blank []" "no_blank (replicate n 38)"
  by (simp_all add: no_blank_def) (cases n; simp add: whitespace_def)

lemma no_blank_rds: "rds_ok rs \<Longrightarrow> no_blank (show_rds rs)"
  by (cases rs) (auto simp: rds_ok_def show_rd_def)

lemma no_blank_words: "list_all (\<lambda>(w, rs). word_ok w \<and> rds_ok rs) ws \<Longrightarrow> no_blank (show_words ws)"
proof (cases ws)
  case (Cons a list)
  moreover assume "list_all (\<lambda>(w, rs). word_ok w \<and> rds_ok rs) ws"
  ultimately have "word_ok (fst a)" by (cases a) auto
  then show ?thesis using Cons by (cases a; cases "fst a") (auto simp: no_blank_def word_ok_def word_char_def)
qed simp

lemma no_blank_line:
  "line_ok l \<Longrightarrow> no_blank (show_line l)" "pipe_ok p \<Longrightarrow> no_blank (show_pipe p)" "exec_ok x \<Longrightarrow> no_blank (show_exec x)"
  by (induction l and p and x) (simp_all add: no_blank_append no_blank_rds no_blank_words)

lemma show_empty:
  assumes "show_line l = []"
  shows "plumb opens (mean_line l) t n = ([], n)"
proof (cases l)
  case (Line p k)
  then have "show_pipe p = []" "k = 0" using assms by auto
  moreover from this obtain x where "p = Stage x" "show_exec x = []" by (cases p) auto
  moreover from this obtain rs ws where x: "x = Simple rs ws" "show_rds rs = []" "show_words ws = []" by (cases x) auto
  moreover have "rs = []" using x(2) by (cases rs) (auto simp: show_rd_def)
  moreover have "ws = []" using x(3) by (cases ws) auto
  ultimately show ?thesis using Line by simp
qed (use assms in simp)

subsection \<open>One line\<close>

lemma gets_loop_run:
  "length line < m \<Longrightarrow> list_all line_char line \<Longrightarrow>
     run opens chdirs (gets_loop m acc k) t (n, line @ 10 # inp) = run opens chdirs (k (acc @ line @ [10])) t (n, inp)"
proof (induction line arbitrary: m acc)
  case Nil
  then show ?case by (cases m) simp_all
next
  case (Cons c line)
  obtain m' where m: "m = Suc m'" using Cons.prems(1) by (cases m) auto
  moreover have "c \<noteq> 10 \<and> c \<noteq> 13" using Cons.prems(2) by (simp add: line_char_def)
  ultimately show ?case using Cons.IH[of m' "acc @ [c]"] Cons.prems by simp
qed

lemma getcmd_run:
  assumes "length line < 99" "list_all line_char line"
  shows "run opens chdirs (getcmd 100 k) t (n, line @ 10 # inp) = run opens chdirs (k (Some (line @ [10]))) t (n, inp)"
proof -
  have "takeWhile (\<lambda>c. c \<noteq> 0) (line @ [10]) = line @ [10]"
    using assms(2) by (auto simp: takeWhile_eq_all_conv list_all_iff line_char_def)
  then show ?thesis by (simp add: getcmd_def gets_def gets_loop_run[OF assms])
qed

lemma getcmd_end: "run opens chdirs (getcmd 100 k) t (n, []) = run opens chdirs (k None) t (n, [])"
proof -
  have "gets_loop 99 [] f = PRead (\<lambda>r. case r of None \<Rightarrow> f []
       | Some c \<Rightarrow> if c = 10 \<or> c = 13 then f ([] @ [c]) else gets_loop 98 ([] @ [c]) f)" for f
    using gets_loop.simps(2)[of 98 "[]" f] by simp
  then show ?thesis by (simp add: getcmd_def gets_def)
qed

lemma sh_child_run:
  assumes "std_fds t" "line_ok l"
  shows "run opens chdirs (sh_child (show_line l @ [10])) t (n, inp) =
    Some (case plumb opens (mean_line l) t n of (js, n1) \<Rightarrow> (js, n1, inp))"
proof -
  have "blank [10]" by (simp add: blank_def whitespace_def)
  from parsecmd_show[OF assms(2) this] obtain c b where
    "parsecmd (line_fuel (show_line l @ [10])) (show_line l @ [10]) = Ok (c, b)"
    "map_cmd (\<lambda>t. string_at b (fst t)) c = mean_line l" by blast
  then show ?thesis using runcmd_run[OF assms(1) redirs_std_mean(1)] by (simp add: sh_child_def)
qed

lemma sh_line_fork:
  "cmd = c # cs \<Longrightarrow> c \<notin> {32, 9, 10} \<Longrightarrow> take 3 cmd \<noteq> [99, 100, 32] \<Longrightarrow>
     sh_line cmd k = fork1 (\<lambda>r. if r = 0 then sh_child cmd else PWait k)"
  by (auto simp: sh_line_def Let_def at_or_0_def)

lemma sh_line_run:
  assumes "std_fds t" "typed l"
  shows "run opens chdirs (sh_line (show_line l @ [10]) k) t (n, inp) =
    (case plumb opens (mean_line l) t n of (js, n1) \<Rightarrow>
       case run opens chdirs k t (n1, inp) of None \<Rightarrow> None | Some (js', w) \<Rightarrow> Some (js @ js', w))"
proof (cases "show_line l")
  case Nil
  then show ?thesis by (simp add: show_empty[OF Nil] sh_line_def Let_def at_or_0_def split: option.split)
next
  case (Cons c cs)
  have ok: "line_ok l" "take 3 (show_line l) \<noteq> [99, 100, 32]" using assms(2) by (auto simp: typed_def)
  have c: "c \<noteq> 32" "c \<noteq> 9" "c \<noteq> 10"
    using no_blank_line(1)[OF ok(1)] Cons by (auto simp: no_blank_def whitespace_def)
  have "take 3 (show_line l @ [10]) \<noteq> [99, 100, 32]"
    using ok(2) by (cases "length (show_line l) < 3") (auto simp: take_Cons' append_eq_Cons_conv)
  then have "sh_line (show_line l @ [10]) k = fork1 (\<lambda>r. if r = 0 then sh_child (show_line l @ [10]) else PWait k)"
    by (rule sh_line_fork[rotated 2]) (use Cons c in auto)
  then show ?thesis by (simp add: sh_child_run[OF assms(1) ok(1)] case_prod_beta split: option.split)
qed

lemma sh_loop_run:
  assumes "std_fds t"
  shows "list_all typed ls \<Longrightarrow> length ls < fuel \<Longrightarrow>
    run opens chdirs (sh_loop fuel) t (n, concat (map (\<lambda>l. show_line l @ [10]) ls))
      = Some (case session opens ls t n of (js, n1) \<Rightarrow> (js, n1, []))"
proof (induction ls arbitrary: n fuel)
  case Nil
  then show ?case by (cases fuel) (simp_all add: getcmd_end)
next
  case (Cons l ls)
  obtain f where f: "fuel = Suc f" "length ls < f" using Cons.prems(2) by (cases fuel) auto
  have l: "length (show_line l) < 99" "list_all line_char (show_line l)" "typed l"
    using Cons.prems(1) show_line_char(1)[of l] by (auto simp: typed_def)
  show ?case
    using Cons.IH[OF _ f(2)] Cons.prems(1) f(1)
    by (simp add: getcmd_run[OF l(1,2)] sh_line_run[OF assms l(3)] case_prod_beta)
qed

subsection \<open>The console\<close>

definition with_console :: "'f \<Rightarrow> 'f ofd tab \<Rightarrow> 'f ofd tab" where
  "with_console con t = (\<lambda>i. if i < 3 \<and> t i = None then Some (OFile con) else t i)"

lemma open_console_run:
  assumes "opens (bytes_of ''console'') 2 = Some con"
  shows "\<forall>i\<ge>3. t i = None \<Longrightarrow> card {i. i < 3 \<and> t i = None} < m \<Longrightarrow>
    run opens chdirs (open_console m k) t w = run opens chdirs k (with_console con t) w"
proof (induction m arbitrary: t)
  case (Suc m)
  let ?free = "\<lambda>t. {i::nat. i < 3 \<and> t i = None}"
  show ?case
  proof (cases "?free t = {}")
    case True
    then have std: "std_fds t" using Suc.prems(1) by (auto simp: std_fds_def not_less[symmetric])
    have "fd_alloc (OFile con) t = (Some 3, t(3 \<mapsto> OFile con))"
      using tab.put_lowest[of 3 t "OFile con"] std by (auto simp: NOFILE_def std_fds_shut intro!: std_fds_open[unfolded not_None_eq])
    moreover have "fd_close 3 (t(3 \<mapsto> OFile con)) = t" using std_fds_shut[OF std, of 3] by (auto simp: fd_close_def NOFILE_def)
    moreover have "with_console con t = t" using True by (auto simp: with_console_def)
    ultimately show ?thesis using assms by (simp add: do_open_def)
  next
    case False
    define fd where "fd = Min (?free t)"
    have fin: "finite (?free t)" by simp
    have fd: "fd < 3" "t fd = None" using Min_in[OF fin False] by (auto simp: fd_def)
    have "\<forall>i<fd. t i \<noteq> None" 
    proof (intro allI impI notI)
      fix i assume i: "i < fd" "t i = None"
      then have "i \<in> ?free t" using fd(1) by simp
      from Min_le[OF fin this] show False using i(1) by (simp add: fd_def)
    qed
    then have a: "fd_alloc (OFile con) t = (Some fd, t(fd \<mapsto> OFile con))"
      using tab.put_lowest[of fd t "OFile con"] fd by (simp add: NOFILE_def)
    let ?t = "t(fd \<mapsto> OFile con)"
    have "?free ?t = ?free t - {fd}" by auto
    then have "card (?free ?t) < m" using Suc.prems(2) card_Diff1_less[OF fin, of fd] fd by simp
    moreover have "\<forall>i\<ge>3. ?t i = None" using Suc.prems(1) fd(1) by auto
    ultimately have "run opens chdirs (open_console m k) ?t w = run opens chdirs k (with_console con ?t) w"
      by (rule Suc.IH[rotated])
    moreover have "with_console con ?t = with_console con t" using fd by (auto simp: with_console_def)
    ultimately show ?thesis using a assms fd(1) by (simp add: do_open_def)
  qed
qed simp

lemma std_fds_with_console: "\<forall>i\<ge>3. t i = None \<Longrightarrow> std_fds (with_console con t)"
  by (auto simp: std_fds_def with_console_def not_less[symmetric])

text \<open>
  C16. A session of the shell, from the bytes typed to the processes: on lines of the grammar that fit in its
  buffer and are no \<open>cd\<close>, the shell opens the console on its missing standard descriptors, reads,
  parses and runs line after line, and starts exactly the processes the lines mean, in their
  order, each with exactly the descriptors of its place in the line; at the end of the input it exits.
\<close>

theorem sh_session:
  assumes "\<forall>i\<ge>3. t i = None" "opens (bytes_of ''console'') 2 = Some con" "list_all typed ls" "length ls < fuel"
  shows "\<exists>n'. run opens chdirs (sh_main fuel) t (n, concat (map (\<lambda>l. show_line l @ [10]) ls))
    = Some (fst (session opens ls (with_console con t) n), n', [])"
proof -
  have "card {i::nat. i < 3 \<and> t i = None} \<le> card {i::nat. i < 3}" by (rule card_mono) auto
  then have "card {i::nat. i < 3 \<and> t i = None} < 4" by simp
  then show ?thesis
    using open_console_run[where opens = opens, OF assms(2,1)] sh_loop_run[OF std_fds_with_console[OF assms(1)] assms(3,4)]
    by (simp add: sh_main_def case_prod_beta)
qed

theorem sh_session_witness:
  "\<exists>n'. run (\<lambda>f m. Some f) (\<lambda>d. 0) (sh_main 3) [0 \<mapsto> OFile [9]] (7, [108, 32, 124, 119, 32, 62, 97, 32, 10, 101, 32, 120, 32, 10])
    = Some ([([[108]], [0 \<mapsto> OFile [9], 1 \<mapsto> WrEnd 7, 2 \<mapsto> OFile (bytes_of ''console'')]),
             ([[119]], [0 \<mapsto> RdEnd 7, 1 \<mapsto> OFile [97], 2 \<mapsto> OFile (bytes_of ''console'')]),
             ([[101], [120]], [0 \<mapsto> OFile [9], 1 \<mapsto> OFile (bytes_of ''console''), 2 \<mapsto> OFile (bytes_of ''console'')])], n', [])"
proof -
  let ?con = "bytes_of ''console''"
  let ?t = "[0 \<mapsto> OFile [9]] :: u8 list ofd tab"
  let ?t' = "[0 \<mapsto> OFile [9], 1 \<mapsto> OFile ?con, 2 \<mapsto> OFile ?con] :: u8 list ofd tab"
  let ?l1 = "Line (Bar (Simple [] [([108], [])]) (Stage (Simple [] [([119], [(62, [97])])]))) 0"
  let ?l2 = "Line (Stage (Simple [] [([101], []), ([120], [])])) 0"
  have ok: "list_all typed [?l1, ?l2]"
    by (simp add: typed_def rds_ok_def word_ok_def word_char_def whitespace_def symbols_def MAXARGS_def show_rd_def)
  have bytes: "concat (map (\<lambda>l. show_line l @ [10]) [?l1, ?l2]) = [108, 32, 124, 119, 32, 62, 97, 32, 10, 101, 32, 120, 32, 10]"
    by (simp add: show_rd_def)
  have con: "with_console ?con ?t = ?t'" by (rule ext) (auto simp: with_console_def)
  have "fst (session (\<lambda>f m. Some f) [?l1, ?l2] ?t' 7) =
     [([[108]], [0 \<mapsto> OFile [9], 1 \<mapsto> WrEnd 7, 2 \<mapsto> OFile ?con]), ([[119]], [0 \<mapsto> RdEnd 7, 1 \<mapsto> OFile [97], 2 \<mapsto> OFile ?con]),
      ([[101], [120]], ?t')]"
    by (simp add: redir_def fun_upd_twist)
  then show ?thesis
    using sh_session[of ?t "\<lambda>f m. Some f" ?con "[?l1, ?l2]" 3 "\<lambda>d. 0" 7] ok unfolding bytes con by simp
qed

end
