(* ===== verification/Fs_Dir.thy ===== *)
theory Fs_Dir
  imports Fs_File
begin

text \<open>
  Directories: the contents of a directory as a map from names to inode numbers, and
  \<open>dirlookup\<close> and \<open>dirlink\<close> of \<open>kernel/fs.c\<close> as lookup and insertion in it.
\<close>

section \<open>Entries and names\<close>

text \<open>A name is at most \<open>DIRSIZ\<close> characters, up to the first NUL.\<close>

definition name_of :: "u8 list \<Rightarrow> u8 list" where
  "name_of bs = take DIRSIZ (takeWhile (\<lambda>c. c \<noteq> 0) bs)"

definition dir_len :: "nat \<Rightarrow> 'z fs_state_scheme \<Rightarrow> nat" where
  "dir_len dp s = unat (dsize (icopy (inodes s dp))) div 16"

definition entry_bytes :: "nat \<Rightarrow> nat \<Rightarrow> 'z fs_state_scheme \<Rightarrow> u8 list" where
  "entry_bytes dp k s = map (\<lambda>i. file_byte dp i s) [16 * k..<16 * k + 16]"

definition entry_inum :: "nat \<Rightarrow> nat \<Rightarrow> 'z fs_state_scheme \<Rightarrow> u16" where
  "entry_inum dp k s = de_inum (entry_bytes dp k s)"

definition entry_name :: "nat \<Rightarrow> nat \<Rightarrow> 'z fs_state_scheme \<Rightarrow> u8 list" where
  "entry_name dp k s = name_of (de_name (entry_bytes dp k s))"

text \<open>The first entry in use with a name, and the map.\<close>

definition find_entry :: "nat \<Rightarrow> u8 list \<Rightarrow> 'z fs_state_scheme \<Rightarrow> nat option" where
  "find_entry dp nm s = List.find (\<lambda>k. entry_inum dp k s \<noteq> 0 \<and> entry_name dp k s = nm) [0..<dir_len dp s]"

definition dir_map :: "nat \<Rightarrow> 'z fs_state_scheme \<Rightarrow> u8 list \<Rightarrow> u16 option" where
  "dir_map dp s nm = map_option (\<lambda>k. entry_inum dp k s) (find_entry dp nm s)"

text \<open>A well-formed directory: whole entries and no holes.\<close>

definition dir_ok :: "nat \<Rightarrow> 'z fs_state_scheme \<Rightarrow> bool" where
  "dir_ok dp s \<longleftrightarrow> dtype (icopy (inodes s dp)) = T_DIR
     \<and> 16 dvd unat (dsize (icopy (inodes s dp))) \<and> unat (dsize (icopy (inodes s dp))) \<le> MAXFILE * BSIZE
     \<and> (\<forall>bn. bn * BSIZE < unat (dsize (icopy (inodes s dp))) \<longrightarrow> file_addr dp bn s \<noteq> 0)"

lemma takeWhile_eq_iff:
  "take n (takeWhile P xs) = take n (takeWhile P ys) \<longleftrightarrow>
     (\<forall>i<n. (\<forall>j<i. j < length xs \<and> P (xs ! j)) \<longrightarrow>
        (i < length xs \<and> P (xs ! i) \<longleftrightarrow> i < length ys \<and> P (ys ! i)) \<and> (i < length xs \<and> P (xs ! i) \<longrightarrow> xs ! i = ys ! i))"
proof (induction n arbitrary: xs ys)
  case (Suc n)
  have all_Suc: "(\<forall>i<Suc n. Q i) \<longleftrightarrow> Q 0 \<and> (\<forall>i<n. Q (Suc i))" for Q by (simp add: All_less_Suc2)
  show ?case
  proof (cases xs)
    case Nil
    then show ?thesis by (cases ys) (auto simp: all_Suc)
  next
    case (Cons x xs')
    then show ?thesis by (cases ys) (auto simp: all_Suc Suc All_less_Suc2)
  qed
qed simp

lemma cbytes_cases: "cbytes bs i = (if i < length bs then bs ! i else 0)"
  by (simp add: cbytes_def)

lemma namecmp_iff: "namecmp (cbytes a) (cbytes b) = 0 \<longleftrightarrow> name_of a = name_of b"
  unfolding namecmp_def strncmp_0_iff name_of_def takeWhile_eq_iff
  by (intro iff_allI imp_cong refl) (auto simp: cbytes_cases split: if_splits)

lemma dir_okD:
  assumes "dir_ok dp s"
  shows "dtype (icopy (inodes s dp)) = T_DIR" "16 dvd unat (dsize (icopy (inodes s dp)))" "unat (dsize (icopy (inodes s dp))) = 16 * dir_len dp s"
    "16 * dir_len dp s \<le> MAXFILE * BSIZE" "bn * BSIZE < 16 * dir_len dp s \<Longrightarrow> file_addr dp bn s \<noteq> 0"
  using assms by (auto simp: dir_ok_def dir_len_def)

lemma MAXFILE_bytes: "MAXFILE * BSIZE = 274432"
  by (simp add: MAXFILE_def NDIRECT_def NINDIRECT_def BSIZE_def)

lemma dir_offsets_eq: "dir_ok dp s \<Longrightarrow> dir_offsets (dsize (icopy (inodes s dp))) = map (\<lambda>k. 16 * k) [0..<dir_len dp s]"
  by (simp add: dir_offsets_def dir_okD(3))

lemma read_entry:
  assumes "dir_ok dp s" "k < dir_len dp s"
  shows "readi_local dp (of_nat (16 * k)) 16 s = Ok (16, entry_bytes dp k s, s)"
proof -
  note d = dir_okD[OF assms(1)]
  have "unat (of_nat (16 * k) :: u32) = 16 * k"
    using d(4) assms(2) by (simp add: unat_of_nat MAXFILE_bytes take_bit_nat_eq_self del: of_nat_mult)
  then show ?thesis
    using readi_local_eq[of s dp "of_nat (16 * k)" 16] d(3-5) assms(2)
    by (simp add: MAXFILE_bytes entry_bytes_def Let_def del: of_nat_mult upt_Suc)
qed

section \<open>dirlookup\<close>

lemma dirlookup_loop_eq:
  assumes ok: "dir_ok dp s" and "n \<le> dir_len dp s"
  shows "dirlookup_loop dp name (map (\<lambda>k. 16 * k) [a..<n]) s =
    (case List.find (\<lambda>k. entry_inum dp k s \<noteq> 0 \<and> entry_name dp k s = name_of name) [a..<n] of
       None \<Rightarrow> Ok (None, s)
     | Some k \<Rightarrow> bindR (iget (idev (inodes s dp)) (ucast (entry_inum dp k s)) s) (\<lambda>(ip, s2). Ok (Some (ip, of_nat (16 * k)), s2)))"
  using assms(2)
proof (induction "n - a" arbitrary: a)
  case (Suc d)
  then have a: "a < n" "[a..<n] = a # [Suc a..<n]" by (simp_all add: upt_conv_Cons)
  have IH: "dirlookup_loop dp name (map (\<lambda>k. 16 * k) [Suc a..<n]) s =
    (case List.find (\<lambda>k. entry_inum dp k s \<noteq> 0 \<and> entry_name dp k s = name_of name) [Suc a..<n] of
       None \<Rightarrow> Ok (None, s)
     | Some k \<Rightarrow> bindR (iget (idev (inodes s dp)) (ucast (entry_inum dp k s)) s) (\<lambda>(ip, s2). Ok (Some (ip, of_nat (16 * k)), s2)))"
    using Suc by simp
  have r: "readi_local dp (of_nat (16 * a)) 16 s = Ok (16, entry_bytes dp a s, s)"
    using read_entry[OF ok] a(1) Suc.prems by simp
  show ?case
    unfolding a(2) list.map dirlookup_loop.simps r
    using IH by (auto simp: namecmp_iff entry_inum_def entry_name_def simp del: of_nat_mult)
qed simp

lemma dirlookup_eq:
  assumes "dir_ok dp s"
  shows "dirlookup dp name s =
    (case find_entry dp (name_of name) s of
       None \<Rightarrow> Ok (None, s)
     | Some k \<Rightarrow> bindR (iget (idev (inodes s dp)) (ucast (entry_inum dp k s)) s) (\<lambda>(ip, s2). Ok (Some (ip, of_nat (16 * k)), s2)))"
  using dirlookup_loop_eq[OF assms, of "dir_len dp s" name 0] dir_okD(1)[OF assms]
  by (simp add: dirlookup_def dir_offsets_eq[OF assms] find_entry_def del: of_nat_mult)

section \<open>A free entry\<close>

lemma free_dirent_eq:
  assumes ok: "dir_ok dp s" and "a \<le> dir_len dp s" "\<forall>k<a. entry_inum dp k s \<noteq> 0"
  shows "\<exists>k de'. free_dirent dp (map (\<lambda>k. 16 * k) [a..<dir_len dp s]) (16 * a) de s = Ok (16 * k, de', s)
    \<and> k \<le> dir_len dp s \<and> (k < dir_len dp s \<longrightarrow> entry_inum dp k s = 0)"
  using assms(2,3)
proof (induction "dir_len dp s - a" arbitrary: a de)
  case (Suc d)
  then have a: "a < dir_len dp s" "[a..<dir_len dp s] = a # [Suc a..<dir_len dp s]" by (simp_all add: upt_conv_Cons)
  note r = read_entry[OF ok a(1)]
  show ?case
  proof (cases "entry_inum dp a s = 0")
    case True
    then show ?thesis using a(1) unfolding a(2) list.map free_dirent.simps r by (intro exI[of _ a]) (simp add: entry_inum_def)
  next
    case False
    have d: "d = dir_len dp s - Suc a" using Suc.hyps(2) by simp
    have used: "\<forall>k<Suc a. entry_inum dp k s \<noteq> 0" using Suc.prems(2) False by (simp add: less_Suc_eq)
    then obtain k de' where "free_dirent dp (map (\<lambda>k. 16 * k) [Suc a..<dir_len dp s]) (16 * Suc a) (entry_bytes dp a s) s = Ok (16 * k, de', s)"
      "k \<le> dir_len dp s" "k < dir_len dp s \<longrightarrow> entry_inum dp k s = 0"
      using Suc.hyps(1)[OF d _ used, of "entry_bytes dp a s"] a(1) by auto
    then show ?thesis using False unfolding a(2) list.map free_dirent.simps r by (intro exI[of _ k]) (auto simp: entry_inum_def add.commute)
  qed
qed simp

lemma dirent_bytes_parts:
  fixes i :: u32
  shows "length (dirent_bytes de name i) = 16" "de_inum (dirent_bytes de name i) = ucast i"
    "name_of (de_name (dirent_bytes de name i)) = name_of name"
proof -
  show "length (dirent_bytes de name i) = 16" by (simp add: dirent_bytes_def DIRSIZ_def)
  show "de_inum (dirent_bytes de name i) = ucast i"
    by (simp add: de_inum_def dirent_bytes_def le_word_le_bytes Let_def bit_eq_iff bit_ucast_iff bit_take_bit_iff)
  define X where "X = map (strncpy (cbytes (de_name de)) (cbytes name) DIRSIZ) [0..<DIRSIZ]"
  have X: "length X = DIRSIZ" "i < DIRSIZ \<Longrightarrow> X ! i = (if \<exists>k\<le>i. cbytes name k = 0 then 0 else cbytes name i)" for i
    by (simp_all add: X_def strncpy_def strncpy_loop_eq)
  have "name_of name = name_of X"
    unfolding name_of_def takeWhile_eq_iff
  proof (intro allI impI)
    fix i assume i: "i < DIRSIZ" "\<forall>j<i. j < length name \<and> name ! j \<noteq> 0"
    have "(\<exists>k\<le>i. cbytes name k = 0) \<longleftrightarrow> cbytes name i = 0"
      using i(2) by (auto simp: cbytes_def le_less split: if_splits)
    then show "(i < length name \<and> name ! i \<noteq> 0 \<longleftrightarrow> i < length X \<and> X ! i \<noteq> 0) \<and> (i < length name \<and> name ! i \<noteq> 0 \<longrightarrow> name ! i = X ! i)"
      using X(2)[OF i(1)] i(1) by (auto simp: X(1) cbytes_def split: if_splits)
  qed
  then show "name_of (de_name (dirent_bytes de name i)) = name_of name"
    by (simp add: de_name_def dirent_bytes_def Let_def X_def)
qed

section \<open>dirlink\<close>

lemma entry_in_block:
  "touched (16 * k) 16 = 1" "readi_size (16 * k) 0 16 = 16"
proof -
  have "(16 * k + 1039) div 1024 = (16 * k + 1039) div 16 div 64" by (simp add: div_mult2_eq[symmetric])
  moreover have "(16 * k + 1039) div 16 = k + 64" by simp
  moreover have "16 * k div 1024 = k div 64" using div_mult2_eq[of "16 * k" 16 64] by simp
  ultimately show "touched (16 * k) 16 = 1" by (simp add: touched_def BSIZE_def)
  have "16 * k mod 1024 = 16 * (k mod 64)" using mult_mod_right[of 16 k 64] by simp
  moreover have "k mod 64 < 64" by simp
  ultimately show "readi_size (16 * k) 0 16 = 16" unfolding readi_size_def BSIZE_def by linarith
qed

lemma find_upt_extend:
  assumes "m \<le> n" "\<And>j. j < m \<Longrightarrow> P j = Q j" "\<And>j. m \<le> j \<Longrightarrow> j < n \<Longrightarrow> \<not> Q j"
  shows "List.find Q [0..<n] = List.find P [0..<m]"
proof -
  have "[0..<n] = [0..<m] @ [m..<n]" using assms(1) upt_add_eq_append[of 0 m "n - m"] by simp
  moreover have "List.find Q [m..<n] = None" using assms(3) by (auto simp: find_None_iff)
  moreover have "List.find Q [0..<m] = List.find P [0..<m]" using assms(2) by (intro find_cong) auto
  moreover have "List.find Q (xs @ ys) = (case List.find Q xs of None \<Rightarrow> List.find Q ys | Some x \<Rightarrow> Some x)" for xs ys :: "nat list"
    by (induction xs) auto
  ultimately show ?thesis by (simp split: option.split)
qed

lemma find_upt_only:
  assumes "k < n" "Q k" "\<And>j. j < n \<Longrightarrow> j \<noteq> k \<Longrightarrow> \<not> Q j"
  shows "List.find Q [0..<n] = Some k"
  using assms by (auto simp: find_Some_iff)

text \<open>A state in which entry \<open>k\<close> was replaced.\<close>

lemma dir_map_update:
  assumes old: "find_entry dp nm s = None" "k \<le> dir_len dp s" "k < dir_len dp s \<longrightarrow> entry_inum dp k s = 0"
    and len: "dir_len dp t = max (dir_len dp s) (k + 1)"
    and other: "\<And>j. j < dir_len dp t \<Longrightarrow> j \<noteq> k \<Longrightarrow> entry_bytes dp j t = entry_bytes dp j s"
    and new: "entry_inum dp k t = i" "i \<noteq> 0" "entry_name dp k t = nm"
  shows "dir_map dp t = (dir_map dp s)(nm \<mapsto> i)"
proof (rule ext)
  fix n
  let ?P = "\<lambda>n s j. entry_inum dp j s \<noteq> 0 \<and> entry_name dp j s = n"
  have eq: "entry_inum dp j t = entry_inum dp j s" "entry_name dp j t = entry_name dp j s" if "j < dir_len dp t" "j \<noteq> k" for j
    using other[OF that] by (simp_all add: entry_inum_def entry_name_def)
  have lt: "k < dir_len dp t" "dir_len dp s \<le> dir_len dp t" by (simp_all add: len)
  show "dir_map dp t n = ((dir_map dp s)(nm \<mapsto> i)) n"
  proof (cases "n = nm")
    case True
    have "\<not> ?P nm t j" if "j < dir_len dp t" "j \<noteq> k" for j
      using old(1,2) eq[OF that] that len by (auto simp: find_entry_def find_None_iff)
    then have "find_entry dp nm t = Some k"
      unfolding find_entry_def using new lt(1) by (intro find_upt_only) auto
    then show ?thesis using True new(1) by (simp add: dir_map_def)
  next
    case False
    have same: "?P n s j = ?P n t j" if "j < dir_len dp s" for j
      using eq[of j] that lt(2) old(3) new(3) False by (cases "j = k") auto
    have "\<not> ?P n t j" if "dir_len dp s \<le> j" "j < dir_len dp t" for j
    proof -
      have "j = k" using that len old(2) by linarith
      then show ?thesis using new(3) False by simp
    qed
    then have f: "find_entry dp n t = find_entry dp n s"
      unfolding find_entry_def using same lt(2) by (intro find_upt_extend) auto
    have "entry_inum dp j t = entry_inum dp j s" if "find_entry dp n s = Some j" for j
    proof -
      have "j < dir_len dp s" "entry_inum dp j s \<noteq> 0" using that by (auto simp: find_entry_def find_Some_iff)
      then show ?thesis using eq(1)[of j] lt(2) old(3) by (cases "j = k") auto
    qed
    then show ?thesis using f False by (cases "find_entry dp n s") (auto simp: dir_map_def)
  qed
qed

lemma entry_bytes_cong:
  assumes "\<And>i. 16 * j \<le> i \<Longrightarrow> i < 16 * j + 16 \<Longrightarrow> file_byte dp i t = file_byte dp i s"
  shows "entry_bytes dp j t = entry_bytes dp j s"
  using assms by (simp add: entry_bytes_def)

lemma entry_hole:
  assumes "file_addr dp (16 * k div BSIZE) s = 0"
  shows "entry_inum dp k s = 0"
proof -
  have "file_byte dp i s = 0" if "i \<in> set [16 * k..<16 * k + 16]" for i
  proof -
    have B: "x div BSIZE = x div 16 div 64" for x by (simp add: BSIZE_def div_mult2_eq[symmetric])
    have "i div 16 = k" using that unfolding set_upt by (intro div_nat_eqI) auto
    then have "i div BSIZE = 16 * k div BSIZE" unfolding B by simp
    then show ?thesis using assms by (simp add: file_byte_def)
  qed
  then have "entry_bytes dp k s = map (\<lambda>_. 0) [16 * k..<16 * k + 16]"
    unfolding entry_bytes_def by (rule map_cong[OF refl])
  also have "\<dots> = replicate 16 0" unfolding map_replicate_const by simp
  finally have "entry_inum dp k s = de_inum (replicate 16 0)" by (simp only: entry_inum_def)
  then show ?thesis unfolding de_inum_def take_replicate le_word_zeros by simp
qed

lemma entry_new:
  assumes w: "\<forall>i < MAXFILE * BSIZE. file_byte dp i t
        = (if 16 * k \<le> i \<and> i < 16 * k + 16 then bs ! (i - 16 * k) else file_byte dp i s)"
    and len: "length bs = 16" "16 * k + 16 \<le> MAXFILE * BSIZE"
  shows "entry_bytes dp k t = bs" "j \<noteq> k \<Longrightarrow> 16 * j + 16 \<le> MAXFILE * BSIZE \<Longrightarrow> entry_bytes dp j t = entry_bytes dp j s"
proof -
  show "entry_bytes dp k t = bs"
    by (rule nth_equalityI) (use w len in \<open>auto simp: entry_bytes_def\<close>)
  assume j: "j \<noteq> k" "16 * j + 16 \<le> MAXFILE * BSIZE"
  show "entry_bytes dp j t = entry_bytes dp j s"
  proof (rule entry_bytes_cong)
    fix i assume i: "16 * j \<le> i" "i < 16 * j + 16"
    have "\<not> (16 * k \<le> i \<and> i < 16 * k + 16)" using i j(1) by linarith
    moreover have "i < MAXFILE * BSIZE" using i(2) j(2) by linarith
    ultimately show "file_byte dp i t = file_byte dp i s" using w by (metis (no_types, lifting))
  qed
qed

lemma confined_dtype: "confined ip s t \<Longrightarrow> dtype (icopy (inodes t ip)) = dtype (icopy (inodes s ip))"
  by (simp add: confined_def entry_of_def)

text \<open>Writing an entry at the end or in a free place keeps the directory well formed.\<close>

lemma dir_ok_write:
  assumes ok: "dir_ok dp s" and c: "confined dp s t"
    and k: "k \<le> dir_len dp s" "16 * k + 16 \<le> MAXFILE * BSIZE"
    and size: "unat (dsize (icopy (inodes t dp))) = max (unat (dsize (icopy (inodes s dp)))) (16 * k + 16)"
    and new: "entry_inum dp k t \<noteq> 0"
  shows "dir_ok dp t" "dir_len dp t = max (dir_len dp s) (k + 1)"
proof -
  note d = dir_okD[OF ok]
  have sz: "unat (dsize (icopy (inodes t dp))) = 16 * max (dir_len dp s) (k + 1)"
    unfolding size d(3) by (simp add: max_def)
  then show len: "dir_len dp t = max (dir_len dp s) (k + 1)" by (simp add: dir_len_def)
  have "file_addr dp bn t \<noteq> 0" if bn: "bn * BSIZE < 16 * max (dir_len dp s) (k + 1)" for bn
  proof (cases "bn * BSIZE < 16 * dir_len dp s")
    case True
    have "bn < MAXFILE" using True d(4) by (metis mult_less_cancel2 order_less_le_trans)
    then show ?thesis using c d(5)[OF True] by (simp add: confined_def)
  next
    case False
    have "16 * dir_len dp s \<le> 16 * (64 * bn)" "16 * (64 * bn) < 16 * max (dir_len dp s) (k + 1)"
      using False bn by (simp_all add: BSIZE_def)
    then have "dir_len dp s \<le> 64 * bn" "64 * bn < max (dir_len dp s) (k + 1)" by simp_all
    then have "64 * bn = k" using k(1) by (cases "dir_len dp s < k + 1") (simp_all add: max_def)
    then have "16 * k div BSIZE = bn" by (auto simp: BSIZE_def)
    then show ?thesis using new entry_hole[of dp k t] by auto
  qed
  moreover have "16 * max (dir_len dp s) (k + 1) \<le> MAXFILE * BSIZE" using d(4) k(2) by (simp add: max_def)
  moreover have "dtype (icopy (inodes t dp)) = T_DIR" using confined_dtype[OF c] d(1) by simp
  ultimately show "dir_ok dp t" by (simp add: dir_ok_def sz)
qed

lemma dir_same:
  assumes ok: "dir_ok dp s" and c: "confined dp s t"
    and size: "unat (dsize (icopy (inodes t dp))) = unat (dsize (icopy (inodes s dp)))"
    and bytes: "\<forall>i < MAXFILE * BSIZE. file_byte dp i t = file_byte dp i s"
  shows "dir_ok dp t" "dir_map dp t = dir_map dp s"
proof -
  note d = dir_okD[OF ok]
  have "file_addr dp bn t \<noteq> 0" if bn: "bn * BSIZE < 16 * dir_len dp s" for bn
  proof -
    have "bn < MAXFILE" using bn d(4) by (metis mult_less_cancel2 order_less_le_trans)
    then show ?thesis using c d(5)[OF bn] by (simp add: confined_def)
  qed
  moreover have "dtype (icopy (inodes t dp)) = T_DIR" using confined_dtype[OF c] d(1) by simp
  ultimately show "dir_ok dp t" using d(3,4) by (simp add: dir_ok_def size)
  have len: "dir_len dp t = dir_len dp s" by (simp add: dir_len_def size)
  have eq: "entry_inum dp j t = entry_inum dp j s" "entry_name dp j t = entry_name dp j s" if "j < dir_len dp s" for j
  proof -
    have "entry_bytes dp j t = entry_bytes dp j s"
    proof (rule entry_bytes_cong)
      fix i assume "16 * j \<le> i" "i < 16 * j + 16"
      then have "i < MAXFILE * BSIZE" using that d(4) by linarith
      then show "file_byte dp i t = file_byte dp i s" using bytes by blast
    qed
    then show "entry_inum dp j t = entry_inum dp j s" "entry_name dp j t = entry_name dp j s"
      by (simp_all add: entry_inum_def entry_name_def)
  qed
  have f: "find_entry dp n t = find_entry dp n s" for n
    unfolding find_entry_def len by (rule find_cong) (auto simp: eq)
  show "dir_map dp t = dir_map dp s"
  proof (rule ext)
    fix n show "dir_map dp t n = dir_map dp s n"
    proof (cases "find_entry dp n s")
      case (Some j)
      then have "j < dir_len dp s" by (auto simp: find_entry_def find_Some_iff)
      then show ?thesis using Some eq(1) by (simp add: dir_map_def f)
    qed (simp add: dir_map_def f)
  qed
qed

lemma dirlink_eq:
  assumes ok: "dir_ok dp s" and f: "file_ok dp s" and r: "room 7 s" and i: "(ucast i :: u16) \<noteq> 0" and nm: "find_entry dp (name_of name) s = None"
  shows "\<exists>r s'. dirlink me dp name i s = Ok (r, s') \<and> dir_ok dp s' \<and> file_ok dp s' \<and> confined dp s s' \<and>
    (r = 0 \<and> dir_map dp s' = (dir_map dp s)(name_of name \<mapsto> ucast i)
     \<or> r = -1 \<and> dir_map dp s' = dir_map dp s \<and> (disk_full s' \<or> 16 * dir_len dp s = MAXFILE * BSIZE))"
proof -
  note d = dir_okD[OF ok]
  obtain k de where k: "free_dirent dp (dir_offsets (dsize (icopy (inodes s dp)))) 0 (replicate 16 0) s = Ok (16 * k, de, s)"
    "k \<le> dir_len dp s" "k < dir_len dp s \<longrightarrow> entry_inum dp k s = 0"
    using free_dirent_eq[OF ok, of 0 "replicate 16 0"] unfolding dir_offsets_eq[OF ok] by auto
  let ?bs = "dirent_bytes de name i" and ?off = "of_nat (16 * k) :: u32"
  have off: "unat ?off = 16 * k"
    using d(4) k(2) by (simp add: unat_of_nat MAXFILE_bytes take_bit_nat_eq_self del: of_nat_mult)
  note bs = dirent_bytes_parts[of de name i]
  have e: "dirlink me dp name i s = bindR (writei_local dp ?bs ?off s) (\<lambda>(r, s3). Ok (if r \<noteq> 16 then -1 else 0, s3))"
    using dirlookup_eq[OF ok, of name] nm k(1) by (simp add: dirlink_def del: of_nat_mult)
  have "room (6 * touched (unat ?off) (length ?bs) + 1) s" using r by (simp add: off bs(1) entry_in_block(1) del: of_nat_mult)
  note w = writei_ok[OF f this, unfolded bs(1) off, simplified]
  show ?thesis
  proof (cases "16 * k + 16 > MAXFILE * BSIZE")
    case True
    then have "writei_local dp ?bs ?off s = Ok (-1, s)" using w by (simp del: of_nat_mult)
    moreover have "16 * dir_len dp s = MAXFILE * BSIZE" using True k(2) d(4) unfolding MAXFILE_bytes by presburger
    ultimately show ?thesis unfolding e using ok f by simp
  next
    case False
    have "\<not> unat (dsize (icopy (inodes s dp))) < 16 * k" using k(2) d(3) by simp
    then obtain n s' where s': "writei_local dp ?bs ?off s = Ok (int n, s')" "n = 0 \<or> n = 16" "n < 16 \<longrightarrow> disk_full s'"
      "\<forall>i < MAXFILE * BSIZE. file_byte dp i s' = (if 16 * k \<le> i \<and> i < 16 * k + n then ?bs ! (i - 16 * k) else file_byte dp i s)"
      "unat (dsize (icopy (inodes s' dp))) = max (unat (dsize (icopy (inodes s dp)))) (16 * k + n)" "file_ok dp s'" "confined dp s s'"
      using w False entry_in_block(2)[of k] by (auto simp del: of_nat_mult)
    note w' = s'(4)
    consider "n = 0" | "n = 16" using s'(2) by blast
    then show ?thesis
    proof cases
      case 1
      have "unat (dsize (icopy (inodes s' dp))) = unat (dsize (icopy (inodes s dp)))" using s'(5) 1 d(3) k(2) by simp
      moreover have "\<forall>i < MAXFILE * BSIZE. file_byte dp i s' = file_byte dp i s" using s'(4) 1 by auto
      ultimately have "dir_ok dp s'" "dir_map dp s' = dir_map dp s" by (rule dir_same[OF ok s'(7)])+
      then show ?thesis using 1 s'(1,3,6,7) unfolding e by simp
    next
      case 2
      note en = entry_new[OF w'[unfolded 2] bs(1) not_less[THEN iffD1, OF False]]
      have new: "entry_inum dp k s' = ucast i" "entry_name dp k s' = name_of name"
        using en(1) bs(2,3) by (simp_all add: entry_inum_def entry_name_def)
      have nz: "entry_inum dp k s' \<noteq> 0" using new(1) i by simp
      note ok' = dir_ok_write[OF ok s'(7) k(2) not_less[THEN iffD1, OF False] s'(5)[unfolded 2] nz]
      have "entry_bytes dp j s' = entry_bytes dp j s" if "j < dir_len dp s'" "j \<noteq> k" for j
        using en(2)[OF that(2)] dir_okD(4)[OF ok'(1)] that(1) by simp
      then have "dir_map dp s' = (dir_map dp s)(name_of name \<mapsto> ucast i)"
        by (rule dir_map_update[OF nm k(2,3) ok'(2) _ new(1) i new(2)])
      then show ?thesis using s'(1,6,7) ok'(1) 2 unfolding e by simp
    qed
  qed
qed

text \<open>
  C23. On a well-formed directory \<open>dirlookup\<close> is lookup in the map of the directory: a name it does
  not have gives no inode and changes nothing; otherwise \<open>iget\<close> is called on the number of the
  name, and the offset returned is that of an entry in use with this name and number.
\<close>

theorem dirlookup_correct:
  assumes "dir_ok dp s"
  shows "case dir_map dp s (name_of name) of
      None \<Rightarrow> dirlookup dp name s = Ok (None, s)
    | Some v \<Rightarrow> \<exists>k < dir_len dp s. entry_inum dp k s = v \<and> v \<noteq> 0 \<and> entry_name dp k s = name_of name
        \<and> dirlookup dp name s = bindR (iget (idev (inodes s dp)) (ucast v) s) (\<lambda>(ip, s2). Ok (Some (ip, of_nat (16 * k)), s2))"
proof (cases "find_entry dp (name_of name) s")
  case None
  then show ?thesis using dirlookup_eq[OF assms] by (simp add: dir_map_def)
next
  case (Some k)
  then have "k < dir_len dp s" "entry_inum dp k s \<noteq> 0" "entry_name dp k s = name_of name"
    by (auto simp: find_entry_def find_Some_iff)
  then show ?thesis using Some dirlookup_eq[OF assms, of name] by (auto simp: dir_map_def simp del: of_nat_mult)
qed

text \<open>
  C11. \<open>dirlink\<close> is insertion in the map of a well-formed directory, inside a transaction with room
  for it. A name that is there is refused. Otherwise either the name, cut to 14 characters, is
  mapped to the number, and no other name is affected, or -1 is returned, nothing is changed in the map, and the
  disk or the directory is full. The directory stays well formed, and no other file that shares no
  block with it is affected.
\<close>

theorem dirlink_correct:
  assumes "dir_ok dp s" "file_ok dp s" "room 7 s" "(ucast i :: u16) \<noteq> 0"
  shows "case dir_map dp s (name_of name) of
      Some v \<Rightarrow> dirlink me dp name i s =
        bindR (iget (idev (inodes s dp)) (ucast v) s) (\<lambda>(ip, s1). bindR (iput me ip s1) (\<lambda>s2. Ok (-1, s2)))
    | None \<Rightarrow> \<exists>r s'. dirlink me dp name i s = Ok (r, s') \<and> dir_ok dp s' \<and> file_ok dp s'
        \<and> (r = 0 \<and> dir_map dp s' = (dir_map dp s)(name_of name \<mapsto> ucast i)
           \<or> r = -1 \<and> dir_map dp s' = dir_map dp s \<and> (disk_full s' \<or> 16 * dir_len dp s = MAXFILE * BSIZE))
        \<and> (\<forall>jp. jp \<noteq> dp \<and> file_ok jp s \<and> file_blocks jp s \<inter> file_blocks dp s = {}
              \<and> IBLOCK (inum (inodes s dp)) s \<notin> file_blocks jp s \<longrightarrow> same_file jp s s')"
proof (cases "find_entry dp (name_of name) s")
  case None
  from dirlink_eq[OF assms None, of me] obtain r s' where "dirlink me dp name i s = Ok (r, s')" "dir_ok dp s'" "file_ok dp s'" "confined dp s s'"
    "r = 0 \<and> dir_map dp s' = (dir_map dp s)(name_of name \<mapsto> ucast i)
     \<or> r = -1 \<and> dir_map dp s' = dir_map dp s \<and> (disk_full s' \<or> 16 * dir_len dp s = MAXFILE * BSIZE)" by blast
  then show ?thesis using None confined_other[of dp s s'] by (auto simp: dir_map_def)
next
  case (Some k)
  then show ?thesis
    using dirlookup_eq[OF assms(1), of name]
    by (cases "iget (idev (inodes s dp)) (ucast (entry_inum dp k s)) s") (auto simp: dir_map_def dirlink_def simp del: of_nat_mult)
qed

text \<open>A directory with one entry, \<open>a\<close> for inode 2, in block 47.\<close>

definition demo_dir :: fs_state where
  "demo_dir = demo_fs\<lparr>bview := (bview demo_fs)(47 := \<lambda>i. if i = 0 then 2 else if i = 2 then 97 else 0),
     inodes := (\<lambda>ip. \<lparr>idev = 1, inum = 5, iref = 1, ilk = initsleeplock ''inode'', ivalid = True,
       icopy = \<lparr>dtype = T_DIR, dmajor = 0, dminor = 0, dnlink = 1, dsize = 16, daddrs = (\<lambda>i. if i = 0 then 47 else 0)\<rparr>\<rparr>)\<rparr>"

lemma demo_dir_addr: "file_addr 0 m demo_dir = (if m = 0 then 47 else 0)" "slot_addr 0 m demo_dir = (if m = 0 then 47 else 0)"
  by (simp_all add: slot_addr_def file_addr_def demo_dir_def NDIRECT_def MAXFILE_def)

lemma demo_dir_entry:
  "dir_len 0 demo_dir = 1" "entry_bytes 0 0 demo_dir = [2, 0, 97, 0, 0, 0, 0, 0, 0, 0, 0, 0, 0, 0, 0, 0]"
proof -
  show "dir_len 0 demo_dir = 1" by (simp add: dir_len_def demo_dir_def)
  have "file_byte 0 i demo_dir = (if i = 0 then 2 else if i = 2 then 97 else 0)" if "i < 16" for i
    using that by (simp add: file_byte_def demo_dir_addr BSIZE_def) (simp add: demo_dir_def)
  then show "entry_bytes 0 0 demo_dir = [2, 0, 97, 0, 0, 0, 0, 0, 0, 0, 0, 0, 0, 0, 0, 0]"
    by (simp add: entry_bytes_def upt_conv_Cons)
qed

lemma demo_dir_map: "dir_map 0 demo_dir nm = (if nm = [97] then Some 2 else None)"
proof -
  have "entry_inum 0 0 demo_dir = 2" "entry_name 0 0 demo_dir = [97]"
    unfolding entry_inum_def entry_name_def demo_dir_entry(2) by code_simp+
  then show ?thesis by (simp add: dir_map_def find_entry_def demo_dir_entry(1))
qed

lemma demo_dir_ok: "dir_ok 0 demo_dir"
  using demo_dir_entry(1)
  by (simp add: dir_ok_def demo_dir_addr MAXFILE_bytes) (simp add: demo_dir_def BSIZE_def)

lemma demo_dir_file: "file_ok 0 demo_dir"
proof -
  have e: "fs_size demo_dir = 2000" "BBLOCK b demo_dir = BBLOCK b demo_fs" "bitmap_block b demo_dir = bitmap_block b demo_fs"
    "IBLOCK (inum (inodes demo_dir 0)) demo_dir = 33" for b
    using demo_fs_size by (simp_all add: demo_dir_def fs_size_def BBLOCK_def bitmap_block_def IBLOCK_def demo_fs_def IPB_def BSIZE_def)
  have k: "BBLOCK b demo_fs = 46" if "b < 2000" for b
    using that by (simp add: BPB_def BSIZE_def BBLOCK_def demo_fs_def)
  have u: "block_used b demo_dir = (b < 48)" if "b < 2000" for b
    using k[OF that] e(2)[of b] demo_fs_used[OF that] by (simp add: block_used_def demo_dir_def)
  have "bitmap_ok demo_dir" using demo_fs_ok(1) u by (simp add: bitmap_ok_def e demo_fs_size demo_fs_used)
  moreover have "\<not> bitmap_block 33 demo_fs" "\<not> bitmap_block 47 demo_fs" using k by (auto simp: bitmap_block_def demo_fs_size)
  ultimately show ?thesis
    using u[of 47] u[of 33]
    by (simp add: file_ok_def e data_block_def demo_dir_addr dinode_ok_def inj_on_def) (simp add: demo_dir_def)
qed

theorem dirlookup_correct_witness:
  "dirlookup 0 [97] demo_dir = bindR (iget 1 2 demo_dir) (\<lambda>(ip, s2). Ok (Some (ip, 0), s2)) \<and> dirlookup 0 [98] demo_dir = Ok (None, demo_dir)"
proof -
  have n: "name_of [97] = [97]" "name_of [98] = [98]" by (simp_all add: name_of_def DIRSIZ_def)
  have d: "idev (inodes demo_dir 0) = 1" by (simp add: demo_dir_def)
  show ?thesis
    using dirlookup_correct[OF demo_dir_ok, of "[97]"] dirlookup_correct[OF demo_dir_ok, of "[98]"]
    by (auto simp: n d demo_dir_map demo_dir_entry(1))
qed

theorem dirlink_correct_witness:
  "\<exists>r s'. dirlink 0 0 [98] 5 demo_dir = Ok (r, s')
    \<and> (r = 0 \<and> dir_map 0 s' [98] = Some 5 \<and> dir_map 0 s' [97] = Some 2 \<or> r = -1 \<and> disk_full s')"
proof -
  have n: "name_of [98] = [98]" by (simp add: name_of_def DIRSIZ_def)
  have i: "(ucast (5 :: u32) :: u16) \<noteq> 0" by simp
  have r: "room 7 demo_dir" by (simp add: room_def demo_dir_def demo_fs_def LOGBLOCKS_def MAXOPBLOCKS_def)
  show ?thesis
    using dirlink_correct[where name = "[98]" and me = 0, OF demo_dir_ok demo_dir_file r i]
    by (auto simp: n demo_dir_map demo_dir_entry(1) MAXFILE_bytes)
qed

end
