(* ===== verification/Vm_Lift.thy ===== *)
theory Vm_Lift
  imports Vm_Frame
begin

text \<open>
  The memory functions do not look at the rest of the state either: run in a state with another
  process table, CPUs or locks, they do the same to memory and return the same. Together with
  the frame lemmas this lets a memory operation done under a process lock be moved out of the
  locked section.
\<close>

definition lift :: "'z \<Rightarrow> 'z kmem_state_scheme \<Rightarrow> 'z kmem_state_scheme" where
  "lift x s = s\<lparr>kmem_state.more := x\<rparr>"

lemma lift_simps [simp]:
  "phys (lift x s) = phys s" "freelist (lift x s) = freelist s" "tail (lift x s) = tail s"
  "trace_memory (lift x s) = trace_memory s" "kend (lift x s) = kend s" "ktrace (lift x s) = ktrace s"
  "kmem_state.more (lift x s) = x" "lift x (lift y s) = lift x s" "lift (kmem_state.more s) s = s"
  by (simp_all add: lift_def)

lemma lift_update [simp]:
  "phys_update f (lift x s) = lift x (phys_update f s)"
  "freelist_update g (lift x s) = lift x (freelist_update g s)"
  "tail_update g (lift x s) = lift x (tail_update g s)"
  "ktrace_update k (lift x s) = lift x (ktrace_update k s)"
  by (simp_all add: lift_def)

abbreviation lift_res :: "'z \<Rightarrow> 'z kmem_state_scheme res \<Rightarrow> 'z kmem_state_scheme res" where
  "lift_res x \<equiv> map_res (lift x)"

abbreviation lift_snd :: "'z \<Rightarrow> ('a \<times> 'z kmem_state_scheme) res \<Rightarrow> ('a \<times> 'z kmem_state_scheme) res" where
  "lift_snd x \<equiv> map_res (apsnd (lift x))"

named_theorems lifted

lemma map_res_bind [simp]: "map_res f (bindR m g) = bindR m (\<lambda>x. map_res f (g x))"
  by (cases m) auto

lemma bind_map_res [simp]: "bindR (map_res f m) g = bindR m (\<lambda>x. g (f x))"
  by (cases m) auto

lemma kalloc_lift [lifted]: "kalloc (lift x s) = apsnd (lift x) (kalloc s)"
  by (simp add: kalloc_def Let_def)

lemma kfree_lift [lifted]: "kfree pa (lift x s) = lift_res x (kfree pa s)"
  by (simp add: kfree_def Let_def)

lemma walk_from_lift [lifted]: "walk_from l pt va alloc (lift x s) = apsnd (lift x) (walk_from l pt va alloc s)"
proof (induction l pt va alloc s rule: walk_from.induct)
  case (2 l pt va alloc s)
  obtain page s1 where k: "kalloc s = (page, s1)" by (cases "kalloc s")
  let ?e = "load64 (phys s) (pte_at pt (Suc l) va)"
  show ?case
  proof (cases "?e AND PTE_V \<noteq> 0")
    case True
    then show ?thesis using "2.IH"(1)[OF refl refl True] by (simp add: Let_def)
  next
    case False
    then show ?thesis
      using "2.IH"(2)[OF refl refl _ _ k[symmetric]] k by (auto simp: Let_def kalloc_lift)
  qed
qed simp

lemma walk_lift [lifted]: "walk pt va alloc (lift x s) = lift_snd x (walk pt va alloc s)"
  by (simp add: walk_def lifted)

lemma walkaddr_lift [lifted]: "walkaddr pt va (lift x s) = walkaddr pt va s"
  by (simp add: walkaddr_def lifted Let_def)

lemma ismapped_lift [lifted]: "ismapped pt va (lift x s) = ismapped pt va s"
  by (auto simp: ismapped_def lifted split_def intro!: bindR_cong)

text \<open>A loop that ends with a result in one state ends with the same one in the other.\<close>

lemma loop_lift:
  assumes "\<And>x s y. F s = Some y \<Longrightarrow> F (lift x s) = Some (map_res (M x) y)"
  shows "F (lift x s) = map_option (map_res (M x)) (F s)"
proof (cases "F s")
  case None
  then show ?thesis using assms[of "lift x s" _ "kmem_state.more s"] by (cases "F (lift x s)") auto
next
  case (Some y)
  then show ?thesis using assms by simp
qed

lemma mappages_loop_lift1:
  assumes "mappages_loop pt a fin pa perm s = Some y"
  shows "mappages_loop pt a fin pa perm (lift x s) = Some (lift_snd x y)"
proof -
  let ?P = "\<lambda>pt a fin pa perm s y. mappages_loop pt a fin pa perm (lift x s) = Some (lift_snd x y)"
  show ?thesis
  proof (rule mappages_loop.raw_induct[OF _ assms, of ?P])
    fix f pt a fin pa perm s y
    assume IH: "\<And>pt a fin pa perm s y. f pt a fin pa perm s = Some y \<Longrightarrow> ?P pt a fin pa perm s y"
      and r: "(case walk pt a True s of
        Panic e \<Rightarrow> Some (Panic e)
      | Hang \<Rightarrow> Some Hang
      | Ok q \<Rightarrow>
          (if fst q = 0 then Some (Ok (-1, snd q))
           else if load64 (phys (snd q)) (fst q) AND PTE_V \<noteq> 0 then Some (Panic ''mappages: remap'')
           else let s2 = (snd q)\<lparr>phys := store64 (phys (snd q)) (fst q) (PA2PTE pa OR perm OR PTE_V)\<rparr>
                in if a = fin then Some (Ok (0, s2)) else f pt (a + PGSIZE) fin (pa + PGSIZE) perm s2)) = Some y"
    show "?P pt a fin pa perm s y"
      using r by (subst mappages_loop.simps, cases "walk pt a True s")
        (auto simp: walk_lift Let_def split: if_splits dest!: IH)
  qed
qed

lemma mappages_lift [lifted]: "mappages pt va n pa perm (lift x s) = lift_snd x (mappages pt va n pa perm s)"
proof -
  have "mappages_loop pt a fin pa perm (lift x s) = map_option (lift_snd x) (mappages_loop pt a fin pa perm s)" for a fin
    by (rule loop_lift) (rule mappages_loop_lift1)
  then show ?thesis by (auto simp: mappages_def split: option.split)
qed

lemma vmfault_lift [lifted]: "vmfault p pt va (lift x s) = lift_snd x (vmfault p pt va s)"
  by (auto simp: vmfault_def lifted Let_def split_def intro!: bindR_cong)

lemma uvmunmap_page_lift: "uvmunmap_page pt a fr (lift x s) = lift_res x (uvmunmap_page pt a fr s)"
  by (auto simp: uvmunmap_page_def lifted split_def intro!: bindR_cong)

lemma uvmunmap_loop_lift1:
  assumes "uvmunmap_loop pt a endva fr s = Some y"
  shows "uvmunmap_loop pt a endva fr (lift x s) = Some (lift_res x y)"
proof -
  let ?P = "\<lambda>pt a endva fr s y. uvmunmap_loop pt a endva fr (lift x s) = Some (lift_res x y)"
  show ?thesis
  proof (rule uvmunmap_loop.raw_induct[OF _ assms, of ?P])
    fix f pt a endva fr s y
    assume IH: "\<And>pt a endva fr s y. f pt a endva fr s = Some y \<Longrightarrow> ?P pt a endva fr s y"
      and r: "(if a < endva
        then (case uvmunmap_page pt a fr s of
                Ok s1 \<Rightarrow> f pt (a + PGSIZE) endva fr s1
              | Panic e \<Rightarrow> Some (Panic e)
              | Hang \<Rightarrow> Some Hang)
        else Some (Ok s)) = Some y"
    show "?P pt a endva fr s y"
    proof (cases "uvmunmap_page pt a fr s")
      case (Ok u)
      then show ?thesis using r by (subst uvmunmap_loop.simps) (auto simp: uvmunmap_page_lift split: if_splits dest!: IH)
    next
      case (Panic m)
      then have "y = (if a < endva then Panic m else Ok s)" using r by (simp split: if_splits)
      then show ?thesis using Panic by (subst uvmunmap_loop.simps) (simp add: uvmunmap_page_lift)
    next
      case Hang
      then show ?thesis using r by (subst uvmunmap_loop.simps) (auto simp: uvmunmap_page_lift split: if_splits)
    qed
  qed
qed

lemma uvmunmap_lift [lifted]: "uvmunmap pt va n fr (lift x s) = lift_res x (uvmunmap pt va n fr s)"
proof -
  have "uvmunmap_loop pt a endva fr (lift x s) = map_option (lift_res x) (uvmunmap_loop pt a endva fr s)" for a endva
    by (rule loop_lift) (rule uvmunmap_loop_lift1)
  then show ?thesis by (auto simp: uvmunmap_def split: option.split)
qed

lemma free_entries_lift:
  assumes "\<And>a s. rec a (lift x s) = lift_res x (rec a s)"
  shows "free_entries rec pt ks (lift x s) = lift_res x (free_entries rec pt ks s)"
proof (induction ks arbitrary: s)
  case (Cons k ks)
  then show ?case by (auto simp: Let_def assms intro!: bindR_cong)
qed simp

lemma freewalk_lift [lifted]: "freewalk d pt (lift x s) = lift_res x (freewalk d pt s)"
proof (induction d arbitrary: pt s)
  case (Suc d)
  then show ?case by (simp add: free_entries_lift kfree_lift)
qed simp

lemma uvmfree_lift [lifted]: "uvmfree pt n (lift x s) = lift_res x (uvmfree pt n s)"
  by (simp add: uvmfree_def lifted)

text \<open>One page of \<open>copyout\<close> at a time.\<close>

lemma copyout_lift [lifted]: "copyout p pt va bs (lift x s) = lift_snd x (copyout p pt va bs s)"
proof (induction p pt va bs s rule: copyout.induct)
  case (1 p pt va bs s)
  let ?va0 = "PGROUNDDOWN va" and ?n = "chunk va (length bs)"
  let ?r = "\<lambda>s. if walkaddr pt ?va0 s = 0 then vmfault p pt ?va0 s else Ok (walkaddr pt ?va0 s, s)"
  have res: "?r (lift x s) = lift_snd x (?r s)" by (simp add: lifted)
  show ?case
  proof (cases "bs = [] \<or> ?va0 \<ge> MAXVA")
    case True
    then show ?thesis by (subst (1 2) copyout.simps) (auto simp: Let_def)
  next
    case False
    let ?step = "\<lambda>s1 pa pte. if pte = 0 then Panic ''kerneltrap''
        else if load64 (phys s1) pte AND PTE_W = 0 then Ok (-1, s1)
        else copyout p pt (?va0 + PGSIZE) (drop ?n bs)
               (s1\<lparr>phys := write_bytes (phys s1) (pa + (va - ?va0)) (take ?n bs)\<rparr>)"
    let ?rest = "\<lambda>(pa, s1). if pa = 0 then Ok (-1, s1) else bindR (walk pt ?va0 False s1) (\<lambda>(pte, _). ?step s1 pa pte)"
    have unf: "copyout p pt va bs t = bindR (?r t) ?rest" for t :: "'a kmem_state_scheme"
      using False by (subst copyout.simps) (unfold Let_def, simp)
    have step: "?step (lift x s1) pa pte = lift_snd x (?step s1 pa pte)"
      if "?r s = Ok (pa, s1)" "pa \<noteq> 0" "walk pt ?va0 False s1 = Ok (pte, u)" for pa pte s1 u
      using "1.IH"[OF _ refl _ that(1) refl that(2,3) refl _ _ refl] False by auto
    have "?rest (pa, lift x s1) = lift_snd x (?rest (pa, s1))" if a: "?r s = Ok (pa, s1)" for pa s1
    proof (cases "pa = 0")
      case pa: False
      show ?thesis using step[OF a pa] pa by (cases "walk pt ?va0 False s1") (auto simp: walk_lift)
    qed simp
    then have "bindR (lift_snd x (?r s)) ?rest = lift_snd x (bindR (?r s) ?rest)" by (cases "?r s") auto
    then show ?thesis unfolding unf res .
  qed
qed

end
