(* ===== verification/Life_Correct.thy ===== *)
theory Life_Correct
  imports Life Sched_Correct Vm_Lift Vm_Space
begin

text \<open>
  Exit and wait: what \<open>reparent\<close>, the end of \<open>kexit\<close> and \<open>kwait\<close> do to the process table while
  \<open>wait_lock\<close> is held, and why no parent sleeps on while it has a child that has exited.
\<close>

section \<open>\<open>reparent\<close>\<close>

text \<open>The code runs on CPU \<open>c\<close> as process \<open>me\<close>, holding a spin lock (\<open>wait_lock\<close>), and every process
  lock is free.\<close>

definition in_section :: "nat \<Rightarrow> nat \<Rightarrow> 'z proc_state_scheme \<Rightarrow> bool" where
  "in_section c me s \<longleftrightarrow> locks_free {..<NPROC} s \<and> nest_ok (cpus s c) \<and> noff (cpus s c) > 0 \<and> myproc c s = Some me"

lemma in_sectionD:
  assumes "in_section c me s"
  shows "locks_free {..<NPROC} s" "nest_ok (cpus s c)" "noff (cpus s c) > 0" "myproc c s = Some me"
    "settle (cpus s c) = cpus s c" "p < NPROC \<Longrightarrow> lk_free (plock (procs s p))"
  using assms by (auto simp: in_section_def locks_free_def settle_def)

text \<open>Sleeping in \<open>kwait\<close>.\<close>

definition waits :: "'z proc_state_scheme \<Rightarrow> nat \<Rightarrow> bool" where
  "waits s p \<longleftrightarrow> pstate (procs s p) = SLEEPING \<and> chan (procs s p) = Some (ChanProc p)"

text \<open>Two versions of a process that differ in the state and the parent only.\<close>

definition resched :: "proc \<Rightarrow> proc \<Rightarrow> bool" where
  "resched q q' \<longleftrightarrow> (\<exists>st pa. q' = q\<lparr>pstate := st, parent := pa\<rparr>)"

lemma resched_refl [simp]: "resched q q"
  by (auto simp: resched_def intro!: exI[of _ "pstate q"] exI[of _ "parent q"])

lemma resched_state: "resched q (q\<lparr>pstate := st\<rparr>)"
  by (auto simp: resched_def intro!: exI[of _ st] exI[of _ "parent q"])

lemma resched_parent: "resched q (q\<lparr>parent := pa\<rparr>)"
  by (auto simp: resched_def intro!: exI[of _ "pstate q"] exI[of _ pa])

lemma resched_trans: "resched q r \<Longrightarrow> resched r u \<Longrightarrow> resched q u"
  by (clarsimp simp: resched_def) blast

lemma resched_fields:
  "resched q r \<Longrightarrow> arrival_time r = arrival_time q \<and> trapframe r = trapframe q \<and> pagetable r = pagetable q
     \<and> chan r = chan q \<and> plock r = plock q"
  by (auto simp: resched_def)

text \<open>A step that wakes processes and changes parents only.\<close>

definition wakes :: "nat \<Rightarrow> 'z proc_state_scheme \<Rightarrow> 'z proc_state_scheme \<Rightarrow> bool" where
  "wakes c s t \<longleftrightarrow> cpus t = cpus s \<and> initproc t = initproc s
     \<and> (\<forall>q. resched (procs s q) (procs t q))
     \<and> (\<forall>q. plock (procs t q) = plock (procs s q)
          \<and> (pstate (procs t q) = pstate (procs s q) \<and> chan (procs t q) = chan (procs s q)
             \<or> pstate (procs s q) = SLEEPING \<and> pstate (procs t q) = RUNNABLE))"

lemma wakes_refl [simp]: "wakes c s s"
  by (simp add: wakes_def)

lemma wakes_state:
  "wakes c s t \<Longrightarrow> pstate (procs t q) = pstate (procs s q) \<and> chan (procs t q) = chan (procs s q)
     \<or> pstate (procs s q) = SLEEPING \<and> pstate (procs t q) = RUNNABLE"
  by (simp add: wakes_def)

lemma wakes_only: "wakes c s t \<Longrightarrow> resched (procs s q) (procs t q)"
  by (simp add: wakes_def)

lemma wakes_trans:
  assumes "wakes c s t" "wakes c t u"
  shows "wakes c s u"
proof -
  have "pstate (procs u q) = pstate (procs s q) \<and> chan (procs u q) = chan (procs s q)
     \<or> pstate (procs s q) = SLEEPING \<and> pstate (procs u q) = RUNNABLE" for q
    using wakes_state[OF assms(1), of q] wakes_state[OF assms(2), of q] by auto
  moreover have "resched (procs s q) (procs u q)" for q
    using resched_trans[OF wakes_only[OF assms(1)] wakes_only[OF assms(2)]] .
  ultimately show ?thesis using assms by (simp add: wakes_def)
qed

lemma wakes_section: "wakes c s t \<Longrightarrow> in_section c me s \<Longrightarrow> in_section c me t"
  by (simp add: wakes_def in_section_def locks_free_def myproc_def)

lemma wakes_waits: "wakes c s t \<Longrightarrow> waits t p \<Longrightarrow> waits s p"
  using wakes_state[of c s t p] by (auto simp: waits_def)

lemma wakeup_section:
  assumes "in_section c me s"
  shows "\<exists>t. wakeup c ch s = Ok t \<and> wakes c s t \<and> (\<forall>q. parent (procs t q) = parent (procs s q))
    \<and> (\<forall>q < NPROC. q \<noteq> me \<longrightarrow> \<not> (pstate (procs t q) = SLEEPING \<and> chan (procs t q) = Some ch))
    \<and> (\<forall>q. chan (procs s q) \<noteq> Some ch \<longrightarrow> pstate (procs t q) = pstate (procs s q))"
proof -
  note i = in_sectionD[OF assms]
  show ?thesis
    using wakeup_wake[OF i(1-3), of ch] by (auto simp: wakes_def wake_def woken_def i(4) resched_state)
qed

lemma reparent_ok:
  assumes "in_section c me s" "initproc s = Some i" "i \<noteq> me" "i < NPROC"
  shows "\<exists>t. iterR (reparent_one c me) ps s = Ok t \<and> wakes c s t
    \<and> (\<forall>q. parent (procs t q) = (if q \<in> set ps \<and> parent (procs s q) = Some me then Some i else parent (procs s q)))
    \<and> ((\<exists>q \<in> set ps. parent (procs s q) = Some me) \<longrightarrow> \<not> waits t i)
    \<and> (\<forall>q. chan (procs s q) \<noteq> Some (ChanProc i) \<longrightarrow> pstate (procs t q) = pstate (procs s q))"
  using assms
proof (induction ps arbitrary: s)
  case (Cons p ps)
  show ?case
  proof (cases "parent (procs s p) = Some me")
    case False
    then show ?thesis using Cons.IH[OF Cons.prems] by (auto simp: reparent_one_def)
  next
    case True
    let ?s = "upd_proc p (parent_update (\<lambda>_. Some i)) s"
    have w: "wakes c s ?s" by (auto simp: wakes_def resched_parent) (simp add: upd_proc_def)
    obtain t where t: "wakeup c (ChanProc i) ?s = Ok t" "wakes c ?s t" "\<forall>q. parent (procs t q) = parent (procs ?s q)"
      "\<forall>q < NPROC. q \<noteq> me \<longrightarrow> \<not> (pstate (procs t q) = SLEEPING \<and> chan (procs t q) = Some (ChanProc i))"
      "\<forall>q. chan (procs ?s q) \<noteq> Some (ChanProc i) \<longrightarrow> pstate (procs t q) = pstate (procs ?s q)"
      using wakeup_section[OF wakes_section[OF w Cons.prems(1)]] by blast
    note w' = wakes_trans[OF w t(2)]
    have "initproc t = Some i" using w' Cons.prems(2) by (simp add: wakes_def)
    from Cons.IH[OF wakes_section[OF w' Cons.prems(1)] this Cons.prems(3,4)] obtain u where
      u: "iterR (reparent_one c me) ps t = Ok u" "wakes c t u"
      "\<forall>q. parent (procs u q) = (if q \<in> set ps \<and> parent (procs t q) = Some me then Some i else parent (procs t q))"
      "\<forall>q. chan (procs t q) \<noteq> Some (ChanProc i) \<longrightarrow> pstate (procs u q) = pstate (procs t q)" by blast
    have st: "pstate (procs u q) = pstate (procs s q)" if "chan (procs s q) \<noteq> Some (ChanProc i)" for q
      using t(5) u(4) that resched_fields[OF wakes_only[OF w', of q]] by (auto split: if_splits)
    have "\<not> waits t i" using t(4) Cons.prems(3,4) by (simp add: waits_def)
    then have "\<not> waits u i" using wakes_waits[OF u(2)] by blast
    moreover have "reparent_one c me p s = Ok t"
      using True t(1) Cons.prems(2) by (simp add: reparent_one_def wakeup_ptr_def)
    moreover have "parent (procs u q) = (if q \<in> set (p # ps) \<and> parent (procs s q) = Some me then Some i else parent (procs s q))" for q
      using u(3) t(3) True Cons.prems(3) by auto
    ultimately show ?thesis using u(1) wakes_trans[OF w' u(2)] st by auto
  qed
qed simp

section \<open>The end of \<open>kexit\<close>\<close>

text \<open>After \<open>exit_notify\<close> and the release of its lock by the scheduler: the process is a zombie,
  its children are those of \<open>initproc\<close>, and nobody who could wait for a new zombie sleeps.\<close>

definition exited :: "nat \<Rightarrow> nat \<Rightarrow> int \<Rightarrow> 'z proc_state_scheme \<Rightarrow> 'z proc_state_scheme \<Rightarrow> bool" where
  "exited me i status s t \<longleftrightarrow>
     pstate (procs t me) = ZOMBIE \<and> xstate (procs t me) = status
     \<and> (\<forall>q < NPROC. parent (procs t q) = (if parent (procs s q) = Some me then Some i else parent (procs s q)))
     \<and> (\<forall>q. q \<noteq> me \<longrightarrow> pstate (procs t q) = pstate (procs s q) \<and> chan (procs t q) = chan (procs s q)
          \<or> pstate (procs s q) = SLEEPING \<and> pstate (procs t q) = RUNNABLE)
     \<and> ((\<exists>q < NPROC. parent (procs s q) = Some me) \<longrightarrow> \<not> waits t i)
     \<and> (\<forall>p < NPROC. parent (procs t me) = Some p \<longrightarrow> \<not> waits t p)
     \<and> locks_free {..<NPROC} t"

lemma keeps_lock_zombie: "keeps_lock (\<lambda>q. q\<lparr>xstate := status, pstate := ZOMBIE\<rparr>)"
  by (simp add: keeps_lock_def)

lemma exit_notify_eq:
  assumes sec: "in_section c me s" and i: "initproc s = Some i" "i \<noteq> me" "i < NPROC" and me: "me < NPROC"
  shows "\<exists>s2. exit_notify c me status s = Ok (upd_proc me (\<lambda>q. q\<lparr>xstate := status, pstate := ZOMBIE\<rparr>) (lock_st c me s2))
    \<and> wakes c s s2 \<and> in_section c me s2
    \<and> (\<forall>q. parent (procs s2 q) = (if q < NPROC \<and> parent (procs s q) = Some me then Some i else parent (procs s q)))
    \<and> ((\<exists>q < NPROC. parent (procs s q) = Some me) \<longrightarrow> \<not> waits s2 i)
    \<and> (\<forall>p < NPROC. p \<noteq> me \<longrightarrow> parent (procs s2 me) = Some p \<longrightarrow> \<not> waits s2 p)
    \<and> (\<forall>q. (\<forall>k. chan (procs s q) \<noteq> Some (ChanProc k)) \<longrightarrow> pstate (procs s2 q) = pstate (procs s q))"
proof -
  obtain s1 where r1: "iterR (reparent_one c me) [0..<NPROC] s = Ok s1 \<and> wakes c s s1
    \<and> (\<forall>q. parent (procs s1 q) = (if q \<in> set [0..<NPROC] \<and> parent (procs s q) = Some me then Some i else parent (procs s q)))
    \<and> ((\<exists>q \<in> set [0..<NPROC]. parent (procs s q) = Some me) \<longrightarrow> \<not> waits s1 i)
    \<and> (\<forall>q. chan (procs s q) \<noteq> Some (ChanProc i) \<longrightarrow> pstate (procs s1 q) = pstate (procs s q))"
    using reparent_ok[OF sec i, of "[0..<NPROC]"] by blast
  then have s1: "reparent c me s = Ok s1" "wakes c s s1"
    "\<forall>q. parent (procs s1 q) = (if q < NPROC \<and> parent (procs s q) = Some me then Some i else parent (procs s q))"
    "(\<exists>q < NPROC. parent (procs s q) = Some me) \<longrightarrow> \<not> waits s1 i"
    "\<forall>q. chan (procs s q) \<noteq> Some (ChanProc i) \<longrightarrow> pstate (procs s1 q) = pstate (procs s q)"
    by (auto simp: reparent_def)
  note sec1 = wakes_section[OF s1(2) sec]
  obtain s2 where s2: "wakeup_ptr c (parent (procs s1 me)) s1 = Ok s2" "wakes c s1 s2" "\<forall>q. parent (procs s2 q) = parent (procs s1 q)"
    "\<forall>p < NPROC. p \<noteq> me \<longrightarrow> parent (procs s1 me) = Some p \<longrightarrow> \<not> waits s2 p"
    "\<forall>q. (\<forall>k. chan (procs s1 q) \<noteq> Some (ChanProc k)) \<longrightarrow> pstate (procs s2 q) = pstate (procs s1 q)"
  proof (cases "parent (procs s1 me)")
    case None
    then show thesis using that[of s1] by (simp add: wakeup_ptr_def)
  next
    case (Some p)
    then show thesis using wakeup_section[OF sec1, of "ChanProc p"] that by (auto simp: wakeup_ptr_def waits_def)
  qed
  note sec2 = wakes_section[OF s2(2) sec1]
  have free: "lk_free (plock (procs s2 me))" using in_sectionD(6)[OF sec2 me] .
  have "exit_notify c me status s = Ok (upd_proc me (\<lambda>q. q\<lparr>xstate := status, pstate := ZOMBIE\<rparr>) (lock_st c me s2))"
    using s1(1) s2(1) acquire_free[OF free] by (simp add: exit_notify_def)
  moreover have "(\<exists>q < NPROC. parent (procs s q) = Some me) \<longrightarrow> \<not> waits s2 i"
    using s1(4) wakes_waits[OF s2(2)] by blast
  moreover have "pstate (procs s2 q) = pstate (procs s q)" if "\<forall>k. chan (procs s q) \<noteq> Some (ChanProc k)" for q
    using s1(5) s2(5) that resched_fields[OF wakes_only[OF s1(2), of q]] by simp
  ultimately show ?thesis
    using wakes_trans[OF s1(2) s2(2)] sec2 s1(3) s2(3,4) by (intro exI[of _ s2] conjI) simp_all
qed

lemma exit_notify_ok:
  assumes sec: "in_section c me s" and i: "initproc s = Some i" "i \<noteq> me" "i < NPROC" and me: "me < NPROC"
  shows "\<exists>u t. exit_notify c me status s = Ok u \<and> plock_release c me u = Ok t \<and> exited me i status s t"
proof -
  let ?f = "\<lambda>q. q\<lparr>xstate := status, pstate := ZOMBIE\<rparr>"
  obtain s2 where s2: "exit_notify c me status s = Ok (upd_proc me ?f (lock_st c me s2))" "wakes c s s2" "in_section c me s2"
    "\<forall>q. parent (procs s2 q) = (if q < NPROC \<and> parent (procs s q) = Some me then Some i else parent (procs s q))"
    "(\<exists>q < NPROC. parent (procs s q) = Some me) \<longrightarrow> \<not> waits s2 i"
    "\<forall>p < NPROC. p \<noteq> me \<longrightarrow> parent (procs s2 me) = Some p \<longrightarrow> \<not> waits s2 p"
    using exit_notify_eq[OF assms, of status] by blast
  let ?t = "upd_cpu c settle (upd_proc me ?f s2)"
  have r: "plock_release c me (upd_proc me ?f (lock_st c me s2)) = Ok ?t"
    by (rule release_lock_st[OF in_sectionD(6)[OF s2(3) me] in_sectionD(2)[OF s2(3)] keeps_lock_zombie])
  have self: "\<not> waits ?t me" by (simp add: waits_def)
  have old: "waits ?t p \<Longrightarrow> waits s2 p" for p by (cases "p = me") (simp_all add: waits_def)
  have "\<not> waits ?t p" if "p < NPROC" "parent (procs ?t me) = Some p" for p
    using that s2(4,6) self old[of p] by (cases "p = me") auto
  moreover have "(\<exists>q < NPROC. parent (procs s q) = Some me) \<longrightarrow> \<not> waits ?t i"
    using s2(5) old by blast
  moreover have "locks_free {..<NPROC} ?t" using in_sectionD(1)[OF s2(3)] by (simp add: locks_free_def)
  moreover have "q \<noteq> me \<longrightarrow> pstate (procs ?t q) = pstate (procs s q) \<and> chan (procs ?t q) = chan (procs s q)
      \<or> pstate (procs s q) = SLEEPING \<and> pstate (procs ?t q) = RUNNABLE" for q
    using wakes_state[OF s2(2), of q] by auto
  ultimately have "exited me i status s ?t" using s2(4) unfolding exited_def by auto
  then show ?thesis using s2(1) r by blast
qed

section \<open>\<open>kwait\<close>\<close>

lemma free_entries_frame:
  assumes "\<And>a s s'. rec a s = Ok s' \<Longrightarrow> kmem_state.more s' = kmem_state.more s"
  shows "free_entries rec pt ks s = Ok s' \<Longrightarrow> kmem_state.more s' = kmem_state.more s"
proof (induction ks arbitrary: s)
  case (Cons k ks)
  then show ?case by (fastforce simp: Let_def res_iff split: if_splits dest: assms)
qed simp

lemma freewalk_frame: "freewalk d pt s = Ok s' \<Longrightarrow> kmem_state.more s' = kmem_state.more s"
proof (induction d arbitrary: pt s s')
  case (Suc d)
  then obtain s1 where "free_entries (freewalk d) pt [0..<512] s = Ok s1" "kfree pt s1 = Ok s'" by (auto simp: res_iff)
  then show ?case using free_entries_frame[where rec = "freewalk d"] Suc.IH kfree_frame by metis
qed simp

lemma uvmfree_frame [vm_frame]: "uvmfree pt n s = Ok s' \<Longrightarrow> kmem_state.more s' = kmem_state.more s"
  by (auto simp: uvmfree_def res_iff split: if_splits dest!: freewalk_frame uvmunmap_frame)

lemma proc_freepagetable_frame [vm_frame]: "proc_freepagetable pt n s = Ok s' \<Longrightarrow> kmem_state.more s' = kmem_state.more s"
  by (auto simp: proc_freepagetable_def res_iff dest!: uvmfree_frame uvmunmap_frame)

lemma more_fields: "kmem_state.more s = kmem_state.more t \<Longrightarrow> procs s = procs t \<and> cpus s = cpus t \<and> initproc s = initproc t"
  by (cases s; cases t) simp

definition cleared :: "proc \<Rightarrow> proc" where
  "cleared q = q\<lparr>trapframe := 0, pagetable := 0, sz := 0, pid := 0, parent := None,
     pname := (pname q)(0 := 0), chan := None, pkilled := 0, xstate := 0, pstate := UNUSED\<rparr>"

lemma freeproc_procs:
  assumes "freeproc p s = Ok t"
  shows "procs t = (procs s)(p := cleared (procs s p))" "cpus t = cpus s" "initproc t = initproc s"
proof -
  obtain s1 where s1: "(if trapframe (procs s p) \<noteq> 0 then kfree (trapframe (procs s p)) s else Ok s) = Ok s1"
    using assms by (auto simp: freeproc_def res_iff)
  have f1: "procs s1 = procs s" "cpus s1 = cpus s" "initproc s1 = initproc s"
    using s1 more_fields[OF kfree_frame, of "trapframe (procs s p)" s s1] by (auto split: if_splits)
  let ?s2 = "upd_proc p (trapframe_update (\<lambda>_. 0)) s1"
  have i2: "initproc ?s2 = initproc s1" by (simp add: upd_proc_def)
  obtain s3 where s3: "(if pagetable (procs ?s2 p) \<noteq> 0
      then proc_freepagetable (pagetable (procs ?s2 p)) (sz (procs ?s2 p)) ?s2 else Ok ?s2) = Ok s3"
    "t = upd_proc p (\<lambda>q. q\<lparr>pagetable := 0, sz := 0, pid := 0, parent := None,
              pname := (pname q)(0 := 0), chan := None, pkilled := 0, xstate := 0, pstate := UNUSED\<rparr>) s3"
    using assms s1 by (auto simp: freeproc_def res_iff Let_def)
  have f3: "procs s3 = procs ?s2" "cpus s3 = cpus ?s2" "initproc s3 = initproc ?s2"
    using s3(1) more_fields[OF proc_freepagetable_frame, of "pagetable (procs ?s2 p)" "sz (procs ?s2 p)" ?s2 s3]
    by (auto split: if_splits)
  show "procs t = (procs s)(p := cleared (procs s p))" "cpus t = cpus s"
    by (simp_all add: s3(2) f3 f1 cleared_def)
  show "initproc t = initproc s" using f3(3) f1(3) i2 by (simp add: s3(2) upd_proc_def)
qed

definition zombie_child :: "nat \<Rightarrow> 'z proc_state_scheme \<Rightarrow> nat \<Rightarrow> bool" where
  "zombie_child me s pp \<longleftrightarrow> parent (procs s pp) = Some me \<and> pstate (procs s pp) = ZOMBIE"

lemma kwait_scan_find:
  assumes sec: "in_section c me s"
  shows "set pps \<subseteq> {..<NPROC} \<Longrightarrow> kwait_scan c me addr pps kids s =
    (case List.find (zombie_child me s) pps of
       None \<Rightarrow> Ok (None, kids \<or> (\<exists>pp \<in> set pps. parent (procs s pp) = Some me), s)
     | Some pp \<Rightarrow> kwait_scan c me addr [pp] False s)"
proof (induction pps arbitrary: kids)
  case (Cons pp pps)
  note i = in_sectionD[OF sec]
  have free: "lk_free (plock (procs s pp))" using i(6) Cons.prems by simp
  have id: "upd_cpu c settle s = s" using i(5) by (intro upd_cpu_id)
  note rel = release_lock_st0[OF free i(2), unfolded id]
  have st: "pstate (procs (lock_st c pp s) pp) = pstate (procs s pp)" by simp
  show ?case
  proof (cases "zombie_child me s pp")
    case True
    then show ?thesis using acquire_free[OF free, of c] by (simp add: zombie_child_def Let_def st)
  next
    case False
    then show ?thesis
      using Cons.IH Cons.prems acquire_free[OF free, of c] rel
      by (auto simp: zombie_child_def st split: option.split)
  qed
qed simp

text \<open>A memory operation under the lock of \<open>p\<close> is the same operation outside.\<close>

lemma lock_st_lift: "lift (kmem_state.more (lock_st c p s)) s = lock_st c p s"
  by (cases s) (simp add: lift_def lock_st_def upd_cpu_def upd_proc_def)

lemma lock_st_more: "kmem_state.more t = kmem_state.more s \<Longrightarrow> lift (kmem_state.more (lock_st c p s)) t = lock_st c p t"
  by (cases s; cases t) (simp add: lift_def lock_st_def upd_cpu_def upd_proc_def)

lemma under_lock:
  assumes "\<And>x s. F (lift x s) = lift_res x (F s)" "\<And>t. F s = Ok t \<Longrightarrow> kmem_state.more t = kmem_state.more s"
  shows "F (lock_st c p s) = map_res (lock_st c p) (F s)"
  using assms(1)[of "kmem_state.more (lock_st c p s)" s] assms(2)
  by (cases "F s") (auto simp: lock_st_lift lock_st_more)

lemma under_lock_snd:
  assumes "\<And>x s. F (lift x s) = lift_snd x (F s)" "\<And>r t. F s = Ok (r, t) \<Longrightarrow> kmem_state.more t = kmem_state.more s"
  shows "F (lock_st c p s) = map_res (apsnd (lock_st c p)) (F s)"
  using assms(1)[of "kmem_state.more (lock_st c p s)" s] assms(2)
  by (cases "F s") (auto simp: lock_st_lift lock_st_more)

lemma proc_freepagetable_lift [lifted]:
  "proc_freepagetable pt n (lift x s) = lift_res x (proc_freepagetable pt n s)"
  by (simp add: proc_freepagetable_def lifted)

lemma copyout_lock: "copyout p pt va bs (lock_st c q s) = map_res (apsnd (lock_st c q)) (copyout p pt va bs s)"
  by (rule under_lock_snd[OF copyout_lift copyout_frame])

lemma kfree_lock: "kfree pa (lock_st c q s) = map_res (lock_st c q) (kfree pa s)"
  by (rule under_lock[OF kfree_lift kfree_frame])

lemma proc_freepagetable_lock:
  "proc_freepagetable pt n (lock_st c q s) = map_res (lock_st c q) (proc_freepagetable pt n s)"
  by (rule under_lock[OF proc_freepagetable_lift proc_freepagetable_frame])

lemma upd_proc_lock: "keeps_lock f \<Longrightarrow> upd_proc p f (lock_st c p s) = lock_st c p (upd_proc p f s)"
  by (auto simp: keeps_lock_def lock_st_def upd_proc_cpu intro!: arg_cong[where f = "upd_cpu c push_off"] upd_proc_cong)

lemma freeproc_lock: "freeproc p (lock_st c p s) = map_res (lock_st c p) (freeproc p s)"
proof -
  let ?f = "trapframe_update (\<lambda>_. 0)"
  let ?g = "\<lambda>q. q\<lparr>pagetable := 0, sz := 0, pid := 0, parent := None,
       pname := (pname q)(0 := 0), chan := None, pkilled := 0, xstate := 0, pstate := UNUSED\<rparr>"
  let ?A = "\<lambda>s. if trapframe (procs s p) \<noteq> 0 then kfree (trapframe (procs s p)) s else Ok s"
  let ?B = "\<lambda>s. if pagetable (procs s p) \<noteq> 0
    then proc_freepagetable (pagetable (procs s p)) (sz (procs s p)) s else Ok s"
  have k: "keeps_lock ?f" "keeps_lock ?g" by (simp_all add: keeps_lock_def)
  have f: "trapframe (procs (lock_st c p s) q) = trapframe (procs s q)"
    "pagetable (procs (lock_st c p s) q) = pagetable (procs s q)" "sz (procs (lock_st c p s) q) = sz (procs s q)"
    for s :: "'a proc_state_scheme" and q
    by (simp_all add: lock_st_def)
  have A: "?A (lock_st c p s) = map_res (lock_st c p) (?A s)" and B: "?B (lock_st c p s) = map_res (lock_st c p) (?B s)"
    for s :: "'a proc_state_scheme" by (simp_all add: f kfree_lock proc_freepagetable_lock)
  have unf: "freeproc p s = bindR (?A s) (\<lambda>s1. bindR (?B (upd_proc p ?f s1)) (\<lambda>s3. Ok (upd_proc p ?g s3)))"
    for s :: "'a proc_state_scheme" unfolding freeproc_def Let_def ..
  show ?thesis
    unfolding unf A bind_map_res map_res_bind upd_proc_lock[OF k(1)] B upd_proc_lock[OF k(2)] res.map ..
qed

text \<open>What \<open>kwait\<close> does with the zombie \<open>pp\<close>: the status goes out, then the slot is freed.\<close>

definition status_out :: "nat \<Rightarrow> nat \<Rightarrow> u64 \<Rightarrow> 'z proc_state_scheme \<Rightarrow> (int \<times> 'z proc_state_scheme) res" where
  "status_out me pp addr s =
     (if addr = 0 then Ok (0, s)
      else copyout (uproc_of (procs s me)) (pagetable (procs s me)) addr (le_bytes 4 (word_of_int (xstate (procs s pp)))) s)"

lemma status_out_lock: "status_out me pp addr (lock_st c pp s) = map_res (apsnd (lock_st c pp)) (status_out me pp addr s)"
proof -
  have "uproc_of (procs (lock_st c pp s) me) = uproc_of (procs s me)" "pagetable (procs (lock_st c pp s) me) = pagetable (procs s me)"
    "xstate (procs (lock_st c pp s) pp) = xstate (procs s pp)"
    by (simp_all add: lock_st_def uproc_of_def)
  then show ?thesis by (simp add: status_out_def copyout_lock)
qed

lemma status_out_frame: "status_out me pp addr s = Ok (r, t) \<Longrightarrow> kmem_state.more t = kmem_state.more s"
  by (auto simp: status_out_def split: if_splits dest: copyout_frame)

lemma kwait_reap:
  assumes sec: "in_section c me s" and pp: "pp < NPROC" "zombie_child me s pp"
  shows "kwait_scan c me addr [pp] kids s = bindR (status_out me pp addr s) (\<lambda>(e, u).
      if e < 0 then Ok (Some (-1), True, u)
      else bindR (freeproc pp u) (\<lambda>t. Ok (Some (pid (procs s pp)), True, t)))"
proof -
  note i = in_sectionD[OF sec]
  have free: "lk_free (plock (procs s pp))" using i(6)[OF pp(1)] .
  have rel: "plock_release c pp (lock_st c pp t) = Ok t"
    if "cpus t = cpus s" "lk_free (plock (procs t pp))" for t :: "'a proc_state_scheme"
    using release_lock_st0[of t pp c] that i(2,5) upd_cpu_id[of settle t c] by simp
  have "kwait_scan c me addr [pp] kids s = bindR (status_out me pp addr (lock_st c pp s)) (\<lambda>(r, s2).
      if r < 0 then bindR (plock_release c pp s2) (\<lambda>s3. Ok (Some (-1), True, s3))
      else bindR (freeproc pp s2) (\<lambda>s3. bindR (plock_release c pp s3) (\<lambda>s4. Ok (Some (pid (procs s pp)), True, s4))))"
    using pp acquire_free[OF free, of c] by (simp add: zombie_child_def Let_def status_out_def)
  also have "\<dots> = bindR (status_out me pp addr s) (\<lambda>(e, u).
      if e < 0 then Ok (Some (-1), True, u)
      else bindR (freeproc pp u) (\<lambda>t. Ok (Some (pid (procs s pp)), True, t)))"
  proof (cases "status_out me pp addr s")
    case (Ok q)
    obtain e u where q: "q = (e, u)" by (cases q)
    have u: "procs u = procs s" "cpus u = cpus s" using more_fields[OF status_out_frame] Ok q by blast+
    show ?thesis
    proof (cases "e < 0 \<or> (\<forall>t. freeproc pp u \<noteq> Ok t)")
      case True
      then show ?thesis
        using Ok q rel[OF u(2)] free by (cases "freeproc pp u") (auto simp: status_out_lock freeproc_lock u)
    next
      case False
      then obtain t where t: "freeproc pp u = Ok t" by blast
      then have "cpus t = cpus s" "lk_free (plock (procs t pp))"
        using freeproc_procs[OF t] u free by (simp_all add: cleared_def)
      then show ?thesis using Ok q False t rel by (simp add: status_out_lock freeproc_lock)
    qed
  qed (simp_all add: status_out_lock)
  finally show ?thesis .
qed

lemma upt_bounded: "set [0..<n] \<subseteq> {..<n}"
  by auto

lemma kwait_eq:
  assumes sec: "in_section c me s"
  shows "case List.find (zombie_child me s) [0..<NPROC] of
      None \<Rightarrow> kwait c me addr s =
        Ok (if (\<exists>q < NPROC. parent (procs s q) = Some me) \<and> pkilled (procs s me) = 0 then Asleep () else Done (-1), s)
    | Some pp \<Rightarrow> kwait c me addr s = bindR (status_out me pp addr s) (\<lambda>(e, u).
        if e < 0 then Ok (Done (-1), u)
        else bindR (freeproc pp u) (\<lambda>t. Ok (Done (pid (procs s pp)), t)))"
proof (cases "List.find (zombie_child me s) [0..<NPROC]")
  case None
  have "(\<exists>pp \<in> set [0..<NPROC]. parent (procs s pp) = Some me) \<longleftrightarrow> (\<exists>q < NPROC. parent (procs s q) = Some me)" by auto
  then show ?thesis using None kwait_scan_find[OF sec upt_bounded, of addr False] by (auto simp: kwait_def)
next
  case (Some pp)
  have pp: "pp < NPROC" "zombie_child me s pp" using find_Some_iff[of "zombie_child me s" "[0..<NPROC]" pp] Some by auto
  have e: "kwait_scan c me addr [0..<NPROC] False s = kwait_scan c me addr [pp] False s"
    using kwait_scan_find[OF sec upt_bounded, of addr False] Some by auto
  show ?thesis
    unfolding Some kwait_def e kwait_reap[OF sec pp]
    by (auto simp: bindR_assoc split_def intro!: bindR_cong)
qed

lemma kwait_procs:
  assumes "in_section c me s" "kwait c me addr s = Ok (r, t)"
  shows "case List.find (zombie_child me s) [0..<NPROC] of
      None \<Rightarrow> t = s \<and> r = (if (\<exists>q < NPROC. parent (procs s q) = Some me) \<and> pkilled (procs s me) = 0 then Asleep () else Done (-1))
    | Some pp \<Rightarrow> r = Done (-1) \<and> addr \<noteq> 0 \<and> procs t = procs s
        \<or> r = Done (pid (procs s pp)) \<and> procs t = (procs s)(pp := cleared (procs s pp))"
proof (cases "List.find (zombie_child me s) [0..<NPROC]")
  case None
  then show ?thesis using kwait_eq[OF assms(1), of addr] assms(2) by auto
next
  case (Some pp)
  then obtain e u where u: "status_out me pp addr s = Ok (e, u)"
    "(if e < 0 then Ok (Done (-1), u) else bindR (freeproc pp u) (\<lambda>t. Ok (Done (pid (procs s pp)), t))) = Ok (r, t)"
    using kwait_eq[OF assms(1), of addr] assms(2) by (cases "status_out me pp addr s") auto
  have "procs u = procs s" using more_fields[OF status_out_frame[OF u(1)]] by blast
  moreover have "e < 0 \<Longrightarrow> addr \<noteq> 0" using u(1) by (auto simp: status_out_def)
  ultimately show ?thesis using Some u(2) freeproc_procs(1)[of pp u t] by (auto simp: res_iff split: if_splits)
qed

text \<open>
  C24. \<open>kwait\<close>, called under \<open>wait_lock\<close>, on every branch. With no zombie among its children the
  caller sleeps exactly if it has a child and is not killed, and gets -1 otherwise; nothing has
  changed. With one, it never sleeps: the first zombie \<open>pp\<close> of the table is chosen, its exit status is
  copied out as four bytes to \<open>addr\<close> unless \<open>addr\<close> is 0, and if and only if that fails the call returns -1
  with nothing reaped; otherwise \<open>pp\<close> is freed and its pid returned. The process table changes only
  in the slot of \<open>pp\<close>, which is cleared. For a well-formed address space of the caller: the first \<open>k\<close>
  bytes of the status are in its contents, all four exactly if the call does not fail, on pages the
  caller may write; nothing else of the contents changes, and the copy does not fail when the target is writable user memory (or not
  allocated yet, with pages free).
\<close>

theorem kwait_correct:
  assumes "in_section c me s"
  shows "case List.find (zombie_child me s) [0..<NPROC] of
      None \<Rightarrow> kwait c me addr s =
        Ok (if (\<exists>q < NPROC. parent (procs s q) = Some me) \<and> pkilled (procs s me) = 0 then Asleep () else Done (-1), s)
    | Some pp \<Rightarrow>
        (let root = pagetable (procs s me); status = le_bytes 4 (word_of_int (xstate (procs s pp)));
             reap = (\<lambda>u. bindR (freeproc pp u) (\<lambda>t. Ok (Done (pid (procs s pp)), t)))
         in kwait c me addr s = bindR (if addr = 0 then Ok (0, s) else copyout (uproc_of (procs s me)) root addr status s)
              (\<lambda>(e, u). if e < 0 then Ok (Done (-1), u) else reap u)
          \<and> (\<forall>r t. kwait c me addr s = Ok (r, t) \<longrightarrow>
              r = Done (-1) \<and> addr \<noteq> 0 \<and> procs t = procs s
              \<or> r = Done (pid (procs s pp)) \<and> procs t = (procs s)(pp := cleared (procs s pp)))
          \<and> (\<forall>ub xs. addr \<noteq> 0 \<and> space_ok s root ub xs \<and> sz (procs s me) \<le> ub \<longrightarrow>
              (\<exists>u k. k \<le> 4 \<and> procs u = procs s \<and> kwait c me addr s = (if k < 4 then Ok (Done (-1), u) else reap u)
                \<and> (\<forall>a < ub. ubyte u root a =
                     (if unat addr \<le> unat a \<and> unat a < unat addr + k then status ! (unat a - unat addr) else ubyte s root a))
                \<and> (0 < k \<longrightarrow> range_avail (uproc_of (procs s me)) s addr k)
                \<and> (range_avail (uproc_of (procs s me)) s addr 4 \<and> unat addr + 4 \<le> unat ub
                    \<and> 3 * npages addr 4 \<le> length xs \<longrightarrow> k = 4))))"
proof (cases "List.find (zombie_child me s) [0..<NPROC]")
  case None
  then show ?thesis using kwait_eq[OF assms, of addr] by simp
next
  case (Some pp)
  let ?root = "pagetable (procs s me)" and ?st = "le_bytes 4 (word_of_int (xstate (procs s pp)))"
  let ?reap = "\<lambda>u. bindR (freeproc pp u) (\<lambda>t. Ok (Done (pid (procs s pp)), t))"
  let ?p = "uproc_of (procs s me)"
  have eq: "kwait c me addr s = bindR (status_out me pp addr s) (\<lambda>(e, u). if e < 0 then Ok (Done (-1), u) else ?reap u)"
    using kwait_eq[OF assms, of addr] Some by simp
  have "\<exists>u k. k \<le> 4 \<and> procs u = procs s \<and> kwait c me addr s = (if k < 4 then Ok (Done (-1), u) else ?reap u)
      \<and> (\<forall>a < ub. ubyte u ?root a =
           (if unat addr \<le> unat a \<and> unat a < unat addr + k then ?st ! (unat a - unat addr) else ubyte s ?root a))
      \<and> (0 < k \<longrightarrow> range_avail ?p s addr k)
      \<and> (range_avail ?p s addr 4 \<and> unat addr + 4 \<le> unat ub \<and> 3 * npages addr 4 \<le> length xs \<longrightarrow> k = 4)"
    if a: "addr \<noteq> 0" and sp: "space_ok s ?root ub xs" and b: "sz (procs s me) \<le> ub" for ub xs
  proof -
    have up: "upt ?p = ?root" "usz ?p \<le> ub" using b by (simp_all add: uproc_of_def)
    obtain e u k where u: "copyout ?p ?root addr ?st s = Ok (e, u)" "k \<le> 4" "e = (if k = 4 then 0 else -1)"
      "\<forall>a < ub. ubyte u ?root a = copied k addr ?st s ?root a" "0 < k \<longrightarrow> range_avail ?p s addr k"
      "range_avail ?p s addr 4 \<and> unat addr + 4 \<le> unat ub \<and> 3 * npages addr 4 \<le> length xs \<longrightarrow> k = 4"
      using copyout_ok[OF sp up, of addr ?st] by auto
    have "status_out me pp addr s = Ok (e, u)" using u(1) a by (simp add: status_out_def)
    moreover from this have "procs u = procs s" using more_fields[OF status_out_frame] by blast
    ultimately show ?thesis using u(2-6) eq unfolding copied_def by (intro exI[of _ u] exI[of _ k]) auto
  qed
  then show ?thesis using Some eq kwait_procs[OF assms, of addr] unfolding Let_def by (auto simp: status_out_def)
qed

section \<open>No exited child is lost\<close>

text \<open>The steps that concern \<open>wait\<close>, in any order by any process on any CPU: the end of \<open>kexit\<close> with
  the release of the lock by the scheduler; \<open>kwait\<close> returning; \<open>kwait\<close> going to sleep; \<open>kfork\<close>
  entering a child; \<open>wakeup\<close>; a change of one process that does not make it a zombie or put it to
  sleep on itself; and a change of anything but the process table.\<close>

inductive wait_reach :: "'z proc_state_scheme \<Rightarrow> bool" where
  start: "locks_free {..<NPROC} s \<Longrightarrow> \<forall>p. pstate (procs s p) \<noteq> ZOMBIE \<Longrightarrow> wait_reach s"
| exit_end: "wait_reach s \<Longrightarrow> in_section c me s \<Longrightarrow> me < NPROC \<Longrightarrow> initproc s = Some i \<Longrightarrow> i \<noteq> me \<Longrightarrow> i < NPROC \<Longrightarrow>
    exit_notify c me status s = Ok u \<Longrightarrow> plock_release c me u = Ok t \<Longrightarrow> wait_reach t"
| wait_return: "wait_reach s \<Longrightarrow> in_section c me s \<Longrightarrow> kwait c me addr s = Ok (Done r, t) \<Longrightarrow> wait_reach t"
| wait_sleep: "wait_reach s \<Longrightarrow> in_section c me s \<Longrightarrow> kwait c me addr s = Ok (Asleep (), t) \<Longrightarrow>
    wait_reach (upd_proc me (\<lambda>q. q\<lparr>chan := Some (ChanProc me), pstate := SLEEPING\<rparr>) t)"
| fork_child: "wait_reach s \<Longrightarrow> pstate (procs s np) = USED \<Longrightarrow> wait_reach (upd_proc np (parent_update (\<lambda>_. Some me)) s)"
| waking: "wait_reach s \<Longrightarrow> in_section c me s \<Longrightarrow> wakeup c ch s = Ok t \<Longrightarrow> wait_reach t"
| other: "wait_reach s \<Longrightarrow> parent q = parent (procs s p) \<Longrightarrow> plock q = plock (procs s p) \<Longrightarrow>
    (pstate q = ZOMBIE \<Longrightarrow> pstate (procs s p) = ZOMBIE) \<Longrightarrow>
    (pstate q = SLEEPING \<Longrightarrow> chan q = Some (ChanProc p) \<Longrightarrow> waits s p) \<Longrightarrow> wait_reach (upd_proc p (\<lambda>_. q) s)"
| elsewhere: "wait_reach s \<Longrightarrow> procs t = procs s \<Longrightarrow> wait_reach t"

definition none_lost :: "'z proc_state_scheme \<Rightarrow> bool" where
  "none_lost s \<longleftrightarrow> (\<forall>p < NPROC. \<forall>q < NPROC. zombie_child p s q \<longrightarrow> \<not> waits s p)"

lemma none_lostD: "none_lost s \<Longrightarrow> p < NPROC \<Longrightarrow> q < NPROC \<Longrightarrow> zombie_child p s q \<Longrightarrow> \<not> waits s p"
  by (simp add: none_lost_def)

lemma none_lost_exited:
  assumes inv: "none_lost s" and e: "exited me i status s t"
  shows "none_lost t"
  unfolding none_lost_def
proof (intro allI impI)
  fix p q assume p: "p < NPROC" and q: "q < NPROC" and z: "zombie_child p t q"
  have st: "r \<noteq> me \<Longrightarrow> pstate (procs t r) = pstate (procs s r) \<and> chan (procs t r) = chan (procs s r)
      \<or> pstate (procs s r) = SLEEPING \<and> pstate (procs t r) = RUNNABLE" for r
    using e by (simp add: exited_def)
  have par: "parent (procs t q) = (if parent (procs s q) = Some me then Some i else parent (procs s q))"
    using e q by (simp add: exited_def)
  show "\<not> waits t p"
  proof (cases "q = me")
    case True
    then show ?thesis using e p z by (simp add: exited_def zombie_child_def)
  next
    case False
    then have zq: "pstate (procs s q) = ZOMBIE" using st[of q] z by (auto simp: zombie_child_def)
    show ?thesis
    proof (cases "parent (procs s q) = Some me")
      case True
      then have "p = i" using par z by (simp add: zombie_child_def)
      moreover have "\<exists>q < NPROC. parent (procs s q) = Some me" using True q by blast
      ultimately show ?thesis using e by (simp add: exited_def)
    next
      case other: False
      then have "zombie_child p s q" using par z zq by (simp add: zombie_child_def)
      then have "\<not> waits s p" by (rule none_lostD[OF inv p q])
      moreover have "pstate (procs t me) = ZOMBIE" using e by (simp add: exited_def)
      ultimately show ?thesis using st[of p] by (cases "p = me") (auto simp: waits_def)
    qed
  qed
qed

lemma none_lost_wakes:
  assumes "none_lost s" "wakes c s t" "\<forall>q. parent (procs t q) = parent (procs s q)"
  shows "none_lost t"
  unfolding none_lost_def
proof (intro allI impI)
  fix p q assume "p < NPROC" "q < NPROC" "zombie_child p t q"
  moreover from this have "zombie_child p s q"
    using assms(3) wakes_state[OF assms(2), of q] by (auto simp: zombie_child_def)
  ultimately show "\<not> waits t p" using none_lostD[OF assms(1)] wakes_waits[OF assms(2)] by blast
qed

lemma none_lost_cleared: "none_lost s \<Longrightarrow> procs t = (procs s)(pp := cleared (procs s pp)) \<Longrightarrow> none_lost t"
  by (auto simp: none_lost_def zombie_child_def waits_def cleared_def)

lemma wait_reach_inv: "wait_reach s \<Longrightarrow> locks_free {..<NPROC} s \<and> none_lost s"
proof (induction rule: wait_reach.induct)
  case (start s)
  then show ?case by (simp add: none_lost_def zombie_child_def)
next
  case (exit_end s c me i status u t)
  obtain u' t' where "exit_notify c me status s = Ok u'" "plock_release c me u' = Ok t'" "exited me i status s t'"
    using exit_notify_ok[OF exit_end(2,4-6,3)] by blast
  then have e: "exited me i status s t" using exit_end(7,8) by simp
  then have "locks_free {..<NPROC} t" by (simp add: exited_def)
  moreover have "none_lost t" using exit_end.IH by (intro none_lost_exited[OF _ e]) simp
  ultimately show ?case ..
next
  case (wait_return s c me addr r t)
  have "procs t = procs s \<or> (\<exists>pp. procs t = (procs s)(pp := cleared (procs s pp)))"
    using kwait_procs[OF wait_return(2,3)] by (auto split: option.splits if_splits)
  then show ?case
  proof
    assume "procs t = procs s"
    then show ?thesis using wait_return.IH by (simp add: locks_free_def none_lost_def zombie_child_def waits_def)
  next
    assume "\<exists>pp. procs t = (procs s)(pp := cleared (procs s pp))"
    then obtain pp where t: "procs t = (procs s)(pp := cleared (procs s pp))" by blast
    have "locks_free {..<NPROC} t" using wait_return.IH by (simp add: locks_free_def t cleared_def)
    then show ?thesis using none_lost_cleared[OF _ t] wait_return.IH by blast
  qed
next
  case (wait_sleep s c me addr t)
  have none: "List.find (zombie_child me s) [0..<NPROC] = None" "t = s"
    using kwait_procs[OF wait_sleep(2,3)] by (auto split: option.splits if_splits)
  then have "\<not> zombie_child me s q" if "q < NPROC" for q using that by (auto simp: find_None_iff)
  then show ?case
    using wait_sleep.IH by (auto simp: none(2) locks_free_def none_lost_def zombie_child_def waits_def split: if_splits)
next
  case (fork_child s np me)
  then show ?case by (auto simp: locks_free_def none_lost_def zombie_child_def waits_def split: if_splits)
next
  case (waking s c me ch t)
  obtain t' where "wakeup c ch s = Ok t'" "wakes c s t'" "\<forall>q. parent (procs t' q) = parent (procs s q)"
    using wakeup_section[OF waking(2)] by blast
  then show ?case using waking none_lost_wakes by (auto simp: locks_free_def wakes_def)
next
  case (other s q p)
  then show ?case by (auto simp: locks_free_def none_lost_def zombie_child_def waits_def split: if_splits)
next
  case (elsewhere s t)
  then show ?case by (simp add: locks_free_def none_lost_def zombie_child_def waits_def)
qed

text \<open>
  C12. No exited child is lost: in every interleaving of exits, waits, forks, wakeups and whatever
  else processes do, no process sleeps in \<open>kwait\<close> while one of its children, its own or one it
  got from \<open>reparent\<close>, is a zombie.
\<close>

theorem wait_never_loses_child:
  assumes "wait_reach s" "p < NPROC" "q < NPROC" "parent (procs s q) = Some p" "pstate (procs s q) = ZOMBIE"
  shows "\<not> (pstate (procs s p) = SLEEPING \<and> chan (procs s p) = Some (ChanProc p))"
  using wait_reach_inv[OF assms(1)] assms(2-5) by (simp add: none_lost_def zombie_child_def waits_def)

text \<open>Process 2, a child of process 1, runs on CPU 0 or process 1 does; process 1 sleeps in \<open>kwait\<close>
  in the first case.\<close>

definition demo_family :: "nat \<Rightarrow> proc_state" where
  "demo_family me = demo_sched\<lparr>initproc := Some 0,
     procs := (procs demo_sched)(1 := (procs demo_sched 1)\<lparr>pstate := (if me = 1 then RUNNING else SLEEPING), chan := Some (ChanProc 1)\<rparr>,
        2 := (procs demo_sched 2)\<lparr>pstate := RUNNING, parent := Some 1\<rparr>),
     cpus := (\<lambda>c. (cpus demo_sched c)\<lparr>noff := 1, sie := False, cproc := Some me\<rparr>)\<rparr>"

lemma demo_family_section: "in_section 0 me (demo_family me)"
  using demo_sched_ok(1) by (simp add: in_section_def demo_family_def locks_free_def nest_ok_def myproc_def)

theorem wait_never_loses_child_witness:
  "\<exists>t. wait_reach (t :: proc_state) \<and> parent (procs t 2) = Some 1 \<and> pstate (procs t 2) = ZOMBIE
     \<and> \<not> (pstate (procs t 1) = SLEEPING \<and> chan (procs t 1) = Some (ChanProc 1))"
proof -
  let ?s = "demo_family 2"
  have s: "wait_reach ?s"
    by (rule wait_reach.start)
       (use in_sectionD(1)[OF demo_family_section[of 2]] in \<open>auto simp: demo_family_def demo_sched_def idle_proc_def\<close>)
  have i: "initproc ?s = Some 0" by (simp add: demo_family_def)
  obtain u t where t: "exit_notify 0 2 7 ?s = Ok u" "plock_release 0 2 u = Ok t" "exited 2 0 7 ?s t"
    using exit_notify_ok[where status = 7, OF demo_family_section[of 2] i] by (auto simp: NPROC_def)
  have r: "wait_reach t"
    by (rule wait_reach.exit_end[OF s demo_family_section[of 2] _ i _ _ t(1,2)]) (simp_all add: NPROC_def)
  have z: "pstate (procs t 2) = ZOMBIE" "parent (procs t 2) = Some 1"
    using t(3) by (auto simp: exited_def NPROC_def demo_family_def)
  show ?thesis using wait_never_loses_child[OF r _ _ z(2,1)] r z by (auto simp: NPROC_def)
qed

text \<open>The address space as the memory functions see it does not depend on the process table.\<close>

lemma truncate_fields [simp]:
  "phys (kmem_state.truncate s) = phys s" "freelist (kmem_state.truncate s) = freelist s"
  "tail (kmem_state.truncate s) = tail s" "kend (kmem_state.truncate s) = kend s"
  by (simp_all add: kmem_state.truncate_def)

lemma space_truncate [simp]:
  "vleaf (kmem_state.truncate s) = vleaf s" "mapped (kmem_state.truncate s) = mapped s"
  "frame (kmem_state.truncate s) = frame s" "upages (kmem_state.truncate s) = upages s"
  "frames (kmem_state.truncate s) = frames s" "page_ok (kmem_state.truncate s) = page_ok s"
  by (intro ext; simp add: vleaf_def mapped_def frame_def upages_def frames_def page_ok_def)+

lemma space_ok_truncate: "space_ok (kmem_state.truncate s) root ub xs = space_ok s root ub xs"
  by (simp add: space_ok_def vm_inv_def kmem_inv_def pt_inv_def)

lemma freeproc_bare:
  "trapframe (procs s p) = 0 \<Longrightarrow> pagetable (procs s p) = 0 \<Longrightarrow>
   \<exists>t. freeproc p s = Ok t \<and> phys t = phys s"
  by (simp add: freeproc_def Let_def upd_proc_def)

text \<open>Process 1 waits with a zombie child, process 2 of pid 9, that exited with status 7.\<close>

definition demo_zombie :: proc_state where
  "demo_zombie = upd_proc 2 (\<lambda>q. q\<lparr>pstate := ZOMBIE, pid := 9, xstate := 7\<rparr>) (demo_family 1)"

lemma demo_zombie_procs:
  "procs demo_zombie 0 = idle_proc" "parent (procs demo_zombie 1) = None" "plock (procs demo_zombie p) = initlock ''proc''"
  "procs demo_zombie 2 = idle_proc\<lparr>pstate := ZOMBIE, arrival_time := 5, parent := Some 1, pid := 9, xstate := 7\<rparr>"
  "cpus demo_zombie = cpus (demo_family 1)"
  by (simp_all add: demo_zombie_def demo_family_def demo_sched_def idle_proc_def)

lemma demo_zombie_section:
  assumes "cpus s = cpus demo_zombie" "\<And>p. plock (procs s p) = initlock ''proc''" "procs s 0 = idle_proc"
    "parent (procs s 1) = None" "procs s 2 = procs demo_zombie 2"
  shows "in_section 0 1 s" "List.find (zombie_child 1 s) [0..<NPROC] = Some 2"
proof -
  show "in_section 0 1 s"
    using demo_family_section[of 1] assms(1,2)
    by (simp add: in_section_def locks_free_def myproc_def demo_zombie_procs(5) lk_free_def initlock_def)
  have "[0..<NPROC] = 0 # 1 # 2 # [3..<NPROC]" by (simp add: NPROC_def upt_conv_Cons)
  then show "List.find (zombie_child 1 s) [0..<NPROC] = Some 2"
    using assms(3-5) by (simp add: zombie_child_def demo_zombie_procs idle_proc_def)
qed

text \<open>The same with memory: the address space of process 1 has no page yet, and six pages are free.\<close>

lemma demo_zombie_user:
  "\<exists>(s :: proc_state) xs. procs s 2 = procs demo_zombie 2 \<and> in_section 0 1 s
     \<and> List.find (zombie_child 1 s) [0..<NPROC] = Some 2 \<and> uproc_of (procs s 1) = demo_proc
     \<and> space_ok s 0x80001000 0x2000 xs \<and> length xs = 6 \<and> (\<forall>va. vleaf s 0x80001000 va = 0)"
proof -
  let ?r = "0x80001000 :: u64"
  define xs :: "u64 list" where "xs = map (\<lambda>i. 0x80003000 + of_nat (4096 * i)) [0..<6]"
  obtain s0 where s0: "two_spaces s0 xs" using demo_spaces by (auto simp: xs_def)
  define z where "z = upd_proc 1 (\<lambda>q. q\<lparr>sz := 0x1000, pagetable := ?r\<rparr>) demo_zombie"
  define s :: proc_state where "s = kmem_state.extend s0 (kmem_state.more z)"
  have tr: "kmem_state.truncate s = s0" by (cases s0) (simp add: s_def kmem_state.extend_def kmem_state.truncate_def)
  have m: "procs s = procs z" "cpus s = cpus z" using more_fields[of s z] by (simp_all add: s_def kmem_state.extend_def)
  have pr: "procs s 2 = procs demo_zombie 2" by (simp add: m z_def)
  have p1: "pagetable (procs s 1) = ?r" "sz (procs s 1) = 0x1000" by (simp_all add: m z_def)
  then have up: "uproc_of (procs s 1) = demo_proc" by (simp add: uproc_of_def demo_proc_def)
  have rest: "cpus s = cpus demo_zombie" "\<And>p. plock (procs s p) = initlock ''proc''" "procs s 0 = idle_proc"
    "parent (procs s 1) = None"
    using demo_zombie_procs(2) by (simp_all add: m z_def demo_zombie_procs(1,3))
  note sec = demo_zombie_section[OF rest pr]
  have v: "\<forall>va. vleaf s ?r va = 0" and sp: "space_ok s ?r 0x2000 xs"
    using s0 tr space_ok_truncate[of s] space_truncate(1)[of s] by (auto simp: two_spaces_def)
  have "length xs = 6" by (simp add: xs_def)
  then show ?thesis using pr sec up sp v by blast
qed

theorem kwait_correct_witness:
  "kwait 0 1 0 (demo_family 1) = Ok (Asleep (), demo_family 1)
   \<and> (\<exists>t. kwait 0 1 0 demo_zombie = Ok (Done 9, t) \<and> pstate (procs t 2) = UNUSED)
   \<and> (\<exists>(s :: proc_state) t. procs s 2 = procs demo_zombie 2 \<and> kwait 0 1 5 s = Ok (Done 9, t)
        \<and> pstate (procs t 2) = UNUSED \<and> ubyte t (pagetable (procs s 1)) 5 = 7)"
proof (intro conjI)
  have "List.find (zombie_child 1 (demo_family 1)) [0..<NPROC] = None"
    by (auto simp: find_None_iff zombie_child_def demo_family_def demo_sched_def idle_proc_def)
  moreover have "\<exists>q < NPROC. parent (procs (demo_family 1) q) = Some 1"
    by (rule exI[of _ 2]) (simp add: NPROC_def demo_family_def)
  moreover have "pkilled (procs (demo_family 1) 1) = 0" by (simp add: demo_family_def demo_sched_def idle_proc_def)
  ultimately show "kwait 0 1 0 (demo_family 1) = Ok (Asleep (), demo_family 1)"
    using kwait_correct[OF demo_family_section[of 1], of 0] by simp
next
  have bare: "trapframe (procs demo_zombie 2) = 0" "pagetable (procs demo_zombie 2) = 0" "pid (procs demo_zombie 2) = 9"
    by (simp_all add: demo_zombie_procs(4) idle_proc_def)
  note z = demo_zombie_section[OF refl demo_zombie_procs(3,1,2) refl]
  obtain t where t: "freeproc 2 demo_zombie = Ok t" using freeproc_bare[OF bare(1,2)] by blast
  then have "kwait 0 1 0 demo_zombie = Ok (Done 9, t)"
    using conjunct1[OF kwait_correct[OF z(1), of 0, unfolded z(2) option.case Let_def]] bare(3) by simp
  moreover have "pstate (procs t 2) = UNUSED" using freeproc_procs(1)[OF t] by (simp add: cleared_def)
  ultimately show "\<exists>t. kwait 0 1 0 demo_zombie = Ok (Done 9, t) \<and> pstate (procs t 2) = UNUSED" by blast
next
  let ?r = "0x80001000 :: u64" and ?u = "0x2000 :: u64"
  obtain s :: proc_state and xs where pr: "procs s 2 = procs demo_zombie 2" and sec: "in_section 0 1 s"
    "List.find (zombie_child 1 s) [0..<NPROC] = Some 2" and up: "uproc_of (procs s 1) = demo_proc"
    and sp: "space_ok s ?r ?u xs" and six: "length xs = 6" and v: "\<forall>va. vleaf s ?r va = 0"
    using demo_zombie_user by blast
  have p1: "pagetable (procs s 1) = ?r" "sz (procs s 1) = 0x1000" using up by (simp_all add: uproc_of_def demo_proc_def)
  have bare: "trapframe (procs s 2) = 0" "pagetable (procs s 2) = 0" "pid (procs s 2) = 9" "xstate (procs s 2) = 7"
    by (simp_all add: pr demo_zombie_procs(4) idle_proc_def)
  have np: "range_avail demo_proc s 5 4" "npages 5 4 = 1"
    using v by (auto simp: range_avail_def avail_def mapped_def demo_proc_def word_less_nat_alt npages_def unat_take12)
  obtain u where u: "procs u = procs s" "kwait 0 1 5 s = bindR (freeproc 2 u) (\<lambda>t. Ok (Done 9, t))"
    "\<forall>a < ?u. ubyte u ?r a = (if 5 \<le> unat a \<and> unat a < 9 then le_bytes 4 7 ! (unat a - 5) else ubyte s ?r a)"
  proof -
    note full = kwait_correct[OF sec(1), of 5, unfolded sec(2) option.case Let_def p1(1) up bare(3,4), THEN conjunct2, THEN conjunct2]
    obtain u k where k: "procs u = procs s"
      "kwait 0 1 5 s = (if k < 4 then Ok (Done (-1), u) else bindR (freeproc 2 u) (\<lambda>t. Ok (Done 9, t)))"
      "\<forall>a < ?u. ubyte u ?r a = (if unat (5 :: u64) \<le> unat a \<and> unat a < unat (5 :: u64) + k
         then le_bytes 4 (word_of_int 7) ! (unat a - unat (5 :: u64)) else ubyte s ?r a)"
      "range_avail demo_proc s 5 4 \<and> unat (5 :: u64) + 4 \<le> unat ?u \<and> 3 * npages 5 4 \<le> length xs \<longrightarrow> k = 4"
      using full[rule_format, of ?u xs] sp p1(2) by auto
    have "k = 4" using k(4) np by (simp add: six)
    then show thesis using that[of u] k(1-3) by simp
  qed
  obtain t where t: "freeproc 2 u = Ok t" "phys t = phys u" using freeproc_bare[of u 2] bare u(1) by auto
  have "ubyte t ?r 5 = ubyte u ?r 5" using t(2) by (simp add: ubyte_def mapped_def frame_def vleaf_def)
  moreover have four: "(4 :: nat) = Suc 3" by simp
  have "le_bytes 4 7 ! 0 = ucast (7 :: u64)" unfolding four le_bytes.simps nth_Cons_0 ..
  then have "ubyte u ?r 5 = 7" using u(3)[rule_format, of 5] by simp
  ultimately have "ubyte t ?r 5 = 7" by simp
  moreover have "pstate (procs t 2) = UNUSED" using freeproc_procs(1)[OF t(1)] by (simp add: cleared_def)
  ultimately show "\<exists>(s :: proc_state) t. procs s 2 = procs demo_zombie 2 \<and> kwait 0 1 5 s = Ok (Done 9, t)
      \<and> pstate (procs t 2) = UNUSED \<and> ubyte t (pagetable (procs s 1)) 5 = 7"
    using pr u(2) t(1) p1(1) by (intro exI[of _ s] exI[of _ t]) simp
qed

end
