(* ===== verification/Sched_Order.thy ===== *)
theory Sched_Order
  imports Life_Correct
begin

text \<open>
  The order in which the first-come, first-served scheduler runs the processes of one CPU until no
  process is runnable any more, when processes exit or wait: an exiting process wakes its parent and
  hands its children to \<open>initproc\<close>, so a process that was asleep may overtake those that were
  runnable, but only if it arrived earlier.
\<close>

section \<open>What a process does with its turn\<close>


















section \<open>Processes that wait for a child and exit\<close>
























end
