(* ===== verification/Mkfs.thy ===== *)
theory Mkfs
  imports Fs_Dir
begin

text \<open>
  \<open>mkfs/mkfs.c\<close>, the program of the host that makes the first file system image. The image file is the
  blocks written to it and their number; the host's \<open>open\<close> and \<open>read\<close> are the parameter \<open>host\<close>, which
  gives for each name the pieces that \<open>read\<close> returns one after the other, the empty piece for the end of the
  file and for an error, or nothing when \<open>open\<close> fails.
  The host is little-endian and its disk does not fill up. \<open>Panic\<close> is the end of the program by \<open>die\<close>
  or a failed \<open>assert\<close>. An argument is the list of its bytes. What \<open>mkfs\<close> prints is left out.
\<close>

definition FSSIZE :: nat where "FSSIZE = 2000"
definition NINODES :: nat where "NINODES = 200"
definition mk_nbitmap :: nat where "mk_nbitmap = FSSIZE div BPB + 1"
definition mk_ninodeblocks :: nat where "mk_ninodeblocks = NINODES div IPB + 1"
definition mk_nlog :: nat where "mk_nlog = LOGBLOCKS + 1"
definition mk_nmeta :: nat where "mk_nmeta = 2 + mk_nlog + mk_ninodeblocks + mk_nbitmap"
definition mk_nblocks :: nat where "mk_nblocks = FSSIZE - mk_nmeta"

record mk_state =
  mk_img :: "nat \<Rightarrow> block"
  mk_blocks :: nat
  freeinode :: u32
  freeblock :: u32

text \<open>The bytes stored for a number are its bytes from the lowest on.\<close>

definition xshort :: "u16 \<Rightarrow> u16" where
  "xshort x = ucast (le_word [ucast x, ucast (drop_bit 8 x)])"

definition xint :: "u32 \<Rightarrow> u32" where
  "xint x = ucast (le_word [ucast x, ucast (drop_bit 8 x), ucast (drop_bit 16 x), ucast (drop_bit 24 x)])"

definition mk_sb :: superblock where
  "mk_sb = \<lparr>magic = FSMAGIC, nblocks_total = xint (of_nat FSSIZE), nblocks = xint (of_nat mk_nblocks),
     ninodes = xint (of_nat NINODES), nlog = xint (of_nat mk_nlog), logstart = xint 2,
     inodestart = xint (of_nat (2 + mk_nlog)), bmapstart = xint (of_nat (2 + mk_nlog + mk_ninodeblocks))\<rparr>"

text \<open>The offset of a sector in the image is a 32-bit number.\<close>

definition sector :: "u32 \<Rightarrow> nat" where
  "sector sec = unat (sec * of_nat BSIZE) div BSIZE"

definition wsect :: "u32 \<Rightarrow> block \<Rightarrow> mk_state \<Rightarrow> mk_state" where
  "wsect sec b s = s\<lparr>mk_img := (mk_img s)(sector sec := b), mk_blocks := max (mk_blocks s) (sector sec + 1)\<rparr>"

definition rsect :: "u32 \<Rightarrow> mk_state \<Rightarrow> block res" where
  "rsect sec s = (if sector sec < mk_blocks s then Ok (mk_img s (sector sec)) else Panic ''read'')"

definition mk_iblock :: "u32 \<Rightarrow> u32" where
  "mk_iblock i = i div of_nat IPB + inodestart mk_sb"

definition winode :: "u32 \<Rightarrow> dinode \<Rightarrow> mk_state \<Rightarrow> mk_state res" where
  "winode i d s =
     bindR (rsect (mk_iblock i) s) (\<lambda>b. Ok (wsect (mk_iblock i) (put_dinode b (dinode_off i) d) s))"

definition rinode :: "u32 \<Rightarrow> mk_state \<Rightarrow> dinode res" where
  "rinode i s = bindR (rsect (mk_iblock i) s) (\<lambda>b. Ok (get_dinode b (dinode_off i)))"

definition mk_ialloc :: "u16 \<Rightarrow> mk_state \<Rightarrow> (u32 \<times> mk_state) res" where
  "mk_ialloc ty s =
     (let i = freeinode s
      in bindR (winode i (zero_dinode\<lparr>dtype := xshort ty, dnlink := xshort 1, dsize := xint 0\<rparr>) (s\<lparr>freeinode := i + 1\<rparr>))
           (\<lambda>s1. Ok (i, s1)))"

definition mk_balloc :: "int \<Rightarrow> mk_state \<Rightarrow> mk_state res" where
  "mk_balloc used s =
     (if \<not> used < int BPB then Panic ''assert''
      else Ok (wsect (bmapstart mk_sb)
        (fold (\<lambda>i b. b(i div 8 := b (i div 8) OR push_bit (i mod 8) 1)) [0..<nat used] zero_block) s))"

text \<open>The block for the block number \<open>fbn\<close> of the file, allocated if need be: its number, the inode, and
  the state.\<close>

definition take_fresh :: "mk_state \<Rightarrow> u32 \<times> mk_state" where
  "take_fresh s = (freeblock s, s\<lparr>freeblock := freeblock s + 1\<rparr>)"

definition iappend_block :: "nat \<Rightarrow> dinode \<Rightarrow> mk_state \<Rightarrow> (u32 \<times> dinode \<times> mk_state) res" where
  "iappend_block fbn d s =
     (if fbn < NDIRECT
      then let (d1, s1) = (if xint (daddrs d fbn) = 0
             then let (a, s1) = take_fresh s in (d\<lparr>daddrs := (daddrs d)(fbn := xint a)\<rparr>, s1) else (d, s))
           in Ok (xint (daddrs d1 fbn), d1, s1)
      else let (d1, s1) = (if xint (daddrs d NDIRECT) = 0
             then let (a, s1) = take_fresh s in (d\<lparr>daddrs := (daddrs d)(NDIRECT := xint a)\<rparr>, s1) else (d, s))
           in bindR (rsect (xint (daddrs d1 NDIRECT)) s1) (\<lambda>ind.
                if get32 ind (4 * (fbn - NDIRECT)) = 0
                then let (a, s2) = take_fresh s1; ind' = put32 ind (4 * (fbn - NDIRECT)) (xint a)
                     in Ok (xint (get32 ind' (4 * (fbn - NDIRECT))), d1, wsect (xint (daddrs d1 NDIRECT)) ind' s2)
                else Ok (xint (get32 ind (4 * (fbn - NDIRECT))), d1, s1)))"

function iappend_loop :: "u32 \<Rightarrow> dinode \<Rightarrow> u8 list \<Rightarrow> mk_state \<Rightarrow> (u32 \<times> dinode \<times> mk_state) res" where
  "iappend_loop off d p s =
     (if p = [] then Ok (off, d, s)
      else let fbn = unat off div BSIZE
           in if \<not> fbn < MAXFILE then Panic ''assert''
              else bindR (iappend_block fbn d s) (\<lambda>(x, d1, s1).
                     let n1 = min (length p) ((fbn + 1) * BSIZE - unat off)
                     in bindR (rsect x s1) (\<lambda>buf.
                          iappend_loop (off + of_nat n1) d1 (drop n1 p)
                            (wsect x (bput_bytes buf (unat off - fbn * BSIZE) (take n1 p)) s1))))"
  by pat_completeness auto
termination
proof (relation "measure (\<lambda>(off, d, p, s). length p)", goal_cases)
  case (2 off d p s fbn q x r d1 s1 n1 buf)
  have "unat off < (unat off div BSIZE + 1) * BSIZE"
    using dividend_less_div_times[of BSIZE "unat off"] by (simp add: BSIZE_def)
  then show ?case using 2 by simp
qed simp

definition iappend :: "u32 \<Rightarrow> u8 list \<Rightarrow> mk_state \<Rightarrow> mk_state res" where
  "iappend i p s =
     bindR (rinode i s) (\<lambda>d.
     bindR (iappend_loop (xint (dsize d)) d p s) (\<lambda>(off, d1, s1). winode i (d1\<lparr>dsize := xint off\<rparr>) s1))"

text \<open>The \<open>struct dirent\<close> after \<open>bzero\<close> and \<open>strcpy\<close> or \<open>strncpy\<close> of the name.\<close>

definition mk_dirent :: "u32 \<Rightarrow> u8 list \<Rightarrow> u8 list" where
  "mk_dirent i name =
     le_bytes 2 (ucast (xshort (ucast i))) @ map (strncpy (\<lambda>_. 0) (cbytes name) DIRSIZ) [0..<DIRSIZ]"

text \<open>The name without \<open>user/\<close> in front.\<close>

definition strip_user :: "u8 list \<Rightarrow> u8 list" where
  "strip_user arg = (if take 5 arg = [117, 115, 101, 114, 47] then drop 5 arg else arg)"

definition strip_underscore :: "u8 list \<Rightarrow> u8 list" where
  "strip_underscore name = (if name \<noteq> [] \<and> hd name = 95 then tl name else name)"

definition mkfs_file :: "(u8 list \<Rightarrow> u8 list list option) \<Rightarrow> u8 list \<Rightarrow> mk_state \<Rightarrow> mk_state res" where
  "mkfs_file host arg s =
     (if 47 \<in> set (strip_user arg) then Panic ''assert''
      else case host arg of
             None \<Rightarrow> Panic ''open''
           | Some pieces \<Rightarrow>
               let name = strip_underscore (strip_user arg)
               in if \<not> length name \<le> DIRSIZ then Panic ''assert''
                  else bindR (mk_ialloc T_FILE s) (\<lambda>(i, s1).
                       bindR (iappend ROOTINO (mk_dirent i name) s1) (iterR (iappend i) (takeWhile (\<lambda>p. p \<noteq> []) pieces))))"

definition mkfs :: "(u8 list \<Rightarrow> u8 list list option) \<Rightarrow> u8 list list \<Rightarrow> mk_state res" where
  "mkfs host args =
     (case args of
        [] \<Rightarrow> Panic ''usage''
      | img # files \<Rightarrow>
          let s0 = \<lparr>mk_img = (\<lambda>_. zero_block), mk_blocks = 0, freeinode = 1, freeblock = of_nat mk_nmeta\<rparr>;
              s1 = fold (\<lambda>i. wsect (of_nat i) zero_block) [0..<FSSIZE] s0;
              s2 = wsect 1 (put32s zero_block 0 [magic mk_sb, nblocks_total mk_sb, nblocks mk_sb, ninodes mk_sb,
                     nlog mk_sb, logstart mk_sb, inodestart mk_sb, bmapstart mk_sb]) s1
          in bindR (mk_ialloc T_DIR s2) (\<lambda>(root, s3).
             if root \<noteq> ROOTINO then Panic ''assert''
             else bindR (iappend root (mk_dirent root [46]) s3) (\<lambda>s4.
                  bindR (iappend root (mk_dirent root [46, 46]) s4) (\<lambda>s5.
                  bindR (iterR (mkfs_file host) files s5) (\<lambda>s6.
                  bindR (rinode root s6) (\<lambda>d.
                  bindR (winode root (d\<lparr>dsize := xint ((xint (dsize d) div of_nat BSIZE + 1) * of_nat BSIZE)\<rparr>) s6) (\<lambda>s7.
                    mk_balloc (sint (freeblock s7)) s7)))))))"

declare iappend_loop.simps [simp del]

end
