(* ===== verification/Mkfs_Correct.thy ===== *)
theory Mkfs_Correct
  imports Mkfs
begin

text \<open>
  The functions of \<open>mkfs.c\<close> that append to a file. \<open>alloc_file img d xs K\<close> says that the slots \<open>K\<close> of the
  inode \<open>d\<close> have blocks of their own in the image and that the contents are \<open>xs\<close>; \<open>iappend_loop_ok\<close> shows
  that \<open>iappend\<close> makes them \<open>xs @ p\<close> with fresh blocks for exactly the new slots, and touches no other block.
\<close>

section \<open>Numbers and sectors\<close>

lemma le_word_bytes: "le_word [a, b] = ucast a OR push_bit 8 (ucast b)"
  "le_word [a, b, c, d] = ucast a OR push_bit 8 (ucast b OR push_bit 8 (ucast c OR push_bit 8 (ucast d)))"
  by simp_all

lemma xshort_id [simp]: "xshort x = x"
  unfolding xshort_def le_word_bytes by (rule bit_eqI) (auto simp: bit_simps; presburger)

lemma xint_id [simp]: "xint x = x"
  unfolding xint_def le_word_bytes
proof (rule bit_eqI)
  fix n assume "possible_bit TYPE(u32) n"
  then have n: "n < 32" by simp
  consider "n < 8" | "8 \<le> n" "n < 16" | "16 \<le> n" "n < 24" | "24 \<le> n" by linarith
  then show "bit (ucast (ucast (ucast x :: u8) OR push_bit 8 (ucast (ucast (drop_bit 8 x) :: u8) OR
     push_bit 8 (ucast (ucast (drop_bit 16 x) :: u8) OR push_bit 8 (ucast (ucast (drop_bit 24 x) :: u8)))) :: u64) :: u32) n = bit x n"
    using n by cases (auto simp: bit_simps)
qed

lemma sector_small: "unat sec < 2 ^ 22 \<Longrightarrow> sector sec = unat sec"
proof -
  assume a: "unat sec < 2 ^ 22"
  have "unat (sec * of_nat BSIZE) = unat sec * BSIZE"
    using a by (simp add: unat_word_ariths BSIZE_def unat_of_nat)
  then show ?thesis by (simp add: sector_def BSIZE_def)
qed

lemma sector_of_nat: "n < 2 ^ 22 \<Longrightarrow> sector (of_nat n) = n"
  using sector_small[of "of_nat n"] by (simp add: unsigned_of_nat take_bit_nat_eq_self)

lemma mk_layout: "mk_nmeta = 47" "mk_nlog = 31" "mk_ninodeblocks = 13" "mk_nbitmap = 1" "mk_nblocks = 1953" "IPB = 16" "BPB = 8192"
  by (simp_all add: mk_nmeta_def mk_nlog_def mk_ninodeblocks_def mk_nbitmap_def mk_nblocks_def FSSIZE_def NINODES_def
      BPB_def IPB_def BSIZE_def LOGBLOCKS_def MAXOPBLOCKS_def)

lemma mk_sb_fields: "inodestart mk_sb = 33" "bmapstart mk_sb = 46" "nblocks_total mk_sb = 2000" "logstart mk_sb = 2"
  "ninodes mk_sb = 200" "magic mk_sb = FSMAGIC"
  by (simp_all add: mk_sb_def mk_layout FSSIZE_def NINODES_def)

lemma mk_iblock_nat: "unat i < NINODES \<Longrightarrow> sector (mk_iblock i) = unat i div 16 + 33 \<and> unat (mk_iblock i) = unat i div 16 + 33"
proof -
  assume i: "unat i < NINODES"
  then have "unat i div 16 < 13" by (simp add: NINODES_def)
  then have "unat (mk_iblock i) = unat i div 16 + 33"
    by (simp add: mk_iblock_def mk_layout mk_sb_fields unat_word_ariths unat_div)
  then show ?thesis using i sector_small[of "mk_iblock i"] by (simp add: NINODES_def)
qed

section \<open>The blocks of an inode in an image\<close>

definition dslot :: "(nat \<Rightarrow> block) \<Rightarrow> dinode \<Rightarrow> nat \<Rightarrow> u32" where
  "dslot img d k =
     (if k = MAXFILE then daddrs d NDIRECT
      else if k < NDIRECT then daddrs d k
      else if daddrs d NDIRECT = 0 then 0
      else get32 (img (unat (daddrs d NDIRECT))) (4 * (k - NDIRECT)))"

definition dbyte :: "(nat \<Rightarrow> block) \<Rightarrow> dinode \<Rightarrow> nat \<Rightarrow> u8" where
  "dbyte img d i =
     (if dslot img d (i div BSIZE) = 0 then 0 else img (unat (dslot img d (i div BSIZE))) (i mod BSIZE))"

text \<open>The slots \<open>K\<close> of the inode are in use, with a block each, and the contents are \<open>xs\<close> and then zeros.\<close>

definition alloc_file :: "(nat \<Rightarrow> block) \<Rightarrow> dinode \<Rightarrow> u8 list \<Rightarrow> nat set \<Rightarrow> bool" where
  "alloc_file img d xs K \<longleftrightarrow> dinode_ok d \<and> K \<subseteq> {..MAXFILE}
     \<and> (\<forall>k \<le> MAXFILE. dslot img d k \<noteq> 0 \<longleftrightarrow> k \<in> K) \<and> inj_on (dslot img d) K
     \<and> (\<forall>i < MAXFILE * BSIZE. dbyte img d i = (if i < length xs then xs ! i else 0))"

definition downs :: "(nat \<Rightarrow> block) \<Rightarrow> dinode \<Rightarrow> nat set" where
  "downs img d = {unat (dslot img d k) | k. k \<le> MAXFILE \<and> dslot img d k \<noteq> 0}"

lemma downsI: "k \<le> MAXFILE \<Longrightarrow> dslot img d k \<noteq> 0 \<Longrightarrow> unat (dslot img d k) \<in> downs img d"
  by (auto simp: downs_def)

lemma alloc_fileD:
  assumes "alloc_file img d xs K"
  shows "dinode_ok d" "k \<le> MAXFILE \<Longrightarrow> dslot img d k \<noteq> 0 \<longleftrightarrow> k \<in> K" "inj_on (dslot img d) K"
    "i < MAXFILE * BSIZE \<Longrightarrow> dbyte img d i = (if i < length xs then xs ! i else 0)" "k \<in> K \<Longrightarrow> k \<le> MAXFILE"
  using assms by (auto simp: alloc_file_def)

lemma dslot_cong:
  assumes "\<And>b. b \<in> downs img d \<Longrightarrow> img' b = img b" "k \<le> MAXFILE"
  shows "dslot img' d k = dslot img d k"
proof -
  have "dslot img d MAXFILE = daddrs d NDIRECT" by (simp add: dslot_def)
  then have "daddrs d NDIRECT \<noteq> 0 \<Longrightarrow> img' (unat (daddrs d NDIRECT)) = img (unat (daddrs d NDIRECT))"
    using assms(1) downsI[of MAXFILE img d] by simp
  then show ?thesis by (simp add: dslot_def)
qed

lemma alloc_file_cong:
  assumes "alloc_file img d xs K" "\<And>b. b \<in> downs img d \<Longrightarrow> img' b = img b"
  shows "alloc_file img' d xs K" "downs img' d = downs img d"
proof -
  have s: "dslot img' d k = dslot img d k" if "k \<le> MAXFILE" for k
    by (rule dslot_cong) (use assms(2) that in auto)
  show "downs img' d = downs img d" using s by (auto simp: downs_def) metis+
  have "dbyte img' d i = dbyte img d i" if "i < MAXFILE * BSIZE" for i
  proof -
    have "i div BSIZE \<le> MAXFILE" using offset_block[OF that] by simp
    then show ?thesis using s[of "i div BSIZE"] assms(2)[OF downsI] by (simp add: dbyte_def)
  qed
  moreover have "inj_on (dslot img' d) K \<longleftrightarrow> inj_on (dslot img d) K"
    using s alloc_fileD(5)[OF assms(1)] by (intro inj_on_cong) simp
  ultimately show "alloc_file img' d xs K" using assms(1) s by (auto simp: alloc_file_def)
qed

text \<open>A fresh block, all zero, in an unused slot.\<close>

lemma alloc_hook:
  assumes f: "alloc_file img d xs K" and k0: "k0 \<le> MAXFILE" "k0 \<notin> K" and b: "b \<noteq> 0" "unat b \<notin> downs img d"
    and S: "\<And>k. k \<le> MAXFILE \<Longrightarrow> dslot img' d' k = (if k = k0 then b else dslot img d k)"
    and z: "k0 < MAXFILE \<Longrightarrow> img' (unat b) = zero_block"
    and same: "\<And>k. k < MAXFILE \<Longrightarrow> dslot img d k \<noteq> 0 \<Longrightarrow> img' (unat (dslot img d k)) = img (unat (dslot img d k))"
    and d: "dinode_ok d'"
  shows "alloc_file img' d' xs (insert k0 K)" "downs img' d' = insert (unat b) (downs img d)"
proof -
  note a = alloc_fileD[OF f]
  have none: "dslot img d k0 = 0" using a(2)[OF k0(1)] k0(2) by simp
  show "downs img' d' = insert (unat b) (downs img d)"
    using S k0(1) b(1) none unfolding downs_def by (auto split: if_splits) metis+
  have "inj_on (dslot img' d') (insert k0 K)"
  proof -
    have "b \<noteq> dslot img d k" if "k \<in> K" for k
      using that b(2) downsI[of k img d] a(2)[of k] a(5)[OF that] by auto
    moreover have "inj_on (dslot img' d') K \<longleftrightarrow> inj_on (dslot img d) K"
      using S a(5) k0(2) by (intro inj_on_cong) auto
    ultimately show ?thesis using a(3,5) S k0 by (auto simp: image_iff)
  qed
  moreover have "dbyte img' d' i = dbyte img d i" if "i < MAXFILE * BSIZE" for i
  proof -
    have i: "i div BSIZE < MAXFILE" by (rule offset_block[OF that])
    show ?thesis
    proof (cases "i div BSIZE = k0")
      case True
      then show ?thesis using S[of k0] z i b(1) none by (simp add: dbyte_def zero_block_def)
    next
      case False
      then show ?thesis using S[of "i div BSIZE"] same[of "i div BSIZE"] i by (simp add: dbyte_def)
    qed
  qed
  moreover have "dslot img' d' k \<noteq> 0 \<longleftrightarrow> k \<in> insert k0 K" if "k \<le> MAXFILE" for k
    using S[OF that] a(2)[OF that] b(1) by auto
  ultimately show "alloc_file img' d' xs (insert k0 K)" using f d k0(1) by (auto simp: alloc_file_def)
qed

text \<open>Writing at the end of the contents into a block that is there.\<close>

lemma alloc_write:
  assumes f: "alloc_file img d xs K" and k: "k = length xs div BSIZE" "k \<in> K" "k < MAXFILE"
    and n: "length xs mod BSIZE + length ys \<le> BSIZE"
  defines "x \<equiv> unat (dslot img d k)"
  defines "img' \<equiv> img(x := bput_bytes (img x) (length xs mod BSIZE) ys)"
  shows "alloc_file img' d (xs @ ys) K" "downs img' d = downs img d"
proof -
  note a = alloc_fileD[OF f]
  have km: "k \<le> MAXFILE" "k \<noteq> MAXFILE" using k(3) by auto
  have "MAXFILE \<in> K \<Longrightarrow> dslot img d MAXFILE \<noteq> dslot img d k" using a(3) k(2) km(2) by (auto simp: inj_on_def)
  then have ind: "daddrs d NDIRECT \<noteq> 0 \<Longrightarrow> unat (daddrs d NDIRECT) \<noteq> x"
    using a(2)[of MAXFILE] by (auto simp: x_def dslot_def word_unat_eq_iff)
  have S: "dslot img' d j = dslot img d j" for j using ind by (auto simp: dslot_def img'_def)
  show "downs img' d = downs img d" by (simp add: downs_def S)
  have ix: "img' x = bput_bytes (img x) (length xs mod BSIZE) ys" and ox: "y \<noteq> x \<Longrightarrow> img' y = img y" for y
    by (simp_all add: img'_def)
  have "dbyte img' d i = (if i < length (xs @ ys) then (xs @ ys) ! i else 0)" if i: "i < MAXFILE * BSIZE" for i
  proof -
    have ib: "i div BSIZE < MAXFILE" by (rule offset_block[OF i])
    have old: "dbyte img d i = (if i < length xs then xs ! i else 0)" by (rule a(4)[OF i])
    have di: "i = i div BSIZE * BSIZE + i mod BSIZE" "length xs = k * BSIZE + length xs mod BSIZE" "i mod BSIZE < BSIZE"
      by (simp_all add: k(1) BSIZE_def)
    show ?thesis
    proof (cases "i div BSIZE = k")
      case True
      have i': "i = k * BSIZE + i mod BSIZE" using di(1) unfolding True .
      have e: "i < length xs + length ys \<longleftrightarrow> i mod BSIZE < length xs mod BSIZE + length ys"
        using i' di(2) by linarith
      have e2: "i < length xs \<longleftrightarrow> i mod BSIZE < length xs mod BSIZE" using i' di(2) by linarith
      have e3: "i - length xs = i mod BSIZE - length xs mod BSIZE" using i' di(2) by linarith
      have "dslot img d k \<noteq> 0" using a(2)[OF km(1)] k(2) by simp
      then have "dbyte img' d i = bput_bytes (img x) (length xs mod BSIZE) ys (i mod BSIZE)" "dbyte img d i = img x (i mod BSIZE)"
        by (simp_all add: dbyte_def S True x_def[symmetric] ix)
      then show ?thesis using e e2 e3 old by (auto simp: bput_bytes_def nth_append)
    next
      case False
      have "dbyte img' d i = dbyte img d i"
      proof (cases "dslot img d (i div BSIZE) = 0")
        case nz: False
        then have "i div BSIZE \<in> K" using a(2)[of "i div BSIZE"] ib by simp
        then have "dslot img d (i div BSIZE) \<noteq> dslot img d k" using a(3) k(2) False by (auto simp: inj_on_def)
        then have "unat (dslot img d (i div BSIZE)) \<noteq> x" by (simp add: x_def word_unat_eq_iff)
        then show ?thesis using nz by (simp add: dbyte_def S ox)
      qed (simp add: dbyte_def S)
      moreover have "i < length xs + length ys \<longleftrightarrow> i < length xs"
      proof -
        have "length xs + length ys \<le> (k + 1) * BSIZE" using di(2) n by simp
        moreover have "i div BSIZE < k \<Longrightarrow> i < k * BSIZE" by (simp add: BSIZE_def div_less_iff_less_mult)
        moreover have "k < i div BSIZE \<Longrightarrow> (k + 1) * BSIZE \<le> i"
          using less_eq_div_iff_mult_less_eq[of BSIZE "k + 1" i] by (simp add: BSIZE_def)
        ultimately show ?thesis using False di(2) by (cases "i div BSIZE < k") auto
      qed
      ultimately show ?thesis using old by (simp add: nth_append)
    qed
  qed
  moreover have "inj_on (dslot img' d) K" using a(3) S by (simp add: inj_on_def)
  ultimately show "alloc_file img' d (xs @ ys) K" using f by (auto simp: alloc_file_def S)
qed

section \<open>Appending to a file\<close>

text \<open>The image has the size of the file system, and the inode's blocks are those handed out; the blocks
  not handed out are zero.\<close>

definition img_ok :: "mk_state \<Rightarrow> dinode \<Rightarrow> bool" where
  "img_ok s d \<longleftrightarrow> mk_blocks s = FSSIZE \<and> mk_nmeta \<le> unat (freeblock s) \<and> unat (freeblock s) \<le> FSSIZE
     \<and> downs (mk_img s) d \<subseteq> {mk_nmeta..<unat (freeblock s)}
     \<and> (\<forall>b. unat (freeblock s) \<le> b \<longrightarrow> mk_img s b = zero_block)"

text \<open>What appending may change: the inode gets fresh blocks for the slots it did not have, and only its
  blocks are written.\<close>

definition appended :: "mk_state \<Rightarrow> dinode \<Rightarrow> nat set \<Rightarrow> mk_state \<Rightarrow> dinode \<Rightarrow> nat set \<Rightarrow> bool" where
  "appended s d K s' d' K' \<longleftrightarrow> K \<subseteq> K' \<and> freeinode s' = freeinode s \<and> d' = d\<lparr>daddrs := daddrs d'\<rparr>
     \<and> unat (freeblock s') = unat (freeblock s) + card (K' - K)
     \<and> downs (mk_img s) d \<subseteq> downs (mk_img s') d'
     \<and> downs (mk_img s') d' \<subseteq> downs (mk_img s) d \<union> {unat (freeblock s)..<unat (freeblock s')}
     \<and> (\<forall>b. b \<notin> downs (mk_img s') d' \<longrightarrow> mk_img s' b = mk_img s b)"

lemma appended_refl: "appended s d K s d K"
  by (simp add: appended_def)

lemma appended_trans:
  assumes g: "appended s d K t e L" "appended t e L u f M" and "finite M"
  shows "appended s d K u f M"
proof -
  have "M - K = (M - L) \<union> (L - K)" "(M - L) \<inter> (L - K) = {}" using g by (auto simp: appended_def)
  then have "card (M - K) = card (M - L) + card (L - K)"
    using assms(3) finite_subset[of L M] g(2) by (simp add: card_Un_disjoint appended_def)
  moreover have "mk_img u b = mk_img s b" if "b \<notin> downs (mk_img u) f" for b
  proof -
    have "b \<notin> downs (mk_img t) e" using that g(2) by (auto simp: appended_def)
    then show ?thesis using that g by (simp add: appended_def)
  qed
  moreover have "f = d\<lparr>daddrs := daddrs f\<rparr>" using g unfolding appended_def by (metis dinode.surjective dinode.update_convs(6))
  moreover have "downs (mk_img u) f \<subseteq> downs (mk_img s) d \<union> {unat (freeblock s)..<unat (freeblock u)}"
  proof
    fix b assume "b \<in> downs (mk_img u) f"
    then consider "b \<in> downs (mk_img t) e" | "b \<in> {unat (freeblock t)..<unat (freeblock u)}" using g(2) by (auto simp: appended_def)
    then show "b \<in> downs (mk_img s) d \<union> {unat (freeblock s)..<unat (freeblock u)}"
      by cases (use g in \<open>auto simp: appended_def\<close>)
  qed
  moreover have "K \<subseteq> M" "downs (mk_img s) d \<subseteq> downs (mk_img u) f" using g by (auto simp: appended_def)
  ultimately show ?thesis using g by (simp add: appended_def)
qed

lemma img_ok_appended:
  assumes "img_ok s d" "appended s d K s' d' K'" "mk_blocks s' = FSSIZE" "unat (freeblock s') \<le> FSSIZE"
  shows "img_ok s' d'"
proof -
  have le: "unat (freeblock s) \<le> unat (freeblock s')" using assms(2) by (simp add: appended_def)
  have dn: "downs (mk_img s') d' \<subseteq> {mk_nmeta..<unat (freeblock s')}"
    using assms(1,2) le by (fastforce simp: img_ok_def appended_def)
  have "mk_img s' b = zero_block" if "unat (freeblock s') \<le> b" for b
  proof -
    have "b \<notin> downs (mk_img s') d'" using dn that by auto
    then show ?thesis using assms(1,2) that le by (simp add: img_ok_def appended_def)
  qed
  then show ?thesis using assms le dn by (simp add: img_ok_def)
qed

lemma fresh_block:
  assumes "img_ok s d" "unat (freeblock s) + 1 \<le> FSSIZE"
  shows "unat (freeblock (snd (take_fresh s))) = unat (freeblock s) + 1" "freeblock s \<noteq> 0"
    "unat (freeblock s) \<notin> downs (mk_img s) d" "mk_img s (unat (freeblock s)) = zero_block"
proof -
  show "unat (freeblock (snd (take_fresh s))) = unat (freeblock s) + 1"
    using assms(2) by (simp add: take_fresh_def FSSIZE_def unat_word_ariths)
  show "freeblock s \<noteq> 0" using assms(1) by (auto simp: img_ok_def mk_layout)
  show "unat (freeblock s) \<notin> downs (mk_img s) d" "mk_img s (unat (freeblock s)) = zero_block"
    using assms(1) by (auto simp: img_ok_def)
qed

lemma slot_block:
  assumes "img_ok s d" "k \<le> MAXFILE" "dslot (mk_img s) d k \<noteq> 0"
  shows "sector (dslot (mk_img s) d k) = unat (dslot (mk_img s) d k)" "unat (dslot (mk_img s) d k) < mk_blocks s"
proof -
  have "unat (dslot (mk_img s) d k) < FSSIZE" using assms downsI[OF assms(2,3)] by (force simp: img_ok_def)
  then show "unat (dslot (mk_img s) d k) < mk_blocks s" "sector (dslot (mk_img s) d k) = unat (dslot (mk_img s) d k)"
    using assms(1) by (simp_all add: img_ok_def sector_small FSSIZE_def)
qed

text \<open>A fresh block for a slot of the inode itself: a direct block or the indirect block.\<close>

lemma fresh_direct:
  assumes f: "alloc_file (mk_img s) d xs K" and i: "img_ok s d" "unat (freeblock s) + 1 \<le> FSSIZE"
    and k: "k \<notin> K" "k < NDIRECT \<and> j = k \<or> k = MAXFILE \<and> j = NDIRECT"
  defines "d' \<equiv> d\<lparr>daddrs := (daddrs d)(j := freeblock s)\<rparr>" and "s' \<equiv> snd (take_fresh s)"
  shows "alloc_file (mk_img s') d' xs (insert k K)" "appended s d K s' d' (insert k K)" "mk_blocks s' = mk_blocks s"
proof -
  note b = fresh_block[OF i]
  have km: "k \<le> MAXFILE" using k(2) by (auto simp: MAXFILE_def)
  have none: "dslot (mk_img s) d k = 0" using alloc_fileD(2)[OF f km] k(1) by simp
  have img: "mk_img s' = mk_img s" by (simp add: s'_def take_fresh_def)
  have S: "dslot (mk_img s') d' l = (if l = k then freeblock s else dslot (mk_img s) d l)" if "l \<le> MAXFILE" for l
    using k(2) none b(4) that less_not_sym[OF MAXFILE_gt(1)] by (auto simp: dslot_def d'_def img)
  have d: "dinode_ok d'" using alloc_fileD(1)[OF f] k(2) by (auto simp: dinode_ok_def d'_def)
  note h = alloc_hook[OF f km k(1) b(2,3) S _ _ d]
  show "alloc_file (mk_img s') d' xs (insert k K)" by (rule h(1)) (simp_all add: img b(4))
  have "downs (mk_img s') d' = insert (unat (freeblock s)) (downs (mk_img s) d)" by (rule h(2)) (simp_all add: img b(4))
  then show "appended s d K s' d' (insert k K)"
    using k(1) b(1) by (auto simp: appended_def d'_def img s'_def take_fresh_def insert_Diff_if)
  show "mk_blocks s' = mk_blocks s" by (simp add: s'_def take_fresh_def)
qed

text \<open>A fresh block for a slot of the indirect block.\<close>

lemma fresh_indirect:
  assumes f: "alloc_file (mk_img s) d xs K" and i: "img_ok s d" "unat (freeblock s) + 1 \<le> FSSIZE"
    and k: "k \<notin> K" "NDIRECT \<le> k" "k < MAXFILE" "MAXFILE \<in> K"
  defines "x \<equiv> daddrs d NDIRECT"
  defines "s' \<equiv> wsect x (put32 (mk_img s (unat x)) (4 * (k - NDIRECT)) (freeblock s)) (snd (take_fresh s))"
  shows "alloc_file (mk_img s') d xs (insert k K)" "appended s d K s' d (insert k K)" "mk_blocks s' = mk_blocks s"
proof -
  note b = fresh_block[OF i] and a = alloc_fileD[OF f]
  have km: "k \<le> MAXFILE" using k(3) by simp
  have xs: "dslot (mk_img s) d MAXFILE = x" by (simp add: dslot_def x_def)
  have x0: "x \<noteq> 0" using a(2)[of MAXFILE] k(4) xs by simp
  have sx: "sector x = unat x" "unat x < mk_blocks s" using slot_block[OF i(1), of MAXFILE] xs x0 by simp_all
  have fx: "unat (freeblock s) \<noteq> unat x" using b(3) downsI[of MAXFILE "mk_img s" d] xs x0 by auto
  have img: "mk_img s' = (mk_img s)(unat x := put32 (mk_img s (unat x)) (4 * (k - NDIRECT)) (freeblock s))"
    by (simp add: s'_def wsect_def sx take_fresh_def)
  have S: "dslot (mk_img s') d l = (if l = k then freeblock s else dslot (mk_img s) d l)" if "l \<le> MAXFILE" for l
  proof (cases "l = k \<or> l < NDIRECT \<or> l = MAXFILE")
    case True
    then show ?thesis using k(2,3) x0 by (auto simp: dslot_def img x_def)
  next
    case False
    then have "l - NDIRECT \<noteq> k - NDIRECT" using k(2) by linarith
    then show ?thesis using False x0 by (simp add: dslot_def img x_def[symmetric] get32_put32_slot)
  qed
  have same: "mk_img s' (unat (dslot (mk_img s) d l)) = mk_img s (unat (dslot (mk_img s) d l))"
    if "l < MAXFILE" "dslot (mk_img s) d l \<noteq> 0" for l
  proof -
    have "l \<in> K" using a(2)[of l] that by simp
    then have "dslot (mk_img s) d l \<noteq> x" using a(3) k(4) that(1) xs by (auto simp: inj_on_def)
    then show ?thesis by (simp add: img word_unat_eq_iff)
  qed
  have z: "mk_img s' (unat (freeblock s)) = zero_block" using fx b(4) by (simp add: img)
  note h = alloc_hook[OF f km k(1) b(2,3) S z same a(1)]
  show "alloc_file (mk_img s') d xs (insert k K)" by (rule h(1))
  have dn: "downs (mk_img s') d = insert (unat (freeblock s)) (downs (mk_img s) d)" by (rule h(2))
  have "unat x \<in> downs (mk_img s) d" using downsI[of MAXFILE "mk_img s" d] xs x0 by simp
  then have "\<forall>b. b \<notin> downs (mk_img s') d \<longrightarrow> mk_img s' b = mk_img s b" unfolding dn by (auto simp: img)
  moreover have "unat (freeblock s') = unat (freeblock s) + 1" "freeinode s' = freeinode s"
    using b(1) by (simp_all add: s'_def wsect_def take_fresh_def)
  moreover have "card (insert k K - K) = 1" using k(1) by (simp add: insert_Diff_if)
  ultimately show "appended s d K s' d (insert k K)" by (auto simp: appended_def dn)
  show "mk_blocks s' = mk_blocks s" using sx by (simp add: s'_def take_fresh_def wsect_def)
qed

definition with_block :: "nat \<Rightarrow> nat set \<Rightarrow> nat set" where
  "with_block k K = insert k (if k < NDIRECT then K else insert MAXFILE K)"

lemma with_block_sub: "K \<subseteq> with_block k K" "finite K \<Longrightarrow> finite (with_block k K)"
  by (auto simp: with_block_def)

lemma alloc_finite: "alloc_file img d xs K \<Longrightarrow> finite K"
  by (meson alloc_file_def finite_atMost finite_subset)

lemma iappend_block_direct:
  assumes f: "alloc_file (mk_img s) d xs K" and i: "img_ok s d" and k: "k < NDIRECT"
    and room: "unat (freeblock s) + card (with_block k K - K) \<le> FSSIZE"
  shows "\<exists>d' s'. iappend_block k d s = Ok (dslot (mk_img s') d' k, d', s') \<and> alloc_file (mk_img s') d' xs (with_block k K)
    \<and> appended s d K s' d' (with_block k K) \<and> mk_blocks s' = mk_blocks s"
proof (cases "k \<in> K")
  case True
  have km: "k \<le> MAXFILE" "k \<noteq> MAXFILE" using k by (auto simp: MAXFILE_def)
  have "dslot (mk_img s) d k = daddrs d k" using k km by (simp add: dslot_def)
  moreover have "with_block k K = K" using True k by (auto simp: with_block_def)
  ultimately show ?thesis
    using alloc_fileD(2)[OF f km(1)] True k f by (intro exI[of _ d] exI[of _ s]) (simp add: iappend_block_def appended_refl)
next
  case False
  have km: "k \<le> MAXFILE" "k \<noteq> MAXFILE" using k by (auto simp: MAXFILE_def)
  have w: "with_block k K = insert k K" using k by (simp add: with_block_def)
  have r: "unat (freeblock s) + 1 \<le> FSSIZE" using room False by (simp add: w insert_Diff_if)
  have "daddrs d k = 0" using alloc_fileD(2)[OF f km(1)] False k km by (simp add: dslot_def)
  then show ?thesis
    using fresh_direct[OF f i r False, of k] k km unfolding w
    by (intro exI[of _ "d\<lparr>daddrs := (daddrs d)(k := freeblock s)\<rparr>"] exI[of _ "snd (take_fresh s)"])
      (simp add: iappend_block_def dslot_def take_fresh_def Let_def)
qed

lemma indirect_there:
  assumes f: "alloc_file (mk_img s) d xs K" and i: "img_ok s d"
    and room: "unat (freeblock s) + card (insert MAXFILE K - K) \<le> FSSIZE"
  shows "\<exists>d' s'. (if xint (daddrs d NDIRECT) = 0
       then let (a, s1) = take_fresh s in (d\<lparr>daddrs := (daddrs d)(NDIRECT := xint a)\<rparr>, s1) else (d, s)) = (d', s')
     \<and> alloc_file (mk_img s') d' xs (insert MAXFILE K) \<and> appended s d K s' d' (insert MAXFILE K) \<and> mk_blocks s' = mk_blocks s"
proof (cases "MAXFILE \<in> K")
  case True
  then have "daddrs d NDIRECT \<noteq> 0" using alloc_fileD(2)[OF f, of MAXFILE] by (simp add: dslot_def)
  then show ?thesis using True f by (simp add: insert_absorb appended_refl)
next
  case False
  then have z: "daddrs d NDIRECT = 0" using alloc_fileD(2)[OF f, of MAXFILE] by (simp add: dslot_def)
  have "unat (freeblock s) + 1 \<le> FSSIZE" using room False by (simp add: insert_Diff_if)
  then show ?thesis using fresh_direct[OF f i _ False, of NDIRECT] z
    by (intro exI[of _ "d\<lparr>daddrs := (daddrs d)(NDIRECT := freeblock s)\<rparr>"] exI[of _ "snd (take_fresh s)"])
      (simp add: take_fresh_def)
qed

lemma indirect_entry:
  assumes f: "alloc_file (mk_img s) d xs K" and i: "img_ok s d" and k: "NDIRECT \<le> k" "k < MAXFILE" "MAXFILE \<in> K"
    and room: "unat (freeblock s) + card (insert k K - K) \<le> FSSIZE"
  shows "\<exists>s'. bindR (rsect (xint (daddrs d NDIRECT)) s) (\<lambda>ind.
       if get32 ind (4 * (k - NDIRECT)) = 0
       then let (a, s2) = take_fresh s; ind' = put32 ind (4 * (k - NDIRECT)) (xint a)
            in Ok (xint (get32 ind' (4 * (k - NDIRECT))), d, wsect (xint (daddrs d NDIRECT)) ind' s2)
       else Ok (xint (get32 ind (4 * (k - NDIRECT))), d, s)) = Ok (dslot (mk_img s') d k, d, s')
     \<and> alloc_file (mk_img s') d xs (insert k K) \<and> appended s d K s' d (insert k K) \<and> mk_blocks s' = mk_blocks s"
proof -
  note a = alloc_fileD[OF f]
  let ?x = "daddrs d NDIRECT"
  have x: "dslot (mk_img s) d MAXFILE = ?x" by (simp add: dslot_def)
  have x0: "?x \<noteq> 0" using a(2)[of MAXFILE] k(3) x by simp
  have sx: "sector ?x = unat ?x" "unat ?x < mk_blocks s" using slot_block[OF i, of MAXFILE] x x0 by simp_all
  have r: "rsect ?x s = Ok (mk_img s (unat ?x))" using sx by (simp add: rsect_def)
  have g: "dslot t d k = get32 (t (unat ?x)) (4 * (k - NDIRECT))" for t
    using k x0 by (simp add: dslot_def)
  show ?thesis
  proof (cases "k \<in> K")
    case True
    then have "get32 (mk_img s (unat ?x)) (4 * (k - NDIRECT)) \<noteq> 0" using a(2)[of k] k(2) g[of "mk_img s"] by simp
    then show ?thesis using True f g[of "mk_img s"] by (intro exI[of _ s]) (simp add: r insert_absorb appended_refl)
  next
    case False
    then have z: "get32 (mk_img s (unat ?x)) (4 * (k - NDIRECT)) = 0" using a(2)[of k] k(2) g[of "mk_img s"] by simp
    have "unat (freeblock s) + 1 \<le> FSSIZE" using room False by (simp add: insert_Diff_if)
    note h = fresh_indirect[OF f i this False k]
    let ?t = "wsect ?x (put32 (mk_img s (unat ?x)) (4 * (k - NDIRECT)) (freeblock s)) (snd (take_fresh s))"
    have "mk_img ?t (unat ?x) = put32 (mk_img s (unat ?x)) (4 * (k - NDIRECT)) (freeblock s)" by (simp add: wsect_def sx)
    then have "dslot (mk_img ?t) d k = freeblock s" unfolding g by simp
    then show ?thesis using h z by (intro exI[of _ ?t]) (simp add: r take_fresh_def)
  qed
qed

lemma iappend_block_ok:
  assumes f: "alloc_file (mk_img s) d xs K" and i: "img_ok s d" and k: "k < MAXFILE"
    and room: "unat (freeblock s) + card (with_block k K - K) \<le> FSSIZE"
  shows "\<exists>d' s'. iappend_block k d s = Ok (dslot (mk_img s') d' k, d', s') \<and> alloc_file (mk_img s') d' xs (with_block k K)
    \<and> appended s d K s' d' (with_block k K) \<and> mk_blocks s' = mk_blocks s"
proof (cases "k < NDIRECT")
  case True
  then show ?thesis using iappend_block_direct[OF f i _ room] by blast
next
  case False
  let ?M = "insert MAXFILE K"
  have w: "with_block k K = insert k ?M" using False by (auto simp: with_block_def)
  have fin: "finite K" by (rule alloc_finite[OF f])
  have "insert k ?M - K = (insert k ?M - ?M) \<union> (?M - K)" "(insert k ?M - ?M) \<inter> (?M - K) = {}" by auto
  then have c: "card (insert k ?M - K) = card (insert k ?M - ?M) + card (?M - K)"
    using fin by (simp only: card_Un_disjoint finite_Diff finite_insert)
  then have "unat (freeblock s) + card (?M - K) \<le> FSSIZE" using room w by simp
  from indirect_there[OF f i this] obtain d1 s1 where 1: "(if xint (daddrs d NDIRECT) = 0
       then let (a, s1) = take_fresh s in (d\<lparr>daddrs := (daddrs d)(NDIRECT := xint a)\<rparr>, s1) else (d, s)) = (d1, s1)"
    "alloc_file (mk_img s1) d1 xs ?M" "appended s d K s1 d1 ?M" "mk_blocks s1 = mk_blocks s" by blast
  have fb: "unat (freeblock s1) = unat (freeblock s) + card (?M - K)" using 1(3) by (simp add: appended_def)
  have i1: "img_ok s1 d1" using img_ok_appended[OF i 1(3)] 1(4) i fb c room w by (simp add: img_ok_def)
  have "unat (freeblock s1) + card (insert k ?M - ?M) \<le> FSSIZE" using fb c room w by simp
  from indirect_entry[OF 1(2) i1 _ k _ this] False obtain s' where 2: "bindR (rsect (xint (daddrs d1 NDIRECT)) s1) (\<lambda>ind.
       if get32 ind (4 * (k - NDIRECT)) = 0
       then let (a, s2) = take_fresh s1; ind' = put32 ind (4 * (k - NDIRECT)) (xint a)
            in Ok (xint (get32 ind' (4 * (k - NDIRECT))), d1, wsect (xint (daddrs d1 NDIRECT)) ind' s2)
       else Ok (xint (get32 ind (4 * (k - NDIRECT))), d1, s1)) = Ok (dslot (mk_img s') d1 k, d1, s')"
    "alloc_file (mk_img s') d1 xs (insert k ?M)" "appended s1 d1 ?M s' d1 (insert k ?M)" "mk_blocks s' = mk_blocks s1" by auto
  have "appended s d K s' d1 (insert k ?M)" by (rule appended_trans[OF 1(3) 2(3)]) (simp add: fin)
  then show ?thesis using 1(1,4) 2 False unfolding w
    by (intro exI[of _ d1] exI[of _ s']) (simp only: iappend_block_def if_False prod.case Let_def simp_thms)
qed

text \<open>The slots of a file of \<open>n\<close> bytes: its data blocks and, when they are more than \<open>NDIRECT\<close>, the
  indirect block.\<close>

definition slots :: "nat \<Rightarrow> nat set" where
  "slots n = {k. k * BSIZE < n} \<union> (if NDIRECT * BSIZE < n then {MAXFILE} else {})"

lemma slots_step:
  assumes "0 < n1" "n mod BSIZE + n1 \<le> BSIZE"
  shows "slots (n + n1) = with_block (n div BSIZE) (slots n)"
proof -
  let ?f = "n div BSIZE"
  have n: "n = ?f * BSIZE + n mod BSIZE" "0 < BSIZE" by (simp_all add: BSIZE_def)
  have k: "k * BSIZE < n + n1 \<longleftrightarrow> k \<le> ?f" for k
  proof
    assume "k * BSIZE < n + n1"
    then have "k * BSIZE < (?f + 1) * BSIZE" using n(1) assms(2) unfolding add_mult_distrib by linarith
    then have "k < ?f + 1" unfolding mult_less_cancel2 by simp
    then show "k \<le> ?f" by simp
  next
    assume "k \<le> ?f"
    then have "k * BSIZE \<le> ?f * BSIZE" by simp
    then show "k * BSIZE < n + n1" using n(1) assms(1) by linarith
  qed
  have l: "k < ?f \<Longrightarrow> k * BSIZE < n" for k
  proof -
    assume "k < ?f"
    then have "k * BSIZE < ?f * BSIZE" using n(2) by simp
    then show "k * BSIZE < n" using n(1) by linarith
  qed
  have g: "k * BSIZE < n \<Longrightarrow> k \<le> ?f" for k using k[of k] assms(1) by linarith
  have "{k. k * BSIZE < n + n1} = insert ?f {k. k * BSIZE < n}" using k l g by (auto simp: le_less)
  moreover have "NDIRECT * BSIZE < n \<Longrightarrow> \<not> ?f < NDIRECT" using g[of NDIRECT] by simp
  ultimately show ?thesis unfolding slots_def with_block_def k by auto
qed

lemma slots_mono: "m \<le> n \<Longrightarrow> slots m \<subseteq> slots n"
  by (auto simp: slots_def)

lemma slots_finite [simp]: "finite (slots n)"
proof -
  have "{k. k * BSIZE < n} \<subseteq> {..n}" by (auto simp: BSIZE_def)
  then have "finite {k. k * BSIZE < n}" using finite_atMost finite_subset by blast
  then show ?thesis by (simp add: slots_def)
qed

lemma slots_card_add:
  assumes "a \<le> b" "b \<le> c"
  shows "card (slots c - slots a) = card (slots c - slots b) + card (slots b - slots a)"
proof -
  have "slots c - slots a = (slots c - slots b) \<union> (slots b - slots a)" "(slots c - slots b) \<inter> (slots b - slots a) = {}"
    using slots_mono[OF assms(1)] slots_mono[OF assms(2)] by auto
  then show ?thesis by (simp only: card_Un_disjoint finite_Diff slots_finite)
qed

text \<open>One round of the loop: the write into the block.\<close>

lemma write_round:
  assumes f: "alloc_file (mk_img s) d xs K" and i: "img_ok s d" and k: "k = length xs div BSIZE" "k \<in> K" "k < MAXFILE"
    and n: "length xs mod BSIZE + length ys \<le> BSIZE"
  shows "\<exists>buf. rsect (dslot (mk_img s) d k) s = Ok buf
     \<and> (let s' = wsect (dslot (mk_img s) d k) (bput_bytes buf (length xs mod BSIZE) ys) s
        in alloc_file (mk_img s') d (xs @ ys) K \<and> appended s d K s' d K \<and> mk_blocks s' = mk_blocks s)"
proof -
  have km: "k \<le> MAXFILE" using k(3) by simp
  have x0: "dslot (mk_img s) d k \<noteq> 0" using alloc_fileD(2)[OF f km] k(2) by simp
  note sx = slot_block[OF i km x0]
  have x: "unat (dslot (mk_img s) d k) \<in> downs (mk_img s) d" by (rule downsI[OF km x0])
  show ?thesis
    using alloc_write[OF f k n] x sx
    by (auto simp: rsect_def wsect_def Let_def appended_def)
qed

lemma iappend_loop_ok:
  assumes "alloc_file (mk_img s) d xs (slots (length xs))" "img_ok s d" "length xs + length p \<le> MAXFILE * BSIZE"
    and "unat (freeblock s) + card (slots (length xs + length p) - slots (length xs)) \<le> FSSIZE"
  shows "\<exists>d' s'. iappend_loop (of_nat (length xs)) d p s = Ok (of_nat (length xs + length p), d', s')
     \<and> alloc_file (mk_img s') d' (xs @ p) (slots (length xs + length p))
     \<and> appended s d (slots (length xs)) s' d' (slots (length xs + length p)) \<and> mk_blocks s' = mk_blocks s"
  using assms
proof (induction "length p" arbitrary: p xs d s rule: less_induct)
  case less
  note f = less.prems(1) and i = less.prems(2) and size = less.prems(3) and room = less.prems(4)
  show ?case
  proof (cases "p = []")
    case True
    then show ?thesis using f by (simp add: iappend_loop.simps appended_refl)
  next
    case False
    let ?n = "length xs" and ?k = "length xs div BSIZE"
    define n1 where "n1 = min (length p) ((?k + 1) * BSIZE - ?n)"
    have off: "unat (of_nat ?n :: u32) = ?n"
      using size by (simp add: MAXFILE_bytes unat_of_nat take_bit_nat_eq_self)
    have n: "?n = ?k * BSIZE + ?n mod BSIZE" "?n mod BSIZE < BSIZE" by (simp_all add: BSIZE_def)
    have "(?k + 1) * BSIZE - ?n = BSIZE - ?n mod BSIZE" using n unfolding add_mult_distrib by linarith
    then have n1: "0 < n1" "n1 \<le> length p" "?n mod BSIZE + n1 \<le> BSIZE"
      using False n(2) by (simp_all add: n1_def)
    have k: "?k < MAXFILE" using False size by (intro offset_block) (cases p; simp)
    have st: "slots (?n + n1) = with_block ?k (slots ?n)" by (rule slots_step[OF n1(1,3)])
    have c: "card (slots (?n + length p) - slots ?n) = card (slots (?n + length p) - slots (?n + n1)) + card (slots (?n + n1) - slots ?n)"
      using n1(2) by (intro slots_card_add) auto
    have "unat (freeblock s) + card (with_block ?k (slots ?n) - slots ?n) \<le> FSSIZE" using room c st by simp
    from iappend_block_ok[OF f i k this, folded st] obtain d1 s1 where b: "iappend_block ?k d s = Ok (dslot (mk_img s1) d1 ?k, d1, s1)"
      "alloc_file (mk_img s1) d1 xs (slots (?n + n1))" "appended s d (slots ?n) s1 d1 (slots (?n + n1))" "mk_blocks s1 = mk_blocks s" by blast
    have fb: "unat (freeblock s1) = unat (freeblock s) + card (slots (?n + n1) - slots ?n)" using b(3) by (simp add: appended_def)
    have i1: "img_ok s1 d1" using img_ok_appended[OF i b(3)] b(4) i fb c room by (simp add: img_ok_def)
    have kin: "?k \<in> slots (?n + n1)" unfolding st by (simp add: with_block_def)
    have "?n mod BSIZE + length (take n1 p) \<le> BSIZE" using n1 by simp
    from write_round[OF b(2) i1 refl kin k this] obtain buf s2 where w: "rsect (dslot (mk_img s1) d1 ?k) s1 = Ok buf"
      "s2 = wsect (dslot (mk_img s1) d1 ?k) (bput_bytes buf (?n mod BSIZE) (take n1 p)) s1"
      "alloc_file (mk_img s2) d1 (xs @ take n1 p) (slots (?n + n1))" "appended s1 d1 (slots (?n + n1)) s2 d1 (slots (?n + n1))"
      "mk_blocks s2 = mk_blocks s1" by (auto simp: Let_def)
    have g2: "appended s d (slots ?n) s2 d1 (slots (?n + n1))" by (rule appended_trans[OF b(3) w(4)]) simp
    have fb2: "unat (freeblock s2) = unat (freeblock s1)" using w(4) by (simp add: appended_def)
    have i2: "img_ok s2 d1" using img_ok_appended[OF i1 w(4)] w(5) i1 fb2 by (simp add: img_ok_def)
    have len: "length (xs @ take n1 p) = ?n + n1" "?n + n1 + length (drop n1 p) = ?n + length p" using n1(2) by simp_all
    have "\<exists>d' s'. iappend_loop (of_nat (?n + n1)) d1 (drop n1 p) s2 = Ok (of_nat (?n + length p), d', s')
       \<and> alloc_file (mk_img s') d' ((xs @ take n1 p) @ drop n1 p) (slots (?n + length p))
       \<and> appended s2 d1 (slots (?n + n1)) s' d' (slots (?n + length p)) \<and> mk_blocks s' = mk_blocks s2"
      using less.hyps[of "drop n1 p" s2 d1 "xs @ take n1 p", unfolded len] w(3) i2 size room c fb fb2 n1(1) False by simp
    then obtain d' s' where z: "iappend_loop (of_nat (?n + n1)) d1 (drop n1 p) s2 = Ok (of_nat (?n + length p), d', s')"
      "alloc_file (mk_img s') d' (xs @ p) (slots (?n + length p))" "appended s2 d1 (slots (?n + n1)) s' d' (slots (?n + length p))"
      "mk_blocks s' = mk_blocks s2" by auto
    have "?n - ?k * BSIZE = ?n mod BSIZE" using n(1) by linarith
    then have "iappend_loop (of_nat ?n) d p s = iappend_loop (of_nat (?n + n1)) d1 (drop n1 p) s2"
      unfolding iappend_loop.simps[of "of_nat ?n" d p s] off using False k b(1) w(1,2)
      by (simp add: Let_def n1_def[symmetric, simplified])
    then show ?thesis
      using z b(4) w(5) appended_trans[OF g2 z(3)] by (intro exI[of _ d'] exI[of _ s']) simp
  qed
qed

end
