(* ===== verification/Mkfs_Image.thy ===== *)
theory Mkfs_Image
  imports Mkfs_Correct
begin

text \<open>
  The file system in the image while \<open>mkfs\<close> builds it: \<open>fs_image m cs\<close> says that the inodes from
  \<open>ROOTINO\<close> on have the contents \<open>cs\<close>, each in blocks of its own below \<open>freeblock\<close>. Every function of
  \<open>mkfs.c\<close> keeps it, and the kernel that mounts the finished image finds its invariants.
\<close>

section \<open>Inodes in the image\<close>

definition ino :: "nat \<Rightarrow> u32" where
  "ino i = of_nat (i + 1)"

definition mk_inode :: "mk_state \<Rightarrow> u32 \<Rightarrow> dinode" where
  "mk_inode m i = get_dinode (mk_img m (unat i div 16 + 33)) (dinode_off i)"

lemma ino_unat [simp]: "i < NINODES \<Longrightarrow> unat (ino i) = i + 1"
  by (simp add: ino_def NINODES_def unat_of_nat take_bit_nat_eq_self del: of_nat_Suc)

lemma ino_inj: "i < NINODES \<Longrightarrow> j < NINODES \<Longrightarrow> ino i = ino j \<longleftrightarrow> i = j"
  by (metis add_right_cancel ino_unat)

lemma rinode_eq: "unat i < NINODES \<Longrightarrow> mk_blocks m = FSSIZE \<Longrightarrow> rinode i m = Ok (mk_inode m i)"
  using mk_iblock_nat[of i] by (simp add: rinode_def rsect_def mk_inode_def FSSIZE_def NINODES_def)

lemma winode_ok:
  assumes i: "unat i < NINODES" and m: "mk_blocks m = FSSIZE" and d: "dinode_ok d"
  shows "\<exists>m'. winode i d m = Ok m' \<and> m' = m\<lparr>mk_img := mk_img m'\<rparr>
    \<and> (\<forall>j. mk_inode m' j = (if j = i then d else mk_inode m j)) \<and> (\<forall>b. b < 33 \<or> 46 \<le> b \<longrightarrow> mk_img m' b = mk_img m b)"
proof -
  let ?B = "unat i div 16 + 33"
  have B: "sector (mk_iblock i) = ?B" "?B < 46" using mk_iblock_nat[OF i] i by (simp_all add: NINODES_def)
  define m' where "m' = m\<lparr>mk_img := (mk_img m)(?B := put_dinode (mk_img m ?B) (dinode_off i) d)\<rparr>"
  have "winode i d m = Ok m'"
    using B m by (simp add: winode_def rsect_def wsect_def m'_def FSSIZE_def)
  moreover have "mk_inode m' j = (if j = i then d else mk_inode m j)" for j
  proof (cases "j = i")
    case False
    have "get_dinode (mk_img m' (unat j div 16 + 33)) (dinode_off j) = get_dinode (mk_img m (unat j div 16 + 33)) (dinode_off j)"
    proof (cases "unat j div 16 = unat i div 16")
      case True
      have "dinode_off j + k < dinode_off i \<or> dinode_off i + 64 \<le> dinode_off j + k" if "k < 64" for k
      proof -
        have "unat j \<noteq> unat i" using False by (simp add: word_unat_eq_iff)
        then have "unat i mod 16 \<noteq> unat j mod 16" using True by (metis div_mult_mod_eq)
        then show ?thesis using that unfolding dinode_off_def mk_layout by linarith
      qed
      then show ?thesis using True by (intro get_dinode_cong) (simp add: m'_def put_dinode_other)
    qed (simp add: m'_def)
    then show ?thesis using False by (simp add: mk_inode_def)
  qed (simp add: mk_inode_def m'_def get_put_dinode[OF d])
  moreover have "mk_img m' b = mk_img m b" if "b < 33 \<or> 46 \<le> b" for b using that B(2) by (auto simp: m'_def)
  ultimately show ?thesis by (intro exI[of _ m']) (simp add: m'_def)
qed

text \<open>An inode with its blocks.\<close>

definition inode_holds :: "mk_state \<Rightarrow> nat \<Rightarrow> u8 list \<Rightarrow> bool" where
  "inode_holds m i c \<longleftrightarrow>
     (let d = mk_inode m (ino i)
      in alloc_file (mk_img m) d c (slots (length c)) \<and> length c \<le> MAXFILE * BSIZE
         \<and> downs (mk_img m) d \<subseteq> {mk_nmeta..<unat (freeblock m)}
         \<and> d = zero_dinode\<lparr>dtype := (if i = 0 then T_DIR else T_FILE), dnlink := 1, dsize := of_nat (length c), daddrs := daddrs d\<rparr>)"

lemma inode_fields:
  assumes "inode_holds m i c"
  shows "dsize (mk_inode m (ino i)) = of_nat (length c)" "dtype (mk_inode m (ino i)) = (if i = 0 then T_DIR else T_FILE)"
    "dnlink (mk_inode m (ino i)) = 1" "unat (dsize (mk_inode m (ino i))) = length c" "dinode_ok (mk_inode m (ino i))"
proof -
  have e: "mk_inode m (ino i) = zero_dinode\<lparr>dtype := (if i = 0 then T_DIR else T_FILE), dnlink := 1, dsize := of_nat (length c), daddrs := daddrs (mk_inode m (ino i))\<rparr>"
    and l: "length c \<le> MAXFILE * BSIZE" and a: "alloc_file (mk_img m) (mk_inode m (ino i)) c (slots (length c))"
    using assms by (simp_all add: inode_holds_def Let_def)
  show s: "dsize (mk_inode m (ino i)) = of_nat (length c)" using arg_cong[OF e, of dsize] by simp
  show "dtype (mk_inode m (ino i)) = (if i = 0 then T_DIR else T_FILE)" using arg_cong[OF e, of dtype] by simp
  show "dnlink (mk_inode m (ino i)) = 1" using arg_cong[OF e, of dnlink] by simp
  show "unat (dsize (mk_inode m (ino i))) = length c" using l by (simp add: s MAXFILE_bytes unat_of_nat take_bit_nat_eq_self)
  show "dinode_ok (mk_inode m (ino i))" by (rule alloc_fileD(1)[OF a])
qed

definition image_blocks :: "u8 list list \<Rightarrow> nat" where
  "image_blocks cs = mk_nmeta + (\<Sum>c\<leftarrow>cs. card (slots (length c)))"

definition fs_image :: "mk_state \<Rightarrow> u8 list list \<Rightarrow> bool" where
  "fs_image m cs \<longleftrightarrow> mk_blocks m = FSSIZE \<and> length cs < NINODES \<and> freeinode m = ino (length cs)
     \<and> unat (freeblock m) = image_blocks cs \<and> image_blocks cs \<le> FSSIZE
     \<and> (\<forall>b. unat (freeblock m) \<le> b \<or> (b < 33 \<and> b \<noteq> 1) \<or> b = 46 \<longrightarrow> mk_img m b = zero_block)
     \<and> mk_img m 1 = put32s zero_block 0 [magic mk_sb, nblocks_total mk_sb, nblocks mk_sb, ninodes mk_sb,
                     nlog mk_sb, logstart mk_sb, inodestart mk_sb, bmapstart mk_sb]
     \<and> (\<forall>i < length cs. inode_holds m i (cs ! i))
     \<and> (\<forall>i < length cs. \<forall>j < i. downs (mk_img m) (mk_inode m (ino i)) \<inter> downs (mk_img m) (mk_inode m (ino j)) = {})
     \<and> (\<forall>i. length cs \<le> i \<and> i + 1 < NINODES \<longrightarrow> mk_inode m (ino i) = zero_dinode)"

lemma fs_imageD:
  assumes "fs_image m cs"
  shows "mk_blocks m = FSSIZE" "length cs < NINODES" "freeinode m = ino (length cs)" "unat (freeblock m) = image_blocks cs"
    "image_blocks cs \<le> FSSIZE" "unat (freeblock m) \<le> b \<or> (b < 33 \<and> b \<noteq> 1) \<or> b = 46 \<Longrightarrow> mk_img m b = zero_block"
    "i < length cs \<Longrightarrow> inode_holds m i (cs ! i)"
    "i < length cs \<Longrightarrow> j < length cs \<Longrightarrow> i \<noteq> j \<Longrightarrow> downs (mk_img m) (mk_inode m (ino i)) \<inter> downs (mk_img m) (mk_inode m (ino j)) = {}"
    "length cs \<le> i \<Longrightarrow> i + 1 < NINODES \<Longrightarrow> mk_inode m (ino i) = zero_dinode"
  using assms by (auto simp: fs_image_def linorder_neq_iff)
    (metis disjoint_iff)+

lemma inode_holds_img_ok: "fs_image m cs \<Longrightarrow> i < length cs \<Longrightarrow> img_ok m (mk_inode m (ino i))"
  using fs_imageD[of m cs] by (auto simp: img_ok_def inode_holds_def Let_def image_blocks_def)

text \<open>The blocks of an inode do not depend on its size, type and links.\<close>

lemma dslot_addrs: "daddrs d' = daddrs d \<Longrightarrow> dslot img d' = dslot img d"
  by (simp add: dslot_def fun_eq_iff)

lemma alloc_addrs:
  assumes "daddrs d' = daddrs d"
  shows "alloc_file img d' c K = alloc_file img d c K" "downs img d' = downs img d"
  using dslot_addrs[OF assms] by (simp_all add: alloc_file_def downs_def dbyte_def dinode_ok_def assms)

text \<open>An inode whose blocks were left alone.\<close>

lemma inode_holds_cong:
  assumes h: "inode_holds m i c" and d: "mk_inode m' (ino i) = mk_inode m (ino i)" and fb: "unat (freeblock m) \<le> unat (freeblock m')"
    and img: "\<And>b. b \<in> downs (mk_img m) (mk_inode m (ino i)) \<Longrightarrow> mk_img m' b = mk_img m b"
  shows "inode_holds m' i c" "downs (mk_img m') (mk_inode m' (ino i)) = downs (mk_img m) (mk_inode m (ino i))"
proof -
  have a: "alloc_file (mk_img m) (mk_inode m (ino i)) c (slots (length c))" using h by (simp add: inode_holds_def Let_def)
  note c = alloc_file_cong[OF a img]
  show dn: "downs (mk_img m') (mk_inode m' (ino i)) = downs (mk_img m) (mk_inode m (ino i))" using c(2) d by simp
  then show "inode_holds m' i c" using h c(1) fb d by (auto simp: inode_holds_def Let_def)
qed

section \<open>Appending and allocating\<close>

lemma card_slots_diff: "a \<le> b \<Longrightarrow> card (slots b - slots a) + card (slots a) = card (slots b)"
  using slots_card_add[of 0 a b] by (simp add: slots_def[of 0])

lemma image_blocks_update:
  assumes "i < length cs" "length (cs ! i) \<le> length c"
  shows "image_blocks (cs[i := c]) = image_blocks cs + card (slots (length c) - slots (length (cs ! i)))"
proof -
  have "(\<Sum>c\<leftarrow>cs[i := c]. card (slots (length c))) + card (slots (length (cs ! i)))
      = (\<Sum>c\<leftarrow>cs. card (slots (length c))) + card (slots (length c))"
    using assms(1) by (induction cs arbitrary: i) (auto split: nat.split)
  then show ?thesis using card_slots_diff[OF assms(2)] by (simp add: image_blocks_def)
qed

lemma downs_range:
  assumes "fs_image m cs" "i < length cs"
  shows "downs (mk_img m) (mk_inode m (ino i)) \<subseteq> {mk_nmeta..<unat (freeblock m)}"
  using fs_imageD(7)[OF assms] by (simp add: inode_holds_def Let_def)

text \<open>Replacing one inode: what has to hold of the new image.\<close>

lemma fs_image_update:
  assumes F: "fs_image m cs" and i: "i < length cs" and len: "length (cs ! i) \<le> length c" and room: "image_blocks (cs[i := c]) \<le> FSSIZE"
    and fi: "freeinode m' = freeinode m" "mk_blocks m' = FSSIZE"
    and fb: "unat (freeblock m') = unat (freeblock m) + card (slots (length c) - slots (length (cs ! i)))"
    and h: "inode_holds m' i c"
    and dn: "downs (mk_img m') (mk_inode m' (ino i)) \<subseteq> downs (mk_img m) (mk_inode m (ino i)) \<union> {unat (freeblock m)..<unat (freeblock m')}"
    and other: "\<And>j. j \<noteq> i \<Longrightarrow> j + 1 < NINODES \<Longrightarrow> mk_inode m' (ino j) = mk_inode m (ino j)"
    and img: "\<And>b. b \<notin> downs (mk_img m') (mk_inode m' (ino i)) \<Longrightarrow> b < 33 \<or> 46 \<le> b \<Longrightarrow> mk_img m' b = mk_img m b"
  shows "fs_image m' (cs[i := c])"
proof -
  note f = fs_imageD[OF F]
  let ?D = "\<lambda>m j. downs (mk_img m) (mk_inode m (ino j))"
  have r: "?D m' i \<subseteq> {47..<unat (freeblock m')}" using h by (simp add: inode_holds_def Let_def mk_layout)
  have le: "unat (freeblock m) \<le> unat (freeblock m')" using fb by simp
  have dis: "?D m' i \<inter> ?D m j = {}" if "j < length cs" "j \<noteq> i" for j
  proof -
    have "?D m i \<inter> ?D m j = {}" by (rule f(8)[OF i that(1)]) (use that in simp)
    then show ?thesis using dn downs_range[OF F that(1)] by fastforce
  qed
  have keep: "inode_holds m' j (cs ! j) \<and> ?D m' j = ?D m j" if j: "j < length cs" "j \<noteq> i" for j
  proof -
    have e: "mk_img m' b = mk_img m b" if "b \<in> ?D m j" for b
    proof (rule img)
      show "b \<notin> ?D m' i" using dis[OF j] that by auto
      show "b < 33 \<or> 46 \<le> b" using downs_range[OF F j(1)] that by (auto simp: mk_layout)
    qed
    have "mk_inode m' (ino j) = mk_inode m (ino j)" using j f(2) by (intro other) auto
    from inode_holds_cong[OF f(7)[OF j(1)] this le e] show ?thesis by simp
  qed
  have z: "mk_img m' b = mk_img m b" if "unat (freeblock m') \<le> b \<or> b < 33 \<or> b = 46" for b
    using that r le f(4) by (intro img) (auto simp: image_blocks_def mk_layout)
  show ?thesis
    unfolding fs_image_def
  proof (intro conjI)
    show "unat (freeblock m') = image_blocks (cs[i := c])" using fb f(4) image_blocks_update[OF i len] by simp
    show "\<forall>b. unat (freeblock m') \<le> b \<or> (b < 33 \<and> b \<noteq> 1) \<or> b = 46 \<longrightarrow> mk_img m' b = zero_block"
    proof (intro allI impI)
      fix b assume b: "unat (freeblock m') \<le> b \<or> (b < 33 \<and> b \<noteq> 1) \<or> b = 46"
      then have "mk_img m' b = mk_img m b" by (intro z) auto
      also have "\<dots> = zero_block" using b le by (intro f(6)) auto
      finally show "mk_img m' b = zero_block" .
    qed
    show "mk_img m' 1 = put32s zero_block 0 [magic mk_sb, nblocks_total mk_sb, nblocks mk_sb, ninodes mk_sb,
                     nlog mk_sb, logstart mk_sb, inodestart mk_sb, bmapstart mk_sb]"
      using z[of 1] F by (simp add: fs_image_def)
    show "\<forall>j < length (cs[i := c]). inode_holds m' j (cs[i := c] ! j)"
    proof (intro allI impI)
      fix j assume "j < length (cs[i := c])"
      then show "inode_holds m' j (cs[i := c] ! j)" using keep[of j] h i by (cases "j = i") simp_all
    qed
    show "\<forall>j < length (cs[i := c]). \<forall>k < j. ?D m' j \<inter> ?D m' k = {}"
    proof (intro allI impI)
      fix j k assume jk: "j < length (cs[i := c])" "k < j"
      consider "j = i" "k \<noteq> i" | "k = i" "j \<noteq> i" | "j \<noteq> i" "k \<noteq> i" using jk by blast
      then show "?D m' j \<inter> ?D m' k = {}"
      proof cases
        case 1
        then show ?thesis using dis[of k] keep[of k] jk by simp
      next
        case 2
        then show ?thesis using dis[of j] keep[of j] jk by (simp add: inf_commute)
      next
        case 3
        then show ?thesis using f(8)[of j k] keep[of j] keep[of k] jk by simp
      qed
    qed
    show "\<forall>j. length (cs[i := c]) \<le> j \<and> j + 1 < NINODES \<longrightarrow> mk_inode m' (ino j) = zero_dinode"
      using other f(9) i by auto
  qed (use room fi f in auto)
qed

lemma dinode_form:
  "d' = d\<lparr>daddrs := a\<rparr> \<Longrightarrow> d = zero_dinode\<lparr>dtype := t, dnlink := n, dsize := z, daddrs := b\<rparr> \<Longrightarrow>
     d'\<lparr>dsize := z'\<rparr> = zero_dinode\<lparr>dtype := t, dnlink := n, dsize := z', daddrs := daddrs (d'\<lparr>dsize := z'\<rparr>)\<rparr>"
  by simp

lemma iappend_ok:
  assumes F: "fs_image m cs" and i: "i < length cs" and size: "length (cs ! i) + length p \<le> MAXFILE * BSIZE"
    and room: "image_blocks (cs[i := cs ! i @ p]) \<le> FSSIZE"
  shows "\<exists>m'. iappend (ino i) p m = Ok m' \<and> fs_image m' (cs[i := cs ! i @ p])"
proof -
  note f = fs_imageD[OF F]
  let ?c = "cs ! i" and ?d = "mk_inode m (ino i)"
  have ui: "unat (ino i) < NINODES" using i f(2) by simp
  have h: "inode_holds m i ?c" by (rule f(7)[OF i])
  then have d: "alloc_file (mk_img m) ?d ?c (slots (length ?c))"
    "?d = zero_dinode\<lparr>dtype := (if i = 0 then T_DIR else T_FILE), dnlink := 1, dsize := of_nat (length ?c), daddrs := daddrs ?d\<rparr>"
    by (simp_all add: inode_holds_def Let_def)
  have sz: "dsize ?d = of_nat (length ?c)" using arg_cong[OF d(2), of dsize] by simp
  have fb: "unat (freeblock m) + card (slots (length ?c + length p) - slots (length ?c)) \<le> FSSIZE"
    using room f(4) image_blocks_update[OF i, of "?c @ p"] by simp
  from iappend_loop_ok[OF d(1) inode_holds_img_ok[OF F i] size fb]
  obtain d' s' where l: "iappend_loop (of_nat (length ?c)) ?d p m = Ok (of_nat (length ?c + length p), d', s')"
    "alloc_file (mk_img s') d' (?c @ p) (slots (length ?c + length p))"
    "appended m ?d (slots (length ?c)) s' d' (slots (length ?c + length p))" "mk_blocks s' = mk_blocks m" by blast
  note g = l(3)[unfolded appended_def]
  let ?e = "d'\<lparr>dsize := of_nat (length ?c + length p)\<rparr>"
  have "dinode_ok ?e" using alloc_fileD(1)[OF l(2)] by (simp add: dinode_ok_def)
  then obtain m' where w: "winode (ino i) ?e s' = Ok m'" "m' = s'\<lparr>mk_img := mk_img m'\<rparr>"
    "\<And>j. mk_inode m' j = (if j = ino i then ?e else mk_inode s' j)" "\<And>b. b < 33 \<or> 46 \<le> b \<Longrightarrow> mk_img m' b = mk_img s' b"
    using winode_ok[OF ui, of s' ?e] l(4) f(1) by auto
  have st: "freeinode m' = freeinode m" "freeblock m' = freeblock s'" "mk_blocks m' = FSSIZE"
    using arg_cong[OF w(2), of freeinode] arg_cong[OF w(2), of freeblock] arg_cong[OF w(2), of mk_blocks] g l(4) f(1) by simp_all
  have fb': "unat (freeblock m') = unat (freeblock m) + card (slots (length (?c @ p)) - slots (length ?c))"
    using g st(2) by simp
  have dr: "downs (mk_img s') d' \<subseteq> {mk_nmeta..<unat (freeblock m')}"
    using g downs_range[OF F i] f(4) st(2) by (fastforce simp: image_blocks_def)
  have w46: "mk_img m' b = mk_img s' b" if "b \<in> downs (mk_img s') d'" for b
    using that dr by (intro w(4)) (auto simp: mk_layout)
  note c = alloc_file_cong[OF l(2) w46]
  have e: "mk_inode m' (ino i) = ?e" by (simp add: w(3))
  have "daddrs ?e = daddrs d'" by simp
  note ea = alloc_addrs[OF this]
  have dn: "downs (mk_img m') (mk_inode m' (ino i)) = downs (mk_img s') d'" unfolding e ea by (rule c(2))
  have en: "?e = zero_dinode\<lparr>dtype := (if i = 0 then T_DIR else T_FILE), dnlink := 1, dsize := of_nat (length (?c @ p)), daddrs := daddrs ?e\<rparr>"
  proof -
    have "d' = ?d\<lparr>daddrs := daddrs d'\<rparr>" using g by blast
    from dinode_form[OF this d(2)] show ?thesis unfolding length_append .
  qed
  have hm: "inode_holds m' i (?c @ p)"
    unfolding inode_holds_def Let_def e length_append
  proof (intro conjI)
    show "alloc_file (mk_img m') ?e (?c @ p) (slots (length ?c + length p))" unfolding ea by (rule c(1))
    show "downs (mk_img m') ?e \<subseteq> {mk_nmeta..<unat (freeblock m')}" using dr dn unfolding e by simp
    show "?e = zero_dinode\<lparr>dtype := (if i = 0 then T_DIR else T_FILE), dnlink := 1, dsize := of_nat (length ?c + length p), daddrs := daddrs ?e\<rparr>"
      by (rule en[unfolded length_append])
  qed (rule size)
  have s46: "mk_img s' b = mk_img m b" if "b \<notin> downs (mk_img s') d'" for b using g that by blast
  have "fs_image m' (cs[i := ?c @ p])"
  proof (rule fs_image_update[OF F i _ room st(1,3) fb' hm])
    show "downs (mk_img m') (mk_inode m' (ino i)) \<subseteq> downs (mk_img m) ?d \<union> {unat (freeblock m)..<unat (freeblock m')}"
      using g unfolding dn st(2) by blast
    show "mk_inode m' (ino j) = mk_inode m (ino j)" if "j \<noteq> i" "j + 1 < NINODES" for j
    proof -
      have "unat (ino j) div 16 + 33 < 47" using that by (simp add: NINODES_def)
      then have "mk_img s' (unat (ino j) div 16 + 33) = mk_img m (unat (ino j) div 16 + 33)" using dr by (intro s46) (auto simp: mk_layout)
      then have "mk_inode s' (ino j) = mk_inode m (ino j)" by (simp add: mk_inode_def)
      then show ?thesis using that f(2) i by (simp add: w(3) ino_inj)
    qed
    show "mk_img m' b = mk_img m b" if "b \<notin> downs (mk_img m') (mk_inode m' (ino i))" "b < 33 \<or> 46 \<le> b" for b
      using that w(4) s46 dn by simp
  qed simp
  moreover have "iappend (ino i) p m = Ok m'"
    using l(1) w(1) sz by (simp add: iappend_def rinode_eq[OF ui f(1)])
  ultimately show ?thesis by blast
qed

lemma empty_inode:
  assumes "\<And>k. daddrs d k = 0"
  shows "alloc_file img d [] (slots 0)" "downs img d = {}"
  using assms by (simp_all add: alloc_file_def downs_def dslot_def dbyte_def dinode_ok_def slots_def)

lemma mk_ialloc_ok:
  assumes F: "fs_image m cs" and n: "length cs + 1 < NINODES" and ty: "ty = (if cs = [] then T_DIR else T_FILE)"
  shows "\<exists>m'. mk_ialloc ty m = Ok (ino (length cs), m') \<and> fs_image m' (cs @ [[]])"
proof -
  note f = fs_imageD[OF F]
  let ?i = "ino (length cs)" and ?d = "zero_dinode\<lparr>dtype := ty, dnlink := 1\<rparr>" and ?s = "m\<lparr>freeinode := ino (length cs) + 1\<rparr>"
  have z: "?d = zero_dinode\<lparr>dtype := ty, dnlink := 1, dsize := 0\<rparr>" by (simp add: zero_dinode_def)
  have ui: "unat ?i < NINODES" using n by simp
  have "dinode_ok ?d" by (simp add: dinode_ok_def zero_dinode_def)
  then obtain m' where w: "winode ?i ?d ?s = Ok m'" "m' = ?s\<lparr>mk_img := mk_img m'\<rparr>"
    "\<And>j. mk_inode m' j = (if j = ?i then ?d else mk_inode ?s j)" "\<And>b. b < 33 \<or> 46 \<le> b \<Longrightarrow> mk_img m' b = mk_img ?s b"
    using winode_ok[OF ui, of ?s ?d] f(1) by auto
  have st: "freeinode m' = ino (length cs) + 1" "freeblock m' = freeblock m" "mk_blocks m' = FSSIZE"
    using arg_cong[OF w(2), of freeinode] arg_cong[OF w(2), of freeblock] arg_cong[OF w(2), of mk_blocks] f(1) by simp_all
  have mi: "mk_inode m' (ino j) = mk_inode m (ino j)" if "j < NINODES" "j \<noteq> length cs" for j
    using that w(3)[of "ino j"] f(2) ino_inj[of j "length cs"] by (simp add: mk_inode_def)
  have mn: "mk_inode m' ?i = ?d" by (simp add: w(3))
  have im: "mk_img m' b = mk_img m b" if "b < 33 \<or> 46 \<le> b" for b using w(4)[OF that] by simp
  have r: "b \<in> downs (mk_img m) (mk_inode m (ino j)) \<Longrightarrow> 47 \<le> b" if "j < length cs" for j b
    using downs_range[OF F that] by (auto simp: mk_layout)
  have old: "inode_holds m' j (cs ! j) \<and> downs (mk_img m') (mk_inode m' (ino j)) = downs (mk_img m) (mk_inode m (ino j))"
    if j: "j < length cs" for j
  proof -
    have "mk_inode m' (ino j) = mk_inode m (ino j)" using j f(2) by (intro mi) auto
    moreover have e: "mk_img m' b = mk_img m b" if "b \<in> downs (mk_img m) (mk_inode m (ino j))" for b
      using r[OF j that] by (intro im) simp
    ultimately show ?thesis using inode_holds_cong[OF f(7)[OF j] _ _ e] st(2) by simp
  qed
  have e: "daddrs ?d k = 0" for k by (simp add: zero_dinode_def)
  note en = empty_inode[of ?d, OF e]
  have new: "inode_holds m' (length cs) []"
    unfolding inode_holds_def Let_def mn using en by (simp add: ty zero_dinode_def)
  have "fs_image m' (cs @ [[]])"
    unfolding fs_image_def
  proof (intro conjI)
    have "image_blocks (cs @ [[]]) = image_blocks cs" by (simp add: image_blocks_def slots_def)
    then show "unat (freeblock m') = image_blocks (cs @ [[]])" "image_blocks (cs @ [[]]) \<le> FSSIZE" using f(4,5) st(2) by simp_all
    have "47 \<le> unat (freeblock m)" using f(4) by (simp add: image_blocks_def mk_layout)
    then show "\<forall>b. unat (freeblock m') \<le> b \<or> (b < 33 \<and> b \<noteq> 1) \<or> b = 46 \<longrightarrow> mk_img m' b = zero_block"
      using f(6) im st(2) by simp
    show "mk_img m' 1 = put32s zero_block 0 [magic mk_sb, nblocks_total mk_sb, nblocks mk_sb, ninodes mk_sb,
                     nlog mk_sb, logstart mk_sb, inodestart mk_sb, bmapstart mk_sb]"
      using im[of 1] F by (simp add: fs_image_def)
    show "\<forall>i < length (cs @ [[]]). inode_holds m' i ((cs @ [[]]) ! i)" using old new by (auto simp: nth_append less_Suc_eq)
    show "\<forall>i < length (cs @ [[]]). \<forall>j < i. downs (mk_img m') (mk_inode m' (ino i)) \<inter> downs (mk_img m') (mk_inode m' (ino j)) = {}"
    proof (intro allI impI)
      fix i j assume ij: "i < length (cs @ [[]])" "j < i"
      show "downs (mk_img m') (mk_inode m' (ino i)) \<inter> downs (mk_img m') (mk_inode m' (ino j)) = {}"
      proof (cases "i = length cs")
        case True
        then show ?thesis using en(2) mn by simp
      next
        case False
        then show ?thesis using f(8)[of i j] old[of i] old[of j] ij by simp
      qed
    qed
    show "\<forall>i. length (cs @ [[]]) \<le> i \<and> i + 1 < NINODES \<longrightarrow> mk_inode m' (ino i) = zero_dinode" using mi f(9) by simp
    show "freeinode m' = ino (length (cs @ [[]]))" by (simp add: st(1) ino_def)
  qed (use n st in simp_all)
  moreover have "mk_ialloc ty m = Ok (?i, m')" using w(1) f(3) z by (simp add: mk_ialloc_def Let_def)
  ultimately show ?thesis by blast
qed

section \<open>The files of the host\<close>

definition host_name :: "u8 list \<Rightarrow> u8 list" where
  "host_name arg = strip_underscore (strip_user arg)"

definition host_data :: "(u8 list \<Rightarrow> u8 list list option) \<Rightarrow> u8 list \<Rightarrow> u8 list" where
  "host_data host arg = (case host arg of None \<Rightarrow> [] | Some ps \<Rightarrow> concat (takeWhile (\<lambda>p. p \<noteq> []) ps))"

definition host_ok :: "(u8 list \<Rightarrow> u8 list list option) \<Rightarrow> u8 list \<Rightarrow> bool" where
  "host_ok host arg \<longleftrightarrow> 47 \<notin> set (strip_user arg) \<and> host arg \<noteq> None \<and> length (host_name arg) \<le> DIRSIZ
     \<and> length (host_data host arg) \<le> MAXFILE * BSIZE"

definition dir_data :: "(u32 \<times> u8 list) list \<Rightarrow> u8 list" where
  "dir_data es = concat (map (\<lambda>(i, nm). mk_dirent i nm) es)"

fun file_entries :: "nat \<Rightarrow> u8 list list \<Rightarrow> (u32 \<times> u8 list) list" where
  "file_entries k [] = []"
| "file_entries k (f # fs) = (ino k, host_name f) # file_entries (k + 1) fs"

lemma length_mk_dirent [simp]: "length (mk_dirent i nm) = 16"
  by (simp add: mk_dirent_def DIRSIZ_def length_le_bytes)

lemma length_dir_data [simp]: "length (dir_data es) = 16 * length es"
  by (induction es) (auto simp: dir_data_def)

lemma length_file_entries [simp]: "length (file_entries k fs) = length fs"
  by (induction fs arbitrary: k) auto

lemma card_slots_mono: "a \<le> b \<Longrightarrow> card (slots a) \<le> card (slots b)"
  by (simp add: card_mono slots_mono)

lemma image_blocks_simps:
  "image_blocks (c # cs) = card (slots (length c)) + image_blocks cs"
  "image_blocks (cs @ ds) = image_blocks cs + (\<Sum>c\<leftarrow>ds. card (slots (length c)))"
  by (simp_all add: image_blocks_def)

lemma pieces_ok:
  "fs_image m cs \<Longrightarrow> i < length cs \<Longrightarrow> length (cs ! i) + length (concat ps) \<le> MAXFILE * BSIZE \<Longrightarrow>
   image_blocks (cs[i := cs ! i @ concat ps]) \<le> FSSIZE \<Longrightarrow>
   \<exists>m'. iterR (iappend (ino i)) ps m = Ok m' \<and> fs_image m' (cs[i := cs ! i @ concat ps])"
proof (induction ps arbitrary: m cs)
  case (Cons p ps)
  note room = Cons.prems(4)
  have "card (slots (length (cs ! i) + length p)) \<le> card (slots (length (cs ! i) + length p + length (concat ps)))"
    by (rule card_slots_mono) simp
  then have "image_blocks (cs[i := cs ! i @ p]) \<le> FSSIZE"
    using room image_blocks_update[OF Cons.prems(2), of "cs ! i @ p"] image_blocks_update[OF Cons.prems(2), of "cs ! i @ concat (p # ps)"]
      card_slots_diff[of "length (cs ! i)" "length (cs ! i) + length p"]
      card_slots_diff[of "length (cs ! i)" "length (cs ! i) + length p + length (concat ps)"]
    by (simp add: add.assoc)
  with iappend_ok[OF Cons.prems(1,2)] Cons.prems(3) obtain m1 where
    "iappend (ino i) p m = Ok m1" "fs_image m1 (cs[i := cs ! i @ p])" by force
  moreover have "(cs[i := cs ! i @ p])[i := (cs[i := cs ! i @ p]) ! i @ concat ps] = cs[i := cs ! i @ concat (p # ps)]"
    using Cons.prems(2) by simp
  ultimately show ?case using Cons.IH[of m1 "cs[i := cs ! i @ p]"] Cons.prems(2,3) room by simp
qed simp

lemma mkfs_file_ok:
  assumes F: "fs_image m (r # cs)" and h: "host_ok host f" and n: "length cs + 2 < NINODES"
    and size: "length r + 16 \<le> MAXFILE * BSIZE"
    and room: "image_blocks ((r @ mk_dirent (ino (length cs + 1)) (host_name f)) # cs @ [host_data host f]) \<le> FSSIZE"
  shows "\<exists>m'. mkfs_file host f m = Ok m' \<and> fs_image m' ((r @ mk_dirent (ino (length cs + 1)) (host_name f)) # cs @ [host_data host f])"
proof -
  let ?i = "ino (length cs + 1)" and ?e = "mk_dirent (ino (length cs + 1)) (host_name f)"
  obtain ps where ps: "host f = Some ps" "concat (takeWhile (\<lambda>p. p \<noteq> []) ps) = host_data host f"
    using h by (auto simp: host_ok_def host_data_def)
  obtain m1 where 1: "mk_ialloc T_FILE m = Ok (?i, m1)" "fs_image m1 (r # cs @ [[]])"
    using mk_ialloc_ok[OF F, of T_FILE] n by auto
  have r1: "image_blocks ((r @ ?e) # cs @ [[]]) \<le> FSSIZE" using room by (simp add: image_blocks_simps slots_def[of 0])
  obtain m2 where 2: "iappend ROOTINO ?e m1 = Ok m2" "fs_image m2 ((r @ ?e) # cs @ [[]])"
    using iappend_ok[OF 1(2), of 0 ?e] r1 size by (auto simp: ino_def ROOTINO_def)
  have l: "((r @ ?e) # cs @ [[]]) ! (length cs + 1) = []" "((r @ ?e) # cs @ [[]])[length cs + 1 := [] @ x] = (r @ ?e) # cs @ [x]" for x
    by (simp_all add: nth_append list_update_append)
  obtain m3 where 3: "iterR (iappend ?i) (takeWhile (\<lambda>p. p \<noteq> []) ps) m2 = Ok m3" "fs_image m3 ((r @ ?e) # cs @ [host_data host f])"
    using pieces_ok[OF 2(2), of "length cs + 1" "takeWhile (\<lambda>p. p \<noteq> []) ps"] ps(2) room h unfolding l host_ok_def by auto
  show ?thesis
    using h ps(1) 1(1) 2(1) 3 by (simp add: mkfs_file_def host_ok_def host_name_def Let_def)
qed

lemma image_blocks_grow:
  "length r \<le> length r' \<Longrightarrow> image_blocks (r # cs) \<le> image_blocks (r' # cs @ ds)"
  using card_slots_mono[of "length r" "length r'"] by (simp add: image_blocks_simps)

lemma files_ok:
  "fs_image m (dir_data es # cs) \<Longrightarrow> \<forall>f \<in> set fs. host_ok host f \<Longrightarrow> length es = length cs + 2 \<Longrightarrow> length cs + length fs + 1 < NINODES \<Longrightarrow>
   image_blocks (dir_data (es @ file_entries (length cs + 1) fs) # cs @ map (host_data host) fs) \<le> FSSIZE \<Longrightarrow>
   \<exists>m'. iterR (mkfs_file host) fs m = Ok m' \<and> fs_image m' (dir_data (es @ file_entries (length cs + 1) fs) # cs @ map (host_data host) fs)"
proof (induction fs arbitrary: m cs es)
  case (Cons f fs)
  let ?e = "(ino (length cs + 1), host_name f)" and ?c = "host_data host f"
  have e: "dir_data es @ mk_dirent (ino (length cs + 1)) (host_name f) = dir_data (es @ [?e])" by (simp add: dir_data_def)
  have size: "length (dir_data es) + 16 \<le> MAXFILE * BSIZE" using Cons.prems(3,4) by (simp add: MAXFILE_bytes NINODES_def)
  have "image_blocks (dir_data (es @ [?e]) # cs @ [?c]) \<le> FSSIZE"
    using image_blocks_grow[of "dir_data (es @ [?e])" "dir_data (es @ ?e # file_entries (length cs + 2) fs)" "cs @ [?c]" "map (host_data host) fs"]
      Cons.prems(5) by simp
  then obtain m1 where 1: "mkfs_file host f m = Ok m1" "fs_image m1 (dir_data (es @ [?e]) # cs @ [?c])"
    using mkfs_file_ok[OF Cons.prems(1) _ _ size, of host f] Cons.prems(2,4) unfolding e by auto
  then show ?case
    using Cons.IH[of m1 "es @ [?e]" "cs @ [?c]"] Cons.prems(2-5) by simp
qed simp

section \<open>The start and the end\<close>

lemma wsect_zero:
  "n \<le> 2 ^ 22 \<Longrightarrow> mk_img s = (\<lambda>_. zero_block) \<Longrightarrow> mk_blocks s = 0 \<Longrightarrow>
   fold (\<lambda>i. wsect (of_nat i) zero_block) [0..<n] s = s\<lparr>mk_blocks := n\<rparr>"
proof (induction n)
  case (Suc n)
  then show ?case by (auto simp: wsect_def sector_of_nat fun_upd_def intro!: mk_state.equality)
qed simp

lemma get_dinode_zero: "get_dinode zero_block a = zero_dinode"
  by (simp add: get_dinode_def zero_dinode_def fun_eq_iff)

lemma start_ok:
  defines "s0 \<equiv> \<lparr>mk_img = (\<lambda>_. zero_block), mk_blocks = 0, freeinode = 1, freeblock = of_nat mk_nmeta\<rparr>"
  defines "s1 \<equiv> fold (\<lambda>i. wsect (of_nat i) zero_block) [0..<FSSIZE] s0"
  shows "fs_image (wsect 1 (put32s zero_block 0 [magic mk_sb, nblocks_total mk_sb, nblocks mk_sb, ninodes mk_sb,
                     nlog mk_sb, logstart mk_sb, inodestart mk_sb, bmapstart mk_sb]) s1) []"
proof -
  have "FSSIZE \<le> 2 ^ 22" by (simp add: FSSIZE_def)
  then have "s1 = s0\<lparr>mk_blocks := FSSIZE\<rparr>" unfolding s1_def by (rule wsect_zero) (simp_all add: s0_def)
  moreover have "sector 1 = 1" using sector_of_nat[of 1] by simp
  ultimately show ?thesis
    by (auto simp: fs_image_def wsect_def s0_def FSSIZE_def image_blocks_def mk_layout NINODES_def ino_def mk_inode_def get_dinode_zero)
qed

lemma bitmap_mask:
  "bit_clear (fold (\<lambda>i b. b(i div 8 := b (i div 8) OR bit_mask i)) [0..<n] zero_block) k \<longleftrightarrow> n \<le> k"
proof (induction n)
  case 0
  then show ?case by (simp add: bit_clear_def zero_block_def)
next
  case (Suc n)
  let ?d = "fold (\<lambda>i b. b(i div 8 := b (i div 8) OR bit_mask i)) [0..<n] zero_block"
  have "bit_clear (?d(n div 8 := ?d (n div 8) OR bit_mask n)) k \<longleftrightarrow> Suc n \<le> k"
    unfolding bit_clear_set Suc.IH by auto
  then show ?case by (simp only: upt_Suc_append le0 fold_append fold.simps o_def id_apply)
qed

lemma bitmap_fold:
  "bit_clear (fold (\<lambda>i b. b(i div 8 := b (i div 8) OR push_bit (i mod 8) 1)) [0..<n] zero_block) k \<longleftrightarrow> n \<le> k"
  by (rule bitmap_mask[unfolded bit_mask_def])

text \<open>What \<open>main\<close> does after the files: the size of the root directory is rounded up and the bitmap is
  written.\<close>

definition root_size :: "nat \<Rightarrow> nat" where
  "root_size n = (n div BSIZE + 1) * BSIZE"

definition finished :: "mk_state \<Rightarrow> mk_state \<Rightarrow> bool" where
  "finished m m' \<longleftrightarrow> mk_blocks m' = FSSIZE \<and> (\<forall>b. b < 33 \<or> 46 < b \<longrightarrow> mk_img m' b = mk_img m b)
     \<and> (\<forall>i. unat i < NINODES \<longrightarrow> mk_inode m' i =
          (if i = ROOTINO then (mk_inode m i)\<lparr>dsize := of_nat (root_size (unat (dsize (mk_inode m i))))\<rparr> else mk_inode m i))
     \<and> (\<forall>k. bit_clear (mk_img m' 46) k \<longleftrightarrow> unat (freeblock m) \<le> k)"

lemma finish_ok:
  assumes F: "fs_image m cs" and cs: "cs \<noteq> []" "length (hd cs) < MAXFILE * BSIZE"
  shows "\<exists>m'. bindR (rinode ROOTINO m) (\<lambda>d.
     bindR (winode ROOTINO (d\<lparr>dsize := xint ((xint (dsize d) div of_nat BSIZE + 1) * of_nat BSIZE)\<rparr>) m) (\<lambda>s7.
       mk_balloc (sint (freeblock s7)) s7)) = Ok m' \<and> finished m m'"
proof -
  note f = fs_imageD[OF F]
  let ?d = "mk_inode m ROOTINO"
  have h: "inode_holds m 0 (hd cs)" using f(7)[of 0] cs by (simp add: hd_conv_nth)
  have r: "ino 0 = ROOTINO" "unat ROOTINO < NINODES" by (simp_all add: ino_def ROOTINO_def NINODES_def)
  note i = inode_fields[OF h, unfolded r(1)]
  have d: "dinode_ok ?d" and l: "unat (dsize ?d) = length (hd cs)" by (rule i(5), rule i(4))
  have e: "(dsize ?d div of_nat BSIZE + 1) * of_nat BSIZE = of_nat (root_size (unat (dsize ?d)))"
  proof -
    have "unat (dsize ?d) < 2 ^ 31" using cs(2) l by (simp add: MAXFILE_bytes)
    then show ?thesis
      by (simp add: root_size_def BSIZE_def word_unat_eq_iff unat_word_ariths unat_div unat_of_nat)
  qed
  let ?e = "?d\<lparr>dsize := of_nat (root_size (unat (dsize ?d)))\<rparr>"
  have "dinode_ok ?e" using d by (simp add: dinode_ok_def)
  then obtain s7 where w: "winode ROOTINO ?e m = Ok s7" "s7 = m\<lparr>mk_img := mk_img s7\<rparr>"
    "\<And>j. mk_inode s7 j = (if j = ROOTINO then ?e else mk_inode m j)" "\<And>b. b < 33 \<or> 46 \<le> b \<Longrightarrow> mk_img s7 b = mk_img m b"
    using winode_ok[OF r(2) f(1), of ?e] by auto
  have fb: "freeblock s7 = freeblock m" "mk_blocks s7 = FSSIZE"
    using arg_cong[OF w(2), of freeblock] arg_cong[OF w(2), of mk_blocks] f(1) by simp_all
  have n: "unat (freeblock m) \<le> 2000" using f(4,5) by (simp add: FSSIZE_def)
  then have n8: "uint (freeblock m) < 8192" unfolding unat_eq_nat_uint by linarith
  from n have s: "sint (freeblock m) = int (unat (freeblock m))" using sint_of_nat32[of "unat (freeblock m)"] by simp
  define B where "B = fold (\<lambda>i b. b(i div 8 := b (i div 8) OR push_bit (i mod 8) 1)) [0..<unat (freeblock m)] zero_block"
  define m' where "m' = wsect 46 B s7"
  have "sector 46 = 46" using sector_of_nat[of 46] by simp
  then have m': "m' = s7\<lparr>mk_img := (mk_img s7)(46 := B)\<rparr>" using fb by (simp add: m'_def wsect_def FSSIZE_def)
  have "mk_balloc (sint (freeblock s7)) s7 = Ok m'"
    using n8 by (simp add: mk_balloc_def fb s mk_sb_fields mk_layout m'_def B_def)
  then have "bindR (rinode ROOTINO m) (\<lambda>d.
     bindR (winode ROOTINO (d\<lparr>dsize := xint ((xint (dsize d) div of_nat BSIZE + 1) * of_nat BSIZE)\<rparr>) m) (\<lambda>s7.
       mk_balloc (sint (freeblock s7)) s7)) = Ok m'"
    using w(1) by (simp add: rinode_eq[OF r(2) f(1)] e)
  moreover have "finished m m'"
    unfolding finished_def
  proof (intro conjI allI impI)
    fix i :: u32 assume "unat i < NINODES"
    then have "unat i div 16 + 33 \<noteq> 46" by (simp add: NINODES_def)
    then have "mk_inode m' i = mk_inode s7 i" by (simp add: mk_inode_def m')
    then show "mk_inode m' i = (if i = ROOTINO then (mk_inode m i)\<lparr>dsize := of_nat (root_size (unat (dsize (mk_inode m i))))\<rparr> else mk_inode m i)"
      by (simp add: w(3))
  next
    have "mk_img m' 46 = B" by (simp add: m')
    then show "bit_clear (mk_img m' 46) k \<longleftrightarrow> unat (freeblock m) \<le> k" for k unfolding B_def by (simp only: bitmap_fold)
  qed (use w(4) fb in \<open>auto simp: m'\<close>)
  ultimately show ?thesis by blast
qed

section \<open>The kernel on the image\<close>

text \<open>A state of the kernel with the image as its disk and the super block read from it, and a slot of the
  inode table that holds an inode as it is on the disk.\<close>

definition mounted :: "mk_state \<Rightarrow> 'z fs_state_scheme \<Rightarrow> bool" where
  "mounted m s \<longleftrightarrow> sb s = sb_of_block (mk_img m 1) \<and> (\<forall>b < FSSIZE. bview s b = mk_img m b)"

definition loaded :: "nat \<Rightarrow> u32 \<Rightarrow> 'z fs_state_scheme \<Rightarrow> bool" where
  "loaded ip i s \<longleftrightarrow> inum (inodes s ip) = i \<and> icopy (inodes s ip) = disk_inode i s"

lemma sb_of_put:
  "sb_of_block (put32s b 0 [magic x, nblocks_total x, nblocks x, ninodes x, nlog x, logstart x, inodestart x, bmapstart x]) = x"
proof -
  let ?ws = "[magic x, nblocks_total x, nblocks x, ninodes x, nlog x, logstart x, inodestart x, bmapstart x]"
  have g: "get32 (put32s b 0 ?ws) (4 * k) = ?ws ! k" if "k < 8" for k using get32_put32s[of k ?ws b 0] that by simp
  show ?thesis
    using g[of 0] g[of 1] g[of 2] g[of 3] g[of 4] g[of 5] g[of 6] g[of 7]
    by (simp add: sb_of_block_def del: put32s.simps)
qed

lemma mounted_facts:
  assumes F: "fs_image m cs" and fin: "finished m m'" and M: "mounted m' s"
  shows "sb s = mk_sb" "fs_size s = FSSIZE" "b < FSSIZE \<Longrightarrow> BBLOCK b s = 46" "IBLOCK i s = unat i div 16 + 33"
    "b < FSSIZE \<Longrightarrow> block_used b s \<longleftrightarrow> b < unat (freeblock m)" "bitmap_block b s \<longleftrightarrow> b = 46" "bitmap_ok s"
    "b < FSSIZE \<Longrightarrow> 47 \<le> b \<Longrightarrow> bview s b = mk_img m b" "unat i < NINODES \<Longrightarrow> disk_inode i s = mk_inode m' i"
proof -
  have fb: "47 \<le> unat (freeblock m)" using fs_imageD(4)[OF F] by (simp add: image_blocks_def mk_layout)
  have "mk_img m' 1 = mk_img m 1" using fin by (simp add: finished_def)
  then show sb: "sb s = mk_sb" using F M sb_of_put[of zero_block mk_sb] by (simp add: mounted_def fs_image_def del: put32s.simps)
  show size: "fs_size s = FSSIZE" by (simp add: fs_size_def sb mk_sb_fields FSSIZE_def)
  show B: "BBLOCK b s = 46" if "b < FSSIZE" for b using that by (simp add: BBLOCK_def sb mk_sb_fields mk_layout FSSIZE_def)
  show I: "IBLOCK i s = unat i div 16 + 33" for i by (simp add: IBLOCK_def sb mk_sb_fields mk_layout)
  have v: "bview s b = mk_img m' b" if "b < FSSIZE" for b using that M by (simp add: mounted_def)
  show u: "block_used b s \<longleftrightarrow> b < unat (freeblock m)" if "b < FSSIZE" for b
    using that fin v[of 46] by (simp add: block_used_def B finished_def not_le mk_layout FSSIZE_def)
  show bb: "bitmap_block b s \<longleftrightarrow> b = 46" for b
  proof -
    have "0 < FSSIZE" by (simp add: FSSIZE_def)
    then show ?thesis using B unfolding bitmap_block_def size by metis
  qed
  show "bitmap_ok s" using u fb by (auto simp: bitmap_ok_def size bb FSSIZE_def)
  show "bview s b = mk_img m b" if "b < FSSIZE" "47 \<le> b" for b using that v fin by (simp add: finished_def)
  show "disk_inode i s = mk_inode m' i" if "unat i < NINODES" for i
  proof -
    have "unat i div 16 + 33 < FSSIZE" using that by (simp add: NINODES_def FSSIZE_def)
    then show ?thesis by (simp add: disk_inode_def I v mk_inode_def)
  qed
qed

text \<open>The inode with its slots as the kernel sees them.\<close>

lemma loaded_slots:
  assumes F: "fs_image m cs" and fin: "finished m m'" and M: "mounted m' s" and i: "i < length cs" and L: "loaded ip (ino i) s"
  shows "daddrs (icopy (inodes s ip)) = daddrs (mk_inode m (ino i))" "dtype (icopy (inodes s ip)) = (if i = 0 then T_DIR else T_FILE)"
    "unat (dsize (icopy (inodes s ip))) = (if i = 0 then root_size (length (cs ! i)) else length (cs ! i))"
    "k \<le> MAXFILE \<Longrightarrow> slot_addr ip k s = dslot (mk_img m) (mk_inode m (ino i)) k"
proof -
  note f = fs_imageD[OF F] and k = mounted_facts[OF F fin M]
  let ?d = "mk_inode m (ino i)"
  have ui: "unat (ino i) < NINODES" "ino i = ROOTINO \<longleftrightarrow> i = 0"
    using i f(2) ino_inj[of i 0] by (simp_all add: ino_def[of 0] ROOTINO_def NINODES_def)
  have e: "icopy (inodes s ip) = (if i = 0 then ?d\<lparr>dsize := of_nat (root_size (unat (dsize ?d)))\<rparr> else ?d)"
    using L k(9)[OF ui(1)] fin ui by (simp add: loaded_def finished_def)
  note h = f(7)[OF i] and id = inode_fields[OF f(7)[OF i]]
  have l: "length (cs ! i) \<le> MAXFILE * BSIZE" using h by (simp add: inode_holds_def Let_def)
  have "length (cs ! i) div 1024 \<le> 268" using l unfolding MAXFILE_bytes by simp
  then have "root_size (length (cs ! i)) < 2 ^ 32" by (simp add: root_size_def BSIZE_def)
  then show "unat (dsize (icopy (inodes s ip))) = (if i = 0 then root_size (length (cs ! i)) else length (cs ! i))"
    using id(4) by (auto simp: e unat_of_nat take_bit_nat_eq_self)
  show a: "daddrs (icopy (inodes s ip)) = daddrs ?d" by (simp add: e)
  show "dtype (icopy (inodes s ip)) = (if i = 0 then T_DIR else T_FILE)" using id(2) by (auto simp: e)
  show "slot_addr ip k s = dslot (mk_img m) ?d k"
  proof (cases "daddrs ?d NDIRECT = 0")
    case False
    then have "unat (daddrs ?d NDIRECT) \<in> downs (mk_img m) ?d" using downsI[of MAXFILE "mk_img m" ?d] by (simp add: dslot_def)
    then have "unat (daddrs ?d NDIRECT) \<in> {47..<FSSIZE}" using downs_range[OF F i] f(4,5) by (auto simp: mk_layout)
    then show ?thesis using k(8) by (simp add: slot_addr_def file_addr_def a dslot_def)
  qed (simp add: slot_addr_def file_addr_def a dslot_def)
qed

lemma loaded_file:
  assumes F: "fs_image m cs" and fin: "finished m m'" and M: "mounted m' s" and i: "i < length cs" and L: "loaded ip (ino i) s"
  shows "file_ok ip s" "b < MAXFILE * BSIZE \<Longrightarrow> file_byte ip b s = (if b < length (cs ! i) then cs ! i ! b else 0)"
    "k < MAXFILE \<Longrightarrow> file_addr ip k s \<noteq> 0 \<longleftrightarrow> k * BSIZE < length (cs ! i)"
proof -
  note f = fs_imageD[OF F] and k = mounted_facts[OF F fin M] and l = loaded_slots[OF F fin M i L]
  let ?d = "mk_inode m (ino i)"
  have h: "alloc_file (mk_img m) ?d (cs ! i) (slots (length (cs ! i)))" using f(7)[OF i] by (simp add: inode_holds_def Let_def)
  note a = alloc_fileD[OF h]
  have "i < 199" using i f(2) by (simp add: NINODES_def)
  then have ib: "IBLOCK (inum (inodes s ip)) s < 46" using L by (simp add: loaded_def k(4) NINODES_def)
  have fb: "47 \<le> unat (freeblock m)" "unat (freeblock m) \<le> FSSIZE" using f(4,5) by (simp_all add: image_blocks_def mk_layout)
  have r: "unat (slot_addr ip j s) \<in> {47..<unat (freeblock m)}" if "j \<le> MAXFILE" "slot_addr ip j s \<noteq> 0" for j
  proof -
    have "unat (slot_addr ip j s) \<in> downs (mk_img m) ?d" using that downsI[of j "mk_img m" ?d] l(4)[of j] by simp
    then show ?thesis using downs_range[OF F i] by (auto simp: mk_layout)
  qed
  have data: "data_block ip (unat (slot_addr ip j s)) s" if "j \<le> MAXFILE" "slot_addr ip j s \<noteq> 0" for j
    using r[OF that] fb ib by (simp add: data_block_def k(2,5,6))
  have inj: "inj_on (\<lambda>j. slot_addr ip j s) {j. j \<le> MAXFILE \<and> slot_addr ip j s \<noteq> 0}"
  proof (rule inj_onI)
    fix x y assume xy: "x \<in> {j. j \<le> MAXFILE \<and> slot_addr ip j s \<noteq> 0}" "y \<in> {j. j \<le> MAXFILE \<and> slot_addr ip j s \<noteq> 0}" "slot_addr ip x s = slot_addr ip y s"
    then show "x = y" using a(2)[of x] a(2)[of y] a(3) l(4)[of x] l(4)[of y] by (auto dest: inj_onD)
  qed
  have "dinode_ok (icopy (inodes s ip))" using a(1) by (simp add: dinode_ok_def l(1))
  then show "file_ok ip s" using k(5,6,7) ib fb data inj by (simp add: file_ok_def k(2))
  have fa: "file_addr ip j s = dslot (mk_img m) ?d j" if "j < MAXFILE" for j using l(4)[of j] that by (simp add: slot_addr_def)
  show "file_byte ip b s = (if b < length (cs ! i) then cs ! i ! b else 0)" if b: "b < MAXFILE * BSIZE"
  proof -
    have j: "b div BSIZE < MAXFILE" by (rule offset_block[OF b])
    have "file_byte ip b s = dbyte (mk_img m) ?d b"
    proof (cases "dslot (mk_img m) ?d (b div BSIZE) = 0")
      case False
      then have "unat (dslot (mk_img m) ?d (b div BSIZE)) \<in> {47..<unat (freeblock m)}"
        using r[of "b div BSIZE"] l(4)[of "b div BSIZE"] j by simp
      then show ?thesis using False k(8) fb by (simp add: file_byte_def dbyte_def fa[OF j])
    qed (simp add: file_byte_def dbyte_def fa[OF j])
    then show ?thesis using a(4)[OF b] by simp
  qed
  show "file_addr ip k s \<noteq> 0 \<longleftrightarrow> k * BSIZE < length (cs ! i)" if "k < MAXFILE" for k
    using fa[OF that] a(2)[of k] that by (auto simp: slots_def)
qed

section \<open>The root directory\<close>

lemma mk_dirent_bytes: "mk_dirent i nm = dirent_bytes (replicate 16 0) nm i"
proof -
  have "cbytes (de_name (replicate 16 0)) = (\<lambda>_. 0)" by (simp add: fun_eq_iff cbytes_cases de_name_def)
  moreover have "le_bytes 2 (ucast (ucast i :: u16)) = le_bytes 2 (ucast i :: u64)"
    by (auto simp: numeral_2_eq_2 bit_eq_iff bit_simps)
  ultimately show ?thesis by (simp add: mk_dirent_def dirent_bytes_def Let_def)
qed

lemma dir_data_nth:
  "k < length es \<Longrightarrow> j < 16 \<Longrightarrow> dir_data es ! (16 * k + j) = mk_dirent (fst (es ! k)) (snd (es ! k)) ! j"
proof (induction es arbitrary: k)
  case (Cons e es)
  then show ?case by (cases k) (auto simp: dir_data_def nth_append split: prod.splits)
qed simp

lemma find_map_of:
  "map_option (\<lambda>k. g (xs ! k)) (List.find (\<lambda>k. f (xs ! k) = nm) [0..<length xs]) = map_of (map (\<lambda>x. (f x, g x)) xs) nm"
proof (induction xs)
  case (Cons x xs)
  have u: "[0..<length (x # xs)] = 0 # map Suc [0..<length xs]" by (simp add: map_Suc_upt upt_conv_Cons del: upt_Suc)
  have "List.find P (map Suc ks) = map_option Suc (List.find (\<lambda>k. P (Suc k)) ks)" for P ks by (induction ks) auto
  then show ?case using Cons unfolding u by (simp add: option.map_comp o_def)
qed simp

lemma root_dir:
  assumes F: "fs_image m (dir_data es # cs)" and fin: "finished m m'" and M: "mounted m' s" and L: "loaded ip ROOTINO s"
    and nz: "\<forall>(i, nm) \<in> set es. (ucast i :: u16) \<noteq> 0" and n: "length es \<le> NINODES + 1"
  shows "dir_map ip s = map_of (map (\<lambda>(i, nm). (name_of nm, ucast i)) es)"
    "dir_ok ip s \<longleftrightarrow> length es mod 64 \<noteq> 0" "dir_len ip s = 64 * (length es div 64 + 1)"
proof -
  let ?n = "length es"
  have L0: "loaded ip (ino 0) s" using L by (simp add: ino_def ROOTINO_def)
  note l = loaded_slots[OF F fin M _ L0] and g = loaded_file[OF F fin M _ L0]
  have sz: "unat (dsize (icopy (inodes s ip))) = root_size (16 * ?n)" using l(3) by simp
  have rs: "root_size (16 * ?n) = 16 * (64 * (?n div 64 + 1))"
    using div_mult2_eq[of "16 * ?n" 16 64] by (simp add: root_size_def BSIZE_def)
  show dl: "dir_len ip s = 64 * (?n div 64 + 1)" unfolding dir_len_def sz rs by simp
  have small: "16 * dir_len ip s \<le> MAXFILE * BSIZE" using n unfolding dl MAXFILE_bytes NINODES_def by simp
  have nl: "?n \<le> dir_len ip s" unfolding dl by simp
  have b: "file_byte ip i s = (if i < 16 * ?n then dir_data es ! i else 0)" if "i < 16 * dir_len ip s" for i
    using g(2)[of i] that small by simp
  have eb: "entry_bytes ip k s = mk_dirent (fst (es ! k)) (snd (es ! k))" if k: "k < ?n" for k
  proof (rule nth_equalityI)
    fix j assume "j < length (entry_bytes ip k s)"
    then have j: "j < 16" by (simp add: entry_bytes_def)
    then have "16 * k + j < 16 * ?n" "16 * k + j < 16 * dir_len ip s" using k nl by linarith+
    then show "entry_bytes ip k s ! j = mk_dirent (fst (es ! k)) (snd (es ! k)) ! j"
      using j b[of "16 * k + j"] dir_data_nth[OF k j] by (simp add: entry_bytes_def)
  qed (simp add: entry_bytes_def)
  have en: "entry_inum ip k s = ucast (fst (es ! k))" "entry_name ip k s = name_of (snd (es ! k))" if "k < ?n" for k
    unfolding entry_inum_def entry_name_def eb[OF that] mk_dirent_bytes by (simp_all only: dirent_bytes_parts)
  have un: "entry_inum ip k s = 0" if k: "?n \<le> k" "k < dir_len ip s" for k
  proof -
    have "entry_bytes ip k s = map (\<lambda>_. 0) [16 * k..<16 * k + 16]"
      unfolding entry_bytes_def by (rule map_cong[OF refl]) (use k b in auto)
    also have "\<dots> = replicate 16 0" unfolding map_replicate_const by simp
    finally show ?thesis unfolding entry_inum_def de_inum_def by (simp only: take_replicate le_word_zeros) simp
  qed
  have nz': "entry_inum ip k s \<noteq> 0" if "k < ?n" for k using nz nth_mem[OF that] en(1)[OF that] by fastforce
  have f: "find_entry ip nm s = List.find (\<lambda>k. name_of (snd (es ! k)) = nm) [0..<?n]" for nm
    unfolding find_entry_def using nl en(2) nz' un by (intro find_upt_extend) auto
  show "dir_map ip s = map_of (map (\<lambda>(i, nm). (name_of nm, ucast i)) es)"
  proof (rule ext)
    fix nm
    have c: "(\<lambda>x. (name_of (snd x), ucast (fst x :: u32) :: u16)) = (\<lambda>(i, nm). (name_of nm, ucast i))" by auto
    have "dir_map ip s nm = map_option (\<lambda>k. ucast (fst (es ! k))) (List.find (\<lambda>k. name_of (snd (es ! k)) = nm) [0..<?n])"
      unfolding dir_map_def f by (rule option.map_cong[OF refl]) (auto simp: find_Some_iff en)
    also have "\<dots> = map_of (map (\<lambda>x. (name_of (snd x), ucast (fst x))) es) nm"
      by (rule find_map_of[where f="\<lambda>x. name_of (snd x)" and g="\<lambda>x. ucast (fst x)"])
    finally show "dir_map ip s nm = map_of (map (\<lambda>(i, nm). (name_of nm, ucast i)) es) nm" unfolding c .
  qed
  have lt: "bn < MAXFILE \<and> (file_addr ip bn s \<noteq> 0 \<longleftrightarrow> bn * BSIZE < 16 * ?n)" if "bn * BSIZE < 16 * dir_len ip s" for bn
  proof -
    have "bn < MAXFILE" using that small by (metis mult_less_cancel2 order_less_le_trans)
    then show ?thesis using g(3)[of bn] by simp
  qed
  have in_dir: "bn * BSIZE < 16 * dir_len ip s \<longleftrightarrow> bn \<le> ?n div 64" "bn * BSIZE < 16 * ?n \<longleftrightarrow> 64 * bn < ?n" for bn
    by (auto simp: BSIZE_def dl)
  have "(\<forall>bn. bn * BSIZE < 16 * dir_len ip s \<longrightarrow> file_addr ip bn s \<noteq> 0) \<longleftrightarrow> (\<forall>bn \<le> ?n div 64. 64 * bn < ?n)"
    using lt in_dir by metis
  also have "\<dots> \<longleftrightarrow> ?n mod 64 \<noteq> 0"
  proof
    assume "\<forall>bn \<le> ?n div 64. 64 * bn < ?n"
    then have "64 * (?n div 64) < ?n" by simp
    then show "?n mod 64 \<noteq> 0" using mult_div_mod_eq[of 64 ?n] by linarith
  next
    assume nz: "?n mod 64 \<noteq> 0"
    show "\<forall>bn \<le> ?n div 64. 64 * bn < ?n"
    proof (intro allI impI)
      fix bn assume "bn \<le> ?n div 64"
      then show "64 * bn < ?n" using nz mult_div_mod_eq[of 64 ?n] by linarith
    qed
  qed
  finally have "(\<forall>bn. bn * BSIZE < 16 * dir_len ip s \<longrightarrow> file_addr ip bn s \<noteq> 0) \<longleftrightarrow> ?n mod 64 \<noteq> 0" .
  moreover have "unat (dsize (icopy (inodes s ip))) = 16 * dir_len ip s" unfolding sz rs dl by simp
  ultimately show "dir_ok ip s \<longleftrightarrow> ?n mod 64 \<noteq> 0" using l(2) small by (simp add: dir_ok_def)
qed

section \<open>Booting from the image\<close>

lemma head_zero: "head_block zero_block 0 blk = zero_block"
proof -
  have "put32 zero_block 0 0 = zero_block"
    unfolding put32_def bput_bytes_def zero_block_def by (auto simp: fun_eq_iff numeral_eq_Suc less_Suc_eq)
  then show ?thesis by (simp add: head_block_def)
qed

lemma ireclaim_none:
  assumes "\<And>i. 0 < i \<Longrightarrow> i < NINODES \<Longrightarrow> dnlink (disk_inode (of_nat i) s) \<noteq> 0 \<or> dtype (disk_inode (of_nat i) s) = 0" "ninodes (sb s) = of_nat NINODES"
  shows "ireclaim me dev s = Ok s"
proof -
  have "iterR (ireclaim_one me dev) xs s = Ok s" if "set xs \<subseteq> {1..<NINODES}" for xs
    using that assms(1) by (induction xs) (auto simp: ireclaim_one_def disk_inode_def bread_def Let_def)
  then show ?thesis by (simp add: ireclaim_def assms(2) unat_of_nat NINODES_def)
qed

lemma boot_ok:
  assumes F: "fs_image m cs" and fin: "finished m m'" and D: "\<forall>b < FSSIZE. bview s b = mk_img m' b"
  shows "\<exists>s'. fsinit me dev s = Ok s' \<and> mounted m' s'"
proof -
  define s1 where "s1 = s\<lparr>sb := readsb s, log_start := 2\<rparr>"
  have "mounted m' (s\<lparr>sb := readsb s\<rparr>)" using D by (simp add: mounted_def readsb_def bread_def FSSIZE_def)
  note k = mounted_facts[OF F fin this]
  have sb: "readsb s = mk_sb" using k(1) by simp
  have z: "bview s 2 = zero_block" using D fin fs_imageD(6)[OF F, of 2] by (simp add: finished_def FSSIZE_def)
  have "read_head s1 = s1\<lparr>lh_n := 0\<rparr>" by (simp add: read_head_def s1_def bread_def z Let_def)
  then have rec: "recover_from_log s1 = s1\<lparr>lh_n := 0, bview := (bview s)(2 := zero_block), disk := (disk s)(2 := zero_block), dwrites := dwrites s @ [(2, zero_block)]\<rparr>"
    by (simp add: recover_from_log_def install_trans_def write_head_def bwrite_def bmodify_def bread_def s1_def z head_zero Let_def)
  define s2 where "s2 = recover_from_log s1"
  have M: "mounted m' s2" using D k(1) z unfolding s2_def rec by (auto simp: mounted_def s1_def readsb_def bread_def FSSIZE_def)
  note k2 = mounted_facts[OF F fin M]
  have "dnlink (disk_inode (of_nat i) s2) \<noteq> 0 \<or> dtype (disk_inode (of_nat i) s2) = 0" if i: "0 < i" "i < NINODES" for i
  proof -
    obtain j where j: "i = j + 1" using i by (metis Suc_eq_plus1 gr0_implies_Suc)
    have o: "of_nat i = ino j" "unat (ino j) < NINODES" "j + 1 < NINODES"
      using i j ino_unat[of j] by (simp_all only: ino_def[of j])
    have d: "dnlink (disk_inode (ino j) s2) = dnlink (mk_inode m (ino j))" "dtype (disk_inode (ino j) s2) = dtype (mk_inode m (ino j))"
      using k2(9)[OF o(2)] fin o(2) by (auto simp: finished_def)
    show ?thesis
    proof (cases "j < length cs")
      case True
      then show ?thesis using inode_fields(3)[OF fs_imageD(7)[OF F True]] by (simp only: o d) simp
    next
      case False
      then have "mk_inode m (ino j) = zero_dinode" using o(3) by (intro fs_imageD(9)[OF F]) auto
      then show ?thesis by (simp only: o d) (simp add: zero_dinode_def)
    qed
  qed
  moreover have "ninodes (sb s2) = of_nat NINODES" by (simp add: k2(1) mk_sb_fields NINODES_def)
  ultimately have "ireclaim me dev s2 = Ok s2" by (rule ireclaim_none)
  moreover have "initlog (unat (logstart mk_sb)) (s\<lparr>sb := readsb s\<rparr>) = Ok s2"
    by (simp add: initlog_def mk_sb_fields s2_def s1_def LOGBLOCKS_def MAXOPBLOCKS_def BSIZE_def)
  ultimately have "fsinit me dev s = Ok s2" by (simp add: fsinit_def sb mk_sb_fields Let_def)
  then show ?thesis using M by blast
qed

section \<open>The whole program\<close>

definition root_entries :: "u8 list list \<Rightarrow> (u32 \<times> u8 list) list" where
  "root_entries files = (ROOTINO, [46]) # (ROOTINO, [46, 46]) # file_entries 1 files"

definition image_contents :: "(u8 list \<Rightarrow> u8 list list option) \<Rightarrow> u8 list list \<Rightarrow> u8 list list" where
  "image_contents host files = dir_data (root_entries files) # map (host_data host) files"

lemma file_entries_nz: "k + length fs < NINODES \<Longrightarrow> \<forall>(i, nm) \<in> set (file_entries k fs). (ucast i :: u16) \<noteq> 0"
proof (induction k fs rule: file_entries.induct)
  case (2 k f fs)
  have "k < NINODES" using 2 by simp
  then have "unat (ucast (ino k) :: u16) = k + 1" by (simp add: unsigned_ucast_eq take_bit_nat_eq_self NINODES_def)
  then have "(ucast (ino k) :: u16) \<noteq> 0" by (metis Suc_eq_plus1 nat.distinct(1) unat_0)
  then show ?case using 2 by simp
qed simp

lemma mkfs_image:
  assumes h: "\<forall>f \<in> set files. host_ok host f" and n: "length files + 1 < NINODES"
    and room: "image_blocks (image_contents host files) \<le> FSSIZE"
  shows "\<exists>m m'. mkfs host (img # files) = Ok m' \<and> fs_image m (image_contents host files) \<and> finished m m'"
proof -
  let ?es = "[(ROOTINO, [46]), (ROOTINO, [46, 46])] :: (u32 \<times> u8 list) list"
  have es: "?es @ file_entries (length ([] :: u8 list list) + 1) files = root_entries files" by (simp add: root_entries_def)
  define s2 where "s2 = wsect 1 (put32s zero_block 0 [magic mk_sb, nblocks_total mk_sb, nblocks mk_sb, ninodes mk_sb,
       nlog mk_sb, logstart mk_sb, inodestart mk_sb, bmapstart mk_sb]) (fold (\<lambda>i. wsect (of_nat i) zero_block) [0..<FSSIZE]
         \<lparr>mk_img = (\<lambda>_. zero_block), mk_blocks = 0, freeinode = 1, freeblock = of_nat mk_nmeta\<rparr>)"
  have "fs_image s2 []" unfolding s2_def by (rule start_ok)
  then obtain s3 where 3: "mk_ialloc T_DIR s2 = Ok (ROOTINO, s3)" "fs_image s3 [[]]"
    using mk_ialloc_ok[of s2 "[]" T_DIR] by (auto simp: NINODES_def ino_def ROOTINO_def)
  have r0: "ino 0 = ROOTINO" by (simp add: ino_def ROOTINO_def)
  have grow: "image_blocks [c] \<le> FSSIZE" if "length c \<le> length (dir_data (root_entries files))" for c
    using image_blocks_grow[OF that, of "[]" "map (host_data host) files"] room by (simp add: image_contents_def)
  have "image_blocks [mk_dirent ROOTINO [46]] \<le> FSSIZE" by (rule grow) (simp add: root_entries_def)
  then obtain s4 where 4: "iappend ROOTINO (mk_dirent ROOTINO [46]) s3 = Ok s4" "fs_image s4 [mk_dirent ROOTINO [46]]"
    using iappend_ok[OF 3(2), of 0 "mk_dirent ROOTINO [46]"] by (auto simp: r0 MAXFILE_bytes)
  have "image_blocks [mk_dirent ROOTINO [46] @ mk_dirent ROOTINO [46, 46]] \<le> FSSIZE" by (rule grow) (simp add: root_entries_def)
  then obtain s5 where 5: "iappend ROOTINO (mk_dirent ROOTINO [46, 46]) s4 = Ok s5" "fs_image s5 [dir_data ?es]"
    using iappend_ok[OF 4(2), of 0 "mk_dirent ROOTINO [46, 46]"] by (auto simp: r0 MAXFILE_bytes dir_data_def)
  have "image_blocks (dir_data (?es @ file_entries (length ([] :: u8 list list) + 1) files) # [] @ map (host_data host) files) \<le> FSSIZE"
    using room unfolding es image_contents_def by simp
  then obtain s6 where 6: "iterR (mkfs_file host) files s5 = Ok s6" "fs_image s6 (image_contents host files)"
    using files_ok[OF 5(2) h] n unfolding es image_contents_def by auto
  have "length (dir_data (root_entries files)) < MAXFILE * BSIZE" using n by (simp add: root_entries_def MAXFILE_bytes NINODES_def)
  then obtain m' where "bindR (rinode ROOTINO s6) (\<lambda>d.
     bindR (winode ROOTINO (d\<lparr>dsize := xint ((xint (dsize d) div of_nat BSIZE + 1) * of_nat BSIZE)\<rparr>) s6) (\<lambda>s7.
       mk_balloc (sint (freeblock s7)) s7)) = Ok m'" "finished s6 m'"
    using finish_ok[OF 6(2)] by (auto simp: image_contents_def)
  then have "mkfs host (img # files) = Ok m'"
    using 3(1) 4(1) 5(1) 6(1) unfolding mkfs_def Let_def s2_def by simp
  then show ?thesis using 6(2) \<open>finished s6 m'\<close> by blast
qed

text \<open>The file of a loaded inode: regular, well formed, with these contents.\<close>

definition file_is :: "nat \<Rightarrow> u8 list \<Rightarrow> 'z fs_state_scheme \<Rightarrow> bool" where
  "file_is ip c s \<longleftrightarrow> file_ok ip s \<and> dtype (icopy (inodes s ip)) = T_FILE \<and> unat (dsize (icopy (inodes s ip))) = length c
     \<and> (\<forall>i < length c. file_byte ip i s = c ! i)"

text \<open>C8. mkfs and the kernel agree. For files of the host with legal names, not too long and not too many
  for the 2000 blocks, mkfs ends with an image from which the kernel boots: fsinit accepts the super block,
  finds an empty log and nothing to reclaim. In every state with this image the bitmap is well formed, with
  exactly the blocks handed out in use; inode 1 is the root directory and, as a map, holds ``.'', ``..''
  and the names given, each without \<open>user/\<close> and a leading underscore, the k-th with inode k + 2; it has no
  holes unless its entries fill whole blocks; and inode k + 2 is a well-formed regular file with the
  contents of the k-th file of the host.\<close>

theorem mkfs_correct:
  assumes "\<forall>f \<in> set files. host_ok host f" "length files + 1 < NINODES" "image_blocks (image_contents host files) \<le> FSSIZE"
  shows "\<exists>m. mkfs host (img # files) = Ok m
    \<and> (\<forall>me (s :: 'z fs_state_scheme). (\<forall>b < FSSIZE. bview s b = mk_img m b) \<longrightarrow> (\<exists>s'. fsinit me FS_DEV s = Ok s' \<and> mounted m s'))
    \<and> (\<forall>t :: 'z fs_state_scheme. mounted m t \<longrightarrow> bitmap_ok t
        \<and> (\<forall>b < FSSIZE. block_used b t \<longleftrightarrow> b < image_blocks (image_contents host files))
        \<and> (\<forall>ip. loaded ip ROOTINO t \<longrightarrow> file_ok ip t
             \<and> dir_map ip t = map_of (map (\<lambda>(i, nm). (name_of nm, ucast i)) (root_entries files))
             \<and> (dir_ok ip t \<longleftrightarrow> (length files + 2) mod 64 \<noteq> 0))
        \<and> (\<forall>ip k. k < length files \<and> loaded ip (of_nat (k + 2)) t \<longrightarrow> file_is ip (host_data host (files ! k)) t))"
proof -
  obtain m m' where m: "mkfs host (img # files) = Ok m'" and F: "fs_image m (image_contents host files)" and fin: "finished m m'"
    using mkfs_image[OF assms] by blast
  have nz: "\<forall>(i, nm) \<in> set (root_entries files). (ucast i :: u16) \<noteq> 0"
    using file_entries_nz[of 1 files] assms(2) by (auto simp: root_entries_def ROOTINO_def)
  have len: "length (root_entries files) = length files + 2" "length files + 2 \<le> NINODES + 1" using assms(2) by (simp_all add: root_entries_def)
  have r0: "ino 0 = ROOTINO" by (simp add: ino_def ROOTINO_def)
  show ?thesis
  proof (intro exI[of _ m'] conjI allI impI)
    fix t :: "'z fs_state_scheme" assume M: "mounted m' t"
    note k = mounted_facts[OF F fin M]
    show "bitmap_ok t" by (rule k(7))
    show "block_used b t \<longleftrightarrow> b < image_blocks (image_contents host files)" if "b < FSSIZE" for b
      using k(5)[OF that] fs_imageD(4)[OF F] by simp
    fix ip
    show "dir_map ip t = map_of (map (\<lambda>(i, nm). (name_of nm, ucast i)) (root_entries files))"
      "dir_ok ip t \<longleftrightarrow> (length files + 2) mod 64 \<noteq> 0" "file_ok ip t" if "loaded ip ROOTINO t"
      using root_dir[OF F[unfolded image_contents_def] fin M that nz] loaded_file(1)[OF F fin M, of 0 ip] that len r0
      by (simp_all add: image_contents_def)
    fix j assume j: "j < length files \<and> loaded ip (of_nat (j + 2)) t"
    then have L: "loaded ip (ino (j + 1)) t" and i: "j + 1 < length (image_contents host files)"
      by (simp_all add: ino_def image_contents_def)
    have c: "image_contents host files ! (j + 1) = host_data host (files ! j)" using j by (simp add: image_contents_def)
    have "length (host_data host (files ! j)) \<le> MAXFILE * BSIZE" using assms(1) j by (simp add: host_ok_def)
    then show "file_is ip (host_data host (files ! j)) t"
      using loaded_slots(2,3)[OF F fin M i L] loaded_file(1,2)[OF F fin M i L] unfolding c by (simp add: file_is_def)
  qed (use m boot_ok[OF F fin] in auto)
qed

text \<open>At work: \<open>user/_cat\<close>, read in two pieces, and \<open>README\<close>.\<close>

definition demo_host :: "u8 list \<Rightarrow> u8 list list option" where
  "demo_host f = (if f = [117, 115, 101, 114, 47, 95, 99, 97, 116] then Some [[1, 2], [3], []]
     else if f = [82, 69, 65, 68, 77, 69] then Some [[7]] else None)"

definition demo_files :: "u8 list list" where
  "demo_files = [[117, 115, 101, 114, 47, 95, 99, 97, 116], [82, 69, 65, 68, 77, 69]]"

lemma slots_small: "0 < n \<Longrightarrow> n \<le> BSIZE \<Longrightarrow> slots n = {0}"
  by (auto simp: slots_def NDIRECT_def BSIZE_def)

lemma demo_files_ok:
  "\<forall>f \<in> set demo_files. host_ok demo_host f" "length demo_files = 2" "image_blocks (image_contents demo_host demo_files) = 50"
  "host_data demo_host (demo_files ! 0) = [1, 2, 3]"
proof -
  show "\<forall>f \<in> set demo_files. host_ok demo_host f"
    by (simp add: demo_files_def host_ok_def demo_host_def host_name_def host_data_def strip_user_def strip_underscore_def DIRSIZ_def MAXFILE_bytes)
  have d: "host_data demo_host [117, 115, 101, 114, 47, 95, 99, 97, 116] = [1, 2, 3]" "host_data demo_host [82, 69, 65, 68, 77, 69] = [7]"
    by (simp_all add: host_data_def demo_host_def)
  then show "host_data demo_host (demo_files ! 0) = [1, 2, 3]" by (simp add: demo_files_def)
  show "image_blocks (image_contents demo_host demo_files) = 50"
    by (simp add: image_blocks_def image_contents_def demo_files_def d root_entries_def mk_layout slots_small BSIZE_def)
qed (simp add: demo_files_def)

theorem mkfs_correct_witness:
  "\<exists>m (t :: fs_state). mkfs demo_host ([] # demo_files) = Ok m \<and> (\<exists>s'. fsinit 0 FS_DEV t = Ok s' \<and> mounted m s')
     \<and> block_used 49 t \<and> \<not> block_used 50 t \<and> dir_ok 0 t \<and> dir_map 0 t [99, 97, 116] = Some 2 \<and> dir_map 0 t [46, 46] = Some 1
     \<and> file_is 1 [1, 2, 3] t"
proof -
  have r: "image_blocks (image_contents demo_host demo_files) \<le> FSSIZE" by (simp add: demo_files_ok FSSIZE_def)
  obtain m where m: "mkfs demo_host ([] # demo_files) = Ok m"
    "\<forall>me (s :: fs_state). (\<forall>b < FSSIZE. bview s b = mk_img m b) \<longrightarrow> (\<exists>s'. fsinit me FS_DEV s = Ok s' \<and> mounted m s')"
    "\<forall>t :: fs_state. mounted m t \<longrightarrow> bitmap_ok t \<and> (\<forall>b < FSSIZE. block_used b t \<longleftrightarrow> b < image_blocks (image_contents demo_host demo_files))
        \<and> (\<forall>ip. loaded ip ROOTINO t \<longrightarrow> file_ok ip t
             \<and> dir_map ip t = map_of (map (\<lambda>(i, nm). (name_of nm, ucast i)) (root_entries demo_files))
             \<and> (dir_ok ip t \<longleftrightarrow> (length demo_files + 2) mod 64 \<noteq> 0))
        \<and> (\<forall>ip k. k < length demo_files \<and> loaded ip (of_nat (k + 2)) t \<longrightarrow> file_is ip (host_data demo_host (demo_files ! k)) t)"
    using mkfs_correct[OF demo_files_ok(1) _ r, of "[]"] demo_files_ok(2) by (auto simp: NINODES_def)
  let ?s = "(undefined :: fs_state)\<lparr>bview := mk_img m, sb := sb_of_block (mk_img m 1)\<rparr>"
  let ?i = "\<lambda>k. if k = 0 then ROOTINO else 2"
  define t where "t = ?s\<lparr>inodes := (\<lambda>k. (undefined :: inode)\<lparr>inum := ?i k, icopy := disk_inode (?i k) ?s\<rparr>)\<rparr>"
  have M: "mounted m t" by (simp add: mounted_def t_def)
  have L: "loaded 0 ROOTINO t" "loaded 1 (of_nat (0 + 2)) t" by (simp_all add: loaded_def t_def disk_inode_def IBLOCK_def)
  note a = m(3)[rule_format, OF M]
  have "dir_map 0 t = map_of (map (\<lambda>(i, nm). (name_of nm, ucast i)) (root_entries demo_files))" "dir_ok 0 t"
    using a L(1) demo_files_ok(2) by auto
  moreover have "map_of (map (\<lambda>(i, nm). (name_of nm, ucast i :: u16)) (root_entries demo_files)) [99, 97, 116] = Some 2"
    "map_of (map (\<lambda>(i, nm). (name_of nm, ucast i :: u16)) (root_entries demo_files)) [46, 46] = Some 1"
    by (simp_all add: root_entries_def demo_files_def host_name_def strip_user_def strip_underscore_def name_of_def DIRSIZ_def ino_def ROOTINO_def)
  moreover have "block_used 49 t" "\<not> block_used 50 t" using a by (simp_all add: demo_files_ok(3) FSSIZE_def)
  moreover have "file_is 1 [1, 2, 3] t" using a L(2) demo_files_ok(2,4) by fastforce
  moreover have "\<exists>s'. fsinit 0 FS_DEV t = Ok s' \<and> mounted m s'" using m(2) by (simp add: t_def)
  ultimately show ?thesis using m(1) by auto
qed

end
