(* ===== verification/Spec2Isabelle.thy ===== *)
theory Spec2Isabelle
  imports CString Kalloc_Base Spinlock Vm_Space Sched_Correct Log_Correct Log_Admit Sleeplock Bio_Correct Pipe_Correct Trap
    Fs_File Fs_Path Virtio_Correct Console_Correct Sbrk_Correct
    User_Files Uprintf Umalloc Sh_Run Fs_Dir Sched_Order Mkfs_Image
begin

text \<open>
  A verification development for the two xv6 systems of this repository: \<open>xv6-riscv-modificado\<close>, the
  modified system, and \<open>xv6-riscv\<close>, the system it was made from.

  The two differ in the page allocator (\<open>kernel/kalloc.c\<close>: the modified one hands free pages out in
  the order in which they were freed, the unmodified one most recently freed first), in the scheduler
  (\<open>kernel/proc.c\<close>: the modified one runs the runnable process that arrived first, by the new field
  \<open>arrival_time\<close>, the unmodified one goes round the table), and in \<open>kernel/trap.c\<close>, where the modified
  system has the calls of \<open>yield\<close> on a timer interrupt commented out. Everything else is the same code
  and is modelled once, from the modified system.

  Parts of the system, and the theories that model them
  =====================================================

  Foundations
    Prelude          C integer types, constants, results (\<open>Ok\<close>, \<open>Panic\<close>, \<open>Hang\<close>), transition systems
                     and their inductive invariants, the contracts of a queue and of a stack
    Mem, CString     byte memory and \<open>kernel/string.c\<close>; the C strings of \<open>kernel/string.c\<close> and
                     \<open>user/ulib.c\<close>
    Ring             ring buffers indexed by counters that wrap
  Memory
    Kalloc           \<open>kernel/kalloc.c\<close> of the modified system; Kalloc_Base, of the unmodified one
    Vm               \<open>kernel/vm.c\<close>; Vm_Map reads the radix tree of a page table as a map from virtual
                     pages to entries; Vm_Frame states what the memory functions leave alone, Vm_Lift
                     that they do not depend on it;
                     Vm_Space reads an address space as a function from user addresses to bytes:
                     \<open>copyout\<close>, \<open>copyin\<close>, \<open>vmfault\<close>, \<open>uvmunmap\<close> of a range, \<open>uvmcopy\<close>
  Processes
    Spinlock         \<open>kernel/spinlock.c\<close> as functions of one CPU and as atomic steps of many
    Proc, Sched      the process table, allocation, \<open>sleep\<close>, \<open>wakeup\<close>, \<open>kkill\<close> and the schedulers of
                     \<open>kernel/proc.c\<close>; Sched_Correct their properties
    Life             \<open>kfork\<close>, \<open>kexit\<close>, \<open>kwait\<close>, \<open>growproc\<close>; Life_Correct the protocol of exit and wait;
                     Sched_Order the order in which processes run that wait, exit and wake their parents
    Exec             \<open>kernel/exec.c\<close>
    Sleeplock        \<open>kernel/sleeplock.c\<close> as functions and as the steps of interleaved processes
  Files
    Block, Bio       disk blocks and \<open>kernel/bio.c\<close>; Bio_Correct proves the contract of the cache
    Log              \<open>kernel/log.c\<close>; Log_Correct commits, crashes and recovery; Log_Admit the space in
                     the log under concurrent operations
    Fs               \<open>kernel/fs.c\<close>; Fs_Blocks the block allocator and the inodes on disk, Fs_File the
                     contents of files, Fs_Dir directories as maps, Fs_Path path names
    File, Sysfile    \<open>kernel/file.c\<close>, \<open>kernel/pipe.c\<close>, \<open>kernel/sysfile.c\<close> and the argument functions of
                     \<open>kernel/syscall.c\<close>; Pipe_Correct the pipe as a queue under interleaving
  Devices and traps
    Printk, Console  \<open>kernel/printk.c\<close>, \<open>kernel/uart.c\<close>, \<open>kernel/console.c\<close>; Console_Correct the line
                     discipline
    Virtio           \<open>kernel/virtio_disk.c\<close>; Virtio_Correct driver and device together
    Trap             \<open>kernel/syscall.c\<close>, \<open>sysproc.c\<close>, \<open>trap.c\<close>, \<open>plic.c\<close>, \<open>start.c\<close>, \<open>main.c\<close>;
                     Sbrk_Correct the bounds of a process's size
  User programs (\<open>user/\<close>)
    User_IO, Grep    the programs that read a file to its end; User_Files runs them on kernel files
    Uprintf, Umalloc \<open>printf.c\<close> and \<open>umalloc.c\<close>
    Sh               the parser of \<open>sh.c\<close>, Sh_Print its round trip, Sh_Run \<open>main\<close> and \<open>runcmd\<close> as trees
                     of system calls
  The host
    Mkfs             \<open>mkfs/mkfs.c\<close>, from the files of the host to the image; Mkfs_Correct,
                     appending to a file; Mkfs_Image, the image and the kernel that boots from it

  A system call reaches Trap (\<open>usertrap\<close>, \<open>syscall\<close>), which calls Sysfile and Life; Sysfile opens files
  through Fs inside \<open>begin_op\<close> and \<open>end_op\<close> of Log; Fs reads blocks through the cache and changes them
  through \<open>log_write\<close>; Log writes them out at the commit, through Bio, which calls Virtio. Pipes and the
  console sleep and wake through Proc. Every page, of a process, of a page table, of a pipe, is Kalloc's.

  How state and operations correspond to the code
  ===============================================

  The state is a chain of records, each extending the one before by what the components of the next
  layer keep, so that an operation of a lower layer works on every state above it unchanged:
  \<open>kmem_state\<close> (memory, free list) in \<open>proc_state\<close> (process table, CPUs, clock) in \<open>log_state\<close> (disk,
  cache as overlay, log) in \<open>fs_state\<close> (super block, inode table) in \<open>con_state\<close> (console, UART) in
  \<open>file_state\<close> (open files, pipes) in \<open>vd_state\<close> (the disk queue) in \<open>trap_state\<close> (harts, PLIC).
  An operation has the name of its C function and takes the process (\<open>me\<close>) or CPU (\<open>c\<close>) it runs for.
  Integers keep their width: \<open>uint64\<close> is \<open>64 word\<close>, an \<open>int\<close> that a system call returns is read with
  \<open>sint\<close>. Three C \<open>int\<close>s that only count are unbounded: the nesting depth \<open>noff\<close> of a CPU and the
  reference count of an inode, which stay far below \<open>2 ^ 31\<close>, and \<open>nextpid\<close>, which reaches it after that many
  forks. Addresses are \<open>64 word\<close>, and the free list, page tables, user memory and trap frames lie in byte
  memory. The page of a pipe comes from \<open>kalloc\<close> and goes back to \<open>kfree\<close>, but what the kernel keeps in it
  is the record \<open>pipe\<close>, with the bytes of its ring as a function; likewise the headers of \<open>umalloc.c\<close> are two
  functions from addresses to fields, not bytes, so that a program that writes over a header is
  outside the model. A page fault of the kernel, such as a null pointer, is \<open>Panic ''kerneltrap''\<close>, what the
  handler then does.

  Spin locks that are taken and released inside one function are the boundaries of an atomic section and
  are not kept in the state; where the protocol of the lock is the point (Spinlock, Sched, Sleeplock) its
  steps are explicit. An operation that may sleep ends in \<open>Hang\<close>, or returns \<open>Asleep\<close> with the point at
  which it goes on, and the theories on interleaving (Pipe_Correct, Life_Correct, Log_Admit, Sleeplock,
  Virtio_Correct) give what other processes and interrupts do in between as an inductive step relation.
  What is not C of the repository is a parameter: \<open>swtch\<close>, what the devices answer, the system calls that
  user programs make. The log is modelled over the contract of the cache, which Bio_Correct proves for
  the real lists, and writes blocks to the disk in the order in which the code does, which is what a
  crash can cut short.

  Interfaces
  ==========

  \<open>store\<close>, extended by \<open>fifo\<close> and \<open>lifo\<close>: put and get of a container and the history law; interpreted
  by the page allocator (\<open>kmem\<close>), the unmodified one (\<open>base\<close>) and the ring of a pipe (\<open>pipe\<close>);
  \<open>owned_store\<close>, for clients whose puts succeed, by the two allocators (\<open>kmem_owned\<close>, \<open>base_owned\<close>).
  \<open>block_cache\<close>: what the log relies on in \<open>bread\<close>, \<open>bwrite\<close>, \<open>brelse\<close>; interpreted by \<open>bio.c\<close> (\<open>bc\<close>).
  \<open>byte_source\<close>: \<open>read\<close> as programs see it; interpreted by inodes of the file system (\<open>inode_src\<close>).
  \<open>descriptors\<close>: open, close and dup as the shell relies on them; interpreted by the table of the model
  of the shell (\<open>tab\<close>) and by \<open>fdalloc\<close> and \<open>proc.ofile\<close> of the kernel (\<open>kern\<close>).
  \<open>inductive_invariant\<close>: interpreted by every step relation (\<open>spin\<close>, \<open>slp\<close>, \<open>pipe_runs\<close>, \<open>admit\<close>, \<open>vd\<close>,
  \<open>umem\<close>); the properties that hold in all reachable states rest on these.

  What the lemmas show
  ====================

  Allocation: pages are handed out first in, first out over any history, \<open>kinit\<close> frees every page once,
  \<open>mappages\<close> and \<open>uvmunmap\<close> are one-point updates of the map a page table stands for, \<open>sbrk\<close> keeps the
  size of a process in bounds.
  Processes: mutual exclusion of spin locks, no lost wakeup in sleep locks, the scheduler's choice and
  the order it gives when processes exit, wait and wake each other, \<open>kwait\<close> on every branch with the exit
  status delivered, and that no parent sleeps while a child is a zombie.
  Storage: the cache returns the block last written, a commit is atomic under a crash at any point,
  recovery may crash and start again, the log never overflows, and on these \<open>balloc\<close>, \<open>bfree\<close>, \<open>readi\<close>,
  \<open>writei\<close>, \<open>dirlookup\<close>, \<open>dirlink\<close> and \<open>namex\<close> do to bitmap, contents, names and paths what they should
  and nothing else.
  Devices: the disk driver never panics and conserves its descriptors, the console is a line editor, a
  pipe delivers the bytes written in order.
  Programs: \<open>grep\<close> writes the lines that match, matching is membership in a regular language, \<open>malloc\<close>
  gives blocks that hold what was asked for and never overlap (for requests below 2 GB, where the count
  of units does not wrap), and 0 only if nothing fits and \<open>sbrk\<close> fails, \<open>printf\<close> agrees with \<open>printk\<close>, the shell's parser returns on every line,
  stays in the bounds of its arrays and inverts printing, and the processes of a session have the
  descriptors that the lines say.

  Loops, fuel and bounds
  ======================

  Loops over a range are recursion on the range or on a measure. A loop whose end depends on data is a
  \<open>partial_function\<close> with \<open>None\<close> for not returning (the walks of lists in Bio, Kalloc and Umalloc, the
  loops to a wrapped address in Vm, strings without NUL, programs that read to the end of a file), and
  the properties show that it returns. Fuel: \<open>free_chain\<close> has \<open>NUM + 1\<close> turns and visits a descriptor at
  most once; the parser has \<open>line_fuel\<close>, four turns for each byte, and \<open>parser_returns\<close> shows that this is
  enough for every line; \<open>open_console\<close> has four, the number of descriptors it can find free; the loop of
  the shell needs one turn more than there are lines. Running out is a value of its own (\<open>Hang\<close>,
  \<open>PStuck\<close>), which the properties exclude. Bounds are those of the code: \<open>NPROC\<close>, \<open>NBUF\<close>, \<open>LOGBLOCKS\<close>,
  \<open>MAXFILE\<close>, \<open>NUM\<close>, \<open>MAXARGS\<close>.

  Not modelled
  ============

  Assembly (\<open>entry.S\<close>, \<open>swtch.S\<close>, \<open>trampoline.S\<close>, \<open>kernelvec.S\<close>) and the access to control registers are
  hardware; build files, linker scripts and \<open>usys.pl\<close> are not part of the running system. The test
  programs (\<open>usertests.c\<close>, \<open>grind.c\<close>, \<open>stressfs.c\<close>, \<open>forktest.c\<close>, \<open>logstress.c\<close>, \<open>forphan.c\<close>,
  \<open>dorphan.c\<close>) have no contract of their own. The unmodified copy is modelled where it differs. The
  messages that the file system and the allocator print are left out of their state, and so is the rest
  of the line that \<open>parsecmd\<close> prints before a syntax error. The disk reports success for every request it
  completes, and completes none while the interrupt handler runs. In the shell,
  allocation succeeds, as the constructors take for granted, and \<open>fork\<close> does not fail in a run. Weak
  memory is not modelled: the steps of CPUs and devices are interleaved.
\<close>

end
